(* ===== verification/Prelude80s.thy ===== *)
theory Prelude80s
  imports Main "HOL-Library.Word" "HOL-Library.Sublist"
begin

text \<open>
  Shared vocabulary of the development: bytes and the C memory they live in, \<open>size_t\<close>
  arithmetic, the allocator the server calls, the values a Lua binding receives and returns, and
  the generic lemmas on lists and memory blocks the components use.

  Conventions.  A C \<open>char\<close> is an 8-bit word; where the code uses it as a number the model
  reads it with \<^verbatim>\<open>sint\<close>, because \<open>char\<close> is signed on the x86-64 targets the build
  scripts produce code for.  A \<open>size_t\<close> is a natural number reduced modulo \<open>2 ^ 64\<close> where
  the code computes one (\<open>sz\<close>).  A memory block is the list of its bytes; an access
  outside its block is the explicit value \<^verbatim>\<open>None\<close>, so that a theorem that some call
  returns \<^verbatim>\<open>Some\<close> also says that no access was out of bounds.
\<close>

unbundle bit_operations_syntax

section \<open>Bytes, sizes and blocks\<close>

type_synonym byte = "8 word"

named_theorems mem_simps "rewriting memory blocks: lengths, prefixes and reads after a write"

abbreviation (input) c_nul :: byte where "c_nul \<equiv> 0"
abbreviation (input) c_bs :: byte where "c_bs \<equiv> 8"
abbreviation (input) c_tab :: byte where "c_tab \<equiv> 9"
abbreviation (input) c_lf :: byte where "c_lf \<equiv> 10"
abbreviation (input) c_cr :: byte where "c_cr \<equiv> 13"
abbreviation (input) c_space :: byte where "c_space \<equiv> 32"
abbreviation (input) c_dquote :: byte where "c_dquote \<equiv> 34"
abbreviation (input) c_percent :: byte where "c_percent \<equiv> 37"
abbreviation (input) c_amp :: byte where "c_amp \<equiv> 38"
abbreviation (input) c_squote :: byte where "c_squote \<equiv> 39"
abbreviation (input) c_plus :: byte where "c_plus \<equiv> 43"
abbreviation (input) c_comma :: byte where "c_comma \<equiv> 44"
abbreviation (input) c_minus :: byte where "c_minus \<equiv> 45"
abbreviation (input) c_dot :: byte where "c_dot \<equiv> 46"
abbreviation (input) c_colon :: byte where "c_colon \<equiv> 58"
abbreviation (input) c_lt :: byte where "c_lt \<equiv> 60"
abbreviation (input) c_gt :: byte where "c_gt \<equiv> 62"
abbreviation (input) c_lbracket :: byte where "c_lbracket \<equiv> 91"
abbreviation (input) c_backslash :: byte where "c_backslash \<equiv> 92"
abbreviation (input) c_rbracket :: byte where "c_rbracket \<equiv> 93"
abbreviation (input) c_lbrace :: byte where "c_lbrace \<equiv> 123"
abbreviation (input) c_rbrace :: byte where "c_rbrace \<equiv> 125"

lemma byte_lt [simp]: "unat (c :: byte) < 256"
  using unsigned_less [of c, where ?'a = nat] by simp

lemma byte_eq_iff: "(c :: byte) = d \<longleftrightarrow> unat c = unat d"
  by (simp add: word_unat_eq_iff)

text \<open>A byte read as a signed \<open>char\<close>.\<close>

lemma sint_byte:
  "sint (c :: byte) = (if unat c < 128 then int (unat c) else int (unat c) - 256)"
proof -
  define u where "u = int (unat c)"
  have "unat c < 256" by (rule byte_lt)
  then have u: "0 \<le> u" "u < 256" unfolding u_def by linarith+
  have "sint c = signed_take_bit 7 u"
    by (simp add: sint_uint u_def)
  also have "\<dots> = (u + 128) mod 256 - 128"
    by (simp add: signed_take_bit_eq_take_bit_shift take_bit_eq_mod)
  also have "\<dots> = (if u < 128 then u else u - 256)"
  proof (cases "u < 128")
    case True
    then show ?thesis using u by (simp add: mod_pos_pos_trivial)
  next
    case False
    have "(u + 128) mod 256 = (u - 128 + 256) mod 256" by (simp add: algebra_simps)
    also have "\<dots> = (u - 128) mod 256" by (rule mod_add_self2)
    also have "\<dots> = u - 128" using False u by (simp add: mod_pos_pos_trivial)
    finally show ?thesis using False by simp
  qed
  finally have eq: "sint c = (if u < 128 then u else u - 256)" .
  have iff: "(u < 128) = (unat c < 128)" unfolding u_def by linarith
  show ?thesis using eq unfolding iff by (simp only: u_def)
qed

lemma sint_byte_ascii: "unat (c :: byte) < 128 \<Longrightarrow> sint c = int (unat c)"
  by (simp only: sint_byte if_True)

lemma sint_byte_high: "128 \<le> unat (c :: byte) \<Longrightarrow> sint c < 0"
proof -
  assume "128 \<le> unat c"
  then have "\<not> unat c < 128" by (simp only: not_less)
  then show ?thesis unfolding sint_byte using byte_lt [of c] by (simp only: if_False)
qed

text \<open>The bytes of a C string literal.\<close>

definition cstr :: "string \<Rightarrow> byte list" where
  "cstr s = map of_char s"

text \<open>Reduction of a computed \<open>size_t\<close>.\<close>

definition sz :: "nat \<Rightarrow> nat" where
  "sz n = n mod 2 ^ 64"

lemma sz_small [simp]: "n < 2 ^ 64 \<Longrightarrow> sz n = n"
  by (simp add: sz_def)

text \<open>
  Storing a run of bytes at an offset of a block (\<open>memcpy\<close>, or a single \<open>p[i] = c\<close>):
  \<^verbatim>\<open>None\<close> when the run does not fit.
\<close>

definition poke :: "byte list \<Rightarrow> nat \<Rightarrow> byte list \<Rightarrow> byte list option" where
  "poke mem off bs =
     (if off + length bs \<le> length mem
      then Some (take off mem @ bs @ drop (off + length bs) mem) else None)"

lemma poke_fits: "off + length bs \<le> length mem \<Longrightarrow>
    poke mem off bs = Some (take off mem @ bs @ drop (off + length bs) mem)"
  by (simp add: poke_def)

lemma poke_length [mem_simps]: "poke mem off bs = Some mem' \<Longrightarrow> length mem' = length mem"
  by (auto simp: poke_def split: if_splits)

lemma poke_take [mem_simps]:
  "poke mem off bs = Some mem' \<Longrightarrow> take (off + length bs) mem' = take off mem @ bs"
  by (auto simp: poke_def split: if_splits)

section \<open>The allocator\<close>

text \<open>
  What \<open>malloc\<close>, \<open>calloc\<close> and \<open>realloc\<close> answer to a request of some size: nothing, or a
  block whose bytes are arbitrary.  The size a dynamic string asks for only grows while it is given
  what it asks for, so within one string a request is repeated only after it was refused; a function
  of the size then refuses it again, where a C library may give the memory the second time.
\<close>

type_synonym allocator = "nat \<Rightarrow> (nat \<Rightarrow> byte) option"

definition c_calloc :: "allocator \<Rightarrow> nat \<Rightarrow> byte list option" where
  "c_calloc A n = (case A n of None \<Rightarrow> None | Some junk \<Rightarrow> Some (replicate n 0))"

definition c_realloc :: "allocator \<Rightarrow> byte list \<Rightarrow> nat \<Rightarrow> byte list option" where
  "c_realloc A old n =
     (case A n of None \<Rightarrow> None
      | Some junk \<Rightarrow> Some (take n old @ map junk [length old..<n]))"

definition reliable :: "allocator \<Rightarrow> bool" where
  "reliable A \<longleftrightarrow> (\<forall>n. A n \<noteq> None)"

lemma c_calloc_length [mem_simps]: "c_calloc A n = Some blk \<Longrightarrow> length blk = n"
  by (auto simp: c_calloc_def split: option.splits)

lemma c_realloc_length [mem_simps]:
  "c_realloc A old n = Some blk \<Longrightarrow> length blk = n"
  by (auto simp: c_realloc_def split: option.splits)

lemma c_realloc_take [mem_simps]:
  "c_realloc A old n = Some blk \<Longrightarrow> k \<le> length old \<Longrightarrow> k \<le> n \<Longrightarrow> take k blk = take k old"
  by (auto simp: c_realloc_def split: option.splits)

lemma reliable_calloc: "reliable A \<Longrightarrow> c_calloc A n \<noteq> None"
  by (auto simp: reliable_def c_calloc_def split: option.splits)

lemma reliable_realloc: "reliable A \<Longrightarrow> c_realloc A old n \<noteq> None"
  by (auto simp: reliable_def c_realloc_def split: option.splits)

section \<open>Lua values and the results of a binding\<close>

text \<open>
  The values a C function of the Lua binding finds on its stack and leaves there.  A table is
  the list of its entries in the order \<open>lua_next\<close> enumerates them; a float is its bit
  pattern (no theorem computes with one).
\<close>

datatype lua_value =
    LNil
  | LBool bool
  | LInt int
  | LFloat "64 word"
  | LStr "byte list"
  | LLight nat
  | LTable "(lua_value \<times> lua_value) list"

text \<open>\<open>lua_type(L, i) == LUA_TNUMBER\<close>.\<close>

definition lua_isnum :: "lua_value \<Rightarrow> bool" where
  "lua_isnum v = (case v of LInt i \<Rightarrow> True | LFloat x \<Rightarrow> True | _ \<Rightarrow> False)"

text \<open>\<open>t[k] = v\<close>: a nil value removes the entry.\<close>

fun table_set :: "(lua_value \<times> lua_value) list \<Rightarrow> lua_value \<Rightarrow> lua_value \<Rightarrow> (lua_value \<times> lua_value) list" where
  "table_set [] k v = (if v = LNil then [] else [(k, v)])"
| "table_set ((k', v') # es) k v =
     (if k' = k then (if v = LNil then es else (k, v) # es) else (k', v') # table_set es k v)"

lemma table_set_fresh: "k \<notin> set (map fst es) \<Longrightarrow> v \<noteq> LNil \<Longrightarrow> table_set es k v = es @ [(k, v)]"
  by (induction es) auto

text \<open>
  How a binding ends: it returns values to Lua, raises a Lua error (\<open>luaL_error\<close>), or has
  accessed memory it does not own, after which C says nothing.
\<close>

datatype lua_result =
    Fault
  | LuaError string
  | Returns "lua_value list"

text \<open>
  The result of a step that may also raise a Lua error: \<^verbatim>\<open>None\<close> is a fault (or no end
  within the given number of steps), \<open>Inl\<close> the error.
\<close>

type_synonym 'a outcome = "(string + 'a) option"

definition andthen :: "'a outcome \<Rightarrow> ('a \<Rightarrow> 'b outcome) \<Rightarrow> 'b outcome" where
  "andthen m f = (case m of None \<Rightarrow> None | Some (Inl e) \<Rightarrow> Some (Inl e) | Some (Inr x) \<Rightarrow> f x)"

section \<open>Generic lemmas\<close>

lemma option_bind_SomeI: "m = Some x \<Longrightarrow> f x = r \<Longrightarrow> Option.bind m f = r"
  by simp

lemma concat_map_singleton_id [simp]: "concat (map (\<lambda>x. [x]) xs) = xs"
  by (induction xs) auto

lemma length_concat_map_le:
  "(\<And>x. x \<in> set xs \<Longrightarrow> length (f x) \<le> k) \<Longrightarrow> length (concat (map f xs)) \<le> k * length xs"
  by (induction xs) (auto intro: add_mono)

lemma set_concat_map: "set (concat (map f xs)) = (\<Union>x\<in>set xs. set (f x))"
  by auto

end
