(* ===== verification/Dynstr.thy ===== *)
theory Dynstr
  imports Prelude80s
begin

text \<open>
  The growable byte buffer of \<^verbatim>\<open>src/80s/dynstr.c\<close>: a buffer that starts in a stack array
  and moves to the heap when it must grow.  Every encoder of the server writes through it.

  A function returns \<^verbatim>\<open>None\<close> when it would write outside the block \<open>ptr\<close> points to,
  and otherwise its C return value (a bool) with the updated structure.
\<close>

section \<open>The structure and its operations\<close>

record dynstr =
  ds_ok :: bool
  on_stack :: bool
  ds_size :: nat
  ds_length :: nat
  ds_ptr :: "byte list"

text \<open>A null \<open>stkData\<close> is the empty block.\<close>

definition dynstr_init :: "byte list option \<Rightarrow> nat \<Rightarrow> dynstr" where
  "dynstr_init stkData stk_size =
     \<lparr>ds_ok = True, on_stack = (stkData \<noteq> None),
      ds_size = (if stkData \<noteq> None then stk_size else 0), ds_length = 0,
      ds_ptr = (case stkData of None \<Rightarrow> [] | Some blk \<Rightarrow> blk)\<rparr>"

definition dynstr_check :: "allocator \<Rightarrow> dynstr \<Rightarrow> nat \<Rightarrow> (bool \<times> dynstr) option" where
  "dynstr_check A self space =
     (if ds_size self \<le> sz (ds_length self + space) then
        (let new_size = sz (ds_size self + space + ds_size self div 2 + 65536) in
         if on_stack self then
           (case c_calloc A new_size of
              None \<Rightarrow> Some (False, self\<lparr>ds_ok := False\<rparr>)
            | Some arr \<Rightarrow>
                (case poke arr 0 (take (ds_length self) (ds_ptr self)) of
                   None \<Rightarrow> None
                 | Some arr' \<Rightarrow>
                     Some (True, self\<lparr>on_stack := False, ds_ptr := arr', ds_size := new_size\<rparr>)))
         else
           (case c_realloc A (ds_ptr self) new_size of
              None \<Rightarrow> Some (False, self\<lparr>ds_ok := False\<rparr>)
            | Some arr \<Rightarrow> Some (True, self\<lparr>ds_ptr := arr, ds_size := new_size\<rparr>)))
      else Some (True, self))"

text \<open>\<open>memcpy(self->ptr + self->length, data, len); self->length += len;\<close>\<close>

definition dynstr_append :: "dynstr \<Rightarrow> byte list \<Rightarrow> dynstr option" where
  "dynstr_append self data =
     (case poke (ds_ptr self) (ds_length self) data of
        None \<Rightarrow> None
      | Some mem \<Rightarrow> Some (self\<lparr>ds_ptr := mem, ds_length := sz (ds_length self + length data)\<rparr>))"

definition dynstr_putc :: "allocator \<Rightarrow> dynstr \<Rightarrow> byte \<Rightarrow> (bool \<times> dynstr) option" where
  "dynstr_putc A self c =
     (case dynstr_check A self 1 of
        None \<Rightarrow> None
      | Some (r, self') \<Rightarrow>
          if \<not> r then Some (False, self')
          else map_option (Pair True) (dynstr_append self' [c]))"

definition dynstr_puts :: "allocator \<Rightarrow> dynstr \<Rightarrow> byte list \<Rightarrow> (bool \<times> dynstr) option" where
  "dynstr_puts A self data =
     (case dynstr_check A self (length data) of
        None \<Rightarrow> None
      | Some (r, self') \<Rightarrow>
          if \<not> r then Some (False, self')
          else map_option (Pair True) (dynstr_append self' data))"

text \<open>\<open>strlen\<close>: the bytes before the first NUL.\<close>

definition dynstr_putsz :: "allocator \<Rightarrow> dynstr \<Rightarrow> byte list \<Rightarrow> (bool \<times> dynstr) option" where
  "dynstr_putsz A self data = dynstr_puts A self (takeWhile (\<lambda>b. b \<noteq> 0) data)"

text \<open>
  What \<open>snprintf(ptr + length, buf_size, ...)\<close> stores when the formatted text is \<open>tx\<close>: at most
  \<open>buf_size - 1\<close> bytes of it and a NUL, nothing when \<open>buf_size\<close> is 0.  It returns the length of
  the whole text as an \<open>int\<close>, -1 when that does not fit; the code uses it as a \<open>size_t\<close>.  The
  formatting itself belongs to the C library: the text is an argument.
\<close>

definition snprintf_at :: "byte list \<Rightarrow> nat \<Rightarrow> nat \<Rightarrow> byte list \<Rightarrow> byte list option" where
  "snprintf_at mem off buf_size tx =
     (if buf_size = 0 then Some mem else poke mem off (take (buf_size - 1) tx @ [0]))"

definition snprintf_ret :: "byte list \<Rightarrow> nat" where
  "snprintf_ret tx = (if length tx < 2 ^ 31 then length tx else 2 ^ 64 - 1)"

definition dynstr_putfmt :: "allocator \<Rightarrow> dynstr \<Rightarrow> byte list \<Rightarrow> (bool \<times> dynstr) option" where
  "dynstr_putfmt A self tx =
     (let buf_size = ds_size self - ds_length self; written = snprintf_ret tx in
      case snprintf_at (ds_ptr self) (ds_length self) buf_size tx of
        None \<Rightarrow> None
      | Some mem \<Rightarrow>
         (let self1 = self\<lparr>ds_ptr := mem\<rparr> in
          if written < buf_size then
            Some (True, self1\<lparr>ds_length := sz (ds_length self1 + written)\<rparr>)
          else
           (case dynstr_check A self1 written of
              None \<Rightarrow> None
            | Some (r, self2) \<Rightarrow>
                if \<not> r then Some (False, self2)
                else
                  (case snprintf_at (ds_ptr self2) (ds_length self2)
                          (ds_size self2 - ds_length self2) tx of
                     None \<Rightarrow> None
                   | Some mem' \<Rightarrow>
                       Some (True, self2\<lparr>ds_ptr := mem',
                               ds_length := sz (ds_length self2 + snprintf_ret tx)\<rparr>)))))"

text \<open>\<open>dynstr_putg\<close> is the same text with \<open>"%.20g"\<close> and the number in place of the
  caller's format and arguments.\<close>

definition dynstr_putg :: "allocator \<Rightarrow> (lua_value \<Rightarrow> byte list) \<Rightarrow> dynstr \<Rightarrow> lua_value \<Rightarrow>
    (bool \<times> dynstr) option" where
  "dynstr_putg A fmt_g self num = dynstr_putfmt A self (fmt_g num)"

definition dynstr_release :: "dynstr \<Rightarrow> dynstr" where
  "dynstr_release self =
     (if \<not> on_stack self \<and> ds_ptr self \<noteq> [] then self\<lparr>ds_ptr := []\<rparr> else self)"


section \<open>The invariant and what each operation does\<close>

text \<open>
  \<open>mem_limit\<close> bounds the text one buffer is asked to hold: a process on x86-64 addresses
  \<open>2 ^ 47\<close> bytes, so no Lua string, and no text built from one, is longer.  Under it no
  \<open>size_t\<close> of \<open>dynstr_check\<close> wraps.
\<close>

definition mem_limit :: nat where
  "mem_limit = 2 ^ 48"

text \<open>A text that \<open>snprintf\<close> can measure in an \<open>int\<close>.\<close>

definition fmt_limit :: nat where
  "fmt_limit = 2 ^ 31 - 1"

definition dynstr_wf :: "dynstr \<Rightarrow> bool" where
  "dynstr_wf s \<longleftrightarrow> length (ds_ptr s) = ds_size s \<and> ds_length s \<le> ds_size s \<and>
     ds_size s \<le> 3 * mem_limit + 65536"

definition dynstr_text :: "dynstr \<Rightarrow> byte list" where
  "dynstr_text s = take (ds_length s) (ds_ptr s)"

lemma dynstr_text_length [simp]: "dynstr_wf s \<Longrightarrow> length (dynstr_text s) = ds_length s"
  by (simp add: dynstr_text_def dynstr_wf_def)

lemma dynstr_init_wf:
  "length blk \<le> mem_limit \<Longrightarrow> dynstr_wf (dynstr_init (Some blk) (length blk))"
  by (simp add: dynstr_wf_def dynstr_init_def)

lemma dynstr_init_text [simp]: "dynstr_text (dynstr_init blk n) = []"
  by (simp add: dynstr_text_def dynstr_init_def)

lemma dynstr_init_length [simp]: "ds_length (dynstr_init blk n) = 0"
  by (simp add: dynstr_init_def)

lemma check_new_size:
  assumes "dynstr_wf s" and "ds_length s + space \<le> mem_limit"
    and "ds_size s \<le> ds_length s + space"
  shows "sz (ds_size s + space + ds_size s div 2 + 65536)
      = ds_size s + space + ds_size s div 2 + 65536"
    and "ds_size s + space + ds_size s div 2 + 65536 \<le> 3 * mem_limit + 65536"
  using assms by (simp_all add: dynstr_wf_def mem_limit_def)

lemma sz_used_plus:
  "ds_length s + space \<le> mem_limit \<Longrightarrow> sz (ds_length s + space) = ds_length s + space"
  by (simp add: mem_limit_def)

lemma dynstr_check_cases:
  assumes wf: "dynstr_wf s" and lim: "ds_length s + space \<le> mem_limit"
  obtains (grown) s' where "dynstr_check A s space = Some (True, s')" and "dynstr_wf s'"
      and "dynstr_text s' = dynstr_text s" and "ds_length s' = ds_length s"
      and "ds_length s + space < ds_size s'" and "ds_ok s' = ds_ok s"
  | (failed) "dynstr_check A s space = Some (False, s\<lparr>ds_ok := False\<rparr>)" and "\<not> reliable A"
proof (cases "ds_size s \<le> ds_length s + space")
  case False
  then show ?thesis
    using wf lim by (intro grown [of s]) (auto simp: dynstr_check_def sz_used_plus)
next
  case True
  let ?n = "ds_size s + space + ds_size s div 2 + 65536"
  have n: "sz ?n = ?n" "?n \<le> 3 * mem_limit + 65536"
    using check_new_size [OF wf lim True] by simp_all
  have len: "ds_length s \<le> ds_size s" "length (ds_ptr s) = ds_size s"
    using wf by (simp_all add: dynstr_wf_def)
  show ?thesis
  proof (cases "on_stack s")
    case stk: True
    show ?thesis
    proof (cases "c_calloc A ?n")
      case None
      then show ?thesis
        using True stk lim n reliable_calloc [of A ?n]
        by (intro failed) (auto simp: dynstr_check_def sz_used_plus)
    next
      case (Some arr)
      then have "length arr = ?n" by (rule c_calloc_length)
      with len obtain arr' where p: "poke arr 0 (take (ds_length s) (ds_ptr s)) = Some arr'"
        by (auto simp: poke_def)
      have "length arr' = ?n" using p \<open>length arr = ?n\<close> by (simp add: poke_length)
      moreover have "take (ds_length s) arr' = take (ds_length s) (ds_ptr s)"
        using poke_take [OF p] len by (simp add: min_def split: if_splits)
      ultimately show ?thesis
        using True stk Some p n len lim
        by (intro grown [of "s\<lparr>on_stack := False, ds_ptr := arr', ds_size := ?n\<rparr>"])
          (auto simp: dynstr_check_def sz_used_plus dynstr_wf_def dynstr_text_def)
    qed
  next
    case heap: False
    show ?thesis
    proof (cases "c_realloc A (ds_ptr s) ?n")
      case None
      then show ?thesis
        using True heap lim n reliable_realloc [of A "ds_ptr s" ?n]
        by (intro failed) (auto simp: dynstr_check_def sz_used_plus)
    next
      case (Some arr)
      have "length arr = ?n" using Some by (rule c_realloc_length)
      moreover have "take (ds_length s) arr = take (ds_length s) (ds_ptr s)"
        using c_realloc_take [OF Some, of "ds_length s"] len by simp
      ultimately show ?thesis
        using True heap Some n len lim
        by (intro grown [of "s\<lparr>ds_ptr := arr, ds_size := ?n\<rparr>"])
          (auto simp: dynstr_check_def sz_used_plus dynstr_wf_def dynstr_text_def)
    qed
  qed
qed

lemma dynstr_append_step:
  assumes "dynstr_wf s" and "ds_length s + length bs \<le> mem_limit"
    and "ds_length s + length bs \<le> ds_size s"
  shows "\<exists>s'. dynstr_append s bs = Some s' \<and> dynstr_wf s' \<and> ds_ok s' = ds_ok s \<and>
    dynstr_text s' = dynstr_text s @ bs \<and> ds_length s' = ds_length s + length bs"
proof -
  obtain mem where p: "poke (ds_ptr s) (ds_length s) bs = Some mem"
    using assms by (auto simp: poke_def dynstr_wf_def)
  have "length mem = ds_size s"
    using p assms(1) by (simp add: poke_length dynstr_wf_def)
  then show ?thesis
    using p poke_take [OF p] assms
    by (auto simp: dynstr_append_def dynstr_wf_def dynstr_text_def sz_used_plus)
qed

lemma dynstr_puts_step:
  assumes "dynstr_wf s" and "length (dynstr_text s) + length bs \<le> mem_limit"
  shows "\<exists>r s'. dynstr_puts A s bs = Some (r, s') \<and> dynstr_wf s' \<and>
    dynstr_text s' = (if r then dynstr_text s @ bs else dynstr_text s) \<and> (reliable A \<longrightarrow> r)"
proof -
  have lim: "ds_length s + length bs \<le> mem_limit" using assms by simp
  from assms(1) lim show ?thesis
  proof (cases rule: dynstr_check_cases [where A = A])
    case (grown s')
    with lim obtain s'' where "dynstr_append s' bs = Some s''" "dynstr_wf s''"
        "dynstr_text s'' = dynstr_text s' @ bs"
      using dynstr_append_step [of s' bs] by auto
    with grown show ?thesis by (auto simp: dynstr_puts_def)
  next
    case failed
    then show ?thesis
      using assms(1) by (auto simp: dynstr_puts_def dynstr_wf_def dynstr_text_def)
  qed
qed

lemma dynstr_putc_puts: "dynstr_putc A s c = dynstr_puts A s [c]"
  by (simp add: dynstr_putc_def dynstr_puts_def)

lemma snprintf_at_total:
  assumes "off + n \<le> length mem"
  shows "\<exists>mem'. snprintf_at mem off n tx = Some mem' \<and> length mem' = length mem \<and>
    take off mem' = take off mem \<and> (length tx < n \<longrightarrow> take (off + length tx) mem' = take off mem @ tx)"
  using assms by (auto simp: snprintf_at_def poke_def min_def)

lemma dynstr_putfmt_step:
  assumes wf: "dynstr_wf s" and lim: "length (dynstr_text s) + length tx \<le> fmt_limit"
  shows "\<exists>r s'. dynstr_putfmt A s tx = Some (r, s') \<and> dynstr_wf s' \<and>
    dynstr_text s' = (if r then dynstr_text s @ tx else dynstr_text s) \<and> (reliable A \<longrightarrow> r) \<and>
    (r \<longrightarrow> ds_ok s' = ds_ok s)"
proof -
  have l: "ds_length s + length tx \<le> mem_limit" and tx: "snprintf_ret tx = length tx"
    using wf lim by (simp_all add: mem_limit_def fmt_limit_def snprintf_ret_def)
  have "ds_length s + (ds_size s - ds_length s) \<le> length (ds_ptr s)"
    using wf by (simp add: dynstr_wf_def)
  from snprintf_at_total [OF this, of tx] obtain mem where
    m: "snprintf_at (ds_ptr s) (ds_length s) (ds_size s - ds_length s) tx = Some mem"
      "length mem = length (ds_ptr s)" "take (ds_length s) mem = take (ds_length s) (ds_ptr s)"
      "length tx < ds_size s - ds_length s \<longrightarrow>
        take (ds_length s + length tx) mem = take (ds_length s) (ds_ptr s) @ tx"
    by blast
  let ?s1 = "s\<lparr>ds_ptr := mem\<rparr>"
  have wf1: "dynstr_wf ?s1" and t1: "dynstr_text ?s1 = dynstr_text s"
    using wf m by (simp_all add: dynstr_wf_def dynstr_text_def)
  show ?thesis
  proof (cases "length tx < ds_size s - ds_length s")
    case True
    then have "dynstr_putfmt A s tx = Some (True, ?s1\<lparr>ds_length := ds_length s + length tx\<rparr>)"
      using m(1) l tx by (simp add: dynstr_putfmt_def sz_used_plus)
    moreover have "dynstr_wf (?s1\<lparr>ds_length := ds_length s + length tx\<rparr>)"
      using True wf1 by (simp add: dynstr_wf_def)
    moreover have "dynstr_text (?s1\<lparr>ds_length := ds_length s + length tx\<rparr>) = dynstr_text s @ tx"
      using True m(4) by (simp add: dynstr_text_def)
    ultimately show ?thesis by auto
  next
    case False
    have l1: "ds_length ?s1 + length tx \<le> mem_limit" using l by simp
    from wf1 l1 show ?thesis
    proof (cases rule: dynstr_check_cases [where A = A])
      case failed
      then show ?thesis
        using False m wf1 t1 tx by (auto simp: dynstr_putfmt_def dynstr_wf_def dynstr_text_def)
    next
      case (grown s2)
      have "ds_length s2 + (ds_size s2 - ds_length s2) \<le> length (ds_ptr s2)"
        using grown(2) by (simp add: dynstr_wf_def)
      from snprintf_at_total [OF this, of tx] grown(2,4,5)
      obtain mem' where
        m': "snprintf_at (ds_ptr s2) (ds_length s2) (ds_size s2 - ds_length s2) tx = Some mem'"
          "length mem' = length (ds_ptr s2)"
          "take (ds_length s2 + length tx) mem' = take (ds_length s2) (ds_ptr s2) @ tx"
        by (auto simp: dynstr_wf_def)
      then have "dynstr_putfmt A s tx =
          Some (True, s2\<lparr>ds_ptr := mem', ds_length := ds_length s2 + length tx\<rparr>)"
        using False m grown tx l by (simp add: dynstr_putfmt_def sz_used_plus)
      then show ?thesis
        using m' grown t1 by (auto simp: dynstr_wf_def dynstr_text_def)
    qed
  qed
qed

lemma dynstr_putsz_step:
  assumes "dynstr_wf s" and "length (dynstr_text s) + length bs \<le> mem_limit"
  shows "\<exists>r s'. dynstr_putsz A s bs = Some (r, s') \<and> dynstr_wf s' \<and>
    dynstr_text s' = (if r then dynstr_text s @ takeWhile (\<lambda>b. b \<noteq> 0) bs else dynstr_text s) \<and>
    (reliable A \<longrightarrow> r)"
  unfolding dynstr_putsz_def
proof (rule dynstr_puts_step [OF assms(1)])
  show "length (dynstr_text s) + length (takeWhile (\<lambda>b. b \<noteq> 0) bs) \<le> mem_limit"
    using assms(2) length_takeWhile_le [of "\<lambda>b. b \<noteq> 0" bs] by linarith
qed


section \<open>The interface the encoders write through\<close>

text \<open>
  The loops of the encoders write one chunk per input element and ignore the result of each
  write: \<^verbatim>\<open>for(...) dynstr_puts(&str, chunk, n);\<close>
\<close>

primrec for_each :: "('s \<Rightarrow> 'a \<Rightarrow> (bool \<times> 's) option) \<Rightarrow> 'a list \<Rightarrow> 's \<Rightarrow> 's option" where
  "for_each put [] s = Some s"
| "for_each put (x # xs) s =
     (case put s x of None \<Rightarrow> None | Some (r, s') \<Rightarrow> for_each put xs s')"

text \<open>
  What they rely on: within a size limit a write is memory safe, keeps the well-formedness of
  the buffer, appends the whole chunk or nothing, and cannot fail when memory is available.
\<close>

locale byte_sink =
  fixes put :: "'s \<Rightarrow> byte list \<Rightarrow> (bool \<times> 's) option"
    and written :: "'s \<Rightarrow> byte list"
    and wf :: "'s \<Rightarrow> bool"
    and limit :: nat
    and sure :: bool
  assumes put_step: "wf s \<Longrightarrow> length (written s) + length bs \<le> limit \<Longrightarrow>
    \<exists>r s'. put s bs = Some (r, s') \<and> wf s' \<and>
      written s' = (if r then written s @ bs else written s) \<and> (sure \<longrightarrow> r)"
begin

text \<open>
  A loop of writes: the buffer ends with the chunks of a subsequence of the inputs, all of them
  when writes cannot fail.
\<close>

lemma for_each_writes:
  assumes "\<And>s x. x \<in> set xs \<Longrightarrow> step s x = put s (chunk x)"
    and "wf s" and "length (written s) + length (concat (map chunk xs)) \<le> limit"
  shows "\<exists>s' ys. for_each step xs s = Some s' \<and> wf s' \<and> subseq ys xs \<and>
    written s' = written s @ concat (map chunk ys) \<and> (sure \<longrightarrow> ys = xs)"
  using assms
proof (induction xs arbitrary: s)
  case Nil
  then show ?case by (intro exI [of _ s] exI [of _ "[]"]) simp
next
  case (Cons x xs)
  obtain r s1 where s1: "put s (chunk x) = Some (r, s1)" "wf s1"
      "written s1 = (if r then written s @ chunk x else written s)" "sure \<longrightarrow> r"
    using put_step [of s "chunk x"] Cons.prems by auto
  then obtain s' ys where s': "for_each step xs s1 = Some s'" "wf s'" "subseq ys xs"
      "written s' = written s1 @ concat (map chunk ys)" "sure \<longrightarrow> ys = xs"
    using Cons.IH [of s1] Cons.prems by (auto split: if_splits)
  have "step s x = Some (r, s1)" using Cons.prems(1) s1(1) by simp
  with s' have e: "for_each step (x # xs) s = Some s'" by simp
  show ?case
  proof (cases r)
    case True
    then have "written s' = written s @ concat (map chunk (x # ys))"
      using s1 s' by simp
    then show ?thesis using e s' by (intro exI [of _ s'] exI [of _ "x # ys"]) simp
  next
    case False
    then show ?thesis
      using e s1 s' by (intro exI [of _ s'] exI [of _ ys]) (auto intro: subseq_Cons')
  qed
qed

end

interpretation ds: byte_sink "dynstr_puts A" dynstr_text dynstr_wf mem_limit "reliable A"
  for A by unfold_locales (rule dynstr_puts_step)

interpretation dsfmt: byte_sink "dynstr_putfmt A" dynstr_text dynstr_wf fmt_limit "reliable A"
  for A by unfold_locales (use dynstr_putfmt_step in blast)

end
