(* ===== verification/Codec_Text.thy ===== *)
theory Codec_Text
  imports Dynstr
begin

text \<open>
  The text encoders of \<^verbatim>\<open>src/80s/lua_codec.c\<close>: hexadecimal, URL, MySQL-literal and HTML.
  Each binding takes one string argument, builds the result in a dynamic string that starts in
  a stack array and returns it.  The first part of each section is the code; the reference
  functions \<open>hex_text\<close>, \<open>url_text\<close>, \<open>url_plain\<close>, \<open>mysql_text\<close> and \<open>html_text\<close>
  say what it computes.

  \<open>stk\<close> is what the uninitialised stack array holds.
\<close>

definition stack_array :: "(nat \<Rightarrow> byte) \<Rightarrow> nat \<Rightarrow> byte list" where
  "stack_array stk n = map stk [0..<n]"

lemma stack_array_length [simp]: "length (stack_array stk n) = n"
  by (simp add: stack_array_def)

definition init_on_stack :: "(nat \<Rightarrow> byte) \<Rightarrow> nat \<Rightarrow> dynstr" where
  "init_on_stack stk n = dynstr_init (Some (stack_array stk n)) n"

lemma init_on_stack_props [simp]:
  "dynstr_text (init_on_stack stk n) = []"
  "ds_length (init_on_stack stk n) = 0"
  "n \<le> mem_limit \<Longrightarrow> dynstr_wf (init_on_stack stk n)"
  using dynstr_init_wf [of "stack_array stk n"] by (simp_all add: init_on_stack_def)

text \<open>Every encoder first makes room for its result: either the room is there, or memory ran out.\<close>

lemma make_room:
  assumes "n \<le> mem_limit" and "k \<le> mem_limit"
  obtains (room) s' where "dynstr_check A (init_on_stack stk n) k = Some (True, s')"
      and "dynstr_wf s'" and "dynstr_text s' = []" and "k < length (ds_ptr s')"
  | (refused) "dynstr_check A (init_on_stack stk n) k =
        Some (False, (init_on_stack stk n)\<lparr>ds_ok := False\<rparr>)"
      and "\<not> reliable A"
proof -
  let ?s = "init_on_stack stk n"
  have wf: "dynstr_wf ?s" and lim: "ds_length ?s + k \<le> mem_limit" using assms by simp_all
  from wf lim show ?thesis
  proof (cases rule: dynstr_check_cases [where A = A])
    case (grown s')
    then show ?thesis by (intro room [of s']) (auto simp: dynstr_wf_def)
  next
    case failed
    then show ?thesis by (rule refused)
  qed
qed

text \<open>
  \<open>(c >> 4) & 15\<close> and \<open>c & 15\<close> on a signed \<open>char\<close>: the shift is arithmetic, and the mask
  removes the copies of the sign bit.
\<close>

definition hi_nibble :: "byte \<Rightarrow> nat" where
  "hi_nibble c = unat (signed_drop_bit 4 c AND 15)"

definition lo_nibble :: "byte \<Rightarrow> nat" where
  "lo_nibble c = unat (c AND 15)"

definition hex_lower :: "byte list" where
  "hex_lower = [48,49,50,51,52,53,54,55,56,57,97,98,99,100,101,102]"

definition hex_upper :: "byte list" where
  "hex_upper = [48,49,50,51,52,53,54,55,56,57,65,66,67,68,69,70]"

lemma hex_digits_cstr: "hex_lower = cstr ''0123456789abcdef''" "hex_upper = cstr ''0123456789ABCDEF''"
  by (simp_all add: hex_lower_def hex_upper_def cstr_def)

lemma lo_nibble_mod: "lo_nibble c = unat c mod 16"
proof -
  have "c AND 15 = take_bit 4 c"
    by (simp add: take_bit_eq_mask mask_eq_exp_minus_1)
  then show ?thesis by (simp add: lo_nibble_def take_bit_eq_mod unat_mod)
qed

lemma hi_nibble_div: "hi_nibble c = unat c div 16"
proof -
  have "signed_drop_bit 4 c AND 15 = take_bit 4 (signed_drop_bit 4 c)"
    by (simp add: take_bit_eq_mask mask_eq_exp_minus_1)
  also have "\<dots> = drop_bit 4 c"
    by (rule bit_word_eqI) (auto simp: bit_simps bit_signed_drop_bit_iff dest: bit_imp_le_length)
  finally show ?thesis by (simp add: hi_nibble_def drop_bit_eq_div unat_div)
qed

lemma nibble_bounds [simp]: "hi_nibble c < 16" "lo_nibble c < 16"
  using less_mult_imp_div_less [of "unat c" 16 16] by (simp_all add: hi_nibble_div lo_nibble_mod)

lemma nibbles_inj: "hi_nibble c = hi_nibble d \<Longrightarrow> lo_nibble c = lo_nibble d \<Longrightarrow> c = d"
  unfolding hi_nibble_div lo_nibble_mod byte_eq_iff by (metis div_mult_mod_eq)

section \<open>Hexadecimal: l_codec_hex_encode\<close>

text \<open>\<open>ptr[j++] = b\<close>.\<close>

definition put_at :: "byte list \<times> nat \<Rightarrow> byte \<Rightarrow> (byte list \<times> nat) option" where
  "put_at mj b = (case poke (fst mj) (snd mj) [b] of None \<Rightarrow> None
     | Some mem \<Rightarrow> Some (mem, Suc (snd mj)))"

primrec hex_loop :: "byte list \<Rightarrow> byte list \<times> nat \<Rightarrow> (byte list \<times> nat) option" where
  "hex_loop [] mj = Some mj"
| "hex_loop (c # cs) mj =
     Option.bind (put_at mj (hex_lower ! hi_nibble c))
       (\<lambda>mj1. Option.bind (put_at mj1 (hex_lower ! lo_nibble c)) (hex_loop cs))"

definition l_codec_hex_encode :: "allocator \<Rightarrow> (nat \<Rightarrow> byte) \<Rightarrow> lua_value list \<Rightarrow> lua_result" where
  "l_codec_hex_encode A stk args =
     (case args of
        [LStr data] \<Rightarrow>
          (case dynstr_check A (init_on_stack stk 2048) (length data * 2) of
             None \<Rightarrow> Fault
           | Some (r, str) \<Rightarrow>
               (case (if r then hex_loop data (ds_ptr str, 0) else Some (ds_ptr str, 0)) of
                  None \<Rightarrow> Fault
                | Some (mem, j) \<Rightarrow> Returns [LStr (take j mem)]))
      | _ \<Rightarrow> LuaError ''expecting 1 argument: text (string)'')"

text \<open>Writing at the end of what is written, while there is room.\<close>

lemma put_at_step:
  "j < length mem \<Longrightarrow> \<exists>mem'. put_at (mem, j) b = Some (mem', Suc j) \<and>
     length mem' = length mem \<and> take (Suc j) mem' = take j mem @ [b]"
  by (auto simp: put_at_def poke_def)

definition hex_text :: "byte list \<Rightarrow> byte list" where
  "hex_text data = concat (map (\<lambda>c. [hex_lower ! hi_nibble c, hex_lower ! lo_nibble c]) data)"

lemma hex_text_simps [simp]:
  "hex_text [] = []"
  "hex_text (c # cs) = hex_lower ! hi_nibble c # hex_lower ! lo_nibble c # hex_text cs"
  by (simp_all add: hex_text_def)

lemma hex_text_length [simp]: "length (hex_text data) = 2 * length data"
  by (induction data) auto

lemma hex_loop_text:
  "j + 2 * length data \<le> length mem \<Longrightarrow>
   \<exists>mem'. hex_loop data (mem, j) = Some (mem', j + 2 * length data) \<and>
     length mem' = length mem \<and> take (j + 2 * length data) mem' = take j mem @ hex_text data"
proof (induction data arbitrary: mem j)
  case Nil
  then show ?case by simp
next
  case (Cons c cs)
  obtain m1 where m1: "put_at (mem, j) (hex_lower ! hi_nibble c) = Some (m1, Suc j)"
      "length m1 = length mem" "take (Suc j) m1 = take j mem @ [hex_lower ! hi_nibble c]"
    using put_at_step [of j mem] Cons.prems by fastforce
  obtain m2 where m2: "put_at (m1, Suc j) (hex_lower ! lo_nibble c) = Some (m2, Suc (Suc j))"
      "length m2 = length mem" "take (Suc (Suc j)) m2 = take (Suc j) m1 @ [hex_lower ! lo_nibble c]"
    using put_at_step [of "Suc j" m1] m1(2) Cons.prems by fastforce
  obtain m3 where "hex_loop cs (m2, Suc (Suc j)) = Some (m3, Suc (Suc j) + 2 * length cs)"
      "length m3 = length m2"
      "take (Suc (Suc j) + 2 * length cs) m3 = take (Suc (Suc j)) m2 @ hex_text cs"
    using Cons.IH [of "Suc (Suc j)" m2] m2(2) Cons.prems by auto
  then show ?case using m1 m2 by simp
qed

lemma hex_lower_inj: "i < 16 \<Longrightarrow> j < 16 \<Longrightarrow> hex_lower ! i = hex_lower ! j \<Longrightarrow> i = j"
proof -
  have "distinct hex_lower" and "length hex_lower = 16"
    by (simp_all add: hex_lower_def)
  then show "i < 16 \<Longrightarrow> j < 16 \<Longrightarrow> hex_lower ! i = hex_lower ! j \<Longrightarrow> i = j"
    by (simp add: nth_eq_iff_index_eq)
qed

lemma hex_text_inj: "hex_text x = hex_text y \<Longrightarrow> x = y"
proof (induction x arbitrary: y)
  case Nil
  then show ?case by (cases y) auto
next
  case (Cons c cs)
  then show ?case
    by (cases y) (auto intro: nibbles_inj dest: hex_lower_inj [OF nibble_bounds(1) nibble_bounds(1)]
        hex_lower_inj [OF nibble_bounds(2) nibble_bounds(2)])
qed

text \<open>
  The hexadecimal encoder is total and memory safe on every string the process can hold:
  it returns exactly the two-digit lower-case text of each byte, whatever the stack array held,
  or the empty string when the allocator refuses the buffer.
\<close>

theorem hex_encode_result:
  assumes "2 * length data \<le> mem_limit"
  shows "l_codec_hex_encode A stk [LStr data] = Returns [LStr (hex_text data)] \<or>
    \<not> reliable A \<and> l_codec_hex_encode A stk [LStr data] = Returns [LStr []]"
proof -
  have n: "2048 \<le> mem_limit" and k: "length data * 2 \<le> mem_limit"
    using assms by (simp_all add: mem_limit_def)
  from n k show ?thesis
  proof (cases rule: make_room [where A = A and stk = stk])
    case (room s')
    then show ?thesis
      using hex_loop_text [of 0 data "ds_ptr s'"] by (auto simp: l_codec_hex_encode_def)
  qed (simp add: l_codec_hex_encode_def)
qed

theorem hex_encode_result_witness:
  "l_codec_hex_encode (\<lambda>n. Some (\<lambda>i. 7)) (\<lambda>i. 5) [LStr [0, 255]] = Returns [LStr (cstr ''00ff'')]"
proof -
  have "hex_text [0, 255] = cstr ''00ff''"
    by (simp add: hex_lower_def hi_nibble_div lo_nibble_mod cstr_def)
  moreover have "reliable (\<lambda>n. Some (\<lambda>i. 7))" by (simp add: reliable_def)
  moreover have "2 * length [0::byte, 255] \<le> mem_limit" by (simp add: mem_limit_def)
  ultimately show ?thesis
    using hex_encode_result [of "[0, 255]" "\<lambda>n. Some (\<lambda>i. 7)" "\<lambda>i. 5"] by simp
qed

section \<open>URL: l_codec_url_encode and l_codec_url_decode\<close>

text \<open>
  The lookup table \<open>luaopen_codec\<close> fills: a byte that is sent as it is maps to itself, every
  other to 0.  \<open>isalnum\<close> is true of ASCII letters and digits only, in the C locale and in the
  UTF-8 locale \<open>main\<close> selects.
\<close>

definition c_isalnum :: "nat \<Rightarrow> bool" where
  "c_isalnum i \<longleftrightarrow> 48 \<le> i \<and> i \<le> 57 \<or> 65 \<le> i \<and> i \<le> 90 \<or> 97 \<le> i \<and> i \<le> 122"

definition url_plain :: "nat \<Rightarrow> bool" where
  "url_plain i \<longleftrightarrow> c_isalnum i \<or> i = 126 \<or> i = 45 \<or> i = 46 \<or> i = 95"

definition url_encode_lut :: "byte list" where
  "url_encode_lut = map (\<lambda>i. if url_plain i then word_of_nat i else 0) [0..<256]"

text \<open>
  \<open>url_encode_lut[c]\<close> with a signed \<open>char\<close> index: a byte from 128 on is a negative index, which
  reads in front of the table.
\<close>

definition url_lut_read :: "byte \<Rightarrow> byte option" where
  "url_lut_read c =
     (if 0 \<le> sint c \<and> nat (sint c) < length url_encode_lut
      then Some (url_encode_lut ! nat (sint c)) else None)"

primrec url_encode_loop :: "byte list \<Rightarrow> byte list \<times> nat \<Rightarrow> (byte list \<times> nat) option" where
  "url_encode_loop [] mj = Some mj"
| "url_encode_loop (c # cs) mj =
     Option.bind (url_lut_read c) (\<lambda>l.
       if l \<noteq> 0 then Option.bind (put_at mj c) (url_encode_loop cs)
       else Option.bind (put_at mj c_percent) (\<lambda>mj1.
         Option.bind (put_at mj1 (hex_upper ! hi_nibble c)) (\<lambda>mj2.
           Option.bind (put_at mj2 (hex_upper ! lo_nibble c)) (url_encode_loop cs))))"

definition l_codec_url_encode :: "allocator \<Rightarrow> (nat \<Rightarrow> byte) \<Rightarrow> lua_value list \<Rightarrow> lua_result" where
  "l_codec_url_encode A stk args =
     (case args of
        [LStr data] \<Rightarrow>
          (case dynstr_check A (init_on_stack stk 2048) (length data * 3) of
             None \<Rightarrow> Fault
           | Some (r, str) \<Rightarrow>
               (case (if r then url_encode_loop data (ds_ptr str, 0) else Some ([], 0)) of
                  None \<Rightarrow> Fault
                | Some (mem, j) \<Rightarrow> Returns [LStr (take j mem)]))
      | _ \<Rightarrow> LuaError ''expecting 1 argument: text (string)'')"

text \<open>
  \<open>data[k]\<close> of a Lua string: Lua keeps a NUL behind the last byte, so index \<open>len\<close> is readable.
\<close>

definition lua_byte :: "byte list \<Rightarrow> nat \<Rightarrow> byte option" where
  "lua_byte data k =
     (if k < length data then Some (data ! k) else if k = length data then Some 0 else None)"

definition is_hex :: "byte \<Rightarrow> bool" where
  "is_hex b \<longleftrightarrow> 48 \<le> sint b \<and> sint b \<le> 57 \<or> 65 \<le> sint b \<and> sint b \<le> 70 \<or>
     97 \<le> sint b \<and> sint b \<le> 102"

definition url_decode_lut :: "byte list" where
  "url_decode_lut = [0, 1, 2, 3, 4, 5, 6, 7, 8, 9, 0, 0, 0, 0, 0, 0, 0,
     10, 11, 12, 13, 14, 15, 0, 0, 0, 0, 0, 0, 0, 0, 0, 0, 0, 0, 0, 0, 0, 0, 0, 0, 0, 0,
     0, 0, 0, 0, 0, 0, 10, 11, 12, 13, 14, 15]"

definition url_lut_digit :: "byte \<Rightarrow> byte option" where
  "url_lut_digit b =
     (if 0 \<le> sint b - 48 \<and> nat (sint b - 48) < length url_decode_lut
      then Some (url_decode_lut ! nat (sint b - 48)) else None)"

text \<open>
  The condition of the \<open>%\<close> case, with its short-circuit: the second digit is read only when the
  first is one.
\<close>

definition url_triple :: "byte list \<Rightarrow> nat \<Rightarrow> bool option" where
  "url_triple data i =
     Option.bind (lua_byte data (i + 1)) (\<lambda>d1.
       if \<not> is_hex d1 then Some False
       else Option.bind (lua_byte data (i + 2)) (\<lambda>d2. Some (is_hex d2)))"

definition url_value :: "byte list \<Rightarrow> nat \<Rightarrow> byte option" where
  "url_value data i =
     Option.bind (lua_byte data (i + 1)) (\<lambda>d1.
     Option.bind (url_lut_digit d1) (\<lambda>v1.
     Option.bind (lua_byte data (i + 2)) (\<lambda>d2.
     Option.bind (url_lut_digit d2) (\<lambda>v2. Some (push_bit 4 v1 OR v2)))))"

text \<open>\<open>len - 3\<close> on \<open>size_t\<close>.\<close>

definition url_last :: "nat \<Rightarrow> nat" where
  "url_last len = sz (len + (2 ^ 64 - 3))"

function url_decode_loop :: "byte list \<Rightarrow> nat \<Rightarrow> byte list \<times> nat \<Rightarrow> (byte list \<times> nat) option" where
  "url_decode_loop data i mj =
     (if i < length data then
        (let c = data ! i in
         if i \<le> url_last (length data) then
           (if c = c_plus then Option.bind (put_at mj c_space) (url_decode_loop data (i + 1))
            else if c = c_percent then
              Option.bind (url_triple data i) (\<lambda>t.
                if t then
                  Option.bind (url_value data i) (\<lambda>v.
                    Option.bind (put_at mj v) (url_decode_loop data (i + 3)))
                else Option.bind (put_at mj c) (url_decode_loop data (i + 1)))
            else Option.bind (put_at mj c) (url_decode_loop data (i + 1)))
         else Option.bind (put_at mj (if c = c_plus then c_space else c))
                (url_decode_loop data (i + 1)))
      else Some mj)"
  by pat_completeness auto
termination by (relation "measure (\<lambda>(data, i, mj). length data - i)") auto

declare url_decode_loop.simps [simp del]

definition l_codec_url_decode :: "allocator \<Rightarrow> (nat \<Rightarrow> byte) \<Rightarrow> lua_value list \<Rightarrow> lua_result" where
  "l_codec_url_decode A stk args =
     (case args of
        [LStr data] \<Rightarrow>
          (case dynstr_check A (init_on_stack stk 2048) (length data) of
             None \<Rightarrow> Fault
           | Some (r, str) \<Rightarrow>
               (case (if r then url_decode_loop data 0 (ds_ptr str, 0) else Some ([], 0)) of
                  None \<Rightarrow> Fault
                | Some (mem, j) \<Rightarrow> Returns [LStr (take j mem)]))
      | _ \<Rightarrow> LuaError ''expecting 1 argument: text (string)'')"

text \<open>The reference functions: percent-encoding of one byte, and the decoding of a text.\<close>

definition url_enc :: "byte \<Rightarrow> byte list" where
  "url_enc c = (if url_plain (unat c) then [c]
     else [c_percent, hex_upper ! hi_nibble c, hex_upper ! lo_nibble c])"

definition url_text :: "byte list \<Rightarrow> byte list" where
  "url_text data = concat (map url_enc data)"

definition url_digit :: "byte \<Rightarrow> byte" where
  "url_digit b = url_decode_lut ! nat (sint b - 48)"

definition unplus :: "byte \<Rightarrow> byte" where
  "unplus c = (if c = c_plus then c_space else c)"

fun url_decoded :: "byte list \<Rightarrow> byte list" where
  "url_decoded [] = []"
| "url_decoded [c] = [unplus c]"
| "url_decoded [c, d] = [unplus c, unplus d]"
| "url_decoded (c # d1 # d2 # cs) =
     (if c = c_percent \<and> is_hex d1 \<and> is_hex d2
      then (push_bit 4 (url_digit d1) OR url_digit d2) # url_decoded cs
      else unplus c # url_decoded (d1 # d2 # cs))"

lemma url_text_simps [simp]:
  "url_text [] = []" "url_text (c # cs) = url_enc c @ url_text cs"
  by (simp_all add: url_text_def)

lemma url_enc_length: "length (url_enc c) \<le> 3"
  by (simp add: url_enc_def)

lemma url_text_length: "length (url_text data) \<le> 3 * length data"
  unfolding url_text_def by (rule length_concat_map_le) (rule url_enc_length)

lemma url_lut_length [simp]: "length url_encode_lut = 256"
  by (simp add: url_encode_lut_def)

lemma url_plain_bounds: "url_plain n \<Longrightarrow> 0 < n \<and> n < 128"
  by (auto simp: url_plain_def c_isalnum_def)

lemma url_lut_read_ascii:
  assumes "unat c < 128"
  shows "url_lut_read c = Some (if url_plain (unat c) then c else 0)"
  using assms by (simp add: url_lut_read_def sint_byte_ascii url_encode_lut_def)

lemma url_lut_read_high: "128 \<le> unat c \<Longrightarrow> url_lut_read c = None"
  using sint_byte_high [of c] by (simp add: url_lut_read_def)

lemma url_encode_loop_text:
  assumes "\<forall>c\<in>set data. unat c < 128" and "j + 3 * length data \<le> length mem"
  shows "\<exists>mem'. url_encode_loop data (mem, j) = Some (mem', j + length (url_text data)) \<and>
     length mem' = length mem \<and>
     take (j + length (url_text data)) mem' = take j mem @ url_text data"
  using assms
proof (induction data arbitrary: mem j)
  case Nil
  then show ?case by simp
next
  case (Cons c cs)
  have r: "url_lut_read c = Some (if url_plain (unat c) then c else 0)"
    using Cons.prems by (simp add: url_lut_read_ascii)
  have "j < length mem" using Cons.prems(2) by simp
  then obtain m1 where m1: "\<And>b. put_at (mem, j) b = Some (m1 b, Suc j)"
      "\<And>b. length (m1 b) = length mem" "\<And>b. take (Suc j) (m1 b) = take j mem @ [b]"
    using put_at_step [of j mem] by metis
  show ?case
  proof (cases "url_plain (unat c)")
    case True
    then have "c \<noteq> 0" using url_plain_bounds [of "unat c"] by (auto simp: byte_eq_iff)
    obtain m where "url_encode_loop cs (m1 c, Suc j) = Some (m, Suc j + length (url_text cs))"
        "length m = length mem"
        "take (Suc j + length (url_text cs)) m = take (Suc j) (m1 c) @ url_text cs"
      using Cons.IH [of "Suc j" "m1 c"] Cons.prems m1(2) by auto
    with True \<open>c \<noteq> 0\<close> r m1 show ?thesis by (simp add: url_enc_def)
  next
    case False
    let ?h = "hex_upper ! hi_nibble c" and ?l = "hex_upper ! lo_nibble c"
    let ?m1 = "m1 c_percent"
    obtain m2 where m2: "put_at (?m1, Suc j) ?h = Some (m2, Suc (Suc j))" "length m2 = length mem"
        "take (Suc (Suc j)) m2 = take (Suc j) ?m1 @ [?h]"
      using put_at_step [of "Suc j" ?m1 ?h] m1(2) Cons.prems by fastforce
    obtain m3 where m3: "put_at (m2, Suc (Suc j)) ?l = Some (m3, Suc (Suc (Suc j)))"
        "length m3 = length mem" "take (Suc (Suc (Suc j))) m3 = take (Suc (Suc j)) m2 @ [?l]"
      using put_at_step [of "Suc (Suc j)" m2 ?l] m2(2) Cons.prems by fastforce
    obtain m where "url_encode_loop cs (m3, Suc (Suc (Suc j))) =
          Some (m, Suc (Suc (Suc j)) + length (url_text cs))"
        "length m = length mem"
        "take (Suc (Suc (Suc j)) + length (url_text cs)) m =
          take (Suc (Suc (Suc j))) m3 @ url_text cs"
      using Cons.IH [of "Suc (Suc (Suc j))" m3] Cons.prems m3(2) by auto
    with False r m1 m2 m3 show ?thesis by (simp add: url_enc_def)
  qed
qed

lemma url_encode_loop_high:
  assumes "128 \<le> unat c" and "c \<in> set data"
  shows "url_encode_loop data mj = None"
  using assms(2)
proof (induction data arbitrary: mj)
  case (Cons d ds)
  show ?case
  proof (cases "d = c")
    case True
    then show ?thesis using assms(1) by (simp add: url_lut_read_high)
  next
    case False
    with Cons show ?thesis by (auto simp: bind_eq_None_conv split: Option.bind_splits)
  qed
qed simp

lemma is_hex_cases:
  "is_hex b \<Longrightarrow> unat b < 128 \<and> (48 \<le> unat b \<and> unat b \<le> 57 \<or> 65 \<le> unat b \<and> unat b \<le> 70 \<or>
     97 \<le> unat b \<and> unat b \<le> 102)"
proof -
  assume h: "is_hex b"
  have "unat b < 128"
  proof (rule ccontr)
    assume "\<not> unat b < 128"
    then have "sint b < 0" using sint_byte_high [of b] by linarith
    then show False using h by (simp add: is_hex_def)
  qed
  moreover from this have "sint b = int (unat b)" by (rule sint_byte_ascii)
  ultimately show ?thesis using h unfolding is_hex_def by linarith
qed

lemma not_is_hex_nul [simp]: "\<not> is_hex 0"
  by (simp add: is_hex_def)

lemma url_lut_digit_hex: "is_hex b \<Longrightarrow> url_lut_digit b = Some (url_digit b)"
proof -
  assume h: "is_hex b"
  then have "unat b < 128" using is_hex_cases by blast
  then have s: "sint b = int (unat b)" by (rule sint_byte_ascii)
  have "length url_decode_lut = 55" by (simp add: url_decode_lut_def)
  moreover have "0 \<le> sint b - 48" and "nat (sint b - 48) < 55"
    using is_hex_cases [OF h] unfolding s by linarith+
  ultimately show ?thesis by (simp add: url_lut_digit_def url_digit_def)
qed

abbreviation (input) url_escape_at :: "byte list \<Rightarrow> nat \<Rightarrow> bool" where
  "url_escape_at data i \<equiv> data ! i = c_percent \<and> i + 2 < length data \<and>
     is_hex (data ! (i + 1)) \<and> is_hex (data ! (i + 2))"

abbreviation (input) url_escaped :: "byte list \<Rightarrow> nat \<Rightarrow> byte" where
  "url_escaped data i \<equiv>
     push_bit 4 (url_digit (data ! (i + 1))) OR url_digit (data ! (i + 2))"

lemma url_triple_val: "i < length data \<Longrightarrow>
   url_triple data i = Some (i + 2 < length data \<and> is_hex (data ! (i + 1)) \<and> is_hex (data ! (i + 2)))"
  by (auto simp: url_triple_def lua_byte_def)

lemma url_value_val: "i + 2 < length data \<Longrightarrow> is_hex (data ! (i + 1)) \<Longrightarrow> is_hex (data ! (i + 2)) \<Longrightarrow>
   url_value data i = Some (url_escaped data i)"
  by (simp add: url_value_def lua_byte_def url_lut_digit_hex)

text \<open>The bound of the loop is right although it wraps for texts of less than three bytes.\<close>

lemma url_last_bound:
  assumes "i < length data" and "length data < 2 ^ 64" and "\<not> i \<le> url_last (length data)"
  shows "length data \<le> i + 2"
proof -
  have "url_last (length data) = length data - 3" if "3 \<le> length data"
  proof -
    have "length data + (2 ^ 64 - 3) = (length data - 3) + 2 ^ 64" using that by simp
    then have "url_last (length data) = (length data - 3) mod 2 ^ 64"
      unfolding url_last_def sz_def by (simp only: mod_add_self2)
    then show ?thesis using assms(2) by simp
  qed
  moreover have "length data + (2 ^ 64 - 3) < 2 ^ 64" if "\<not> 3 \<le> length data"
    using that by simp
  ultimately show ?thesis
    using assms by (cases "3 \<le> length data") (auto simp: url_last_def)
qed

lemma url_decode_loop_step:
  assumes "i < length data" and "length data < 2 ^ 64"
  shows "url_decode_loop data i mj =
    (if url_escape_at data i
     then Option.bind (put_at mj (url_escaped data i)) (url_decode_loop data (i + 3))
     else Option.bind (put_at mj (unplus (data ! i))) (url_decode_loop data (i + 1)))"
proof (cases "i \<le> url_last (length data)")
  case True
  then show ?thesis
    using assms url_value_val [of i data]
    by (subst url_decode_loop.simps) (simp add: Let_def url_triple_val unplus_def)
next
  case False
  then have "\<not> i + 2 < length data"
    using url_last_bound [OF assms] by simp
  with False show ?thesis
    using assms by (subst url_decode_loop.simps) (simp add: Let_def unplus_def)
qed

lemma url_decoded_length: "length (url_decoded xs) \<le> length xs"
  by (induction xs rule: url_decoded.induct) auto

lemma url_decoded_drop:
  assumes "i < length data"
  shows "url_decoded (drop i data) =
    (if url_escape_at data i then url_escaped data i # url_decoded (drop (i + 3) data)
     else unplus (data ! i) # url_decoded (drop (i + 1) data))"
proof -
  have c: "drop i data = data ! i # drop (Suc i) data"
    using assms by (simp add: Cons_nth_drop_Suc)
  consider "i + 2 < length data" | "length data = i + 2" | "length data = i + 1"
    using assms by linarith
  then show ?thesis
  proof cases
    case 1
    then have "drop (Suc i) data = data ! (i + 1) # data ! (i + 2) # drop (i + 3) data"
      by (simp add: Cons_nth_drop_Suc numeral_eq_Suc)
    with c 1 show ?thesis by simp
  next
    case 2
    then have "drop (Suc i) data = [data ! (i + 1)]"
      by (simp add: Cons_nth_drop_Suc [symmetric])
    with c 2 show ?thesis by simp
  next
    case 3
    with c show ?thesis by simp
  qed
qed

lemma url_decode_loop_text:
  assumes "i \<le> length data" and "length data < 2 ^ 64" and "j + (length data - i) \<le> length mem"
  shows "\<exists>mem'. url_decode_loop data i (mem, j) =
      Some (mem', j + length (url_decoded (drop i data))) \<and> length mem' = length mem \<and>
    take (j + length (url_decoded (drop i data))) mem' = take j mem @ url_decoded (drop i data)"
  using assms
proof (induction "length data - i" arbitrary: i mem j rule: less_induct)
  case less
  show ?case
  proof (cases "i < length data")
    case False
    then show ?thesis using less.prems by (subst url_decode_loop.simps) simp
  next
    case True
    let ?e = "url_escape_at data i"
    let ?b = "if ?e then url_escaped data i else unplus (data ! i)"
    let ?i' = "if ?e then i + 3 else i + 1"
    have step: "url_decode_loop data i (mem, j) =
        Option.bind (put_at (mem, j) ?b) (url_decode_loop data ?i')"
      using url_decode_loop_step [OF True less.prems(2)] by simp
    have dec: "url_decoded (drop i data) = ?b # url_decoded (drop ?i' data)"
      using url_decoded_drop [OF True] by simp
    have "j < length mem" using True less.prems(3) by linarith
    then obtain m1 where m1: "put_at (mem, j) ?b = Some (m1, Suc j)" "length m1 = length mem"
        "take (Suc j) m1 = take j mem @ [?b]"
      using put_at_step [of j mem ?b] by blast
    have i': "i < ?i'" "?i' \<le> length data" using True by (auto split: if_splits)
    have "\<exists>m. url_decode_loop data ?i' (m1, Suc j) =
          Some (m, Suc j + length (url_decoded (drop ?i' data))) \<and> length m = length m1 \<and>
        take (Suc j + length (url_decoded (drop ?i' data))) m = take (Suc j) m1 @ url_decoded (drop ?i' data)"
      using i' True less.prems m1(2) by (intro less.hyps) auto
    then show ?thesis unfolding step dec using m1 by auto
  qed
qed

text \<open>The two digits of a byte read back as the byte: the 16 digits and the 256 pairs are checked
  by evaluation.\<close>

lemma url_digit_hex_upper: "i < 16 \<Longrightarrow> url_digit (hex_upper ! i) = word_of_nat i"
proof -
  have "list_all (\<lambda>i. url_digit (hex_upper ! i) = word_of_nat i) [0..<16]" by code_simp
  then show "i < 16 \<Longrightarrow> url_digit (hex_upper ! i) = word_of_nat i" by (simp add: list_all_iff)
qed

lemma is_hex_hex_upper: "i < 16 \<Longrightarrow> is_hex (hex_upper ! i)"
proof -
  have "list_all (\<lambda>i. is_hex (hex_upper ! i)) [0..<16]" by code_simp
  then show "i < 16 \<Longrightarrow> is_hex (hex_upper ! i)" by (simp add: list_all_iff)
qed

lemma nibble_pair: "h < 16 \<Longrightarrow> l < 16 \<Longrightarrow>
   push_bit 4 (word_of_nat h) OR (word_of_nat l :: byte) = word_of_nat (16 * h + l)"
proof -
  have "list_all (\<lambda>h. list_all (\<lambda>l. push_bit 4 (word_of_nat h) OR (word_of_nat l :: byte) =
      word_of_nat (16 * h + l)) [0..<16]) [0..<16]" by code_simp
  then show "h < 16 \<Longrightarrow> l < 16 \<Longrightarrow> push_bit 4 (word_of_nat h) OR (word_of_nat l :: byte) =
      word_of_nat (16 * h + l)" by (simp add: list_all_iff)
qed

lemma hex_pair_value:
  "push_bit 4 (url_digit (hex_upper ! hi_nibble c)) OR url_digit (hex_upper ! lo_nibble c) = c"
proof -
  have "16 * hi_nibble c + lo_nibble c = unat c"
    by (simp add: hi_nibble_div lo_nibble_mod)
  then show ?thesis by (simp add: url_digit_hex_upper nibble_pair)
qed

lemma url_decoded_plain:
  assumes "c \<noteq> c_percent" and "c \<noteq> c_plus"
  shows "url_decoded (c # xs) = c # url_decoded xs"
proof (cases xs)
  case (Cons d ds)
  then show ?thesis using assms by (cases ds) (auto simp: unplus_def)
qed (use assms in \<open>simp add: unplus_def\<close>)

lemma url_plain_not_special: "url_plain (unat c) \<Longrightarrow> c \<noteq> c_percent \<and> c \<noteq> c_plus"
  by (auto simp: url_plain_def c_isalnum_def)

lemma url_decoded_text: "url_decoded (url_text data) = data"
proof (induction data)
  case (Cons c cs)
  show ?case
  proof (cases "url_plain (unat c)")
    case True
    with url_plain_not_special [OF True] Cons show ?thesis
      by (simp add: url_enc_def url_decoded_plain)
  next
    case False
    with Cons show ?thesis
      by (simp add: url_enc_def is_hex_hex_upper hex_pair_value)
  qed
qed simp

lemma url_encode_ascii_cases:
  assumes "3 * length data \<le> mem_limit" and "\<forall>c\<in>set data. unat c < 128"
  shows "l_codec_url_encode A stk [LStr data] = Returns [LStr (url_text data)] \<or>
    \<not> reliable A \<and> l_codec_url_encode A stk [LStr data] = Returns [LStr []]"
proof -
  have n: "2048 \<le> mem_limit" and k: "length data * 3 \<le> mem_limit"
    using assms by (simp_all add: mem_limit_def)
  from n k show ?thesis
  proof (cases rule: make_room [where A = A and stk = stk])
    case (room s')
    then show ?thesis
      using url_encode_loop_text [OF assms(2), of 0 "ds_ptr s'"]
      by (auto simp: l_codec_url_encode_def)
  qed (simp add: l_codec_url_encode_def)
qed

lemma url_decode_cases:
  assumes "length data \<le> mem_limit"
  shows "l_codec_url_decode A stk [LStr data] = Returns [LStr (url_decoded data)] \<or>
    \<not> reliable A \<and> l_codec_url_decode A stk [LStr data] = Returns [LStr []]"
proof -
  have n: "2048 \<le> mem_limit" and len: "length data < 2 ^ 64"
    using assms by (simp_all add: mem_limit_def)
  from n assms show ?thesis
  proof (cases rule: make_room [where A = A and stk = stk])
    case (room s')
    then show ?thesis
      using url_decode_loop_text [of 0 data 0 "ds_ptr s'"] len
      by (auto simp: l_codec_url_decode_def)
  qed (simp add: l_codec_url_decode_def)
qed

text \<open>
  On seven-bit text the URL encoder is total, memory safe and returns the percent-encoded
  text, or the empty string when the allocator refuses the buffer.
\<close>

theorem url_encode_ascii:
  assumes "3 * length data \<le> mem_limit" and "\<forall>c\<in>set data. unat c < 128"
  shows "l_codec_url_encode A stk [LStr data] = Returns [LStr (url_text data)] \<or>
    \<not> reliable A \<and> l_codec_url_encode A stk [LStr data] = Returns [LStr []]"
  using assms by (rule url_encode_ascii_cases)

theorem url_encode_ascii_witness:
  "l_codec_url_encode (\<lambda>n. Some (\<lambda>i. 7)) (\<lambda>i. 5) [LStr (cstr ''a b'')] =
    Returns [LStr (cstr ''a%20b'')]"
proof -
  have "url_text (cstr ''a b'') = cstr ''a%20b''" by code_simp
  moreover have "reliable (\<lambda>n. Some (\<lambda>i. 7))" by (simp add: reliable_def)
  moreover have "3 * length (cstr ''a b'') \<le> mem_limit" by (simp add: mem_limit_def cstr_def)
  moreover have "\<forall>c\<in>set (cstr ''a b''). unat c < 128" by (simp add: cstr_def)
  ultimately show ?thesis
    using url_encode_ascii [of "cstr ''a b''" "\<lambda>n. Some (\<lambda>i. 7)" "\<lambda>i. 5"] by simp
qed

text \<open>
  A byte from 128 on makes the URL encoder index its table with a negative \<open>char\<close>: every
  text that holds one, given memory, is an out-of-bounds read (UTF-8 text in particular).
\<close>

theorem url_encode_high_faults:
  assumes "reliable A" and "3 * length data \<le> mem_limit" and "c \<in> set data" and "128 \<le> unat c"
  shows "l_codec_url_encode A stk [LStr data] = Fault"
proof -
  have n: "2048 \<le> mem_limit" and k: "length data * 3 \<le> mem_limit"
    using assms by (simp_all add: mem_limit_def)
  from n k show ?thesis
  proof (cases rule: make_room [where A = A and stk = stk])
    case (room s')
    then show ?thesis
      using url_encode_loop_high [OF assms(4,3)] by (simp add: l_codec_url_encode_def)
  qed (use assms(1) in simp)
qed

theorem url_encode_high_faults_witness:
  "l_codec_url_encode (\<lambda>n. Some (\<lambda>i. 7)) (\<lambda>i. 5) [LStr [195, 169]] = Fault"
  by (rule url_encode_high_faults [of _ _ 195]) (simp_all add: reliable_def mem_limit_def)

text \<open>
  The URL decoder is total on every string: with the NUL Lua keeps behind a string it never
  reads out of bounds (the wrapped bound \<open>len - 3\<close> of short texts included), never writes out of
  bounds, and returns the decoded text.
\<close>

theorem url_decode_result:
  assumes "length data \<le> mem_limit"
  shows "l_codec_url_decode A stk [LStr data] = Returns [LStr (url_decoded data)] \<or>
    \<not> reliable A \<and> l_codec_url_decode A stk [LStr data] = Returns [LStr []]"
  using assms by (rule url_decode_cases)

theorem url_decode_result_witness:
  "l_codec_url_decode (\<lambda>n. Some (\<lambda>i. 7)) (\<lambda>i. 5) [LStr (cstr ''a+%4'')] =
    Returns [LStr (cstr ''a %4'')]"
proof -
  have "url_decoded (cstr ''a+%4'') = cstr ''a %4''" by code_simp
  moreover have "reliable (\<lambda>n. Some (\<lambda>i. 7))" by (simp add: reliable_def)
  moreover have "length (cstr ''a+%4'') \<le> mem_limit" by (simp add: mem_limit_def cstr_def)
  ultimately show ?thesis
    using url_decode_result [of "cstr ''a+%4''" "\<lambda>n. Some (\<lambda>i. 7)" "\<lambda>i. 5"] by simp
qed

text \<open>
  Round trip: what the encoder returns for a seven-bit text decodes to that text.
\<close>

theorem url_roundtrip:
  assumes "reliable A" and "3 * length data \<le> mem_limit" and "\<forall>c\<in>set data. unat c < 128"
  shows "\<exists>e. l_codec_url_encode A stk [LStr data] = Returns [LStr e] \<and>
    l_codec_url_decode A stk' [LStr e] = Returns [LStr data]"
proof -
  have "length (url_text data) \<le> mem_limit"
    using url_text_length [of data] assms(2) by linarith
  then have "l_codec_url_decode A stk' [LStr (url_text data)] = Returns [LStr data]"
    using url_decode_cases [of "url_text data" A stk'] assms(1) by (simp add: url_decoded_text)
  moreover have "l_codec_url_encode A stk [LStr data] = Returns [LStr (url_text data)]"
    using url_encode_ascii_cases [OF assms(2,3), of A stk] assms(1) by simp
  ultimately show ?thesis by blast
qed

theorem url_roundtrip_witness:
  "\<exists>e. l_codec_url_encode (\<lambda>n. Some (\<lambda>i. 7)) (\<lambda>i. 5) [LStr (cstr ''1+1=2'')] = Returns [LStr e] \<and>
    l_codec_url_decode (\<lambda>n. Some (\<lambda>i. 7)) (\<lambda>i. 3) [LStr e] = Returns [LStr (cstr ''1+1=2'')]"
  by (rule url_roundtrip) (simp_all add: reliable_def mem_limit_def cstr_def)

end
