(* ===== verification/Codec_Escape.thy ===== *)
theory Codec_Escape
  imports Codec_Text
begin

text \<open>
  The escaping encoders of \<^verbatim>\<open>src/80s/lua_codec.c\<close>: \<open>l_codec_mysql_encode\<close> and
  \<open>l_codec_html_encode\<close>.  Both write one chunk per input byte and ignore whether a write
  succeeded, so out of memory a result may miss bytes; the theorems say what is true of it even
  then.  The proofs use the interface \<open>byte_sink\<close> of the buffer only.
\<close>

section \<open>What the two bindings share\<close>

text \<open>The common shape of both results: the chunks of the bytes whose write succeeded.\<close>

lemma escaped_result:
  assumes step: "\<And>s c. step s c = dynstr_puts A s (chunk c)"
    and len: "\<And>c. length (chunk c) \<le> k" and n: "n \<le> mem_limit" and "0 < k"
    and lim: "k * length data \<le> mem_limit"
  obtains str ys where
    "Option.bind (dynstr_check A (init_on_stack stk n) (length data))
       (\<lambda>(r, str). if r then for_each step data str else Some str) = Some str"
    and "dynstr_text str = concat (map chunk ys)" and "subseq ys data"
    and "reliable A \<longrightarrow> ys = data"
proof -
  have "length data \<le> mem_limit" using lim \<open>0 < k\<close> by (cases k) auto
  with n show ?thesis
  proof (cases rule: make_room [where A = A and stk = stk])
    case (room s')
    have "length (concat (map chunk data)) \<le> k * length data"
      by (rule length_concat_map_le) (rule len)
    then have "length (dynstr_text s') + length (concat (map chunk data)) \<le> mem_limit"
      using room(3) lim by simp
    from ds.for_each_writes [OF step room(2) this] show ?thesis
      using room(1,3) that by auto
  next
    case refused
    then show ?thesis
      using that [of "(init_on_stack stk n)\<lparr>ds_ok := False\<rparr>" "[]"]
      by (simp add: dynstr_text_def init_on_stack_def dynstr_init_def)
  qed
qed

section \<open>l_codec_mysql_encode\<close>

definition mysql_put :: "allocator \<Rightarrow> dynstr \<Rightarrow> byte \<Rightarrow> (bool \<times> dynstr) option" where
  "mysql_put A str c =
     (if c = c_cr then dynstr_puts A str [c_backslash, 114]
      else if c = c_lf then dynstr_puts A str [c_backslash, 110]
      else if c = c_dquote then dynstr_puts A str [c_backslash, c_dquote]
      else if c = c_squote then dynstr_puts A str [c_backslash, c_squote]
      else if c = c_bs then dynstr_puts A str [c_backslash, 98]
      else if c = c_backslash then dynstr_puts A str [c_backslash, c_backslash]
      else if c = c_nul then dynstr_puts A str [c_backslash, 48]
      else if c = 1 then dynstr_puts A str [c_backslash, 49]
      else dynstr_putc A str c)"

definition l_codec_mysql_encode :: "allocator \<Rightarrow> (nat \<Rightarrow> byte) \<Rightarrow> lua_value list \<Rightarrow> lua_result" where
  "l_codec_mysql_encode A stk args =
     (case args of
        [LStr data] \<Rightarrow>
          (case dynstr_check A (init_on_stack stk 512) (length data) of
             None \<Rightarrow> Fault
           | Some (r, str) \<Rightarrow>
               (case (if r then for_each (mysql_put A) data str else Some str) of
                  None \<Rightarrow> Fault
                | Some str' \<Rightarrow> Returns [LStr (dynstr_text str')]))
      | _ \<Rightarrow> LuaError ''expecting 1 argument: text (string)'')"

definition mysql_chunk :: "byte \<Rightarrow> byte list" where
  "mysql_chunk c =
     (if c = c_cr then [c_backslash, 114] else if c = c_lf then [c_backslash, 110]
      else if c = c_bs then [c_backslash, 98] else if c = c_nul then [c_backslash, 48]
      else if c = 1 then [c_backslash, 49]
      else if c \<in> {c_dquote, c_squote, c_backslash} then [c_backslash, c] else [c])"

lemma mysql_put_chunk: "mysql_put A str c = dynstr_puts A str (mysql_chunk c)"
  by (simp add: mysql_put_def mysql_chunk_def dynstr_putc_puts)

lemma mysql_chunk_length: "length (mysql_chunk c) \<le> 2"
  by (simp add: mysql_chunk_def)

text \<open>
  How MySQL reads the body of a quoted literal: a backslash takes the next byte (with the
  documented special letters), a doubled quote is a quote, a single one ends the literal.
\<close>

definition sql_escape :: "byte \<Rightarrow> byte" where
  "sql_escape d =
     (if d = 48 then 0 else if d = 98 then 8 else if d = 110 then 10 else if d = 114 then 13
      else if d = 116 then 9 else if d = 90 then 26 else d)"

fun sql_literal :: "byte \<Rightarrow> byte list \<Rightarrow> (byte list \<times> byte list) option" where
  "sql_literal q [] = None"
| "sql_literal q [c] = (if c = q then Some ([], []) else None)"
| "sql_literal q (c # d # cs) =
     (if c = q then
        (if d = q then map_option (apfst (Cons q)) (sql_literal q cs) else Some ([], d # cs))
      else if c = c_backslash then map_option (apfst (Cons (sql_escape d))) (sql_literal q cs)
      else map_option (apfst (Cons c)) (sql_literal q (d # cs)))"

text \<open>What the server's literal means to MySQL: byte 1 comes back as the digit \<open>1\<close>.\<close>

definition mysql_value :: "byte \<Rightarrow> byte" where
  "mysql_value c = (if c = 1 then 49 else c)"

lemma sql_literal_chunk:
  assumes "q \<in> {c_squote, c_dquote}" and "tail \<noteq> []"
  shows "sql_literal q (mysql_chunk c @ tail) = map_option (apfst (Cons (mysql_value c))) (sql_literal q tail)"
  using assms by (cases tail) (auto simp: mysql_chunk_def mysql_value_def sql_escape_def)

lemma sql_literal_text:
  assumes "q \<in> {c_squote, c_dquote}" and "rest = [] \<or> hd rest \<noteq> q"
  shows "sql_literal q (concat (map mysql_chunk ys) @ q # rest) = Some (map mysql_value ys, rest)"
proof (induction ys)
  case Nil
  show ?case using assms by (cases rest) auto
next
  case (Cons c cs)
  then show ?case using assms(1) by (simp add: sql_literal_chunk)
qed

text \<open>
  C9. Whatever bytes a text holds, and even when writes fail for lack of memory, the MySQL encoder
  returns, and its result closed by the quote that opened the literal is one literal: MySQL never
  sees a quote of the text as the end of it.  The literal denotes the bytes of the text (those
  whose write succeeded), except that byte 1 becomes the digit 1.
\<close>

theorem mysql_encode_literal:
  assumes "2 * length data \<le> mem_limit" and "q \<in> {c_squote, c_dquote}"
    and "rest = [] \<or> hd rest \<noteq> q"
  shows "\<exists>out ys. l_codec_mysql_encode A stk [LStr data] = Returns [LStr out] \<and>
    subseq ys data \<and> sql_literal q (out @ q # rest) = Some (map mysql_value ys, rest) \<and>
    (reliable A \<longrightarrow> ys = data)"
proof -
  have n: "512 \<le> mem_limit" by (simp add: mem_limit_def)
  obtain str ys where
      "Option.bind (dynstr_check A (init_on_stack stk 512) (length data))
         (\<lambda>(r, str). if r then for_each (mysql_put A) data str else Some str) = Some str"
      "dynstr_text str = concat (map mysql_chunk ys)" "subseq ys data" "reliable A \<longrightarrow> ys = data"
    by (rule escaped_result [OF mysql_put_chunk mysql_chunk_length n _ assms(1)]) simp
  then show ?thesis
    using sql_literal_text [OF assms(2,3), of ys]
    by (auto simp: l_codec_mysql_encode_def split: Option.bind_splits)
qed

theorem mysql_encode_literal_witness:
  "\<exists>out ys. l_codec_mysql_encode (\<lambda>n. Some (\<lambda>i. 7)) (\<lambda>i. 5) [LStr (cstr ''it's'')] = Returns [LStr out] \<and>
    subseq ys (cstr ''it's'') \<and>
    sql_literal c_squote (out @ c_squote # cstr '' OR 1'') = Some (map mysql_value ys, cstr '' OR 1'') \<and>
    (reliable (\<lambda>n. Some (\<lambda>i. 7 :: byte)) \<longrightarrow> ys = cstr ''it's'')"
  by (rule mysql_encode_literal) (simp_all add: mem_limit_def cstr_def)

section \<open>l_codec_html_encode\<close>

definition html_put :: "allocator \<Rightarrow> dynstr \<Rightarrow> byte \<Rightarrow> (bool \<times> dynstr) option" where
  "html_put A str c =
     (if c = c_amp then dynstr_puts A str (cstr ''&amp;'')
      else if c = c_dquote then dynstr_puts A str (cstr ''&quot;'')
      else if c = c_lt then dynstr_puts A str (cstr ''&lt;'')
      else if c = c_gt then dynstr_puts A str (cstr ''&gt;'')
      else if c = c_squote then dynstr_puts A str (cstr ''&#39;'')
      else dynstr_putc A str c)"

definition l_codec_html_encode :: "allocator \<Rightarrow> (nat \<Rightarrow> byte) \<Rightarrow> lua_value list \<Rightarrow> lua_result" where
  "l_codec_html_encode A stk args =
     (case args of
        [LStr data] \<Rightarrow>
          (case dynstr_check A (init_on_stack stk 4096) (length data) of
             None \<Rightarrow> Fault
           | Some (r, str) \<Rightarrow>
               (case (if r then for_each (html_put A) data str else Some str) of
                  None \<Rightarrow> Fault
                | Some str' \<Rightarrow> Returns [LStr (dynstr_text str')]))
      | _ \<Rightarrow> LuaError ''expecting 1 argument: text (string)'')"

definition html_chunk :: "byte \<Rightarrow> byte list" where
  "html_chunk c =
     (if c = c_amp then cstr ''&amp;'' else if c = c_dquote then cstr ''&quot;''
      else if c = c_lt then cstr ''&lt;'' else if c = c_gt then cstr ''&gt;''
      else if c = c_squote then cstr ''&#39;'' else [c])"

lemma html_put_chunk: "html_put A str c = dynstr_puts A str (html_chunk c)"
  by (simp add: html_put_def html_chunk_def dynstr_putc_puts)

lemma html_chunk_length: "length (html_chunk c) \<le> 6"
  by (simp add: html_chunk_def cstr_def)

text \<open>How a browser reads the five character references back.\<close>

definition html_refs :: "(byte list \<times> byte) list" where
  "html_refs = [(cstr ''&amp;'', c_amp), (cstr ''&quot;'', c_dquote), (cstr ''&lt;'', c_lt),
     (cstr ''&gt;'', c_gt), (cstr ''&#39;'', c_squote)]"

function html_read :: "byte list \<Rightarrow> byte list" where
  "html_read [] = []"
| "html_read (c # cs) =
     (case List.find (\<lambda>(r, v). prefix r (c # cs)) html_refs of
        Some (r, v) \<Rightarrow> v # html_read (drop (length r - 1) cs)
      | None \<Rightarrow> c # html_read cs)"
  by pat_completeness auto
termination by (relation "measure length") auto

lemma html_read_chunk: "html_read (html_chunk c @ tail) = c # html_read tail"
  by (auto simp: html_chunk_def html_refs_def cstr_def)

lemma html_read_text: "html_read (concat (map html_chunk ys)) = ys"
  by (induction ys) (auto simp: html_read_chunk)

lemma html_chunk_safe: "set (html_chunk c) \<inter> {c_lt, c_gt, c_dquote, c_squote} = {}"
  by (simp add: html_chunk_def cstr_def)

text \<open>
  Whatever bytes a text holds, and even when writes fail for lack of memory, the HTML encoder
  returns, its result holds no angle bracket and no quote, and reading the character references
  back gives the bytes of the text whose write succeeded, all of them when memory is available.
\<close>

theorem html_encode_safe:
  assumes "6 * length data \<le> mem_limit"
  shows "\<exists>out ys. l_codec_html_encode A stk [LStr data] = Returns [LStr out] \<and>
    set out \<inter> {c_lt, c_gt, c_dquote, c_squote} = {} \<and>
    subseq ys data \<and> html_read out = ys \<and> (reliable A \<longrightarrow> ys = data)"
proof -
  have n: "4096 \<le> mem_limit" by (simp add: mem_limit_def)
  obtain str ys where
      "Option.bind (dynstr_check A (init_on_stack stk 4096) (length data))
         (\<lambda>(r, str). if r then for_each (html_put A) data str else Some str) = Some str"
      "dynstr_text str = concat (map html_chunk ys)" "subseq ys data" "reliable A \<longrightarrow> ys = data"
    by (rule escaped_result [OF html_put_chunk html_chunk_length n _ assms(1)]) simp
  moreover have "set (concat (map html_chunk ys)) \<inter> {c_lt, c_gt, c_dquote, c_squote} = {}"
    using html_chunk_safe by fastforce
  ultimately show ?thesis
    using html_read_text [of ys]
    by (auto simp: l_codec_html_encode_def split: Option.bind_splits)
qed

theorem html_encode_safe_witness:
  "\<exists>out ys. l_codec_html_encode (\<lambda>n. Some (\<lambda>i. 7)) (\<lambda>i. 5) [LStr (cstr ''<b>'')] = Returns [LStr out] \<and>
    set out \<inter> {c_lt, c_gt, c_dquote, c_squote} = {} \<and>
    subseq ys (cstr ''<b>'') \<and> html_read out = ys \<and>
    (reliable (\<lambda>n. Some (\<lambda>i. 7 :: byte)) \<longrightarrow> ys = cstr ''<b>'')"
  by (rule html_encode_safe) (simp add: mem_limit_def cstr_def)

end
