(* ===== verification/Codec_Json.thy ===== *)
theory Codec_Json
  imports Codec_Text
begin

text \<open>
  The encoders of Lua values of \<^verbatim>\<open>src/80s/lua_codec.c\<close>: \<open>encode_string\<close>, \<open>json_encode\<close> and
  \<open>lua_encode\<close>.  They write into a dynamic string and ignore whether a write succeeded; only
  between key and value they look at its \<open>ok\<close> flag.  The definitions are the code; \<open>json_text\<close>
  and \<open>lua_text\<close> are what it writes when memory is available.
\<close>

section \<open>Writing without looking at the result\<close>

definition put :: "allocator \<Rightarrow> byte list \<Rightarrow> dynstr \<Rightarrow> dynstr option" where
  "put A bs out = map_option snd (dynstr_puts A out bs)"

definition putb :: "allocator \<Rightarrow> byte \<Rightarrow> dynstr \<Rightarrow> dynstr option" where
  "putb A c out = map_option snd (dynstr_putc A out c)"

text \<open>\<open>out->ptr[out->length - 1] = c\<close>.\<close>

definition set_last :: "byte \<Rightarrow> dynstr \<Rightarrow> dynstr option" where
  "set_last c out =
     (if ds_length out = 0 then None
      else map_option (\<lambda>mem. out\<lparr>ds_ptr := mem\<rparr>) (poke (ds_ptr out) (ds_length out - 1) [c]))"

text \<open>
  What a piece of encoder is meant to do: it does not fault, leaves a well-formed buffer that grew
  by at most the text, and by exactly the text when memory is available.
\<close>

definition wrote :: "allocator \<Rightarrow> dynstr \<Rightarrow> byte list \<Rightarrow> dynstr option \<Rightarrow> bool" where
  "wrote A out bs r \<longleftrightarrow> (\<exists>out'. r = Some out' \<and> dynstr_wf out' \<and> ds_length out \<le> ds_length out' \<and>
     ds_length out' \<le> ds_length out + length bs \<and>
     (reliable A \<longrightarrow> dynstr_text out' = dynstr_text out @ bs \<and> ds_ok out' = ds_ok out))"

definition room :: "dynstr \<Rightarrow> nat \<Rightarrow> bool" where
  "room out n \<longleftrightarrow> dynstr_wf out \<and> ds_length out + n \<le> fmt_limit"

lemma room_le: "room out n \<Longrightarrow> m \<le> n \<Longrightarrow> room out m"
  by (simp add: room_def)

lemma wrote_put: "room out (length bs) \<Longrightarrow> wrote A out bs (put A bs out)"
proof -
  assume r: "room out (length bs)"
  then have wfo: "dynstr_wf out" and lim: "ds_length out + length bs \<le> mem_limit"
    by (simp_all add: room_def fmt_limit_def mem_limit_def)
  from wfo lim show ?thesis
  proof (cases rule: dynstr_check_cases [where A = A])
    case (grown s')
    obtain s'' where "dynstr_append s' bs = Some s''" "dynstr_wf s''" "ds_ok s'' = ds_ok s'"
        "dynstr_text s'' = dynstr_text s' @ bs" "ds_length s'' = ds_length s' + length bs"
      using dynstr_append_step [of s' bs] grown lim by auto
    then show ?thesis using grown by (auto simp: wrote_def put_def dynstr_puts_def)
  next
    case failed
    then show ?thesis using wfo
      by (auto simp: wrote_def put_def dynstr_puts_def dynstr_wf_def dynstr_text_def)
  qed
qed

lemma wrote_putb: "room out 1 \<Longrightarrow> wrote A out [c] (putb A c out)"
  using wrote_put [of out "[c]" A] by (simp add: putb_def put_def dynstr_putc_puts)

lemma wrote_nil: "room out 0 \<Longrightarrow> wrote A out [] (Some out)"
  by (simp add: wrote_def room_def)

text \<open>Sequencing: the two pieces one after the other.\<close>

lemma wrote_bind:
  assumes "wrote A out xs m" and "room out (length xs + n)" and "length ys \<le> n"
    and "\<And>o'. room o' (length ys) \<Longrightarrow> ds_ok o' = ds_ok out \<or> \<not> reliable A \<Longrightarrow>
      ds_length out \<le> ds_length o' \<Longrightarrow> wrote A o' ys (f o')"
  shows "wrote A out (xs @ ys) (Option.bind m f)"
proof -
  obtain o' where o': "m = Some o'" "dynstr_wf o'" "ds_length o' \<le> ds_length out + length xs"
      "ds_length out \<le> ds_length o'"
      "reliable A \<longrightarrow> dynstr_text o' = dynstr_text out @ xs \<and> ds_ok o' = ds_ok out"
    using assms(1) by (auto simp: wrote_def)
  have "room o' (length ys)" using o' assms(2,3) by (simp add: room_def)
  from assms(4) [OF this] o' have "wrote A o' ys (f o')" by blast
  then show ?thesis using o' by (auto simp: wrote_def)
qed

lemma wrote_seq:
  assumes "wrote A out xs m" and "room out (length xs + length ys)"
    and "\<And>o'. room o' (length ys) \<Longrightarrow> wrote A o' ys (f o')"
  shows "wrote A out (xs @ ys) (Option.bind m f)"
  using wrote_bind [OF assms(1,2) order_refl] assms(3) by blast

section \<open>Strings\<close>

definition encode_byte :: "allocator \<Rightarrow> byte \<Rightarrow> dynstr \<Rightarrow> dynstr option" where
  "encode_byte A c out =
     (if c = c_cr then put A [c_backslash, 114] out
      else if c = c_lf then put A [c_backslash, 110] out
      else if c = c_tab then put A [c_backslash, 116] out
      else if c = c_dquote then put A [c_backslash, c_dquote] out
      else if c = c_backslash then put A [c_backslash, c_backslash] out
      else if c = c_nul then put A [c_backslash, 48] out
      else if sint c < 32 \<and> 0 < sint c then
        Option.bind (put A [c_backslash, 120] out) (\<lambda>o1.
          Option.bind (putb A (hex_upper ! hi_nibble c) o1) (putb A (hex_upper ! lo_nibble c)))
      else putb A c out)"

primrec encode_bytes :: "allocator \<Rightarrow> byte list \<Rightarrow> dynstr \<Rightarrow> dynstr option" where
  "encode_bytes A [] out = Some out"
| "encode_bytes A (c # cs) out = Option.bind (encode_byte A c out) (encode_bytes A cs)"

definition encode_string :: "allocator \<Rightarrow> byte list \<Rightarrow> dynstr \<Rightarrow> dynstr option" where
  "encode_string A str out =
     Option.bind (putb A c_dquote out) (\<lambda>o1.
       Option.bind (encode_bytes A str o1) (putb A c_dquote))"

definition string_chunk :: "byte \<Rightarrow> byte list" where
  "string_chunk c =
     (if c = c_cr then [c_backslash, 114] else if c = c_lf then [c_backslash, 110]
      else if c = c_tab then [c_backslash, 116]
      else if c = c_dquote \<or> c = c_backslash then [c_backslash, c]
      else if c = c_nul then [c_backslash, 48]
      else if unat c < 32 then [c_backslash, 120, hex_upper ! hi_nibble c, hex_upper ! lo_nibble c]
      else [c])"

definition string_text :: "byte list \<Rightarrow> byte list" where
  "string_text str = c_dquote # concat (map string_chunk str) @ [c_dquote]"

lemma string_chunk_length: "length (string_chunk c) \<le> 4"
  by (simp add: string_chunk_def)

lemma sint_control: "c \<noteq> 0 \<Longrightarrow> (sint c < 32 \<and> 0 < sint c) = (unat (c :: byte) < 32)"
proof -
  assume "c \<noteq> 0"
  then have "0 < unat c" by (simp add: byte_eq_iff)
  then show ?thesis
    using byte_lt [of c] unfolding sint_byte by (cases "unat c < 128") (simp_all only: if_True if_False, linarith+)
qed

lemma wrote_byte:
  assumes r: "room out (length (string_chunk c))"
  shows "wrote A out (string_chunk c) (encode_byte A c out)"
proof (cases "c \<in> {c_cr, c_lf, c_tab, c_dquote, c_backslash, c_nul}")
  case True
  then have "length (string_chunk c) = 2" by (auto simp: string_chunk_def)
  then have "room out 2" using r by simp
  then have "wrote A out [c_backslash, d] (put A [c_backslash, d] out)" for d
    using wrote_put [of out "[c_backslash, d]" A] by (simp add: numeral_2_eq_2)
  then show ?thesis
    using True by (auto simp: encode_byte_def string_chunk_def)
next
  case plain: False
  show ?thesis
  proof (cases "unat c < 32")
    case True
    then have "length (string_chunk c) = 4" using plain by (simp add: string_chunk_def)
    then have "room out 4" using r by simp
    then have "wrote A out ([c_backslash, 120] @ [hex_upper ! hi_nibble c] @ [hex_upper ! lo_nibble c])
      (Option.bind (put A [c_backslash, 120] out) (\<lambda>o1.
          Option.bind (putb A (hex_upper ! hi_nibble c) o1) (putb A (hex_upper ! lo_nibble c))))"
      by (intro wrote_seq wrote_put wrote_putb) (auto elim: room_le)
    moreover have "sint c < 32 \<and> 0 < sint c" using True plain sint_control [of c] by simp
    ultimately show ?thesis
      using True plain by (simp add: encode_byte_def string_chunk_def)
  next
    case False
    then have "\<not> (sint c < 32 \<and> 0 < sint c)" using plain sint_control [of c] by simp
    moreover have "length (string_chunk c) = 1" using False plain by (simp add: string_chunk_def)
    then have "room out 1" using r by simp
    ultimately show ?thesis
      using False plain wrote_putb [of out A c]
      unfolding encode_byte_def string_chunk_def by (simp only: insert_iff de_Morgan_disj if_False simp_thms)
  qed
qed

lemma wrote_bytes:
  "room out (length (concat (map string_chunk str))) \<Longrightarrow>
   wrote A out (concat (map string_chunk str)) (encode_bytes A str out)"
proof (induction str arbitrary: out)
  case Nil
  then show ?case by (simp add: wrote_nil)
next
  case (Cons c cs)
  have "wrote A out (string_chunk c @ concat (map string_chunk cs))
      (Option.bind (encode_byte A c out) (encode_bytes A cs))"
    using Cons.prems by (intro wrote_seq wrote_byte Cons.IH) (auto elim: room_le)
  then show ?case by simp
qed

lemma wrote_string:
  assumes "room out (length (string_text str))"
  shows "wrote A out (string_text str) (encode_string A str out)"
proof -
  have "wrote A out ([c_dquote] @ concat (map string_chunk str) @ [c_dquote])
      (Option.bind (putb A c_dquote out) (\<lambda>o1.
        Option.bind (encode_bytes A str o1) (putb A c_dquote)))"
    using assms by (intro wrote_seq wrote_putb wrote_bytes) (auto simp: string_text_def elim: room_le)
  then show ?thesis by (simp add: encode_string_def string_text_def)
qed

section \<open>json_encode and lua_encode\<close>

text \<open>
  The result of a recursive encoder: a fault or no end within the given number of steps, a Lua
  error, or the buffer.
\<close>

type_synonym encoding = "dynstr outcome"

text \<open>The library's texts of numbers: \<open>%.20g\<close> for a value, Lua's own for a key.\<close>

record number_texts =
  fmt_g :: "lua_value \<Rightarrow> byte list"
  key_text :: "lua_value \<Rightarrow> byte list"

text \<open>
  \<open>lua_tolstring\<close> on a key: a key that is neither string nor number gives a null pointer and
  length 0.
\<close>

definition key_bytes :: "number_texts \<Rightarrow> lua_value \<Rightarrow> byte list" where
  "key_bytes t k = (case k of LStr bs \<Rightarrow> bs | LInt i \<Rightarrow> key_text t k | LFloat x \<Rightarrow> key_text t k | _ \<Rightarrow> [])"

text \<open>
  The rest of the iteration.  \<open>lua_tolstring\<close> turns a number key on the stack into a string, so
  \<open>lua_next\<close> then goes on from the entry with that string as its key, or fails if there is none.
\<close>

fun entries_after :: "lua_value \<Rightarrow> (lua_value \<times> lua_value) list \<Rightarrow> (lua_value \<times> lua_value) list option" where
  "entries_after k [] = None"
| "entries_after k ((k', v) # es) = (if k' = k then Some es else entries_after k es)"

definition next_entries :: "number_texts \<Rightarrow> (lua_value \<times> lua_value) list \<Rightarrow> bool \<Rightarrow> lua_value \<Rightarrow>
    (lua_value \<times> lua_value) list \<Rightarrow> (lua_value \<times> lua_value) list option" where
  "next_entries t es is_array k rest =
     (if \<not> is_array \<and> lua_isnum k then entries_after (LStr (key_text t k)) es else Some rest)"

definition putg :: "allocator \<Rightarrow> number_texts \<Rightarrow> lua_value \<Rightarrow> dynstr \<Rightarrow> dynstr option" where
  "putg A t num out = map_option snd (dynstr_putg A (fmt_g t) out num)"

text \<open>The values that are no tables, with the text for nil; unsupported types write nothing.\<close>

definition encode_scalar :: "allocator \<Rightarrow> number_texts \<Rightarrow> byte list \<Rightarrow> lua_value \<Rightarrow> dynstr \<Rightarrow> dynstr option" where
  "encode_scalar A t nil v out =
     (case v of
        LInt i \<Rightarrow> putg A t v out
      | LFloat x \<Rightarrow> putg A t v out
      | LStr bs \<Rightarrow> encode_string A bs out
      | LBool b \<Rightarrow> put A (if b then cstr ''true'' else cstr ''false'') out
      | LNil \<Rightarrow> put A nil out
      | _ \<Rightarrow> Some out)"

definition json_close :: "allocator \<Rightarrow> bool option \<Rightarrow> dynstr \<Rightarrow> dynstr option" where
  "json_close A arr out =
     (case arr of
        None \<Rightarrow>
          if 0 < ds_length out then Option.bind (set_last c_lbracket out) (putb A c_rbracket)
          else put A [c_lbracket, c_rbracket] out
      | Some is_array \<Rightarrow>
          if 0 < ds_length out then set_last (if is_array then c_rbracket else c_rbrace) out
          else putb A c_rbrace out)"

definition json_key :: "allocator \<Rightarrow> number_texts \<Rightarrow> bool \<Rightarrow> lua_value \<Rightarrow> dynstr \<Rightarrow> dynstr option" where
  "json_key A t is_array k out =
     (if is_array then Some out
      else Option.bind (encode_string A (key_bytes t k) out) (putb A c_colon))"

text \<open>
  The recursion with a bound on its steps, since a loop whose key has become a string may go round for
  ever: \<open>json_items\<close> is the \<open>while\<close> loop, \<open>rest\<close> what \<open>lua_next\<close> has still to give, \<open>arr\<close> the
  variable \<open>is_array\<close> (\<open>None\<close> while \<open>is_empty\<close>).  The Lua stack has \<open>slots\<close> slots, of which \<open>h\<close>
  are in use up to the table: \<open>lua_pushnil\<close> needs one more and \<open>lua_next\<close> two, for the key and the value,
  and neither is preceded by \<open>lua_checkstack\<close>.  \<open>encode_steps\<close> below many steps are enough for a table
  whose first key decides its kind, and two slots per level.
\<close>

fun json_encode :: "nat \<Rightarrow> nat \<Rightarrow> nat \<Rightarrow> allocator \<Rightarrow> number_texts \<Rightarrow> (lua_value \<times> lua_value) list \<Rightarrow> dynstr \<Rightarrow> encoding"
  and json_items :: "nat \<Rightarrow> nat \<Rightarrow> nat \<Rightarrow> allocator \<Rightarrow> number_texts \<Rightarrow> (lua_value \<times> lua_value) list \<Rightarrow> (lua_value \<times> lua_value) list \<Rightarrow> bool option \<Rightarrow> dynstr \<Rightarrow> encoding" where
  "json_encode 0 slots h A t es out = None"
| "json_encode (Suc n) slots h A t es out =
     (if h < slots then Option.bind (putb A c_lbrace out) (json_items n slots h A t es es None) else None)"
| "json_items 0 slots h A t es rest arr out = None"
| "json_items (Suc n) slots h A t es [] arr out = map_option Inr (json_close A arr out)"
| "json_items (Suc n) slots h A t es ((k, v) # rest) arr out =
     (if slots < h + 2 then None
      else let is_array = (case arr of None \<Rightarrow> lua_isnum k | Some b \<Rightarrow> b) in
      Option.bind (if arr = None \<and> is_array then set_last c_lbracket out else Some out) (\<lambda>o1.
      Option.bind (json_key A t is_array k o1) (\<lambda>o2.
      andthen
        (if ds_ok o2 then
           andthen (case v of LTable es' \<Rightarrow> json_encode n slots (h + 2) A t es' o2
                    | _ \<Rightarrow> map_option Inr (encode_scalar A t (cstr ''null'') v o2))
             (\<lambda>o3. map_option Inr (putb A c_comma o3))
         else Some (Inr o2))
        (\<lambda>o4. case next_entries t es is_array k rest of
                None \<Rightarrow> Some (Inl ''invalid key to next'')
              | Some rest' \<Rightarrow> json_items n slots h A t es rest' (Some is_array) o4))))"

definition lua_close_text :: "allocator \<Rightarrow> bool option \<Rightarrow> dynstr \<Rightarrow> dynstr option" where
  "lua_close_text A arr out =
     (case arr of
        None \<Rightarrow>
          if 0 < ds_length out then Option.bind (set_last c_lbrace out) (putb A c_rbrace)
          else put A [c_lbrace, c_rbrace] out
      | Some is_array \<Rightarrow>
          if 0 < ds_length out then set_last c_rbrace out else putb A c_rbrace out)"

definition lua_key :: "allocator \<Rightarrow> number_texts \<Rightarrow> bool \<Rightarrow> lua_value \<Rightarrow> dynstr \<Rightarrow> dynstr option" where
  "lua_key A t is_array k out =
     (if is_array then Some out
      else Option.bind (putb A c_lbracket out) (\<lambda>o1.
        Option.bind (encode_string A (key_bytes t k) o1) (put A [c_rbracket, 61])))"

text \<open>\<open>dynstr_puts(out, "nil", 4)\<close> copies the NUL of the literal.\<close>

fun lua_encode :: "nat \<Rightarrow> nat \<Rightarrow> nat \<Rightarrow> allocator \<Rightarrow> number_texts \<Rightarrow> (lua_value \<times> lua_value) list \<Rightarrow> dynstr \<Rightarrow> encoding"
  and lua_items :: "nat \<Rightarrow> nat \<Rightarrow> nat \<Rightarrow> allocator \<Rightarrow> number_texts \<Rightarrow> (lua_value \<times> lua_value) list \<Rightarrow> (lua_value \<times> lua_value) list \<Rightarrow> bool option \<Rightarrow> dynstr \<Rightarrow> encoding" where
  "lua_encode 0 slots h A t es out = None"
| "lua_encode (Suc n) slots h A t es out =
     (if h < slots then Option.bind (putb A c_lbrace out) (lua_items n slots h A t es es None) else None)"
| "lua_items 0 slots h A t es rest arr out = None"
| "lua_items (Suc n) slots h A t es [] arr out = map_option Inr (lua_close_text A arr out)"
| "lua_items (Suc n) slots h A t es ((k, v) # rest) arr out =
     (if slots < h + 2 then None
      else let is_array = (case arr of None \<Rightarrow> lua_isnum k | Some b \<Rightarrow> b) in
      Option.bind (lua_key A t is_array k out) (\<lambda>o2.
      andthen
        (if ds_ok o2 then
           andthen (case v of LTable es' \<Rightarrow> lua_encode n slots (h + 2) A t es' o2
                    | _ \<Rightarrow> map_option Inr (encode_scalar A t (cstr ''nil'' @ [0]) v o2))
             (\<lambda>o3. map_option Inr (putb A c_comma o3))
         else Some (Inr o2))
        (\<lambda>o4. case next_entries t es is_array k rest of
                None \<Rightarrow> Some (Inl ''invalid key to next'')
              | Some rest' \<Rightarrow> lua_items n slots h A t es rest' (Some is_array) o4)))"

definition encoded :: "encoding \<Rightarrow> lua_result" where
  "encoded r = (case r of None \<Rightarrow> Fault | Some (Inl e) \<Rightarrow> LuaError e
     | Some (Inr out) \<Rightarrow> Returns [LStr (dynstr_text out)])"

definition l_codec_json_encode :: "nat \<Rightarrow> nat \<Rightarrow> allocator \<Rightarrow> number_texts \<Rightarrow> (nat \<Rightarrow> byte) \<Rightarrow> lua_value list \<Rightarrow> lua_result" where
  "l_codec_json_encode n slots A t stk args =
     (case args of
        [LTable es] \<Rightarrow> encoded (json_encode n slots 1 A t es (init_on_stack (stk(0 := 0)) 10000))
      | _ \<Rightarrow> LuaError ''expecting 1 argument: data (table)'')"

definition l_codec_lua_encode :: "nat \<Rightarrow> nat \<Rightarrow> allocator \<Rightarrow> number_texts \<Rightarrow> (nat \<Rightarrow> byte) \<Rightarrow> lua_value list \<Rightarrow> lua_result" where
  "l_codec_lua_encode n slots A t stk args =
     (case args of
        [LTable es] \<Rightarrow> encoded (lua_encode n slots 1 A t es (init_on_stack (stk(0 := 0)) 10000))
      | _ \<Rightarrow> LuaError ''expecting 1 argument: data (table)'')"

section \<open>What json_encode writes\<close>

definition scalar_text :: "number_texts \<Rightarrow> byte list \<Rightarrow> lua_value \<Rightarrow> byte list" where
  "scalar_text t nil v =
     (case v of LInt i \<Rightarrow> fmt_g t v | LFloat x \<Rightarrow> fmt_g t v | LStr bs \<Rightarrow> string_text bs
      | LBool b \<Rightarrow> if b then cstr ''true'' else cstr ''false'' | LNil \<Rightarrow> nil | _ \<Rightarrow> [])"

definition json_key_text :: "number_texts \<Rightarrow> bool \<Rightarrow> lua_value \<Rightarrow> byte list" where
  "json_key_text t is_array k = (if is_array then [] else string_text (key_bytes t k) @ [c_colon])"

fun json_text and json_more where
  "json_text t (LTable []) = [c_lbracket, c_rbracket]"
| "json_text t (LTable ((k, v) # es)) =
     (if lua_isnum k then c_lbracket else c_lbrace) # json_key_text t (lua_isnum k) k @
       json_text t v @ json_more t (lua_isnum k) es"
| "json_text t LNil = cstr ''null''"
| "json_text t (LBool b) = (if b then cstr ''true'' else cstr ''false'')"
| "json_text t (LInt i) = fmt_g t (LInt i)"
| "json_text t (LFloat x) = fmt_g t (LFloat x)"
| "json_text t (LStr bs) = string_text bs"
| "json_text t (LLight p) = []"
| "json_more t is_array [] = [if is_array then c_rbracket else c_rbrace]"
| "json_more t is_array ((k, v) # es) =
     c_comma # json_key_text t is_array k @ json_text t v @ json_more t is_array es"

text \<open>Tables whose first key decides their kind: no number key behind a key of another type.\<close>

fun uniform :: "lua_value \<Rightarrow> bool" where
  "uniform (LTable es) =
     list_all (\<lambda>(k, v). (lua_isnum (fst (hd es)) \<or> \<not> lua_isnum k) \<and> uniform v) es"
| "uniform v = True"

fun encode_steps :: "lua_value \<Rightarrow> nat" where
  "encode_steps (LTable es) = 2 + sum_list (map (\<lambda>(k, v). 1 + encode_steps v) es)"
| "encode_steps v = 0"

fun height :: "lua_value \<Rightarrow> nat" where
  "height (LTable es) = Suc (fold max (map (\<lambda>(k, v). height v) es) 0)"
| "height v = 0"

lemma fold_max_start: "a \<le> fold max xs (a :: nat)"
proof (induction xs arbitrary: a)
  case (Cons y ys)
  show ?case using Cons.IH [of "max y a"] by simp
qed simp

lemma fold_max_upper: "x \<in> set xs \<Longrightarrow> x \<le> fold max xs (a :: nat)"
proof (induction xs arbitrary: a)
  case (Cons y ys)
  have "max y a \<le> fold max ys (max y a)" by (rule fold_max_start)
  then show ?case using Cons by auto
qed simp

lemma height_entry: "(k, v) \<in> set es \<Longrightarrow> height v < height (LTable es)"
  by (force intro!: le_imp_less_Suc fold_max_upper)

lemma set_last_step:
  assumes "dynstr_wf out" and "0 < ds_length out"
  shows "\<exists>out'. set_last c out = Some out' \<and> dynstr_wf out' \<and> ds_length out' = ds_length out \<and>
    ds_ok out' = ds_ok out \<and> dynstr_text out' = butlast (dynstr_text out) @ [c]"
proof -
  have len: "ds_length out \<le> length (ds_ptr out)" using assms by (simp add: dynstr_wf_def)
  then obtain mem where m: "poke (ds_ptr out) (ds_length out - 1) [c] = Some mem"
    using assms(2) by (auto simp: poke_def)
  have "take (ds_length out) mem = take (ds_length out - 1) (ds_ptr out) @ [c]"
    using poke_take [OF m] assms(2) by simp
  moreover have "butlast (dynstr_text out) = take (ds_length out - 1) (ds_ptr out)"
    using len by (simp add: dynstr_text_def butlast_take)
  ultimately show ?thesis
    using assms m poke_length [OF m] by (auto simp: set_last_def dynstr_wf_def dynstr_text_def)
qed

lemma wrote_putg:
  assumes "room out (length (fmt_g t v))"
  shows "wrote A out (fmt_g t v) (putg A t v out)"
proof -
  have len: "length (dynstr_text out) = ds_length out" using assms by (simp add: room_def)
  have "length (dynstr_text out) + length (fmt_g t v) \<le> fmt_limit"
    using assms len by (simp add: room_def)
  moreover have "dynstr_wf out" using assms by (simp add: room_def)
  ultimately obtain r s' where s': "dynstr_putfmt A out (fmt_g t v) = Some (r, s')" "dynstr_wf s'"
      "dynstr_text s' = (if r then dynstr_text out @ fmt_g t v else dynstr_text out)"
      "reliable A \<longrightarrow> r" "r \<longrightarrow> ds_ok s' = ds_ok out"
    using dynstr_putfmt_step [of out "fmt_g t v" A] by blast
  have "ds_length s' = length (dynstr_text s')" using s'(2) by simp
  then have "ds_length s' = ds_length out + (if r then length (fmt_g t v) else 0)"
    using len s'(3) by simp
  then show ?thesis using s' by (auto simp: wrote_def putg_def dynstr_putg_def)
qed

lemma wrote_scalar:
  "room out (length (scalar_text t nil v)) \<Longrightarrow> wrote A out (scalar_text t nil v) (encode_scalar A t nil v out)"
  by (cases v) (auto simp: scalar_text_def encode_scalar_def
      intro!: wrote_string wrote_put wrote_nil wrote_putg)

lemma wrote_key:
  assumes "room out (length (json_key_text t a k))"
  shows "wrote A out (json_key_text t a k) (json_key A t a k out)"
proof (cases a)
  case True
  then show ?thesis using assms by (simp add: json_key_text_def json_key_def wrote_nil)
next
  case False
  then have "wrote A out (string_text (key_bytes t k) @ [c_colon])
      (Option.bind (encode_string A (key_bytes t k) out) (putb A c_colon))"
    using assms by (intro wrote_seq wrote_string wrote_putb) (auto simp: json_key_text_def elim: room_le)
  then show ?thesis using False by (simp add: json_key_text_def json_key_def)
qed

text \<open>Replacing the last byte of what is written by a text.\<close>

definition edited :: "allocator \<Rightarrow> dynstr \<Rightarrow> byte list \<Rightarrow> encoding \<Rightarrow> bool" where
  "edited A out bs r \<longleftrightarrow> (\<exists>out'. r = Some (Inr out') \<and> dynstr_wf out' \<and> ds_length out \<le> ds_length out' \<and>
     ds_length out' + 1 \<le> ds_length out + length bs \<and>
     (reliable A \<longrightarrow> dynstr_text out' = butlast (dynstr_text out) @ bs \<and> ds_ok out' = ds_ok out))"

definition wrote_enc :: "allocator \<Rightarrow> dynstr \<Rightarrow> byte list \<Rightarrow> encoding \<Rightarrow> bool" where
  "wrote_enc A out bs r \<longleftrightarrow> (\<exists>m. r = map_option Inr m \<and> wrote A out bs m)"

lemma wrote_encI: "wrote A out bs (Some out') \<Longrightarrow> wrote_enc A out bs (Some (Inr out'))"
  unfolding wrote_enc_def by (intro exI [of _ "Some out'"]) simp

lemma wrote_encE:
  assumes "wrote_enc A out bs r"
  obtains out' where "r = Some (Inr out')" "dynstr_wf out'" "ds_length out \<le> ds_length out'"
    "ds_length out' \<le> ds_length out + length bs"
    "reliable A \<longrightarrow> dynstr_text out' = dynstr_text out @ bs \<and> ds_ok out' = ds_ok out"
  using assms by (auto simp: wrote_enc_def wrote_def)

lemma wroteE:
  assumes "wrote A out bs r"
  obtains out' where "r = Some out'" "dynstr_wf out'" "ds_length out \<le> ds_length out'"
    "ds_length out' \<le> ds_length out + length bs"
    "reliable A \<longrightarrow> dynstr_text out' = dynstr_text out @ bs \<and> ds_ok out' = ds_ok out"
  using assms by (auto simp: wrote_def)

text \<open>One entry: key, value and comma, the value and the comma only while the buffer is intact.\<close>

lemma wrote_entry:
  assumes room: "room o1 (length (json_key_text t a k) + length (json_text t v) + 1)"
    and ok: "reliable A \<longrightarrow> ds_ok o1"
    and val: "\<And>o2. room o2 (length (json_text t v)) \<Longrightarrow> (reliable A \<longrightarrow> ds_ok o2) \<Longrightarrow>
      ds_length o1 \<le> ds_length o2 \<Longrightarrow> wrote_enc A o2 (json_text t v) (valf o2)"
  shows "\<exists>o4. Option.bind (json_key A t a k o1) (\<lambda>o2. andthen
        (if ds_ok o2 then andthen (valf o2) (\<lambda>o3. map_option Inr (putb A c_comma o3)) else Some (Inr o2)) g) = g o4 \<and>
    dynstr_wf o4 \<and> ds_length o1 \<le> ds_length o4 \<and>
    ds_length o4 \<le> ds_length o1 + length (json_key_text t a k) + length (json_text t v) + 1 \<and>
    (reliable A \<longrightarrow> dynstr_text o4 = dynstr_text o1 @ json_key_text t a k @ json_text t v @ [c_comma] \<and>
       ds_ok o4 = ds_ok o1)"
proof -
  have "room o1 (length (json_key_text t a k))" using room by (rule room_le) simp
  then obtain o2 where o2: "json_key A t a k o1 = Some o2" "dynstr_wf o2" "ds_length o1 \<le> ds_length o2"
      "ds_length o2 \<le> ds_length o1 + length (json_key_text t a k)"
      "reliable A \<longrightarrow> dynstr_text o2 = dynstr_text o1 @ json_key_text t a k \<and> ds_ok o2 = ds_ok o1"
    by (rule wroteE [OF wrote_key])
  show ?thesis
  proof (cases "ds_ok o2")
    case False
    then show ?thesis using o2 ok by (intro exI [of _ o2]) (auto simp: andthen_def)
  next
    case True
    have "room o2 (length (json_text t v))" using o2 room by (simp add: room_def)
    then obtain o3 where o3: "valf o2 = Some (Inr o3)" "dynstr_wf o3" "ds_length o2 \<le> ds_length o3"
        "ds_length o3 \<le> ds_length o2 + length (json_text t v)"
        "reliable A \<longrightarrow> dynstr_text o3 = dynstr_text o2 @ json_text t v \<and> ds_ok o3 = ds_ok o2"
      using wrote_encE [OF val] True o2(3) by blast
    have "room o3 1" using o3 o2 room by (simp add: room_def)
    then obtain o4 where "putb A c_comma o3 = Some o4" "dynstr_wf o4" "ds_length o3 \<le> ds_length o4"
        "ds_length o4 \<le> ds_length o3 + length [c_comma]"
        "reliable A \<longrightarrow> dynstr_text o4 = dynstr_text o3 @ [c_comma] \<and> ds_ok o4 = ds_ok o3"
      by (rule wroteE [OF wrote_putb])
    then show ?thesis using o2 o3 True by (intro exI [of _ o4]) (auto simp: andthen_def)
  qed
qed

lemma next_entries_same: "a \<or> \<not> lua_isnum k \<Longrightarrow> next_entries t es a k rest = Some rest"
  by (auto simp: next_entries_def)

definition encodes_upto :: "nat \<Rightarrow> allocator \<Rightarrow> number_texts \<Rightarrow> nat \<Rightarrow> bool" where
  "encodes_upto slots A t n \<longleftrightarrow> (\<forall>es out h. uniform (LTable es) \<longrightarrow> encode_steps (LTable es) \<le> n \<longrightarrow>
     h + 2 * height (LTable es) \<le> slots \<longrightarrow>
     room out (length (json_text t (LTable es))) \<longrightarrow> (reliable A \<longrightarrow> ds_ok out) \<longrightarrow>
     (\<forall>o1. putb A c_lbrace out = Some o1 \<longrightarrow> 0 < ds_length o1) \<longrightarrow>
     wrote_enc A out (json_text t (LTable es)) (json_encode n slots h A t es out))"

lemma encodes_value:
  assumes "encodes_upto slots A t n" and "uniform v" and "encode_steps v \<le> n" and "h + 2 * height v \<le> slots"
    and "room o2 (length (json_text t v))" and "reliable A \<longrightarrow> ds_ok o2" and "0 < ds_length o2"
  shows "wrote_enc A o2 (json_text t v) (case v of LTable es' \<Rightarrow> json_encode n slots h A t es' o2
     | _ \<Rightarrow> map_option Inr (encode_scalar A t (cstr ''null'') v o2))"
proof (cases "\<exists>es. v = LTable es")
  case True
  then obtain es where es: "v = LTable es" by blast
  have "1 \<le> length (json_text t v)" using es by (cases es) (auto simp: Suc_le_eq)
  then have "room o2 1" using assms(5) by (elim room_le)
  then have "\<forall>o1. putb A c_lbrace o2 = Some o1 \<longrightarrow> 0 < ds_length o1"
    using assms(7) wrote_putb [of o2 A c_lbrace] by (auto simp: wrote_def)
  then show ?thesis using es assms by (auto simp: encodes_upto_def)
next
  case False
  then have "json_text t v = scalar_text t (cstr ''null'') v" by (cases v) (auto simp: scalar_text_def)
  then show ?thesis
    using False assms(5) wrote_scalar [of o2 t "cstr ''null''" v A]
    by (cases v) (auto simp: wrote_enc_def)
qed

lemma json_items_some:
  assumes "\<And>m. m < n \<Longrightarrow> encodes_upto slots A t m"
    and "\<forall>(k, v)\<in>set rest. h + 2 + 2 * height v \<le> slots"
    and "list_all (\<lambda>(k, v). (a \<or> \<not> lua_isnum k) \<and> uniform v) rest"
    and "1 + sum_list (map (\<lambda>(k, v). 1 + encode_steps v) rest) \<le> n"
    and "0 < ds_length out" and "room out (length (json_more t a rest) - 1)"
    and "reliable A \<longrightarrow> ds_ok out \<and> last (dynstr_text out) = c_comma"
  shows "edited A out (json_more t a rest) (json_items n slots h A t es0 rest (Some a) out)"
  using assms
proof (induction rest arbitrary: n out)
  case Nil
  then obtain n' where n: "n = Suc n'" by (cases n) auto
  obtain out' where "set_last (if a then c_rbracket else c_rbrace) out = Some out'" "dynstr_wf out'"
      "ds_length out' = ds_length out" "ds_ok out' = ds_ok out"
      "dynstr_text out' = butlast (dynstr_text out) @ [if a then c_rbracket else c_rbrace]"
    using set_last_step [of out "if a then c_rbracket else c_rbrace"] Nil.prems by (auto simp: room_def)
  then show ?case using Nil.prems by (auto simp: n edited_def json_close_def)
next
  case (Cons kv rest)
  obtain k v where kv: "kv = (k, v)" by (cases kv)
  obtain n' where n: "n = Suc n'" using Cons.prems(4) by (cases n) auto
  let ?valf = "\<lambda>o2. case v of LTable es' \<Rightarrow> json_encode n' slots (h + 2) A t es' o2
                    | _ \<Rightarrow> map_option Inr (encode_scalar A t (cstr ''null'') v o2)"
  let ?g = "json_items n' slots h A t es0 rest (Some a)"
  have key: "a \<or> \<not> lua_isnum k" "uniform v" using Cons.prems(3) kv by auto
  have len: "length (json_more t a (kv # rest)) =
      1 + length (json_key_text t a k) + length (json_text t v) + length (json_more t a rest)"
    by (simp add: kv)
  have pos: "0 < length (json_more t a rest)" by (cases rest) auto
  have room: "room out (length (json_key_text t a k) + length (json_text t v) + 1)"
    using Cons.prems(6) unfolding len by (elim room_le) (use pos in linarith)
  have steps: "encode_steps v \<le> n'" "1 + sum_list (map (\<lambda>(k, v). 1 + encode_steps v) rest) \<le> n'"
    using Cons.prems(4) by (simp_all add: n kv)
  have deep: "h + 2 + 2 * height v \<le> slots" "\<forall>(k, v)\<in>set rest. h + 2 + 2 * height v \<le> slots"
    using Cons.prems(2) kv by simp_all
  have up: "encodes_upto slots A t n'" using Cons.prems(1) n by simp
  obtain o4 where o4: "Option.bind (json_key A t a k out) (\<lambda>o2. andthen
        (if ds_ok o2 then andthen (?valf o2) (\<lambda>o3. map_option Inr (putb A c_comma o3)) else Some (Inr o2)) ?g) = ?g o4"
      "dynstr_wf o4" "ds_length out \<le> ds_length o4"
      "ds_length o4 \<le> ds_length out + length (json_key_text t a k) + length (json_text t v) + 1"
      "reliable A \<longrightarrow> dynstr_text o4 = dynstr_text out @ json_key_text t a k @ json_text t v @ [c_comma] \<and>
         ds_ok o4 = ds_ok out"
    using wrote_entry [OF room, of A ?valf ?g] Cons.prems(5,7)
      encodes_value [OF up key(2) steps(1) deep(1)] less_le_trans by blast
  have step: "json_items n slots h A t es0 (kv # rest) (Some a) out = ?g o4"
    using o4(1) key(1) deep(1) by (simp add: n kv next_entries_same)
  have "edited A o4 (json_more t a rest) (?g o4)"
  proof (rule Cons.IH)
    show "\<And>m. m < n' \<Longrightarrow> encodes_upto slots A t m" using Cons.prems(1) n by simp
    show "list_all (\<lambda>(k, v). (a \<or> \<not> lua_isnum k) \<and> uniform v) rest" using Cons.prems(3) by simp
    show "0 < ds_length o4" using Cons.prems(5) o4(3) by simp
    show "room o4 (length (json_more t a rest) - 1)"
      using Cons.prems(6) o4(2,4) pos unfolding len room_def by linarith
    show "reliable A \<longrightarrow> ds_ok o4 \<and> last (dynstr_text o4) = c_comma"
      using Cons.prems(7) o4(5) by auto
  qed (rule steps(2) deep(2))+
  moreover have "reliable A \<Longrightarrow> dynstr_text out = butlast (dynstr_text out) @ [c_comma]"
  proof -
    assume "reliable A"
    moreover have "length (dynstr_text out) \<noteq> 0"
      using Cons.prems(5,6) dynstr_text_length [of out] by (simp add: room_def)
    then have "dynstr_text out \<noteq> []" by simp
    ultimately show ?thesis using Cons.prems(7) by (metis append_butlast_last_id)
  qed
  ultimately show ?case
    unfolding step using o4(3-5) by (auto simp: edited_def kv butlast_append)
qed

lemma json_encodes: "encodes_upto slots A t n"
proof (induction n rule: less_induct)
  case (less n)
  show ?case
    unfolding encodes_upto_def
  proof (intro allI impI)
    fix es out h
    assume uni: "uniform (LTable es)" and steps: "encode_steps (LTable es) \<le> n"
      and deep: "h + 2 * height (LTable es) \<le> slots"
      and room: "room out (length (json_text t (LTable es)))" and ok: "reliable A \<longrightarrow> ds_ok out"
      and first: "\<forall>o1. putb A c_lbrace out = Some o1 \<longrightarrow> 0 < ds_length o1"
    obtain n' where n: "n = Suc (Suc n')"
      using steps by (cases n; cases "n - 1") auto
    have "1 \<le> length (json_text t (LTable es))"
      by (cases es) (auto simp: Suc_le_eq)
    then have "room out 1" using room by (elim room_le)
    then obtain o1 where o1: "putb A c_lbrace out = Some o1" "dynstr_wf o1" "ds_length out \<le> ds_length o1"
        "ds_length o1 \<le> ds_length out + length [c_lbrace]"
        "reliable A \<longrightarrow> dynstr_text o1 = dynstr_text out @ [c_lbrace] \<and> ds_ok o1 = ds_ok out"
      by (rule wroteE [OF wrote_putb])
    have pos: "0 < ds_length o1" using first o1(1) by blast
    have nil_slot: "h < slots" using deep by simp
    obtain o2 where o2: "set_last c_lbracket o1 = Some o2" "dynstr_wf o2" "ds_length o2 = ds_length o1"
        "ds_ok o2 = ds_ok o1" "dynstr_text o2 = butlast (dynstr_text o1) @ [c_lbracket]"
      using set_last_step [OF o1(2) pos] by blast
    show "wrote_enc A out (json_text t (LTable es)) (json_encode n slots h A t es out)"
    proof (cases es)
      case Nil
      have "room o2 1" using o1(4) o2(2,3) room Nil by (simp add: room_def)
      from wroteE [OF wrote_putb [OF this, of A c_rbracket]] obtain o3 where
        "putb A c_rbracket o2 = Some o3" "dynstr_wf o3" "ds_length o2 \<le> ds_length o3"
        "ds_length o3 \<le> ds_length o2 + length [c_rbracket]"
        "reliable A \<longrightarrow> dynstr_text o3 = dynstr_text o2 @ [c_rbracket] \<and> ds_ok o3 = ds_ok o2" by blast
      then show ?thesis
        using o1 o2 pos Nil nil_slot by (auto simp: n json_close_def wrote_def intro!: wrote_encI)
    next
      case (Cons kv rest)
      obtain k v where kv: "kv = (k, v)" by (cases kv)
      let ?a = "lua_isnum k"
      define o1' where "o1' = (if ?a then o2 else o1)"
      have o1': "(if ?a then set_last c_lbracket o1 else Some o1) = Some o1'" "dynstr_wf o1'"
          "ds_length o1' = ds_length o1" "ds_ok o1' = ds_ok o1"
          "reliable A \<longrightarrow> dynstr_text o1' = dynstr_text out @ [if ?a then c_lbracket else c_lbrace]"
        using o1 o2 by (simp_all add: o1'_def)
      let ?valf = "\<lambda>o2. case v of LTable es' \<Rightarrow> json_encode n' slots (h + 2) A t es' o2
                        | _ \<Rightarrow> map_option Inr (encode_scalar A t (cstr ''null'') v o2)"
      let ?g = "json_items n' slots h A t es rest (Some ?a)"
      have key: "uniform v" "list_all (\<lambda>(k', v). (?a \<or> \<not> lua_isnum k') \<and> uniform v) rest"
        using uni Cons kv by auto
      have len: "length (json_text t (LTable es)) =
          1 + length (json_key_text t ?a k) + length (json_text t v) + length (json_more t ?a rest)"
        by (simp add: Cons kv)
      have more: "0 < length (json_more t ?a rest)" by (cases rest) auto
      have "ds_length o1' + (length (json_key_text t ?a k) + length (json_text t v) + 1) \<le> fmt_limit"
        using room o1(4) o1'(3) more unfolding room_def len by (simp, linarith?)
      then have room': "room o1' (length (json_key_text t ?a k) + length (json_text t v) + 1)"
        using o1'(2) by (simp add: room_def)
      have st: "encode_steps v \<le> n'" "1 + sum_list (map (\<lambda>(k, v). 1 + encode_steps v) rest) \<le> n'"
        using steps by (simp_all add: n Cons kv)
      have up: "encodes_upto slots A t n'" using less n by simp
      have entry: "h + 2 + 2 * height v' \<le> slots" if "(k', v') \<in> set es" for k' v'
        using height_entry [OF that] deep by linarith
      then have deeper: "h + 2 + 2 * height v \<le> slots" "\<forall>(k, v)\<in>set rest. h + 2 + 2 * height v \<le> slots"
        using Cons kv by auto
      have oko: "reliable A \<longrightarrow> ds_ok o1'" using ok o1(5) o1'(4) by simp
      have val: "wrote_enc A o2 (json_text t v) (?valf o2)"
        if "room o2 (length (json_text t v))" "reliable A \<longrightarrow> ds_ok o2" "ds_length o1' \<le> ds_length o2" for o2
        by (rule encodes_value [OF up key(1) st(1) deeper(1) that(1,2)]) (use pos o1'(3) that(3) in linarith)
      obtain o4 where o4: "Option.bind (json_key A t ?a k o1') (\<lambda>o2. andthen
            (if ds_ok o2 then andthen (?valf o2) (\<lambda>o3. map_option Inr (putb A c_comma o3)) else Some (Inr o2)) ?g) = ?g o4"
          "dynstr_wf o4" "ds_length o1' \<le> ds_length o4"
          "ds_length o4 \<le> ds_length o1' + length (json_key_text t ?a k) + length (json_text t v) + 1"
          "reliable A \<longrightarrow> dynstr_text o4 = dynstr_text o1' @ json_key_text t ?a k @ json_text t v @ [c_comma] \<and>
             ds_ok o4 = ds_ok o1'"
        using wrote_entry [OF room' oko val, of ?g] by blast
      have step: "json_encode n slots h A t es out = ?g o4"
        using o1(1) o1'(1) o4(1) nil_slot deeper(1) by (simp add: n Cons kv next_entries_same)
      have "edited A o4 (json_more t ?a rest) (?g o4)"
      proof (rule json_items_some)
        show "\<And>m. m < n' \<Longrightarrow> encodes_upto slots A t m" using less n by simp
        show "0 < ds_length o4" using pos o1'(3) o4(3) by simp
        show "room o4 (length (json_more t ?a rest) - 1)"
          using room o4(2,4) o1'(3) o1(4) more unfolding len room_def by (simp, linarith?)
        show "reliable A \<longrightarrow> ds_ok o4 \<and> last (dynstr_text o4) = c_comma"
          using oko o4(5) by auto
      qed (rule key(2) st(2) deeper(2))+
      then show ?thesis
        unfolding step using o1 o1' o4(3-5)
        by (auto simp: edited_def wrote_def Cons kv butlast_append intro!: wrote_encI)
    qed
  qed
qed

lemma encoded_table:
  assumes uni: "uniform (LTable es)" and steps: "encode_steps (LTable es) \<le> n"
    and len: "length (json_text t (LTable es)) \<le> fmt_limit" and deep: "1 + 2 * height (LTable es) \<le> slots"
  shows "\<exists>out. json_encode n slots 1 A t es (init_on_stack stk 10000) = Some (Inr out) \<and>
    (reliable A \<longrightarrow> dynstr_text out = json_text t (LTable es))"
proof -
  let ?s = "init_on_stack stk 10000"
  have wf: "dynstr_wf ?s" by (simp add: mem_limit_def)
  have "0 < ds_length o1" if "putb A c_lbrace ?s = Some o1" for o1
  proof (rule make_room [of 10000 1 A stk])
    show "10000 \<le> mem_limit" "1 \<le> mem_limit" by (simp_all add: mem_limit_def)
  next
    fix s' assume s': "dynstr_check A ?s 1 = Some (True, s')" "dynstr_wf s'"
        "dynstr_text s' = []" "1 < length (ds_ptr s')"
    then have "ds_length s' = 0" using dynstr_text_length [of s'] by simp
    then obtain s'' where "dynstr_append s' [c_lbrace] = Some s''" "ds_length s'' = 1"
      using dynstr_append_step [of s' "[c_lbrace]"] s' by (auto simp: mem_limit_def dynstr_wf_def)
    then show ?thesis using that s' by (simp add: putb_def dynstr_putc_puts dynstr_puts_def)
  next
    have "dynstr_check A ?s 1 \<noteq> Some (False, ?s\<lparr>ds_ok := False\<rparr>)"
      by (simp add: dynstr_check_def init_on_stack_def dynstr_init_def)
    moreover assume "dynstr_check A ?s 1 = Some (False, ?s\<lparr>ds_ok := False\<rparr>)"
    ultimately show ?thesis by contradiction
  qed
  then have first: "\<forall>o1. putb A c_lbrace ?s = Some o1 \<longrightarrow> 0 < ds_length o1" by blast
  have "room ?s (length (json_text t (LTable es)))" using wf len by (simp add: room_def)
  moreover have "ds_ok ?s" by (simp add: init_on_stack_def dynstr_init_def)
  ultimately have "wrote_enc A ?s (json_text t (LTable es)) (json_encode n slots 1 A t es ?s)"
    using json_encodes [of slots A t n] uni steps deep first unfolding encodes_upto_def by blast
  then show ?thesis by (rule wrote_encE) auto
qed

text \<open>
  The JSON encoder never faults on a table whose first key decides its kind, whatever the
  allocator answers, and returns the JSON text of the table when memory is available; the given
  number of steps is enough, and the Lua stack has two slots per level.
\<close>

theorem json_encode_result:
  assumes "uniform (LTable es)" and "encode_steps (LTable es) \<le> n"
    and "length (json_text t (LTable es)) \<le> fmt_limit" and "1 + 2 * height (LTable es) \<le> slots"
  shows "\<exists>bs. l_codec_json_encode n slots A t stk [LTable es] = Returns [LStr bs] \<and>
    (reliable A \<longrightarrow> bs = json_text t (LTable es))"
  using encoded_table [OF assms, of A "stk(0 := 0)"]
  by (auto simp: l_codec_json_encode_def encoded_def)

theorem json_encode_result_witness:
  "\<exists>bs. l_codec_json_encode 9 5 (\<lambda>n. None) \<lparr>fmt_g = (\<lambda>v. cstr ''7''), key_text = (\<lambda>v. cstr ''1'')\<rparr> (\<lambda>i. 5)
      [LTable [(LStr (cstr ''a''), LTable [(LInt 1, LBool True), (LInt 2, LInt 7)]), (LStr (cstr ''b''), LStr [34, 7])]] =
      Returns [LStr bs] \<and>
    (reliable (\<lambda>n. None) \<longrightarrow> bs =
      json_text \<lparr>fmt_g = (\<lambda>v. cstr ''7''), key_text = (\<lambda>v. cstr ''1'')\<rparr>
       (LTable [(LStr (cstr ''a''), LTable [(LInt 1, LBool True), (LInt 2, LInt 7)]), (LStr (cstr ''b''), LStr [34, 7])]))"
  by (rule json_encode_result)
    (simp_all add: lua_isnum_def fmt_limit_def json_key_text_def key_bytes_def string_text_def string_chunk_def cstr_def hex_upper_def)

text \<open>
  A table with a string key before a number key cannot be encoded: reading the number key as a
  string changes it on the stack, and \<open>lua_next\<close> does not find it again.
\<close>

lemma wrote_plain:
  assumes "\<forall>es. v \<noteq> LTable es" and "room out (length (json_text t v))"
  shows "wrote_enc A out (json_text t v) (map_option Inr (encode_scalar A t (cstr ''null'') v out))"
proof -
  have "json_text t v = scalar_text t (cstr ''null'') v"
    using assms(1) by (cases v) (auto simp: scalar_text_def)
  then show ?thesis
    using assms(2) wrote_scalar [of out t "cstr ''null''" v A] by (auto simp: wrote_enc_def)
qed

lemma mixed_entry:
  assumes "lua_isnum k" and "entries_after (LStr (key_text t k)) es = None"
    and "\<forall>es'. v \<noteq> LTable es'" and "room out (length (json_key_text t False k) + length (json_text t v) + 1)"
    and "reliable A \<longrightarrow> ds_ok out" and "h + 2 \<le> slots"
  shows "json_items (Suc n) slots h A t es ((k, v) # rest) (Some False) out = Some (Inl ''invalid key to next'')"
proof -
  let ?valf = "\<lambda>o2. map_option Inr (encode_scalar A t (cstr ''null'') v o2)"
  let ?g = "\<lambda>o4. case next_entries t es False k rest of None \<Rightarrow> Some (Inl ''invalid key to next'')
                | Some rest' \<Rightarrow> json_items n slots h A t es rest' (Some False) o4"
  have val: "wrote_enc A o2 (json_text t v) (?valf o2)" if "room o2 (length (json_text t v))" for o2
    using that by (rule wrote_plain [OF assms(3)])
  obtain o4 where "Option.bind (json_key A t False k out) (\<lambda>o2. andthen
        (if ds_ok o2 then andthen (?valf o2) (\<lambda>o3. map_option Inr (putb A c_comma o3)) else Some (Inr o2)) ?g) = ?g o4"
    using wrote_entry [OF assms(4,5), of ?valf ?g] val by blast
  moreover have "next_entries t es False k rest = None" using assms(1,2) by (simp add: next_entries_def)
  ultimately show ?thesis using assms(3,6) by (cases v) (simp_all add: Let_def cong: if_cong)
qed

lemma entries_after_None: "k \<notin> fst ` set es \<Longrightarrow> entries_after k es = None"
  by (induction es) auto

text \<open>
  A table with a number key behind a string key cannot be encoded.
\<close>

theorem json_encode_mixed_fails:
  assumes "lua_isnum k" and "LStr (key_text t k) \<notin> fst ` set ((LStr s, v1) # (k, v2) # rest)"
    and "\<forall>es. v1 \<noteq> LTable es" and "\<forall>es. v2 \<noteq> LTable es"
    and "length (json_text t (LTable [(LStr s, v1), (k, v2)])) \<le> fmt_limit" and "3 \<le> n" and "3 \<le> slots"
  shows "l_codec_json_encode n slots A t stk [LTable ((LStr s, v1) # (k, v2) # rest)] =
    LuaError ''invalid key to next''"
proof -
  let ?es = "(LStr s, v1) # (k, v2) # rest"
  let ?s = "init_on_stack (stk(0 := 0)) 10000"
  obtain n' where n: "n = Suc (Suc (Suc n'))" using assms(6) by (metis numeral_3_eq_3 Suc_le_D Suc_le_mono)
  let ?valf = "\<lambda>o2. map_option Inr (encode_scalar A t (cstr ''null'') v1 o2)"
  let ?g = "json_items (Suc n') slots 1 A t ?es ((k, v2) # rest) (Some False)"
  have len: "length (json_key_text t False (LStr s)) + length (json_text t v1) + 3 +
      length (json_key_text t False k) + length (json_text t v2) \<le> fmt_limit"
    using assms(5) by (simp add: lua_isnum_def)
  have ok: "ds_ok ?s" by (simp add: init_on_stack_def dynstr_init_def)
  have "room ?s 1" using len by (simp add: room_def mem_limit_def)
  then obtain o1 where o1: "putb A c_lbrace ?s = Some o1" "dynstr_wf o1" "ds_length o1 \<le> 1"
      "reliable A \<longrightarrow> ds_ok o1"
    using wrote_putb [of ?s A c_lbrace] ok by (auto simp: wrote_def)
  have room: "room o1 (length (json_key_text t False (LStr s)) + length (json_text t v1) + 1)"
    using len o1 by (simp add: room_def)
  have val: "wrote_enc A o2 (json_text t v1) (?valf o2)" if "room o2 (length (json_text t v1))" for o2
    using that by (rule wrote_plain [OF assms(3)])
  obtain o4 where o4: "Option.bind (json_key A t False (LStr s) o1) (\<lambda>o2. andthen
        (if ds_ok o2 then andthen (?valf o2) (\<lambda>o3. map_option Inr (putb A c_comma o3)) else Some (Inr o2)) ?g) = ?g o4"
      "dynstr_wf o4" "reliable A \<longrightarrow> ds_ok o4"
      "ds_length o4 \<le> ds_length o1 + length (json_key_text t False (LStr s)) + length (json_text t v1) + 1"
    using wrote_entry [OF room o1(4), of ?valf ?g] val o1(4) by blast
  have "room o4 (length (json_key_text t False k) + length (json_text t v2) + 1)"
    using len o1(3) o4(2,4) unfolding room_def by (intro conjI) linarith+
  then have "?g o4 = Some (Inl ''invalid key to next'')"
    using assms(1,4) entries_after_None [OF assms(2)] o4(3) assms(7) by (intro mixed_entry) auto
  moreover have "json_encode n slots 1 A t ?es ?s = ?g o4"
    using o1(1) o4(1) assms(3,7)
    by (cases v1) (simp_all add: n Let_def lua_isnum_def next_entries_def json_items.simps(3) [where n = "Suc n'"]
        del: json_items.simps cong: if_cong)
  ultimately show ?thesis by (simp add: l_codec_json_encode_def encoded_def)
qed

theorem json_encode_mixed_fails_witness:
  "l_codec_json_encode 3 3 (\<lambda>n. None) \<lparr>fmt_g = (\<lambda>v. cstr ''7''), key_text = (\<lambda>v. cstr ''1'')\<rparr> (\<lambda>i. 5)
     [LTable [(LStr (cstr ''a''), LBool True), (LInt 1, LInt 7)]] = LuaError ''invalid key to next''"
  by (rule json_encode_mixed_fails)
    (simp_all add: lua_isnum_def fmt_limit_def json_key_text_def key_bytes_def string_text_def string_chunk_def cstr_def)

end
