(* ===== verification/Json_Decode.thy ===== *)
theory Json_Decode
  imports Codec_Json
begin

text \<open>
  The JSON decoder of \<^verbatim>\<open>src/80s/lua_codec.c\<close>: a stack automaton whose states, table
  positions and element counters are arrays of 32 entries, and which builds the value on the Lua
  stack.  The model keeps the arrays as functions of the index and checks every index; the Lua
  stack is the list of its slots, the bottom one first, and a push needs a free slot, because the
  code never asks Lua for more than a C function is given.  Signed 64-bit arithmetic is
  taken to wrap around.
\<close>

section \<open>The state of the automaton\<close>

datatype jstate = none | in_object | in_array | read_key | read_value | read_num | read_real | read_text

record decoder =
  jd_i :: nat
  jd_at :: int
  jd_ok :: bool
  jd_states :: "int \<Rightarrow> jstate"
  jd_top :: "int \<Rightarrow> nat"
  jd_pushes :: "int \<Rightarrow> int"
  jd_lua :: "lua_value list"
  jd_str :: dynstr
  jd_num :: "64 word"
  jd_real :: "64 word"
  jd_fractions :: "64 word"
  jd_negative :: bool

text \<open>
  What the code leaves to the C compiler and Lua: the double of a number with a fraction (the sign,
  the integer part, the digits behind the point and the power of ten), and the integer a
  float key stands for.
\<close>

record float_ops =
  real_number :: "bool \<Rightarrow> 64 word \<Rightarrow> 64 word \<Rightarrow> 64 word \<Rightarrow> 64 word"
  float_key :: "64 word \<Rightarrow> int option"

definition inside :: "int \<Rightarrow> bool" where
  "inside k \<longleftrightarrow> 0 \<le> k \<and> k < 32"

definition jd_gettop :: "decoder \<Rightarrow> nat" where
  "jd_gettop d = length (jd_lua d)"

section \<open>The Lua stack\<close>

definition lua_push :: "nat \<Rightarrow> lua_value \<Rightarrow> decoder \<Rightarrow> decoder outcome" where
  "lua_push slots v d =
     (if jd_gettop d < slots then Some (Inr (d\<lparr>jd_lua := jd_lua d @ [v]\<rparr>)) else None)"

text \<open>\<open>lua_rawseti(L, -2, n)\<close>.\<close>

definition lua_rawseti :: "int \<Rightarrow> decoder \<Rightarrow> decoder outcome" where
  "lua_rawseti n d =
     (case rev (jd_lua d) of
        v # LTable es # below \<Rightarrow>
          Some (Inr (d\<lparr>jd_lua := rev below @ [LTable (table_set es (LInt n) v)]\<rparr>))
      | _ \<Rightarrow> None)"

text \<open>
  \<open>lua_settable(L, -3)\<close>: nil and NaN are no keys, and a float that is an integer is that
  integer.
\<close>

definition is_nan :: "64 word \<Rightarrow> bool" where
  "is_nan x \<longleftrightarrow> unat (x AND 0x7FFFFFFFFFFFFFFF) > 0x7FF0000000000000"

definition table_key :: "float_ops \<Rightarrow> lua_value \<Rightarrow> string + lua_value" where
  "table_key F k =
     (case k of LNil \<Rightarrow> Inl ''index is nil''
      | LFloat x \<Rightarrow>
          (if is_nan x then Inl ''index is NaN''
           else case float_key F x of Some n \<Rightarrow> Inr (LInt n) | None \<Rightarrow> Inr k)
      | _ \<Rightarrow> Inr k)"

definition lua_settable :: "float_ops \<Rightarrow> decoder \<Rightarrow> decoder outcome" where
  "lua_settable F d =
     (case rev (jd_lua d) of
        v # k # LTable es # below \<Rightarrow>
          (case table_key F k of
             Inl e \<Rightarrow> Some (Inl e)
           | Inr k' \<Rightarrow> Some (Inr (d\<lparr>jd_lua := rev below @ [LTable (table_set es k' v)]\<rparr>)))
      | _ \<Rightarrow> None)"

section \<open>One turn of the loop\<close>

definition jd_next :: "decoder \<Rightarrow> decoder" where
  "jd_next d = d\<lparr>jd_i := jd_i d + 1\<rparr>"

definition jd_fail :: "decoder \<Rightarrow> decoder" where
  "jd_fail d = d\<lparr>jd_ok := False\<rparr>"

text \<open>\<open>at--\<close>, \<open>states[++at] = s\<close> and \<open>*current_state = s\<close>.\<close>

definition jd_leave :: "decoder \<Rightarrow> decoder" where
  "jd_leave d = d\<lparr>jd_at := jd_at d - 1\<rparr>"

definition jd_enter :: "jstate \<Rightarrow> decoder \<Rightarrow> decoder outcome" where
  "jd_enter s d =
     (if inside (jd_at d + 1)
      then Some (Inr (d\<lparr>jd_at := jd_at d + 1, jd_states := (jd_states d)(jd_at d + 1 := s)\<rparr>)) else None)"

definition jd_become :: "jstate \<Rightarrow> decoder \<Rightarrow> decoder" where
  "jd_become s d = d\<lparr>jd_states := (jd_states d)(jd_at d := s)\<rparr>"

definition jd_mark :: "decoder \<Rightarrow> decoder" where
  "jd_mark d = d\<lparr>jd_top := (jd_top d)(jd_at d := jd_gettop d)\<rparr>"

abbreviation (input) jd_return :: "decoder \<Rightarrow> decoder outcome" where
  "jd_return d \<equiv> Some (Inr d)"

definition is_space :: "byte \<Rightarrow> bool" where
  "is_space c \<longleftrightarrow> c = c_space \<or> c = c_lf \<or> c = c_tab \<or> c = c_cr"

definition is_digit_char :: "byte \<Rightarrow> bool" where
  "is_digit_char c \<longleftrightarrow> 48 \<le> unat c \<and> unat c \<le> 57"

definition digit_word :: "byte \<Rightarrow> 64 word" where
  "digit_word c = of_int (sint c - 48)"

definition ends_number :: "byte \<Rightarrow> bool" where
  "ends_number c \<longleftrightarrow> c = c_comma \<or> c = c_rbrace \<or> c = c_rbracket \<or> is_space c"

definition none_step :: "byte \<Rightarrow> decoder \<Rightarrow> decoder outcome" where
  "none_step c d =
     (if c = c_lbrace then jd_return (jd_become in_object d)
      else if c = c_lbracket then jd_return (jd_become in_array d)
      else if is_space c then jd_return (jd_next d)
      else jd_return (jd_fail d))"

text \<open>\<open>lua_rawseti(L, -2, ++pushes[at])\<close>.\<close>

definition append_element :: "decoder \<Rightarrow> decoder outcome" where
  "append_element d =
     (let d' = d\<lparr>jd_pushes := (jd_pushes d)(jd_at d := jd_pushes d (jd_at d) + 1)\<rparr>
      in lua_rawseti (jd_pushes d' (jd_at d')) d')"

definition in_array_step :: "nat \<Rightarrow> byte \<Rightarrow> decoder \<Rightarrow> decoder outcome" where
  "in_array_step slots c d =
     (if c = c_lbracket then
        andthen (lua_push slots (LTable []) d) (\<lambda>d1.
        andthen (jd_enter read_value ((jd_mark d1)\<lparr>jd_pushes := (jd_pushes d1)(jd_at d1 := 0)\<rparr>)) (\<lambda>d2.
        jd_return (jd_next d2)))
      else if c = c_comma then
        if jd_gettop d = jd_top d (jd_at d) then jd_return (jd_next d)
        else if jd_gettop d \<noteq> jd_top d (jd_at d) + 1 then jd_return (jd_fail d)
        else andthen (append_element d) (\<lambda>d1.
          andthen (jd_enter read_value d1) (\<lambda>d2. jd_return (jd_next d2)))
      else if c = c_rbracket then
        if jd_gettop d = jd_top d (jd_at d) then jd_return (jd_leave (jd_next d))
        else if jd_gettop d \<noteq> jd_top d (jd_at d) + 1 then jd_return (jd_fail d)
        else andthen (append_element d) (\<lambda>d1. jd_return (jd_next (jd_leave d1)))
      else if is_space c then jd_return (jd_next d)
      else jd_return (jd_fail d))"

definition in_object_step :: "float_ops \<Rightarrow> nat \<Rightarrow> byte \<Rightarrow> decoder \<Rightarrow> decoder outcome" where
  "in_object_step F slots c d =
     (if c = c_lbrace then
        andthen (lua_push slots (LTable []) d) (\<lambda>d1.
        andthen (jd_enter read_key (jd_mark d1)) (\<lambda>d2. jd_return (jd_next d2)))
      else if c = c_comma then
        if jd_gettop d = jd_top d (jd_at d) then jd_return (jd_next (jd_leave d))
        else if jd_gettop d \<noteq> jd_top d (jd_at d) + 2 then jd_return (jd_fail d)
        else andthen (lua_settable F d) (\<lambda>d1.
          andthen (jd_enter read_key d1) (\<lambda>d2. jd_return (jd_next d2)))
      else if c = c_rbrace then
        if jd_gettop d = jd_top d (jd_at d) then jd_return (jd_next (jd_leave d))
        else if jd_gettop d \<noteq> jd_top d (jd_at d) + 2 then jd_return (jd_fail d)
        else andthen (lua_settable F d) (\<lambda>d1. jd_return (jd_next (jd_leave d1)))
      else if is_space c then jd_return (jd_next d)
      else jd_return (jd_fail d))"

text \<open>\<open>states[++at] = read_text; str.length = 0; i++\<close>.\<close>

definition enter_text :: "decoder \<Rightarrow> decoder outcome" where
  "enter_text d =
     andthen (jd_enter read_text d) (\<lambda>d1. jd_return (jd_next (d1\<lparr>jd_str := (jd_str d1)\<lparr>ds_length := 0\<rparr>\<rparr>)))"

definition read_key_step :: "byte \<Rightarrow> decoder \<Rightarrow> decoder outcome" where
  "read_key_step c d =
     (if c = c_rbrace then jd_return (jd_leave d)
      else if c = c_dquote then enter_text d
      else if c = c_colon then jd_return (jd_next (jd_become read_value d))
      else if is_space c then jd_return (jd_next d)
      else jd_return (jd_fail d))"

text \<open>The literals \<open>true\<close>, \<open>false\<close> and \<open>null\<close>; anything else behind their first letter is skipped.\<close>

definition read_word :: "nat \<Rightarrow> byte list \<Rightarrow> string \<Rightarrow> lua_value \<Rightarrow> decoder \<Rightarrow> decoder outcome" where
  "read_word slots txt w v d =
     (if jd_i d + length w < length txt \<and> take (length w) (drop (jd_i d) txt) = cstr w then
        andthen (lua_push slots v d) (\<lambda>d1.
          jd_return (jd_next ((jd_leave d1)\<lparr>jd_i := jd_i d1 + (length w - 1)\<rparr>)))
      else jd_return (jd_next d))"

definition enter_num :: "byte \<Rightarrow> decoder \<Rightarrow> decoder outcome" where
  "enter_num c d =
     andthen (jd_enter read_num d) (\<lambda>d1.
       let d2 = d1\<lparr>jd_negative := (c = c_minus), jd_num := 0\<rparr>
       in jd_return (if c = c_minus then jd_next d2 else d2))"

definition read_value_step :: "nat \<Rightarrow> byte list \<Rightarrow> byte \<Rightarrow> decoder \<Rightarrow> decoder outcome" where
  "read_value_step slots txt c d =
     (if c = c_dquote then enter_text d
      else if c = c_comma \<or> c = c_rbrace \<or> c = c_rbracket then jd_return (jd_leave d)
      else if c = c_lbrace then jd_enter in_object d
      else if c = c_lbracket then jd_enter in_array d
      else if c = 116 then read_word slots txt ''true'' (LBool True) d
      else if c = 102 then read_word slots txt ''false'' (LBool False) d
      else if c = 110 then read_word slots txt ''null'' LNil d
      else if is_digit_char c \<or> c = c_minus then enter_num c d
      else if is_space c then jd_return (jd_next d)
      else jd_return (jd_fail d))"

definition read_num_step :: "nat \<Rightarrow> byte \<Rightarrow> decoder \<Rightarrow> decoder outcome" where
  "read_num_step slots c d =
     (if is_digit_char c then jd_return (jd_next (d\<lparr>jd_num := jd_num d * 10 + digit_word c\<rparr>))
      else if c = c_dot then
        jd_return (jd_next ((jd_become read_real d)\<lparr>jd_real := 0, jd_fractions := 0\<rparr>))
      else if ends_number c then
        andthen (lua_push slots (LInt (sint (if jd_negative d then - jd_num d else jd_num d))) d)
          (\<lambda>d1. jd_return (jd_leave d1))
      else jd_return (jd_fail d))"

definition read_real_step :: "float_ops \<Rightarrow> nat \<Rightarrow> byte \<Rightarrow> decoder \<Rightarrow> decoder outcome" where
  "read_real_step F slots c d =
     (if is_digit_char c then
        jd_return (jd_next (d\<lparr>jd_real := jd_real d * 10 + digit_word c,
          jd_fractions := (if jd_fractions d = 0 then 10 else jd_fractions d * 10)\<rparr>))
      else if ends_number c then
        andthen (lua_push slots (LFloat (real_number F (jd_negative d) (jd_num d) (jd_real d) (jd_fractions d))) d)
          (\<lambda>d1. jd_return (jd_leave d1))
      else jd_return (jd_fail d))"

definition unescape :: "byte \<Rightarrow> byte" where
  "unescape c =
     (if c = 110 then c_lf else if c = 114 then c_cr else if c = 116 then c_tab
      else if c = 98 then c_bs else if c = 48 then c_nul else c)"

definition add_char :: "allocator \<Rightarrow> byte \<Rightarrow> decoder \<Rightarrow> decoder outcome" where
  "add_char A k d = map_option (\<lambda>s. Inr (d\<lparr>jd_str := s\<rparr>)) (putb A k (jd_str d))"

definition read_text_step :: "allocator \<Rightarrow> nat \<Rightarrow> byte list \<Rightarrow> byte \<Rightarrow> decoder \<Rightarrow> decoder outcome" where
  "read_text_step A slots txt c d =
     (if c = c_dquote then
        andthen (lua_push slots (LStr (dynstr_text (jd_str d))) d) (\<lambda>d1.
          let d2 = jd_leave d1 in
          if inside (jd_at d2) then
            jd_return (jd_next (d2\<lparr>jd_pushes := (jd_pushes d2)(jd_at d2 := jd_pushes d2 (jd_at d2) + 1)\<rparr>))
          else None)
      else if c = c_backslash then
        if jd_i d + 1 < length txt then
          andthen (add_char A (unescape (txt ! (jd_i d + 1))) (jd_next d)) (\<lambda>d1. jd_return (jd_next d1))
        else jd_return (jd_next d)
      else andthen (add_char A c d) (\<lambda>d1. jd_return (jd_next d1)))"

definition decode_step :: "allocator \<Rightarrow> float_ops \<Rightarrow> nat \<Rightarrow> byte list \<Rightarrow> decoder \<Rightarrow> decoder outcome" where
  "decode_step A F slots txt d =
     (let c = txt ! jd_i d in
      case jd_states d (jd_at d) of
        none \<Rightarrow> none_step c d
      | in_array \<Rightarrow> in_array_step slots c d
      | in_object \<Rightarrow> in_object_step F slots c d
      | read_key \<Rightarrow> read_key_step c d
      | read_value \<Rightarrow> read_value_step slots txt c d
      | read_num \<Rightarrow> read_num_step slots c d
      | read_real \<Rightarrow> read_real_step F slots c d
      | read_text \<Rightarrow> read_text_step A slots txt c d)"

definition decode_more :: "byte list \<Rightarrow> decoder \<Rightarrow> bool" where
  "decode_more txt d \<longleftrightarrow> jd_ok d \<and> jd_i d < length txt \<and> 0 \<le> jd_at d \<and> jd_at d < 30"

partial_function (option) decode_loop :: "allocator \<Rightarrow> float_ops \<Rightarrow> nat \<Rightarrow> byte list \<Rightarrow> decoder \<Rightarrow> decoder outcome" where
  "decode_loop A F slots txt d =
     (if decode_more txt d
      then (case decode_step A F slots txt d of
              None \<Rightarrow> None | Some (Inl e) \<Rightarrow> Some (Inl e) | Some (Inr d') \<Rightarrow> decode_loop A F slots txt d')
      else Some (Inr d))"

text \<open>\<open>junk\<close> is what the uninitialised array \<open>states\<close> holds.\<close>

definition decode_start :: "(int \<Rightarrow> jstate) \<Rightarrow> (nat \<Rightarrow> byte) \<Rightarrow> byte list \<Rightarrow> decoder" where
  "decode_start junk stk txt =
     \<lparr>jd_i = 0, jd_at = 0, jd_ok = True, jd_states = junk(0 := none), jd_top = (\<lambda>k. 0),
      jd_pushes = (\<lambda>k. 0), jd_lua = [LStr txt], jd_str = init_on_stack (stk(0 := 0)) 4096,
      jd_num = 0, jd_real = 0, jd_fractions = 0, jd_negative = False\<rparr>"

definition json_decode :: "allocator \<Rightarrow> float_ops \<Rightarrow> nat \<Rightarrow> (int \<Rightarrow> jstate) \<Rightarrow> (nat \<Rightarrow> byte) \<Rightarrow> byte list \<Rightarrow>
    lua_value list outcome" where
  "json_decode A F slots junk stk txt =
     andthen (decode_loop A F slots txt (decode_start junk stk txt)) (\<lambda>d.
       Some (Inr (if \<not> jd_ok d \<or> jd_gettop d \<noteq> 2 \<or> 0 \<le> jd_at d
                  then take (jd_gettop d - (jd_gettop d - 1)) (jd_lua d) @ [LNil] else jd_lua d)))"

definition l_codec_json_decode :: "allocator \<Rightarrow> float_ops \<Rightarrow> nat \<Rightarrow> (int \<Rightarrow> jstate) \<Rightarrow> (nat \<Rightarrow> byte) \<Rightarrow>
    lua_value list \<Rightarrow> lua_result" where
  "l_codec_json_decode A F slots junk stk args =
     (case args of
        [LStr txt] \<Rightarrow>
          (case json_decode A F slots junk stk txt of
             None \<Rightarrow> Fault | Some (Inl e) \<Rightarrow> LuaError e | Some (Inr vs) \<Rightarrow> Returns [last vs])
      | _ \<Rightarrow> LuaError ''expecting 1 argument: text (string)'')"

section \<open>Every text is decoded\<close>

definition container :: "jstate \<Rightarrow> bool" where
  "container s \<longleftrightarrow> s = in_object \<or> s = in_array"

text \<open>Which state may lie above which on the automaton's stack.\<close>

fun above :: "jstate \<Rightarrow> jstate \<Rightarrow> bool" where
  "above none s = False"
| "above in_object s = (s = read_value)"
| "above in_array s = (s = read_value)"
| "above read_key s = container s"
| "above read_value s = container s"
| "above read_num s = (s = read_value)"
| "above read_real s = (s = read_value)"
| "above read_text s = (s = read_key \<or> s = read_value)"

definition grounded :: "(int \<Rightarrow> jstate) \<Rightarrow> int \<Rightarrow> bool" where
  "grounded st n \<longleftrightarrow> (0 \<le> n \<longrightarrow> container (st 0) \<or> st 0 = none) \<and>
     (\<forall>k. 0 < k \<longrightarrow> k \<le> n \<longrightarrow> above (st k) (st (k - 1)))"

text \<open>The slot a container's table position names holds a table.\<close>

definition opened :: "lua_value list \<Rightarrow> nat \<Rightarrow> bool" where
  "opened lua t \<longleftrightarrow> 0 < t \<and> t \<le> length lua \<and> (\<exists>es. lua ! (t - 1) = LTable es)"

definition tables :: "(int \<Rightarrow> jstate) \<Rightarrow> (int \<Rightarrow> nat) \<Rightarrow> lua_value list \<Rightarrow> int \<Rightarrow> bool" where
  "tables st tp lua n \<longleftrightarrow>
     (\<forall>k. 0 \<le> k \<longrightarrow> k \<le> n \<longrightarrow> container (st k) \<longrightarrow> opened lua (tp k) \<and>
        (\<forall>j. 0 \<le> j \<longrightarrow> j < k \<longrightarrow> container (st j) \<longrightarrow> tp j \<le> tp k))"

text \<open>Below everything lie the text and, from the first bracket on, the table that is returned.\<close>

definition based :: "lua_value list \<Rightarrow> bool" where
  "based lua \<longleftrightarrow> (\<exists>bs. lua \<noteq> [] \<and> lua ! 0 = LStr bs) \<and> (1 < length lua \<longrightarrow> (\<exists>es. lua ! 1 = LTable es))"

text \<open>A container is fresh until its opening bracket, the character at hand, is read.\<close>

definition fresh :: "byte list \<Rightarrow> decoder \<Rightarrow> bool" where
  "fresh txt d \<longleftrightarrow> jd_i d < length txt \<and>
     (jd_states d (jd_at d) = in_object \<and> txt ! jd_i d = c_lbrace \<or>
      jd_states d (jd_at d) = in_array \<and> txt ! jd_i d = c_lbracket)"

definition decoding :: "byte list \<Rightarrow> decoder \<Rightarrow> bool" where
  "decoding txt d \<longleftrightarrow> - 1 \<le> jd_at d \<and> jd_at d \<le> 30 \<and> based (jd_lua d) \<and> dynstr_wf (jd_str d) \<and>
     ds_length (jd_str d) \<le> jd_i d \<and> jd_i d \<le> length txt \<and>
     grounded (jd_states d) (jd_at d) \<and>
     (tables (jd_states d) (jd_top d) (jd_lua d) (jd_at d) \<or>
      fresh txt d \<and> tables (jd_states d) (jd_top d) (jd_lua d) (jd_at d - 1))"

text \<open>The turns of the loop that are left before the next character is read.\<close>

definition turns :: "jstate \<Rightarrow> byte \<Rightarrow> nat" where
  "turns s c =
     (if s \<in> {read_num, read_real} \<and> ends_number c then 2
      else if s = read_value \<and> (c \<in> {c_comma, c_rbrace, c_rbracket, c_lbrace, c_lbracket, c_minus} \<or> is_digit_char c) \<or>
        s = read_key \<and> c = c_rbrace \<or> s = none then 1 else 0)"

definition work :: "byte list \<Rightarrow> decoder \<Rightarrow> nat" where
  "work txt d =
     (if jd_ok d then 1 + 4 * (length txt - jd_i d) + turns (jd_states d (jd_at d)) (txt ! jd_i d) else 0)"

lemma turns_le: "turns s c \<le> 2"
  by (simp add: turns_def)

lemma work_next: "i < length txt \<Longrightarrow> i < j \<Longrightarrow>
    4 * (length txt - j) + turns s (txt ! j) + 1 < 4 * (length txt - i) + turns s' c"
  using turns_le [of s "txt ! j"] by linarith

lemma tables_mono: "tables st tp lua n \<Longrightarrow> m \<le> n \<Longrightarrow> tables st tp lua m"
  by (auto simp: tables_def)

lemma grounded_mono: "grounded st n \<Longrightarrow> m \<le> n \<Longrightarrow> grounded st m"
  by (auto simp: grounded_def)

lemma opened_push [simp]: "opened lua t \<Longrightarrow> opened (lua @ vs) t"
  by (auto simp: opened_def nth_append)

lemma tables_push [simp]: "tables st tp lua n \<Longrightarrow> tables st tp (lua @ vs) n"
  by (auto simp: tables_def)

lemma grounded_enter:
  "grounded st n \<Longrightarrow> 0 \<le> n \<Longrightarrow> above s (st n) \<Longrightarrow> grounded (st(n + 1 := s)) (n + 1)"
  by (auto simp: grounded_def)

lemma tables_enter:
  "tables st tp lua n \<Longrightarrow> \<not> container s \<Longrightarrow> tables (st(n + 1 := s)) tp lua (n + 1)"
  by (auto simp: tables_def)

lemma tables_enter_fresh:
  "tables st tp lua n \<Longrightarrow> tables (st(n + 1 := s)) tp lua n"
  by (auto simp: tables_def)

lemma tables_mark:
  assumes "tables st tp lua (n - 1)"
  shows "tables st (tp(n := Suc (length lua))) (lua @ [LTable es]) n"
proof -
  have "tp j \<le> Suc (length lua)" if "0 \<le> j" "j < n" "container (st j)" for j
    using assms that by (force simp: tables_def opened_def)
  then show ?thesis using assms by (auto simp: tables_def opened_def nth_append)
qed

lemma tables_set:
  assumes "tables st tp lua n" and "0 \<le> n" and "container (st n)" and "lua = below @ LTable es # vs"
    and "tp n = Suc (length below)"
  shows "tables st tp (below @ [LTable es']) n"
proof -
  have tp: "tp k \<le> Suc (length below)" if "0 \<le> k" "k \<le> n" "container (st k)" for k
  proof (cases "k = n")
    case False
    have "\<forall>j. 0 \<le> j \<longrightarrow> j < n \<longrightarrow> container (st j) \<longrightarrow> tp j \<le> tp n"
      using assms(1-3) unfolding tables_def by blast
    then show ?thesis using False that assms(5) by auto
  qed (simp add: assms(5))
  show ?thesis
    unfolding tables_def
  proof (intro allI impI conjI)
    fix k assume k: "0 \<le> k" "k \<le> n" "container (st k)"
    then have "opened lua (tp k)" using assms(1) by (auto simp: tables_def)
    then show "opened (below @ [LTable es']) (tp k)"
      using tp [OF k] assms(4) by (cases "tp k - 1 = length below") (auto simp: opened_def nth_append)
  next
    fix k j assume "0 \<le> k" "k \<le> n" "container (st k)" "0 \<le> j" "j < k" "container (st j)"
    then show "tp j \<le> tp k" using assms(1) by (auto simp: tables_def)
  qed
qed

lemma top_table:
  assumes "opened lua t" and "length lua = t + m"
  obtains below es vs where "lua = below @ LTable es # vs" "t = Suc (length below)" "length vs = m"
proof -
  have "t - 1 < length lua" using assms by (auto simp: opened_def)
  then have "lua = take (t - 1) lua @ lua ! (t - 1) # drop t lua"
    using id_take_nth_drop [of "t - 1" lua] assms by (simp add: opened_def)
  then show ?thesis using assms that [of "take (t - 1) lua" _ "drop t lua"]
    by (auto simp: opened_def)
qed

text \<open>What a turn of the loop keeps, and how it comes nearer to the end.\<close>

definition progress :: "byte list \<Rightarrow> decoder \<Rightarrow> decoder outcome \<Rightarrow> bool" where
  "progress txt d r \<longleftrightarrow> (\<exists>r'. r = Some r' \<and> (\<forall>d'. r' = Inr d' \<longrightarrow>
     decoding txt d' \<and> work txt d' < work txt d \<and> jd_gettop d' + work txt d' \<le> jd_gettop d + work txt d))"

lemma progress_read:
  assumes "decode_more txt d" and "decoding txt d'"
    and "jd_i d < jd_i d'" and "jd_gettop d' \<le> jd_gettop d + 1"
  shows "progress txt d (Some (Inr d'))"
  using assms work_next [of "jd_i d" "txt" "jd_i d'" "jd_states d' (jd_at d')"
      "jd_states d (jd_at d)" "txt ! jd_i d"]
  by (auto simp: progress_def work_def decode_more_def)

lemma progress_turn:
  assumes "decode_more txt d" and "decoding txt d'" and "jd_i d' = jd_i d"
    and "turns (jd_states d' (jd_at d')) (txt ! jd_i d) < turns (jd_states d (jd_at d)) (txt ! jd_i d)"
    and "jd_gettop d' \<le> jd_gettop d + 1"
  shows "progress txt d (Some (Inr d'))"
  using assms by (auto simp: progress_def work_def decode_more_def)

lemma progress_error: "progress txt d (Some (Inl e))"
  by (simp add: progress_def)

lemma progress_fail: "decode_more txt d \<Longrightarrow> decoding txt d \<Longrightarrow> progress txt d (Some (Inr (jd_fail d)))"
  by (auto simp: progress_def jd_fail_def decode_more_def work_def decoding_def fresh_def jd_gettop_def)

lemmas jd_ops = jd_next_def jd_leave_def jd_enter_def jd_become_def jd_mark_def lua_push_def
  jd_gettop_def andthen_def

lemma more_inside: "decode_more txt d \<Longrightarrow> inside (jd_at d + 1) \<and> inside (jd_at d)"
  by (simp add: decode_more_def inside_def)

text \<open>The states that are no containers: only the table invariant below them matters.\<close>

lemma decoding_plain:
  assumes "decoding txt d" and "\<not> fresh txt d"
  shows "tables (jd_states d) (jd_top d) (jd_lua d) (jd_at d)"
  using assms by (simp add: decoding_def)

lemma not_fresh: "\<not> container (jd_states d (jd_at d)) \<Longrightarrow> \<not> fresh txt d"
  by (auto simp: fresh_def container_def)

text \<open>Reading a character without touching the automaton's stack.\<close>

lemma decoding_next:
  assumes "decoding txt d" and "jd_i d < length txt" and "\<not> fresh txt d"
  shows "decoding txt (jd_next d)"
  using assms by (simp add: decoding_def jd_next_def)

lemma decoding_leave:
  assumes "decoding txt d" and "\<not> fresh txt d" and "0 \<le> jd_at d"
  shows "decoding txt (jd_leave d)"
  using assms tables_mono grounded_mono
  by (auto simp: decoding_def jd_leave_def)

lemma decoding_push:
  assumes "decoding txt d" and "\<not> fresh txt d" and "0 < jd_at d"
  shows "decoding txt (d\<lparr>jd_lua := jd_lua d @ vs\<rparr>)"
proof -
  have g: "grounded (jd_states d) (jd_at d)" using assms(1) by (simp add: decoding_def)
  have "(0::int) < 1" "1 \<le> jd_at d" using assms(3) by simp_all
  with g have "above (jd_states d 1) (jd_states d (1 - 1))" unfolding grounded_def by blast
  moreover have "container (jd_states d 0) \<or> jd_states d 0 = none"
    using g assms(3) by (simp add: grounded_def)
  ultimately have "container (jd_states d 0)" by (cases "jd_states d 1") auto
  then have "opened (jd_lua d) (jd_top d 0)"
    using decoding_plain [OF assms(1,2)] assms(3) by (simp add: tables_def)
  then have "1 < length (jd_lua d)"
    using assms(1) by (cases "jd_top d 0 = 1") (auto simp: opened_def decoding_def based_def)
  then have "based (jd_lua d @ vs)"
    using assms(1) by (auto simp: decoding_def based_def nth_append)
  then show ?thesis using assms by (simp add: decoding_def)
qed

lemma decoding_enter:
  assumes "decoding txt d" and "\<not> fresh txt d" and "0 \<le> jd_at d" and "jd_at d < 30"
    and "above s (jd_states d (jd_at d))" and "\<not> container s"
  shows "decoding txt (d\<lparr>jd_at := jd_at d + 1, jd_states := (jd_states d)(jd_at d + 1 := s)\<rparr>)"
  using assms by (simp add: decoding_def grounded_enter tables_enter)

lemma decoding_enter_fresh:
  assumes "decoding txt d" and "\<not> fresh txt d" and "0 \<le> jd_at d" and "jd_at d < 30"
    and "jd_states d (jd_at d) = read_value" and "jd_i d < length txt"
    and "s = in_object \<and> txt ! jd_i d = c_lbrace \<or> s = in_array \<and> txt ! jd_i d = c_lbracket"
  shows "decoding txt (d\<lparr>jd_at := jd_at d + 1, jd_states := (jd_states d)(jd_at d + 1 := s)\<rparr>)"
proof -
  have "above s (jd_states d (jd_at d))" using assms(5,7) by auto
  then have "grounded ((jd_states d)(jd_at d + 1 := s)) (jd_at d + 1)"
    using assms(1,3) by (simp add: decoding_def grounded_enter)
  moreover have "tables ((jd_states d)(jd_at d + 1 := s)) (jd_top d) (jd_lua d) (jd_at d)"
    using assms(1,2) by (simp add: decoding_def tables_enter_fresh)
  ultimately show ?thesis using assms by (auto simp: decoding_def fresh_def)
qed

lemma above_at:
  assumes "decoding txt d" and "0 \<le> jd_at d" and "jd_states d (jd_at d) = s"
    and "\<not> container s" and "s \<noteq> none"
  shows "0 < jd_at d" and "above s (jd_states d (jd_at d - 1))"
proof -
  have g: "grounded (jd_states d) (jd_at d)" using assms(1) by (simp add: decoding_def)
  show "0 < jd_at d"
  proof (rule ccontr)
    assume "\<not> 0 < jd_at d"
    then have "jd_at d = 0" using assms(2) by simp
    then show False using g assms(3-5) by (simp add: grounded_def)
  qed
  then show "above s (jd_states d (jd_at d - 1))" using g assms(3) by (auto simp: grounded_def)
qed

lemma read_num_progress:
  assumes "decoding txt d" and "decode_more txt d" and "jd_gettop d < slots"
    and "jd_states d (jd_at d) = read_num"
  shows "progress txt d (read_num_step slots (txt ! jd_i d) d)"
proof -
  have nf: "\<not> fresh txt d" using assms(4) by (intro not_fresh) (simp add: container_def)
  have at: "0 \<le> jd_at d" "jd_i d < length txt" using assms(2) by (auto simp: decode_more_def)
  have below: "0 < jd_at d" "jd_states d (jd_at d - 1) = read_value"
    using above_at [OF assms(1) at(1) assms(4)] by (simp_all add: container_def)
  consider "is_digit_char (txt ! jd_i d)" | "\<not> is_digit_char (txt ! jd_i d)" "txt ! jd_i d = c_dot"
    | "\<not> is_digit_char (txt ! jd_i d)" "txt ! jd_i d \<noteq> c_dot" "ends_number (txt ! jd_i d)"
    | "\<not> is_digit_char (txt ! jd_i d)" "txt ! jd_i d \<noteq> c_dot" "\<not> ends_number (txt ! jd_i d)" by blast
  then show ?thesis
  proof cases
    case 1
    have "decoding txt (jd_next (d\<lparr>jd_num := jd_num d * 10 + digit_word (txt ! jd_i d)\<rparr>))"
      using decoding_next [OF assms(1) at(2) nf] by (simp add: decoding_def fresh_def jd_next_def)
    then show ?thesis
      using 1 by (auto simp: read_num_step_def jd_ops intro!: progress_read assms(2))
  next
    case 2
    have "decoding txt (jd_next ((jd_become read_real d)\<lparr>jd_real := 0, jd_fractions := 0\<rparr>))"
      using decoding_next [OF assms(1) at(2) nf] below assms(4) at nf
      by (auto simp: decoding_def fresh_def jd_next_def jd_become_def grounded_def tables_def container_def)
    then show ?thesis
      using 2 by (auto simp: read_num_step_def jd_ops intro!: progress_read assms(2))
  next
    case 3
    have "decoding txt (jd_leave (d\<lparr>jd_lua := jd_lua d @ [v]\<rparr>))" for v
      using decoding_leave [OF decoding_push [OF assms(1) nf below(1)]] nf at by (simp add: fresh_def)
    moreover have "turns read_value (txt ! jd_i d) < turns read_num (txt ! jd_i d)"
      using 3 by (simp add: turns_def)
    ultimately show ?thesis
      using 3 assms(3,4) below by (auto simp: read_num_step_def jd_ops intro!: progress_turn assms(2))
  next
    case 4
    then show ?thesis using progress_fail [OF assms(2,1)] by (simp add: read_num_step_def)
  qed
qed

lemma read_real_progress:
  assumes "decoding txt d" and "decode_more txt d" and "jd_gettop d < slots"
    and "jd_states d (jd_at d) = read_real"
  shows "progress txt d (read_real_step F slots (txt ! jd_i d) d)"
proof -
  have nf: "\<not> fresh txt d" using assms(4) by (intro not_fresh) (simp add: container_def)
  have at: "0 \<le> jd_at d" "jd_i d < length txt" using assms(2) by (auto simp: decode_more_def)
  have below: "0 < jd_at d" "jd_states d (jd_at d - 1) = read_value"
    using above_at [OF assms(1) at(1) assms(4)] by (simp_all add: container_def)
  consider "is_digit_char (txt ! jd_i d)" | "\<not> is_digit_char (txt ! jd_i d)" "ends_number (txt ! jd_i d)"
    | "\<not> is_digit_char (txt ! jd_i d)" "\<not> ends_number (txt ! jd_i d)" by blast
  then show ?thesis
  proof cases
    case 1
    have "decoding txt (jd_next (d\<lparr>jd_real := r, jd_fractions := q\<rparr>))" for r q
      using decoding_next [OF assms(1) at(2) nf] by (simp add: decoding_def fresh_def jd_next_def)
    then show ?thesis
      using 1 by (auto simp: read_real_step_def jd_ops intro!: progress_read assms(2))
  next
    case 2
    have "decoding txt (jd_leave (d\<lparr>jd_lua := jd_lua d @ [v]\<rparr>))" for v
      using decoding_leave [OF decoding_push [OF assms(1) nf below(1)]] nf at by (simp add: fresh_def)
    moreover have "turns read_value (txt ! jd_i d) < turns read_real (txt ! jd_i d)"
      using 2 by (simp add: turns_def)
    ultimately show ?thesis
      using 2 assms(3,4) below by (auto simp: read_real_step_def jd_ops intro!: progress_turn assms(2))
  next
    case 3
    then show ?thesis using progress_fail [OF assms(2,1)] by (simp add: read_real_step_def)
  qed
qed

lemma none_progress:
  assumes "decoding txt d" and "decode_more txt d" and "jd_states d (jd_at d) = none"
  shows "progress txt d (none_step (txt ! jd_i d) d)"
proof -
  have nf: "\<not> fresh txt d" using assms(3) by (intro not_fresh) (simp add: container_def)
  have at: "0 \<le> jd_at d" "jd_i d < length txt" using assms(2) by (auto simp: decode_more_def)
  have g: "grounded (jd_states d) (jd_at d)" using assms(1) by (simp add: decoding_def)
  have zero: "jd_at d = 0"
  proof (rule ccontr)
    assume "jd_at d \<noteq> 0"
    then have "above (jd_states d (jd_at d)) (jd_states d (jd_at d - 1))"
      using g at(1) by (simp add: grounded_def)
    then show False using assms(3) by simp
  qed
  have enter: "progress txt d (Some (Inr (jd_become s d)))"
    if s: "s = in_object \<and> txt ! jd_i d = c_lbrace \<or> s = in_array \<and> txt ! jd_i d = c_lbracket" for s
  proof (rule progress_turn [OF assms(2)])
    have "grounded ((jd_states d)(0 := s)) 0" using s by (auto simp: grounded_def container_def)
    moreover have "tables ((jd_states d)(0 := s)) (jd_top d) (jd_lua d) (- 1)" by (simp add: tables_def)
    ultimately show "decoding txt (jd_become s d)"
      using assms(1) s zero at by (auto simp: decoding_def fresh_def jd_become_def)
    show "turns (jd_states (jd_become s d) (jd_at (jd_become s d))) (txt ! jd_i d) <
        turns (jd_states d (jd_at d)) (txt ! jd_i d)"
      using assms(3) s by (auto simp: jd_become_def turns_def)
  qed (simp_all add: jd_become_def jd_gettop_def)
  show ?thesis
    using enter [of in_object] enter [of in_array] progress_fail [OF assms(2,1)]
      progress_read [OF assms(2) decoding_next [OF assms(1) at(2) nf]]
    by (simp add: none_step_def jd_next_def jd_gettop_def)
qed

lemma enter_text_progress:
  assumes "decoding txt d" and "decode_more txt d"
    and "jd_states d (jd_at d) = read_key \<or> jd_states d (jd_at d) = read_value"
  shows "progress txt d (enter_text d)"
proof -
  have nf: "\<not> fresh txt d" using assms(3) by (intro not_fresh) (auto simp: container_def)
  have at: "0 \<le> jd_at d" "jd_at d < 30" "jd_i d < length txt" using assms(2) by (auto simp: decode_more_def)
  let ?d = "d\<lparr>jd_at := jd_at d + 1, jd_states := (jd_states d)(jd_at d + 1 := read_text)\<rparr>"
  have "decoding txt ?d"
    using assms(3) by (intro decoding_enter assms(1) nf at) (auto simp: container_def)
  moreover have "\<not> fresh txt ?d" by (simp add: fresh_def)
  ultimately have "decoding txt (jd_next (?d\<lparr>jd_str := (jd_str ?d)\<lparr>ds_length := 0\<rparr>\<rparr>))"
    using at by (auto simp: decoding_def jd_next_def dynstr_wf_def fresh_def)
  from progress_read [OF assms(2) this] show ?thesis
    using more_inside [OF assms(2)] by (simp add: enter_text_def jd_ops)
qed

lemma read_key_progress:
  assumes "decoding txt d" and "decode_more txt d" and "jd_states d (jd_at d) = read_key"
  shows "progress txt d (read_key_step (txt ! jd_i d) d)"
proof -
  have nf: "\<not> fresh txt d" using assms(3) by (intro not_fresh) (simp add: container_def)
  have at: "0 \<le> jd_at d" "jd_at d < 30" "jd_i d < length txt" using assms(2) by (auto simp: decode_more_def)
  have below: "0 < jd_at d" "container (jd_states d (jd_at d - 1))"
    using above_at [OF assms(1) at(1) assms(3)] by (simp_all add: container_def)
  have leave: "progress txt d (Some (Inr (jd_leave d)))" if "txt ! jd_i d = c_rbrace"
    using decoding_leave [OF assms(1) nf at(1)] below that assms(3)
    by (intro progress_turn assms(2)) (auto simp: jd_leave_def turns_def container_def jd_gettop_def)
  have "decoding txt (jd_become read_value d)"
    using assms(1,3) nf below at
    by (auto simp: decoding_def jd_become_def grounded_def tables_def container_def)
  then have "decoding txt (jd_next (jd_become read_value d))"
    using at by (intro decoding_next) (auto simp: jd_become_def fresh_def)
  from progress_read [OF assms(2) this]
  have colon: "progress txt d (Some (Inr (jd_next (jd_become read_value d))))"
    by (simp add: jd_next_def jd_become_def jd_gettop_def)
  have "progress txt d (Some (Inr (jd_next d)))"
    using progress_read [OF assms(2) decoding_next [OF assms(1) at(3) nf]]
    by (simp add: jd_next_def jd_gettop_def)
  then show ?thesis
    using leave colon enter_text_progress [OF assms(1,2)] assms(3) progress_fail [OF assms(2,1)]
    by (simp add: read_key_step_def)
qed

lemma read_word_progress:
  assumes "decoding txt d" and "decode_more txt d" and "jd_gettop d < slots"
    and "\<not> container (jd_states d (jd_at d))" and "0 < jd_at d" and "w \<noteq> []"
  shows "progress txt d (read_word slots txt w v d)"
proof -
  have nf: "\<not> fresh txt d" using assms(4) by (rule not_fresh)
  have at: "0 \<le> jd_at d" "jd_i d < length txt" using assms(2) by (auto simp: decode_more_def)
  have skip: "progress txt d (Some (Inr (jd_next d)))"
    using progress_read [OF assms(2) decoding_next [OF assms(1) at(2) nf]]
    by (simp add: jd_next_def jd_gettop_def)
  note below = assms(5) assms(4)
  show ?thesis
  proof (cases "jd_i d + length w < length txt \<and> take (length w) (drop (jd_i d) txt) = cstr w")
    case True
    let ?d = "jd_next ((jd_leave (d\<lparr>jd_lua := jd_lua d @ [v]\<rparr>))\<lparr>jd_i := jd_i d + (length w - 1)\<rparr>)"
    have "decoding txt (jd_leave (d\<lparr>jd_lua := jd_lua d @ [v]\<rparr>))"
      using decoding_leave [OF decoding_push [OF assms(1) nf below(1)]] nf at by (simp add: fresh_def)
    moreover have "tables (jd_states d) (jd_top d) (jd_lua d @ [v]) (jd_at d - 1)"
      using decoding_plain [OF assms(1) nf] tables_mono [of "jd_states d" "jd_top d" _ "jd_at d"] by simp
    ultimately have "decoding txt ?d"
      using True by (auto simp: decoding_def jd_next_def jd_leave_def)
    from progress_read [OF assms(2) this] show ?thesis
      using True assms(3,6) by (simp add: read_word_def jd_ops)
  qed (use skip in \<open>auto simp: read_word_def\<close>)
qed

lemma enter_num_progress:
  assumes "decoding txt d" and "decode_more txt d" and "jd_states d (jd_at d) = read_value"
    and "txt ! jd_i d = c" and "is_digit_char c \<or> c = c_minus"
  shows "progress txt d (enter_num c d)"
proof -
  have nf: "\<not> fresh txt d" using assms(3) by (intro not_fresh) (simp add: container_def)
  have at: "0 \<le> jd_at d" "jd_at d < 30" "jd_i d < length txt" using assms(2) by (auto simp: decode_more_def)
  let ?d = "\<lambda>s. s\<lparr>jd_negative := (c = c_minus), jd_num := 0\<rparr>"
  let ?e = "d\<lparr>jd_at := jd_at d + 1, jd_states := (jd_states d)(jd_at d + 1 := read_num)\<rparr>"
  have "decoding txt ?e"
    using assms(3) by (intro decoding_enter assms(1) nf at) (auto simp: container_def)
  then have dec: "decoding txt (?d ?e)" by (simp add: decoding_def fresh_def)
  show ?thesis
  proof (cases "c = c_minus")
    case True
    have "decoding txt (jd_next (?d ?e))"
      using dec at by (intro decoding_next) (auto simp: fresh_def)
    from progress_read [OF assms(2) this] show ?thesis
      using True more_inside [OF assms(2)] by (simp add: enter_num_def jd_ops Let_def)
  next
    case False
    have "\<not> ends_number c" using assms(5) False by (auto simp: ends_number_def is_space_def is_digit_char_def)
    then have "turns read_num c < turns read_value c" using assms(5) by (auto simp: turns_def)
    then have "progress txt d (Some (Inr (?d ?e)))"
      using dec assms(3,4) by (intro progress_turn assms(2)) (auto simp: jd_gettop_def)
    then show ?thesis
      using False more_inside [OF assms(2)] by (simp add: enter_num_def jd_ops Let_def)
  qed
qed

lemma read_value_progress:
  assumes "decoding txt d" and "decode_more txt d" and "jd_gettop d < slots"
    and "jd_states d (jd_at d) = read_value"
  shows "progress txt d (read_value_step slots txt (txt ! jd_i d) d)"
proof -
  let ?c = "txt ! jd_i d"
  have nc: "\<not> container (jd_states d (jd_at d))" using assms(4) by (simp add: container_def)
  then have nf: "\<not> fresh txt d" by (rule not_fresh)
  have at: "0 \<le> jd_at d" "jd_at d < 30" "jd_i d < length txt" using assms(2) by (auto simp: decode_more_def)
  have below: "0 < jd_at d" "container (jd_states d (jd_at d - 1))"
    using above_at [OF assms(1) at(1) assms(4)] by (simp_all add: container_def)
  have leave: "progress txt d (Some (Inr (jd_leave d)))" if "?c = c_comma \<or> ?c = c_rbrace \<or> ?c = c_rbracket"
  proof (rule progress_turn [OF assms(2) decoding_leave [OF assms(1) nf at(1)]])
    have "turns read_value ?c = 1" using that by (auto simp: turns_def)
    moreover have "turns (jd_states d (jd_at d - 1)) ?c = 0"
      using below(2) by (auto simp: turns_def container_def)
    ultimately show "turns (jd_states (jd_leave d) (jd_at (jd_leave d))) ?c < turns (jd_states d (jd_at d)) ?c"
      using assms(4) by (simp add: jd_leave_def)
  qed (simp_all add: jd_leave_def jd_gettop_def)
  have enter: "progress txt d (jd_enter s d)"
    if s: "s = in_object \<and> ?c = c_lbrace \<or> s = in_array \<and> ?c = c_lbracket" for s
  proof -
    let ?e = "d\<lparr>jd_at := jd_at d + 1, jd_states := (jd_states d)(jd_at d + 1 := s)\<rparr>"
    have "decoding txt ?e" by (rule decoding_enter_fresh [OF assms(1) nf at(1,2) assms(4) at(3) s])
    then have "progress txt d (Some (Inr ?e))"
      using assms(4) s by (intro progress_turn assms(2)) (auto simp: turns_def jd_gettop_def)
    then show ?thesis using more_inside [OF assms(2)] by (simp add: jd_enter_def)
  qed
  have skip: "progress txt d (Some (Inr (jd_next d)))"
    using progress_read [OF assms(2) decoding_next [OF assms(1) at(3) nf]]
    by (simp add: jd_next_def jd_gettop_def)
  show ?thesis
    using leave enter [of in_object] enter [of in_array] skip enter_text_progress [OF assms(1,2)] assms(4)
      read_word_progress [OF assms(1-3) nc below(1)] enter_num_progress [OF assms(1,2,4) refl] progress_fail [OF assms(2,1)]
    by (simp add: read_value_step_def)
qed

lemma add_char_step:
  assumes "decoding txt d" and "ds_length (jd_str d) < fmt_limit" and "\<not> fresh txt d" and "jd_i d < length txt"
  shows "\<exists>s. add_char A k d = Some (Inr (d\<lparr>jd_str := s\<rparr>)) \<and> dynstr_wf s \<and> ds_length s \<le> Suc (ds_length (jd_str d))"
proof -
  have "room (jd_str d) 1" using assms(1,2) by (simp add: room_def decoding_def)
  then show ?thesis using wrote_putb [of "jd_str d" A k] by (auto simp: add_char_def wrote_def)
qed

lemma read_text_progress:
  assumes "decoding txt d" and "decode_more txt d" and "jd_gettop d < slots"
    and "jd_states d (jd_at d) = read_text" and "length txt \<le> fmt_limit"
  shows "progress txt d (read_text_step A slots txt (txt ! jd_i d) d)"
proof -
  let ?c = "txt ! jd_i d"
  have nf: "\<not> fresh txt d" using assms(4) by (intro not_fresh) (simp add: container_def)
  have at: "0 \<le> jd_at d" "jd_at d < 30" "jd_i d < length txt" using assms(2) by (auto simp: decode_more_def)
  have below: "0 < jd_at d" "\<not> container (jd_states d (jd_at d - 1))"
    using above_at [OF assms(1) at(1) assms(4)] by (auto simp: container_def)
  have len: "ds_length (jd_str d) < fmt_limit" using assms(1,5) at by (auto simp: decoding_def)
  have next_ok: "decoding txt (jd_next d)" by (rule decoding_next [OF assms(1) at(3) nf])
  have skip: "progress txt d (Some (Inr (jd_next d)))"
    using progress_read [OF assms(2) next_ok] by (simp add: jd_next_def jd_gettop_def)
  have add: "progress txt d (andthen (add_char A k d) (\<lambda>d1. Some (Inr (jd_next d1))))" for k
  proof -
    obtain s where s: "add_char A k d = Some (Inr (d\<lparr>jd_str := s\<rparr>))" "dynstr_wf s"
        "ds_length s \<le> Suc (ds_length (jd_str d))"
      using add_char_step [OF assms(1) len nf at(3)] by blast
    have "decoding txt (jd_next (d\<lparr>jd_str := s\<rparr>))"
      using assms(1) s(2,3) nf at by (auto simp: decoding_def jd_next_def fresh_def)
    from progress_read [OF assms(2) this] show ?thesis using s(1) by (simp add: andthen_def jd_next_def jd_gettop_def)
  qed
  have esc: "progress txt d (andthen (add_char A k (jd_next d)) (\<lambda>d1. Some (Inr (jd_next d1))))"
    if more: "jd_i d + 1 < length txt" for k
  proof -
    have nf': "\<not> fresh txt (jd_next d)" using assms(4) by (simp add: fresh_def jd_next_def)
    obtain s where s: "add_char A k (jd_next d) = Some (Inr ((jd_next d)\<lparr>jd_str := s\<rparr>))" "dynstr_wf s"
        "ds_length s \<le> Suc (ds_length (jd_str d))"
      using add_char_step [OF next_ok _ nf', of A k] len more by (auto simp: jd_next_def)
    have "decoding txt (jd_next ((jd_next d)\<lparr>jd_str := s\<rparr>))"
      using assms(1) s(2,3) nf more by (auto simp: decoding_def jd_next_def fresh_def)
    from progress_read [OF assms(2) this] show ?thesis using s(1) by (simp add: andthen_def jd_next_def jd_gettop_def)
  qed
  have close: "progress txt d (Some (Inr (jd_next ((jd_leave (d\<lparr>jd_lua := jd_lua d @ [v]\<rparr>))\<lparr>jd_pushes := p\<rparr>))))" for v p
  proof (rule progress_read [OF assms(2)])
    have "decoding txt (jd_leave (d\<lparr>jd_lua := jd_lua d @ [v]\<rparr>))"
      using decoding_leave [OF decoding_push [OF assms(1) nf below(1)]] nf at by (simp add: fresh_def)
    moreover have "\<not> fresh txt (jd_leave (d\<lparr>jd_lua := jd_lua d @ [v]\<rparr>))"
      using below(2) by (auto simp: fresh_def jd_leave_def container_def)
    ultimately show "decoding txt (jd_next ((jd_leave (d\<lparr>jd_lua := jd_lua d @ [v]\<rparr>))\<lparr>jd_pushes := p\<rparr>))"
      using at by (auto simp: decoding_def jd_next_def jd_leave_def fresh_def)
  qed (simp_all add: jd_next_def jd_leave_def jd_gettop_def)
  have "inside (jd_at d - 1)" using below(1) at by (simp add: inside_def)
  then have "progress txt d (read_text_step A slots txt ?c d)" if "?c = c_dquote"
    using close that assms(3) by (simp add: read_text_step_def jd_ops Let_def)
  then show ?thesis
    using skip add esc by (cases "?c = c_dquote") (auto simp: read_text_step_def)
qed

lemma open_table:
  assumes "decoding txt d" and "0 \<le> jd_at d" and "container (jd_states d (jd_at d))" and "\<not> fresh txt d"
    and "jd_gettop d = jd_top d (jd_at d) + m"
  obtains below es vs where "jd_lua d = below @ LTable es # vs" "jd_top d (jd_at d) = Suc (length below)"
    "length vs = m"
  using assms decoding_plain [OF assms(1,4)] that
  by (auto simp: tables_def jd_gettop_def elim!: top_table)

lemma decoding_set:
  assumes "decoding txt d" and "\<not> fresh txt d" and "0 \<le> jd_at d" and "container (jd_states d (jd_at d))"
    and "jd_lua d = below @ LTable es # vs" and "jd_top d (jd_at d) = Suc (length below)"
  shows "decoding txt (d\<lparr>jd_lua := below @ [LTable es']\<rparr>)"
proof -
  have "based (below @ [LTable es'])"
    using assms(1,5) by (cases below) (auto simp: decoding_def based_def nth_append nth_Cons split: nat.splits)
  then show ?thesis
    using assms tables_set [OF decoding_plain [OF assms(1,2)] assms(3-6)] by (simp add: decoding_def)
qed

lemma append_element_step:
  assumes "decoding txt d" and "\<not> fresh txt d" and "0 \<le> jd_at d" and "container (jd_states d (jd_at d))"
    and "jd_gettop d = jd_top d (jd_at d) + 1"
  shows "\<exists>lua p. append_element d = Some (Inr (d\<lparr>jd_pushes := p, jd_lua := lua\<rparr>)) \<and>
    decoding txt (d\<lparr>jd_pushes := p, jd_lua := lua\<rparr>) \<and> length lua \<le> jd_gettop d"
proof -
  obtain below es vs where tab: "jd_lua d = below @ LTable es # vs"
      "jd_top d (jd_at d) = Suc (length below)" "length vs = 1"
    by (rule open_table [OF assms(1,3,4,2,5)])
  then obtain v where v: "vs = [v]" by (auto simp: length_Suc_conv)
  let ?p = "(jd_pushes d)(jd_at d := jd_pushes d (jd_at d) + 1)"
  let ?lua = "below @ [LTable (table_set es (LInt (jd_pushes d (jd_at d) + 1)) v)]"
  have "append_element d = Some (Inr (d\<lparr>jd_pushes := ?p, jd_lua := ?lua\<rparr>))"
    using tab v by (simp add: append_element_def lua_rawseti_def)
  moreover have "decoding txt (d\<lparr>jd_pushes := ?p, jd_lua := ?lua\<rparr>)"
    using decoding_set [OF assms(1-4) tab(1,2)] by (simp add: decoding_def fresh_def)
  moreover have "length ?lua \<le> jd_gettop d" using tab v by (simp add: jd_gettop_def)
  ultimately show ?thesis by (intro exI [of _ ?lua] exI [of _ ?p] conjI)
qed

lemma settable_step:
  assumes "decoding txt d" and "\<not> fresh txt d" and "0 \<le> jd_at d" and "container (jd_states d (jd_at d))"
    and "jd_gettop d = jd_top d (jd_at d) + 2"
  shows "(\<exists>e. lua_settable F d = Some (Inl e)) \<or> (\<exists>lua. lua_settable F d = Some (Inr (d\<lparr>jd_lua := lua\<rparr>)) \<and>
    decoding txt (d\<lparr>jd_lua := lua\<rparr>) \<and> length lua \<le> jd_gettop d)"
proof -
  obtain below es vs where tab: "jd_lua d = below @ LTable es # vs"
      "jd_top d (jd_at d) = Suc (length below)" "length vs = 2"
    by (rule open_table [OF assms(1,3,4,2,5)])
  then obtain k v where v: "vs = [k, v]" by (auto simp: length_Suc_conv numeral_2_eq_2)
  show ?thesis
  proof (cases "table_key F k")
    case (Inl e)
    then show ?thesis using tab v by (simp add: lua_settable_def)
  next
    case (Inr k')
    then have "lua_settable F d = Some (Inr (d\<lparr>jd_lua := below @ [LTable (table_set es k' v)]\<rparr>))"
      using tab v by (simp add: lua_settable_def)
    then show ?thesis using decoding_set [OF assms(1-4) tab(1,2)] tab v by (auto simp: jd_gettop_def)
  qed
qed

text \<open>Opening a container: its table is pushed, its position noted and the next level entered.\<close>

lemma open_progress:
  assumes "decoding txt d" and "decode_more txt d" and "container (jd_states d (jd_at d))"
    and "above s (jd_states d (jd_at d))" and "\<not> container s" and "jd_gettop d < slots"
  shows "progress txt d (Some (Inr (jd_next (d\<lparr>jd_lua := jd_lua d @ [LTable []],
    jd_top := (jd_top d)(jd_at d := Suc (jd_gettop d)), jd_pushes := p,
    jd_at := jd_at d + 1, jd_states := (jd_states d)(jd_at d + 1 := s)\<rparr>))))"
proof (rule progress_read [OF assms(2)])
  have at: "0 \<le> jd_at d" "jd_at d < 30" "jd_i d < length txt" using assms(2) by (auto simp: decode_more_def)
  have "based (jd_lua d @ [LTable []])"
    using assms(1) by (cases "jd_lua d"; cases "tl (jd_lua d)") (auto simp: decoding_def based_def)
  have "tables (jd_states d) (jd_top d) (jd_lua d) (jd_at d - 1)"
    using assms(1) tables_mono by (auto simp: decoding_def)
  from tables_enter [OF tables_mark [OF this] assms(5), of "[]"]
  show "decoding txt (jd_next (d\<lparr>jd_lua := jd_lua d @ [LTable []],
      jd_top := (jd_top d)(jd_at d := Suc (jd_gettop d)), jd_pushes := p,
      jd_at := jd_at d + 1, jd_states := (jd_states d)(jd_at d + 1 := s)\<rparr>))"
    using assms(1) grounded_enter [where st = "jd_states d" and n = "jd_at d" and s = s] assms(4) at
      \<open>based (jd_lua d @ [LTable []])\<close>
    by (auto simp: decoding_def jd_next_def jd_gettop_def)
qed (simp_all add: jd_next_def jd_gettop_def)

lemma set_progress:
  assumes "decoding txt d" and "decode_more txt d" and "\<not> fresh txt d" and "container (jd_states d (jd_at d))"
    and "decoding txt (d\<lparr>jd_pushes := p, jd_lua := lua\<rparr>)" and "length lua \<le> jd_gettop d"
    and "\<not> container s" and "above s (jd_states d (jd_at d))"
  shows "progress txt d (Some (Inr (jd_next (jd_leave (d\<lparr>jd_pushes := p, jd_lua := lua\<rparr>)))))"
    and "progress txt d (andthen (jd_enter s (d\<lparr>jd_pushes := p, jd_lua := lua\<rparr>)) (\<lambda>d2. Some (Inr (jd_next d2))))"
proof -
  let ?d = "d\<lparr>jd_pushes := p, jd_lua := lua\<rparr>"
  have at: "0 \<le> jd_at d" "jd_at d < 30" "jd_i d < length txt" using assms(2) by (auto simp: decode_more_def)
  have nf: "\<not> fresh txt ?d" using assms(3) by (simp add: fresh_def)
  have lv: "decoding txt (jd_leave ?d)" using decoding_leave [OF assms(5) nf] at by simp
  have "tables (jd_states d) (jd_top d) lua (jd_at d)" using decoding_plain [OF assms(5) nf] by simp
  then have "tables (jd_states d) (jd_top d) lua (jd_at d - 1)" by (rule tables_mono) simp
  then have "decoding txt (jd_next (jd_leave ?d))"
    using lv at by (auto simp: decoding_def jd_next_def jd_leave_def)
  from progress_read [OF assms(2) this] assms(6)
  show "progress txt d (Some (Inr (jd_next (jd_leave ?d))))"
    by (simp add: jd_next_def jd_leave_def jd_gettop_def)
  let ?e = "?d\<lparr>jd_at := jd_at d + 1, jd_states := (jd_states d)(jd_at d + 1 := s)\<rparr>"
  have "decoding txt ?e" using decoding_enter [OF assms(5) nf] at assms(7,8) by simp
  then have "decoding txt (jd_next ?e)"
    using at assms(7) by (intro decoding_next) (auto simp: fresh_def container_def)
  from progress_read [OF assms(2) this] assms(6)
  show "progress txt d (andthen (jd_enter s ?d) (\<lambda>d2. Some (Inr (jd_next d2))))"
    using more_inside [OF assms(2)] by (simp add: jd_ops)
qed

lemma same_pushes [simp]: "d\<lparr>jd_pushes := jd_pushes d, jd_lua := lua\<rparr> = d\<lparr>jd_lua := lua\<rparr>"
  by (cases d) simp

lemma in_array_progress:
  assumes "decoding txt d" and "decode_more txt d" and "jd_gettop d < slots"
    and "jd_states d (jd_at d) = in_array"
  shows "progress txt d (in_array_step slots (txt ! jd_i d) d)"
proof -
  let ?c = "txt ! jd_i d"
  have at: "0 \<le> jd_at d" "jd_at d < 30" "jd_i d < length txt" using assms(2) by (auto simp: decode_more_def)
  have con: "container (jd_states d (jd_at d))" "above read_value (jd_states d (jd_at d))"
    using assms(4) by (simp_all add: container_def)
  show ?thesis
  proof (cases "?c = c_lbracket")
    case True
    then show ?thesis
      using open_progress [OF assms(1,2) con _ assms(3), of "(jd_pushes d)(jd_at d := 0)"] assms(3) more_inside [OF assms(2)]
      by (simp add: in_array_step_def jd_ops container_def)
  next
    case False
    then have nf: "\<not> fresh txt d" using assms(4) by (simp add: fresh_def)
    have skip: "progress txt d (Some (Inr (jd_next d)))"
      using progress_read [OF assms(2) decoding_next [OF assms(1) at(3) nf]]
      by (simp add: jd_next_def jd_gettop_def)
    have leave: "progress txt d (Some (Inr (jd_leave (jd_next d))))"
    proof (rule progress_read [OF assms(2)])
      show "decoding txt (jd_leave (jd_next d))"
        using decoding_leave [OF assms(1) nf at(1)] at decoding_plain [OF assms(1) nf] tables_mono
        by (auto simp: decoding_def jd_next_def jd_leave_def)
    qed (simp_all add: jd_next_def jd_leave_def jd_gettop_def)
    have setting: "progress txt d (andthen (append_element d) (\<lambda>d1. Some (Inr (jd_next (jd_leave d1)))))"
        "progress txt d (andthen (append_element d) (\<lambda>d1.
           andthen (jd_enter read_value d1) (\<lambda>d2. Some (Inr (jd_next d2)))))"
      if top: "jd_gettop d = jd_top d (jd_at d) + 1"
      using append_element_step [OF assms(1) nf at(1) con(1) top]
        set_progress [OF assms(1,2) nf con(1) _ _ _ con(2)]
      by (auto simp: andthen_def [of "append_element d"] container_def)
    show ?thesis
      using False skip leave setting progress_fail [OF assms(2,1)] by (simp add: in_array_step_def)
  qed
qed

lemma in_object_progress:
  assumes "decoding txt d" and "decode_more txt d" and "jd_gettop d < slots"
    and "jd_states d (jd_at d) = in_object"
  shows "progress txt d (in_object_step F slots (txt ! jd_i d) d)"
proof -
  let ?c = "txt ! jd_i d"
  have at: "0 \<le> jd_at d" "jd_at d < 30" "jd_i d < length txt" using assms(2) by (auto simp: decode_more_def)
  have con: "container (jd_states d (jd_at d))" "above read_key (jd_states d (jd_at d))"
    using assms(4) by (simp_all add: container_def)
  show ?thesis
  proof (cases "?c = c_lbrace")
    case True
    then show ?thesis
      using open_progress [OF assms(1,2) con _ assms(3), of "jd_pushes d"] assms(3) more_inside [OF assms(2)]
      by (simp add: in_object_step_def jd_ops container_def)
  next
    case False
    then have nf: "\<not> fresh txt d" using assms(4) by (simp add: fresh_def)
    have skip: "progress txt d (Some (Inr (jd_next d)))"
      using progress_read [OF assms(2) decoding_next [OF assms(1) at(3) nf]]
      by (simp add: jd_next_def jd_gettop_def)
    have leave: "progress txt d (Some (Inr (jd_next (jd_leave d))))"
    proof (rule progress_read [OF assms(2)])
      show "decoding txt (jd_next (jd_leave d))"
        using decoding_leave [OF assms(1) nf at(1)] at decoding_plain [OF assms(1) nf] tables_mono
        by (auto simp: decoding_def jd_next_def jd_leave_def)
    qed (simp_all add: jd_next_def jd_leave_def jd_gettop_def)
    have setting: "progress txt d (andthen (lua_settable F d) (\<lambda>d1. Some (Inr (jd_next (jd_leave d1)))))"
        "progress txt d (andthen (lua_settable F d) (\<lambda>d1.
           andthen (jd_enter read_key d1) (\<lambda>d2. Some (Inr (jd_next d2)))))"
      if top: "jd_gettop d = jd_top d (jd_at d) + 2"
      using settable_step [OF assms(1) nf at(1) con(1) top, of F]
        set_progress [OF assms(1,2) nf con(1) _ _ _ con(2), where p = "jd_pushes d"]
      by (auto simp: andthen_def [of "lua_settable F d"] container_def progress_error)
    show ?thesis
      using False skip leave setting progress_fail [OF assms(2,1)] by (simp add: in_object_step_def)
  qed
qed

lemma decode_step_progress:
  assumes "decoding txt d" and "decode_more txt d" and "jd_gettop d < slots" and "length txt \<le> fmt_limit"
  shows "progress txt d (decode_step A F slots txt d)"
  using assms none_progress in_array_progress in_object_progress read_key_progress read_value_progress
    read_num_progress read_real_progress read_text_progress
  by (cases "jd_states d (jd_at d)") (auto simp: decode_step_def Let_def)

text \<open>
  How many slots the rest of the text can ask for: one for each character that is left, and one for
  a number whose last digit has been read and whose end has not.
\<close>

definition demand :: "byte list \<Rightarrow> decoder \<Rightarrow> nat" where
  "demand txt d = jd_gettop d + (length txt - jd_i d) +
     (if 0 \<le> jd_at d \<and> jd_states d (jd_at d) \<in> {read_num, read_real} \<and>
         \<not> (jd_i d < length txt \<and> is_digit_char (txt ! jd_i d)) then 1 else 0)"

lemma demand_read:
  assumes "jd_i d < length txt" and "jd_i d < jd_i d'" and "jd_gettop d' \<le> jd_gettop d + 1"
    and "jd_states d' (jd_at d') \<notin> {read_num, read_real} \<or> jd_at d' < 0"
  shows "demand txt d' \<le> demand txt d"
  using assms by (auto simp: demand_def)

lemma demand_skip:
  assumes "jd_i d < length txt" and "jd_i d < jd_i d'" and "jd_gettop d' \<le> jd_gettop d"
  shows "demand txt d' \<le> demand txt d"
  using assms by (auto simp: demand_def)

lemma demand_stay:
  assumes "jd_i d \<le> jd_i d'" and "jd_gettop d' \<le> jd_gettop d"
    and "jd_states d' (jd_at d') \<notin> {read_num, read_real} \<or> jd_at d' < 0"
  shows "demand txt d' \<le> demand txt d"
  using assms by (auto simp: demand_def)

lemma demand_number:
  assumes "jd_i d' = jd_i d" and "jd_gettop d' = jd_gettop d + 1" and "\<not> is_digit_char (txt ! jd_i d)"
    and "0 \<le> jd_at d" "jd_states d (jd_at d) \<in> {read_num, read_real}"
    and "jd_states d' (jd_at d') \<notin> {read_num, read_real}"
  shows "demand txt d' \<le> demand txt d"
  using assms by (auto simp: demand_def)

lemma set_table_height:
  "append_element d = Some (Inr d') \<Longrightarrow> jd_gettop d' \<le> jd_gettop d \<and> jd_at d' = jd_at d \<and>
     jd_i d' = jd_i d \<and> jd_states d' = jd_states d"
  "lua_settable F d = Some (Inr d') \<Longrightarrow> jd_gettop d' \<le> jd_gettop d \<and> jd_at d' = jd_at d \<and>
     jd_i d' = jd_i d \<and> jd_states d' = jd_states d"
  by (auto simp: append_element_def lua_rawseti_def lua_settable_def jd_gettop_def Let_def rev_eq_Cons_iff
      split: list.splits lua_value.splits sum.splits)

text \<open>The only errors are those of \<open>lua_settable\<close>, and more slots never change a turn.\<close>

lemma andthen_Some [simp]: "andthen m f = Some r \<longleftrightarrow>
    (\<exists>e. m = Some (Inl e) \<and> r = Inl e) \<or> (\<exists>x. m = Some (Inr x) \<and> f x = Some r)"
  by (auto simp: andthen_def split: option.splits sum.splits)

lemmas step_defs = none_step_def in_array_step_def in_object_step_def read_key_step_def read_value_step_def
  read_num_step_def read_real_step_def read_text_step_def enter_text_def read_word_def enter_num_def

lemma lua_push_no_error [simp]: "lua_push slots v d \<noteq> Some (Inl e)"
  by (simp add: lua_push_def)

lemma jd_enter_no_error [simp]: "jd_enter s d \<noteq> Some (Inl e)"
  by (simp add: jd_enter_def)

lemma add_char_no_error [simp]: "add_char A k d \<noteq> Some (Inl e)"
  by (auto simp: add_char_def)

lemma append_element_no_error [simp]: "append_element d \<noteq> Some (Inl e)"
  by (auto simp: append_element_def lua_rawseti_def Let_def split: list.splits lua_value.splits)

lemma lua_settable_error: "lua_settable F d = Some (Inl e) \<Longrightarrow> e \<in> {''index is nil'', ''index is NaN''}"
  by (auto simp: lua_settable_def table_key_def split: list.splits lua_value.splits sum.splits if_splits option.splits)

lemma none_step_no_error [simp]: "none_step c d \<noteq> Some (Inl e)"
  by (simp add: none_step_def)

lemma in_array_step_no_error [simp]: "in_array_step slots c d \<noteq> Some (Inl e)"
  by (simp add: in_array_step_def)

lemma in_object_step_error: "in_object_step F slots c d = Some (Inl e) \<Longrightarrow> e \<in> {''index is nil'', ''index is NaN''}"
  by (auto simp: in_object_step_def dest!: lua_settable_error split: if_splits)

lemma enter_text_no_error [simp]: "enter_text d \<noteq> Some (Inl e)"
  by (simp add: enter_text_def)

lemma read_key_step_no_error [simp]: "read_key_step c d \<noteq> Some (Inl e)"
  by (simp add: read_key_step_def)

lemma read_word_no_error [simp]: "read_word slots txt w v d \<noteq> Some (Inl e)"
  by (simp add: read_word_def)

lemma enter_num_no_error [simp]: "enter_num c d \<noteq> Some (Inl e)"
  by (simp add: enter_num_def Let_def)

lemma read_value_step_no_error [simp]: "read_value_step slots txt c d \<noteq> Some (Inl e)"
  by (simp add: read_value_step_def)

lemma read_num_step_no_error [simp]: "read_num_step slots c d \<noteq> Some (Inl e)"
  by (simp add: read_num_step_def)

lemma read_real_step_no_error [simp]: "read_real_step F slots c d \<noteq> Some (Inl e)"
  by (simp add: read_real_step_def)

lemma read_text_step_no_error [simp]: "read_text_step A slots txt c d \<noteq> Some (Inl e)"
  by (simp add: read_text_step_def Let_def)

lemma decode_step_error:
  assumes "decode_step A F slots txt d = Some (Inl e)"
  shows "e \<in> {''index is nil'', ''index is NaN''}"
  using assms in_object_step_error
  by (cases "jd_states d (jd_at d)") (simp_all add: decode_step_def Let_def)

lemma lua_push_more: "lua_push slots v d = Some r \<Longrightarrow> slots \<le> slots' \<Longrightarrow> lua_push slots' v d = Some r"
  by (simp add: lua_push_def split: if_splits)

lemma in_array_step_more: "in_array_step slots c d = Some r \<Longrightarrow> slots \<le> slots' \<Longrightarrow> in_array_step slots' c d = Some r"
  unfolding in_array_step_def by (auto split: if_splits dest: lua_push_more)

lemma in_object_step_more: "in_object_step F slots c d = Some r \<Longrightarrow> slots \<le> slots' \<Longrightarrow> in_object_step F slots' c d = Some r"
  unfolding in_object_step_def by (auto split: if_splits dest: lua_push_more)

lemma read_word_more: "read_word slots txt w v d = Some r \<Longrightarrow> slots \<le> slots' \<Longrightarrow> read_word slots' txt w v d = Some r"
  unfolding read_word_def by (auto split: if_splits dest: lua_push_more)

lemma read_value_step_more: "read_value_step slots txt c d = Some r \<Longrightarrow> slots \<le> slots' \<Longrightarrow> read_value_step slots' txt c d = Some r"
  unfolding read_value_step_def by (auto split: if_splits dest: lua_push_more read_word_more)

lemma read_num_step_more: "read_num_step slots c d = Some r \<Longrightarrow> slots \<le> slots' \<Longrightarrow> read_num_step slots' c d = Some r"
  unfolding read_num_step_def by (auto split: if_splits dest: lua_push_more)

lemma read_real_step_more: "read_real_step F slots c d = Some r \<Longrightarrow> slots \<le> slots' \<Longrightarrow> read_real_step F slots' c d = Some r"
  unfolding read_real_step_def by (auto split: if_splits dest: lua_push_more)

lemma read_text_step_more: "read_text_step A slots txt c d = Some r \<Longrightarrow> slots \<le> slots' \<Longrightarrow> read_text_step A slots' txt c d = Some r"
  unfolding read_text_step_def
    Let_def by (auto split: if_splits dest: lua_push_more)

lemma decode_step_more:
  assumes "decode_step A F slots txt d = Some r" and "slots \<le> slots'"
  shows "decode_step A F slots' txt d = Some r"
  using assms
  by (cases "jd_states d (jd_at d)")
    (auto simp: decode_step_def Let_def elim: in_array_step_more in_object_step_more read_value_step_more
      read_num_step_more read_real_step_more read_text_step_more)

lemma read_step_states:
  assumes "decoding txt d" and "0 \<le> jd_at d" and "jd_states d (jd_at d) = s" and "s \<noteq> none"
  shows "jd_states d (jd_at d - 1) \<notin> {read_num, read_real} \<or> jd_at d - 1 < 0"
proof (cases "jd_at d = 0")
  case False
  then have "above s (jd_states d (jd_at d - 1))"
    using assms by (auto simp: decoding_def grounded_def)
  then show ?thesis by (cases s) (auto simp: container_def)
qed simp

lemma decode_step_demand:
  assumes "decoding txt d" and "decode_more txt d" and "decode_step A F slots txt d = Some (Inr d')"
  shows "demand txt d' \<le> demand txt d"
proof -
  have at: "0 \<le> jd_at d" "jd_i d < length txt" using assms(2) by (auto simp: decode_more_def)
  have below: "s \<noteq> none \<Longrightarrow> jd_states d (jd_at d) = s \<Longrightarrow>
      jd_states d (jd_at d - 1) \<notin> {read_num, read_real} \<or> jd_at d - 1 < 0" for s
    using read_step_states [OF assms(1) at(1)] by blast
  note opsd = jd_next_def jd_leave_def jd_become_def jd_mark_def jd_fail_def jd_enter_def lua_push_def jd_gettop_def
  show ?thesis
  proof (cases "jd_states d (jd_at d)")
    case none
    then show ?thesis using assms(3) at by (auto simp: decode_step_def Let_def none_step_def opsd demand_def split: if_splits)
  next
    case read_key
    then show ?thesis using assms(3) at below [OF _ read_key]
      by (auto simp: decode_step_def Let_def read_key_step_def enter_text_def opsd demand_def split: if_splits)
  next
    case read_value
    then show ?thesis using assms(3) at below [OF _ read_value]
      by (auto simp: decode_step_def Let_def read_value_step_def read_word_def enter_text_def enter_num_def opsd demand_def split: if_splits)
  next
    case read_num
    then show ?thesis using assms(3) at below [OF _ read_num]
      by (auto simp: decode_step_def Let_def read_num_step_def opsd demand_def split: if_splits)
  next
    case read_real
    then show ?thesis using assms(3) at below [OF _ read_real]
      by (auto simp: decode_step_def Let_def read_real_step_def opsd demand_def split: if_splits)
  next
    case read_text
    then show ?thesis using assms(3) at below [OF _ read_text]
      by (auto simp: decode_step_def Let_def read_text_step_def add_char_def opsd demand_def split: if_splits)
  next
    case in_array
    then show ?thesis using assms(3) at below [OF _ in_array]
      by (auto simp: decode_step_def Let_def in_array_step_def opsd demand_def dest!: set_table_height split: if_splits)
  next
    case in_object
    then show ?thesis using assms(3) at below [OF _ in_object]
      by (auto simp: decode_step_def Let_def in_object_step_def opsd demand_def dest!: set_table_height split: if_splits)
  qed
qed

declare andthen_Some [simp del]

lemma decode_loop_ends:
  assumes "decoding txt d" and "demand txt d \<le> slots" and "length txt \<le> fmt_limit"
  shows "\<exists>r. decode_loop A F slots txt d = Some r \<and>
    (\<forall>d'. r = Inr d' \<longrightarrow> decoding txt d' \<and> \<not> decode_more txt d') \<and>
    (\<forall>e. r = Inl e \<longrightarrow> e \<in> {''index is nil'', ''index is NaN''})"
  using assms
proof (induction "work txt d" arbitrary: d rule: less_induct)
  case less
  show ?case
  proof (cases "decode_more txt d")
    case False
    then show ?thesis using less.prems by (subst decode_loop.simps) simp
  next
    case True
    have room: "jd_gettop d < slots" using True less.prems by (simp add: demand_def decode_more_def split: if_splits)
    have "progress txt d (decode_step A F slots txt d)"
      using less.prems room by (intro decode_step_progress True) auto
    then obtain r where r: "decode_step A F slots txt d = Some r"
        "\<And>d'. r = Inr d' \<Longrightarrow> decoding txt d' \<and> work txt d' < work txt d"
      by (auto simp: progress_def)
    show ?thesis
    proof (cases r)
      case (Inl e)
      then show ?thesis using r True decode_step_error by (subst decode_loop.simps) simp
    next
      case (Inr d')
      then have "demand txt d' \<le> slots" using decode_step_demand [OF less.prems(1) True] r less.prems(2) by force
      then show ?thesis using less.hyps [of d'] r Inr True less.prems(3) by (subst decode_loop.simps) simp
    qed
  qed
qed

text \<open>A run that ends with some number of slots ends alike with more.\<close>

lemma decode_loop_more:
  assumes "decode_loop A F slots txt d = Some r"
  shows "slots \<le> slots' \<longrightarrow> decode_loop A F slots' txt d = Some r"
proof (rule decode_loop.raw_induct [OF _ assms], intro impI)
  fix loop A F slots and str :: "byte list" and d r
  assume IH: "\<And>A F slots str d r. loop A F slots str d = Some r \<Longrightarrow>
      slots \<le> slots' \<longrightarrow> decode_loop A F slots' str d = Some r"
    and body: "(if decode_more str d then
        case decode_step A F slots str d of None \<Rightarrow> None | Some (Inl e) \<Rightarrow> Some (Inl e) | Some (Inr d') \<Rightarrow> loop A F slots str d'
      else Some (Inr d)) = Some r" and le: "slots \<le> slots'"
  show "decode_loop A F slots' str d = Some r"
  proof (cases "decode_more str d")
    case False
    then show ?thesis using body by (subst decode_loop.simps) simp
  next
    case True
    then obtain r' where r': "decode_step A F slots str d = Some r'"
        "(case r' of Inl e \<Rightarrow> Some (Inl e) | Inr d' \<Rightarrow> loop A F slots str d') = Some r"
      using body by (auto split: option.splits)
    show ?thesis
      using True decode_step_more [OF r'(1) le] r'(2) IH le
      by (subst decode_loop.simps) (auto split: sum.splits)
  qed
qed

lemma decode_start_ok: "decoding txt (decode_start junk stk txt)"
proof -
  have "dynstr_wf (init_on_stack (stk(0 := 0)) 4096)" by (simp add: mem_limit_def)
  then show ?thesis
    by (simp add: decode_start_def decoding_def grounded_def tables_def container_def based_def)
qed

lemma decode_more_slots:
  "l_codec_json_decode A F slots junk stk [LStr str] \<noteq> Fault \<Longrightarrow> slots \<le> slots' \<Longrightarrow>
   l_codec_json_decode A F slots' junk stk [LStr str] = l_codec_json_decode A F slots junk stk [LStr str]"
  using decode_loop_more [of A F slots str "decode_start junk stk str" _ slots']
  by (cases "decode_loop A F slots str (decode_start junk stk str)")
    (simp_all add: l_codec_json_decode_def json_decode_def andthen_def)

text \<open>What a decoding may end with.\<close>

definition decoder_result :: "lua_result \<Rightarrow> bool" where
  "decoder_result r \<longleftrightarrow> r = LuaError ''index is nil'' \<or> r = LuaError ''index is NaN'' \<or> r = Returns [LNil] \<or>
     (\<exists>es. r = Returns [LTable es])"

lemma json_decode_room:
  assumes "length str \<le> fmt_limit" and "length str < slots"
  shows "decoder_result (l_codec_json_decode A F slots junk stk [LStr str])"
proof -
  let ?d = "decode_start junk stk str"
  have "demand str ?d \<le> slots"
    using assms(2) by (simp add: decode_start_def jd_gettop_def demand_def)
  then obtain r where r: "decode_loop A F slots str ?d = Some r"
      "\<forall>d'. r = Inr d' \<longrightarrow> decoding str d'" "\<forall>e. r = Inl e \<longrightarrow> e \<in> {''index is nil'', ''index is NaN''}"
    using decode_loop_ends [OF decode_start_ok _ assms(1)] by blast
  show ?thesis
  proof (cases r)
    case (Inl e)
    then show ?thesis using r by (auto simp: decoder_result_def l_codec_json_decode_def json_decode_def andthen_def)
  next
    case (Inr d')
    then have "based (jd_lua d')" using r by (simp add: decoding_def)
    then have "last (jd_lua d') = jd_lua d' ! 1 \<and> (\<exists>es. jd_lua d' ! 1 = LTable es)" if "jd_gettop d' = 2"
      using that by (simp add: jd_gettop_def based_def last_conv_nth)
    then show ?thesis
      using r Inr by (auto simp: decoder_result_def l_codec_json_decode_def json_decode_def andthen_def)
  qed
qed

text \<open>
  C5. The decoder ends on every text, and the Lua stack is the only thing that can go wrong: each
  text that fits the buffers needs a number of stack slots, at most one per character and one for the
  argument. With that many slots or more it returns nil or a table or raises the error Lua raises
  for a key that is nil or NaN, the same whatever is left on the stack, and its own arrays are never
  touched out of bounds; with fewer it writes behind the stack, since it never calls
  \<open>lua_checkstack\<close>. Lua promises a C function 20 slots besides its arguments, so a text of 20
  characters is always decoded.
\<close>

theorem json_decode_ends:
  assumes "length str \<le> fmt_limit"
  shows "\<exists>need r. need \<le> length str + 1 \<and> decoder_result r \<and>
    (\<forall>slots. l_codec_json_decode A F slots junk stk [LStr str] = (if need \<le> slots then r else Fault))"
proof -
  let ?run = "\<lambda>slots. l_codec_json_decode A F slots junk stk [LStr str]"
  let ?need = "LEAST slots. ?run slots \<noteq> Fault"
  have ok: "decoder_result (?run (length str + 1))" by (rule json_decode_room [OF assms]) simp
  then have good: "?run (length str + 1) \<noteq> Fault" by (auto simp: decoder_result_def)
  have need: "?run ?need \<noteq> Fault" "?need \<le> length str + 1"
    using LeastI [where P = "\<lambda>slots. ?run slots \<noteq> Fault", OF good]
      Least_le [where P = "\<lambda>slots. ?run slots \<noteq> Fault", OF good] by simp_all
  have more: "?run slots = ?run ?need" if "?need \<le> slots" for slots
    by (rule decode_more_slots [OF need(1) that])
  have less: "?run slots = Fault" if "\<not> ?need \<le> slots" for slots
    using not_less_Least [of slots "\<lambda>slots. ?run slots \<noteq> Fault"] that by simp
  show ?thesis
  proof (intro exI conjI allI)
    show "?need \<le> length str + 1" by (rule need(2))
    show "decoder_result (?run ?need)" using ok unfolding more [OF need(2)] .
    show "?run slots = (if ?need \<le> slots then ?run ?need else Fault)" for slots
    proof (cases "?need \<le> slots")
      case True
      show ?thesis unfolding if_P [OF True] by (rule more [OF True])
    next
      case False
      show ?thesis unfolding if_not_P [OF False] by (rule less [OF False])
    qed
  qed
qed

theorem json_decode_ends_witness:
  "\<exists>need r. need \<le> length (cstr ''[7]'') + 1 \<and> decoder_result r \<and>
    (\<forall>slots. l_codec_json_decode (\<lambda>n. None) \<lparr>real_number = (\<lambda>s n r q. n), float_key = (\<lambda>x. None)\<rparr> slots (\<lambda>k. read_text)
      (\<lambda>i. 5) [LStr (cstr ''[7]'')] = (if need \<le> slots then r else Fault))"
  by (rule json_decode_ends) (simp add: fmt_limit_def cstr_def)

end
