(* ===== verification/Json_Roundtrip.thy ===== *)
theory Json_Roundtrip
  imports Json_Decode
begin

text \<open>
  The JSON decoder reads back what the JSON encoder writes.
\<close>

section \<open>Values with a JSON text\<close>

text \<open>The bytes the encoder does not write as \<open>\xHH\<close>, which is no escape of the decoder.\<close>

definition readable :: "byte \<Rightarrow> bool" where
  "readable c \<longleftrightarrow> 32 \<le> unat c \<or> c \<in> {c_tab, c_lf, c_cr, c_nul}"

fun plain :: "lua_value \<Rightarrow> bool" where
  "plain (LBool b) = True"
| "plain (LInt n) = (\<bar>n\<bar> < 2 ^ 53)"
| "plain (LStr bs) = list_all readable bs"
| "plain (LTable es) =
     (list_all (\<lambda>(k, v). plain v) es \<and>
      (map fst es = map LInt [1..int (length es)] \<or>
       list_all (\<lambda>(k, v). \<exists>bs. k = LStr bs \<and> list_all readable bs) es \<and> distinct (map fst es) \<and> es \<noteq> []))"
| "plain v = False"

fun digits :: "nat \<Rightarrow> byte list" where
  "digits n = (if n < 10 then [of_nat (48 + n)] else digits (n div 10) @ [of_nat (48 + n mod 10)])"

declare digits.simps [simp del]

definition decimal :: "int \<Rightarrow> byte list" where
  "decimal n = (if n < 0 then [c_minus] else []) @ digits (nat \<bar>n\<bar>)"

section \<open>Runs of the automaton\<close>

definition reaches :: "allocator \<Rightarrow> float_ops \<Rightarrow> nat \<Rightarrow> byte list \<Rightarrow> decoder \<Rightarrow> decoder \<Rightarrow> bool" where
  "reaches A F slots str d d' \<longleftrightarrow> decode_loop A F slots str d = decode_loop A F slots str d'"

lemma reaches_refl: "reaches A F slots str d d"
  by (simp add: reaches_def)

lemma reaches_trans [trans]:
  "reaches A F slots str d d' \<Longrightarrow> reaches A F slots str d' d'' \<Longrightarrow> reaches A F slots str d d''"
  by (simp add: reaches_def)

lemma reaches_turn:
  assumes "decode_more str d" and "decode_step A F slots str d = Some (Inr d')"
  shows "reaches A F slots str d d'"
  unfolding reaches_def using assms by (subst decode_loop.simps) simp

definition awake :: "decoder \<Rightarrow> bool" where
  "awake d \<longleftrightarrow> jd_ok d \<and> 0 \<le> jd_at d \<and> jd_at d < 30 \<and> dynstr_wf (jd_str d)"

lemma at_char:
  assumes "drop i str = c # rest"
  shows "i < length str" and "str ! i = c" and "drop (Suc i) str = rest"
proof -
  show i: "i < length str" using assms by (cases "i < length str") auto
  then have "drop i str = str ! i # drop (Suc i) str" by (simp add: Cons_nth_drop_Suc)
  then show "str ! i = c" "drop (Suc i) str = rest" using assms by simp_all
qed

lemma drop_more: "drop i str = xs @ ys \<Longrightarrow> drop (i + length xs) str = ys"
  by (simp add: drop_drop [symmetric] add.commute [of i] del: drop_drop)

lemma next_str:
  "jd_next (d\<lparr>jd_str := s\<rparr>) = d\<lparr>jd_i := Suc (jd_i d), jd_str := s\<rparr>"
  "jd_next ((jd_next d)\<lparr>jd_str := s\<rparr>) = d\<lparr>jd_i := Suc (Suc (jd_i d)), jd_str := s\<rparr>"
  by (cases d; simp add: jd_next_def)+

lemma turn_at:
  assumes "awake d" and "drop (jd_i d) str = c # rest" and "decode_step A F slots str d = Some (Inr d')"
  shows "reaches A F slots str d d'"
  using assms at_char [OF assms(2)] by (intro reaches_turn) (auto simp: decode_more_def awake_def)

section \<open>Strings\<close>

lemma add_char_reliable:
  assumes "reliable A" and "dynstr_wf (jd_str d)" and "ds_length (jd_str d) < fmt_limit"
  obtains s where "add_char A k d = Some (Inr (d\<lparr>jd_str := s\<rparr>))" "dynstr_wf s"
    "dynstr_text s = dynstr_text (jd_str d) @ [k]" "ds_length s = Suc (ds_length (jd_str d))"
proof -
  have "room (jd_str d) 1" using assms by (simp add: room_def)
  then obtain s where s: "putb A k (jd_str d) = Some s" "dynstr_wf s" "dynstr_text s = dynstr_text (jd_str d) @ [k]"
    using wrote_putb [of "jd_str d" A k] assms(1) by (auto simp: wrote_def)
  then have "ds_length s = Suc (ds_length (jd_str d))"
    using dynstr_text_length [of s] dynstr_text_length [OF assms(2)] by simp
  then show ?thesis using s by (intro that [of s]) (simp_all add: add_char_def)
qed

lemma string_chunk_cases:
  assumes "readable c"
  obtains (escaped) e where "string_chunk c = [c_backslash, e]" "unescape e = c"
  | (plain) "string_chunk c = [c]" "c \<noteq> c_dquote" "c \<noteq> c_backslash"
  using assms that
  by (cases "c \<in> {c_cr, c_lf, c_tab, c_dquote, c_backslash, c_nul}")
    (auto simp: string_chunk_def unescape_def readable_def)

lemma reads_chars:
  assumes "reliable A" and "length str \<le> fmt_limit"
  shows "awake d \<Longrightarrow> jd_states d (jd_at d) = read_text \<Longrightarrow> ds_length (jd_str d) \<le> jd_i d \<Longrightarrow>
    list_all readable bs \<Longrightarrow> drop (jd_i d) str = concat (map string_chunk bs) @ rest \<Longrightarrow>
    \<exists>s. reaches A F slots str d (d\<lparr>jd_i := jd_i d + length (concat (map string_chunk bs)), jd_str := s\<rparr>) \<and>
      dynstr_wf s \<and> dynstr_text s = dynstr_text (jd_str d) @ bs"
proof (induction bs arbitrary: d)
  case Nil
  then show ?case by (intro exI [of _ "jd_str d"]) (simp add: reaches_refl awake_def)
next
  case (Cons c bs)
  have len: "ds_length (jd_str d) < fmt_limit" if "drop (jd_i d) str = x # ys" for x ys
    using Cons.prems(3) at_char(1) [OF that] assms(2) by simp
  have wf: "dynstr_wf (jd_str d)" using Cons.prems(1) by (simp add: awake_def)
  have "readable c" using Cons.prems(4) by simp
  then obtain s where s: "reaches A F slots str d (d\<lparr>jd_i := jd_i d + length (string_chunk c), jd_str := s\<rparr>)"
      "dynstr_wf s" "dynstr_text s = dynstr_text (jd_str d) @ [c]" "ds_length s = Suc (ds_length (jd_str d))"
  proof (cases rule: string_chunk_cases)
    case (escaped e)
    then have drop: "drop (jd_i d) str = c_backslash # e # concat (map string_chunk bs) @ rest"
      using Cons.prems(5) by simp
    note here = at_char [OF drop]
    note there = at_char [OF here(3)]
    obtain s where s: "add_char A c (jd_next d) = Some (Inr ((jd_next d)\<lparr>jd_str := s\<rparr>))" "dynstr_wf s"
        "dynstr_text s = dynstr_text (jd_str d) @ [c]" "ds_length s = Suc (ds_length (jd_str d))"
      using add_char_reliable [OF assms(1), of "jd_next d" c] wf len [OF drop] by (auto simp: jd_next_def)
    have "decode_step A F slots str d = Some (Inr (jd_next ((jd_next d)\<lparr>jd_str := s\<rparr>)))"
      using Cons.prems(2) escaped here there s(1) by (simp add: decode_step_def read_text_step_def andthen_def Let_def)
    from turn_at [OF Cons.prems(1) drop this] s escaped that [of s] show ?thesis
      by (simp only: next_str(2)) simp
  next
    case plain
    then have drop: "drop (jd_i d) str = c # concat (map string_chunk bs) @ rest"
      using Cons.prems(5) by simp
    note here = at_char [OF drop]
    obtain s where s: "add_char A c d = Some (Inr (d\<lparr>jd_str := s\<rparr>))" "dynstr_wf s"
        "dynstr_text s = dynstr_text (jd_str d) @ [c]" "ds_length s = Suc (ds_length (jd_str d))"
      using add_char_reliable [OF assms(1), of d c] wf len [OF drop] by auto
    have "decode_step A F slots str d = Some (Inr (jd_next (d\<lparr>jd_str := s\<rparr>)))"
      using Cons.prems(2) plain here s(1) by (simp add: decode_step_def read_text_step_def andthen_def Let_def)
    from turn_at [OF Cons.prems(1) drop this] s plain that [of s] show ?thesis
      by (simp add: next_str)
  qed
  let ?d = "d\<lparr>jd_i := jd_i d + length (string_chunk c), jd_str := s\<rparr>"
  have "drop (jd_i ?d) str = concat (map string_chunk bs) @ rest"
    using Cons.prems(5) drop_more [of "jd_i d" str "string_chunk c"] by simp
  moreover have "ds_length (jd_str ?d) \<le> jd_i ?d"
    using s(4) Cons.prems(3) by (simp add: string_chunk_def)
  ultimately obtain s' where "reaches A F slots str ?d (?d\<lparr>jd_i := jd_i ?d + length (concat (map string_chunk bs)), jd_str := s'\<rparr>)"
      "dynstr_wf s'" "dynstr_text s' = dynstr_text s @ bs"
    using Cons.IH [of ?d] Cons.prems s by (auto simp: awake_def)
  then show ?case
    using reaches_trans [OF s(1)] s(3) by (intro exI [of _ s']) (simp add: add.assoc)
qed

text \<open>A whole string, from its opening quote: it is pushed and the state below resumed.\<close>

lemma reads_string:
  assumes "reliable A" and "length str \<le> fmt_limit" and "awake d" and "jd_at d < 29"
    and "jd_states d (jd_at d) = read_key \<or> jd_states d (jd_at d) = read_value"
    and "list_all readable bs" and "drop (jd_i d) str = string_text bs @ rest" and "jd_gettop d < slots"
  shows "\<exists>s p st. reaches A F slots str d (d\<lparr>jd_i := jd_i d + length (string_text bs), jd_str := s,
      jd_lua := jd_lua d @ [LStr bs], jd_pushes := (jd_pushes d)(jd_at d := p),
      jd_states := (jd_states d)(jd_at d + 1 := st)\<rparr>) \<and> dynstr_wf s"
proof -
  have drop: "drop (jd_i d) str = c_dquote # concat (map string_chunk bs) @ c_dquote # rest"
    using assms(7) by (simp add: string_text_def)
  note here = at_char [OF drop]
  let ?d = "d\<lparr>jd_at := jd_at d + 1, jd_states := (jd_states d)(jd_at d + 1 := read_text),
      jd_str := (jd_str d)\<lparr>ds_length := 0\<rparr>, jd_i := Suc (jd_i d)\<rparr>"
  have "inside (jd_at d + 1)" using assms(3) by (simp add: inside_def awake_def)
  then have "decode_step A F slots str d = Some (Inr ?d)"
    using assms(5) here
    by (auto simp: decode_step_def read_key_step_def read_value_step_def enter_text_def jd_ops Let_def)
  note start = turn_at [OF assms(3) drop this]
  have aw: "awake ?d" using assms(3,4) by (simp add: awake_def dynstr_wf_def)
  have nil: "dynstr_text (jd_str ?d) = []" by (simp add: dynstr_text_def)
  obtain s where s: "reaches A F slots str ?d (?d\<lparr>jd_i := jd_i ?d + length (concat (map string_chunk bs)), jd_str := s\<rparr>)"
      "dynstr_wf s" "dynstr_text s = bs"
    using reads_chars [OF assms(1,2) aw _ _ assms(6), of "c_dquote # rest" F slots] here(3) nil by auto
  let ?e = "?d\<lparr>jd_i := jd_i ?d + length (concat (map string_chunk bs)), jd_str := s\<rparr>"
  have drop': "drop (jd_i ?e) str = c_dquote # rest"
    using drop_more [OF here(3)] by simp
  let ?f = "d\<lparr>jd_i := jd_i d + length (string_text bs), jd_str := s,
      jd_lua := jd_lua d @ [LStr bs], jd_pushes := (jd_pushes d)(jd_at d := jd_pushes d (jd_at d) + 1),
      jd_states := (jd_states d)(jd_at d + 1 := read_text)\<rparr>"
  have "inside (jd_at d)" using assms(3) by (simp add: inside_def awake_def)
  then have "decode_step A F slots str ?e = Some (Inr ?f)"
    using at_char [OF drop'] assms(8) s(3)
    by (simp add: decode_step_def read_text_step_def jd_ops Let_def string_text_def)
  then have "reaches A F slots str ?e ?f"
    using turn_at [OF _ drop'] aw s(2) by (simp add: awake_def)
  then show ?thesis using reaches_trans [OF start reaches_trans [OF s(1)]] s(2) by blast
qed

section \<open>Numbers\<close>

lemma digit_char:
  assumes "n < 10"
  shows "is_digit_char (of_nat (48 + n))" and "digit_word (of_nat (48 + n)) = of_nat n"
proof -
  have u: "unat (of_nat (48 + n) :: byte) = 48 + n"
    using assms unfolding unat_of_nat by simp
  then show "is_digit_char (of_nat (48 + n))" using assms by (simp add: is_digit_char_def)
  have "unat (of_nat (48 + n) :: byte) < 128" unfolding u using assms by simp
  then have "sint (of_nat (48 + n) :: byte) = int (48 + n)"
    by (simp only: sint_byte_ascii u)
  then show "digit_word (of_nat (48 + n)) = of_nat n" by (simp add: digit_word_def)
qed

lemma digits_first: "\<exists>c cs. digits n = c # cs \<and> is_digit_char c"
proof (induction n rule: digits.induct)
  case (1 n)
  show ?case
  proof (cases "n < 10")
    case True
    then show ?thesis using digit_char(1) [OF True] by (subst digits.simps) simp
  next
    case False
    then obtain c cs where "digits (n div 10) = c # cs" "is_digit_char c" using 1 by blast
    then show ?thesis using False by (subst digits.simps) simp
  qed
qed

lemma digit_turn:
  assumes "awake d" and "jd_states d (jd_at d) = read_num"
    and "drop (jd_i d) str = of_nat (48 + n) # rest" and "n < 10"
  shows "reaches A F slots str d (d\<lparr>jd_i := Suc (jd_i d), jd_num := jd_num d * 10 + of_nat n\<rparr>)"
proof (rule turn_at [OF assms(1,3)])
  have "jd_next (d\<lparr>jd_num := m\<rparr>) = d\<lparr>jd_i := Suc (jd_i d), jd_num := m\<rparr>" for m
    by (cases d) (simp add: jd_next_def)
  then show "decode_step A F slots str d =
      Some (Inr (d\<lparr>jd_i := Suc (jd_i d), jd_num := jd_num d * 10 + of_nat n\<rparr>))"
    using at_char [OF assms(3)] digit_char [OF assms(4)] assms(2)
    by (simp add: decode_step_def read_num_step_def)
qed

lemma reads_digits:
  "awake d \<Longrightarrow> jd_states d (jd_at d) = read_num \<Longrightarrow> drop (jd_i d) str = digits n @ rest \<Longrightarrow>
   reaches A F slots str d (d\<lparr>jd_i := jd_i d + length (digits n),
     jd_num := jd_num d * 10 ^ length (digits n) + of_nat n\<rparr>)"
proof (induction n arbitrary: rest rule: digits.induct)
  case (1 n)
  show ?case
  proof (cases "n < 10")
    case True
    then have d: "digits n = [of_nat (48 + n)]" by (subst digits.simps) simp
    show ?thesis
      using digit_turn [OF "1.prems"(1,2) _ True, of str rest] "1.prems"(3) d by simp
  next
    case False
    let ?k = "length (digits (n div 10))"
    have d: "digits n = digits (n div 10) @ [of_nat (48 + n mod 10)]" using False by (subst digits.simps) simp
    let ?e = "d\<lparr>jd_i := jd_i d + ?k, jd_num := jd_num d * 10 ^ ?k + of_nat (n div 10)\<rparr>"
    have drop: "drop (jd_i d) str = digits (n div 10) @ of_nat (48 + n mod 10) # rest"
      using "1.prems"(3) d by simp
    have first: "reaches A F slots str d ?e" using "1.IH" [OF False "1.prems"(1,2) drop] .
    have drop': "drop (jd_i ?e) str = of_nat (48 + n mod 10) # rest" using drop_more [OF drop] by simp
    have num: "(of_nat (n div 10) * 10 + of_nat (n mod 10) :: 64 word) = of_nat n"
      by (metis of_nat_add of_nat_mult of_nat_numeral div_mult_mod_eq)
    have "reaches A F slots str ?e (?e\<lparr>jd_i := Suc (jd_i ?e), jd_num := jd_num ?e * 10 + of_nat (n mod 10)\<rparr>)"
      using "1.prems"(1,2) by (intro digit_turn [OF _ _ drop']) (simp_all add: awake_def)
    moreover have "?e\<lparr>jd_i := Suc (jd_i ?e), jd_num := jd_num ?e * 10 + of_nat (n mod 10)\<rparr> =
        d\<lparr>jd_i := jd_i d + length (digits n), jd_num := jd_num d * 10 ^ length (digits n) + of_nat n\<rparr>"
      using num by (simp add: d algebra_simps)
    ultimately show ?thesis using reaches_trans [OF first] by simp
  qed
qed

section \<open>Values in their place\<close>

text \<open>
  Before a comma or a closing bracket a value has been read when it lies on the Lua stack and the
  automaton is back in the container.
\<close>

definition terminator :: "byte \<Rightarrow> bool" where
  "terminator c \<longleftrightarrow> c = c_comma \<or> c = c_rbrace \<or> c = c_rbracket"

definition took :: "decoder \<Rightarrow> lua_value \<Rightarrow> nat \<Rightarrow> decoder \<Rightarrow> bool" where
  "took d v n d' \<longleftrightarrow> jd_i d' = jd_i d + n \<and> jd_at d' = jd_at d - 1 \<and> jd_lua d' = jd_lua d @ [v] \<and>
     awake d' \<and> (\<forall>k < jd_at d. jd_states d' k = jd_states d k \<and> jd_top d' k = jd_top d k \<and>
       jd_pushes d' k = jd_pushes d k)"

lemma leave_turn:
  assumes "awake d" and "jd_states d (jd_at d) = read_value" and "drop (jd_i d) str = c # rest" and "terminator c"
  shows "reaches A F slots str d (jd_leave d)"
  using at_char [OF assms(3)] assms(2,4)
  by (intro turn_at [OF assms(1,3)]) (auto simp: decode_step_def read_value_step_def terminator_def Let_def)

lemma takes_string:
  assumes "reliable A" and "length str \<le> fmt_limit" and "awake d" and "0 < jd_at d" and "jd_at d < 29"
    and "jd_states d (jd_at d) = read_value" and "list_all readable bs"
    and "drop (jd_i d) str = string_text bs @ c # rest" and "terminator c" and "jd_gettop d < slots"
  shows "\<exists>d'. reaches A F slots str d d' \<and> took d (LStr bs) (length (string_text bs)) d'"
proof -
  obtain s p st where r: "reaches A F slots str d (d\<lparr>jd_i := jd_i d + length (string_text bs), jd_str := s,
      jd_lua := jd_lua d @ [LStr bs], jd_pushes := (jd_pushes d)(jd_at d := p),
      jd_states := (jd_states d)(jd_at d + 1 := st)\<rparr>)" "dynstr_wf s"
    using reads_string [OF assms(1-3,5) _ assms(7,8,10)] assms(6) by blast
  let ?e = "d\<lparr>jd_i := jd_i d + length (string_text bs), jd_str := s,
      jd_lua := jd_lua d @ [LStr bs], jd_pushes := (jd_pushes d)(jd_at d := p),
      jd_states := (jd_states d)(jd_at d + 1 := st)\<rparr>"
  have aw: "awake ?e" using assms(3) r(2) by (simp add: awake_def)
  have "reaches A F slots str ?e (jd_leave ?e)"
    using drop_more [OF assms(8)] assms(6) by (intro leave_turn [OF aw _ _ assms(9)]) simp_all
  moreover have "took d (LStr bs) (length (string_text bs)) (jd_leave ?e)"
    using aw assms(4) by (simp add: took_def jd_leave_def awake_def)
  ultimately show ?thesis using reaches_trans [OF r(1)] by blast
qed

lemma takes_word:
  assumes "awake d" and "0 < jd_at d" and "jd_states d (jd_at d) = read_value"
    and "drop (jd_i d) str = cstr w @ c # rest" and "jd_gettop d < slots"
    and "w = ''true'' \<and> v = LBool True \<or> w = ''false'' \<and> v = LBool False"
  shows "\<exists>d'. reaches A F slots str d d' \<and> took d v (length w) d'"
proof -
  have w: "cstr w = of_char (hd w) # cstr (tl w)" "w \<noteq> []" using assms(6) by (auto simp: cstr_def)
  have drop: "drop (jd_i d) str = of_char (hd w) # cstr (tl w) @ c # rest" using assms(4) w by simp
  have "length (drop (jd_i d) str) = length w + Suc (length rest)" using assms(4) by (simp add: cstr_def)
  then have len: "jd_i d + length w < length str" by simp
  let ?d = "jd_next ((jd_leave (d\<lparr>jd_lua := jd_lua d @ [v]\<rparr>))\<lparr>jd_i := jd_i d + (length w - 1)\<rparr>)"
  have "read_word slots str w v d = Some (Inr ?d)"
    using len assms(4,5) by (simp add: read_word_def jd_ops cstr_def)
  moreover have "decode_step A F slots str d = read_word slots str w v d"
    using at_char [OF drop] assms(3,6) by (auto simp: decode_step_def read_value_step_def Let_def)
  ultimately have "reaches A F slots str d ?d" by (intro turn_at [OF assms(1) drop]) simp
  moreover have "took d v (length w) ?d"
    using assms(1,2) w(2) by (simp add: took_def awake_def jd_next_def jd_leave_def)
  ultimately show ?thesis by blast
qed

lemma signed_of_int: "\<bar>n\<bar> < 2 ^ 53 \<Longrightarrow> sint (of_int n :: 64 word) = n"
  by (subst sint_sbintrunc', subst signed_take_bit_int_eq_self) simp_all

lemma takes_number:
  assumes "awake d" and "0 < jd_at d" and "jd_at d < 29" and "jd_states d (jd_at d) = read_value"
    and "drop (jd_i d) str = decimal n @ c # rest" and "terminator c" and "jd_gettop d < slots"
    and "\<bar>n\<bar> < 2 ^ 53"
  shows "\<exists>d'. reaches A F slots str d d' \<and> took d (LInt n) (length (decimal n)) d'"
proof -
  let ?m = "if n < 0 then 1 else 0 :: nat"
  let ?ds = "digits (nat \<bar>n\<bar>)"
  let ?e = "d\<lparr>jd_i := jd_i d + ?m, jd_at := jd_at d + 1, jd_states := (jd_states d)(jd_at d + 1 := read_num),
      jd_num := 0, jd_negative := (n < 0)\<rparr>"
  obtain x xs where x: "?ds = x # xs" "is_digit_char x" using digits_first by blast
  have xm: "x \<noteq> c_minus" using x(2) by (auto simp: is_digit_char_def)
  obtain y ys where drop: "drop (jd_i d) str = y # ys" "y = (if n < 0 then c_minus else x)"
    using assms(5) x(1) by (cases "n < 0") (simp_all add: decimal_def)
  have "inside (jd_at d + 1)" using assms(1) by (simp add: awake_def inside_def)
  then have "decode_step A F slots str d = Some (Inr ?e)"
    using at_char [OF drop(1)] assms(4) x xm drop(2)
    by (cases d) (auto simp: decode_step_def read_value_step_def enter_num_def jd_ops Let_def is_digit_char_def)
  then have start: "reaches A F slots str d ?e" by (rule turn_at [OF assms(1) drop(1)])
  have dropd: "drop (jd_i ?e) str = ?ds @ c # rest"
    using assms(5) drop_more [of "jd_i d" str "[c_minus]"] by (simp add: decimal_def)
  let ?f = "?e\<lparr>jd_i := jd_i ?e + length ?ds, jd_num := of_nat (nat \<bar>n\<bar>)\<rparr>"
  have awe: "awake ?e" using assms(1,3) by (simp add: awake_def)
  have num: "reaches A F slots str ?e ?f" using reads_digits [OF awe _ dropd] by simp
  have dropf: "drop (jd_i ?f) str = c # rest" using drop_more [OF dropd] by simp
  have awf: "awake ?f" using awe by (simp add: awake_def)
  let ?v = "sint (if n < 0 then - of_nat (nat \<bar>n\<bar>) else of_nat (nat \<bar>n\<bar>) :: 64 word)"
  have "(if n < 0 then - of_nat (nat \<bar>n\<bar>) else of_nat (nat \<bar>n\<bar>) :: 64 word) = of_int n"
  proof (cases "n < 0")
    case True
    then have "of_int n = - (of_int (int (nat \<bar>n\<bar>)) :: 64 word)" by simp
    then show ?thesis using True by (simp only: if_True of_int_of_nat_eq)
  next
    case False
    then have "of_int n = (of_int (int (nat \<bar>n\<bar>)) :: 64 word)" by simp
    then show ?thesis using False by (simp only: if_False of_int_of_nat_eq)
  qed
  then have v: "?v = n" using signed_of_int [OF assms(8)] by simp
  let ?g = "jd_leave (?f\<lparr>jd_lua := jd_lua d @ [LInt n]\<rparr>)"
  have c: "\<not> is_digit_char c" "c \<noteq> c_dot" "ends_number c"
    using assms(6) by (auto simp: terminator_def ends_number_def is_digit_char_def)
  have "decode_step A F slots str ?f = Some (Inr ?g)"
    using at_char [OF dropf] c v signed_of_int [OF assms(8)] assms(7) by (simp add: decode_step_def read_num_step_def jd_ops)
  then have push: "reaches A F slots str ?f ?g" by (rule turn_at [OF awf dropf])
  have awg: "awake ?g" using awf assms(1) by (simp add: awake_def jd_leave_def)
  have "reaches A F slots str ?g (jd_leave ?g)"
    using dropf assms(4) by (intro leave_turn [OF awg _ _ assms(6)]) (simp_all add: jd_leave_def)
  moreover have "took d (LInt n) (length (decimal n)) (jd_leave ?g)"
    using awg assms(2) by (simp add: took_def jd_leave_def awake_def decimal_def)
  ultimately show ?thesis
    using reaches_trans [OF start reaches_trans [OF num push]] reaches_trans by blast
qed

section \<open>Tables\<close>

text \<open>
  A container at level \<open>m\<close> has been read when its level is left, the Lua stack holds the given
  values and everything below the level is as it was.
\<close>

definition closes :: "int \<Rightarrow> decoder \<Rightarrow> lua_value list \<Rightarrow> nat \<Rightarrow> decoder \<Rightarrow> bool" where
  "closes m d lua n d' \<longleftrightarrow> jd_i d' = jd_i d + n \<and> jd_at d' = m - 1 \<and> jd_lua d' = lua \<and> jd_ok d' \<and>
     dynstr_wf (jd_str d') \<and> (\<forall>k < m. jd_states d' k = jd_states d k \<and> jd_top d' k = jd_top d k \<and>
       jd_pushes d' k = jd_pushes d k)"

definition reads_back :: "allocator \<Rightarrow> float_ops \<Rightarrow> nat \<Rightarrow> byte list \<Rightarrow> number_texts \<Rightarrow> lua_value \<Rightarrow> bool" where
  "reads_back A F slots str t v \<longleftrightarrow> (\<forall>d c rest. awake d \<longrightarrow> 0 < jd_at d \<longrightarrow>
     jd_at d + 2 * int (height v) < 29 \<longrightarrow> jd_states d (jd_at d) = read_value \<longrightarrow>
     drop (jd_i d) str = json_text t v @ c # rest \<longrightarrow> terminator c \<longrightarrow>
     jd_gettop d + 2 * height v + 1 \<le> slots \<longrightarrow>
     (\<exists>d'. reaches A F slots str d d' \<and> took d v (length (json_text t v)) d'))"

lemma array_append:
  assumes "jd_lua d = below @ [LTable es, v]" and "jd_pushes d (jd_at d) = int (length es)"
    and "map fst es = map LInt [1..int (length es)]" and "v \<noteq> LNil"
  shows "append_element d = Some (Inr (d\<lparr>jd_pushes := (jd_pushes d)(jd_at d := int (length es) + 1),
    jd_lua := below @ [LTable (es @ [(LInt (int (length es) + 1), v)])]\<rparr>))"
proof -
  have "LInt (int (length es) + 1) \<notin> set (map fst es)" unfolding assms(3) by auto
  then show ?thesis
    using assms table_set_fresh [of "LInt (int (length es) + 1)" es v]
    by (simp add: append_element_def lua_rawseti_def)
qed

lemma array_keys:
  assumes "map fst (es @ (k, v) # kvs) = map LInt [1..int (length (es @ (k, v) # kvs))]"
  shows "map fst es = map LInt [1..int (length es)]" and "k = LInt (int (length es) + 1)"
proof -
  let ?n = "int (length es)"
  have split: "[1..int (length (es @ (k, v) # kvs))] = [1..?n] @ (?n + 1) # [?n + 2..int (length (es @ (k, v) # kvs))]"
    using upto_split3 [of 1 "?n + 1" "int (length (es @ (k, v) # kvs))"] by (simp add: algebra_simps)
  have len: "length (map LInt [1..?n]) = length (map fst es)" by simp
  show "map fst es = map LInt [1..?n]" "k = LInt (?n + 1)"
    using assms len unfolding split by (simp_all add: append_eq_append_conv)
qed

text \<open>Reading the value of one entry of the container at level \<open>m\<close>.\<close>

lemma reads_entry:
  assumes "reads_back A F slots str t v" and "height v \<le> h" and "awake d" and "jd_at d = m + 1" and "0 \<le> m"
    and "jd_states d (m + 1) = read_value" and "m + 2 * int h < 28" and "jd_gettop d + 2 * h + 1 \<le> slots"
    and "drop (jd_i d) str = json_text t v @ c # rest" and "terminator c"
  obtains d' where "reaches A F slots str d d'" "jd_at d' = m" "awake d'" "jd_lua d' = jd_lua d @ [v]"
    "jd_i d' = jd_i d + length (json_text t v)" "drop (jd_i d') str = c # rest"
    "\<forall>k \<le> m. jd_states d' k = jd_states d k \<and> jd_top d' k = jd_top d k \<and> jd_pushes d' k = jd_pushes d k"
proof -
  obtain d' where "reaches A F slots str d d'" "took d v (length (json_text t v)) d'"
    using assms unfolding reads_back_def by (auto dest!: spec [of _ d])
  then show ?thesis using that [of d'] assms(4) drop_more [OF assms(9)] by (simp add: took_def)
qed

lemma takes_elements:
  assumes "\<forall>(k, v) \<in> set ((k, v) # kvs). reads_back A F slots str t v \<and> height v \<le> h \<and> v \<noteq> LNil"
    and "map fst (es @ (k, v) # kvs) = map LInt [1..int (length (es @ (k, v) # kvs))]"
    and "awake d" and "jd_at d = m + 1" and "0 \<le> m" and "jd_states d m = in_array"
    and "jd_states d (m + 1) = read_value" and "jd_top d m = Suc (length below)"
    and "jd_lua d = below @ [LTable es]" and "jd_pushes d m = int (length es)"
    and "m + 2 * int h < 28" and "jd_gettop d + 2 * h + 1 \<le> slots"
    and "drop (jd_i d) str = json_text t v @ json_more t True kvs @ rest"
  shows "\<exists>d'. reaches A F slots str d d' \<and>
    closes m d (below @ [LTable (es @ (k, v) # kvs)]) (length (json_text t v) + length (json_more t True kvs)) d'"
  using assms
proof (induction kvs arbitrary: k v es d)
  case (Cons kv kvs)
  obtain k' v' where kv: "kv = (k', v')" by (cases kv)
  note prems = Cons.prems [unfolded kv]
  have drop: "drop (jd_i d) str = json_text t v @ c_comma # json_text t v' @ json_more t True kvs @ rest"
    using prems(13) by (simp add: json_key_text_def)
  have "reads_back A F slots str t v" "height v \<le> h" using prems(1) by auto
  then obtain d1 where d1: "reaches A F slots str d d1" and at1: "jd_at d1 = m" "awake d1"
      "jd_lua d1 = jd_lua d @ [v]" "jd_i d1 = jd_i d + length (json_text t v)"
      and drop1: "drop (jd_i d1) str = c_comma # json_text t v' @ json_more t True kvs @ rest"
      and same: "\<forall>k \<le> m. jd_states d1 k = jd_states d k \<and> jd_top d1 k = jd_top d k \<and> jd_pushes d1 k = jd_pushes d k"
    using reads_entry [OF _ _ prems(3-5,7,11,12) drop] by (auto simp: terminator_def)
  have m1: "jd_states d1 m = in_array" "jd_top d1 m = Suc (length below)" "jd_pushes d1 m = int (length es)"
    using same prems(6,8,10) by simp_all
  note keys = array_keys [OF prems(2)]
  let ?d2 = "d1\<lparr>jd_pushes := (jd_pushes d1)(m := int (length es) + 1),
    jd_lua := below @ [LTable (es @ [(k, v)])], jd_at := m + 1,
    jd_states := (jd_states d1)(m + 1 := read_value), jd_i := Suc (jd_i d1)\<rparr>"
  have "append_element d1 = Some (Inr (d1\<lparr>jd_pushes := (jd_pushes d1)(jd_at d1 := int (length es) + 1),
      jd_lua := below @ [LTable (es @ [(LInt (int (length es) + 1), v)])]\<rparr>))"
    using at1 m1 keys prems(1,9) by (intro array_append) auto
  moreover have "inside (m + 1)" using prems(5,11) by (simp add: inside_def)
  ultimately have "decode_step A F slots str d1 = Some (Inr ?d2)"
    using at_char [OF drop1] at1 m1 keys prems(9)
    by (simp add: decode_step_def in_array_step_def andthen_def jd_enter_def jd_next_def jd_gettop_def)
  then have step: "reaches A F slots str d1 ?d2" by (rule turn_at [OF at1(2) drop1])
  have "\<exists>d'. reaches A F slots str ?d2 d' \<and> closes m ?d2 (below @ [LTable ((es @ [(k, v)]) @ (k', v') # kvs)])
      (length (json_text t v') + length (json_more t True kvs)) d'"
  proof (rule Cons.IH)
    show "map fst ((es @ [(k, v)]) @ (k', v') # kvs) = map LInt [1..int (length ((es @ [(k, v)]) @ (k', v') # kvs))]"
      using prems(2) by simp
    show "drop (jd_i ?d2) str = json_text t v' @ json_more t True kvs @ rest" using at_char(3) [OF drop1] by simp
    show "awake ?d2" using at1 prems(5,11) by (simp add: awake_def)
    show "jd_gettop ?d2 + 2 * h + 1 \<le> slots" using prems(9,12) by (simp add: jd_gettop_def)
  qed (use prems m1 in auto)
  then obtain d' where d': "reaches A F slots str ?d2 d'" "closes m ?d2 (below @ [LTable (es @ (k, v) # (k', v') # kvs)])
      (length (json_text t v') + length (json_more t True kvs)) d'" by auto
  have "closes m d (below @ [LTable (es @ (k, v) # kv # kvs)]) (length (json_text t v) + length (json_more t True (kv # kvs))) d'"
    using d'(2) same at1(4) prems(4) by (simp add: closes_def kv json_key_text_def)
  then show ?case using reaches_trans [OF d1 reaches_trans [OF step d'(1)]] by blast
next
  case Nil
  note prems = Nil.prems
  have drop: "drop (jd_i d) str = json_text t v @ c_rbracket # rest" using prems(13) by simp
  have "reads_back A F slots str t v" "height v \<le> h" using prems(1) by auto
  then obtain d1 where d1: "reaches A F slots str d d1" and at1: "jd_at d1 = m" "awake d1"
      "jd_lua d1 = jd_lua d @ [v]" "jd_i d1 = jd_i d + length (json_text t v)"
      and drop1: "drop (jd_i d1) str = c_rbracket # rest"
      and same: "\<forall>k \<le> m. jd_states d1 k = jd_states d k \<and> jd_top d1 k = jd_top d k \<and> jd_pushes d1 k = jd_pushes d k"
    using reads_entry [OF _ _ prems(3-5,7,11,12) drop] by (auto simp: terminator_def)
  have m1: "jd_states d1 m = in_array" "jd_top d1 m = Suc (length below)" "jd_pushes d1 m = int (length es)"
    using same prems(6,8,10) by simp_all
  note keys = array_keys [OF prems(2)]
  let ?d2 = "d1\<lparr>jd_pushes := (jd_pushes d1)(m := int (length es) + 1),
    jd_lua := below @ [LTable (es @ [(k, v)])], jd_at := m - 1, jd_i := Suc (jd_i d1)\<rparr>"
  have "append_element d1 = Some (Inr (d1\<lparr>jd_pushes := (jd_pushes d1)(jd_at d1 := int (length es) + 1),
      jd_lua := below @ [LTable (es @ [(LInt (int (length es) + 1), v)])]\<rparr>))"
    using at1 m1 keys prems(1,9) by (intro array_append) auto
  then have "decode_step A F slots str d1 = Some (Inr ?d2)"
    using at_char [OF drop1] at1 m1 keys prems(9)
    by (simp add: decode_step_def in_array_step_def andthen_def jd_leave_def jd_next_def jd_gettop_def)
  then have step: "reaches A F slots str d1 ?d2" by (rule turn_at [OF at1(2) drop1])
  have "closes m d (below @ [LTable (es @ [(k, v)])]) (length (json_text t v) + length (json_more t True [])) ?d2"
    using at1 same prems(4) by (simp add: closes_def awake_def)
  then show ?case using reaches_trans [OF d1 step] by blast
qed

lemma fresh_key: "\<lbrakk>distinct (map fst (es @ (k, v) # kvs)); v \<noteq> LNil\<rbrakk> \<Longrightarrow> table_set es k v = es @ [(k, v)]"
  by (intro table_set_fresh) auto

text \<open>A key and its colon.\<close>

lemma takes_key:
  assumes "reliable A" and "length str \<le> fmt_limit" and "awake d" and "jd_at d = m + 1" and "m < 28"
    and "jd_states d (m + 1) = read_key" and "list_all readable bs"
    and "drop (jd_i d) str = json_key_text t False (LStr bs) @ rest" and "jd_gettop d < slots"
  obtains d' where "reaches A F slots str d d'" "jd_at d' = m + 1" "awake d'" "jd_lua d' = jd_lua d @ [LStr bs]"
    "jd_i d' = jd_i d + length (json_key_text t False (LStr bs))" "drop (jd_i d') str = rest"
    "jd_states d' (m + 1) = read_value"
    "\<forall>k \<le> m. jd_states d' k = jd_states d k \<and> jd_top d' k = jd_top d k \<and> jd_pushes d' k = jd_pushes d k"
proof -
  have drop: "drop (jd_i d) str = string_text bs @ c_colon # rest"
    using assms(8) by (simp add: json_key_text_def key_bytes_def)
  obtain s p st where r: "reaches A F slots str d (d\<lparr>jd_i := jd_i d + length (string_text bs), jd_str := s,
      jd_lua := jd_lua d @ [LStr bs], jd_pushes := (jd_pushes d)(jd_at d := p),
      jd_states := (jd_states d)(jd_at d + 1 := st)\<rparr>)" "dynstr_wf s"
    using reads_string [OF assms(1-3) _ _ assms(7) drop assms(9)] assms(4-6) by force
  let ?e = "d\<lparr>jd_i := jd_i d + length (string_text bs), jd_str := s,
      jd_lua := jd_lua d @ [LStr bs], jd_pushes := (jd_pushes d)(jd_at d := p),
      jd_states := (jd_states d)(jd_at d + 1 := st)\<rparr>"
  have aw: "awake ?e" using assms(3) r(2) by (simp add: awake_def)
  have drop': "drop (jd_i ?e) str = c_colon # rest" using drop_more [OF drop] by simp
  have "decode_step A F slots str ?e = Some (Inr (jd_next (jd_become read_value ?e)))"
    using at_char [OF drop'] assms(4,6) by (simp add: decode_step_def read_key_step_def)
  then have "reaches A F slots str d (jd_next (jd_become read_value ?e))"
    using reaches_trans [OF r(1) turn_at [OF aw drop']] by blast
  then show ?thesis
    using aw at_char [OF drop'] assms(4)
    by (intro that [of "jd_next (jd_become read_value ?e)"])
      (simp_all add: jd_next_def jd_become_def awake_def json_key_text_def key_bytes_def)
qed

lemma takes_members:
  assumes "reliable A" and "length str \<le> fmt_limit"
    and "\<forall>(k, v) \<in> set ((k, v) # kvs). reads_back A F slots str t v \<and> height v \<le> h \<and> v \<noteq> LNil \<and>
      (\<exists>bs. k = LStr bs \<and> list_all readable bs)"
    and "distinct (map fst (es @ (k, v) # kvs))"
    and "awake d" and "jd_at d = m + 1" and "0 \<le> m" and "jd_states d m = in_object"
    and "jd_states d (m + 1) = read_key" and "jd_top d m = Suc (length below)"
    and "jd_lua d = below @ [LTable es]" and "m + 2 * int h < 28" and "jd_gettop d + 2 * h + 2 \<le> slots"
    and "drop (jd_i d) str = json_key_text t False k @ json_text t v @ json_more t False kvs @ rest"
  shows "\<exists>d'. reaches A F slots str d d' \<and> closes m d (below @ [LTable (es @ (k, v) # kvs)])
    (length (json_key_text t False k) + length (json_text t v) + length (json_more t False kvs)) d'"
  using assms(3-)
proof (induction kvs arbitrary: k v es d)
  case (Cons kv kvs)
  obtain k' v' where kv: "kv = (k', v')" by (cases kv)
  note prems = Cons.prems [unfolded kv]
  obtain bs where k: "k = LStr bs" "list_all readable bs" using prems(1) by auto
  let ?rest = "json_key_text t False k' @ json_text t v' @ json_more t False kvs @ rest"
  have drop: "drop (jd_i d) str = json_key_text t False (LStr bs) @ json_text t v @ c_comma # ?rest"
    using prems(12) k(1) by simp
  have m28: "m < 28" and room: "jd_gettop d < slots" using prems(10,11) by simp_all
  obtain d0 where d0: "reaches A F slots str d d0" and at0: "jd_at d0 = m + 1" "awake d0"
      "jd_lua d0 = jd_lua d @ [LStr bs]" "jd_i d0 = jd_i d + length (json_key_text t False (LStr bs))"
      and drop0: "drop (jd_i d0) str = json_text t v @ c_comma # ?rest" and st0: "jd_states d0 (m + 1) = read_value"
      and same0: "\<forall>k \<le> m. jd_states d0 k = jd_states d k \<and> jd_top d0 k = jd_top d k \<and> jd_pushes d0 k = jd_pushes d k"
    by (rule takes_key [where F = F, OF assms(1,2) prems(3,4) m28 prems(7) k(2) drop room])
  have top0: "jd_gettop d0 + 2 * h + 1 \<le> slots" using at0(3) prems(11) by (simp add: jd_gettop_def)
  have "reads_back A F slots str t v" "height v \<le> h" using prems(1) by auto
  then obtain d1 where d1: "reaches A F slots str d0 d1" and at1: "jd_at d1 = m" "awake d1"
      "jd_lua d1 = jd_lua d0 @ [v]" "jd_i d1 = jd_i d0 + length (json_text t v)"
      and drop1: "drop (jd_i d1) str = c_comma # ?rest"
      and same: "\<forall>k \<le> m. jd_states d1 k = jd_states d0 k \<and> jd_top d1 k = jd_top d0 k \<and> jd_pushes d1 k = jd_pushes d0 k"
    using reads_entry [OF _ _ at0(2,1) prems(5) st0 prems(10) top0 drop0] by (auto simp: terminator_def)
  have m1: "jd_states d1 m = in_object" "jd_top d1 m = Suc (length below)"
    using same same0 prems(6,8) by simp_all
  let ?d2 = "d1\<lparr>jd_lua := below @ [LTable (es @ [(k, v)])], jd_at := m + 1,
    jd_states := (jd_states d1)(m + 1 := read_key), jd_i := Suc (jd_i d1)\<rparr>"
  have "table_set es k v = es @ [(k, v)]" using fresh_key [OF prems(2)] prems(1) by auto
  then have "lua_settable F d1 = Some (Inr (d1\<lparr>jd_lua := below @ [LTable (es @ [(k, v)])]\<rparr>))"
    using at1(3) at0(3) prems(9) k by (simp add: lua_settable_def table_key_def)
  moreover have "inside (m + 1)" using prems(5,10) by (simp add: inside_def)
  ultimately have "decode_step A F slots str d1 = Some (Inr ?d2)"
    using at_char [OF drop1] at1 at0(3) m1 prems(9)
    by (simp add: decode_step_def in_object_step_def andthen_def jd_enter_def jd_next_def jd_gettop_def)
  then have step: "reaches A F slots str d1 ?d2" by (rule turn_at [OF at1(2) drop1])
  have "\<exists>d'. reaches A F slots str ?d2 d' \<and> closes m ?d2 (below @ [LTable ((es @ [(k, v)]) @ (k', v') # kvs)])
      (length (json_key_text t False k') + length (json_text t v') + length (json_more t False kvs)) d'"
  proof (rule Cons.IH)
    show "distinct (map fst ((es @ [(k, v)]) @ (k', v') # kvs))" using prems(2) by simp
    show "drop (jd_i ?d2) str = ?rest" using at_char(3) [OF drop1] by simp
    show "awake ?d2" using at1 prems(5,10) by (simp add: awake_def)
    show "jd_gettop ?d2 + 2 * h + 2 \<le> slots" using prems(9,11) by (simp add: jd_gettop_def)
  qed (use prems m1 in auto)
  then obtain d' where d': "reaches A F slots str ?d2 d'" "closes m ?d2 (below @ [LTable (es @ (k, v) # (k', v') # kvs)])
      (length (json_key_text t False k') + length (json_text t v') + length (json_more t False kvs)) d'" by auto
  have "closes m d (below @ [LTable (es @ (k, v) # kv # kvs)]) (length (json_key_text t False k) +
      length (json_text t v) + length (json_more t False (kv # kvs))) d'"
    using d'(2) same same0 at1(4) at0(4) prems(4) k(1) by (simp add: closes_def kv)
  then show ?case using reaches_trans [OF d0 reaches_trans [OF d1 reaches_trans [OF step d'(1)]]] by blast
next
  case Nil
  note prems = Nil.prems
  obtain bs where k: "k = LStr bs" "list_all readable bs" using prems(1) by auto
  have drop: "drop (jd_i d) str = json_key_text t False (LStr bs) @ json_text t v @ c_rbrace # rest"
    using prems(12) k(1) by simp
  have m28: "m < 28" and room: "jd_gettop d < slots" using prems(10,11) by simp_all
  obtain d0 where d0: "reaches A F slots str d d0" and at0: "jd_at d0 = m + 1" "awake d0"
      "jd_lua d0 = jd_lua d @ [LStr bs]" "jd_i d0 = jd_i d + length (json_key_text t False (LStr bs))"
      and drop0: "drop (jd_i d0) str = json_text t v @ c_rbrace # rest" and st0: "jd_states d0 (m + 1) = read_value"
      and same0: "\<forall>k \<le> m. jd_states d0 k = jd_states d k \<and> jd_top d0 k = jd_top d k \<and> jd_pushes d0 k = jd_pushes d k"
    by (rule takes_key [where F = F, OF assms(1,2) prems(3,4) m28 prems(7) k(2) drop room])
  have top0: "jd_gettop d0 + 2 * h + 1 \<le> slots" using at0(3) prems(11) by (simp add: jd_gettop_def)
  have "reads_back A F slots str t v" "height v \<le> h" using prems(1) by auto
  then obtain d1 where d1: "reaches A F slots str d0 d1" and at1: "jd_at d1 = m" "awake d1"
      "jd_lua d1 = jd_lua d0 @ [v]" "jd_i d1 = jd_i d0 + length (json_text t v)"
      and drop1: "drop (jd_i d1) str = c_rbrace # rest"
      and same: "\<forall>k \<le> m. jd_states d1 k = jd_states d0 k \<and> jd_top d1 k = jd_top d0 k \<and> jd_pushes d1 k = jd_pushes d0 k"
    using reads_entry [OF _ _ at0(2,1) prems(5) st0 prems(10) top0 drop0] by (auto simp: terminator_def)
  have m1: "jd_states d1 m = in_object" "jd_top d1 m = Suc (length below)"
    using same same0 prems(6,8) by simp_all
  let ?d2 = "d1\<lparr>jd_lua := below @ [LTable (es @ [(k, v)])], jd_at := m - 1, jd_i := Suc (jd_i d1)\<rparr>"
  have "table_set es k v = es @ [(k, v)]" using fresh_key [OF prems(2)] prems(1) by auto
  then have "lua_settable F d1 = Some (Inr (d1\<lparr>jd_lua := below @ [LTable (es @ [(k, v)])]\<rparr>))"
    using at1(3) at0(3) prems(9) k by (simp add: lua_settable_def table_key_def)
  then have "decode_step A F slots str d1 = Some (Inr ?d2)"
    using at_char [OF drop1] at1 at0(3) m1 prems(9)
    by (simp add: decode_step_def in_object_step_def andthen_def jd_leave_def jd_next_def jd_gettop_def)
  then have step: "reaches A F slots str d1 ?d2" by (rule turn_at [OF at1(2) drop1])
  have "closes m d (below @ [LTable (es @ [(k, v)])]) (length (json_key_text t False k) +
      length (json_text t v) + length (json_more t False [])) ?d2"
    using at1 at0(4) same same0 prems(4) k(1) by (simp add: closes_def awake_def)
  then show ?case using reaches_trans [OF d0 reaches_trans [OF d1 step]] by blast
qed


text \<open>A table, from its opening bracket, when its container has just been entered.\<close>

definition container_of :: "(lua_value \<times> lua_value) list \<Rightarrow> jstate" where
  "container_of es = (if es = [] \<or> lua_isnum (fst (hd es)) then in_array else in_object)"

lemma plain_cases:
  assumes "plain (LTable es)"
  obtains (empty) "es = []"
  | (numbered) k v kvs where "es = (k, v) # kvs" "map fst es = map LInt [1..int (length es)]" "lua_isnum k"
  | (named) k v kvs where "es = (k, v) # kvs" "distinct (map fst es)" "\<not> lua_isnum k"
      "\<forall>(k, v) \<in> set es. \<exists>bs. k = LStr bs \<and> list_all readable bs"
proof (cases es)
  case (Cons kv kvs)
  obtain k v where kv: "kv = (k, v)" by (cases kv)
  show ?thesis
  proof (cases "map fst es = map LInt [1..int (length es)]")
    case True
    then have "k = LInt 1" using Cons kv by (simp add: upto.simps)
    then show ?thesis using True numbered Cons kv by (simp add: lua_isnum_def)
  next
    case False
    then have str: "distinct (map fst es)" "\<forall>(k, v) \<in> set es. \<exists>bs. k = LStr bs \<and> list_all readable bs"
      using assms by (auto simp: list_all_iff)
    then have "\<not> lua_isnum k" using Cons kv by (auto simp: lua_isnum_def)
    then show ?thesis using str named Cons kv by blast
  qed
qed (rule empty)

lemma reads_table:
  assumes "reliable A" and "length str \<le> fmt_limit" and "plain (LTable es)"
    and "\<forall>(k, v) \<in> set es. reads_back A F slots str t v \<and> height v \<le> h \<and> v \<noteq> LNil"
    and "awake d" and "jd_at d = m" and "jd_states d m = container_of es" and "m + 2 * int h < 28"
    and "jd_gettop d + 2 * h + 3 \<le> slots" and "drop (jd_i d) str = json_text t (LTable es) @ rest"
  shows "\<exists>d'. reaches A F slots str d d' \<and>
    closes m d (jd_lua d @ [LTable es]) (length (json_text t (LTable es))) d'"
proof -
  have m: "0 \<le> m" "inside (m + 1)" "inside m" using assms(5,6,8) by (simp_all add: awake_def inside_def)
  have room: "jd_gettop d < slots" using assms(9) by simp
  let ?open = "\<lambda>p s. d\<lparr>jd_lua := jd_lua d @ [LTable []], jd_top := (jd_top d)(m := Suc (jd_gettop d)),
      jd_pushes := p, jd_at := m + 1, jd_states := (jd_states d)(m + 1 := s), jd_i := Suc (jd_i d)\<rparr>"
  have aw: "awake (?open p s)" for p s using assms(5,6,8) by (simp add: awake_def)
  have square: "reaches A F slots str d (?open ((jd_pushes d)(m := 0)) read_value)"
    if "drop (jd_i d) str = c_lbracket # more" "container_of es = in_array" for more
    using at_char [OF that(1)] that(2) assms(6,7) room m
    by (intro turn_at [OF assms(5) that(1)]) (simp add: decode_step_def in_array_step_def jd_ops)
  have curly: "reaches A F slots str d (?open (jd_pushes d) read_key)"
    if "drop (jd_i d) str = c_lbrace # more" "container_of es = in_object" for more
    using at_char [OF that(1)] that(2) assms(6,7) room m
    by (intro turn_at [OF assms(5) that(1)]) (cases d, simp add: decode_step_def in_object_step_def jd_ops)
  from assms(3) show ?thesis
  proof (cases rule: plain_cases)
    case empty
    let ?d1 = "?open ((jd_pushes d)(m := 0)) read_value"
    have drop: "drop (jd_i d) str = c_lbracket # c_rbracket # rest" using assms(10) empty by simp
    have drop1: "drop (jd_i ?d1) str = c_rbracket # rest" using at_char(3) [OF drop] by simp
    have con: "container_of es = in_array" by (simp add: container_of_def empty)
    have l: "reaches A F slots str ?d1 (jd_leave ?d1)"
      by (rule leave_turn [OF aw _ drop1]) (simp_all add: terminator_def)
    have aw2: "awake (jd_leave ?d1)" using assms(5,6) by (simp add: awake_def jd_leave_def)
    have drop2: "drop (jd_i (jd_leave ?d1)) str = c_rbracket # rest" using drop1 by (simp add: jd_leave_def)
    have "decode_step A F slots str (jd_leave ?d1) = Some (Inr (jd_leave (jd_next (jd_leave ?d1))))"
      using at_char [OF drop2] assms(7) con
      by (simp add: decode_step_def in_array_step_def jd_leave_def jd_gettop_def)
    then have "reaches A F slots str (jd_leave ?d1) (jd_leave (jd_next (jd_leave ?d1)))"
      by (rule turn_at [OF aw2 drop2])
    moreover have "closes m d (jd_lua d @ [LTable es]) (length (json_text t (LTable es))) (jd_leave (jd_next (jd_leave ?d1)))"
      using assms(5) by (simp add: closes_def jd_leave_def jd_next_def awake_def empty)
    ultimately show ?thesis using reaches_trans [OF square [OF drop con] reaches_trans [OF l]] by blast
  next
    case (numbered k v kvs)
    let ?d1 = "?open ((jd_pushes d)(m := 0)) read_value"
    have drop: "drop (jd_i d) str = c_lbracket # json_text t v @ json_more t True kvs @ rest"
      using assms(10) numbered by (simp add: json_key_text_def)
    have con: "container_of es = in_array" by (simp add: container_of_def numbered)
    have "\<exists>d'. reaches A F slots str ?d1 d' \<and> closes m ?d1 (jd_lua d @ [LTable ([] @ (k, v) # kvs)])
        (length (json_text t v) + length (json_more t True kvs)) d'"
    proof (rule takes_elements)
      show "\<forall>(k, v)\<in>set ((k, v) # kvs). reads_back A F slots str t v \<and> height v \<le> h \<and> v \<noteq> LNil"
        using assms(4) numbered(1) by blast
      show "drop (jd_i ?d1) str = json_text t v @ json_more t True kvs @ rest" using at_char(3) [OF drop] by simp
    qed (use numbered m con assms(7-9) aw in \<open>simp_all add: jd_gettop_def\<close>)
    then obtain d' where "reaches A F slots str ?d1 d'" "closes m ?d1 (jd_lua d @ [LTable es])
        (length (json_text t v) + length (json_more t True kvs)) d'" using numbered(1) by auto
    then show ?thesis
      using reaches_trans [OF square [OF drop con]] numbered
      by (intro exI [of _ d']) (simp add: closes_def json_key_text_def)
  next
    case (named k v kvs)
    let ?d1 = "?open (jd_pushes d) read_key"
    have drop: "drop (jd_i d) str = c_lbrace # json_key_text t False k @ json_text t v @ json_more t False kvs @ rest"
      using assms(10) named by simp
    have con: "container_of es = in_object" by (simp add: container_of_def named)
    have awk: "awake ?d1" by (rule aw)
    have "\<exists>d'. reaches A F slots str ?d1 d' \<and> closes m ?d1 (jd_lua d @ [LTable ([] @ (k, v) # kvs)])
        (length (json_key_text t False k) + length (json_text t v) + length (json_more t False kvs)) d'"
    proof (rule takes_members [OF assms(1,2)])
      show "\<forall>(k, v)\<in>set ((k, v) # kvs). reads_back A F slots str t v \<and> height v \<le> h \<and> v \<noteq> LNil \<and>
          (\<exists>bs. k = LStr bs \<and> list_all readable bs)"
        using assms(4) named(1,4) by fastforce
      show "drop (jd_i ?d1) str = json_key_text t False k @ json_text t v @ json_more t False kvs @ rest"
        using at_char(3) [OF drop] by simp
    qed (use named m con assms(7-9) awk in \<open>simp_all add: jd_gettop_def\<close>)
    then obtain d' where "reaches A F slots str ?d1 d'" "closes m ?d1 (jd_lua d @ [LTable es])
        (length (json_key_text t False k) + length (json_text t v) + length (json_more t False kvs)) d'"
      using named(1) by auto
    then show ?thesis
      using reaches_trans [OF curly [OF drop con]] named(1,3)
      by (intro exI [of _ d']) (simp add: closes_def)
  qed
qed

lemma plain_reads_back:
  assumes "reliable A" and "length str \<le> fmt_limit" and "\<forall>n. \<bar>n\<bar> < 2 ^ 53 \<longrightarrow> fmt_g t (LInt n) = decimal n"
  shows "plain v \<Longrightarrow> reads_back A F slots str t v"
proof (induction "height v" arbitrary: v rule: less_induct)
  case less
  show ?case
    unfolding reads_back_def
  proof (intro allI impI)
    fix d c rest
    assume aw: "awake d" and pos: "0 < jd_at d" and deep: "jd_at d + 2 * int (height v) < 29"
      and st: "jd_states d (jd_at d) = read_value" and drop: "drop (jd_i d) str = json_text t v @ c # rest"
      and c: "terminator c" and room: "jd_gettop d + 2 * height v + 1 \<le> slots"
    show "\<exists>d'. reaches A F slots str d d' \<and> took d v (length (json_text t v)) d'"
    proof (cases v)
      case (LBool b)
      have "json_text t v = cstr (if b then ''true'' else ''false'')" by (simp add: LBool)
      then show ?thesis
        using takes_word [OF aw pos st _ _, of str "if b then ''true'' else ''false''" c rest slots v A F] drop room LBool
        by (cases b) (simp_all add: cstr_def)
    next
      case (LInt n)
      then show ?thesis
        using takes_number [OF aw pos _ st _ c, of str n rest slots A F] drop room deep less.prems assms(3) by simp
    next
      case (LStr bs)
      then show ?thesis
        using takes_string [OF assms(1,2) aw pos _ st _ _ c, of bs rest slots F] drop room deep less.prems by simp
    next
      case (LTable es)
      let ?m = "jd_at d + 1"
      have m: "inside ?m" using aw by (simp add: awake_def inside_def)
      obtain h where h: "height v = Suc h" "\<forall>(k, v) \<in> set es. height v \<le> h"
        using height_entry [of _ _ es] LTable by (cases "height v") fastforce+
      have children: "\<forall>(k, v) \<in> set es. reads_back A F slots str t v \<and> height v \<le> h \<and> v \<noteq> LNil"
        using less.hyps less.prems height_entry [of _ _ es] h(2) LTable by (force simp: list_all_iff)
      let ?e = "d\<lparr>jd_at := ?m, jd_states := (jd_states d)(?m := container_of es)\<rparr>"
      obtain b more where b: "json_text t v = b # more" "b = (if container_of es = in_array then c_lbracket else c_lbrace)"
        using LTable by (cases es; cases "hd es") (auto simp: container_of_def)
      have drop0: "drop (jd_i d) str = b # more @ c # rest" using drop b(1) by simp
      have "decode_step A F slots str d = Some (Inr ?e)"
        using at_char [OF drop0] st m b(2)
        by (simp add: decode_step_def read_value_step_def jd_enter_def container_of_def)
      then have start: "reaches A F slots str d ?e" by (rule turn_at [OF aw drop0])
      have "\<exists>d'. reaches A F slots str ?e d' \<and>
          closes ?m ?e (jd_lua ?e @ [LTable es]) (length (json_text t (LTable es))) d'"
        by (rule reads_table [OF assms(1,2) _ children, where rest = "c # rest"])
          (use less.prems aw deep h(1) room drop LTable in \<open>simp_all add: awake_def jd_gettop_def\<close>)
      then obtain d' where d': "reaches A F slots str ?e d'"
          "closes ?m ?e (jd_lua d @ [LTable es]) (length (json_text t v)) d'" using LTable by auto
      then have at': "jd_at d' = jd_at d" "jd_states d' (jd_at d) = read_value" "awake d'"
          "jd_i d' = jd_i d + length (json_text t v)"
        using aw st by (simp_all add: closes_def awake_def)
      have "reaches A F slots str d' (jd_leave d')"
        using drop_more [OF drop] at' by (intro leave_turn [OF at'(3) _ _ c]) simp_all
      moreover have "took d v (length (json_text t v)) (jd_leave d')"
        using d'(2) at' pos LTable by (simp add: took_def closes_def jd_leave_def awake_def)
      ultimately show ?thesis using reaches_trans [OF start reaches_trans [OF d'(1)]] by blast
    qed (use less.prems in simp_all)
  qed
qed


lemma plain_uniform: "plain v \<Longrightarrow> uniform v"
proof (induction "height v" arbitrary: v rule: less_induct)
  case less
  show ?case
  proof (cases v)
    case (LTable es)
    have entries: "uniform v'" if "(k, v') \<in> set es" for k v'
      using less that height_entry [OF that] LTable by (auto simp: list_all_iff)
    have p: "plain (LTable es)" using less.prems LTable by simp
    have keys: "lua_isnum (fst (hd es)) \<or> \<not> lua_isnum k" if "(k, v') \<in> set es" for k v'
      using p
    proof (cases rule: plain_cases)
      case (named k0 v0 kvs)
      then have "\<exists>bs. k = LStr bs" using that by blast
      then show ?thesis by (auto simp: lua_isnum_def)
    qed (use that in simp_all)
    show ?thesis using LTable entries keys by (auto simp: list_all_iff)
  qed simp_all
qed

text \<open>
  C4. What the JSON encoder writes for a plain table, the JSON decoder reads back as the same table:
  strings of any bytes the encoder does not write in hexadecimal, booleans, integers of up to 53
  bits, arrays and objects, nested up to 14 deep.  The texts of the numbers are C's, and the Lua stack
  has two slots for each level of the table and two more.
\<close>

theorem json_roundtrip:
  assumes "plain (LTable es)" and "height (LTable es) \<le> 14"
    and "encode_steps (LTable es) \<le> n" and "length (json_text t (LTable es)) \<le> fmt_limit"
    and "\<forall>n. \<bar>n\<bar> < 2 ^ 53 \<longrightarrow> fmt_g t (LInt n) = decimal n"
    and "reliable A" and "reliable B" and "2 * height (LTable es) + 2 \<le> slots"
  shows "\<exists>bs. l_codec_json_encode n slots A t stk [LTable es] = Returns [LStr bs] \<and>
    l_codec_json_decode B F slots junk stk' [LStr bs] = Returns [LTable es]"
proof -
  let ?str = "json_text t (LTable es)"
  have deep: "1 + 2 * height (LTable es) \<le> slots" using assms(8) by linarith
  have enc: "l_codec_json_encode n slots A t stk [LTable es] = Returns [LStr ?str]"
    using encoded_table [OF plain_uniform [OF assms(1)] assms(3,4) deep, of A "stk(0 := 0)"] assms(6)
    by (auto simp: l_codec_json_encode_def encoded_def)
  obtain h where h: "height (LTable es) = Suc h" by (cases "height (LTable es)") simp_all
  have children: "\<forall>(k, v) \<in> set es. reads_back B F slots ?str t v \<and> height v \<le> h \<and> v \<noteq> LNil"
  proof clarify
    fix k v assume kv: "(k, v) \<in> set es"
    then have "plain v" using assms(1) by (auto simp: list_all_iff)
    then show "reads_back B F slots ?str t v \<and> height v \<le> h \<and> v \<noteq> LNil"
      using plain_reads_back [OF assms(7,4,5), of v F slots] height_entry [OF kv] h by auto
  qed
  let ?d = "decode_start junk stk' ?str"
  let ?e = "jd_become (container_of es) ?d"
  obtain b more where b: "?str = b # more" "b = (if container_of es = in_array then c_lbracket else c_lbrace)"
    by (cases es; cases "hd es") (auto simp: container_of_def)
  have wf: "dynstr_wf (init_on_stack (stk'(0 := 0)) 4096)" by (simp add: mem_limit_def)
  have aw: "awake ?d" "awake ?e" using wf by (simp_all add: awake_def decode_start_def jd_become_def)
  have drop: "drop (jd_i ?d) ?str = b # more" using b(1) by (simp add: decode_start_def)
  have "decode_step B F slots ?str ?d = Some (Inr ?e)"
    using at_char [OF drop] b(2)
    by (simp add: decode_step_def none_step_def decode_start_def container_of_def)
  then have start: "reaches B F slots ?str ?d ?e" by (rule turn_at [OF aw(1) drop])
  have "\<exists>d'. reaches B F slots ?str ?e d' \<and> closes 0 ?e (jd_lua ?e @ [LTable es]) (length ?str) d'"
    by (rule reads_table [OF assms(7,4,1) children aw(2), where rest = "[]"])
      (use assms(2,8) h in \<open>simp_all add: jd_become_def decode_start_def jd_gettop_def\<close>)
  then obtain d' where d': "reaches B F slots ?str ?e d'" "closes 0 ?e (jd_lua ?e @ [LTable es]) (length ?str) d'"
    by blast
  have "decode_loop B F slots ?str d' = Some (Inr d')"
    using d'(2) by (subst decode_loop.simps) (simp add: decode_more_def closes_def)
  then have "decode_loop B F slots ?str ?d = Some (Inr d')"
    using reaches_trans [OF start d'(1)] by (simp add: reaches_def)
  then have "l_codec_json_decode B F slots junk stk' [LStr ?str] = Returns [LTable es]"
    using d'(2) by (simp add: l_codec_json_decode_def json_decode_def andthen_def closes_def
        jd_gettop_def jd_become_def decode_start_def)
  then show ?thesis using enc by blast
qed

lemma decimal_texts: "fmt_g \<lparr>fmt_g = (\<lambda>v. case v of LInt n \<Rightarrow> decimal n | _ \<Rightarrow> []), key_text = k\<rparr> (LInt n) = decimal n"
  by simp

theorem json_roundtrip_witness:
  "\<exists>bs. l_codec_json_encode 9 6 (\<lambda>n. Some (\<lambda>i. 7)) \<lparr>fmt_g = (\<lambda>v. case v of LInt n \<Rightarrow> decimal n | _ \<Rightarrow> []), key_text = (\<lambda>v. [])\<rparr>
      (\<lambda>i. 5) [LTable [(LStr [97], LTable [(LInt 1, LInt (-7)), (LInt 2, LBool True)]), (LStr [0, 34], LStr [10, 200])]] =
      Returns [LStr bs] \<and>
    l_codec_json_decode (\<lambda>n. Some (\<lambda>i. 7)) \<lparr>real_number = (\<lambda>s n r q. n), float_key = (\<lambda>x. None)\<rparr> 6 (\<lambda>k. read_text)
      (\<lambda>i. 5) [LStr bs] =
      Returns [LTable [(LStr [97], LTable [(LInt 1, LInt (-7)), (LInt 2, LBool True)]), (LStr [0, 34], LStr [10, 200])]]"
  by (rule json_roundtrip)
    (simp_all add: readable_def lua_isnum_def reliable_def fmt_limit_def json_key_text_def key_bytes_def
      string_text_def string_chunk_def cstr_def decimal_def digits.simps upto.simps)

section \<open>More values than the Lua stack has slots for\<close>

text \<open>
  The decoder pushes a value for each string it meets between a bracket and a comma and never asks
  Lua for room: whatever the number of slots a C function is given, a text of twice that
  length makes it write behind them.
\<close>

lemma strings_overflow:
  assumes "reliable A" and "length str \<le> fmt_limit"
  shows "awake d \<Longrightarrow> jd_at d = 1 \<Longrightarrow> jd_states d 1 = read_value \<Longrightarrow> jd_gettop d + k = slots \<Longrightarrow>
    drop (jd_i d) str = concat (replicate (Suc k) (string_text [])) \<Longrightarrow>
    decode_loop A F slots str d = None"
proof (induction k arbitrary: d)
  case 0
  have drop: "drop (jd_i d) str = c_dquote # [c_dquote]" using 0 by (simp add: string_text_def)
  note here = at_char [OF drop]
  let ?d = "d\<lparr>jd_at := 2, jd_states := (jd_states d)(2 := read_text),
      jd_str := (jd_str d)\<lparr>ds_length := 0\<rparr>, jd_i := Suc (jd_i d)\<rparr>"
  have "decode_step A F slots str d = Some (Inr ?d)"
    using 0 here by (simp add: decode_step_def read_value_step_def enter_text_def jd_ops Let_def inside_def)
  then have "reaches A F slots str d ?d" by (rule turn_at [OF 0(1) drop])
  moreover have "decode_more str ?d" "str ! jd_i ?d = c_dquote"
    using 0 here at_char [OF here(3)] by (auto simp: decode_more_def awake_def)
  then have "decode_loop A F slots str ?d = None"
    using 0 by (subst decode_loop.simps) (simp add: decode_step_def read_text_step_def jd_ops)
  ultimately show ?case by (simp add: reaches_def)
next
  case (Suc k)
  have drop: "drop (jd_i d) str = string_text [] @ concat (replicate (Suc k) (string_text []))"
    using Suc.prems(5) by simp
  have "\<exists>s p st. reaches A F slots str d (d\<lparr>jd_i := jd_i d + length (string_text []), jd_str := s,
      jd_lua := jd_lua d @ [LStr []], jd_pushes := (jd_pushes d)(jd_at d := p),
      jd_states := (jd_states d)(jd_at d + 1 := st)\<rparr>) \<and> dynstr_wf s"
    by (rule reads_string [OF assms Suc.prems(1) _ _ _ drop]) (use Suc.prems(2-4) in simp_all)
  then obtain s p st where r: "reaches A F slots str d (d\<lparr>jd_i := jd_i d + length (string_text []), jd_str := s,
      jd_lua := jd_lua d @ [LStr []], jd_pushes := (jd_pushes d)(jd_at d := p),
      jd_states := (jd_states d)(jd_at d + 1 := st)\<rparr>)" "dynstr_wf s" by blast
  let ?d = "d\<lparr>jd_i := jd_i d + length (string_text []), jd_str := s,
      jd_lua := jd_lua d @ [LStr []], jd_pushes := (jd_pushes d)(jd_at d := p),
      jd_states := (jd_states d)(jd_at d + 1 := st)\<rparr>"
  have "decode_loop A F slots str ?d = None"
    using Suc.prems r(2) drop_more [OF drop] by (intro Suc.IH) (simp_all add: awake_def jd_gettop_def)
  then show ?case using r(1) by (simp add: reaches_def)
qed

text \<open>
  C30. The decoder writes behind any number of Lua stack slots.
\<close>

theorem json_decode_overflows:
  assumes "reliable A" and "2 \<le> slots" and "2 * slots \<le> fmt_limit"
  shows "l_codec_json_decode A F slots junk stk [LStr (c_lbracket # concat (replicate (slots - 1) (string_text [])))] =
    Fault"
proof -
  let ?str = "c_lbracket # concat (replicate (slots - 1) (string_text []))"
  have "length (concat (replicate k (string_text []))) = 2 * k" for k
    by (induction k) (simp_all add: string_text_def)
  then have len: "length ?str \<le> fmt_limit" using assms by simp
  let ?d = "decode_start junk stk ?str"
  have wf: "dynstr_wf (init_on_stack (stk(0 := 0)) 4096)" by (simp add: mem_limit_def)
  let ?e = "jd_become in_array ?d"
  have aw: "awake ?d" "awake ?e" using wf by (simp_all add: awake_def decode_start_def jd_become_def)
  have drop: "drop (jd_i ?d) ?str = c_lbracket # concat (replicate (slots - 1) (string_text []))"
      "drop (jd_i ?e) ?str = c_lbracket # concat (replicate (slots - 1) (string_text []))"
    by (simp_all add: decode_start_def jd_become_def)
  have "decode_step A F slots ?str ?d = Some (Inr ?e)"
    using at_char [OF drop(1)] by (simp add: decode_step_def none_step_def decode_start_def)
  then have first: "reaches A F slots ?str ?d ?e" by (rule turn_at [OF aw(1) drop(1)])
  let ?f = "?e\<lparr>jd_lua := [LStr ?str, LTable []], jd_top := (\<lambda>k. 0)(0 := Suc (Suc 0)), jd_pushes := (\<lambda>k. 0)(0 := 0),
    jd_at := 1, jd_states := (jd_states ?e)(1 := read_value), jd_i := 1\<rparr>"
  have "decode_step A F slots ?str ?e = Some (Inr ?f)"
    using at_char [OF drop(2)] assms(2)
    by (simp add: decode_step_def in_array_step_def jd_ops decode_start_def inside_def)
  then have second: "reaches A F slots ?str ?e ?f" by (rule turn_at [OF aw(2) drop(2)])
  have "decode_loop A F slots ?str ?f = None"
    using assms(2) aw(2)
    by (intro strings_overflow [OF assms(1) len, where k = "slots - 2"])
      (simp_all add: awake_def jd_gettop_def Suc_diff_Suc numeral_2_eq_2)
  then show ?thesis
    using reaches_trans [OF first second]
    by (simp add: reaches_def l_codec_json_decode_def json_decode_def andthen_def)
qed

theorem json_decode_overflows_witness:
  "l_codec_json_decode (\<lambda>n. Some (\<lambda>i. 7)) \<lparr>real_number = (\<lambda>s n r q. n), float_key = (\<lambda>x. None)\<rparr> 21 (\<lambda>k. read_text)
    (\<lambda>i. 5) [LStr (c_lbracket # concat (replicate (21 - 1) (string_text [])))] = Fault"
  by (rule json_decode_overflows) (simp_all add: reliable_def fmt_limit_def)

end
