(* ===== verification/Http_Headers.thy ===== *)
theory Http_Headers
  imports Codec_Text
begin

text \<open>
  \<open>l_net_parse_http_headers\<close> of \<^verbatim>\<open>src/80s/lua_net.c\<close>: the request line and the headers of a
  request as a Lua table.  The parser keeps a begin and an end pointer for each part, here offsets
  into the text, and lower-cases header names in place, in the bytes of the Lua string.
\<close>

datatype parse_state =
    read_status_code
  | read_status_code_spaces_after
  | read_status_message
  | read_status_message_spaces_after
  | read_status_http_version
  | read_header_end
  | read_header_key
  | read_header_mid
  | read_header_value

record header_parser =
  hp_text :: "byte list"
  hp_state :: parse_state
  hp_key :: "nat \<times> nat"
  hp_value :: "nat \<times> nat"
  hp_code :: "nat \<times> nat"
  hp_message :: "nat \<times> nat"
  hp_http :: "nat \<times> nat"
  hp_table :: "(lua_value \<times> lua_value) list"

definition header_start :: "byte list \<Rightarrow> header_parser" where
  "header_start txt =
     \<lparr>hp_text = txt, hp_state = read_status_code, hp_key = (0, 0), hp_value = (0, 0), hp_code = (0, 0),
      hp_message = (0, 0), hp_http = (0, 0), hp_table = []\<rparr>"

text \<open>
  \<open>lua_pushlstring(L, begin, end - begin + 1)\<close>: the bytes from \<open>begin\<close> to \<open>end\<close>; the string and
  the NUL behind it can be read.
\<close>

definition header_slice :: "header_parser \<Rightarrow> nat \<times> nat \<Rightarrow> lua_value option" where
  "header_slice p be =
     (let n = snd be + 1 - fst be in
      if snd be + 1 < fst be \<or> length (hp_text p) + 1 < fst be + n then None
      else Some (LStr (take n (drop (fst be) (hp_text p @ [0])))))"

definition header_set :: "lua_value \<Rightarrow> nat \<times> nat \<Rightarrow> header_parser \<Rightarrow> header_parser option" where
  "header_set k be p =
     map_option (\<lambda>v. p\<lparr>hp_table := table_set (hp_table p) k v\<rparr>) (header_slice p be)"

text \<open>The three parts of the request line, at its end.\<close>

definition newline_step :: "header_parser \<Rightarrow> header_parser option" where
  "newline_step p =
     (if hp_state p = read_status_http_version then
        Option.bind (header_set (LStr (cstr '':method'')) (hp_code p) p) (\<lambda>p1.
        Option.bind (header_set (LStr (cstr '':script'')) (hp_message p1) p1) (\<lambda>p2.
        Option.bind (header_set (LStr (cstr '':http'')) (hp_http p2) p2) (\<lambda>p3.
        Some (p3\<lparr>hp_state := read_header_end\<rparr>))))
      else Some p)"

definition space_step :: "nat \<Rightarrow> header_parser \<Rightarrow> header_parser" where
  "space_step i p =
     (case hp_state p of
        read_header_key \<Rightarrow> p\<lparr>hp_key := (fst (hp_key p), i)\<rparr>
      | read_header_value \<Rightarrow> p\<lparr>hp_value := (fst (hp_value p), i)\<rparr>
      | read_status_code \<Rightarrow> p\<lparr>hp_state := read_status_code_spaces_after\<rparr>
      | read_status_message \<Rightarrow> p\<lparr>hp_state := read_status_message_spaces_after\<rparr>
      | read_status_http_version \<Rightarrow> p\<lparr>hp_http := (fst (hp_http p), i)\<rparr>
      | _ \<Rightarrow> p)"

text \<open>What a colon and any other character have in common: the request line and the value.\<close>

definition part_step :: "nat \<Rightarrow> header_parser \<Rightarrow> header_parser" where
  "part_step i p =
     (case hp_state p of
        read_header_value \<Rightarrow> p\<lparr>hp_value := (fst (hp_value p), i)\<rparr>
      | read_status_code \<Rightarrow> p\<lparr>hp_code := (fst (hp_code p), i)\<rparr>
      | read_status_message \<Rightarrow> p\<lparr>hp_message := (fst (hp_message p), i)\<rparr>
      | read_status_http_version \<Rightarrow> p\<lparr>hp_http := (fst (hp_http p), i)\<rparr>
      | read_status_code_spaces_after \<Rightarrow> p\<lparr>hp_message := (i, i), hp_state := read_status_message\<rparr>
      | read_status_message_spaces_after \<Rightarrow> p\<lparr>hp_http := (i, i), hp_state := read_status_http_version\<rparr>
      | _ \<Rightarrow> p)"

definition colon_step :: "nat \<Rightarrow> header_parser \<Rightarrow> header_parser" where
  "colon_step i p =
     (if hp_state p = read_header_key then p\<lparr>hp_state := read_header_mid\<rparr> else part_step i p)"

definition header_flush :: "header_parser \<Rightarrow> header_parser option" where
  "header_flush p =
     (if fst (hp_key p) < snd (hp_key p) \<and> fst (hp_value p) < snd (hp_value p) then
        Option.bind (header_slice p (hp_key p)) (\<lambda>k.
        Option.bind (header_slice p (hp_value p)) (\<lambda>v.
        Some (p\<lparr>hp_table := table_set (hp_table p) k v\<rparr>)))
      else Some p)"

definition lower_char :: "byte \<Rightarrow> byte" where
  "lower_char c = (if 65 \<le> sint c \<and> sint c \<le> 90 then c + 32 else c)"

definition lower_at :: "nat \<Rightarrow> header_parser \<Rightarrow> header_parser" where
  "lower_at i p = p\<lparr>hp_text := (hp_text p)[i := lower_char (hp_text p ! i)]\<rparr>"

definition char_step :: "nat \<Rightarrow> header_parser \<Rightarrow> header_parser option" where
  "char_step i p =
     (case hp_state p of
        read_header_end \<Rightarrow>
          Option.bind (header_flush p) (\<lambda>p1.
            Some ((lower_at i p1)\<lparr>hp_key := (i, i), hp_value := (i, i), hp_state := read_header_key\<rparr>))
      | read_header_mid \<Rightarrow> Some (p\<lparr>hp_value := (i, i), hp_state := read_header_value\<rparr>)
      | read_header_key \<Rightarrow> Some ((lower_at i p)\<lparr>hp_key := (fst (hp_key p), i)\<rparr>)
      | _ \<Rightarrow> Some (part_step i p))"

definition header_step :: "nat \<Rightarrow> header_parser \<Rightarrow> header_parser option" where
  "header_step i p =
     (let c = hp_text p ! i in
      if c = c_cr \<or> c = c_lf then newline_step p
      else if c = c_space then Some (space_step i p)
      else if c = c_colon then Some (colon_step i p)
      else char_step i p)"

primrec header_loop :: "nat list \<Rightarrow> header_parser \<Rightarrow> header_parser option" where
  "header_loop [] p = Some p"
| "header_loop (i # is) p = Option.bind (header_step i p) (header_loop is)"

definition l_net_parse_http_headers :: "lua_value list \<Rightarrow> lua_result" where
  "l_net_parse_http_headers args =
     (case args of
        LStr txt # rest \<Rightarrow>
          (case Option.bind (header_loop [0..<length txt] (header_start txt)) header_flush of
             None \<Rightarrow> Fault | Some p \<Rightarrow> Returns [LTable (hp_table p)])
      | _ \<Rightarrow> LuaError ''expecting 1 argument: header (string)'')"

section \<open>Every text is parsed\<close>

definition part_ok :: "nat \<Rightarrow> nat \<times> nat \<Rightarrow> bool" where
  "part_ok n be \<longleftrightarrow> fst be \<le> snd be \<and> snd be \<le> n"

definition parser_ok :: "nat \<Rightarrow> header_parser \<Rightarrow> bool" where
  "parser_ok n p \<longleftrightarrow> n \<le> length (hp_text p) \<and> part_ok n (hp_key p) \<and> part_ok n (hp_value p) \<and>
     part_ok n (hp_code p) \<and> part_ok n (hp_message p) \<and> part_ok n (hp_http p)"

lemma slice_some: "part_ok n be \<Longrightarrow> n \<le> length (hp_text p) \<Longrightarrow> \<exists>bs. header_slice p be = Some (LStr bs)"
  by (auto simp: part_ok_def header_slice_def)

lemma set_some: "part_ok n be \<Longrightarrow> n \<le> length (hp_text p) \<Longrightarrow>
    \<exists>tab. header_set k be p = Some (p\<lparr>hp_table := tab\<rparr>)"
  using slice_some [of n be p] by (auto simp: header_set_def)

lemma flush_some: "parser_ok n p \<Longrightarrow> \<exists>tab. header_flush p = Some (p\<lparr>hp_table := tab\<rparr>)"
proof (cases "fst (hp_key p) < snd (hp_key p) \<and> fst (hp_value p) < snd (hp_value p)")
  case False
  then have "header_flush p = Some (p\<lparr>hp_table := hp_table p\<rparr>)" by (auto simp: header_flush_def)
  then show ?thesis ..
next
  case True
  assume ok: "parser_ok n p"
  then obtain k v where "header_slice p (hp_key p) = Some k" "header_slice p (hp_value p) = Some v"
    using slice_some by (metis parser_ok_def)
  then have "header_flush p = Some (p\<lparr>hp_table := table_set (hp_table p) k v\<rparr>)"
    using True by (simp add: header_flush_def)
  then show ?thesis ..
qed

lemma newline_some:
  assumes "parser_ok n p"
  shows "\<exists>tab st. newline_step p = Some (p\<lparr>hp_table := tab, hp_state := st\<rparr>)"
proof (cases "hp_state p = read_status_http_version")
  case True
  have len: "n \<le> length (hp_text p)" and parts: "part_ok n (hp_code p)" "part_ok n (hp_message p)" "part_ok n (hp_http p)"
    using assms by (simp_all add: parser_ok_def)
  obtain t1 where 1: "header_set (LStr (cstr '':method'')) (hp_code p) p = Some (p\<lparr>hp_table := t1\<rparr>)"
    using set_some [OF parts(1) len] by blast
  obtain t2 where 2: "header_set (LStr (cstr '':script'')) (hp_message p) (p\<lparr>hp_table := t1\<rparr>) =
      Some (p\<lparr>hp_table := t2\<rparr>)"
    using set_some [OF parts(2), of "p\<lparr>hp_table := t1\<rparr>"] len by fastforce
  obtain t3 where 3: "header_set (LStr (cstr '':http'')) (hp_http p) (p\<lparr>hp_table := t2\<rparr>) =
      Some (p\<lparr>hp_table := t3\<rparr>)"
    using set_some [OF parts(3), of "p\<lparr>hp_table := t2\<rparr>"] len by fastforce
  have "newline_step p = Some (p\<lparr>hp_table := t3, hp_state := read_header_end\<rparr>)"
    using True 1 2 3 by (simp add: newline_step_def)
  then show ?thesis by blast
next
  case False
  then have "newline_step p = Some (p\<lparr>hp_table := hp_table p, hp_state := hp_state p\<rparr>)"
    by (simp add: newline_step_def)
  then show ?thesis by blast
qed

lemma part_ok_Suc: "part_ok n be \<Longrightarrow> part_ok (Suc n) be"
  by (simp add: part_ok_def)

lemma part_ok_end: "part_ok n be \<Longrightarrow> part_ok (Suc n) (fst be, n)" "part_ok (Suc n) (n, n)"
  by (simp_all add: part_ok_def)

lemma header_step_ok:
  assumes "parser_ok i p" and "i < length (hp_text p)"
  shows "\<exists>p'. header_step i p = Some p' \<and> parser_ok (Suc i) p' \<and> length (hp_text p') = length (hp_text p)"
proof -
  have suc: "parser_ok (Suc i) p" using assms by (auto simp: parser_ok_def part_ok_Suc)
  obtain t where flush: "header_flush p = Some (p\<lparr>hp_table := t\<rparr>)" using flush_some [OF assms(1)] by blast
  obtain t' st where nl: "newline_step p = Some (p\<lparr>hp_table := t', hp_state := st\<rparr>)"
    using newline_some [OF assms(1)] by blast
  have part: "parser_ok (Suc i) (part_step i p) \<and> length (hp_text (part_step i p)) = length (hp_text p)"
    using assms suc by (cases "hp_state p") (auto simp: part_step_def parser_ok_def part_ok_end)
  have space: "parser_ok (Suc i) (space_step i p) \<and> length (hp_text (space_step i p)) = length (hp_text p)"
    using assms suc by (cases "hp_state p") (auto simp: space_step_def parser_ok_def part_ok_end)
  have colon: "parser_ok (Suc i) (colon_step i p) \<and> length (hp_text (colon_step i p)) = length (hp_text p)"
    using part suc by (auto simp: colon_step_def parser_ok_def)
  have char: "\<exists>p'. char_step i p = Some p' \<and> parser_ok (Suc i) p' \<and> length (hp_text p') = length (hp_text p)"
    using assms suc flush part
    by (cases "hp_state p") (auto simp: char_step_def lower_at_def parser_ok_def part_ok_end)
  show ?thesis
    using nl suc space colon char by (auto simp: header_step_def Let_def parser_ok_def)
qed

lemma header_loop_ok:
  "parser_ok i p \<Longrightarrow> length (hp_text p) = n \<Longrightarrow> i \<le> n \<Longrightarrow>
    \<exists>p'. header_loop [i..<n] p = Some p' \<and> parser_ok n p'"
proof (induction "n - i" arbitrary: i p)
  case (Suc k)
  then have less: "i < n" by simp
  then obtain p' where "header_step i p = Some p'" "parser_ok (Suc i) p'" "length (hp_text p') = n"
    using header_step_ok [OF Suc.prems(1)] Suc.prems(2) by auto
  then show ?case using Suc.hyps(1) [of "Suc i" p'] Suc.hyps(2) less by (auto simp: upt_conv_Cons)
qed simp

lemma parse_http_headers_total:
  "\<exists>es. l_net_parse_http_headers (LStr txt # rest) = Returns [LTable es]"
proof -
  have "parser_ok 0 (header_start txt)" by (simp add: parser_ok_def header_start_def part_ok_def)
  then obtain p where "header_loop [0..<length txt] (header_start txt) = Some p" "parser_ok (length txt) p"
    using header_loop_ok [of 0 "header_start txt" "length txt"] by (auto simp: header_start_def)
  then show ?thesis
    using flush_some [of "length txt" p] by (auto simp: l_net_parse_http_headers_def)
qed

section \<open>What a request gives\<close>

definition word_char :: "byte \<Rightarrow> bool" where
  "word_char c \<longleftrightarrow> c \<noteq> c_cr \<and> c \<noteq> c_lf \<and> c \<noteq> c_space"

definition newline_char :: "byte \<Rightarrow> bool" where
  "newline_char c \<longleftrightarrow> c = c_cr \<or> c = c_lf"

text \<open>A text without the line ends at its end.\<close>

definition strip_lines :: "byte list \<Rightarrow> byte list" where
  "strip_lines v = rev (dropWhile newline_char (rev v))"

lemma header_loop_append: "header_loop (xs @ ys) p = Option.bind (header_loop xs p) (header_loop ys)"
  by (induction xs arbitrary: p) (auto split: Option.bind_splits)

lemma header_loop_single: "header_loop [i] = header_step i"
proof
  show "header_loop [i] p = header_step i p" for p by (cases "header_step i p") simp_all
qed

lemma header_loop_split: "i \<le> j \<Longrightarrow> j \<le> k \<Longrightarrow> header_loop [i..<j] p = Some p' \<Longrightarrow>
    header_loop [i..<k] p = header_loop [j..<k] p'"
  using upt_add_eq_append [of i j "k - j"] by (simp add: header_loop_append)

lemma header_loop_first: "i < k \<Longrightarrow> header_step i p = Some p' \<Longrightarrow>
    header_loop [i..<k] p = header_loop [Suc i..<k] p'"
  by (simp add: upt_conv_Cons)

definition in_part :: "header_parser \<Rightarrow> bool" where
  "in_part p \<longleftrightarrow> hp_state p \<in> {read_status_code, read_status_message, read_status_http_version}"

lemma part_step_in_part: "in_part p \<Longrightarrow> in_part (part_step i p) \<and> hp_text (part_step i p) = hp_text p \<and>
    part_step j (part_step i p) = part_step j p"
  by (auto simp: in_part_def part_step_def)

lemma word_step: "word_char (hp_text p ! i) \<Longrightarrow> in_part p \<Longrightarrow> header_step i p = Some (part_step i p)"
  by (auto simp: header_step_def word_char_def in_part_def colon_step_def char_step_def Let_def)

lemma run_word:
  assumes "in_part p" and "\<And>j. i \<le> j \<Longrightarrow> j < i + n \<Longrightarrow> word_char (hp_text p ! j)" and "0 < n"
  shows "header_loop [i..<i + n] p = Some (part_step (i + n - 1) p)"
  using assms
proof (induction n)
  case (Suc n)
  show ?case
  proof (cases n)
    case 0
    then show ?thesis using word_step [of p i] Suc.prems by simp
  next
    case (Suc m)
    have "header_loop [i..<i + n] p = Some (part_step (i + n - 1) p)"
      using Suc.IH Suc.prems \<open>n = Suc m\<close> by simp
    moreover have "header_step (i + n) (part_step (i + n - 1) p) = Some (part_step (i + n) p)"
      using word_step [of "part_step (i + n - 1) p" "i + n"] part_step_in_part [OF Suc.prems(1)] Suc.prems(2) by simp
    ultimately show ?thesis by (simp add: header_loop_append)
  qed
qed simp

text \<open>Inside a value every character but a line end moves its end.\<close>

lemma value_step:
  assumes "hp_state p = read_header_value"
  shows "header_step i p = Some (if newline_char (hp_text p ! i) then p else p\<lparr>hp_value := (fst (hp_value p), i)\<rparr>)"
  using assms by (auto simp: header_step_def newline_char_def newline_step_def space_step_def colon_step_def
      char_step_def part_step_def Let_def)

lemma strip_lines_snoc: "strip_lines (v @ [c]) = (if newline_char c then strip_lines v else v @ [c])"
  by (simp add: strip_lines_def)

lemma run_value:
  assumes "hp_state p = read_header_value" and "hp_value p = (i, i)" and "v \<noteq> []" and "\<not> newline_char (hd v)"
    and "\<And>j. j < length v \<Longrightarrow> hp_text p ! (i + j) = v ! j"
  shows "header_loop [Suc i..<i + length v] p = Some (p\<lparr>hp_value := (i, i + length (strip_lines v) - 1)\<rparr>)"
  using assms(3-)
proof (induction v rule: rev_induct)
  case (snoc c v)
  show ?case
  proof (cases "v = []")
    case True
    have "p\<lparr>hp_value := (i, i)\<rparr> = p" using assms(2) by (cases p) simp
    then show ?thesis using snoc.prems True by (simp add: strip_lines_def)
  next
    case False
    have IH: "header_loop [Suc i..<i + length v] p = Some (p\<lparr>hp_value := (i, i + length (strip_lines v) - 1)\<rparr>)"
    proof (rule snoc.IH [OF False])
      show "\<not> newline_char (hd v)" using snoc.prems False by simp
      show "\<And>j. j < length v \<Longrightarrow> hp_text p ! (i + j) = v ! j"
        using snoc.prems(3) by (simp add: nth_append split: if_splits)
    qed
    have c: "hp_text p ! (i + length v) = c" using snoc.prems(3) [of "length v"] by simp
    have "header_loop [Suc i..<i + length (v @ [c])] p =
        Option.bind (header_loop [Suc i..<i + length v] p) (header_step (i + length v))"
      using False by (cases v) (simp_all add: header_loop_append header_loop_single)
    then show ?thesis
      using IH c assms(1) value_step [of "p\<lparr>hp_value := (i, i + length (strip_lines v) - 1)\<rparr>" "i + length v"]
      by (simp add: strip_lines_snoc)
  qed
qed simp

text \<open>A header name, lower-cased in place.\<close>

definition name_char :: "byte \<Rightarrow> bool" where
  "name_char c \<longleftrightarrow> word_char c \<and> c \<noteq> c_colon"

lemma name_step:
  assumes "name_char (hp_text p ! i)" and "hp_state p = read_header_key"
  shows "header_step i p = Some ((lower_at i p)\<lparr>hp_key := (fst (hp_key p), i)\<rparr>)"
  using assms by (auto simp: header_step_def name_char_def word_char_def char_step_def Let_def)

lemma run_name:
  assumes "hp_state p = read_header_key" and "hp_text p = pre @ ks @ post" and "list_all name_char ks"
    and "hp_key p = (k, length pre - 1)"
  shows "header_loop [length pre..<length pre + length ks] p =
    Some (p\<lparr>hp_text := pre @ map lower_char ks @ post, hp_key := (k, length pre + length ks - 1)\<rparr>)"
  using assms
proof (induction ks arbitrary: pre p)
  case Nil
  then have "p\<lparr>hp_text := pre @ post, hp_key := (k, length pre - 1)\<rparr> = p" by (cases p) simp
  then show ?case by simp
next
  case (Cons c ks)
  have at: "hp_text p ! length pre = c" using Cons.prems(2) by simp
  let ?p = "p\<lparr>hp_text := (pre @ [lower_char c]) @ ks @ post, hp_key := (k, length pre)\<rparr>"
  have "header_step (length pre) p = Some ?p"
    using name_step [of p "length pre"] Cons.prems at by (simp add: lower_at_def list_update_append)
  then have "header_loop [length pre..<length pre + length (c # ks)] p =
      header_loop [Suc (length pre)..<length pre + length (c # ks)] ?p"
    by (intro header_loop_first) simp_all
  also have "\<dots> = header_loop [length (pre @ [lower_char c])..<length (pre @ [lower_char c]) + length ks] ?p" by simp
  also have "\<dots> = Some (?p\<lparr>hp_text := (pre @ [lower_char c]) @ map lower_char ks @ post,
      hp_key := (k, length (pre @ [lower_char c]) + length ks - 1)\<rparr>)"
    using Cons.prems by (intro Cons.IH) simp_all
  finally show ?case by simp
qed


lemma header_slice_text:
  assumes "hp_text p = pre @ xs @ post" and "xs \<noteq> []"
  shows "header_slice p (length pre, length pre + length xs - 1) = Some (LStr xs)"
  using assms by (cases xs) (auto simp: header_slice_def)

lemma header_set_text:
  assumes "hp_text p = pre @ xs @ post" and "xs \<noteq> []" and "be = (length pre, length pre + length xs - 1)"
  shows "header_set k be p = Some (p\<lparr>hp_table := table_set (hp_table p) k (LStr xs)\<rparr>)"
  using header_slice_text [OF assms(1,2)] assms(3) by (simp add: header_set_def)

definition request_line :: "byte list \<Rightarrow> byte list \<Rightarrow> byte list \<Rightarrow> byte list" where
  "request_line m s h = m @ c_space # s @ c_space # h @ [c_cr, c_lf]"

definition request_table :: "byte list \<Rightarrow> byte list \<Rightarrow> byte list \<Rightarrow> (lua_value \<times> lua_value) list" where
  "request_table m s h =
     [(LStr (cstr '':method''), LStr m), (LStr (cstr '':script''), LStr s), (LStr (cstr '':http''), LStr h)]"

lemma word_run:
  assumes "in_part p" and "hp_text p = pre @ xs @ post" and "list_all word_char xs" and "xs \<noteq> []"
  shows "header_loop [length pre..<length pre + length xs] p = Some (part_step (length pre + length xs - 1) p)"
proof (rule run_word [OF assms(1)])
  fix j assume "length pre \<le> j" "j < length pre + length xs"
  then have "\<not> j < length pre" "j - length pre < length xs" by simp_all
  then show "word_char (hp_text p ! j)"
    using assms(2,3) by (simp add: nth_append list_all_length)
qed (use assms(4) in simp)

text \<open>After a space, the first character of the next word opens its part.\<close>

lemma open_word:
  assumes "hp_state p = read_status_code_spaces_after \<or> hp_state p = read_status_message_spaces_after"
    and "word_char (hp_text p ! i)"
  shows "header_step i p = Some (part_step i p)"
  using assms by (auto simp: header_step_def word_char_def colon_step_def char_step_def Let_def)

lemma next_word:
  assumes "hp_state p = read_status_code \<and> q = p\<lparr>hp_message := (Suc (length pre), Suc (length pre)), hp_state := read_status_message\<rparr> \<or>
      hp_state p = read_status_message \<and> q = p\<lparr>hp_http := (Suc (length pre), Suc (length pre)), hp_state := read_status_http_version\<rparr>"
    and "hp_text p = pre @ c_space # xs @ post" and "list_all word_char xs" and "xs \<noteq> []"
  shows "header_loop [length pre..<length pre + 1 + length xs] p = Some (part_step (length pre + length xs) q)"
proof -
  let ?i = "length pre"
  let ?p1 = "space_step ?i p"
  have sp: "hp_text p ! ?i = c_space" using assms(2) by simp
  then have 1: "header_step ?i p = Some ?p1" by (simp add: header_step_def)
  obtain x ys where xs: "xs = x # ys" using assms(4) by (cases xs) auto
  have p1: "hp_text ?p1 = hp_text p" using assms(1) by (auto simp: space_step_def)
  have "hp_text p ! Suc ?i = x" using assms(2) xs by (simp add: nth_append)
  then have "word_char (hp_text ?p1 ! Suc ?i)" using p1 assms(3) xs by simp
  then have "header_step (Suc ?i) ?p1 = Some (part_step (Suc ?i) ?p1)"
    using assms(1) by (intro open_word) (auto simp: space_step_def)
  moreover have "part_step (Suc ?i) ?p1 = q" using assms(1) by (auto simp: space_step_def part_step_def)
  ultimately have 2: "header_step (Suc ?i) ?p1 = Some q" by simp
  have q: "in_part q" "hp_text q = hp_text p" using assms(1) by (auto simp: in_part_def)
  have start: "header_loop [?i..<?i + 1 + length xs] p = header_loop [Suc (Suc ?i)..<?i + 1 + length xs] q"
    using header_loop_first [OF _ 1, of "?i + 1 + length xs"] header_loop_first [OF _ 2, of "?i + 1 + length xs"]
      assms(4) by simp
  show ?thesis
  proof (cases "ys = []")
    case True
    then have "header_loop [?i..<?i + 1 + length xs] p = Some q" using start xs by simp
    moreover have "part_step (length pre + length xs) q = q"
      using assms(1) True xs by (auto simp: part_step_def)
    ultimately show ?thesis by simp
  next
    case False
    have "hp_text q = (pre @ [c_space, x]) @ ys @ post" using q assms(2) xs by simp
    from word_run [OF q(1) this _ False] start xs assms(3) show ?thesis by simp
  qed
qed

lemma request_line_run:
  assumes "list_all word_char m" and "m \<noteq> []" and "list_all word_char s" and "s \<noteq> []"
    and "list_all word_char h" and "h \<noteq> []"
  shows "header_loop [0..<length (request_line m s h)] (header_start (request_line m s h @ rest)) =
    Some \<lparr>hp_text = request_line m s h @ rest, hp_state = read_header_end, hp_key = (0, 0), hp_value = (0, 0),
      hp_code = (0, length m - 1), hp_message = (length m + 1, length m + length s),
      hp_http = (length m + length s + 2, length m + length s + length h + 1), hp_table = request_table m s h\<rparr>"
proof -
  let ?txt = "request_line m s h @ rest"
  let ?n = "length (request_line m s h)"
  have len: "?n = length m + length s + length h + 4" by (simp add: request_line_def)
  let ?p0 = "header_start ?txt"
  let ?p1 = "?p0\<lparr>hp_code := (0, length m - 1)\<rparr>"
  have "header_loop [0..<length m] ?p0 = Some (part_step (length m - 1) ?p0)"
    using word_run [of ?p0 "[]" m "c_space # s @ c_space # h @ [c_cr, c_lf] @ rest"] assms(1,2)
    by (simp add: header_start_def in_part_def request_line_def)
  then have r1: "header_loop [0..<length m] ?p0 = Some ?p1"
    by (simp add: part_step_def header_start_def)
  let ?q = "?p1\<lparr>hp_message := (Suc (length m), Suc (length m)), hp_state := read_status_message\<rparr>"
  let ?p2 = "?p1\<lparr>hp_message := (length m + 1, length m + length s), hp_state := read_status_message\<rparr>"
  have "header_loop [length m..<length m + 1 + length s] ?p1 = Some (part_step (length m + length s) ?q)"
    by (rule next_word [where post = "c_space # h @ [c_cr, c_lf] @ rest"])
      (use assms(3,4) in \<open>simp_all add: header_start_def request_line_def\<close>)
  then have r2: "header_loop [length m..<length m + 1 + length s] ?p1 = Some ?p2"
    by (simp add: part_step_def header_start_def)
  let ?k = "length m + 1 + length s"
  let ?q' = "?p2\<lparr>hp_http := (Suc ?k, Suc ?k), hp_state := read_status_http_version\<rparr>"
  let ?p3 = "?p2\<lparr>hp_http := (length m + length s + 2, length m + length s + length h + 1),
      hp_state := read_status_http_version\<rparr>"
  have "header_loop [length (m @ c_space # s)..<length (m @ c_space # s) + 1 + length h] ?p2 =
      Some (part_step (length (m @ c_space # s) + length h) ?q')"
    by (rule next_word [where post = "[c_cr, c_lf] @ rest"])
      (use assms(5,6) in \<open>simp_all add: header_start_def request_line_def\<close>)
  then have r3: "header_loop [?k..<?k + 1 + length h] ?p2 = Some ?p3"
    by (simp add: part_step_def header_start_def)
  let ?j = "?k + 1 + length h"
  have eqs: "?txt = [] @ m @ (c_space # s @ c_space # h @ [c_cr, c_lf] @ rest)"
      "?txt = (m @ [c_space]) @ s @ (c_space # h @ [c_cr, c_lf] @ rest)"
      "?txt = (m @ c_space # s @ [c_space]) @ h @ ([c_cr, c_lf] @ rest)"
      "?txt = (m @ c_space # s @ c_space # h) @ c_cr # c_lf # rest" by (simp_all add: request_line_def)
  let ?p4 = "?p3\<lparr>hp_table := request_table m s h, hp_state := read_header_end\<rparr>"
  have s1: "header_set (LStr (cstr '':method'')) (hp_code ?p3) ?p3 =
      Some (?p3\<lparr>hp_table := [(LStr (cstr '':method''), LStr m)]\<rparr>)" (is "_ = Some ?t1")
    using header_set_text [OF _ assms(2), of ?p3 "[]"] eqs(1) by (simp add: header_start_def)
  have s2: "header_set (LStr (cstr '':script'')) (hp_message ?p3) ?t1 =
      Some (?p3\<lparr>hp_table := [(LStr (cstr '':method''), LStr m), (LStr (cstr '':script''), LStr s)]\<rparr>)" (is "_ = Some ?t2")
    using header_set_text [OF _ assms(4), of ?t1 "m @ [c_space]"] eqs(2) by (simp add: header_start_def cstr_def)
  have s3: "header_set (LStr (cstr '':http'')) (hp_http ?p3) ?t2 = Some (?p3\<lparr>hp_table := request_table m s h\<rparr>)"
    using header_set_text [OF _ assms(6), of ?t2 "m @ c_space # s @ [c_space]"] eqs(3)
    by (simp add: header_start_def cstr_def request_table_def)
  have cr: "?txt ! ?j = c_cr" "?txt ! Suc ?j = c_lf"
    unfolding eqs(4) by (simp_all add: nth_append)
  have r4: "header_step ?j ?p3 = Some ?p4"
    using s1 s2 s3 cr by (simp add: header_step_def newline_step_def header_start_def)
  have r5: "header_step (Suc ?j) ?p4 = Some ?p4"
    using cr by (simp add: header_step_def newline_step_def header_start_def)
  have "header_loop [0..<?n] ?p0 = header_loop [length m..<?n] ?p1"
    by (rule header_loop_split [OF _ _ r1]) (simp_all add: len)
  also have "\<dots> = header_loop [?k..<?n] ?p2" by (rule header_loop_split [OF _ _ r2]) (simp_all add: len)
  also have "\<dots> = header_loop [?j..<?n] ?p3" by (rule header_loop_split [OF _ _ r3]) (simp_all add: len)
  also have "\<dots> = header_loop [Suc ?j..<?n] ?p4" by (rule header_loop_first [OF _ r4]) (simp add: len)
  also have "\<dots> = header_loop [Suc (Suc ?j)..<?n] ?p4" by (rule header_loop_first [OF _ r5]) (simp add: len)
  also have "\<dots> = Some ?p4" by (simp add: len)
  finally show ?thesis by (simp add: header_start_def)
qed


lemma strip_lines_prefix: "\<exists>ends. v = strip_lines v @ ends"
proof -
  have "v = rev (dropWhile newline_char (rev v)) @ rev (takeWhile newline_char (rev v))"
    by (metis rev_append rev_rev_ident takeWhile_dropWhile_id)
  then show ?thesis by (metis strip_lines_def)
qed

lemma lower_name: "name_char c \<Longrightarrow> lower_char c \<noteq> c_colon"
proof
  assume n: "name_char c" and c: "lower_char c = c_colon"
  show False
  proof (cases "65 \<le> sint c \<and> sint c \<le> 90")
    case True
    then have "c + 32 = 58" using c by (simp add: lower_char_def)
    then have "c = 58 - 32" by (simp add: algebra_simps)
    then show False using True by simp
  next
    case False
    then have "lower_char c = c" by (auto simp: lower_char_def)
    then show False using n c by (simp add: name_char_def)
  qed
qed


text \<open>
  A request is parsed to its request line and its first header, lower-cased; the value of that
  header runs to the end of the request, over every header behind it, except for the line ends at
  the very end.  A value of one character is dropped.
\<close>

theorem http_headers_result:
  assumes "list_all word_char m" and "m \<noteq> []" and "list_all word_char s" and "s \<noteq> []"
    and "list_all word_char h" and "h \<noteq> []"
    and "list_all name_char k" and "2 \<le> length k" and "v \<noteq> []" and "name_char (hd v)"
  shows "l_net_parse_http_headers [LStr (request_line m s h @ k @ c_colon # c_space # v)] =
    Returns [LTable (request_table m s h @
      (if 1 < length (strip_lines v) then [(LStr (map lower_char k), LStr (strip_lines v))] else []))]"
proof -
  let ?pre = "request_line m s h"
  let ?n = "length ?pre"
  let ?txt = "?pre @ k @ c_colon # c_space # v"
  let ?all = "length ?txt"
  obtain x ks where k: "k = x # ks" "ks \<noteq> []" using assms(8) by (cases k; cases "tl k") auto
  define p0 where "p0 = \<lparr>hp_text = ?txt, hp_state = read_header_end, hp_key = (0, 0), hp_value = (0, 0),
      hp_code = (0, length m - 1), hp_message = (length m + 1, length m + length s),
      hp_http = (length m + length s + 2, length m + length s + length h + 1), hp_table = request_table m s h\<rparr>"
  have r0: "header_loop [0..<?n] (header_start ?txt) = Some p0"
    unfolding p0_def by (rule request_line_run [OF assms(1-6)])
  let ?p1 = "p0\<lparr>hp_text := (?pre @ [lower_char x]) @ ks @ (c_colon # c_space # v), hp_key := (?n, ?n),
      hp_value := (?n, ?n), hp_state := read_header_key\<rparr>"
  have at0: "hp_text p0 ! ?n = x" by (simp add: p0_def k)
  have "name_char x" using assms(7) k by simp
  then have r1: "header_step ?n p0 = Some ?p1"
    using at0 k by (auto simp: header_step_def name_char_def word_char_def char_step_def header_flush_def
        lower_at_def list_update_append p0_def Let_def)
  let ?p2 = "?p1\<lparr>hp_text := (?pre @ [lower_char x]) @ map lower_char ks @ (c_colon # c_space # v),
      hp_key := (?n, length (?pre @ [lower_char x]) + length ks - 1)\<rparr>"
  have r2: "header_loop [Suc ?n..<?n + length k] ?p1 = Some ?p2"
    using run_name [of ?p1 "?pre @ [lower_char x]" ks "c_colon # c_space # v" ?n] assms(7) k by simp
  let ?j = "?n + length k"
  have text2: "hp_text ?p2 = (?pre @ map lower_char k) @ c_colon # c_space # v" using k by simp
  have at2: "hp_text ?p2 ! ?j = c_colon" "hp_text ?p2 ! Suc ?j = c_space"
    unfolding text2 by (simp_all add: nth_append)
  have atv: "hp_text ?p2 ! (Suc (Suc ?j) + j) = v ! j" for j
    unfolding text2 by (simp add: nth_append)
  let ?p3 = "?p2\<lparr>hp_state := read_header_mid\<rparr>"
  have r3: "header_step ?j ?p2 = Some ?p3" using at2 by (simp add: header_step_def colon_step_def)
  have r4: "header_step (Suc ?j) ?p3 = Some ?p3" using at2 by (simp add: header_step_def space_step_def)
  let ?i = "Suc (Suc ?j)"
  let ?p4 = "?p3\<lparr>hp_value := (?i, ?i), hp_state := read_header_value\<rparr>"
  have "hp_text ?p3 ! ?i = hd v" using atv [of 0] assms(9) by (simp add: hd_conv_nth)
  then have r5: "header_step ?i ?p3 = Some ?p4"
    using assms(10) by (auto simp: header_step_def name_char_def word_char_def char_step_def Let_def)
  let ?p5 = "?p4\<lparr>hp_value := (?i, ?i + length (strip_lines v) - 1)\<rparr>"
  have "\<not> newline_char (hd v)" using assms(10) by (auto simp: name_char_def word_char_def newline_char_def)
  then have r6: "header_loop [Suc ?i..<?i + length v] ?p4 = Some ?p5"
    using run_value [of ?p4 ?i v] assms(9) atv by simp
  have all: "?all = ?i + length v" by simp
  have "header_loop [0..<?all] (header_start ?txt) = header_loop [?n..<?all] p0"
    by (rule header_loop_split [OF _ _ r0]) simp_all
  also have "\<dots> = header_loop [Suc ?n..<?all] ?p1" by (rule header_loop_first [OF _ r1]) simp
  also have "\<dots> = header_loop [?j..<?all] ?p2" by (rule header_loop_split [OF _ _ r2]) (simp_all add: k)
  also have "\<dots> = header_loop [Suc ?j..<?all] ?p3" by (rule header_loop_first [OF _ r3]) simp
  also have "\<dots> = header_loop [?i..<?all] ?p3" by (rule header_loop_first [OF _ r4]) simp
  also have "\<dots> = header_loop [Suc ?i..<?all] ?p4" by (rule header_loop_first [OF _ r5]) (use assms(9) in simp)
  also have "\<dots> = Some ?p5" unfolding all by (rule r6)
  finally have run: "header_loop [0..<?all] (header_start ?txt) = Some ?p5" .
  have key: "header_slice ?p5 (hp_key ?p5) = Some (LStr (map lower_char k))"
    using header_slice_text [of ?p5 ?pre "map lower_char k" "c_colon # c_space # v"] k by simp
  have val: "header_slice ?p5 (hp_value ?p5) = Some (LStr (strip_lines v))" if "strip_lines v \<noteq> []"
  proof -
    obtain ends where "v = strip_lines v @ ends" by (metis strip_lines_prefix)
    then have "hp_text ?p5 = (?pre @ map lower_char k @ [c_colon, c_space]) @ strip_lines v @ ends" using k by simp
    from header_slice_text [OF this that] show ?thesis by simp
  qed
  have fresh: "LStr (map lower_char k) \<notin> set (map fst (request_table m s h))"
  proof -
    have "lower_char x \<noteq> c_colon"
      using \<open>name_char x\<close> by (rule lower_name)
    then show ?thesis using k by (auto simp: request_table_def cstr_def)
  qed
  have "header_flush ?p5 = Some (?p5\<lparr>hp_table := request_table m s h @
      (if 1 < length (strip_lines v) then [(LStr (map lower_char k), LStr (strip_lines v))] else [])\<rparr>)"
  proof (cases "1 < length (strip_lines v)")
    case True
    then have "strip_lines v \<noteq> []" by auto
    then show ?thesis
      using True key val k table_set_fresh [OF fresh, of "LStr (strip_lines v)"]
      by (simp add: header_flush_def p0_def)
  next
    case False
    then have "?i + length (strip_lines v) - 1 \<le> ?i" by simp
    then show ?thesis using False by (simp add: header_flush_def p0_def)
  qed
  then show ?thesis using run by (simp add: l_net_parse_http_headers_def)
qed


theorem http_headers_result_witness:
  "l_net_parse_http_headers [LStr (request_line (cstr ''GET'') (cstr ''/'') (cstr ''HTTP/1.1'') @
      cstr ''Host'' @ c_colon # c_space # cstr ''a'' @ [c_cr, c_lf] @ cstr ''Via: b'' @ [c_cr, c_lf])] =
   Returns [LTable (request_table (cstr ''GET'') (cstr ''/'') (cstr ''HTTP/1.1'') @
     (if 1 < length (strip_lines (cstr ''a'' @ [c_cr, c_lf] @ cstr ''Via: b'' @ [c_cr, c_lf]))
      then [(LStr (map lower_char (cstr ''Host'')), LStr (strip_lines (cstr ''a'' @ [c_cr, c_lf] @ cstr ''Via: b'' @ [c_cr, c_lf])))]
      else []))]"
  by (rule http_headers_result) (simp_all add: cstr_def word_char_def name_char_def)

end
