(* ===== verification/System.thy ===== *)
theory System
  imports Prelude80s
begin

text \<open>
  The world the server runs in: the system calls it makes, the Lua code it calls back, and the
  parameter structures of \<^verbatim>\<open>src/80s/80s.h\<close> that travel between them.

  Neither the kernel nor the Lua program is code of the repository.  Both are one parameter, the
  environment: a function from the history of everything the server has done so far to the answer
  of the last action.  A theorem for all environments is a theorem for every kernel and every
  Lua program.  A call into Lua is answered by the calls of the \<open>net\<close> library the Lua
  function makes before it returns.
\<close>

section \<open>Descriptors and their holder\<close>

type_synonym fd = int

abbreviation (input) S80_FD_SOCKET :: int where "S80_FD_SOCKET \<equiv> 1"
abbreviation (input) S80_FD_KTLS_SOCKET :: int where "S80_FD_KTLS_SOCKET \<equiv> 2"
abbreviation (input) S80_FD_PIPE :: int where "S80_FD_PIPE \<equiv> 3"
abbreviation (input) S80_FD_OTHER :: int where "S80_FD_OTHER \<equiv> 4"
abbreviation (input) S80_FD_SERVER_SOCKET :: int where "S80_FD_SERVER_SOCKET \<equiv> 5"

abbreviation (input) S80_SIGNAL_STOP :: byte where "S80_SIGNAL_STOP \<equiv> 1"
abbreviation (input) S80_SIGNAL_QUIT :: byte where "S80_SIGNAL_QUIT \<equiv> 2"
abbreviation (input) S80_SIGNAL_MAIL :: byte where "S80_SIGNAL_MAIL \<equiv> 3"

abbreviation (input) S80_MB_ACCEPT :: int where "S80_MB_ACCEPT \<equiv> 1"
abbreviation (input) S80_MB_READ :: int where "S80_MB_READ \<equiv> 2"
abbreviation (input) S80_MB_WRITE :: int where "S80_MB_WRITE \<equiv> 3"
abbreviation (input) S80_MB_CLOSE :: int where "S80_MB_CLOSE \<equiv> 4"
abbreviation (input) S80_MB_MESSAGE :: int where "S80_MB_MESSAGE \<equiv> 5"

definition BUFSIZE :: nat where "BUFSIZE = 2 ^ 20"

definition MAX_EVENTS :: nat where "MAX_EVENTS = 100"

text \<open>
  The epoll payload is one pointer; the server stores two \<open>int\<close>s in it, the type in the lower
  half and the descriptor in the upper one.
\<close>

definition SET_FD_HOLDER :: "int \<Rightarrow> fd \<Rightarrow> 64 word" where
  "SET_FD_HOLDER ty f = (push_bit 32 (word_of_int f)) OR ucast (word_of_int ty :: 32 word)"

definition FD_HOLDER_TYPE :: "64 word \<Rightarrow> int" where
  "FD_HOLDER_TYPE ev = sint (ucast ev :: 32 word)"

definition FD_HOLDER_FD :: "64 word \<Rightarrow> fd" where
  "FD_HOLDER_FD ev = sint (ucast (drop_bit 32 ev) :: 32 word)"

definition c_int :: "int \<Rightarrow> bool" where
  "c_int i \<longleftrightarrow> - (2 ^ 31) \<le> i \<and> i < 2 ^ 31"

section \<open>Parameter structures\<close>

text \<open>The context pointer (a Lua state) is the number of the worker that owns it.\<close>

record read_params =
  rp_ctx :: nat
  rp_elfd :: fd
  rp_childfd :: fd
  rp_fdtype :: int
  rp_buf :: "byte list"
  rp_readlen :: int

record close_params =
  cp_ctx :: nat
  cp_elfd :: fd
  cp_childfd :: fd

record write_params =
  wp_ctx :: nat
  wp_elfd :: fd
  wp_childfd :: fd
  wp_written :: int

record init_params =
  ip_ctx :: nat
  ip_elfd :: fd
  ip_parentfd :: fd

record accept_params =
  ap_ctx :: nat
  ap_elfd :: fd
  ap_parentfd :: fd
  ap_childfd :: fd
  ap_fdtype :: int
  ap_address :: "byte list"
  ap_addrlen :: nat

text \<open>
  The heap block a message points to, by what the sender put in it.  \<open>PNull\<close> is a null pointer.
\<close>

datatype payload =
    PNull
  | PRead read_params
  | PWrite write_params
  | PClose close_params
  | PAccept accept_params
  | PBytes "byte list"

record mailbox_message =
  sender_id :: int
  sender_elfd :: fd
  sender_fd :: fd
  receiver_fd :: fd
  mtype :: int
  msize :: nat
  message :: payload

section \<open>Actions and the environment\<close>

abbreviation (input) EPOLLIN :: "32 word" where "EPOLLIN \<equiv> 1"
abbreviation (input) EPOLLOUT :: "32 word" where "EPOLLOUT \<equiv> 4"
abbreviation (input) EPOLLERR :: "32 word" where "EPOLLERR \<equiv> 8"
abbreviation (input) EPOLLHUP :: "32 word" where "EPOLLHUP \<equiv> 16"

text \<open>Socket addresses as \<open>connect\<close> and \<open>bind\<close> get them: address and port, or a path.\<close>

datatype sockaddr = SockV4 int nat | SockV6 int nat | SockUnix "byte list"

datatype epoll_op = EPOLL_CTL_ADD | EPOLL_CTL_MOD | EPOLL_CTL_DEL

text \<open>The observable actions: system calls, lock operations, releases of message blocks and
  calls of global Lua functions (state, name, arguments).\<close>

datatype action =
    AEpollCtl fd epoll_op fd "32 word" "64 word"
  | ARead fd nat
  | AWrite fd "byte list"
  | AClose fd
  | AAccept fd
  | AEpollWait fd
  | AReadSignal fd
  | ANonblock fd
  | AWaitpid
  | ASocket int int int
  | AConnect fd sockaddr nat
  | AResolve "byte list"
  | APeername fd
  | APipe
  | AFork
  | ASignalDefault
  | ADup2 fd fd
  | AExec "byte list" "byte list list"
  | AOther string "lua_value list"
  | AAcquire nat
  | ARelease nat
  | AFree payload
  | APcall nat string "lua_value list"

datatype lua_op = LuaCall string "lua_value list" "lua_op list"

text \<open>
  An answer: the C result, \<open>errno\<close> after the call, the bytes or the numbers (descriptors,
  addresses) handed out, for a call into Lua the calls of the library it makes, and for
  \<open>epoll_wait\<close> the events, each with its flags and its payload.
\<close>

record answer =
  a_ret :: int
  a_errno :: int
  a_bytes :: "byte list"
  a_vals :: "int list"
  a_plan :: "lua_op list"
  a_events :: "(32 word \<times> 64 word) list"

text \<open>
  \<open>answers\<close> gives the answers; \<open>heap\<close> says what \<open>calloc\<close> or \<open>realloc\<close> would answer to a
  request of some size at this point: nothing, or a block with arbitrary contents.  The other
  fields are conversions of the C library and of Lua: the text of an error number, the text of a
  number, the integer of a float.
\<close>

type_synonym msg_alloc = "nat \<Rightarrow> (nat \<Rightarrow> mailbox_message) option"

record env =
  answers :: "action list \<Rightarrow> answer"
  heap :: "action list \<Rightarrow> msg_alloc"
  strerror :: "int \<Rightarrow> byte list"
  num_text :: "lua_value \<Rightarrow> byte list"
  float_int :: "64 word \<Rightarrow> int"

text \<open>
  What a worker can change: the history, and the mailboxes and the counters every worker shares.
  A mailbox holds its messages in an allocated array; \<open>None\<close> is a null pointer.
\<close>

record mailbox =
  mb_pipes :: "fd \<times> fd"
  mb_signaled :: bool
  mb_messages :: "mailbox_message list option"
  mb_size :: nat
  mb_reserved :: nat

record server =
  hist :: "action list"
  mailboxes :: "mailbox list"
  rl_ready :: int
  rl_running :: int
  c_errno :: int

text \<open>One action: it is recorded, and the environment answers.\<close>

definition act :: "env \<Rightarrow> action \<Rightarrow> server \<Rightarrow> answer \<times> server" where
  "act env a s =
     (let ans = answers env (hist s @ [a])
      in (ans, s\<lparr>hist := hist s @ [a], c_errno := a_errno ans\<rparr>))"

definition log_act :: "env \<Rightarrow> action \<Rightarrow> server \<Rightarrow> server" where
  "log_act env a s = snd (act env a s)"

lemma act_hist [simp]: "hist (snd (act env a s)) = hist s @ [a]" "hist (log_act env a s) = hist s @ [a]"
  by (simp_all add: act_def log_act_def Let_def)

lemma act_shared [simp]:
  "mailboxes (snd (act env a s)) = mailboxes s" "rl_ready (snd (act env a s)) = rl_ready s"
  "mailboxes (log_act env a s) = mailboxes s" "rl_ready (log_act env a s) = rl_ready s"
  by (simp_all add: act_def log_act_def Let_def)

text \<open>For witnesses: an environment in which every call returns the same number and Lua calls
  nothing back, and a server without mailboxes that has done nothing.\<close>

definition const_env :: "int \<Rightarrow> env" where
  "const_env r = \<lparr>answers = (\<lambda>h. \<lparr>a_ret = r, a_errno = 11, a_bytes = [], a_vals = [7, 8], a_plan = [], a_events = []\<rparr>),
     heap = (\<lambda>h n. None), strerror = (\<lambda>e. []), num_text = (\<lambda>v. []), float_int = (\<lambda>x. 0)\<rparr>"

definition idle_server :: server where
  "idle_server = \<lparr>hist = [], mailboxes = [], rl_ready = 0, rl_running = 1, c_errno = 0\<rparr>"

lemma const_env_answers [simp]:
  "answers (const_env r) h = \<lparr>a_ret = r, a_errno = 11, a_bytes = [], a_vals = [7, 8], a_plan = [], a_events = []\<rparr>"
  by (simp add: const_env_def)

text \<open>What happened between two states, and the descriptors closed in a stretch of history.\<close>

definition since :: "server \<Rightarrow> server \<Rightarrow> action list" where
  "since s s' = drop (length (hist s)) (hist s')"

primrec closed_fds :: "action list \<Rightarrow> fd list" where
  "closed_fds [] = []"
| "closed_fds (a # tr) = (case a of AClose f \<Rightarrow> f # closed_fds tr | _ \<Rightarrow> closed_fds tr)"

lemma closed_fds_append [simp]: "closed_fds (xs @ ys) = closed_fds xs @ closed_fds ys"
  by (induction xs) (auto split: action.splits)

lemma since_append [simp]: "hist s' = hist s @ tr \<Longrightarrow> since s s' = tr"
  by (simp add: since_def)

text \<open>\<open>fd_to_void\<close>, \<open>int_to_void\<close> and back, through a 64-bit pointer.\<close>

definition fd_to_void :: "fd \<Rightarrow> lua_value" where
  "fd_to_void f = LLight (nat (f mod 2 ^ 64))"

definition void_to_fd :: "lua_value \<Rightarrow> fd" where
  "void_to_fd v = (case v of LLight p \<Rightarrow> sint (word_of_nat p :: 32 word) | _ \<Rightarrow> 0)"

section \<open>The callbacks of the Lua state\<close>

text \<open>
  Each callback of \<^verbatim>\<open>src/80s/lua.c\<close> fetches a global function and calls it with the fields
  of the parameter structure.  \<open>run\<close> executes the library calls the function makes; an error
  in it is printed and otherwise ignored.
\<close>

type_synonym lua_runner = "lua_op list \<Rightarrow> server \<Rightarrow> server option"

definition pcall :: "env \<Rightarrow> lua_runner \<Rightarrow> nat \<Rightarrow> string \<Rightarrow> lua_value list \<Rightarrow> server \<Rightarrow> server option" where
  "pcall env run L f args s = (case act env (APcall L f args) s of (a, s') \<Rightarrow> run (a_plan a) s')"

definition message_bytes :: "mailbox_message \<Rightarrow> byte list option" where
  "message_bytes mail =
     (case message mail of
        PBytes bs \<Rightarrow> if length bs < msize mail then None else Some (take (msize mail) bs)
      | PNull \<Rightarrow> if msize mail = 0 then Some [] else None
      | _ \<Rightarrow> None)"

definition on_message :: "env \<Rightarrow> lua_runner \<Rightarrow> nat \<Rightarrow> fd \<Rightarrow> mailbox_message \<Rightarrow> server \<Rightarrow> server option" where
  "on_message env run ctx elfd mail s =
     Option.bind (message_bytes mail) (\<lambda>bs. pcall env run ctx ''on_message''
       [LInt (sender_id mail), fd_to_void (sender_elfd mail), fd_to_void (sender_fd mail),
        fd_to_void elfd, fd_to_void (receiver_fd mail), LInt (mtype mail), LStr bs] s)"

definition on_receive :: "env \<Rightarrow> lua_runner \<Rightarrow> read_params \<Rightarrow> server \<Rightarrow> server option" where
  "on_receive env run p s =
     (if rp_readlen p < 0 \<or> int (length (rp_buf p)) < rp_readlen p then None
      else pcall env run (rp_ctx p) ''on_data''
        [fd_to_void (rp_elfd p), fd_to_void (rp_childfd p), fd_to_void (rp_fdtype p),
         LStr (take (nat (rp_readlen p)) (rp_buf p)), LInt (rp_readlen p)] s)"

definition on_close :: "env \<Rightarrow> lua_runner \<Rightarrow> close_params \<Rightarrow> server \<Rightarrow> server option" where
  "on_close env run p s =
     pcall env run (cp_ctx p) ''on_close'' [fd_to_void (cp_elfd p), fd_to_void (cp_childfd p)] s"

definition on_write :: "env \<Rightarrow> lua_runner \<Rightarrow> write_params \<Rightarrow> server \<Rightarrow> server option" where
  "on_write env run p s =
     pcall env run (wp_ctx p) ''on_write''
       [fd_to_void (wp_elfd p), fd_to_void (wp_childfd p), LInt (wp_written p)] s"

definition on_accept :: "env \<Rightarrow> lua_runner \<Rightarrow> accept_params \<Rightarrow> server \<Rightarrow> server option" where
  "on_accept env run p s =
     pcall env run (ap_ctx p) ''on_accept''
       [fd_to_void (ap_elfd p), fd_to_void (ap_parentfd p), fd_to_void (ap_childfd p),
        fd_to_void (ap_fdtype p)] s"

definition on_init :: "env \<Rightarrow> lua_runner \<Rightarrow> init_params \<Rightarrow> server \<Rightarrow> server option" where
  "on_init env run p s =
     pcall env run (ip_ctx p) ''on_init'' [fd_to_void (ip_elfd p), fd_to_void (ip_parentfd p)] s"

definition pre_refresh_context :: "server \<Rightarrow> server" where
  "pre_refresh_context s = s"

definition is_fd_ready :: "fd \<Rightarrow> int \<Rightarrow> bool" where
  "is_fd_ready childfd fdtype = True"

section \<open>The holder loses nothing\<close>

lemma sint_word_of_int: "c_int i \<Longrightarrow> sint (word_of_int i :: 32 word) = i"
  by (simp add: c_int_def sint_sbintrunc' signed_take_bit_int_eq_self)

lemma holder_low: "ucast (SET_FD_HOLDER ty f) = (word_of_int ty :: 32 word)"
  by (rule bit_word_eqI) (auto simp: SET_FD_HOLDER_def bit_simps)

lemma holder_high: "ucast (drop_bit 32 (SET_FD_HOLDER ty f)) = (word_of_int f :: 32 word)"
  by (rule bit_word_eqI) (auto simp: SET_FD_HOLDER_def bit_simps)

lemma fd_holder_parts:
  "c_int ty \<Longrightarrow> FD_HOLDER_TYPE (SET_FD_HOLDER ty f) = ty"
  "c_int f \<Longrightarrow> FD_HOLDER_FD (SET_FD_HOLDER ty f) = f"
  by (simp_all only: FD_HOLDER_TYPE_def FD_HOLDER_FD_def holder_low holder_high sint_word_of_int)

lemma void_to_fd_to_void: "c_int f \<Longrightarrow> void_to_fd (fd_to_void f) = f"
proof -
  assume f: "c_int f"
  have nz: "0 \<le> f mod 2 ^ 64" by simp
  have "(word_of_nat (nat (f mod 2 ^ 64)) :: 32 word) = word_of_int (f mod 2 ^ 64)"
    using nz by (metis nat_0_le of_int_of_nat_eq)
  also have "\<dots> = word_of_int f"
    unfolding take_bit_eq_mod [symmetric] by (rule bit_word_eqI) (auto simp: bit_simps)
  finally show ?thesis
    using sint_word_of_int [OF f] by (simp add: void_to_fd_def fd_to_void_def)
qed

text \<open>
  Packing a descriptor and its type into the one pointer epoll keeps, and a descriptor into
  the light userdata Lua keeps, loses nothing: both read back, negative descriptors included.
\<close>

theorem fd_holder_roundtrip:
  assumes "c_int ty" and "c_int f"
  shows "FD_HOLDER_TYPE (SET_FD_HOLDER ty f) = ty \<and> FD_HOLDER_FD (SET_FD_HOLDER ty f) = f \<and>
    void_to_fd (fd_to_void f) = f"
  using assms by (simp add: fd_holder_parts void_to_fd_to_void)

theorem fd_holder_roundtrip_witness:
  "FD_HOLDER_TYPE (SET_FD_HOLDER S80_FD_PIPE (- 1)) = S80_FD_PIPE \<and>
   FD_HOLDER_FD (SET_FD_HOLDER S80_FD_PIPE (- 1)) = - 1 \<and> void_to_fd (fd_to_void (- 1)) = - 1"
  by (rule fd_holder_roundtrip) (simp_all add: c_int_def)

text \<open>Every other call of the operating system.\<close>

definition os_call :: "env \<Rightarrow> string \<Rightarrow> lua_value list \<Rightarrow> server \<Rightarrow> answer \<times> server" where
  "os_call env name args s = act env (AOther name args) s"

lemma os_call_hist [simp]: "hist (snd (os_call env name args s)) = hist s @ [AOther name args]"
  by (simp add: os_call_def)

lemma os_call_result: "fst (os_call env name args s) = answers env (hist s @ [AOther name args])"
  by (simp add: os_call_def act_def Let_def)

text \<open>
  The objects of one kind that are open after a stretch of history: those that were created minus
  those that were released.  Creation answers with a null pointer when it fails.
\<close>

primrec open_objects :: "env \<Rightarrow> string \<Rightarrow> string \<Rightarrow> action list \<Rightarrow> action list \<Rightarrow> int" where
  "open_objects env new free h [] = 0"
| "open_objects env new free h (a # as) =
     (case a of
        AOther name args \<Rightarrow>
          if name = new \<and> a_ret (answers env (h @ [a])) \<noteq> 0 then 1 else if name = free then - 1 else 0
      | _ \<Rightarrow> 0) + open_objects env new free (h @ [a]) as"

definition held :: "env \<Rightarrow> string \<Rightarrow> string \<Rightarrow> server \<Rightarrow> server \<Rightarrow> int" where
  "held env new free s s' = open_objects env new free (hist s) (since s s')"

lemma held_hist: "hist s' = hist s @ tr \<Longrightarrow> held env new free s s' = open_objects env new free (hist s) tr"
  by (simp add: held_def)

end
