(* ===== verification/Mailbox.thy ===== *)
theory Mailbox
  imports System
begin

text \<open>
  The mailboxes through which workers talk (\<^verbatim>\<open>src/80s/80s_common.c\<close>: \<open>s80_mail\<close>, the
  critical section of \<open>resolve_mail\<close>, \<open>s80_reload\<close>, \<open>s80_quit\<close>).  A sender stores a message
  under the lock and writes one byte to the receiver's self-pipe unless one is on its way; the
  receiver reads the pipe and for each such byte takes all messages at once.

  The first part is the data structure, with a contract \<open>mail_queue\<close>; the second composes
  any number of concurrent senders with one receiver, whose atomic steps are the critical
  sections, and shows that no message is lost, duplicated or reordered.
\<close>

section \<open>The data structure\<close>

definition msg_realloc :: "msg_alloc \<Rightarrow> mailbox_message list option \<Rightarrow> nat \<Rightarrow>
    mailbox_message list option" where
  "msg_realloc A old n =
     (case A n of None \<Rightarrow> None
      | Some junk \<Rightarrow>
          let xs = (case old of None \<Rightarrow> [] | Some xs \<Rightarrow> xs)
          in Some (take n xs @ map junk [length xs..<n]))"

text \<open>
  The body of \<open>s80_mail\<close> between taking and releasing the lock: the C result, the mailbox and
  the bytes written to its pipe.  \<^verbatim>\<open>None\<close>: an \<open>int\<close> overflows, or the store misses the
  array (a null pointer after an earlier failed \<open>realloc\<close>).
\<close>

definition store_message :: "mailbox \<Rightarrow> mailbox_message \<Rightarrow> (int \<times> mailbox \<times> byte list) option" where
  "store_message mb msg =
     (case mb_messages mb of
        None \<Rightarrow> None
      | Some arr \<Rightarrow>
          if length arr \<le> mb_size mb then None
          else
            (let mb' = mb\<lparr>mb_messages := Some (arr[mb_size mb := msg]), mb_size := mb_size mb + 1\<rparr>
             in if \<not> mb_signaled mb'
                then Some (0, mb'\<lparr>mb_signaled := True\<rparr>, [S80_SIGNAL_MAIL])
                else Some (0, mb', [])))"

definition mail_locked :: "msg_alloc \<Rightarrow> mailbox \<Rightarrow> mailbox_message \<Rightarrow>
    (int \<times> mailbox \<times> byte list) option" where
  "mail_locked A mb msg =
     (if mb_reserved mb \<le> mb_size mb then
        (let r = mb_reserved mb + 1000 in
         if 2 ^ 31 \<le> r then None
         else
           (case msg_realloc A (mb_messages mb) r of
              None \<Rightarrow> Some (- 1, mb\<lparr>mb_reserved := r, mb_messages := None\<rparr>, [])
            | Some arr \<Rightarrow> store_message (mb\<lparr>mb_reserved := r, mb_messages := Some arr\<rparr>) msg))
      else store_message mb msg)"

text \<open>
  The critical section of \<open>resolve_mail\<close>: copy the messages, mark the mailbox empty and
  unsignalled.  \<open>memcpy\<close> into a null block is the fault.
\<close>

definition take_mail :: "msg_alloc \<Rightarrow> mailbox \<Rightarrow> (mailbox_message list \<times> mailbox) option" where
  "take_mail A mb =
     (if 0 < mb_size mb then
        (case A (mb_size mb) of
           None \<Rightarrow> None
         | Some junk \<Rightarrow>
            (case mb_messages mb of
               None \<Rightarrow> None
             | Some arr \<Rightarrow>
                 if length arr < mb_size mb then None
                 else Some (take (mb_size mb) arr, mb\<lparr>mb_size := 0, mb_signaled := False\<rparr>)))
      else Some ([], mb\<lparr>mb_size := 0, mb_signaled := False\<rparr>))"

text \<open>What \<open>main\<close> sets up: 32 slots of zeroed memory.\<close>

definition mailbox_init :: "fd \<times> fd \<Rightarrow> (nat \<Rightarrow> mailbox_message) \<Rightarrow> mailbox" where
  "mailbox_init pipes junk =
     \<lparr>mb_pipes = pipes, mb_signaled = False, mb_messages = Some (map junk [0..<32]), mb_size = 0, mb_reserved = 32\<rparr>"

definition mailbox_wf :: "mailbox \<Rightarrow> bool" where
  "mailbox_wf mb \<longleftrightarrow>
     (case mb_messages mb of None \<Rightarrow> False | Some arr \<Rightarrow> length arr = mb_reserved mb) \<and>
     mb_size mb \<le> mb_reserved mb"

definition mailbox_queue :: "mailbox \<Rightarrow> mailbox_message list" where
  "mailbox_queue mb = (case mb_messages mb of None \<Rightarrow> [] | Some arr \<Rightarrow> take (mb_size mb) arr)"

text \<open>The number of pending messages up to which \<open>int\<close> sizes do not overflow.\<close>

definition mailbox_limit :: nat where
  "mailbox_limit = 2 ^ 31 - 1001"

definition sure_alloc :: "msg_alloc \<Rightarrow> bool" where
  "sure_alloc A \<longleftrightarrow> (\<forall>n. A n \<noteq> None)"

lemma sure_alloc_Some: "sure_alloc A \<Longrightarrow> A n \<noteq> None"
  by (simp only: sure_alloc_def not_False_eq_True)

lemma mailbox_init_props [simp]:
  "mailbox_wf (mailbox_init pipes junk)" "mailbox_queue (mailbox_init pipes junk) = []"
  "\<not> mb_signaled (mailbox_init pipes junk)" "mb_reserved (mailbox_init pipes junk) = 32"
  by (simp_all add: mailbox_init_def mailbox_wf_def mailbox_queue_def)

lemma mailbox_wf_cases:
  assumes "mailbox_wf mb"
  obtains arr where "mb_messages mb = Some arr" "length arr = mb_reserved mb"
    "mb_size mb \<le> length arr" "mailbox_queue mb = take (mb_size mb) arr"
  using assms that by (auto simp: mailbox_wf_def mailbox_queue_def split: option.splits)

lemma mailbox_queue_length: "mailbox_wf mb \<Longrightarrow> length (mailbox_queue mb) = mb_size mb"
  by (erule mailbox_wf_cases) simp

lemma store_message_step:
  assumes "mailbox_wf mb" and "mb_size mb < mb_reserved mb"
  shows "\<exists>mb'. store_message mb msg =
      Some (0, mb', if mb_signaled mb then [] else [S80_SIGNAL_MAIL]) \<and>
    mailbox_wf mb' \<and> mailbox_queue mb' = mailbox_queue mb @ [msg] \<and> mb_signaled mb' \<and>
    mb_reserved mb' = mb_reserved mb"
  using assms(1)
proof (rule mailbox_wf_cases)
  fix arr
  assume arr: "mb_messages mb = Some arr" "length arr = mb_reserved mb"
    "mailbox_queue mb = take (mb_size mb) arr"
  have "take (Suc (mb_size mb)) (arr[mb_size mb := msg]) = take (mb_size mb) arr @ [msg]"
    using assms(2) arr(2) by (simp add: take_Suc_conv_app_nth)
  then show ?thesis
    using arr assms(2) by (auto simp: store_message_def mailbox_wf_def mailbox_queue_def)
qed

lemma mail_locked_step:
  assumes wf: "mailbox_wf mb" and "mb_size mb \<le> mailbox_limit"
  shows "(\<exists>mb'. mail_locked A mb msg =
        Some (0, mb', if mb_signaled mb then [] else [S80_SIGNAL_MAIL]) \<and>
      mailbox_wf mb' \<and> mailbox_queue mb' = mailbox_queue mb @ [msg] \<and> mb_signaled mb') \<or>
    A (mb_reserved mb + 1000) = None \<and> mb_size mb = mb_reserved mb \<and>
    mail_locked A mb msg =
      Some (- 1, mb\<lparr>mb_reserved := mb_reserved mb + 1000, mb_messages := None\<rparr>, [])"
proof (cases "mb_reserved mb \<le> mb_size mb")
  case False
  then show ?thesis
    using store_message_step [OF wf, of msg] by (auto simp: mail_locked_def)
next
  case True
  let ?r = "mb_reserved mb + 1000"
  from wf obtain arr where arr: "mb_messages mb = Some arr" "length arr = mb_reserved mb"
      "mb_size mb \<le> length arr" "mailbox_queue mb = take (mb_size mb) arr"
    by (rule mailbox_wf_cases)
  have r: "\<not> 2 ^ 31 \<le> ?r" using True arr assms(2) by (simp add: mailbox_limit_def)
  show ?thesis
  proof (cases "A ?r")
    case None
    then show ?thesis using True r arr by (simp add: mail_locked_def msg_realloc_def)
  next
    case (Some junk)
    let ?mb = "mb\<lparr>mb_reserved := ?r, mb_messages := Some (arr @ map junk [length arr..<?r])\<rparr>"
    have "mailbox_wf ?mb" "mb_size ?mb < mb_reserved ?mb" "mailbox_queue ?mb = mailbox_queue mb"
      using arr by (simp_all add: mailbox_wf_def mailbox_queue_def)
    moreover have "mail_locked A mb msg = store_message ?mb msg"
      using True r arr Some by (simp add: mail_locked_def msg_realloc_def Let_def)
    ultimately show ?thesis using store_message_step [of ?mb msg] by auto
  qed
qed

lemma mailbox_init_mail:
  "\<exists>mb. mail_locked A (mailbox_init pipes junk) m = Some (0, mb, [S80_SIGNAL_MAIL]) \<and>
     mailbox_wf mb \<and> mailbox_queue mb = [m]"
proof -
  let ?mb = "mailbox_init pipes junk"
  have "mb_size ?mb \<le> mailbox_limit" "mb_size ?mb \<noteq> mb_reserved ?mb"
    by (simp_all add: mailbox_init_def mailbox_limit_def)
  then show ?thesis using mail_locked_step [of ?mb A m] by auto
qed

lemma take_mail_step:
  assumes "mailbox_wf mb"
  shows "take_mail A mb = Some (mailbox_queue mb, mb\<lparr>mb_size := 0, mb_signaled := False\<rparr>) \<or>
    A (mb_size mb) = None \<and> mailbox_queue mb \<noteq> [] \<and> take_mail A mb = None"
  using assms
  by (rule mailbox_wf_cases) (auto simp: take_mail_def mailbox_queue_def split: option.splits)

lemma take_mail_wf [simp]:
  "mailbox_wf mb \<Longrightarrow> mailbox_wf (mb\<lparr>mb_size := 0, mb_signaled := b\<rparr>)"
  "mailbox_queue (mb\<lparr>mb_size := 0, mb_signaled := b\<rparr>) = []"
  by (auto simp: mailbox_wf_def mailbox_queue_def split: option.splits)

section \<open>The contract\<close>

text \<open>
  What the two sides rely on: putting appends and says whether a wake-up is due, taking returns
  everything in order and rearms the wake-up.
\<close>

definition channel_inv :: "('b \<Rightarrow> 'm list) \<Rightarrow> ('b \<Rightarrow> bool) \<Rightarrow> ('b \<Rightarrow> bool) \<Rightarrow>
    'b \<Rightarrow> nat \<Rightarrow> 'm list \<Rightarrow> 'm list \<Rightarrow> bool" where
  "channel_inv queue flag good b wakes sent delivered \<longleftrightarrow>
     good b \<and> (queue b \<noteq> [] \<longrightarrow> flag b) \<and> wakes = (if flag b then 1 else 0) \<and>
     delivered @ queue b = sent"

locale mail_queue =
  fixes put :: "'b \<Rightarrow> 'm \<Rightarrow> (int \<times> 'b \<times> byte list) option"
    and take_all :: "'b \<Rightarrow> ('m list \<times> 'b) option"
    and queue :: "'b \<Rightarrow> 'm list" and flag :: "'b \<Rightarrow> bool" and good :: "'b \<Rightarrow> bool"
    and limit :: nat
  assumes put_ok: "good b \<Longrightarrow> put b m = Some (r, b', w) \<Longrightarrow> 0 \<le> r \<Longrightarrow>
      good b' \<and> queue b' = queue b @ [m] \<and> flag b' \<and>
      w = (if flag b then [] else [S80_SIGNAL_MAIL])"
    and put_safe: "good b \<Longrightarrow> length (queue b) \<le> limit \<Longrightarrow> put b m \<noteq> None"
    and take_ok: "good b \<Longrightarrow> take_all b = Some (ms, b') \<Longrightarrow>
      good b' \<and> ms = queue b \<and> queue b' = [] \<and> \<not> flag b'"
begin

lemma put_channel:
  assumes "channel_inv queue flag good b wakes sent delivered"
    and "put b m = Some (r, b', w)" and "0 \<le> r"
  shows "channel_inv queue flag good b' (wakes + length (filter ((=) S80_SIGNAL_MAIL) w))
    (sent @ [m]) delivered"
  using assms put_ok [of b m r b' w] by (auto simp: channel_inv_def)

lemma take_channel:
  assumes "channel_inv queue flag good b (Suc wakes) sent delivered" and "take_all b = Some (ms, b')"
  shows "channel_inv queue flag good b' wakes sent (delivered @ ms)"
  using assms take_ok [of b ms b'] by (auto simp: channel_inv_def split: if_splits)

lemma idle_channel:
  assumes "channel_inv queue flag good b 0 sent delivered"
  shows "delivered = sent"
  using assms by (auto simp: channel_inv_def split: if_splits)

end

interpretation mq: mail_queue "mail_locked A" "take_mail A" mailbox_queue mb_signaled mailbox_wf
    mailbox_limit for A
proof
  fix b m r b' w
  assume "mailbox_wf b" and "mail_locked A b m = Some (r, b', w)" and "0 \<le> r"
  moreover from this have "mb_reserved b \<le> mb_size b \<Longrightarrow> mb_size b \<le> mailbox_limit"
    by (auto simp: mail_locked_def Let_def mailbox_limit_def mailbox_wf_def split: if_splits)
  ultimately show "mailbox_wf b' \<and> mailbox_queue b' = mailbox_queue b @ [m] \<and> mb_signaled b' \<and>
      w = (if mb_signaled b then [] else [S80_SIGNAL_MAIL])"
    using mail_locked_step [of b A m] store_message_step [of b m]
    by (cases "mb_reserved b \<le> mb_size b") (auto simp: mail_locked_def split: if_splits)
next
  fix b m
  assume "mailbox_wf b" and "length (mailbox_queue b) \<le> mailbox_limit"
  then show "mail_locked A b m \<noteq> None"
    using mail_locked_step [of b A m] by (auto simp: mailbox_queue_length)
next
  fix b ms b'
  assume "mailbox_wf b" and "take_mail A b = Some (ms, b')"
  then show "mailbox_wf b' \<and> ms = mailbox_queue b \<and> mailbox_queue b' = [] \<and> \<not> mb_signaled b'"
    using take_mail_step [of b A] by auto
qed

section \<open>Senders and a receiver\<close>

text \<open>
  One mailbox with its self-pipe, the bytes the receiver has read from the pipe and not looked at
  yet (\<open>buf\<close> in \<open>serve\<close>), and two records of the past: the messages whose sender was told that
  they were sent, and those the receiver has taken.  \<open>ch_running\<close> is the variable \<open>running\<close> of \<open>serve\<close>,
  \<open>ch_quit\<close> the flag with which the worker leaves for good.

  A step is one critical section or one step of the receiver's loop, so the relation contains
  every interleaving of any number of senders.  Each step may meet another allocator.
\<close>

record channel =
  ch_box :: mailbox
  ch_pipe :: "byte list"
  ch_buf :: "byte list"
  ch_sent :: "mailbox_message list"
  ch_delivered :: "mailbox_message list"
  ch_running :: bool
  ch_quit :: bool

definition channel_init :: "fd \<times> fd \<Rightarrow> (nat \<Rightarrow> mailbox_message) \<Rightarrow> channel" where
  "channel_init pipes junk =
     \<lparr>ch_box = mailbox_init pipes junk, ch_pipe = [], ch_buf = [], ch_sent = [], ch_delivered = [],
       ch_running = True, ch_quit = False\<rparr>"

text \<open>
  The receiver: while it runs it reads the pipe when its buffer is used up, and acts on each byte.  Stop
  and quit end the loop once the buffer is used up; after a stop the worker enters \<open>serve\<close> again when the
  reload is over, after a quit it never does.
\<close>

inductive receive_step :: "channel \<Rightarrow> channel \<Rightarrow> bool" where
  read_pipe: "ch_running c \<Longrightarrow> ch_buf c = [] \<Longrightarrow> 0 < n \<Longrightarrow> n \<le> length (ch_pipe c) \<Longrightarrow> n \<le> BUFSIZE \<Longrightarrow>
    receive_step c (c\<lparr>ch_buf := take n (ch_pipe c), ch_pipe := drop n (ch_pipe c)\<rparr>)"
| resolve: "ch_buf c = S80_SIGNAL_MAIL # bs \<Longrightarrow> take_mail A (ch_box c) = Some (ms, mb) \<Longrightarrow>
    receive_step c (c\<lparr>ch_buf := bs, ch_box := mb, ch_delivered := ch_delivered c @ ms\<rparr>)"
| stop_byte: "ch_buf c = S80_SIGNAL_STOP # bs \<Longrightarrow> receive_step c (c\<lparr>ch_buf := bs, ch_running := False\<rparr>)"
| quit_byte: "ch_buf c = S80_SIGNAL_QUIT # bs \<Longrightarrow>
    receive_step c (c\<lparr>ch_buf := bs, ch_running := False, ch_quit := True\<rparr>)"
| other_byte: "ch_buf c = b # bs \<Longrightarrow> b \<notin> {S80_SIGNAL_MAIL, S80_SIGNAL_STOP, S80_SIGNAL_QUIT} \<Longrightarrow>
    receive_step c (c\<lparr>ch_buf := bs\<rparr>)"
| reenter: "\<not> ch_running c \<Longrightarrow> \<not> ch_quit c \<Longrightarrow> ch_buf c = [] \<Longrightarrow> receive_step c (c\<lparr>ch_running := True\<rparr>)"

inductive channel_step :: "channel \<Rightarrow> channel \<Rightarrow> bool" where
  sends: "mail_locked A (ch_box c) m = Some (r, mb, w) \<Longrightarrow> 0 \<le> r \<Longrightarrow>
    channel_step c (c\<lparr>ch_box := mb, ch_pipe := ch_pipe c @ w, ch_sent := ch_sent c @ [m]\<rparr>)"
| refused: "mail_locked A (ch_box c) m = Some (r, mb, w) \<Longrightarrow> r < 0 \<Longrightarrow>
    channel_step c (c\<lparr>ch_box := mb, ch_pipe := ch_pipe c @ w\<rparr>)"
| signals: "b = S80_SIGNAL_STOP \<or> b = S80_SIGNAL_QUIT \<Longrightarrow>
    channel_step c (c\<lparr>ch_pipe := ch_pipe c @ [b]\<rparr>)"
| receives: "receive_step c c' \<Longrightarrow> channel_step c c'"

inductive_cases channel_stepE: "channel_step c c'"
inductive_cases receive_stepE: "receive_step c c'"

definition wake_bytes :: "byte list \<Rightarrow> nat" where
  "wake_bytes bs = length (filter ((=) S80_SIGNAL_MAIL) bs)"

lemma wake_bytes_simps [simp]:
  "wake_bytes [] = 0" "wake_bytes (xs @ ys) = wake_bytes xs + wake_bytes ys"
  "wake_bytes (b # bs) = (if b = S80_SIGNAL_MAIL then Suc (wake_bytes bs) else wake_bytes bs)"
  by (auto simp: wake_bytes_def)

lemma wake_bytes_take_drop: "wake_bytes (take n xs) + wake_bytes (drop n xs) = wake_bytes xs"
  by (metis append_take_drop_id wake_bytes_simps(2))

text \<open>A mailbox is intact until a \<open>realloc\<close> fails.\<close>

definition intact :: "channel \<Rightarrow> bool" where
  "intact c \<longleftrightarrow> mb_messages (ch_box c) \<noteq> None"

definition linked :: "channel \<Rightarrow> bool" where
  "linked c \<longleftrightarrow>
     channel_inv mailbox_queue mb_signaled mailbox_wf (ch_box c)
       (wake_bytes (ch_buf c @ ch_pipe c)) (ch_sent c) (ch_delivered c)"

definition broken :: "channel \<Rightarrow> bool" where
  "broken c \<longleftrightarrow> mb_messages (ch_box c) = None \<and> mb_size (ch_box c) < mb_reserved (ch_box c) \<and>
     prefix (ch_delivered c) (ch_sent c)"

lemma linked_intact: "linked c \<Longrightarrow> intact c"
  by (auto simp: linked_def channel_inv_def intact_def mailbox_wf_def split: option.splits)

lemma linked_init: "linked (channel_init pipes junk)"
  by (simp add: linked_def channel_inv_def channel_init_def)

lemma receive_linked:
  assumes "receive_step c c'" and "linked c"
  shows "linked c' \<and> ch_sent c' = ch_sent c"
  using assms
proof (cases rule: receive_step.cases)
  case (read_pipe n)
  then show ?thesis
    using assms(2) wake_bytes_take_drop [of n "ch_pipe c"] by (simp add: linked_def)
next
  case (resolve bs A ms mb)
  then show ?thesis
    using assms(2) by (auto simp: linked_def intro: mq.take_channel)
qed (auto simp: linked_def)

lemma mail_negative:
  assumes "mail_locked A mb m = Some (r, mb', w)" and "r < 0" and "mb_size mb \<le> mb_reserved mb"
  shows "mb_messages mb' = None \<and> mb_size mb' < mb_reserved mb'"
proof -
  have "store_message x m = Some (r, mb', w) \<Longrightarrow> False" for x
    using assms(2) by (auto simp: store_message_def Let_def split: option.splits if_splits)
  then show ?thesis
    using assms by (auto simp: mail_locked_def Let_def split: option.splits if_splits)
qed

lemma linked_prefix: "linked c \<Longrightarrow> prefix (ch_delivered c) (ch_sent c)"
  unfolding linked_def channel_inv_def by (metis prefixI)

lemma step_linked:
  assumes "channel_step c c'" and "linked c"
  shows "linked c' \<or> broken c'"
  using assms(1)
proof (cases rule: channel_step.cases)
  case (sends A m r mb w)
  then show ?thesis
    using assms(2) mq.put_channel [OF _ sends(2,3)]
    by (fastforce simp: linked_def add.assoc simp flip: wake_bytes_def)
next
  case (refused A m r mb w)
  then show ?thesis
    using linked_prefix [OF assms(2)] mail_negative [OF refused(2,3)] assms(2)
    by (auto simp: broken_def linked_def channel_inv_def mailbox_wf_def)
next
  case (signals b)
  then show ?thesis using assms(2) by (auto simp: linked_def)
next
  case receives
  then show ?thesis using receive_linked [OF _ assms(2)] by blast
qed

lemma broken_mail: "mb_messages mb = None \<Longrightarrow> mb_size mb < mb_reserved mb \<Longrightarrow> mail_locked A mb m = None"
  by (simp add: mail_locked_def store_message_def)

lemma broken_take:
  "mb_messages mb = None \<Longrightarrow> take_mail A mb = Some (ms, mb') \<Longrightarrow>
   ms = [] \<and> mb_messages mb' = None \<and> mb_size mb' = 0 \<and> mb_reserved mb' = mb_reserved mb"
  by (auto simp: take_mail_def split: option.splits if_splits)

lemma step_broken:
  assumes "channel_step c c'" and "broken c"
  shows "broken c'"
  using assms(1)
proof (cases rule: channel_step.cases)
  case receives
  from receives show ?thesis
  proof (cases rule: receive_step.cases)
    case (resolve bs A ms mb)
    then show ?thesis
      using assms(2) broken_take [OF _ resolve(3)] by (auto simp: broken_def)
  qed (use assms(2) in \<open>auto simp: broken_def\<close>)
qed (use assms(2) broken_mail [of "ch_box c"] in \<open>auto simp: broken_def\<close>)

lemma reachable_channel:
  assumes "channel_step\<^sup>*\<^sup>* (channel_init pipes junk) c"
  shows "linked c \<or> broken c"
  using assms
proof (induction rule: rtranclp_induct)
  case base
  then show ?case by (simp add: linked_init)
next
  case (step c c')
  then show ?case using step_linked step_broken by blast
qed

lemma broken_not_intact: "broken c \<Longrightarrow> \<not> intact c"
  by (simp add: broken_def intact_def)

lemma reachable_prefix:
  "channel_step\<^sup>*\<^sup>* (channel_init pipes junk) c \<Longrightarrow> prefix (ch_delivered c) (ch_sent c)"
  using reachable_channel linked_prefix by (fastforce simp: broken_def)

lemma reachable_linked:
  "channel_step\<^sup>*\<^sup>* (channel_init pipes junk) c \<Longrightarrow> intact c \<Longrightarrow> linked c"
  using reachable_channel broken_not_intact by blast

text \<open>
  The receiver alone, with memory available, works off what is there, as long as it was not told to
  leave for good.
\<close>

definition stays :: "channel \<Rightarrow> bool" where
  "stays c \<longleftrightarrow> \<not> ch_quit c \<and> S80_SIGNAL_QUIT \<notin> set (ch_buf c @ ch_pipe c)"

definition work_left :: "channel \<Rightarrow> nat" where
  "work_left c = 2 * length (ch_buf c) + 3 * length (ch_pipe c) + (if ch_running c then 0 else 1)"

lemma receive_stays: "receive_step c c' \<Longrightarrow> stays c \<Longrightarrow> stays c'"
  by (cases rule: receive_step.cases, assumption) (auto simp: stays_def dest: in_set_takeD in_set_dropD)

lemma receive_progress:
  assumes "linked c" and "stays c" and "sure_alloc A" and "ch_buf c @ ch_pipe c \<noteq> []"
  shows "\<exists>c'. receive_step c c' \<and> linked c' \<and> stays c' \<and> ch_sent c' = ch_sent c \<and> work_left c' < work_left c"
proof -
  have "\<exists>c'. receive_step c c' \<and> work_left c' < work_left c"
  proof (cases "ch_buf c")
    case Nil
    then have n: "1 \<le> length (ch_pipe c)" using assms(4) by (simp add: Suc_le_eq)
    show ?thesis
    proof (cases "ch_running c")
      case True
      let ?c = "c\<lparr>ch_buf := take 1 (ch_pipe c), ch_pipe := drop 1 (ch_pipe c)\<rparr>"
      have "receive_step c ?c" using n True by (intro receive_step.read_pipe) (simp_all add: Nil BUFSIZE_def)
      moreover have "work_left ?c < work_left c" using n Nil by (simp add: work_left_def)
      ultimately show ?thesis by blast
    next
      case False
      then have "receive_step c (c\<lparr>ch_running := True\<rparr>)" using assms(2) Nil by (intro reenter) (simp_all add: stays_def)
      moreover have "work_left (c\<lparr>ch_running := True\<rparr>) < work_left c" using False by (simp add: work_left_def)
      ultimately show ?thesis by blast
    qed
  next
    case (Cons b bs)
    have "mailbox_wf (ch_box c)" using assms(1) by (simp add: linked_def channel_inv_def)
    then obtain ms mb where take: "take_mail A (ch_box c) = Some (ms, mb)"
      using take_mail_step [of "ch_box c" A] sure_alloc_Some [OF assms(3)] by auto
    have "b \<noteq> S80_SIGNAL_QUIT" using assms(2) Cons by (auto simp: stays_def)
    then consider "b = S80_SIGNAL_MAIL" | "b = S80_SIGNAL_STOP" | "b \<notin> {S80_SIGNAL_MAIL, S80_SIGNAL_STOP, S80_SIGNAL_QUIT}"
      by blast
    then have "\<exists>c'. receive_step c c' \<and> ch_buf c' = bs \<and> ch_pipe c' = ch_pipe c"
    proof cases
      case 1
      then show ?thesis using resolve [OF _ take] Cons by fastforce
    next
      case 2
      then show ?thesis using stop_byte Cons by fastforce
    next
      case 3
      then show ?thesis using other_byte [OF Cons] by fastforce
    qed
    then show ?thesis by (force simp: work_left_def Cons)
  qed
  then show ?thesis using receive_linked [OF _ assms(1)] receive_stays [OF _ assms(2)] by blast
qed

lemma receive_all:
  assumes "linked c" and "stays c" and "sure_alloc A"
  shows "\<exists>c'. receive_step\<^sup>*\<^sup>* c c' \<and> ch_delivered c' = ch_sent c"
  using assms(1,2)
proof (induction "work_left c" arbitrary: c rule: less_induct)
  case less
  show ?case
  proof (cases "ch_buf c @ ch_pipe c = []")
    case True
    then have "ch_delivered c = ch_sent c"
      using less.prems mq.idle_channel [of "ch_box c"] by (simp add: linked_def)
    then show ?thesis by blast
  next
    case False
    from receive_progress [OF less.prems assms(3) False] obtain c1 where
      c1: "receive_step c c1" "linked c1" "stays c1" "ch_sent c1 = ch_sent c" "work_left c1 < work_left c"
      by blast
    then show ?thesis
      using less.hyps [of c1] by (metis converse_rtranclp_into_rtranclp)
  qed
qed

text \<open>Once a receiver has left for good and its buffer is used up, it takes nothing any more.\<close>

lemma quit_takes_nothing:
  assumes "receive_step\<^sup>*\<^sup>* c c'" and "ch_quit c" and "\<not> ch_running c" and "ch_buf c = []"
  shows "c' = c"
  using assms by (induction rule: converse_rtranclp_induct) (auto elim!: receive_stepE)

text \<open>
  C1. Over every interleaving of any number of senders, stop and quit signals and one receiver:
  what the receiver has taken is always a prefix of what was sent, in order, nothing twice.  While
  the mailbox has its memory, the rest of what was sent waits in it, and whenever anything waits,
  exactly one wake-up byte is on its way (so no wake-up is lost and the pipe never fills up).
\<close>

theorem mail_exactly_once:
  assumes "channel_step\<^sup>*\<^sup>* (channel_init pipes junk) c"
  shows "prefix (ch_delivered c) (ch_sent c) \<and>
    (intact c \<longrightarrow> ch_delivered c @ mailbox_queue (ch_box c) = ch_sent c \<and>
       wake_bytes (ch_buf c @ ch_pipe c) = (if mb_signaled (ch_box c) then 1 else 0) \<and>
       (mailbox_queue (ch_box c) \<noteq> [] \<longrightarrow> mb_signaled (ch_box c)))"
  using reachable_prefix [OF assms] reachable_linked [OF assms]
  by (simp add: linked_def channel_inv_def)

text \<open>A run for the witnesses: one message is sent, then the server is told to stop.\<close>

lemma sample_run:
  obtains c where "channel_step\<^sup>*\<^sup>* (channel_init pipes junk) c" "intact c" "ch_sent c = [m]"
    "ch_delivered c = []" "stays c"
proof -
  let ?c = "channel_init pipes junk"
  have box: "ch_box ?c = mailbox_init pipes junk" by (simp add: channel_init_def)
  obtain mb where mb: "mail_locked (\<lambda>n. None) (ch_box ?c) m = Some (0, mb, [S80_SIGNAL_MAIL])"
      "mailbox_wf mb"
    using mailbox_init_mail [of "\<lambda>n. None" pipes junk m] by (auto simp: box)
  let ?c1 = "?c\<lparr>ch_box := mb, ch_pipe := ch_pipe ?c @ [S80_SIGNAL_MAIL], ch_sent := ch_sent ?c @ [m]\<rparr>"
  have "channel_step ?c ?c1" by (rule channel_step.sends [OF mb(1)]) simp
  moreover have "channel_step ?c1 (?c1\<lparr>ch_pipe := ch_pipe ?c1 @ [S80_SIGNAL_STOP]\<rparr>)"
    by (rule channel_step.signals) simp
  ultimately have "channel_step\<^sup>*\<^sup>* ?c (?c1\<lparr>ch_pipe := ch_pipe ?c1 @ [S80_SIGNAL_STOP]\<rparr>)"
    by (meson converse_rtranclp_into_rtranclp rtranclp.rtrancl_refl)
  then show ?thesis
    using mb(2)
    by (intro that) (auto simp: intact_def mailbox_wf_def channel_init_def stays_def split: option.splits)
qed

definition sample_message :: mailbox_message where
  "sample_message = \<lparr>sender_id = 0, sender_elfd = 5, sender_fd = 6, receiver_fd = 9,
     mtype = S80_MB_MESSAGE, msize = 2, message = PBytes [104, 105]\<rparr>"

theorem mail_exactly_once_witness:
  "\<exists>c. channel_step\<^sup>*\<^sup>* (channel_init (3, 4) (\<lambda>i. sample_message)) c \<and> ch_sent c = [sample_message] \<and>
     mailbox_queue (ch_box c) = [sample_message] \<and> wake_bytes (ch_buf c @ ch_pipe c) = 1"
proof (rule sample_run [of "(3, 4)" "\<lambda>i. sample_message" sample_message])
  fix c
  assume c: "channel_step\<^sup>*\<^sup>* (channel_init (3, 4) (\<lambda>i. sample_message)) c" "intact c"
    "ch_sent c = [sample_message]" "ch_delivered c = []" "stays c"
  then have "mailbox_queue (ch_box c) = [sample_message]" "wake_bytes (ch_buf c @ ch_pipe c) = 1"
    using mail_exactly_once [OF c(1)] by auto
  then show ?thesis using c(1,3) by blast
qed

text \<open>
  C3. No message stays behind at a worker that is not told to leave for good: from every reachable state
  with the mailbox intact, memory available and no quit signal received or on its way, the receiver's
  own steps, of which one is to come back from a reload, lead to a state where it has taken everything
  that was sent.  (A worker that quits takes what its last read of the pipe announced and no more.)
\<close>

theorem mail_delivered:
  assumes "channel_step\<^sup>*\<^sup>* (channel_init pipes junk) c" and "intact c" and "stays c" and "sure_alloc A"
  shows "\<exists>c'. receive_step\<^sup>*\<^sup>* c c' \<and> ch_delivered c' = ch_sent c"
  by (rule receive_all [OF reachable_linked [OF assms(1,2)] assms(3,4)])

theorem mail_delivered_witness:
  "\<exists>(c :: channel) c'. ch_sent c = [sample_message] \<and> ch_delivered c = [] \<and> receive_step\<^sup>*\<^sup>* c c' \<and>
     ch_delivered c' = [sample_message]"
proof (rule sample_run [of "(3, 4)" "\<lambda>i. sample_message" sample_message])
  fix c
  assume c: "channel_step\<^sup>*\<^sup>* (channel_init (3, 4) (\<lambda>i. sample_message)) c" "intact c"
    "ch_sent c = [sample_message]" "ch_delivered c = []" "stays c"
  have "sure_alloc (\<lambda>n. Some (\<lambda>i. sample_message))" by (simp add: sure_alloc_def)
  from mail_delivered [OF c(1,2,5) this] show ?thesis using c(3,4) by auto
qed

text \<open>
  Sending and resolving are memory safe in every reachable state with an intact mailbox: a send
  never leaves the array while fewer than \<open>2 ^ 31 - 1000\<close> messages wait, whatever the allocator
  answers, and resolving faults only if its copy cannot be allocated.
\<close>

theorem mail_memory_safe:
  assumes "channel_step\<^sup>*\<^sup>* (channel_init pipes junk) c" and "intact c"
    and "length (mailbox_queue (ch_box c)) \<le> mailbox_limit"
  shows "mail_locked A (ch_box c) m \<noteq> None \<and> (sure_alloc A' \<longrightarrow> take_mail A' (ch_box c) \<noteq> None)"
proof -
  have ok: "mailbox_wf (ch_box c)"
    using reachable_linked [OF assms(1,2)] by (simp add: linked_def channel_inv_def)
  moreover have "sure_alloc A' \<Longrightarrow> take_mail A' (ch_box c) \<noteq> None"
    using take_mail_step [OF ok, of A'] sure_alloc_Some [of A'] by auto
  ultimately show ?thesis using mq.put_safe [OF _ assms(3)] by blast
qed

theorem mail_memory_safe_witness:
  "\<exists>c :: channel. ch_sent c = [sample_message] \<and> mail_locked (\<lambda>n. None) (ch_box c) sample_message \<noteq> None"
proof (rule sample_run [of "(3, 4)" "\<lambda>i. sample_message" sample_message])
  fix c
  assume c: "channel_step\<^sup>*\<^sup>* (channel_init (3, 4) (\<lambda>i. sample_message)) c" "intact c"
    "ch_sent c = [sample_message]" "ch_delivered c = []" "stays c"
  then have "length (mailbox_queue (ch_box c)) \<le> mailbox_limit"
    using reachable_linked [OF c(1,2)] by (simp add: linked_def channel_inv_def mailbox_limit_def)
  then have "mail_locked (\<lambda>n. None) (ch_box c) sample_message \<noteq> None"
    using mail_memory_safe [OF c(1,2), of "\<lambda>n. None" sample_message "\<lambda>n. None"] by blast
  then show ?thesis using c(3) by blast
qed

text \<open>
  A failed \<open>realloc\<close> poisons a full mailbox: the send that meets it reports the error, but
  leaves a null array behind a grown capacity, so every later send, by any worker and with any
  allocator, stores through the null pointer.
\<close>

theorem mail_after_failed_realloc:
  assumes "mailbox_wf mb" and "mb_size mb = mb_reserved mb" and "mb_size mb \<le> mailbox_limit"
    and "A (mb_reserved mb + 1000) = None"
  shows "\<exists>mb'. mail_locked A mb m = Some (- 1, mb', []) \<and> (\<forall>A' m'. mail_locked A' mb' m' = None)"
  using mail_locked_step [OF assms(1,3), of A m] assms(2,4)
    broken_mail [of "mb\<lparr>mb_reserved := mb_reserved mb + 1000, mb_messages := None\<rparr>"]
  by (auto simp: mail_locked_def msg_realloc_def Let_def mailbox_limit_def)

theorem mail_after_failed_realloc_witness:
  "\<exists>mb'. mail_locked (\<lambda>n. None) \<lparr>mb_pipes = (3, 4), mb_signaled = True,
       mb_messages = Some [sample_message], mb_size = 1, mb_reserved = 1\<rparr> sample_message =
       Some (- 1, mb', []) \<and> (\<forall>A' m'. mail_locked A' mb' m' = None)"
  by (rule mail_after_failed_realloc) (simp_all add: mailbox_wf_def mailbox_limit_def)

end
