(* ===== verification/Sockets.thy ===== *)
theory Sockets
  imports Mailbox "HOL-Library.Multiset"
begin

text \<open>
  The operating-system layer the Lua library calls, \<^verbatim>\<open>src/80s/80s_common.c\<close> in its epoll
  variant: writing, closing and opening sockets, child processes, and the signalling of workers.
  Each function maps the server state before the call to its C result and the state after it; the
  history in the state records every system call.  \<^verbatim>\<open>None\<close> is an access outside memory.
\<close>

section \<open>Small helpers\<close>

text \<open>A C \<open>int\<close> computed from a \<open>size_t\<close>, and a \<open>size_t\<close> from the \<open>ssize_t\<close> a call returns.\<close>

definition int_of_size :: "nat \<Rightarrow> int" where
  "int_of_size n = sint (word_of_nat n :: 32 word)"

definition size_of_ret :: "int \<Rightarrow> nat" where
  "size_of_ret r = nat (r mod 2 ^ 64)"

definition val_at :: "answer \<Rightarrow> nat \<Rightarrow> int" where
  "val_at a i = (if i < length (a_vals a) then a_vals a ! i else - 1)"

definition s80_enable_async :: "env \<Rightarrow> fd \<Rightarrow> server \<Rightarrow> server" where
  "s80_enable_async env f s = log_act env (ANonblock f) s"

definition s80_acquire_mailbox :: "env \<Rightarrow> nat \<Rightarrow> server \<Rightarrow> server" where
  "s80_acquire_mailbox env i s = log_act env (AAcquire i) s"

definition s80_release_mailbox :: "env \<Rightarrow> nat \<Rightarrow> server \<Rightarrow> server" where
  "s80_release_mailbox env i s = log_act env (ARelease i) s"

section \<open>Signalling workers\<close>

text \<open>The mailbox is an element of an array indexed by an \<open>int\<close> the caller chose.\<close>

definition s80_mail :: "env \<Rightarrow> int \<Rightarrow> mailbox_message \<Rightarrow> server \<Rightarrow> (int \<times> server) option" where
  "s80_mail env i msg s =
     (if i < 0 \<or> int (length (mailboxes s)) \<le> i then None
      else
        (let s1 = s80_acquire_mailbox env (nat i) s; mb = mailboxes s1 ! nat i in
         case mail_locked (heap env (hist s1)) mb msg of
           None \<Rightarrow> None
         | Some (r, mb', w) \<Rightarrow>
             (let s2 = s1\<lparr>mailboxes := (mailboxes s1)[nat i := mb']\<rparr>;
                  s3 = (if w = [] then s2 else log_act env (AWrite (snd (mb_pipes mb')) w) s2)
              in Some (r, s80_release_mailbox env (nat i) s3))))"

definition signal_worker :: "env \<Rightarrow> byte \<Rightarrow> nat \<Rightarrow> server \<Rightarrow> server" where
  "signal_worker env b i s =
     (let s1 = s80_acquire_mailbox env i s;
          s2 = log_act env (AWrite (snd (mb_pipes (mailboxes s1 ! i))) [b]) s1
      in s80_release_mailbox env i s2)"

text \<open>\<open>reload->workers\<close> is the number of mailboxes.\<close>

definition s80_reload :: "env \<Rightarrow> server \<Rightarrow> int \<times> server" where
  "s80_reload env s =
     (if rl_ready s < int (length (mailboxes s)) then (- 1, s)
      else
        (let s1 = fold (signal_worker env S80_SIGNAL_STOP) [0..<length (mailboxes s)] s
         in (0, s1\<lparr>rl_ready := 0, rl_running := rl_running s1 + 1\<rparr>)))"

definition s80_quit :: "env \<Rightarrow> server \<Rightarrow> int \<times> server" where
  "s80_quit env s =
     (let s1 = fold (signal_worker env S80_SIGNAL_QUIT) [0..<length (mailboxes s)] s
      in (0, s1\<lparr>rl_ready := 0, rl_running := 0\<rparr>))"

section \<open>Sockets\<close>

definition s80_write :: "env \<Rightarrow> fd \<Rightarrow> fd \<Rightarrow> int \<Rightarrow> byte list \<Rightarrow> nat \<Rightarrow> nat \<Rightarrow> server \<Rightarrow>
    (int \<times> server) option" where
  "s80_write env elfd childfd fdtype data offset len s =
     (if len < offset \<or> length data < len then None
      else
        (let (a, s1) = act env (AWrite childfd (take (len - offset) (drop offset data))) s;
             writelen = size_of_ret (a_ret a)
         in if writelen < len then
              (let (st, s2) = act env (AEpollCtl elfd EPOLL_CTL_MOD childfd (EPOLLIN OR EPOLLOUT)
                     (SET_FD_HOLDER fdtype childfd)) s1
               in if a_ret st < 0 then Some (- 1, s2) else Some (int_of_size writelen, s2))
            else Some (int_of_size writelen, s1)))"

text \<open>\<open>run\<close> executes what the Lua callback does; \<open>ctx\<close> is the Lua state of the caller.\<close>

definition s80_close :: "env \<Rightarrow> lua_runner \<Rightarrow> nat \<Rightarrow> fd \<Rightarrow> fd \<Rightarrow> int \<Rightarrow> bool \<Rightarrow> server \<Rightarrow>
    (int \<times> server) option" where
  "s80_close env run ctx elfd childfd fdtype callback s =
     (let (st, s1) = act env (AEpollCtl elfd EPOLL_CTL_DEL childfd (EPOLLIN OR EPOLLOUT)
            (SET_FD_HOLDER fdtype childfd)) s
      in if a_ret st < 0 then Some (a_ret st, s1)
         else
           (let (cl, s2) = act env (AClose childfd) s1 in
            if callback then
              map_option (Pair (a_ret cl))
                (on_close env run \<lparr>cp_ctx = ctx, cp_elfd = elfd, cp_childfd = childfd\<rparr> s2)
            else Some (a_ret cl, s2)))"

abbreviation (input) AF_UNIX :: int where "AF_UNIX \<equiv> 1"
abbreviation (input) AF_INET :: int where "AF_INET \<equiv> 2"
abbreviation (input) AF_INET6 :: int where "AF_INET6 \<equiv> 10"
abbreviation (input) SOCK_STREAM :: int where "SOCK_STREAM \<equiv> 1"
abbreviation (input) SOCK_DGRAM :: int where "SOCK_DGRAM \<equiv> 2"
abbreviation (input) IPPROTO_TCP :: int where "IPPROTO_TCP \<equiv> 6"
abbreviation (input) IPPROTO_UDP :: int where "IPPROTO_UDP \<equiv> 17"
abbreviation (input) EINPROGRESS :: int where "EINPROGRESS \<equiv> 115"
abbreviation (input) EINVAL :: int where "EINVAL \<equiv> 22"

text \<open>\<open>strstr(addr, prefix) == addr\<close>, and what is left.\<close>

definition addr_protocol :: "byte list \<Rightarrow> int \<times> byte list" where
  "addr_protocol addr =
     (if prefix (cstr ''v6:'') addr then (AF_INET6, drop 3 addr)
      else if prefix (cstr ''unix:'') addr then (AF_UNIX, drop 5 addr)
      else (AF_INET, addr))"

text \<open>
  Name resolution (lines 74 to 139): \<open>gethostbyname\<close> answers 0 for a null pointer, else the
  address family with the addresses of the host.  The result is the protocol to use and the
  address with its size.
\<close>

definition resolve_addr :: "env \<Rightarrow> byte list \<Rightarrow> int \<Rightarrow> server \<Rightarrow>
    (int \<times> sockaddr \<times> nat) option \<times> server" where
  "resolve_addr env addr portno s =
     (let (protocol, name) = addr_protocol addr; port = nat (portno mod 2 ^ 16) in
      if protocol = AF_UNIX then (Some (AF_UNIX, SockUnix (take 108 name), 110), s)
      else
        (let (hp, s1) = act env (AResolve name) s in
         if a_ret hp = AF_INET \<and> a_vals hp \<noteq> [] then
           (Some (AF_INET, SockV4 (hd (a_vals hp)) port, 16), s1)
         else if a_ret hp = AF_INET6 \<and> a_vals hp \<noteq> [] \<and> protocol = AF_INET6 then
           (Some (AF_INET6, SockV6 (hd (a_vals hp)) port, 28), s1)
         else (None, s1\<lparr>c_errno := EINVAL\<rparr>)))"

definition s80_connect :: "env \<Rightarrow> fd \<Rightarrow> byte list \<Rightarrow> int \<Rightarrow> bool \<Rightarrow> server \<Rightarrow> int \<times> server" where
  "s80_connect env elfd addr portno is_udp s =
     (case resolve_addr env addr portno s of
        (None, s1) \<Rightarrow> (- 1, s1)
      | (Some (protocol, sa, len), s1) \<Rightarrow>
          (let sock_type = (if is_udp then SOCK_DGRAM else SOCK_STREAM);
               ip_proto = (if protocol = AF_UNIX then 0 else if is_udp then IPPROTO_UDP else IPPROTO_TCP);
               (a, s2) = act env (ASocket protocol sock_type ip_proto) s1;
               childfd = a_ret a;
               s3 = s80_enable_async env childfd s2
           in if childfd < 0 then (- 1, s3)
              else
                (let (st, s4) = act env (AConnect childfd sa len) s3 in
                 if a_ret st = 0 \<or> a_errno st = EINPROGRESS then
                   (let (ep, s5) = act env (AEpollCtl elfd EPOLL_CTL_ADD childfd
                          (EPOLLIN OR EPOLLOUT) (SET_FD_HOLDER S80_FD_SOCKET childfd)) s4
                    in if a_ret ep < 0 then (- 1, s5) else (childfd, s5))
                 else (- 1, s4))))"

text \<open>
  The address text \<open>inet_ntop\<close> writes is the bytes of the answer; the family and the port are its
  numbers.
\<close>

definition s80_peername :: "env \<Rightarrow> fd \<Rightarrow> server \<Rightarrow> (byte list \<times> int) option \<times> server" where
  "s80_peername env f s =
     (let (a, s1) = act env (APeername f) s in
      if a_ret a < 0 then (None, s1)
      else if val_at a 0 = AF_INET \<or> val_at a 0 = AF_INET6 then
        (Some (takeWhile (\<lambda>b. b \<noteq> 0) (a_bytes a), val_at a 1), s1)
      else (None, s1))"

section \<open>Child processes\<close>

definition cleanup_pipes :: "env \<Rightarrow> fd \<Rightarrow> fd list \<Rightarrow> int \<Rightarrow> server \<Rightarrow> server" where
  "cleanup_pipes env elfd pipes allocated s =
     (fold (\<lambda>i s. if i < 2 then
         log_act env (AEpollCtl elfd EPOLL_CTL_DEL (pipes ! i) (if i = 0 then EPOLLIN else EPOLLOUT)
           (SET_FD_HOLDER S80_FD_PIPE (pipes ! i))) s
       else s) [0..<nat allocated] s)\<lparr>c_errno := c_errno s\<rparr>"

definition close_all :: "env \<Rightarrow> fd list \<Rightarrow> server \<Rightarrow> server" where
  "close_all env fds s = fold (\<lambda>f. log_act env (AClose f)) fds s"

definition register_pipe :: "env \<Rightarrow> fd \<Rightarrow> fd list \<Rightarrow> nat \<Rightarrow> server \<Rightarrow> int \<times> server" where
  "register_pipe env elfd pipes i s =
     (let s1 = s80_enable_async env (pipes ! i) s;
          (st, s2) = act env (AEpollCtl elfd EPOLL_CTL_ADD (pipes ! i)
            (if i = 0 then EPOLLIN else EPOLLOUT) (SET_FD_HOLDER S80_FD_PIPE (pipes ! i))) s1
      in if a_ret st < 0 then
           (a_ret st, close_all env pipes (cleanup_pipes env elfd pipes (int i - 1) s2))
         else (0, s2))"

text \<open>
  The child process never returns from \<open>s80_popen\<close>: \<open>Exited\<close>.  The parent gets the C result and
  the two ends it keeps.
\<close>

datatype popen_result = Exited | Parent int "fd list"

definition popen_fork :: "env \<Rightarrow> fd \<Rightarrow> fd list \<Rightarrow> byte list \<Rightarrow> byte list list \<Rightarrow> server \<Rightarrow>
    popen_result \<times> server" where
  "popen_fork env elfd pipes command args s =
     (let (a, s1) = act env AFork s; pid = a_ret a in
      if pid < 0 then (Parent pid [], close_all env pipes (cleanup_pipes env elfd pipes 2 s1))
      else if pid = 0 then
        (let s2 = log_act env (ADup2 (pipes ! 2) 0) (log_act env ASignalDefault s1);
             s3 = log_act env (ADup2 (pipes ! 3) 2) (log_act env (ADup2 (pipes ! 3) 1) s2);
             s4 = close_all env [pipes ! 1, pipes ! 0] s3
         in (Exited, log_act env (AExec command args) s4))
      else (Parent 0 [pipes ! 0, pipes ! 1], close_all env [pipes ! 2, pipes ! 3] s1))"

definition s80_popen :: "env \<Rightarrow> fd \<Rightarrow> byte list \<Rightarrow> byte list list \<Rightarrow> server \<Rightarrow>
    popen_result \<times> server" where
  "s80_popen env elfd command args s =
     (let (wr, s1) = act env APipe s in
      if a_ret wr < 0 then (Parent (- 1) [], s1)
      else
        (let (rdp, s2) = act env APipe s1 in
         if a_ret rdp < 0 then (Parent (- 1) [], close_all env [val_at wr 0, val_at wr 1] s2)
         else
           (let pipes = [val_at rdp 0, val_at wr 1, val_at wr 0, val_at rdp 1];
                (st0, s3) = register_pipe env elfd pipes 0 s2
            in if st0 < 0 then (Parent st0 [], s3)
               else
                 (let (st1, s4) = register_pipe env elfd pipes 1 s3 in
                  if st1 < 0 then (Parent st1 [], s4)
                  else popen_fork env elfd pipes command args s4))))"

section \<open>What the socket operations do\<close>

lemma close_all_hist: "hist (close_all env fds s) = hist s @ map AClose fds"
  by (induction fds arbitrary: s) (simp_all add: close_all_def)

lemma signal_worker_hist:
  "hist (signal_worker env b i s) =
     hist s @ [AAcquire i, AWrite (snd (mb_pipes (mailboxes s ! i))) [b], ARelease i]"
  "mailboxes (signal_worker env b i s) = mailboxes s"
  "rl_ready (signal_worker env b i s) = rl_ready s"
  "rl_running (signal_worker env b i s) = rl_running s"
  by (simp_all add: signal_worker_def s80_acquire_mailbox_def s80_release_mailbox_def Let_def
      log_act_def act_def)

lemma signal_workers_hist:
  "hist (fold (signal_worker env b) is s) =
     hist s @ concat (map (\<lambda>i. [AAcquire i, AWrite (snd (mb_pipes (mailboxes s ! i))) [b], ARelease i]) is) \<and>
   mailboxes (fold (signal_worker env b) is s) = mailboxes s \<and>
   rl_running (fold (signal_worker env b) is s) = rl_running s"
  by (induction "is" arbitrary: s) (simp_all add: signal_worker_hist)

text \<open>
  Asking for a reload does nothing until every worker is ready; then, and whenever the server
  quits, every worker's self-pipe gets the signal byte exactly once, each under that worker's lock
  and each lock released before the next is taken, and no message is touched.
\<close>

theorem signals_reach_every_worker:
  "s80_reload env s =
     (if rl_ready s < int (length (mailboxes s)) then (- 1, s) else (0, snd (s80_reload env s))) \<and>
   (int (length (mailboxes s)) \<le> rl_ready s \<longrightarrow>
     since s (snd (s80_reload env s)) = concat (map (\<lambda>i. [AAcquire i,
       AWrite (snd (mb_pipes (mailboxes s ! i))) [S80_SIGNAL_STOP], ARelease i]) [0..<length (mailboxes s)]) \<and>
     mailboxes (snd (s80_reload env s)) = mailboxes s \<and> rl_ready (snd (s80_reload env s)) = 0 \<and>
     rl_running (snd (s80_reload env s)) = rl_running s + 1) \<and>
   since s (snd (s80_quit env s)) = concat (map (\<lambda>i. [AAcquire i,
       AWrite (snd (mb_pipes (mailboxes s ! i))) [S80_SIGNAL_QUIT], ARelease i]) [0..<length (mailboxes s)]) \<and>
   mailboxes (snd (s80_quit env s)) = mailboxes s \<and> rl_running (snd (s80_quit env s)) = 0"
  using signal_workers_hist [of env _ "[0..<length (mailboxes s)]" s]
  by (simp add: s80_reload_def s80_quit_def Let_def since_def)

theorem signals_reach_every_worker_witness:
  "since \<lparr>hist = [], mailboxes = [mailbox_init (3, 4) (\<lambda>i. sample_message), mailbox_init (5, 6) (\<lambda>i. sample_message)],
       rl_ready = 2, rl_running = 1, c_errno = 0\<rparr>
     (snd (s80_reload (const_env 0) \<lparr>hist = [], mailboxes = [mailbox_init (3, 4) (\<lambda>i. sample_message), mailbox_init (5, 6) (\<lambda>i. sample_message)],
       rl_ready = 2, rl_running = 1, c_errno = 0\<rparr>)) =
   [AAcquire 0, AWrite 4 [1], ARelease 0, AAcquire 1, AWrite 6 [1], ARelease 1]"
  using signals_reach_every_worker [of "const_env 0" "\<lparr>hist = [], mailboxes = [mailbox_init (3, 4) (\<lambda>i. sample_message),
      mailbox_init (5, 6) (\<lambda>i. sample_message)], rl_ready = 2, rl_running = 1, c_errno = 0\<rparr>"]
  by (simp add: mailbox_init_def numeral_2_eq_2)

text \<open>
  Sending a message takes the receiver's lock, performs one critical section, wakes the
  receiver at most once, and releases the lock on every path, the failing one included; no other
  mailbox changes.  A worker number outside the mailbox array is an access outside memory.
\<close>

theorem s80_mail_critical_section:
  "(i < 0 \<or> int (length (mailboxes s)) \<le> i \<longrightarrow> s80_mail env i msg s = None) \<and>
   (s80_mail env i msg s = Some (r, s') \<longrightarrow>
     (\<exists>mb' w. mail_locked (heap env (hist s @ [AAcquire (nat i)])) (mailboxes s ! nat i) msg = Some (r, mb', w) \<and>
       since s s' = AAcquire (nat i) # (if w = [] then [] else [AWrite (snd (mb_pipes mb')) w]) @ [ARelease (nat i)] \<and>
       mailboxes s' = (mailboxes s)[nat i := mb'] \<and> length w \<le> 1))"
proof (intro conjI impI)
  assume "i < 0 \<or> int (length (mailboxes s)) \<le> i"
  then show "s80_mail env i msg s = None" by (simp add: s80_mail_def)
next
  assume r: "s80_mail env i msg s = Some (r, s')"
  let ?s1 = "s80_acquire_mailbox env (nat i) s"
  have s1: "hist ?s1 = hist s @ [AAcquire (nat i)]" "mailboxes ?s1 = mailboxes s"
    by (simp_all add: s80_acquire_mailbox_def)
  from r obtain mb' w where m: "mail_locked (heap env (hist ?s1)) (mailboxes s ! nat i) msg = Some (r, mb', w)"
    and s': "s' = s80_release_mailbox env (nat i) (if w = [] then ?s1\<lparr>mailboxes := (mailboxes s)[nat i := mb']\<rparr>
      else log_act env (AWrite (snd (mb_pipes mb')) w) (?s1\<lparr>mailboxes := (mailboxes s)[nat i := mb']\<rparr>))"
    by (auto simp: s80_mail_def Let_def s1(2) split: option.splits if_splits)
  have "length w \<le> 1"
    using m by (auto simp: mail_locked_def store_message_def Let_def split: option.splits if_splits)
  moreover have "since s s' = AAcquire (nat i) #
      (if w = [] then [] else [AWrite (snd (mb_pipes mb')) w]) @ [ARelease (nat i)]"
    "mailboxes s' = (mailboxes s)[nat i := mb']"
    by (simp_all add: s' s1 s80_release_mailbox_def since_def)
  ultimately show "\<exists>mb' w. mail_locked (heap env (hist s @ [AAcquire (nat i)])) (mailboxes s ! nat i) msg = Some (r, mb', w) \<and>
       since s s' = AAcquire (nat i) # (if w = [] then [] else [AWrite (snd (mb_pipes mb')) w]) @ [ARelease (nat i)] \<and>
       mailboxes s' = (mailboxes s)[nat i := mb'] \<and> length w \<le> 1"
    using m unfolding s1(1) by blast
qed

theorem s80_mail_critical_section_witness:
  "\<exists>s'. s80_mail (const_env 1) 0 sample_message (idle_server\<lparr>mailboxes := [mailbox_init (3, 4) (\<lambda>i. sample_message)]\<rparr>) =
       Some (0, s') \<and>
     since (idle_server\<lparr>mailboxes := [mailbox_init (3, 4) (\<lambda>i. sample_message)]\<rparr>) s' = [AAcquire 0, AWrite 4 [3], ARelease 0]"
proof -
  let ?s = "idle_server\<lparr>mailboxes := [mailbox_init (3, 4) (\<lambda>i. sample_message)]\<rparr>"
  have m: "\<exists>mb. mail_locked A (mailboxes ?s ! 0) sample_message = Some (0, mb, [3]) \<and> mb_pipes mb = (3, 4)" for A
    by (simp add: mail_locked_def store_message_def mailbox_init_def Let_def)
  then obtain mb where "mail_locked (heap (const_env 1) [AAcquire 0]) (mailboxes ?s ! 0) sample_message =
      Some (0, mb, [3])" by blast
  then have "\<exists>s'. s80_mail (const_env 1) 0 sample_message ?s = Some (0, s')"
    by (simp add: s80_mail_def Let_def s80_acquire_mailbox_def idle_server_def)
  then obtain s' where s': "s80_mail (const_env 1) 0 sample_message ?s = Some (0, s')" by blast
  from s80_mail_critical_section [of 0 ?s "const_env 1" sample_message 0 s'] s'
  obtain mb' w where w: "mail_locked (heap (const_env 1) (hist ?s @ [AAcquire (nat 0)]))
        (mailboxes ?s ! nat 0) sample_message = Some (0, mb', w)"
      "since ?s s' = AAcquire (nat 0) # (if w = [] then [] else [AWrite (snd (mb_pipes mb')) w]) @ [ARelease (nat 0)]"
    by blast
  obtain mb where "mail_locked (heap (const_env 1) (hist ?s @ [AAcquire (nat 0)]))
      (mailboxes ?s ! nat 0) sample_message = Some (0, mb, [3]) \<and> mb_pipes mb = (3, 4)"
    using m by (metis nat_zero_as_int)
  then have "since ?s s' = [AAcquire 0, AWrite 4 [3], ARelease 0]" using w by auto
  then show ?thesis using s' by blast
qed

text \<open>
  Writing is one \<open>write\<close> of the bytes from the offset on.  The socket is subscribed for
  writability exactly when the call accepted some number of bytes below the whole length; so when
  the kernel accepts nothing (\<open>EWOULDBLOCK\<close> included, whatever \<open>errno\<close> says) the result is the
  negative value and no subscription is made, and when an offset was given a complete write still
  subscribes.
\<close>

theorem s80_write_result:
  assumes "offset \<le> len" and "len \<le> length data" and "len < 2 ^ 31"
    and ret: "r = a_ret (answers env (hist s @ [AWrite f (take (len - offset) (drop offset data))]))"
      "- 1 \<le> r" "r \<le> int (len - offset)"
  shows "\<exists>s'. s80_write env elfd f ty data offset len s =
      Some (if 0 \<le> r \<and> r < int len \<and> a_ret (answers env (hist s')) < 0 then - 1 else r, s') \<and>
    since s s' = AWrite f (take (len - offset) (drop offset data)) #
      (if 0 \<le> r \<and> r < int len then
         [AEpollCtl elfd EPOLL_CTL_MOD f (EPOLLIN OR EPOLLOUT) (SET_FD_HOLDER ty f)] else [])"
proof -
  have neg: "size_of_ret (- 1) = 2 ^ 64 - 1" "int_of_size (2 ^ 64 - 1) = - 1"
    by (simp_all add: size_of_ret_def int_of_size_def)
  have pos: "size_of_ret r = nat r" "int_of_size (nat r) = r" if "0 \<le> r"
  proof -
    have "int len < 2 ^ 31"
      using assms(3) by (metis of_nat_less_iff of_nat_numeral of_nat_power)
    then have "r < 2 ^ 31" using ret(3) by linarith
    then show "size_of_ret r = nat r" "int_of_size (nat r) = r"
      using that sint_word_of_int [of r]
      by (simp_all add: size_of_ret_def int_of_size_def c_int_def)
  qed
  have len: "nat r < len \<longleftrightarrow> r < int len" if "0 \<le> r" using that by linarith
  show ?thesis
  proof (cases "r = - 1")
    case True
    have "\<not> 2 ^ 64 - 1 < len" using assms(3) by simp
    then show ?thesis
      using assms(1,2) ret(1) True neg
      by (simp add: s80_write_def act_def Let_def since_def)
  next
    case False
    then have "0 \<le> r" using ret(2) by simp
    then show ?thesis
      using assms(1,2) ret(1) pos len
      by (auto simp: s80_write_def act_def Let_def since_def)
  qed
qed

theorem s80_write_result_witness:
  "\<exists>s'. s80_write (const_env 1) 5 9 S80_FD_SOCKET [65, 66, 67] 1 3 idle_server = Some (1, s') \<and>
    since idle_server s' = [AWrite 9 [66, 67],
      AEpollCtl 5 EPOLL_CTL_MOD 9 (EPOLLIN OR EPOLLOUT) (SET_FD_HOLDER S80_FD_SOCKET 9)]"
  using s80_write_result [of 1 3 "[65, 66, 67]" 1 "const_env 1" idle_server 9 5 S80_FD_SOCKET] by simp

lemma map_option_Pair: "map_option (Pair r) m = Some (q, s') \<longleftrightarrow> q = r \<and> m = Some s'"
  by (cases m) auto

text \<open>
  Closing removes the descriptor from epoll first.  If that fails the descriptor is neither
  closed nor reported; otherwise it is closed once and, when a callback is wanted, reported to Lua
  once, after the close and whatever the close returned.
\<close>

theorem s80_close_order:
  "\<exists>del. del = AEpollCtl elfd EPOLL_CTL_DEL f (EPOLLIN OR EPOLLOUT) (SET_FD_HOLDER ty f) \<and>
    (if a_ret (answers env (hist s @ [del])) < 0 then
       \<exists>s'. s80_close env run L elfd f ty cb s = Some (a_ret (answers env (hist s @ [del])), s') \<and>
         since s s' = [del]
     else
       s80_close env run L elfd f ty cb s =
         map_option (Pair (a_ret (answers env (hist s @ [del, AClose f]))))
           (if cb then pcall env run L ''on_close'' [fd_to_void elfd, fd_to_void f]
              (log_act env (AClose f) (log_act env del s))
            else Some (log_act env (AClose f) (log_act env del s))))"
  by (simp add: s80_close_def act_def Let_def log_act_def on_close_def)

text \<open>
  Connecting never closes a descriptor.  When it returns one, that socket was just created,
  made non-blocking and registered with the event loop for both directions; every other outcome is
  the value -1.
\<close>

theorem s80_connect_result:
  assumes "s80_connect env elfd addr port udp s = (r, s')"
  shows "closed_fds (since s s') = [] \<and>
    (r = - 1 \<or>
     0 \<le> r \<and> ANonblock r \<in> set (since s s') \<and>
     last (hist s') = AEpollCtl elfd EPOLL_CTL_ADD r (EPOLLIN OR EPOLLOUT) (SET_FD_HOLDER S80_FD_SOCKET r) \<and>
     0 \<le> a_ret (answers env (hist s')))"
proof -
  obtain target s1 where res: "resolve_addr env addr port s = (target, s1)" by fastforce
  then obtain tr where h: "hist s1 = hist s @ tr" "closed_fds tr = []"
    by (auto simp: resolve_addr_def act_def Let_def split: prod.splits if_splits)
  show ?thesis
  proof (cases target)
    case None
    then show ?thesis using assms res h by (simp add: s80_connect_def)
  next
    case (Some t)
    obtain protocol sa len where "t = (protocol, sa, len)" by (cases t)
    then show ?thesis
      using assms res h Some
      by (auto simp: s80_connect_def act_def log_act_def s80_enable_async_def Let_def since_def
          split: if_splits)
  qed
qed

theorem s80_connect_result_witness:
  "\<exists>s'. s80_connect (const_env 0) 5 (cstr ''unix:/s'') 80 False idle_server = (0, s') \<and>
     closed_fds (since idle_server s') = [] \<and> ANonblock 0 \<in> set (since idle_server s')"
proof -
  obtain r s' where rs: "s80_connect (const_env 0) 5 (cstr ''unix:/s'') 80 False idle_server = (r, s')"
    by fastforce
  have "r = 0"
    using rs by (simp add: s80_connect_def resolve_addr_def addr_protocol_def cstr_def act_def
        log_act_def s80_enable_async_def Let_def)
  then show ?thesis using s80_connect_result [OF rs] rs by auto
qed

text \<open>
  A connection attempt that fails after its socket was created leaks the socket: when the
  kernel refuses the connection (with any error but \<open>EINPROGRESS\<close>), or the event loop cannot take
  the descriptor, the result is -1, no close was made, and the caller has no way to name the
  descriptor.
\<close>

theorem s80_connect_leaks:
  assumes "prefix (cstr ''unix:'') addr"
    and "f = a_ret (answers env (hist s @ [ASocket AF_UNIX SOCK_STREAM 0]))" and "0 \<le> f"
    and "h = hist s @ [ASocket AF_UNIX SOCK_STREAM 0, ANonblock f,
          AConnect f (SockUnix (take 108 (drop 5 addr))) 110]"
    and "a_ret (answers env h) < 0" and "a_errno (answers env h) \<noteq> EINPROGRESS"
  shows "\<exists>s'. s80_connect env elfd addr port False s = (- 1, s') \<and> hist s' = h"
proof -
  have "\<not> prefix (cstr ''v6:'') addr"
    using assms(1) by (auto simp: prefix_def cstr_def)
  then have "addr_protocol addr = (AF_UNIX, drop 5 addr)"
    using assms(1) by (simp add: addr_protocol_def)
  then show ?thesis
    using assms(2-)
    by (simp add: s80_connect_def resolve_addr_def act_def log_act_def s80_enable_async_def Let_def)
qed

theorem s80_connect_leaks_witness:
  "\<exists>env s'. s80_connect env 5 (cstr ''unix:/s'') 80 False idle_server = (- 1, s') \<and>
     hist s' = [ASocket AF_UNIX SOCK_STREAM 0, ANonblock 9, AConnect 9 (SockUnix (cstr ''/s'')) 110]"
proof -
  let ?env = "(const_env 9)\<lparr>answers := \<lambda>h. \<lparr>a_ret = (if length h = 1 then 9 else - 1), a_errno = 111,
      a_bytes = [], a_vals = [], a_plan = [], a_events = []\<rparr>\<rparr>"
  have "\<exists>s'. s80_connect ?env 5 (cstr ''unix:/s'') 80 False idle_server = (- 1, s') \<and>
      hist s' = hist idle_server @ [ASocket AF_UNIX SOCK_STREAM 0, ANonblock 9,
        AConnect 9 (SockUnix (take 108 (drop 5 (cstr ''unix:/s'')))) 110]"
    by (rule s80_connect_leaks) (simp_all add: cstr_def idle_server_def)
  then show ?thesis by (auto simp: cstr_def idle_server_def)
qed

text \<open>The descriptors a stretch of history created with \<open>pipe\<close>.\<close>

fun piped_fds :: "env \<Rightarrow> action list \<Rightarrow> action list \<Rightarrow> fd list" where
  "piped_fds env h [] = []"
| "piped_fds env h (a # tr) =
     (if a = APipe \<and> 0 \<le> a_ret (answers env (h @ [a]))
      then [val_at (answers env (h @ [a])) 0, val_at (answers env (h @ [a])) 1] else []) @
     piped_fds env (h @ [a]) tr"

lemma piped_fds_closes [simp]: "piped_fds env h (map AClose fds) = []"
  by (induction fds arbitrary: h) simp_all

text \<open>
  Starting a child process loses no pipe end.  In the parent, whatever fails, each end of the
  pipes that were created is either closed exactly once or returned; on success the two ends of the
  child are closed and the parent's two are returned, non-blocking and registered with the event
  loop for reading and for writing.
\<close>

theorem s80_popen_pipes:
  "case s80_popen env elfd command args s of
     (Exited, s') \<Rightarrow> last (hist s') = AExec command args
   | (Parent r fds, s') \<Rightarrow>
       mset (closed_fds (since s s')) + mset fds = mset (piped_fds env (hist s) (since s s')) \<and>
       (if r < 0 then fds = []
        else \<exists>rp wp. fds = [rp, wp] \<and> ANonblock rp \<in> set (since s s') \<and> ANonblock wp \<in> set (since s s') \<and>
          AEpollCtl elfd EPOLL_CTL_ADD rp EPOLLIN (SET_FD_HOLDER S80_FD_PIPE rp) \<in> set (since s s') \<and>
          AEpollCtl elfd EPOLL_CTL_ADD wp EPOLLOUT (SET_FD_HOLDER S80_FD_PIPE wp) \<in> set (since s s'))"
  by (auto simp: s80_popen_def popen_fork_def register_pipe_def cleanup_pipes_def close_all_def
      s80_enable_async_def act_def log_act_def Let_def since_def upt_rec
      split: if_splits)

end
