(* ===== verification/Algo.thy ===== *)
theory Algo
  imports Prelude80s
begin

text \<open>
  Substring search, \<^verbatim>\<open>src/80s/algo.c\<close>: the optimised Knuth-Morris-Pratt table of
  \<open>build_kmp\<close> and the search \<open>kmp\<close>, which also reports a partial match at the end of the
  haystack (the Lua side uses it to find a delimiter split over two packets).

  The loops are not bounded by their form, so they are \<^verbatim>\<open>partial_function (option)\<close>:
  \<^verbatim>\<open>None\<close> is a loop that does not end or an access outside an array.  The theorems show
  that the result is \<^verbatim>\<open>Some\<close>.
\<close>

section \<open>The code\<close>

text \<open>Array accesses with an \<open>int64_t\<close> index.\<close>

definition rd :: "'a list \<Rightarrow> int \<Rightarrow> 'a option" where
  "rd xs i = (if 0 \<le> i \<and> i < int (length xs) then Some (xs ! nat i) else None)"

definition wr :: "'a list \<Rightarrow> int \<Rightarrow> 'a \<Rightarrow> 'a list option" where
  "wr xs i v = (if 0 \<le> i \<and> i < int (length xs) then Some (xs[nat i := v]) else None)"

text \<open>The conversions \<open>(int64_t)n\<close> of a \<open>size_t\<close> and back.\<close>

definition s64 :: "nat \<Rightarrow> int" where
  "s64 n = (if n < 2 ^ 63 then int n else int n - 2 ^ 64)"

definition u64 :: "int \<Rightarrow> nat" where
  "u64 i = nat (i mod 2 ^ 64)"

text \<open>\<open>while (j >= 0 && pattern[i] != pattern[j]) j = KMP_T[j];\<close>\<close>

partial_function (option) kmp_back :: "byte list \<Rightarrow> int list \<Rightarrow> int \<Rightarrow> int \<Rightarrow> int option" where
  "kmp_back pattern T i j =
     (if 0 \<le> j then
        Option.bind (rd pattern i) (\<lambda>a. Option.bind (rd pattern j) (\<lambda>b.
          if a \<noteq> b then Option.bind (rd T j) (\<lambda>j'. kmp_back pattern T i j') else Some j))
      else Some j)"

partial_function (option) build_loop :: "byte list \<Rightarrow> int list \<Rightarrow> int \<Rightarrow> int \<Rightarrow> int list option" where
  "build_loop pattern T i j =
     (if i < s64 (length pattern) then
        Option.bind (rd pattern i) (\<lambda>a. Option.bind (rd pattern j) (\<lambda>b.
          if a = b then
            Option.bind (rd T j) (\<lambda>t. Option.bind (wr T i t) (\<lambda>T'.
              build_loop pattern T' (i + 1) (j + 1)))
          else
            Option.bind (wr T i j) (\<lambda>T'. Option.bind (kmp_back pattern T' i j) (\<lambda>j'.
              build_loop pattern T' (i + 1) (j' + 1)))))
      else wr T i j)"

definition build_kmp :: "byte list \<Rightarrow> int list \<Rightarrow> int list option" where
  "build_kmp pattern T = Option.bind (wr T 0 (- 1)) (\<lambda>T'. build_loop pattern T' 1 0)"

text \<open>The search loop from \<open>(j, k)\<close>, down to the returned pair of offset and length.\<close>

partial_function (option) kmp_loop ::
    "byte list \<Rightarrow> byte list \<Rightarrow> int list \<Rightarrow> int \<Rightarrow> int \<Rightarrow> (nat \<times> nat) option" where
  "kmp_loop haystack pattern T j k =
     (if j < s64 (length haystack) then
        Option.bind (rd pattern k) (\<lambda>a. Option.bind (rd haystack j) (\<lambda>b.
          if a = b then
            (if k + 1 = s64 (length pattern) then Some (u64 (j + 1 - (k + 1)), u64 (k + 1))
             else kmp_loop haystack pattern T (j + 1) (k + 1))
          else if u64 j = length haystack then Some (u64 (j - k), u64 k)
          else
            Option.bind (rd T k) (\<lambda>k'.
              if k' < 0 then kmp_loop haystack pattern T (j + 1) (k' + 1)
              else kmp_loop haystack pattern T j k')))
      else Some (u64 (j - k), u64 k))"

text \<open>
  \<open>memchr(haystack + offset, c, len - offset)\<close>: the offset of the first \<open>c\<close>; an offset beyond
  the haystack makes the count wrap, and the read leaves the haystack.
\<close>

fun find_byte :: "byte \<Rightarrow> byte list \<Rightarrow> nat option" where
  "find_byte c [] = None"
| "find_byte c (x # xs) = (if x = c then Some 0 else map_option Suc (find_byte c xs))"

text \<open>\<open>local_kmp_t[258]\<close> starts with whatever the stack holds, \<open>junk\<close>.\<close>

definition kmp :: "(nat \<Rightarrow> int) \<Rightarrow> byte list \<Rightarrow> byte list \<Rightarrow> nat \<Rightarrow> int list option \<Rightarrow>
    (nat \<times> nat) option" where
  "kmp junk haystack pattern offset KMP_T =
     (let len = length haystack; pattern_len = length pattern in
      if len = 0 \<or> pattern_len = 0 then Some (len, 0)
      else if pattern_len = 1 then
        (if offset \<le> len then
           (case find_byte (hd pattern) (drop offset haystack) of
              Some n \<Rightarrow> Some (offset + n, 1) | None \<Rightarrow> Some (len, 0))
         else None)
      else
        (case KMP_T of
           Some T \<Rightarrow> kmp_loop haystack pattern T (s64 offset) 0
         | None \<Rightarrow>
             if pattern_len > 256 then Some (u64 (- 1), 0)
             else Option.bind (build_kmp pattern (map junk [0..<258]))
               (\<lambda>T. kmp_loop haystack pattern T (s64 offset) 0)))"

section \<open>Borders of the pattern and what the table means\<close>

text \<open>\<open>border p x k\<close>: the prefix of length \<open>k\<close> is a proper suffix of the prefix of length \<open>x\<close>.\<close>

definition border :: "'a list \<Rightarrow> nat \<Rightarrow> nat \<Rightarrow> bool" where
  "border p x k \<longleftrightarrow> k < x \<and> (\<forall>y<k. p ! (x - k + y) = p ! y)"

text \<open>
  The table entry of \<open>x\<close>: the longest border of the prefix of length \<open>x\<close> that is followed by
  another byte than the prefix itself, or -1 when there is none.
\<close>

definition strong :: "'a list \<Rightarrow> nat \<Rightarrow> int \<Rightarrow> bool" where
  "strong p x t \<longleftrightarrow>
     (if t = - 1 then \<forall>k. border p x k \<longrightarrow> p ! k = p ! x
      else 0 \<le> t \<and> border p x (nat t) \<and> p ! nat t \<noteq> p ! x \<and>
        (\<forall>k. border p x k \<and> nat t < k \<longrightarrow> p ! k = p ! x))"

definition table_ok :: "'a list \<Rightarrow> int list \<Rightarrow> nat \<Rightarrow> bool" where
  "table_ok p T n \<longleftrightarrow> (\<forall>x<n. strong p x (T ! x))"

lemma border_within:
  assumes "border p i j" and "k < j"
  shows "border p i k \<longleftrightarrow> border p j k"
proof -
  have "p ! (i - k + y) = p ! (j - k + y)" if "y < k" for y
  proof -
    have "j < i" using assms(1) by (simp add: border_def)
    then have eq: "i - k + y = i - j + (j - k + y)" and lt: "j - k + y < j"
      using assms(2) that by linarith+
    have "p ! (i - j + (j - k + y)) = p ! (j - k + y)"
      using assms(1) lt unfolding border_def by blast
    then show ?thesis by (simp only: eq)
  qed
  then show ?thesis using assms by (auto simp: border_def)
qed

lemma border_0 [simp]: "0 < x \<Longrightarrow> border p x 0"
  by (simp add: border_def)

lemma border_Suc:
  assumes "0 < k"
  shows "border p (Suc i) k \<longleftrightarrow> border p i (k - 1) \<and> p ! (k - 1) = p ! i"
proof -
  obtain l where l: "k = Suc l" using assms by (cases k) auto
  have "border p (Suc i) (Suc l) \<longleftrightarrow> border p i l \<and> p ! l = p ! i"
  proof (cases "l < i")
    case True
    then have "Suc i - Suc l + l = i" by simp
    then show ?thesis using True unfolding border_def
      by (metis Suc_less_eq diff_Suc_Suc less_Suc_eq)
  qed (auto simp: border_def)
  then show ?thesis by (simp add: l)
qed

lemma strong_bounds: "strong p x t \<Longrightarrow> - 1 \<le> t \<and> t < int x"
proof (cases "t = - 1")
  case False
  assume "strong p x t"
  then have "0 \<le> t" "nat t < x" using False by (simp_all add: strong_def border_def)
  then show ?thesis by linarith
qed simp

text \<open>The two readings of an entry.\<close>

lemma strong_cases:
  assumes "strong p x t"
  obtains (none) "t = - 1" "\<And>k. border p x k \<Longrightarrow> p ! k = p ! x"
  | (some) n where "t = int n" "border p x n" "n < x" "p ! n \<noteq> p ! x"
      "\<And>k. border p x k \<Longrightarrow> n < k \<Longrightarrow> p ! k = p ! x"
proof (cases "t = - 1")
  case True
  then show ?thesis using assms none by (simp add: strong_def)
next
  case False
  then have "0 \<le> t" and t: "border p x (nat t)" "p ! nat t \<noteq> p ! x"
      "\<forall>k. border p x k \<and> nat t < k \<longrightarrow> p ! k = p ! x"
    using assms by (simp_all add: strong_def)
  have "nat t < x" using t(1) by (simp add: border_def)
  moreover have "t = int (nat t)" using \<open>0 \<le> t\<close> by simp
  ultimately show ?thesis using some t by blast
qed

lemma rd_nat [simp]: "rd xs (int n) = (if n < length xs then Some (xs ! n) else None)"
  by (simp add: rd_def)

lemma wr_nat [simp]: "n < length xs \<Longrightarrow> wr xs (int n) v = Some (xs[n := v])"
  by (simp add: wr_def)

lemma s64_small [simp]: "n < 2 ^ 63 \<Longrightarrow> s64 n = int n"
  by (simp add: s64_def)

lemma u64_nat [simp]: "n < 2 ^ 64 \<Longrightarrow> u64 (int n) = n"
proof -
  assume "n < 2 ^ 64"
  then have "int n < 2 ^ 64" by (metis of_nat_less_iff of_nat_numeral of_nat_power)
  then show ?thesis
    unfolding u64_def by (simp only: mod_pos_pos_trivial of_nat_0_le_iff nat_int)
qed

section \<open>build_kmp\<close>

lemma kmp_back_result:
  assumes "i < length p" and "length p \<le> length T" and "table_ok p T i"
    and "border p i j" and "\<forall>k. border p i k \<and> j < k \<longrightarrow> p ! k \<noteq> p ! i"
  shows "\<exists>j'. kmp_back p T (int i) (int j) = Some j' \<and> - 1 \<le> j' \<and>
    (0 \<le> j' \<longrightarrow> border p i (nat j') \<and> p ! nat j' = p ! i) \<and>
    (\<forall>k. border p i k \<and> j' < int k \<longrightarrow> p ! k \<noteq> p ! i)"
  using assms(4,5)
proof (induction j rule: less_induct)
  case (less j)
  have j: "j < i" "j < length p" "j < length T" using less.prems(1) assms(1,2) by (auto simp: border_def)
  show ?case
  proof (cases "p ! i = p ! j")
    case True
    then show ?thesis
      using less.prems j assms(1) by (subst kmp_back.simps) auto
  next
    case False
    have st: "strong p j (T ! j)" using assms(3) j by (simp add: table_ok_def)
    have step: "kmp_back p T (int i) (int j) = kmp_back p T (int i) (T ! j)"
      using False j assms(1) by (subst kmp_back.simps) auto
    have above: "p ! k \<noteq> p ! i" if "border p i k" "j \<le> k \<or> border p j k \<and> p ! k = p ! j" for k
      using that less.prems(2) False by (cases "j < k") (auto dest: le_neq_implies_less)
    have below: "border p j k" if "border p i k" "k < j" for k
      using border_within [OF less.prems(1)] that by simp
    from st show ?thesis
    proof (cases rule: strong_cases)
      case none
      have "kmp_back p T (int i) (int j) = Some (- 1)"
        unfolding step none(1) by (subst kmp_back.simps) simp
      moreover have "p ! k \<noteq> p ! i" if "border p i k" for k
        using above [OF that] none(2) [OF below [OF that]] below [OF that] by fastforce
      ultimately show ?thesis by simp
    next
      case (some t)
      have "border p i t" using border_within [OF less.prems(1) some(3)] some(2) by simp
      moreover have "p ! k \<noteq> p ! i" if "border p i k" "t < k" for k
        using above [OF that(1)] some(5) [OF below [OF that(1)] that(2)] below [OF that(1)]
        by fastforce
      ultimately show ?thesis using less.IH [OF some(3)] unfolding step some(1) by blast
    qed
  qed
qed

text \<open>The loop invariant of the table construction.\<close>

definition build_inv :: "'a list \<Rightarrow> int list \<Rightarrow> nat \<Rightarrow> nat \<Rightarrow> bool" where
  "build_inv p T i j \<longleftrightarrow> length p < length T \<and> 1 \<le> i \<and> i \<le> length p \<and> table_ok p T i \<and>
     border p i j \<and> (\<forall>k. border p i k \<longrightarrow> k \<le> j)"

lemma table_ok_extend:
  assumes "table_ok p T i" and "strong p i t" and "i < length T"
  shows "table_ok p (T[i := t]) (Suc i)"
  using assms by (auto simp: table_ok_def less_Suc_eq)

lemma build_inv_match:
  assumes inv: "build_inv p T i j" and "i < length p" and eq: "p ! i = p ! j"
  shows "build_inv p (T[i := T ! j]) (Suc i) (Suc j)"
proof -
  have b: "border p i j" and mx: "\<forall>k. border p i k \<longrightarrow> k \<le> j" and j: "j < i"
    using inv by (auto simp: build_inv_def border_def)
  have st: "strong p j (T ! j)" using inv j by (simp add: build_inv_def table_ok_def)
  have "border p i k \<longleftrightarrow> k = j \<or> border p j k" for k
    using mx border_within [OF b, of k] b by (auto simp: border_def dest: le_neq_implies_less)
  then have bi: "\<And>k. border p i k \<longleftrightarrow> k = j \<or> border p j k" .
  from st have "strong p i (T ! j)"
  proof (cases rule: strong_cases)
    case none
    then have "\<forall>k. border p i k \<longrightarrow> p ! k = p ! i" using bi eq by metis
    then show ?thesis using none(1) by (simp add: strong_def)
  next
    case (some n)
    then have "border p i n" "p ! n \<noteq> p ! i" using bi eq by simp_all
    moreover have "\<forall>k. border p i k \<and> n < k \<longrightarrow> p ! k = p ! i"
      using some(5) bi eq by metis
    ultimately show ?thesis by (simp add: strong_def some(1))
  qed
  then have "table_ok p (T[i := T ! j]) (Suc i)"
    using inv assms(2) by (intro table_ok_extend) (auto simp: build_inv_def)
  moreover have "border p (Suc i) (Suc j)"
    using b eq by (simp add: border_Suc)
  moreover have "k \<le> Suc j" if "border p (Suc i) k" for k
    using that mx border_Suc [of k p i] by (cases "k = 0") auto
  ultimately show ?thesis using inv assms(2) by (simp add: build_inv_def)
qed

lemma build_inv_mismatch:
  assumes inv: "build_inv p T i j" and "i < length p" and neq: "p ! i \<noteq> p ! j"
  shows "\<exists>j'. kmp_back p (T[i := int j]) (int i) (int j) = Some (int j' - 1) \<and>
    build_inv p (T[i := int j]) (Suc i) j'"
proof -
  have b: "border p i j" and mx: "\<forall>k. border p i k \<longrightarrow> k \<le> j" and j: "j < i"
    using inv by (auto simp: build_inv_def border_def)
  have "strong p i (int j)"
    using b mx neq by (fastforce simp: strong_def)
  then have ok: "table_ok p (T[i := int j]) (Suc i)"
    using inv assms(2) by (intro table_ok_extend) (auto simp: build_inv_def)
  then have "table_ok p (T[i := int j]) i" unfolding table_ok_def by (meson less_SucI)
  then obtain j' where j': "kmp_back p (T[i := int j]) (int i) (int j) = Some j'" "- 1 \<le> j'"
      "0 \<le> j' \<longrightarrow> border p i (nat j') \<and> p ! nat j' = p ! i"
      "\<forall>k. border p i k \<and> j' < int k \<longrightarrow> p ! k \<noteq> p ! i"
    using kmp_back_result [of i p "T[i := int j]" j] inv assms(2) b mx
    by (fastforce simp: build_inv_def)
  define n where "n = nat (j' + 1)"
  have n: "j' = int n - 1" using j'(2) by (simp add: n_def)
  have "border p (Suc i) n"
    using j'(3) n inv by (cases "n = 0") (auto simp: border_Suc nat_diff_distrib')
  moreover have "k \<le> n" if "border p (Suc i) k" for k
  proof (cases "k = 0")
    case False
    then have "border p i (k - 1)" and "p ! (k - 1) = p ! i"
      using that border_Suc [of k p i] by auto
    then have "\<not> j' < int (k - 1)" using j'(4) by blast
    then show ?thesis using n False by linarith
  qed simp
  ultimately show ?thesis
    using j'(1) n inv assms(2) ok by (auto simp: build_inv_def)
qed

lemma build_loop_result:
  assumes "build_inv p T i j" and "length p < 2 ^ 63"
  shows "\<exists>T'. build_loop p T (int i) (int j) = Some T' \<and> length T' = length T \<and>
    table_ok p T' (length p)"
  using assms(1)
proof (induction "length p - i" arbitrary: T i j rule: less_induct)
  case less
  note inv = less.prems
  have j: "j < i" "j < length T" "i < length T"
    using inv by (auto simp: build_inv_def border_def)
  show ?case
  proof (cases "i < length p")
    case False
    then have "i = length p" using inv by (simp add: build_inv_def)
    then show ?thesis
      using inv j assms(2) by (subst build_loop.simps) (auto simp: build_inv_def table_ok_def)
  next
    case True
    show ?thesis
    proof (cases "p ! i = p ! j")
      case eq: True
      have step: "build_loop p T (int i) (int j) =
          build_loop p (T[i := T ! j]) (int (Suc i)) (int (Suc j))"
        using True eq j assms(2) by (subst build_loop.simps) (simp add: algebra_simps)
      show ?thesis
        using less.hyps [OF _ build_inv_match [OF inv True eq]] True unfolding step by auto
    next
      case neq: False
      obtain j' where j': "kmp_back p (T[i := int j]) (int i) (int j) = Some (int j' - 1)"
          "build_inv p (T[i := int j]) (Suc i) j'"
        using build_inv_mismatch [OF inv True neq] by blast
      have step: "build_loop p T (int i) (int j) =
          build_loop p (T[i := int j]) (int (Suc i)) (int j')"
        using True neq j j'(1) assms(2) by (subst build_loop.simps) (simp add: algebra_simps)
      show ?thesis
        using less.hyps [OF _ j'(2)] True unfolding step by auto
    qed
  qed
qed

lemma build_kmp_result:
  assumes "p \<noteq> []" and "length p < length T" and "length p < 2 ^ 63"
  shows "\<exists>T'. build_kmp p T = Some T' \<and> length T' = length T \<and> table_ok p T' (length p)"
proof -
  have "wr T 0 (- 1) = Some (T[0 := - 1])"
    using assms(2) by (auto simp: wr_def)
  moreover have "build_inv p (T[0 := - 1]) 1 0"
  proof -
    have "T \<noteq> []" using assms(2) by auto
    then have "table_ok p (T[0 := - 1]) 1"
      by (simp add: table_ok_def strong_def border_def)
    then show ?thesis using assms by (auto simp: build_inv_def border_def Suc_le_eq)
  qed
  ultimately show ?thesis
    using build_loop_result [of p "T[0 := - 1]" 1 0] assms(3) by (auto simp: build_kmp_def)
qed

section \<open>kmp\<close>

text \<open>
  \<open>agrees p h s e\<close>: no byte of the pattern laid at position \<open>s\<close> disagrees with the haystack
  before position \<open>e\<close>.  The search looks for the first position where the pattern agrees with
  all of the haystack it covers.
\<close>

definition agrees :: "'a list \<Rightarrow> 'a list \<Rightarrow> nat \<Rightarrow> nat \<Rightarrow> bool" where
  "agrees p h s e \<longleftrightarrow> (\<forall>x<length p. s + x < e \<longrightarrow> p ! x = h ! (s + x))"

definition first_agreement :: "'a list \<Rightarrow> 'a list \<Rightarrow> nat \<Rightarrow> nat \<Rightarrow> bool" where
  "first_agreement p h offset s \<longleftrightarrow> offset \<le> s \<and> s \<le> length h \<and> agrees p h s (length h) \<and>
     (\<forall>s'. offset \<le> s' \<and> s' < s \<longrightarrow> \<not> agrees p h s' (length h))"

lemma agrees_mono: "agrees p h s e \<Longrightarrow> e' \<le> e \<Longrightarrow> agrees p h s e'"
  by (simp add: agrees_def)

lemma agrees_at_end [simp]: "agrees p h (length h) (length h)"
  by (simp add: agrees_def)

definition search_inv :: "'a list \<Rightarrow> 'a list \<Rightarrow> nat \<Rightarrow> nat \<Rightarrow> nat \<Rightarrow> bool" where
  "search_inv p h offset j k \<longleftrightarrow>
     k < length p \<and> k \<le> j \<and> offset \<le> j - k \<and> j \<le> length h \<and>
     (\<forall>y<k. h ! (j - k + y) = p ! y) \<and>
     (\<forall>s. offset \<le> s \<and> s < j - k \<longrightarrow> \<not> agrees p h s (min (Suc j) (length h)))"

lemma search_invD:
  assumes "search_inv p h offset j k"
  shows "k \<le> j" and "k < length p" and "\<And>y. y < k \<Longrightarrow> h ! (j - k + y) = p ! y"
    and "offset \<le> j - k" and "j \<le> length h"
  using assms unfolding search_inv_def by blast+

lemma search_inv_excluded:
  assumes "search_inv p h offset j k" and "offset \<le> s" and "s < j - k" and "Suc j \<le> e"
    and "e \<le> length h"
  shows "\<not> agrees p h s e"
  using assms agrees_mono [of p h s e "min (Suc j) (length h)"] by (auto simp: search_inv_def)

text \<open>A partial match of length \<open>k\<close> ending at \<open>j\<close> hides the starts inside it behind borders.\<close>

lemma agrees_border:
  assumes inv: "search_inv p h offset j k" and j: "j < length h"
    and s: "j - k < s" "s \<le> j" and ag: "agrees p h s (Suc j)"
  shows "border p k (j - s) \<and> p ! (j - s) = h ! j"
proof -
  let ?l = "j - s"
  note k = search_invD(1,2) [OF inv] and m = search_invD(3) [OF inv]
  have l: "?l < k" "?l < length p" using s k by linarith+
  have "p ! (k - ?l + y) = p ! y" if "y < ?l" for y
  proof -
    have "j - k + (k - ?l + y) = s + y" and "k - ?l + y < k" and "s + y < Suc j" and "y < length p"
      using that s k by linarith+
    then show ?thesis using m [of "k - ?l + y"] ag by (simp add: agrees_def)
  qed
  moreover have "p ! ?l = h ! (s + ?l)" using ag l s by (simp add: agrees_def)
  ultimately show ?thesis using l s by (simp add: border_def)
qed

lemma search_inv_match:
  assumes inv: "search_inv p h offset j k" and j: "j < length h" and eq: "p ! k = h ! j"
    and "Suc k \<noteq> length p"
  shows "search_inv p h offset (Suc j) (Suc k)"
proof -
  have "h ! (j - k + y) = p ! y" if "y < Suc k" for y
    using that inv eq by (cases "y = k") (auto simp: search_inv_def less_Suc_eq)
  moreover have "\<not> agrees p h s (min (Suc (Suc j)) (length h))" if "offset \<le> s" "s < j - k" for s
    using search_inv_excluded [OF inv that, of "min (Suc (Suc j)) (length h)"] j by simp
  ultimately show ?thesis
    using inv j assms(4) by (auto simp: search_inv_def Suc_diff_Suc)
qed

lemma search_inv_restart:
  assumes inv: "search_inv p h offset j k" and j: "j < length h" and neq: "p ! k \<noteq> h ! j"
    and none: "\<And>l. border p k l \<Longrightarrow> p ! l = p ! k"
  shows "search_inv p h offset (Suc j) 0"
proof -
  note k = search_invD(1,2) [OF inv] and m = search_invD(3) [OF inv]
  have "\<not> agrees p h s (Suc j)" if s: "offset \<le> s" "s < Suc j" for s
  proof
    assume ag: "agrees p h s (Suc j)"
    consider "s < j - k" | "s = j - k" | "j - k < s" by linarith
    then show False
    proof cases
      case 1
      then show False using search_inv_excluded [OF inv s(1)] ag j by simp
    next
      case 2
      then show False using ag k neq by (auto simp: agrees_def)
    next
      case 3
      then show False
        using agrees_border [OF inv j 3 _ ag] none s neq by fastforce
    qed
  qed
  then have "\<not> agrees p h s (min (Suc (Suc j)) (length h))" if "offset \<le> s" "s < Suc j" for s
    using that agrees_mono [of p h s "min (Suc (Suc j)) (length h)" "Suc j"] j by auto
  then show ?thesis using inv j by (auto simp: search_inv_def)
qed

lemma search_inv_fallback:
  assumes inv: "search_inv p h offset j k" and j: "j < length h" and neq: "p ! k \<noteq> h ! j"
    and t: "border p k t" and mx: "\<And>l. border p k l \<Longrightarrow> t < l \<Longrightarrow> p ! l = p ! k"
  shows "search_inv p h offset j t"
proof -
  note k = search_invD(1,2) [OF inv] and m = search_invD(3) [OF inv]
  have tk: "t < k" using t by (simp add: border_def)
  have "h ! (j - t + y) = p ! y" if "y < t" for y
  proof -
    have eq: "j - t + y = j - k + (k - t + y)" and lt: "k - t + y < k"
      using that tk k by linarith+
    have "h ! (j - t + y) = p ! (k - t + y)" unfolding eq by (rule m [OF lt])
    also have "\<dots> = p ! y" using t that unfolding border_def by blast
    finally show ?thesis .
  qed
  moreover have "\<not> agrees p h s (min (Suc j) (length h))" if s: "offset \<le> s" "s < j - t" for s
  proof
    assume "agrees p h s (min (Suc j) (length h))"
    then have ag: "agrees p h s (Suc j)" using j by simp
    consider "s < j - k" | "s = j - k" | "j - k < s" by linarith
    then show False
    proof cases
      case 1
      then show False using search_inv_excluded [OF inv s(1)] ag j by simp
    next
      case 2
      then show False using ag k neq by (auto simp: agrees_def)
    next
      case 3
      have "t < j - s" using s by linarith
      then show False
        using agrees_border [OF inv j 3 _ ag] mx [of "j - s"] s neq by fastforce
    qed
  qed
  ultimately show ?thesis using inv tk by (auto simp: search_inv_def)
qed

lemma search_inv_finish:
  assumes inv: "search_inv p h offset (length h) k"
  shows "first_agreement p h offset (length h - k)" and "k = min (length p) (length h - (length h - k))"
  using assms by (auto simp: search_inv_def first_agreement_def agrees_def)

lemma search_full_match:
  assumes inv: "search_inv p h offset j k" and j: "j < length h" and eq: "p ! k = h ! j"
    and full: "Suc k = length p"
  shows "first_agreement p h offset (j - k)" and "Suc k = min (length p) (length h - (j - k))"
proof -
  note k = search_invD(1) [OF inv] and m = search_invD(3) [OF inv]
  have "agrees p h (j - k) (length h)"
    unfolding agrees_def
  proof (intro allI impI)
    fix x assume "x < length p"
    then have "x < k \<or> x = k" using full by linarith
    then show "p ! x = h ! (j - k + x)" using m eq k by auto
  qed
  moreover have "\<not> agrees p h s (length h)" if "offset \<le> s" "s < j - k" for s
    using search_inv_excluded [OF inv that, of "length h"] j by simp
  ultimately show "first_agreement p h offset (j - k)"
    using inv j by (auto simp: first_agreement_def search_inv_def)
  show "Suc k = min (length p) (length h - (j - k))" using full j k by simp
qed

lemma kmp_loop_result:
  assumes "search_inv p h offset j k" and T: "table_ok p T (length p)" "length p \<le> length T"
    and len: "length h < 2 ^ 63" "length p < 2 ^ 63"
  shows "\<exists>s. kmp_loop h p T (int j) (int k) = Some (s, min (length p) (length h - s)) \<and>
    first_agreement p h offset s"
  using assms(1)
proof (induction "2 * (length h - j) + k" arbitrary: j k rule: less_induct)
  case less
  note inv = less.prems
  note k = search_invD(1,2) [OF inv] and jl = search_invD(5) [OF inv]
  have sub: "int j - int k = int (j - k)" using k by simp
  have small: "j - k < 2 ^ 64" "k < 2 ^ 64" "Suc k < 2 ^ 64" "j < 2 ^ 64"
    using jl k len by simp_all
  show ?case
  proof (cases "j = length h")
    case True
    have "kmp_loop h p T (int j) (int k) = Some (u64 (int j - int k), u64 (int k))"
      using True len by (subst kmp_loop.simps) simp
    then have "kmp_loop h p T (int j) (int k) = Some (j - k, k)"
      using small by (simp only: sub u64_nat)
    then show ?thesis using search_inv_finish [of p h offset k] inv True by auto
  next
    case False
    then have j: "j < length h" using jl by simp
    show ?thesis
    proof (cases "p ! k = h ! j")
      case eq: True
      show ?thesis
      proof (cases "Suc k = length p")
        case full: True
        have full': "int k + 1 = int (length p)" and at: "int j + 1 - int (length p) = int (j - k)"
          using full k by linarith+
        have "kmp_loop h p T (int j) (int k) = Some (u64 (int (j - k)), u64 (int (length p)))"
          using eq j k len full' at by (subst kmp_loop.simps) simp
        then have "kmp_loop h p T (int j) (int k) = Some (j - k, Suc k)"
          using small full by (simp only: u64_nat)
        then show ?thesis using search_full_match [OF inv j eq full] by auto
      next
        case more: False
        then have "int k + 1 \<noteq> int (length p)" by linarith
        then have step: "kmp_loop h p T (int j) (int k) = kmp_loop h p T (int (Suc j)) (int (Suc k))"
          using eq j k len by (subst kmp_loop.simps) (simp add: algebra_simps)
        show ?thesis
          using less.hyps [OF _ search_inv_match [OF inv j eq more]] j unfolding step by auto
      qed
    next
      case neq: False
      have kT: "k < length T" using k T(2) by simp
      have step: "kmp_loop h p T (int j) (int k) =
          (if T ! k < 0 then kmp_loop h p T (int j + 1) (T ! k + 1) else kmp_loop h p T (int j) (T ! k))"
        using neq j k kT len small by (subst kmp_loop.simps) simp
      have "strong p k (T ! k)" using T(1) k by (simp add: table_ok_def)
      then show ?thesis
      proof (cases rule: strong_cases)
        case none
        then have step': "kmp_loop h p T (int j) (int k) = kmp_loop h p T (int (Suc j)) (int 0)"
          unfolding step by (simp add: algebra_simps)
        show ?thesis
          using less.hyps [OF _ search_inv_restart [OF inv j neq none(2)]] j unfolding step' by auto
      next
        case (some t)
        then have step': "kmp_loop h p T (int j) (int k) = kmp_loop h p T (int j) (int t)"
          unfolding step by simp
        show ?thesis
          using less.hyps [OF _ search_inv_fallback [OF inv j neq some(2,5)]] some(3)
          unfolding step' by auto
      qed
    qed
  qed
qed

lemma find_byte_Some: "find_byte c xs = Some n \<Longrightarrow> n < length xs \<and> xs ! n = c \<and> (\<forall>m<n. xs ! m \<noteq> c)"
proof (induction xs arbitrary: n)
  case (Cons x xs)
  show ?case
  proof (cases "x = c")
    case False
    then obtain m where m: "find_byte c xs = Some m" "n = Suc m" using Cons.prems by auto
    then show ?thesis using Cons.IH [OF m(1)] False by (auto simp: nth_Cons split: nat.splits)
  qed (use Cons.prems in auto)
qed simp

lemma find_byte_None: "find_byte c xs = None \<longleftrightarrow> c \<notin> set xs"
  by (induction xs) auto

lemma memchr_agreement:
  assumes "offset \<le> length h"
  shows "first_agreement [c] h offset
      (case find_byte c (drop offset h) of Some n \<Rightarrow> offset + n | None \<Rightarrow> length h)"
proof -
  have ag: "agrees [c] h s (length h) \<longleftrightarrow> (s < length h \<longrightarrow> h ! s = c)" for s
    by (auto simp: agrees_def)
  have at: "drop offset h ! m = h ! (offset + m)" if "m < length h - offset" for m
    using assms that by simp
  show ?thesis
  proof (cases "find_byte c (drop offset h)")
    case None
    have "h ! s \<noteq> c" if s: "offset \<le> s" "s < length h" for s
    proof -
      have "s - offset < length (drop offset h)" using s by simp
      then have "drop offset h ! (s - offset) \<in> set (drop offset h)" by (rule nth_mem)
      then have "h ! s \<in> set (drop offset h)" using s by simp
      then show ?thesis using None by (auto simp: find_byte_None)
    qed
    then show ?thesis using None assms by (auto simp: first_agreement_def ag)
  next
    case (Some n)
    then have n: "n < length h - offset" "h ! (offset + n) = c"
        "\<forall>m<n. drop offset h ! m \<noteq> c"
      using find_byte_Some [OF Some] at [of n] by auto
    have "h ! s \<noteq> c" if s: "offset \<le> s" "s < offset + n" for s
    proof -
      have "s - offset < n" using s by linarith
      then have "drop offset h ! (s - offset) \<noteq> c" using n(3) by blast
      moreover have "drop offset h ! (s - offset) = h ! (offset + (s - offset))"
        using s n(1) by (intro at) linarith
      ultimately show ?thesis using s by (simp only: le_add_diff_inverse not_False_eq_True)
    qed
    then show ?thesis using Some n by (auto simp: first_agreement_def ag)
  qed
qed

text \<open>The search from a table that is right, or from the local one.\<close>

lemma kmp_result:
  assumes "p \<noteq> []" and "h \<noteq> []" and "offset \<le> length h" and "length h < 2 ^ 63"
    and "length p \<le> 256"
  shows "\<exists>s. kmp junk h p offset None = Some (s, min (length p) (length h - s)) \<and>
    first_agreement p h offset s"
proof (cases "length p = 1")
  case True
  then obtain c where p: "p = [c]" by (cases p) auto
  let ?f = "find_byte c (drop offset h)"
  have "kmp junk h p offset None = Some (case ?f of Some n \<Rightarrow> (offset + n, 1) | None \<Rightarrow> (length h, 0))"
    using assms by (simp add: kmp_def p split: option.splits)
  then show ?thesis
    using memchr_agreement [OF assms(3), of c] find_byte_Some [of c "drop offset h"] p
    by (auto split: option.splits)
next
  case False
  obtain T where T: "build_kmp p (map junk [0..<258]) = Some T" "length T = 258"
      "table_ok p T (length p)"
    using build_kmp_result [OF assms(1), of "map junk [0..<258]"] assms(5) by auto
  have "search_inv p h offset offset 0"
    using assms by (auto simp: search_inv_def)
  then have "\<exists>s. kmp_loop h p T (int offset) (int 0) = Some (s, min (length p) (length h - s)) \<and>
      first_agreement p h offset s"
    using T assms by (intro kmp_loop_result) simp_all
  then show ?thesis
    using T(1) False assms by (simp add: kmp_def Let_def)
qed

text \<open>
  The table construction ends without leaving its arrays, for every pattern and a table with
  one entry more than the pattern: every entry is the longest border of its prefix followed by a
  different byte, or -1 when there is none.
\<close>

theorem build_kmp_correct:
  assumes "p \<noteq> []" and "length p < length T" and "length p < 2 ^ 63"
  shows "\<exists>T'. build_kmp p T = Some T' \<and> length T' = length T \<and> table_ok p T' (length p)"
  using assms by (rule build_kmp_result)

theorem build_kmp_correct_witness:
  "\<exists>T'. build_kmp (cstr ''abab'') [0, 0, 0, 0, 0] = Some T' \<and> length T' = length [0::int, 0, 0, 0, 0] \<and>
    table_ok (cstr ''abab'') T' (length (cstr ''abab''))"
  by (rule build_kmp_correct) (simp_all add: cstr_def)

text \<open>
  C6. The search ends without leaving its arrays for every haystack, every pattern of at most 256
  bytes and every offset inside the haystack.  It returns the first position from the offset on
  where the pattern agrees with all the haystack it covers, and how many bytes that is: the whole
  pattern for an occurrence, fewer for a match cut off by the end of the haystack, none when there
  is neither.
\<close>

theorem kmp_correct:
  assumes "p \<noteq> []" and "h \<noteq> []" and "offset \<le> length h" and "length h < 2 ^ 63"
    and "length p \<le> 256"
  shows "\<exists>s. kmp junk h p offset None = Some (s, min (length p) (length h - s)) \<and>
    first_agreement p h offset s"
  using assms by (rule kmp_result)

theorem kmp_correct_witness:
  "\<exists>s. kmp (\<lambda>i. 99) (cstr ''xabaaba'') (cstr ''aabab'') 1 None =
      Some (s, min (length (cstr ''aabab'')) (length (cstr ''xabaaba'') - s)) \<and>
    first_agreement (cstr ''aabab'') (cstr ''xabaaba'') 1 s"
  by (rule kmp_correct) (simp_all add: cstr_def)

end
