(* ===== verification/Net_Lua.thy ===== *)
theory Net_Lua
  imports Sockets Algo Dynstr
begin

text \<open>
  The \<open>net\<close> library of \<^verbatim>\<open>src/80s/lua_net.c\<close>: each C function checks its arguments, converts
  them, calls the operating-system layer and pushes its results.  A function maps its arguments
  and the server state to the outcome and the state after it.  \<open>run_lua\<close> executes what a Lua
  callback does, and so closes the circle between the callbacks and the library.
\<close>

section \<open>Arguments\<close>

type_synonym binding = "lua_value list \<Rightarrow> server \<Rightarrow> lua_result \<times> server"

text \<open>\<open>lua_tointeger\<close>, and the narrowing to a C \<open>int\<close>.\<close>

definition lua_tointeger :: "env \<Rightarrow> lua_value \<Rightarrow> int" where
  "lua_tointeger env v = (case v of LInt i \<Rightarrow> i | LFloat x \<Rightarrow> float_int env x | _ \<Rightarrow> 0)"

definition to_int :: "int \<Rightarrow> int" where
  "to_int i = sint (word_of_int i :: 32 word)"

text \<open>A C string taken from Lua: \<open>lua_tostring\<close>, \<^verbatim>\<open>None\<close> for a null pointer.\<close>

definition lua_tostring :: "env \<Rightarrow> lua_value \<Rightarrow> byte list option" where
  "lua_tostring env v =
     (case v of LStr bs \<Rightarrow> Some (takeWhile (\<lambda>b. b \<noteq> 0) bs)
      | LInt i \<Rightarrow> Some (num_text env v) | LFloat x \<Rightarrow> Some (num_text env v) | _ \<Rightarrow> None)"

definition outcome :: "server \<Rightarrow> (lua_result \<times> server) option \<Rightarrow> lua_result \<times> server" where
  "outcome s r = (case r of None \<Rightarrow> (Fault, s) | Some x \<Rightarrow> x)"

section \<open>Sockets\<close>

definition l_net_write :: "env \<Rightarrow> binding" where
  "l_net_write env args s =
     (case args of
        [LLight elfd, LLight childfd, LLight fdtype, LStr data, off] \<Rightarrow>
          if lua_isnum off then
            outcome s (map_option
              (\<lambda>(writelen, s'). (Returns (if writelen < 0
                   then [LBool False, LStr (strerror env (c_errno s'))]
                   else [LBool True, LInt writelen]), s'))
              (s80_write env (void_to_fd (LLight elfd)) (void_to_fd (LLight childfd))
                 (void_to_fd (LLight fdtype)) data
                 (nat (lua_tointeger env off mod 2 ^ 64)) (length data) s))
          else (LuaError ''expecting 3 arguments: elfd (lightuserdata), fd (lightuserdata), fdtype (lightuserdata), data (string), offset (integer)'', s)
      | _ \<Rightarrow> (LuaError ''expecting 3 arguments: elfd (lightuserdata), fd (lightuserdata), fdtype (lightuserdata), data (string), offset (integer)'', s))"

definition l_net_close :: "env \<Rightarrow> lua_runner \<Rightarrow> nat \<Rightarrow> binding" where
  "l_net_close env run L args s =
     (case args of
        [LLight elfd, LLight childfd, LLight fdtype] \<Rightarrow>
          outcome s (map_option (\<lambda>(status, s'). (Returns [LBool (0 \<le> status)], s'))
            (s80_close env run L (void_to_fd (LLight elfd)) (void_to_fd (LLight childfd))
               (void_to_fd (LLight fdtype)) True s))
      | _ \<Rightarrow> (LuaError ''expecting 3 arguments: elfd (lightuserdata), fd (lightuserdata), fdtype (lightuserdata)'', s))"

definition l_net_connect :: "env \<Rightarrow> binding" where
  "l_net_connect env args s =
     (case args of
        LLight elfd # LStr addr # port # rest \<Rightarrow>
          if lua_isnum port then
            (let (childfd, s') = s80_connect env (void_to_fd (LLight elfd))
                   (takeWhile (\<lambda>b. b \<noteq> 0) addr) (to_int (lua_tointeger env port)) (rest = [LBool True]) s
             in (Returns (if childfd < 0 then [LNil, LStr (strerror env (c_errno s'))]
                  else [fd_to_void childfd, LNil]), s'))
          else (LuaError ''expecting at least 3 arguments: elfd (lightuserdata), address (string), port (integer), is_udp=false (boolean)'', s)
      | _ \<Rightarrow> (LuaError ''expecting at least 3 arguments: elfd (lightuserdata), address (string), port (integer), is_udp=false (boolean)'', s))"

definition l_net_sockname :: "env \<Rightarrow> binding" where
  "l_net_sockname env args s =
     (case args of
        [LLight f] \<Rightarrow>
          (case s80_peername env (void_to_fd (LLight f)) s of
             (None, s') \<Rightarrow> (Returns [], s')
           | (Some (text, port), s') \<Rightarrow> (Returns [LStr text, LInt port], s'))
      | _ \<Rightarrow> (LuaError ''expecting 1 argument: fd (childfd)'', s))"

section \<open>Mail, reload, quit\<close>

text \<open>
  \<open>calloc(len, 1)\<close> and \<open>memcpy\<close>: a null block with something to copy is a fault.
\<close>

definition mail_payload :: "env \<Rightarrow> byte list \<Rightarrow> server \<Rightarrow> payload option" where
  "mail_payload env data s =
     (case heap env (hist s) (length data) of
        None \<Rightarrow> if data = [] then Some PNull else None
      | Some junk \<Rightarrow> Some (PBytes data))"

definition l_net_mail_send :: "env \<Rightarrow> lua_runner \<Rightarrow> nat \<Rightarrow> int \<Rightarrow> mailbox_message \<Rightarrow> server \<Rightarrow>
    (lua_result \<times> server) option" where
  "l_net_mail_send env run L target_id msg s =
     (if sender_id msg = target_id then
        map_option (\<lambda>s'. (Returns [LBool True], log_act env (AFree (message msg)) s'))
          (on_message env run L (sender_elfd msg) msg s)
      else
        map_option (\<lambda>(r, s'). (Returns [LBool (0 \<le> r)], s')) (s80_mail env target_id msg s))"

definition mail_usage :: string where
  "mail_usage = ''expecting 8 arguments: reload context (lightuserdata), sender worker id (integer), sender elfd (lightuserdata), sender fd (lightuserdata), target worker id (integer), target fd (lightuserdata), message type (integer), message (string)''"

definition l_net_mail :: "env \<Rightarrow> lua_runner \<Rightarrow> nat \<Rightarrow> binding" where
  "l_net_mail env run L args s =
     (case args of
        [LLight reload, wid, LLight elfd, LLight childfd, target, LLight targetfd, ty, LStr data] \<Rightarrow>
          if \<not> (lua_isnum wid \<and> lua_isnum target \<and> lua_isnum ty) then
            (LuaError mail_usage, s)
          else
            (let id = to_int (lua_tointeger env wid) in
             if int (length (mailboxes s)) \<le> id \<or> id < 0 then (Returns [LBool False], s)
             else
               outcome s (Option.bind (mail_payload env data s) (\<lambda>p.
                 l_net_mail_send env run L (to_int (lua_tointeger env target))
                   \<lparr>sender_id = id, sender_elfd = void_to_fd (LLight elfd),
                    sender_fd = void_to_fd (LLight childfd), receiver_fd = void_to_fd (LLight targetfd),
                    mtype = to_int (lua_tointeger env ty), msize = length data, message = p\<rparr> s)))
      | _ \<Rightarrow> (LuaError mail_usage, s))"

text \<open>Without its argument, \<open>reload\<close> runs the entry point again in this worker.\<close>

definition l_net_reload :: "env \<Rightarrow> lua_runner \<Rightarrow> binding" where
  "l_net_reload env run args s =
     (case args of
        [LLight reload] \<Rightarrow> (let (r, s') = s80_reload env s in (Returns [LBool (0 \<le> r)], s'))
      | _ \<Rightarrow>
          (let (a, s1) = act env (AOther ''luaL_dofile'' [LStr (cstr ''ENTRYPOINT'')]) s in
           outcome s (map_option (\<lambda>s'. (Returns [LBool (a_ret a = 0)], s')) (run (a_plan a) s1))))"

definition l_net_quit :: "env \<Rightarrow> binding" where
  "l_net_quit env args s =
     (case args of
        [LLight reload] \<Rightarrow> (let (r, s') = s80_quit env s in (Returns [LBool (0 \<le> r)], s'))
      | _ \<Rightarrow> (Returns [], s))"

section \<open>Child processes and substring search\<close>

text \<open>
  The argument vector: the command and its arguments as C strings; a value that is no string
  gives a null pointer, which ends the vector.
\<close>

definition popen_argv :: "env \<Rightarrow> lua_value list \<Rightarrow> byte list list" where
  "popen_argv env vs = map the (takeWhile (\<lambda>x. x \<noteq> None) (map (lua_tostring env) vs))"

definition l_net_popen :: "env \<Rightarrow> binding" where
  "l_net_popen env args s =
     (case args of
        LLight elfd # LStr cmd # rest \<Rightarrow>
          (if heap env (hist s) (8 * (length args + 4)) = None then
             (LuaError ''failed to allocate memory for args'', s)
           else
             (case s80_popen env (void_to_fd (LLight elfd)) (takeWhile (\<lambda>b. b \<noteq> 0) cmd)
                     (popen_argv env (LStr cmd # rest)) s of
                (Exited, s') \<Rightarrow> (Returns [], s')
              | (Parent status pipes, s') \<Rightarrow>
                  if status < 0 then (Returns [LNil, LStr (strerror env (c_errno s'))], s')
                  else (Returns (map fd_to_void pipes), s')))
      | _ \<Rightarrow> (LuaError ''expecting at least 2 arguments: elfd (lightuserdata), executable name (string), args... (string)'', s))"

text \<open>
  \<open>kmp\<close> with the offset counted from 1; the junk is what the local table holds before it is
  built.  The offset is a \<open>size_t\<close>: 0 and negative numbers wrap.
\<close>

definition partscan_offset :: "int \<Rightarrow> nat" where
  "partscan_offset i = nat ((i - 1) mod 2 ^ 64)"

definition to_lua_Integer :: "nat \<Rightarrow> int" where
  "to_lua_Integer n = s64 (n mod 2 ^ 64)"

definition l_net_partscan :: "env \<Rightarrow> (nat \<Rightarrow> int) \<Rightarrow> lua_value list \<Rightarrow> lua_result" where
  "l_net_partscan env junk args =
     (case args of
        [LStr haystack, LStr pattern, off] \<Rightarrow>
          if lua_isnum off then
            (case kmp junk haystack pattern (partscan_offset (lua_tointeger env off)) None of
               None \<Rightarrow> Fault
             | Some (o', l) \<Rightarrow> Returns [LInt (to_lua_Integer (o' + 1)), LInt (to_lua_Integer l)])
          else LuaError ''expecting 3 arguments: haystack (string), needle (string), offset (integer)''
      | _ \<Rightarrow> LuaError ''expecting 3 arguments: haystack (string), needle (string), offset (integer)'')"

section \<open>The library and the callbacks together\<close>

text \<open>
  The functions of the table in \<open>luaopen_net\<close> that change the server; the others (\<open>listdir\<close>,
  \<open>readfile\<close>, \<open>clock\<close>, ...) leave it as it is.
\<close>

definition netlib :: "env \<Rightarrow> lua_runner \<Rightarrow> nat \<Rightarrow> string \<Rightarrow> binding" where
  "netlib env run L name args s =
     (if name = ''write'' then l_net_write env args s
      else if name = ''close'' then l_net_close env run L args s
      else if name = ''connect'' then l_net_connect env args s
      else if name = ''sockname'' then l_net_sockname env args s
      else if name = ''reload'' then l_net_reload env run args s
      else if name = ''quit'' then l_net_quit env args s
      else if name = ''popen'' then l_net_popen env args s
      else if name = ''mail'' then l_net_mail env run L args s
      else (Returns [], s))"

text \<open>
  What a Lua callback does, one library call after the other.  Callbacks a call runs in turn do
  what its own list says.
\<close>

fun run_lua :: "env \<Rightarrow> nat \<Rightarrow> lua_op list \<Rightarrow> server \<Rightarrow> server option" where
  "run_lua env L [] s = Some s"
| "run_lua env L (LuaCall f args plan # ops) s =
     (case netlib env (\<lambda>p. run_lua env L plan) L f args s of
        (Fault, s') \<Rightarrow> None
      | (LuaError e, s') \<Rightarrow> run_lua env L ops s'
      | (Returns vs, s') \<Rightarrow> run_lua env L ops s')"

section \<open>What the library promises\<close>

lemma to_lua_Integer_small: "n < 2 ^ 63 \<Longrightarrow> to_lua_Integer n = int n"
  by (simp add: to_lua_Integer_def)

lemma partscan_offset_small: "1 \<le> i \<Longrightarrow> i \<le> 2 ^ 63 \<Longrightarrow> partscan_offset i = nat (i - 1)"
  by (simp add: partscan_offset_def)

text \<open>
  From Lua, \<open>partscan\<close> returns without leaving its arrays for every text, every delimiter of 1
  to 256 bytes and every position of the text (or the one behind it), and gives, counted from 1, the
  first place from there on where the delimiter agrees with everything the text still has, with the
  number of bytes that agree.
\<close>

theorem partscan_result:
  assumes "p \<noteq> []" and "length p \<le> 256" and "h \<noteq> []" and "length h < 2 ^ 62"
    and "1 \<le> i" and "i \<le> int (length h) + 1"
  shows "\<exists>n. l_net_partscan env junk [LStr h, LStr p, LInt i] =
      Returns [LInt (int n + 1), LInt (int (min (length p) (length h - n)))] \<and>
    first_agreement p h (nat (i - 1)) n"
proof -
  have "int (length h) < 2 ^ 62"
    using assms(4) by (metis of_nat_less_iff of_nat_numeral of_nat_power)
  then have off: "partscan_offset i = nat (i - 1)" "nat (i - 1) \<le> length h"
    using assms(5,6) by (simp_all add: partscan_offset_small)
  obtain n where n: "kmp junk h p (nat (i - 1)) None = Some (n, min (length p) (length h - n))"
      "first_agreement p h (nat (i - 1)) n"
    using kmp_result [OF assms(1,3) off(2) _ assms(2), of junk] assms(4) by auto
  have "n \<le> length h" using n(2) by (simp add: first_agreement_def)
  then have "to_lua_Integer (n + 1) = int n + 1"
    "to_lua_Integer (min (length p) (length h - n)) = int (min (length p) (length h - n))"
    using assms(2,4) by (simp_all add: to_lua_Integer_small)
  then show ?thesis
    using n off(1) by (simp add: l_net_partscan_def lua_isnum_def lua_tointeger_def)
qed

theorem partscan_result_witness:
  "\<exists>n. l_net_partscan (const_env 0) (\<lambda>i. 99) [LStr (cstr ''GET /''), LStr (cstr ''T '' ), LInt 2] =
      Returns [LInt (int n + 1), LInt (int (min (length (cstr ''T '')) (length (cstr ''GET /'') - n)))] \<and>
    first_agreement (cstr ''T '') (cstr ''GET /'') (nat (2 - 1)) n"
  by (rule partscan_result) (simp_all add: cstr_def)

text \<open>
  The position is not checked: 0, which is what a caller counting from 0 passes for the start of
  the text, makes the search read the byte in front of it (or, for a delimiter of one byte, search
  a region that begins there).
\<close>

theorem partscan_zero_faults:
  assumes "p \<noteq> []" and "length p \<le> 256" and "h \<noteq> []" and "length h < 2 ^ 63"
  shows "l_net_partscan env junk [LStr h, LStr p, LInt 0] = Fault"
proof -
  have off: "partscan_offset 0 = 2 ^ 64 - 1" by (simp add: partscan_offset_def)
  have out: "kmp_loop h p T (s64 (2 ^ 64 - 1)) 0 = None" for T
  proof -
    have "(- 1 :: int) < int (length h)" by simp
    moreover have "rd p 0 = Some (p ! 0)" "rd h (- 1) = None"
      using assms(1) by (simp_all add: rd_def)
    ultimately show ?thesis
      using assms(4) by (subst kmp_loop.simps) (simp add: s64_def)
  qed
  obtain T where "length p = 1 \<or> build_kmp p (map junk [0..<258]) = Some T"
    using build_kmp_result [OF assms(1), of "map junk [0..<258]"] assms(2) by auto
  then have "kmp junk h p (2 ^ 64 - 1) None = None"
    using assms out [of T] by (auto simp: kmp_def Let_def)
  then show ?thesis by (simp add: l_net_partscan_def lua_isnum_def lua_tointeger_def off)
qed

theorem partscan_zero_faults_witness:
  "l_net_partscan (const_env 0) (\<lambda>i. 99) [LStr (cstr ''a=1&b=2''), LStr (cstr ''&b''), LInt 0] = Fault"
  by (rule partscan_zero_faults) (simp_all add: cstr_def)

text \<open>
  A write from Lua is memory safe exactly when its offset lies within the data; the offset is
  not checked, and a larger one makes the kernel read behind the string.
\<close>

theorem net_write_bounds:
  assumes "0 \<le> i" and "i < 2 ^ 63" and "length data < 2 ^ 31"
  shows "fst (l_net_write env [LLight e, LLight f, LLight t, LStr data, LInt i] s) = Fault \<longleftrightarrow>
    int (length data) < i"
proof -
  have "nat (i mod 2 ^ 64) = nat i" using assms(1,2) by simp
  then show ?thesis
    using assms(1)
    by (auto simp: l_net_write_def lua_isnum_def lua_tointeger_def s80_write_def Let_def outcome_def
        act_def split: if_splits prod.splits)
qed

theorem net_write_bounds_witness:
  "fst (l_net_write (const_env 3) [LLight 5, LLight 9, LLight 1, LStr [65, 66, 67], LInt 4] idle_server) = Fault \<and>
   fst (l_net_write (const_env 3) [LLight 5, LLight 9, LLight 1, LStr [65, 66, 67], LInt 0] idle_server) \<noteq> Fault"
  using net_write_bounds [of 4 "[65, 66, 67]" "const_env 3" 5 9 1 idle_server]
    net_write_bounds [of 0 "[65, 66, 67]" "const_env 3" 5 9 1 idle_server] by simp

lemma to_int_small: "c_int i \<Longrightarrow> to_int i = i"
  by (simp add: to_int_def sint_word_of_int)

text \<open>
  A message to another worker of the server is exactly what lands in that worker's mailbox: the
  ids, descriptors and type given, with the bytes of the string; Lua is told whether it was stored.
\<close>

theorem net_mail_stores:
  assumes "0 \<le> wid" and "wid < int (length (mailboxes s))" and "0 \<le> target"
    and "target < int (length (mailboxes s))" and "wid \<noteq> target"
    and "int (length (mailboxes s)) < 2 ^ 31"
    and "heap env (hist s) (length data) \<noteq> None"
    and "msg = \<lparr>sender_id = wid, sender_elfd = void_to_fd (LLight e), sender_fd = void_to_fd (LLight f),
          receiver_fd = void_to_fd (LLight g), mtype = S80_MB_MESSAGE, msize = length data,
          message = PBytes data\<rparr>"
    and "mail_locked (heap env (hist s @ [AAcquire (nat target)])) (mailboxes s ! nat target) msg =
      Some (r, mb', w)"
  shows "\<exists>s'. l_net_mail env run L [LLight p, LInt wid, LLight e, LLight f, LInt target, LLight g,
        LInt S80_MB_MESSAGE, LStr data] s = (Returns [LBool (0 \<le> r)], s') \<and>
      mailboxes s' = (mailboxes s)[nat target := mb']"
proof -
  have ints: "to_int wid = wid" "to_int target = target" "to_int S80_MB_MESSAGE = S80_MB_MESSAGE"
    using assms(1-6) by (simp_all add: to_int_small c_int_def)
  have pay: "mail_payload env data s = Some (PBytes data)"
    using assms(7) by (auto simp: mail_payload_def)
  have "\<exists>s'. s80_mail env target msg s = Some (r, s') \<and> mailboxes s' = (mailboxes s)[nat target := mb']"
    using assms(3,4,9)
    by (simp add: s80_mail_def s80_acquire_mailbox_def s80_release_mailbox_def Let_def)
  then show ?thesis
    using assms(1,2,5,8) ints pay
    by (auto simp: l_net_mail_def lua_isnum_def lua_tointeger_def Let_def outcome_def
        l_net_mail_send_def)
qed

theorem net_mail_stores_witness:
  "\<exists>s' mb. l_net_mail ((const_env 1)\<lparr>heap := \<lambda>h n. Some (\<lambda>i. sample_message)\<rparr>) (\<lambda>p s. Some s) 0
       [LLight 1, LInt 0, LLight 5, LLight 6, LInt 1, LLight 9, LInt 5, LStr [104, 105]]
       (idle_server\<lparr>mailboxes := [mailbox_init (3, 4) (\<lambda>i. sample_message), mailbox_init (6, 7) (\<lambda>i. sample_message)]\<rparr>) =
     (Returns [LBool True], s') \<and>
     mailboxes s' = [mailbox_init (3, 4) (\<lambda>i. sample_message), mb] \<and> mailbox_queue mb = [sample_message]"
proof -
  let ?env = "(const_env 1)\<lparr>heap := \<lambda>h n. Some (\<lambda>i. sample_message)\<rparr>"
  let ?s = "idle_server\<lparr>mailboxes := [mailbox_init (3, 4) (\<lambda>i. sample_message), mailbox_init (6, 7) (\<lambda>i. sample_message)]\<rparr>"
  have v: "void_to_fd (LLight 5) = 5" "void_to_fd (LLight 6) = 6" "void_to_fd (LLight 9) = 9"
    by (simp_all add: void_to_fd_def)
  obtain mb where mb: "mail_locked (heap ?env (hist ?s @ [AAcquire (nat 1)])) (mailboxes ?s ! nat 1) sample_message =
        Some (0, mb, [S80_SIGNAL_MAIL])" "mailbox_queue mb = [sample_message]"
    using mailbox_init_mail [of "heap ?env (hist ?s @ [AAcquire (nat 1)])" "(6, 7)"
        "\<lambda>i. sample_message" sample_message] by auto
  have "\<exists>s'. l_net_mail ?env (\<lambda>p s. Some s) 0 [LLight 1, LInt 0, LLight 5, LLight 6, LInt 1, LLight 9,
        LInt S80_MB_MESSAGE, LStr [104, 105]] ?s = (Returns [LBool (0 \<le> (0::int))], s') \<and>
      mailboxes s' = (mailboxes ?s)[nat 1 := mb]"
    by (rule net_mail_stores [OF _ _ _ _ _ _ _ _ mb(1)]) (simp_all add: v sample_message_def)
  then show ?thesis using mb(2) by auto
qed

text \<open>
  The library checks the sender's worker number, which it does not use as an index, and not the
  target's, which it does: a target outside the workers indexes outside the mailbox array.
\<close>

theorem net_mail_target_unchecked:
  assumes "0 \<le> wid" and "wid < int (length (mailboxes s))" and "c_int target" and "c_int wid"
    and "target < 0 \<or> int (length (mailboxes s)) \<le> target"
  shows "fst (l_net_mail env run L [LLight p, LInt wid, LLight e, LLight f, LInt target, LLight g,
        LInt ty, LStr data] s) = Fault"
proof -
  have "wid \<noteq> target" using assms by auto
  then show ?thesis
    using assms
    by (auto simp: l_net_mail_def lua_isnum_def lua_tointeger_def to_int_small Let_def outcome_def
        l_net_mail_send_def s80_mail_def split: Option.bind_splits option.splits)
qed

theorem net_mail_target_unchecked_witness:
  "fst (l_net_mail (const_env 1) (\<lambda>p s. Some s) 0 [LLight 1, LInt 0, LLight 5, LLight 6, LInt 1, LLight 9,
     LInt 5, LStr []] (idle_server\<lparr>mailboxes := [mailbox_init (3, 4) (\<lambda>i. sample_message)]\<rparr>)) = Fault"
  by (rule net_mail_target_unchecked) (simp_all add: c_int_def)

end
