(* ===== verification/Net_Files.thy ===== *)
theory Net_Files
  imports Net_Lua Codec_Text
begin

text \<open>
  The rest of the \<open>net\<close> library of \<^verbatim>\<open>src/80s/lua_net.c\<close> as it is built on Linux: files,
  directories, inotify, the clock and the description of the build.  They change nothing of the
  server; what they ask the operating system is recorded in the history.
\<close>

definition c_string :: "byte list \<Rightarrow> byte list" where
  "c_string bs = takeWhile (\<lambda>b. b \<noteq> 0) bs"

section \<open>readfile\<close>

text \<open>
  \<open>lua_pushlstring(L, ptr, size)\<close>: Lua refuses a string of \<open>2 ^ 63\<close> bytes or more with an error.
\<close>

definition push_block :: "byte list \<Rightarrow> nat \<Rightarrow> lua_result" where
  "push_block mem n =
     (if 2 ^ 63 \<le> n then LuaError ''memory allocation error: block too big''
      else if length mem < n then Fault else Returns [LStr (take n mem)])"

text \<open>
  \<open>fread(dyn.ptr, size, 1, f)\<close> stores what it read, up to \<open>size\<close> bytes, and nobody asks how much
  that was.
\<close>

definition read_whole :: "env \<Rightarrow> dynstr \<Rightarrow> nat \<Rightarrow> server \<Rightarrow> lua_result \<times> server" where
  "read_whole env dyn file_len s =
     (case os_call env ''fread'' [LInt (int file_len)] s of
        (r, s1) \<Rightarrow>
          (case poke (ds_ptr dyn) 0 (take file_len (a_bytes r)) of
             None \<Rightarrow> (Fault, s1)
           | Some mem \<Rightarrow>
               (case push_block mem file_len of
                  Returns vs \<Rightarrow> (Returns vs, snd (os_call env ''fclose'' [] s1))
                | r' \<Rightarrow> (r', s1))))"

definition l_net_readfile :: "env \<Rightarrow> allocator \<Rightarrow> (nat \<Rightarrow> byte) \<Rightarrow> binding" where
  "l_net_readfile env A stk args s =
     (case args of
        [LStr name, LStr mode] \<Rightarrow>
          (case os_call env ''fopen'' [LStr (c_string name), LStr (cstr ''rb'')] s of
             (f, s1) \<Rightarrow>
               if a_ret f = 0 then (Returns [], s1)
               else
                 (case os_call env ''ftell'' [] (snd (os_call env ''fseek'' [LInt 2] s1)) of
                    (t, s2) \<Rightarrow>
                      (let file_len = nat (a_ret t mod 2 ^ 64);
                           s3 = snd (os_call env ''fseek'' [LInt 0] s2) in
                       case dynstr_check A (init_on_stack stk 10000) (sz (file_len + 1)) of
                         None \<Rightarrow> (Fault, s3)
                       | Some (r, dyn) \<Rightarrow>
                           if r then read_whole env dyn file_len s3
                           else (Returns [], snd (os_call env ''fclose'' [] s3)))))
      | _ \<Rightarrow> (LuaError ''expecting 2 arguments: file name (string), mode (string)'', s))"

section \<open>inotify\<close>

definition l_net_inotify_init :: "env \<Rightarrow> binding" where
  "l_net_inotify_init env args s =
     (case args of
        [LLight e] \<Rightarrow>
          (case os_call env ''inotify_init'' [] s of
             (c, s1) \<Rightarrow>
               (case act env (AEpollCtl (void_to_fd (LLight e)) EPOLL_CTL_ADD (a_ret c) EPOLLIN
                       (SET_FD_HOLDER S80_FD_OTHER (a_ret c))) s1 of
                  (st, s2) \<Rightarrow>
                    if a_ret st < 0 then (Returns [LNil, LStr (strerror env (c_errno s2))], s2)
                    else (Returns [fd_to_void (a_ret c)], s2)))
      | _ \<Rightarrow> (LuaError ''expecting 1 arguments: elfd (lightuserdata)'', s))"

abbreviation (input) IN_MODIFY :: int where "IN_MODIFY \<equiv> 0x2"
abbreviation (input) IN_CREATE :: int where "IN_CREATE \<equiv> 0x100"
abbreviation (input) IN_DELETE :: int where "IN_DELETE \<equiv> 0x200"
abbreviation (input) IN_ISDIR :: int where "IN_ISDIR \<equiv> 0x40000000"

definition l_net_inotify_add :: "env \<Rightarrow> binding" where
  "l_net_inotify_add env args s =
     (case args of
        [LLight e, LLight c, LStr target] \<Rightarrow>
          (case os_call env ''inotify_add_watch''
                  [LInt (void_to_fd (LLight c)), LStr (c_string target), LInt (IN_MODIFY + IN_CREATE + IN_DELETE)] s of
             (wd, s1) \<Rightarrow> (Returns [fd_to_void (a_ret wd)], s1))
      | _ \<Rightarrow> (LuaError ''expecting 3 arguments: elfd (lightuserdata), fd (childfd), file name (string)'', s))"

definition l_net_inotify_remove :: "env \<Rightarrow> binding" where
  "l_net_inotify_remove env args s =
     (case args of
        [LLight e, LLight c, LLight w] \<Rightarrow>
          (case os_call env ''inotify_rm_watch'' [LInt (void_to_fd (LLight c)), LInt (void_to_fd (LLight w))] s of
             (r, s1) \<Rightarrow>
               if a_ret r < 0 then (Returns [LBool False, LStr (strerror env (c_errno s1))], s1)
               else (Returns [LBool True], s1))
      | _ \<Rightarrow> (LuaError ''expecting 3 arguments: elfd (lightuserdata), fd (childfd), wd (childfd)'', s))"

text \<open>
  A field of \<open>struct inotify_event\<close>: four little-endian bytes at an offset of the data.  The NUL
  Lua keeps behind every string can be read.
\<close>

definition word32 :: "byte list \<Rightarrow> 32 word" where
  "word32 bs = ucast (bs ! 0) OR push_bit 8 (ucast (bs ! 1)) OR push_bit 16 (ucast (bs ! 2)) OR
     push_bit 24 (ucast (bs ! 3))"

definition read32 :: "byte list \<Rightarrow> nat \<Rightarrow> 32 word option" where
  "read32 data off =
     (if length data + 1 < off + 4 then None else Some (word32 (take 4 (drop off (data @ [0])))))"

definition event_name :: "byte list \<Rightarrow> nat \<Rightarrow> byte list" where
  "event_name data off = c_string (drop off data)"

definition has_flag :: "32 word \<Rightarrow> int \<Rightarrow> lua_value" where
  "has_flag flags f = LBool (flags AND word_of_int f \<noteq> 0)"

definition event_table :: "lua_value \<Rightarrow> byte list \<Rightarrow> 32 word \<Rightarrow> 32 word \<Rightarrow> lua_value" where
  "event_table now name wd flags =
     LTable [(LStr (cstr ''name''), LStr name), (LStr (cstr ''wd''), fd_to_void (sint wd)),
       (LStr (cstr ''dir''), has_flag flags IN_ISDIR), (LStr (cstr ''modify''), has_flag flags IN_MODIFY),
       (LStr (cstr ''delete''), has_flag flags IN_DELETE), (LStr (cstr ''create''), has_flag flags IN_CREATE),
       (LStr (cstr ''clock''), now)]"

function inotify_loop :: "lua_value \<Rightarrow> byte list \<Rightarrow> nat \<Rightarrow> lua_value list \<Rightarrow> lua_value list option" where
  "inotify_loop now data i acc =
     (if i < length data then
        (case read32 data (i + 12) of
           None \<Rightarrow> None
         | Some len \<Rightarrow>
             if len \<noteq> 0 \<and> i + unat len + 16 \<le> length data then
               (case (read32 data i, read32 data (i + 4)) of
                  (Some wd, Some flags) \<Rightarrow>
                    inotify_loop now data (i + 16 + unat len) (acc @ [event_table now (event_name data (i + 16)) wd flags])
                | _ \<Rightarrow> None)
             else inotify_loop now data (i + 16 + unat len) acc)
      else Some acc)"
  by pat_completeness auto
termination by (relation "measure (\<lambda>(now, data, i, acc). length data - i)") auto

declare inotify_loop.simps [simp del]

text \<open>\<open>secs\<close> turns the seconds and nanoseconds of the monotonic clock into a double.\<close>

definition monotonic :: "env \<Rightarrow> (int \<Rightarrow> int \<Rightarrow> 64 word) \<Rightarrow> server \<Rightarrow> lua_value \<times> server" where
  "monotonic env secs s =
     (case os_call env ''clock_gettime'' [] s of
        (t, s1) \<Rightarrow> (LFloat (secs (a_ret t) (hd (a_vals t @ [0]))), s1))"

definition enumerate_from :: "int \<Rightarrow> lua_value list \<Rightarrow> (lua_value \<times> lua_value) list" where
  "enumerate_from i vs = zip (map LInt [i..i + int (length vs) - 1]) vs"

definition l_net_inotify_read :: "env \<Rightarrow> (int \<Rightarrow> int \<Rightarrow> 64 word) \<Rightarrow> binding" where
  "l_net_inotify_read env secs args s =
     (case args of
        [LStr data] \<Rightarrow>
          (case monotonic env secs s of
             (now, s1) \<Rightarrow>
               (case inotify_loop now data 0 [] of
                  None \<Rightarrow> (Fault, s1)
                | Some vs \<Rightarrow> (Returns [LTable (enumerate_from 1 vs)], s1)))
      | _ \<Rightarrow> (LuaError ''expecting 1 argument: data (string)'', s))"

section \<open>listdir, mkdir, clock\<close>

text \<open>
  \<open>strncpy\<close> and \<open>strncat\<close> into the local arrays: the copies stay within them when both parts are
  short enough; a copy that is cut off has no NUL and the append goes on from wherever one lies, so
  that is a fault.
\<close>

definition join_into :: "nat \<Rightarrow> nat \<Rightarrow> byte list \<Rightarrow> byte list \<Rightarrow> byte list option" where
  "join_into cap lim a b =
     (if lim \<le> length a \<or> cap < length a + length (take lim b) + 1 then None else Some (a @ take lim b))"

text \<open>
  The entries in the order \<open>n--\<close> visits them, last first; \<open>i\<close> is the key counter, which the
  function never initialises.  \<open>stat\<close> answers with the mode of the file.
\<close>

definition stat_is_dir :: "answer \<Rightarrow> bool" where
  "stat_is_dir st \<longleftrightarrow> hd (a_vals st @ [0]) AND 0xF000 = 0x4000"

primrec listdir_loop :: "env \<Rightarrow> byte list \<Rightarrow> byte list list \<Rightarrow> int \<Rightarrow> (lua_value \<times> lua_value) list \<Rightarrow> server \<Rightarrow>
    ((lua_value \<times> lua_value) list \<times> server) option" where
  "listdir_loop env dir [] i tab s = Some (tab, s)"
| "listdir_loop env dir (e # es) i tab s =
     (if e = cstr ''.'' \<or> e = cstr ''..'' then listdir_loop env dir es i tab s
      else
        Option.bind (join_into 2000 1996 dir e) (\<lambda>path.
        case os_call env ''stat'' [LStr path] s of
          (st, s1) \<Rightarrow>
            if a_ret st < 0 then listdir_loop env dir es i tab s1
            else
              Option.bind (if stat_is_dir st then join_into 1000 996 e (cstr ''/'') else Some e) (\<lambda>shown.
                listdir_loop env dir es (i + 1) (table_set tab (LInt (i + 1)) (LStr shown)) s1)))"

definition l_net_listdir :: "env \<Rightarrow> (byte list \<Rightarrow> byte list list option) \<Rightarrow> int \<Rightarrow> binding" where
  "l_net_listdir env scandir i0 args s =
     (case args of
        [LStr name] \<Rightarrow>
          (case scandir (c_string name) of
             None \<Rightarrow> (Returns [LTable []], s)
           | Some eps \<Rightarrow>
               (case listdir_loop env (c_string name) (rev eps) i0 [] s of
                  None \<Rightarrow> (Fault, s) | Some (tab, s1) \<Rightarrow> (Returns [LTable tab], s1)))
      | _ \<Rightarrow> (LuaError ''expecting 1 argument: directory name (string)'', s))"

definition l_net_mkdir :: "env \<Rightarrow> binding" where
  "l_net_mkdir env args s =
     (case args of
        LStr name # rest \<Rightarrow>
          (let permissions =
             (case rest of [v] \<Rightarrow> if lua_isnum v then to_int (lua_tointeger env v) else 511 | _ \<Rightarrow> 511) in
           case os_call env ''stat'' [LStr (c_string name)] s of
             (st, s1) \<Rightarrow>
               if a_ret st = - 1 then
                 (case os_call env ''mkdir'' [LStr (c_string name), LInt permissions] s1 of
                    (r, s2) \<Rightarrow> (Returns [LBool (0 \<le> a_ret r)], s2))
               else (Returns [LBool True], s1))
      | _ \<Rightarrow> (LuaError ''expecting at least 1 argument: directory name (string), permissions=0777 (int)'', s))"

definition l_net_clock :: "env \<Rightarrow> (int \<Rightarrow> int \<Rightarrow> 64 word) \<Rightarrow> binding" where
  "l_net_clock env secs args s = (case monotonic env secs s of (t, s1) \<Rightarrow> (Returns [t], s1))"

section \<open>info\<close>

text \<open>The build's macros: date, time and the flags that are defined.\<close>

record build =
  b_date :: "byte list"
  b_time :: "byte list"
  b_dynamic :: "byte list option"
  b_epoll :: bool
  b_kqueue :: bool
  b_iocp :: bool
  b_inotify :: bool
  b_ktls :: bool
  b_jit :: bool
  b_debug :: bool

definition flag_text :: "bool \<Rightarrow> string \<Rightarrow> byte list list" where
  "flag_text b t = (if b then [cstr t] else [])"

definition info_parts :: "build \<Rightarrow> byte list list" where
  "info_parts b =
     [cstr ''date: '', b_date b, cstr '', time: '', b_time b, cstr '', flags: ''] @
     (case b_dynamic b of None \<Rightarrow> [] | Some so \<Rightarrow> [cstr ''dynamic('', so, cstr ''), '']) @
     flag_text (b_epoll b) ''epoll, '' @ flag_text (b_kqueue b) ''kqueue, '' @ flag_text (b_iocp b) ''iocp, '' @
     flag_text (b_inotify b) ''inotify, '' @ flag_text (b_ktls b) ''ktls, '' @
     [cstr (if b_jit b then ''luajit, '' else ''lua, '')] @ flag_text (b_debug b) ''debug, ''"

definition l_net_info :: "allocator \<Rightarrow> (nat \<Rightarrow> byte) \<Rightarrow> build \<Rightarrow> lua_result" where
  "l_net_info A stk b =
     (case for_each (dynstr_putsz A) (info_parts b) (init_on_stack stk 500) of
        None \<Rightarrow> Fault
      | Some str \<Rightarrow>
          if ds_ok str then push_block (ds_ptr str) (nat ((int (ds_length str) - 2) mod 2 ^ 64))
          else Returns [LNil])"

section \<open>What they return\<close>

text \<open>
  A file that does not change while it is read is returned whole, and it is closed, also when there
  is no memory for it.
\<close>

theorem readfile_result:
  assumes "length content < mem_limit"
    and "\<And>h. a_ret (answers env (h @ [AOther ''fopen'' [LStr (c_string name), LStr (cstr ''rb'')]])) \<noteq> 0"
    and "\<And>h. a_ret (answers env (h @ [AOther ''ftell'' []])) = int (length content)"
    and "\<And>h. a_bytes (answers env (h @ [AOther ''fread'' [LInt (int (length content))]])) = content"
  shows "\<exists>r s'. l_net_readfile env A stk [LStr name, LStr mode] s = (Returns r, s') \<and>
    (r = [LStr content] \<or> r = [] \<and> \<not> reliable A) \<and> last (hist s') = AOther ''fclose'' []"
proof -
  define s1 where "s1 = snd (os_call env ''fopen'' [LStr (c_string name), LStr (cstr ''rb'')] s)"
  have f: "os_call env ''fopen'' [LStr (c_string name), LStr (cstr ''rb'')] s =
      (answers env (hist s @ [AOther ''fopen'' [LStr (c_string name), LStr (cstr ''rb'')]]), s1)"
    using os_call_result [of env "''fopen''"] by (simp add: s1_def prod_eq_iff)
  define s1' where "s1' = snd (os_call env ''fseek'' [LInt 2] s1)"
  obtain t s2 where t: "os_call env ''ftell'' [] s1' = (t, s2)" "a_ret t = int (length content)"
    using os_call_result [of env "''ftell''" "[]" s1'] assms(3) by (metis prod.collapse)
  define s3 where "s3 = snd (os_call env ''fseek'' [LInt 0] s2)"
  have lens: "length content < 2 ^ 63" "length content + 1 \<le> mem_limit" "10000 \<le> mem_limit"
    using assms(1) by (simp_all add: mem_limit_def)
  have "int (length content) < 2 ^ 64"
    using assms(1) by (simp add: mem_limit_def)
  then have size: "nat (a_ret t mod 2 ^ 64) = length content" "sz (length content + 1) = length content + 1"
    using t(2) assms(1) by (simp_all add: mem_limit_def)
  have opened: "l_net_readfile env A stk [LStr name, LStr mode] s =
      (case dynstr_check A (init_on_stack stk 10000) (length content + 1) of
         None \<Rightarrow> (Fault, s3)
       | Some (r, dyn) \<Rightarrow>
           if r then read_whole env dyn (length content) s3
           else (Returns [], snd (os_call env ''fclose'' [] s3)))"
    using f t(1) size assms(2) by (simp add: l_net_readfile_def s1'_def s3_def Let_def cong: if_cong option.case_cong)
  show ?thesis
  proof (rule make_room [of 10000 "length content + 1" A stk, OF lens(3,2)])
    fix dyn assume dyn: "dynstr_check A (init_on_stack stk 10000) (length content + 1) = Some (True, dyn)"
        "length content + 1 < length (ds_ptr dyn)"
    obtain r s4 where r: "os_call env ''fread'' [LInt (int (length content))] s3 = (r, s4)" "a_bytes r = content"
      using os_call_result [of env "''fread''" "[LInt (int (length content))]" s3] assms(4) by (metis prod.collapse)
    obtain mem where mem: "poke (ds_ptr dyn) 0 content = Some mem" using dyn(2) by (auto simp: poke_def)
    have "take (length content) mem = content" "length mem = length (ds_ptr dyn)"
      using poke_take [OF mem] poke_length [OF mem] by simp_all
    then have "read_whole env dyn (length content) s3 = (Returns [LStr content], snd (os_call env ''fclose'' [] s4))"
      using r mem dyn(2) lens(1) by (simp add: read_whole_def push_block_def)
    then show ?thesis using opened dyn(1) by auto
  next
    assume "dynstr_check A (init_on_stack stk 10000) (length content + 1) =
        Some (False, (init_on_stack stk 10000)\<lparr>ds_ok := False\<rparr>)" "\<not> reliable A"
    then show ?thesis using opened by auto
  qed
qed

section \<open>inotify events\<close>

definition le32 :: "32 word \<Rightarrow> byte list" where
  "le32 w = [ucast w, ucast (drop_bit 8 w), ucast (drop_bit 16 w), ucast (drop_bit 24 w)]"

text \<open>An event as the kernel lays it out: its name is padded with at least one NUL.\<close>

record inotify_event =
  iv_wd :: "32 word"
  iv_mask :: "32 word"
  iv_cookie :: "32 word"
  iv_name :: "byte list"
  iv_pad :: nat

definition event_bytes :: "inotify_event \<Rightarrow> byte list" where
  "event_bytes ev =
     le32 (iv_wd ev) @ le32 (iv_mask ev) @ le32 (iv_cookie ev) @
     le32 (word_of_nat (length (iv_name ev) + iv_pad ev)) @ iv_name ev @ replicate (iv_pad ev) 0"

definition event_ok :: "inotify_event \<Rightarrow> bool" where
  "event_ok ev \<longleftrightarrow> 0 < iv_pad ev \<and> 0 \<notin> set (iv_name ev) \<and> length (iv_name ev) + iv_pad ev < 2 ^ 32"

lemma word32_le32: "word32 (le32 w) = w"
proof (rule bit_word_eqI)
  fix n assume "n < LENGTH(32)"
  then have n: "n < 32" by simp
  consider "n < 8" | "8 \<le> n" "n < 16" | "16 \<le> n" "n < 24" | "24 \<le> n" "n < 32" using n by linarith
  then show "bit (word32 (le32 w)) n = bit w n"
    by cases (auto simp: word32_def le32_def bit_simps)
qed

lemma le32_length [simp]: "length (le32 w) = 4"
  by (simp add: le32_def)

lemma read32_le32: "data = pre @ le32 w @ post \<Longrightarrow> off = length pre \<Longrightarrow> read32 data off = Some w"
  by (simp add: read32_def word32_le32)

lemma inotify_loop_events:
  "list_all event_ok evs \<Longrightarrow> data = pre @ concat (map event_bytes evs) \<Longrightarrow>
   inotify_loop now data (length pre) acc =
     Some (acc @ map (\<lambda>ev. event_table now (iv_name ev) (iv_wd ev) (iv_mask ev)) evs)"
proof (induction evs arbitrary: pre acc)
  case Nil
  then show ?case by (simp add: inotify_loop.simps)
next
  case (Cons ev evs)
  let ?rest = "concat (map event_bytes evs)"
  let ?n = "length (iv_name ev) + iv_pad ev"
  have ok: "0 < iv_pad ev" "0 \<notin> set (iv_name ev)" "?n < 2 ^ 32" "list_all event_ok evs"
    using Cons.prems(1) by (simp_all add: event_ok_def [of ev])
  have n: "unat (word_of_nat ?n :: 32 word) = ?n" using ok(3) by (simp add: unat_of_nat take_bit_eq_mod del: of_nat_add)
  then have nz: "(word_of_nat ?n :: 32 word) \<noteq> 0" using ok(1) by (metis add_gr_0 less_irrefl unsigned_0)
  have data: "data = pre @ le32 (iv_wd ev) @ le32 (iv_mask ev) @ le32 (iv_cookie ev) @ le32 (word_of_nat ?n) @
      iv_name ev @ replicate (iv_pad ev) 0 @ ?rest"
    using Cons.prems(2) by (simp add: event_bytes_def [of ev])
  have len: "length data = length pre + 16 + ?n + length ?rest" unfolding data by simp
  have r: "read32 data (length pre) = Some (iv_wd ev)" "read32 data (length pre + 4) = Some (iv_mask ev)"
      "read32 data (length pre + 12) = Some (word_of_nat ?n)"
    using read32_le32 [of data pre "iv_wd ev"] read32_le32 [of data "pre @ le32 (iv_wd ev)" "iv_mask ev"]
      read32_le32 [of data "pre @ le32 (iv_wd ev) @ le32 (iv_mask ev) @ le32 (iv_cookie ev)" "word_of_nat ?n"] data
    by simp_all
  have "drop (length pre + 16) data = iv_name ev @ replicate (iv_pad ev) 0 @ ?rest"
    unfolding data by simp
  moreover have "takeWhile (\<lambda>b. b \<noteq> 0) (iv_name ev @ replicate (iv_pad ev) 0 @ ?rest) = iv_name ev"
  proof (cases "iv_pad ev")
    case (Suc k)
    have "\<forall>b \<in> set (iv_name ev). b \<noteq> 0" using ok(2) by auto
    then show ?thesis using Suc by (simp add: takeWhile_append2)
  qed (use ok(1) in simp)
  ultimately have name: "event_name data (length pre + 16) = iv_name ev"
    by (simp add: event_name_def c_string_def)
  let ?pre = "pre @ event_bytes ev"
  have "length ?pre = length pre + 16 + ?n" by (simp add: event_bytes_def)
  then have "inotify_loop now data (length pre) acc =
      inotify_loop now data (length ?pre) (acc @ [event_table now (iv_name ev) (iv_wd ev) (iv_mask ev)])"
    using r n nz name len by (subst inotify_loop.simps) (simp add: add.assoc del: of_nat_add)
  also have "\<dots> = Some ((acc @ [event_table now (iv_name ev) (iv_wd ev) (iv_mask ev)]) @
      map (\<lambda>ev. event_table now (iv_name ev) (iv_wd ev) (iv_mask ev)) evs)"
    using Cons.prems(2) by (intro Cons.IH ok(4)) simp
  finally show ?case by simp
qed

text \<open>
  The events of one read of an inotify descriptor come back as a list in their order, each with its
  name, its watch descriptor and its flags.
\<close>

theorem inotify_read_result:
  assumes "list_all event_ok evs"
  shows "\<exists>now s'. l_net_inotify_read env secs [LStr (concat (map event_bytes evs))] s =
    (Returns [LTable (enumerate_from 1 (map (\<lambda>ev. event_table now (iv_name ev) (iv_wd ev) (iv_mask ev)) evs))], s')"
  using inotify_loop_events [OF assms, of "concat (map event_bytes evs)" "[]" _ "[]"]
  by (auto simp: l_net_inotify_read_def split: prod.splits)

theorem inotify_read_result_witness:
  "\<exists>now s'. l_net_inotify_read (const_env 0) (\<lambda>s n. 0) [LStr (concat (map event_bytes
      [\<lparr>iv_wd = 1, iv_mask = 2, iv_cookie = 0, iv_name = [97], iv_pad = 15\<rparr>]))] idle_server =
    (Returns [LTable (enumerate_from 1 (map (\<lambda>ev. event_table now (iv_name ev) (iv_wd ev) (iv_mask ev))
      [\<lparr>iv_wd = 1, iv_mask = 2, iv_cookie = 0, iv_name = [97], iv_pad = 15\<rparr>]))], s')"
  by (rule inotify_read_result) (simp add: event_ok_def)

lemma inotify_read_short:
  assumes "data \<noteq> []" and "length data < 15"
  shows "fst (l_net_inotify_read env secs [LStr data] s) = Fault"
proof -
  have "inotify_loop now data 0 [] = None" for now
    using assms by (subst inotify_loop.simps) (simp add: read32_def)
  then show ?thesis by (simp add: l_net_inotify_read_def split: prod.splits)
qed

section \<open>The description of the build\<close>

lemma putsz_all:
  assumes "dynstr_wf s" and "length (dynstr_text s) + length (concat (map c_string ps)) \<le> mem_limit"
  shows "\<exists>s'. for_each (dynstr_putsz A) ps s = Some s' \<and> dynstr_wf s' \<and> (ds_ok s' \<longrightarrow> ds_ok s) \<and>
    (ds_ok s' \<longrightarrow> dynstr_text s' = dynstr_text s @ concat (map c_string ps)) \<and> (reliable A \<longrightarrow> ds_ok s' = ds_ok s)"
  using assms
proof (induction ps arbitrary: s)
  case (Cons p ps)
  have lim: "ds_length s + length (c_string p) \<le> mem_limit" using Cons.prems by simp
  from Cons.prems(1) lim show ?case
  proof (cases rule: dynstr_check_cases [where A = A])
    case (grown s1)
    then obtain s2 where s2: "dynstr_append s1 (c_string p) = Some s2" "dynstr_wf s2" "ds_ok s2 = ds_ok s1"
        "dynstr_text s2 = dynstr_text s1 @ c_string p"
      using dynstr_append_step [of s1 "c_string p"] lim by auto
    then have "dynstr_putsz A s p = Some (True, s2)"
      using grown by (simp add: dynstr_putsz_def dynstr_puts_def c_string_def)
    then show ?thesis using Cons.IH [OF s2(2)] Cons.prems grown s2 by auto
  next
    case failed
    let ?s = "s\<lparr>ds_ok := False\<rparr>"
    have "dynstr_putsz A s p = Some (False, ?s)"
      using failed by (simp add: dynstr_putsz_def dynstr_puts_def c_string_def)
    moreover have "dynstr_wf ?s" "dynstr_text ?s = dynstr_text s"
      using Cons.prems(1) by (simp_all add: dynstr_wf_def dynstr_text_def)
    ultimately show ?thesis using Cons.IH [of ?s] Cons.prems failed by auto
  qed
qed simp

theorem info_result:
  assumes "length (concat (map c_string (info_parts b))) \<le> mem_limit"
  shows "l_net_info A stk b =
      Returns [LStr (butlast (butlast (concat (map c_string (info_parts b)))))] \<or>
    l_net_info A stk b = Returns [LNil] \<and> \<not> reliable A"
proof -
  let ?txt = "concat (map c_string (info_parts b))"
  have wf: "dynstr_wf (init_on_stack stk 500)" "ds_ok (init_on_stack stk 500)"
    by (simp_all add: mem_limit_def init_on_stack_def dynstr_init_def) (simp add: dynstr_wf_def dynstr_init_def)
  obtain str where str: "for_each (dynstr_putsz A) (info_parts b) (init_on_stack stk 500) = Some str" "dynstr_wf str"
      "ds_ok str \<longrightarrow> dynstr_text str = ?txt" "reliable A \<longrightarrow> ds_ok str"
    using putsz_all [OF wf(1), of "info_parts b" A] assms wf(2) by auto
  show ?thesis
  proof (cases "ds_ok str")
    case True
    then have text_eq: "dynstr_text str = ?txt" using str(3) by simp
    then have len: "ds_length str = length ?txt" using text_eq str(2) by (metis dynstr_text_length)
    have two: "2 \<le> length ?txt" by (simp add: info_parts_def c_string_def cstr_def)
    then have n: "nat ((int (length ?txt) - 2) mod 2 ^ 64) = length ?txt - 2"
      using assms by (simp add: mem_limit_def nat_diff_distrib)
    have "take (length ?txt - 2) (ds_ptr str) = take (length ?txt - 2) ?txt"
      using text_eq len by (metis dynstr_text_def take_take min.absorb1 diff_le_self)
    also have "\<dots> = butlast (butlast ?txt)" by (simp add: butlast_conv_take numeral_2_eq_2)
    finally have "push_block (ds_ptr str) (length ?txt - 2) = Returns [LStr (butlast (butlast ?txt))]"
      using str(2) len assms diff_le_self [of "length ?txt" 2]
      by (simp add: push_block_def dynstr_wf_def mem_limit_def del: diff_le_self)
    then show ?thesis using str(1) True len n by (simp add: l_net_info_def)
  next
    case False
    then show ?thesis using str by (auto simp: l_net_info_def)
  qed
qed

section \<open>The counter of listdir\<close>

lemma listdir_loop_keys:
  "listdir_loop env dir es i tab s = Some (tab', s') \<Longrightarrow> map fst tab = map LInt [j..i] \<Longrightarrow> j \<le> i + 1 \<Longrightarrow>
   map fst tab' = map LInt [j..j + int (length tab') - 1]"
proof (induction es arbitrary: i tab s)
  case Nil
  then have "length tab = length [j..i]" by (metis length_map)
  then show ?case using Nil by simp
next
  case (Cons e es)
  have fresh: "map fst (table_set tab (LInt (i + 1)) (LStr v)) = map LInt [j..i + 1]" for v
  proof -
    have "LInt (i + 1) \<notin> set (map fst tab)" unfolding Cons.prems(2) by auto
    then show ?thesis
      using Cons.prems(2,3) table_set_fresh [of "LInt (i + 1)" tab "LStr v"] by (simp add: upto_rec2)
  qed
  show ?case
  proof (cases "e = cstr ''.'' \<or> e = cstr ''..''")
    case True
    then show ?thesis using Cons by simp
  next
    case False
    obtain path where path: "join_into 2000 1996 dir e = Some path"
      using Cons.prems(1) False by (auto simp: bind_eq_Some_conv)
    obtain st s1 where st: "os_call env ''stat'' [LStr path] s = (st, s1)" by (metis prod.exhaust)
    show ?thesis
    proof (cases "a_ret st < 0")
      case True
      then show ?thesis using Cons False path st by simp
    next
      case ok: False
      obtain shown where "listdir_loop env dir es (i + 1) (table_set tab (LInt (i + 1)) (LStr shown)) s1 = Some (tab', s')"
        using Cons.prems(1) False path st ok by (auto simp: bind_eq_Some_conv)
      then show ?thesis using Cons.prems(3) by (intro Cons.IH [OF _ fresh]) simp_all
    qed
  qed
qed

text \<open>
  \<open>listdir\<close> numbers the entries from whatever its uninitialised counter holds, plus one: the result
  is the list Lua expects exactly when that happens to be 0.
\<close>

theorem listdir_keys:
  assumes "l_net_listdir env scandir i0 [LStr name] s = (Returns [LTable tab], s')"
  shows "map fst tab = map LInt [i0 + 1..i0 + int (length tab)]"
proof -
  have "tab = [] \<or> (\<exists>eps s'. listdir_loop env (c_string name) (rev eps) i0 [] s = Some (tab, s'))"
    using assms by (auto simp: l_net_listdir_def split: option.splits prod.splits)
  then show ?thesis using listdir_loop_keys [of env _ _ i0 "[]" s tab _ "i0 + 1"] by auto
qed

end
