(* ===== verification/Lua_State.thy ===== *)
theory Lua_State
  imports Net_Files
begin

text \<open>
  Setting up the Lua state of a worker, \<^verbatim>\<open>src/80s/lua.c\<close>: the libraries, the global variables a
  script finds, the search path of its modules and the run of the entry point.  The state of Lua
  is represented by its globals, its registry and \<open>package.path\<close>; what Lua and the script do is an
  answer of the environment.
\<close>

record node_id =
  nd_id :: int
  nd_port :: int
  nd_name :: "byte list"

text \<open>What the preprocessor decides: \<open>S80_DYNAMIC\<close>, a Lua behind 5.1, \<open>USE_KTLS\<close>.\<close>

record lua_build =
  lb_dynamic :: bool
  lb_modern :: bool
  lb_ktls :: bool

record lua_vm =
  vm_globals :: "(lua_value \<times> lua_value) list"
  vm_registry :: "(lua_value \<times> lua_value) list"
  vm_path :: "byte list"

definition set_global :: "string \<Rightarrow> lua_value \<Rightarrow> lua_vm \<Rightarrow> lua_vm" where
  "set_global name v vm = vm\<lparr>vm_globals := table_set (vm_globals vm) (LStr (cstr name)) v\<rparr>"

text \<open>An entry of the registry is removed when it is there.\<close>

definition clean_global :: "lua_build \<Rightarrow> string \<Rightarrow> lua_vm \<Rightarrow> lua_vm" where
  "clean_global b name vm =
     (if lb_modern b \<and> lb_dynamic b then
        vm\<lparr>vm_registry := table_set (vm_registry vm) (LStr (cstr name)) LNil\<rparr>
      else vm)"

section \<open>The search path\<close>

text \<open>
  The directory two levels up, from the last character to the second: \<open>exe_path[len]\<close> is examined for
  \<open>len > 0\<close>, and the path ends behind the second separator.
\<close>

definition is_separator :: "byte \<Rightarrow> bool" where
  "is_separator c \<longleftrightarrow> c = 47 \<or> c = c_backslash"

fun exe_dir_loop :: "byte list \<Rightarrow> nat \<Rightarrow> nat \<Rightarrow> byte list" where
  "exe_dir_loop p 0 parents = p"
| "exe_dir_loop p (Suc n) parents =
     (if is_separator (p ! Suc n) then
        (if parents + 1 = 2 then take (Suc n + 1) p else exe_dir_loop p n (parents + 1))
      else exe_dir_loop p n parents)"

text \<open>With an empty path \<open>strlen(exe_path) - 1\<close> is the largest \<open>size_t\<close>, an index outside the array.\<close>

definition exe_dir :: "byte list \<Rightarrow> byte list option" where
  "exe_dir p = (if p = [] then None else Some (exe_dir_loop p (length p - 1) 0))"

text \<open>What \<open>readlink\<close> leaves in the zeroed array of 1000 bytes.\<close>

definition exe_path :: "answer \<Rightarrow> byte list" where
  "exe_path a = c_string (if a_ret a < 0 then [] else take 999 (a_bytes a))"

definition set_package_path :: "env \<Rightarrow> allocator \<Rightarrow> (nat \<Rightarrow> byte) \<Rightarrow> lua_vm \<Rightarrow> server \<Rightarrow> (lua_vm \<times> server) option" where
  "set_package_path env A stk vm s =
     Option.bind (dynstr_putsz A (init_on_stack stk 500) (vm_path vm)) (\<lambda>(_, str1).
     Option.bind (dynstr_putc A str1 59) (\<lambda>(_, str2).
       case os_call env ''readlink'' [LStr (cstr ''/proc/self/exe''), LInt 999] s of
         (a, s1) \<Rightarrow>
           Option.bind (exe_dir (exe_path a)) (\<lambda>dir.
           Option.bind (dynstr_putsz A str2 dir) (\<lambda>(_, str3).
           Option.bind (dynstr_putsz A str3 (cstr ''?.lua'')) (\<lambda>(_, str4).
           Some (vm\<lparr>vm_path := take (ds_length str4) (ds_ptr str4)\<rparr>, s1))))))"

section \<open>The globals\<close>

definition lua_globals :: "lua_build \<Rightarrow> fd \<Rightarrow> node_id \<Rightarrow> byte list \<Rightarrow> int \<Rightarrow> nat \<Rightarrow> (string \<times> lua_value) list" where
  "lua_globals b elfd node entrypoint workers reload =
     [(''WORKERID'', LInt (nd_id node)), (''WORKERS'', LInt workers), (''PORT'', LInt (nd_port node)),
      (''NODE'', LStr (nd_name node)), (''ENTRYPOINT'', LStr entrypoint), (''ELFD'', fd_to_void elfd),
      (''S80_FD_SOCKET'', LLight (nat S80_FD_SOCKET)), (''S80_FD_KTLS_SOCKET'', LLight (nat S80_FD_KTLS_SOCKET)),
      (''S80_FD_PIPE'', LLight (nat S80_FD_PIPE)), (''S80_FD_OTHER'', LLight (nat S80_FD_OTHER)),
      (''S80_MB_MESSAGE'', LInt S80_MB_MESSAGE), (''S80_RELOAD'', LLight reload), (''NILFD'', LLight 0)] @
     (if lb_ktls b then [(''KTLS'', LBool True)] else [])"

text \<open>Opening the libraries: the calls in their order.\<close>

definition open_libraries :: "env \<Rightarrow> lua_build \<Rightarrow> server \<Rightarrow> server" where
  "open_libraries env b s =
     fold (\<lambda>name s. snd (os_call env (if lb_modern b then ''luaL_requiref'' else ''luaopen'') [LStr (cstr name)] s))
       [''net'', ''codec'', ''crypto''] (snd (os_call env ''luaL_openlibs'' [] s))"

text \<open>
  \<open>luaL_dofile\<close>: the entry point is run; an error in it is printed, and the state is used all the same.
\<close>

definition refresh_lua :: "env \<Rightarrow> lua_build \<Rightarrow> lua_runner \<Rightarrow> allocator \<Rightarrow> (nat \<Rightarrow> byte) \<Rightarrow> lua_vm \<Rightarrow> fd \<Rightarrow> node_id \<Rightarrow>
    byte list \<Rightarrow> int \<Rightarrow> nat \<Rightarrow> server \<Rightarrow> (lua_vm \<times> server) option" where
  "refresh_lua env b run A stk vm elfd node entrypoint workers reload s =
     (let vm1 = clean_global b ''FILE*'' (clean_global b ''_LOADED'' vm);
          vm2 = fold (\<lambda>(name, v). set_global name v) (lua_globals b elfd node entrypoint workers reload) vm1 in
      Option.bind (set_package_path env A stk vm2 (open_libraries env b s)) (\<lambda>(vm3, s1).
        case act env (AOther ''luaL_dofile'' [LStr entrypoint]) s1 of
          (a, s2) \<Rightarrow> map_option (Pair vm3) (run (a_plan a) s2)))"

text \<open>\<open>lua_newstate\<close> may find no memory; the fresh state has the library's default path.\<close>

definition create_lua :: "env \<Rightarrow> lua_build \<Rightarrow> lua_runner \<Rightarrow> allocator \<Rightarrow> (nat \<Rightarrow> byte) \<Rightarrow> fd \<Rightarrow> node_id \<Rightarrow> byte list \<Rightarrow>
    int \<Rightarrow> nat \<Rightarrow> server \<Rightarrow> (lua_vm option \<times> server) option" where
  "create_lua env b run A stk elfd node entrypoint workers reload s =
     (case os_call env ''lua_newstate'' [] s of
        (a, s1) \<Rightarrow>
          if a_ret a = 0 then Some (None, s1)
          else
            map_option (\<lambda>(vm, s2). (Some vm, s2))
              (refresh_lua env b run A stk \<lparr>vm_globals = [], vm_registry = [], vm_path = c_string (a_bytes a)\<rparr>
                 elfd node entrypoint workers reload s1))"

definition create_context :: "env \<Rightarrow> lua_build \<Rightarrow> lua_runner \<Rightarrow> allocator \<Rightarrow> (nat \<Rightarrow> byte) \<Rightarrow> fd \<Rightarrow> node_id \<Rightarrow> byte list \<Rightarrow>
    int \<Rightarrow> nat \<Rightarrow> server \<Rightarrow> (lua_vm option \<times> server) option" where
  "create_context = create_lua"

definition refresh_context :: "env \<Rightarrow> lua_build \<Rightarrow> lua_runner \<Rightarrow> allocator \<Rightarrow> (nat \<Rightarrow> byte) \<Rightarrow> lua_vm \<Rightarrow> fd \<Rightarrow> node_id \<Rightarrow>
    byte list \<Rightarrow> int \<Rightarrow> nat \<Rightarrow> server \<Rightarrow> (lua_vm \<times> server) option" where
  "refresh_context = refresh_lua"

definition close_context :: "env \<Rightarrow> server \<Rightarrow> server" where
  "close_context env s = snd (os_call env ''lua_close'' [] s)"

section \<open>What a script finds\<close>

lemma exe_dir_loop_skip:
  "(\<And>i. n < i \<Longrightarrow> i \<le> n + k \<Longrightarrow> \<not> is_separator (p ! i)) \<Longrightarrow> exe_dir_loop p (n + k) c = exe_dir_loop p n c"
  by (induction k) simp_all

text \<open>The executable in a directory below another one: the path of the latter, with its separator.\<close>

lemma exe_dir_two_up:
  assumes "d \<noteq> []" and "\<And>x. x \<in> set a \<union> set b \<Longrightarrow> \<not> is_separator x" and "b \<noteq> []"
  shows "exe_dir (d @ 47 # a @ 47 # b) = Some (d @ [47])"
proof -
  let ?p = "d @ 47 # a @ 47 # b"
  let ?i = "length d" and ?j = "Suc (length d + length a)"
  obtain i' where i': "?i = Suc i'" using assms(1) by (cases d) auto
  have b: "?p ! (?j + k) = b ! (k - 1)" if "0 < k" "k \<le> length b" for k
    using that by (auto simp: nth_append nth_Cons split: nat.splits)
  have a: "?p ! (?i + k) = a ! (k - 1)" if "0 < k" "k \<le> length a" for k
    using that by (auto simp: nth_append nth_Cons split: nat.splits)
  have sep: "?p ! ?i = 47" "?p ! ?j = 47" by (simp_all add: nth_append)
  have 1: "exe_dir_loop ?p (?j + length b) 0 = exe_dir_loop ?p ?j 0"
  proof (rule exe_dir_loop_skip)
    fix i assume i: "?j < i" "i \<le> ?j + length b"
    then have "?p ! i = b ! (i - ?j - 1)" using b [of "i - ?j"] by simp
    then show "\<not> is_separator (?p ! i)" using i assms(2) by simp
  qed
  have 2: "exe_dir_loop ?p (?i + length a) 1 = exe_dir_loop ?p ?i 1"
  proof (rule exe_dir_loop_skip)
    fix i assume i: "?i < i" "i \<le> ?i + length a"
    then have "?p ! i = a ! (i - ?i - 1)" using a [of "i - ?i"] by simp
    then show "\<not> is_separator (?p ! i)" using i assms(2) by simp
  qed
  have "exe_dir_loop ?p ?j 0 = exe_dir_loop ?p (?i + length a) 1"
    using sep(2) by (simp add: is_separator_def)
  also have "\<dots> = take (?i + 1) ?p"
    unfolding 2 using sep(1) by (simp add: i' is_separator_def)
  finally have "exe_dir_loop ?p (?j + length b) 0 = d @ [47]" unfolding 1 by simp
  moreover have "length ?p - 1 = ?j + length b" by simp
  ultimately show ?thesis unfolding exe_dir_def by (simp only:) simp
qed

lemma putsz_text:
  assumes "reliable A" and "dynstr_wf s" and "length (dynstr_text s) + length bs \<le> mem_limit" and "0 \<notin> set bs"
  shows "\<exists>s'. dynstr_putsz A s bs = Some (True, s') \<and> dynstr_wf s' \<and> dynstr_text s' = dynstr_text s @ bs"
proof -
  have "takeWhile (\<lambda>b. b \<noteq> 0) bs = bs" using assms(4) by (auto simp: takeWhile_eq_all_conv)
  then show ?thesis using dynstr_putsz_step [OF assms(2,3), of A] assms(1) by auto
qed

text \<open>
  With memory, the modules of a script are looked for in Lua's own path and then in the directory two
  levels above the executable.
\<close>

theorem package_path_result:
  assumes "reliable A" and "0 \<notin> set (vm_path vm)" and "length (vm_path vm) < 2 ^ 40"
    and "\<And>h. answers env (h @ [AOther ''readlink'' [LStr (cstr ''/proc/self/exe''), LInt 999]]) = r"
    and "exe_path r = d @ 47 # a @ 47 # b" and "d \<noteq> []" and "\<And>x. x \<in> set a \<union> set b \<Longrightarrow> \<not> is_separator x" and "b \<noteq> []"
  shows "\<exists>s'. set_package_path env A stk vm s =
    Some (vm\<lparr>vm_path := vm_path vm @ 59 # d @ 47 # cstr ''?.lua''\<rparr>, s')"
proof -
  have "length (exe_path r) \<le> 999"
    unfolding exe_path_def c_string_def by (rule order.trans [OF length_takeWhile_le]) simp
  then have lim: "length d \<le> 999" unfolding assms(5) by simp
  have "0 \<notin> set (exe_path r)" by (auto simp: exe_path_def c_string_def dest: set_takeWhileD)
  then have dir: "exe_dir (exe_path r) = Some (d @ [47])" "0 \<notin> set (d @ [47])"
    unfolding assms(5) using exe_dir_two_up [OF assms(6,7,8)] by simp_all
  have wf: "dynstr_wf (init_on_stack stk 500)" by (simp add: mem_limit_def)
  obtain s1 where s1: "dynstr_putsz A (init_on_stack stk 500) (vm_path vm) = Some (True, s1)" "dynstr_wf s1"
      "dynstr_text s1 = vm_path vm"
    using putsz_text [OF assms(1) wf _ assms(2)] assms(3) by (auto simp: mem_limit_def)
  obtain s2 where s2: "dynstr_putc A s1 59 = Some (True, s2)" "dynstr_wf s2" "dynstr_text s2 = vm_path vm @ [59]"
    using dynstr_puts_step [OF s1(2), of "[59]" A] assms(1,3) s1(3)
    by (auto simp: mem_limit_def dynstr_putc_puts)
  obtain s3 where s3: "dynstr_putsz A s2 (d @ [47]) = Some (True, s3)" "dynstr_wf s3"
      "dynstr_text s3 = vm_path vm @ 59 # d @ [47]"
    using putsz_text [OF assms(1) s2(2) _ dir(2)] assms(3) s2(3) lim by (auto simp: mem_limit_def)
  obtain s4 where s4: "dynstr_putsz A s3 (cstr ''?.lua'') = Some (True, s4)"
      "dynstr_text s4 = vm_path vm @ 59 # d @ 47 # cstr ''?.lua''"
    using putsz_text [OF assms(1) s3(2), of "cstr ''?.lua''"] assms(3) s3(3) lim by (auto simp: mem_limit_def cstr_def)
  obtain s' where "os_call env ''readlink'' [LStr (cstr ''/proc/self/exe''), LInt 999] s = (r, s')"
    using os_call_result [of env "''readlink''" _ s] assms(4) by (metis prod.collapse)
  then show ?thesis
    using s1(1) s2(1) s3(1) s4 dir(1) by (simp add: set_package_path_def dynstr_text_def)
qed

text \<open>When the link cannot be read, the loop starts in front of the array.\<close>

lemma unreadable_link_faults:
  assumes "a_ret (answers env (hist s @ [AOther ''readlink'' [LStr (cstr ''/proc/self/exe''), LInt 999]])) < 0"
  shows "set_package_path env A stk vm s = None"
proof -
  have "exe_dir (exe_path (fst (os_call env ''readlink'' [LStr (cstr ''/proc/self/exe''), LInt 999] s))) = None"
    using assms by (simp add: os_call_result exe_path_def exe_dir_def c_string_def)
  then show ?thesis
    by (auto simp: set_package_path_def bind_eq_None_conv split: prod.splits)
qed

text \<open>An executable in a directory right below the root is taken as a directory itself.\<close>

lemma root_directory_path: "exe_dir (cstr ''/bin/80s'') = Some (cstr ''/bin/80s'')"
  by code_simp

end
