(* ===== verification/Startup.thy ===== *)
theory Startup
  imports Sockets
begin

text \<open>
  Starting the server, \<^verbatim>\<open>src/80s/80s.c\<close> as it is built on Linux: the command line, the list of
  modules, the listening socket and the parameters of the workers.  \<open>argv\<close> is the list of the
  arguments as C strings without their NUL, the program name first.
\<close>

section \<open>The command line\<close>

definition is_space_char :: "byte \<Rightarrow> bool" where
  "is_space_char c \<longleftrightarrow> c = c_space \<or> 9 \<le> unat c \<and> unat c \<le> 13"

definition is_digit_byte :: "byte \<Rightarrow> bool" where
  "is_digit_byte c \<longleftrightarrow> 48 \<le> unat c \<and> unat c \<le> 57"

definition digits_value :: "byte list \<Rightarrow> int" where
  "digits_value ds = foldl (\<lambda>n d. 10 * n + (int (unat d) - 48)) 0 ds"

text \<open>
  \<open>atoi\<close>: white space, a sign, digits.  The C library computes it as a \<open>long\<close>, which stops at its
  bounds, and cuts that to an \<open>int\<close>.
\<close>

definition long_bounds :: "int \<Rightarrow> int" where
  "long_bounds n = max (- (2 ^ 63)) (min (2 ^ 63 - 1) n)"

definition c_atoi :: "byte list \<Rightarrow> int" where
  "c_atoi bs =
     (let cs = dropWhile is_space_char bs;
          neg = (cs \<noteq> [] \<and> hd cs = c_minus);
          ds = takeWhile is_digit_byte (if cs \<noteq> [] \<and> hd cs \<in> {c_minus, c_plus} then tl cs else cs)
      in sint (word_of_int (long_bounds (if neg then - digits_value ds else digits_value ds)) :: 32 word))"

text \<open>The loops go over the indices of the code.\<close>

primrec get_arg_loop :: "byte list \<Rightarrow> int \<Rightarrow> bool \<Rightarrow> byte list list \<Rightarrow> nat list \<Rightarrow> int" where
  "get_arg_loop arg default_value flag argv [] = (if flag then 0 else default_value)"
| "get_arg_loop arg default_value flag argv (i # is) =
     (if argv ! i = arg then
        if flag then 1
        else
          (let count = c_atoi (argv ! (i + 1)) in
           if count = 0 \<and> argv ! (i + 1) \<noteq> cstr ''0'' then default_value else count)
      else get_arg_loop arg default_value flag argv is)"

definition get_arg :: "byte list \<Rightarrow> int \<Rightarrow> bool \<Rightarrow> byte list list \<Rightarrow> int" where
  "get_arg arg default_value flag argv =
     get_arg_loop arg default_value flag argv [1..<length argv - (if flag then 0 else 1)]"

fun no_flag_loop :: "byte list list \<Rightarrow> byte list option" where
  "no_flag_loop [] = None"
| "no_flag_loop (a # as) =
     (if a \<noteq> [] \<and> hd a = c_minus then
        if tl a = [] \<or> hd (tl a) \<noteq> c_minus then (case as of [] \<Rightarrow> None | b # bs \<Rightarrow> no_flag_loop bs)
        else no_flag_loop as
      else Some a)"

definition get_sz_arg_no_flag :: "byte list \<Rightarrow> byte list list \<Rightarrow> byte list" where
  "get_sz_arg_no_flag default_value argv =
     (case no_flag_loop (drop 1 argv) of None \<Rightarrow> default_value | Some a \<Rightarrow> a)"

text \<open>The environment variable, if there is one, goes before the command line.\<close>

primrec sz_arg_loop :: "byte list \<Rightarrow> byte list option \<Rightarrow> byte list list \<Rightarrow> nat list \<Rightarrow> byte list option" where
  "sz_arg_loop arg default_value argv [] = default_value"
| "sz_arg_loop arg default_value argv (i # is) =
     (if argv ! i = arg then Some (argv ! (i + 1)) else sz_arg_loop arg default_value argv is)"

definition get_sz_arg :: "byte list \<Rightarrow> byte list list \<Rightarrow> byte list option \<Rightarrow> byte list option \<Rightarrow> byte list option" where
  "get_sz_arg arg argv env_value default_value =
     (case env_value of Some v \<Rightarrow> Some v
      | None \<Rightarrow> sz_arg_loop arg default_value argv [1..<length argv - 1])"

definition get_cpus :: "int \<Rightarrow> int" where
  "get_cpus sysconf = (if 0 < sysconf then sysconf else 1)"

text \<open>An option is read from its first occurrence that has an argument behind it.\<close>

lemma get_arg_loop_skip:
  "\<forall>i \<in> set is. argv ! i \<noteq> arg \<Longrightarrow> get_arg_loop arg d flag argv (is @ js) = get_arg_loop arg d flag argv js"
  by (induction "is") auto

theorem get_arg_first:
  assumes "argv = prog # pre @ arg # val # post" and "arg \<notin> set pre"
  shows "get_arg arg d False argv = (if c_atoi val = 0 \<and> val \<noteq> cstr ''0'' then d else c_atoi val)"
proof -
  let ?k = "Suc (length pre)"
  have n: "length argv - 1 = ?k + Suc (length post)" using assms(1) by simp
  have "[1..<?k + Suc (length post)] = [1..<?k] @ [?k..<?k + Suc (length post)]"
    by (rule upt_add_eq_append) simp
  also have "[?k..<?k + Suc (length post)] = ?k # [Suc ?k..<?k + Suc (length post)]"
    by (rule upt_conv_Cons) simp
  finally have "[1..<length argv - 1] = [1..<?k] @ ?k # [Suc ?k..<length argv - 1]" unfolding n .
  moreover have "\<forall>i \<in> set [1..<?k]. argv ! i \<noteq> arg"
    using assms by (auto simp: nth_append nth_Cons' in_set_conv_nth)
  ultimately show ?thesis
    using assms(1) by (simp add: get_arg_def get_arg_loop_skip Let_def nth_append)
qed

section \<open>The list of modules\<close>

text \<open>
  \<open>-m\<close> names shared objects, separated by commas.  The text is copied into a zeroed block with
  four bytes to spare and the commas are overwritten with NULs; then \<open>p\<close> walks over the block, \<open>q\<close>
  marks the begin of a name.  The names are the C strings from the marks; \<^verbatim>\<open>None\<close> is a read
  outside the block.
\<close>

definition module_block :: "byte list \<Rightarrow> byte list" where
  "module_block module_list =
     map (\<lambda>c. if c = c_comma then 0 else c) module_list @ replicate 4 0"

definition block_string :: "byte list \<Rightarrow> nat \<Rightarrow> byte list" where
  "block_string blk q = takeWhile (\<lambda>b. b \<noteq> 0) (drop q blk)"

function module_loop :: "byte list \<Rightarrow> nat \<Rightarrow> nat \<Rightarrow> byte list list \<Rightarrow> byte list list option" where
  "module_loop blk p q acc =
     (if length blk \<le> p + 1 then None
      else
        (let found = (blk ! p = 0 \<and> p \<noteq> q);
             acc' = (if found then acc @ [block_string blk q] else acc);
             q' = (if found then p + 1 else q)
         in if blk ! p = 0 \<and> blk ! (p + 1) = 0 then Some acc' else module_loop blk (p + 1) q' acc'))"
  by pat_completeness auto
termination by (relation "measure (\<lambda>(blk, p, q, acc). length blk - p)") auto

declare module_loop.simps [simp del]

definition module_names :: "byte list option \<Rightarrow> byte list list option" where
  "module_names module_list =
     (case module_list of None \<Rightarrow> Some [] | Some l \<Rightarrow> module_loop (module_block l) 0 0 [])"

text \<open>The names as a reader of the command line splits them.\<close>

fun split_commas :: "byte list \<Rightarrow> byte list list" where
  "split_commas [] = [[]]"
| "split_commas (c # cs) =
     (if c = c_comma then [] # split_commas cs
      else (case split_commas cs of [] \<Rightarrow> [[c]] | w # ws \<Rightarrow> (c # w) # ws))"

definition comma_list :: "byte list list \<Rightarrow> byte list" where
  "comma_list names = concat (map (\<lambda>w. w @ [c_comma]) (butlast names)) @ last names"

definition object_name :: "byte list \<Rightarrow> bool" where
  "object_name w \<longleftrightarrow> w \<noteq> [] \<and> c_comma \<notin> set w \<and> 0 \<notin> set w"

fun zero_joined :: "byte list list \<Rightarrow> byte list" where
  "zero_joined [] = []"
| "zero_joined (w # ws) = w @ 0 # zero_joined ws"

lemma zero_joined_append: "zero_joined (xs @ ys) = zero_joined xs @ zero_joined ys"
  by (induction xs) auto

lemma module_block_names:
  assumes "names \<noteq> []" and "list_all object_name names"
  shows "module_block (comma_list names) = zero_joined names @ [0, 0, 0]"
proof -
  have keep: "map (\<lambda>c. if c = c_comma then 0 else c) w = w" if "object_name w" for w
    using that by (auto simp: object_name_def intro!: map_idI)
  have body: "list_all object_name ws \<Longrightarrow>
      map (\<lambda>c. if c = c_comma then 0 else c) (concat (map (\<lambda>w. w @ [c_comma]) ws)) = zero_joined ws" for ws
    using keep by (induction ws) auto
  obtain ws w where names: "names = ws @ [w]" using assms(1) by (metis rev_exhaust)
  then have "list_all object_name ws" "object_name w" using assms(2) by simp_all
  then show ?thesis
    using body [of ws] keep [of w]
    by (simp add: names module_block_def comma_list_def zero_joined_append numeral_eq_Suc del: map_concat)
qed

text \<open>Walking over one name.\<close>

lemma module_word:
  assumes "blk = pre @ w @ 0 # rest" and "0 \<notin> set w" and "w \<noteq> []" and "rest \<noteq> []"
  shows "k \<le> length w \<Longrightarrow> module_loop blk (length pre + k) (length pre) acc = module_loop blk (length pre + length w) (length pre) acc"
proof (induction "length w - k" arbitrary: k)
  case (Suc n)
  then have k: "k < length w" by simp
  then have "blk ! (length pre + k) \<noteq> 0"
    using assms(1,2) by (simp add: nth_append) (metis nth_mem)
  moreover have "\<not> length blk \<le> length pre + k + 1" using assms(1,3,4) k by simp
  ultimately have "module_loop blk (length pre + k) (length pre) acc = module_loop blk (length pre + Suc k) (length pre) acc"
    by (subst module_loop.simps) simp
  then show ?case using Suc.hyps(1) [of "Suc k"] Suc.hyps(2) k by simp
qed simp

lemma module_run:
  "list_all object_name names \<Longrightarrow> names \<noteq> [] \<Longrightarrow> blk = pre @ zero_joined names @ [0, 0, 0] \<Longrightarrow>
   module_loop blk (length pre) (length pre) acc = Some (acc @ names)"
proof (induction names arbitrary: pre acc)
  case (Cons w ws)
  have w: "w \<noteq> []" "0 \<notin> set w" using Cons.prems(1) by (simp_all add: object_name_def)
  let ?stop = "length pre + length w"
  have blk: "blk = pre @ w @ 0 # (zero_joined ws @ [0, 0, 0])" using Cons.prems(3) by simp
  have "\<forall>b \<in> set w. b \<noteq> 0" using w(2) by auto
  then have str: "block_string blk (length pre) = w"
    unfolding block_string_def blk by (simp add: takeWhile_append2)
  have at: "blk ! ?stop = 0" "\<not> length blk \<le> ?stop + 1" unfolding blk by (simp_all add: nth_append)
  have walk: "module_loop blk (length pre) (length pre) acc = module_loop blk ?stop (length pre) acc"
    using module_word [OF blk w(2,1), of 0 acc] by simp
  show ?case
  proof (cases ws)
    case Nil
    then have "blk ! (?stop + 1) = 0" unfolding blk by (simp add: nth_append)
    then show ?thesis
      using walk at w str Nil by (subst walk, subst module_loop.simps) simp
  next
    case (Cons v vs)
    then have "v \<noteq> []" "0 \<notin> set v" using \<open>list_all object_name (w # ws)\<close>
      by (simp_all add: object_name_def)
    then have "v \<noteq> []" "hd v \<noteq> 0" by (simp, metis hd_in_set)
    then have next_char: "blk ! (?stop + 1) \<noteq> 0" unfolding blk Cons by (cases v) (simp_all add: nth_append)
    have "module_loop blk ?stop (length pre) acc = module_loop blk (?stop + 1) (?stop + 1) (acc @ [w])"
      using at w str next_char by (subst module_loop.simps) simp
    moreover have "module_loop blk (length (pre @ w @ [0])) (length (pre @ w @ [0])) (acc @ [w]) = Some ((acc @ [w]) @ ws)"
      using Cons.prems Cons by (intro Cons.IH) auto
    ultimately show ?thesis using walk by simp
  qed
qed simp

text \<open>
  A list of non-empty names is split at its commas.
\<close>

theorem module_names_result:
  assumes "names \<noteq> []" and "list_all object_name names"
  shows "module_names (Some (comma_list names)) = Some names"
  using module_run [OF assms(2,1), of _ "[]" "[]"] module_block_names [OF assms] by (simp add: module_names_def)

theorem module_names_result_witness:
  "module_names (Some (comma_list [cstr ''a.so'', cstr ''b'']))
    = Some [cstr ''a.so'', cstr ''b'']"
  by (rule module_names_result) (simp_all add: object_name_def cstr_def)

section \<open>The listening socket\<close>

text \<open>
  The address is a path behind \<open>unix:\<close>, an IPv6 address behind \<open>v6:\<close>, or an IPv4 address; the
  last is not checked.  \<open>error\<close> prints its message and ends the process: \<open>Inl\<close>.
\<close>

definition bind_address :: "env \<Rightarrow> byte list \<Rightarrow> int \<Rightarrow> server \<Rightarrow> ((int \<times> int \<times> sockaddr \<times> nat) \<times> server) outcome" where
  "bind_address env addr portno s =
     (let port = nat (portno mod 2 ^ 16) in
      if prefix (cstr ''unix:'') addr then
        Some (Inr ((AF_UNIX, 0, SockUnix (take 108 (drop 5 addr)), 110), s))
      else if prefix (cstr ''v6:'') addr then
        (case os_call env ''inet_pton'' [LStr (drop 3 addr)] s of
           (a, s1) \<Rightarrow>
             if a_ret a \<le> 0 then Some (Inl ''failed to resolve bind IP address'')
             else Some (Inr ((AF_INET6, IPPROTO_TCP, SockV6 (val_at a 0) port, 28), s1)))
      else
        (case os_call env ''inet_addr'' [LStr addr] s of
           (a, s1) \<Rightarrow> Some (Inr ((AF_INET, IPPROTO_TCP, SockV4 (a_ret a) port, 16), s1))))"

definition sockaddr_values :: "sockaddr \<Rightarrow> lua_value list" where
  "sockaddr_values a =
     (case a of SockV4 ip port \<Rightarrow> [LInt ip, LInt (int port)] | SockV6 ip port \<Rightarrow> [LInt ip, LInt (int port)]
      | SockUnix path \<Rightarrow> [LStr path])"

definition listen_socket :: "env \<Rightarrow> byte list \<Rightarrow> int \<Rightarrow> server \<Rightarrow> (fd \<times> server) outcome" where
  "listen_socket env addr portno s =
     andthen (bind_address env addr portno s) (\<lambda>((protocol, ip_proto, sa, len), s1).
       case act env (ASocket protocol SOCK_STREAM ip_proto) s1 of
         (sock, s2) \<Rightarrow>
           let parentfd = a_ret sock in
           if parentfd < 0 then Some (Inl ''main: failed to create server socket'')
           else
             (case os_call env ''bind'' (LInt parentfd # sockaddr_values sa @ [LInt (int len)])
                     (snd (os_call env ''setsockopt'' [LInt parentfd] s2)) of
                (b, s3) \<Rightarrow>
                  if a_ret b < 0 then Some (Inl ''main: failed to bind server socket'')
                  else
                    (case os_call env ''listen'' [LInt parentfd, LInt 20000] s3 of
                       (l, s4) \<Rightarrow>
                         if a_ret l < 0 then Some (Inl ''main: failed to listen on server socket'')
                         else Some (Inr (parentfd, s4)))))"

section \<open>The workers\<close>

record serve_params =
  sp_workerid :: nat
  sp_workers :: int
  sp_initialized :: bool
  sp_quit :: bool
  sp_parentfd :: fd
  sp_entrypoint :: "byte list"
  sp_port :: int
  sp_name :: "byte list option"

record command_line =
  cl_cli :: bool
  cl_workers :: int
  cl_portno :: int
  cl_modules :: "byte list list"
  cl_name :: "byte list option"
  cl_addr :: "byte list"
  cl_entrypoint :: "byte list"

definition worker_params :: "bool \<Rightarrow> command_line \<Rightarrow> fd \<Rightarrow> nat \<Rightarrow> serve_params" where
  "worker_params dynamic cl parentfd i =
     \<lparr>sp_workerid = i, sp_workers = cl_workers cl, sp_initialized = False, sp_quit = \<not> dynamic,
      sp_parentfd = parentfd, sp_entrypoint = cl_entrypoint cl, sp_port = cl_portno cl, sp_name = cl_name cl\<rparr>"

text \<open>
  One turn of the loop: the self-pipe and the mailbox of a worker, its parameters, and, for every
  worker but the first, its thread.  \<open>junk\<close> is the zeroed block of its messages.
\<close>

definition start_worker :: "env \<Rightarrow> bool \<Rightarrow> command_line \<Rightarrow> (nat \<Rightarrow> mailbox_message) \<Rightarrow> fd \<Rightarrow> nat \<Rightarrow>
    serve_params list \<times> server \<Rightarrow> (serve_params list \<times> server) outcome" where
  "start_worker env dynamic cl junk parentfd i ps =
     (case act env APipe (snd ps) of
        (a, s1) \<Rightarrow>
          if a_ret a < 0 then Some (Inl ''main: failed to create self-pipe'')
          else
            (let s2 = s1\<lparr>mailboxes := mailboxes s1 @ [mailbox_init (val_at a 0, val_at a 1) junk]\<rparr>;
                 params = fst ps @ [worker_params dynamic cl parentfd i]
             in if 0 < i then
                  (case os_call env ''pthread_create'' [LInt (int i)] s2 of
                     (t, s3) \<Rightarrow>
                       if a_ret t \<noteq> 0 then Some (Inl ''main: failed to create thread'')
                       else Some (Inr (params, s3)))
                else Some (Inr (params, s2))))"

primrec start_workers :: "env \<Rightarrow> bool \<Rightarrow> command_line \<Rightarrow> (nat \<Rightarrow> mailbox_message) \<Rightarrow> fd \<Rightarrow> nat list \<Rightarrow>
    serve_params list \<times> server \<Rightarrow> (serve_params list \<times> server) outcome" where
  "start_workers env dynamic cl junk parentfd [] ps = Some (Inr ps)"
| "start_workers env dynamic cl junk parentfd (i # is) ps =
     andthen (start_worker env dynamic cl junk parentfd i ps)
       (start_workers env dynamic cl junk parentfd is)"

text \<open>The address is the argument behind the first \<open>-h\<close>.\<close>

definition command :: "byte list list \<Rightarrow> byte list option \<Rightarrow> int \<Rightarrow> command_line option" where
  "command argv hostname sysconf =
     (let cli = (get_arg (cstr ''--cli'') 0 True argv \<noteq> 0) in
      map_option (\<lambda>modules.
        \<lparr>cl_cli = cli,
         cl_workers = get_arg (cstr ''-c'') (if cli then 1 else get_cpus sysconf) False argv,
         cl_portno = get_arg (cstr ''-p'') 8080 False argv,
         cl_modules = modules,
         cl_name = get_sz_arg (cstr ''-n'') argv hostname (Some (cstr ''localhost'')),
         cl_addr = (case sz_arg_loop (cstr ''-h'') None argv [1..<length argv - 1] of
                      None \<Rightarrow> cstr ''0.0.0.0'' | Some a \<Rightarrow> a),
         cl_entrypoint = get_sz_arg_no_flag (cstr ''server/simple_http.lua'') argv\<rparr>)
        (module_names (get_sz_arg (cstr ''-m'') argv None None)))"

text \<open>
  \<open>main\<close> up to the call of \<open>run\<close> for the first worker, whose parameters are read without asking
  whether there is a first worker.
\<close>

definition main_start :: "env \<Rightarrow> bool \<Rightarrow> (nat \<Rightarrow> mailbox_message) \<Rightarrow> command_line \<Rightarrow> server \<Rightarrow>
    (serve_params list \<times> server) outcome" where
  "main_start env dynamic junk cl s =
     andthen (if cl_cli cl then Some (Inr (- 1, s)) else listen_socket env (cl_addr cl) (cl_portno cl) s)
       (\<lambda>(parentfd, s1).
         andthen (start_workers env dynamic cl junk parentfd [0..<nat (cl_workers cl)]
                    ([], s1\<lparr>mailboxes := [], rl_ready := 0, rl_running := 1\<rparr>))
           (\<lambda>(params, s2). if params = [] then None else Some (Inr (params, s2))))"

text \<open>The allocator handed to the Lua states: a block of no bytes is freed.\<close>

definition state_allocator :: "allocator \<Rightarrow> byte list \<Rightarrow> nat \<Rightarrow> byte list option" where
  "state_allocator A ptr new_size = (if new_size = 0 then None else c_realloc A ptr new_size)"

text \<open>
  What is set up: as many workers as asked for, numbered from 0, each with an empty mailbox of its own.
\<close>

lemma start_workers_result:
  "start_workers env dynamic cl junk parentfd [k..<n] (ps, s) = Some (Inr (ps', s')) \<Longrightarrow> k \<le> n \<Longrightarrow>
   ps' = ps @ map (worker_params dynamic cl parentfd) [k..<n] \<and>
   (\<exists>pipes. length pipes = n - k \<and> mailboxes s' = mailboxes s @ map (\<lambda>p. mailbox_init p junk) pipes) \<and>
   rl_ready s' = rl_ready s"
proof (induction "n - k" arbitrary: k ps s)
  case (Suc m)
  then have k: "k < n" by simp
  obtain qs s1 where step: "start_worker env dynamic cl junk parentfd k (ps, s) = Some (Inr (qs, s1))"
      and rest: "start_workers env dynamic cl junk parentfd [Suc k..<n] (qs, s1) = Some (Inr (ps', s'))"
    using Suc.prems(1) k
    by (auto simp: upt_conv_Cons andthen_def split: option.splits sum.splits)
  have qs: "qs = ps @ [worker_params dynamic cl parentfd k]" "rl_ready s1 = rl_ready s"
      "\<exists>p. mailboxes s1 = mailboxes s @ [mailbox_init p junk]"
    using step by (auto simp: start_worker_def os_call_def act_def Let_def split: if_splits intro!: exI)
  then obtain p where p: "mailboxes s1 = mailboxes s @ [mailbox_init p junk]" by blast
  have IH: "ps' = qs @ map (worker_params dynamic cl parentfd) [Suc k..<n] \<and>
      (\<exists>pipes. length pipes = n - Suc k \<and> mailboxes s' = mailboxes s1 @ map (\<lambda>p. mailbox_init p junk) pipes) \<and>
      rl_ready s' = rl_ready s1"
    using Suc.hyps(1) [of "Suc k" qs s1] Suc.hyps(2) rest k by simp
  then obtain pipes where "length pipes = n - Suc k"
      "mailboxes s' = mailboxes s1 @ map (\<lambda>p. mailbox_init p junk) pipes" by blast
  then have "length (p # pipes) = n - k \<and> mailboxes s' = mailboxes s @ map (\<lambda>p. mailbox_init p junk) (p # pipes)"
    using p k by simp
  then have "\<exists>pipes. length pipes = n - k \<and> mailboxes s' = mailboxes s @ map (\<lambda>p. mailbox_init p junk) pipes"
    by (rule exI)
  then show ?case using IH qs(1,2) k by (simp add: upt_conv_Cons)
qed auto

theorem main_start_result:
  assumes "main_start env dynamic junk cl s = Some (Inr (params, s'))"
  shows "0 < cl_workers cl \<and> length params = nat (cl_workers cl) \<and> length (mailboxes s') = nat (cl_workers cl) \<and>
    (\<forall>i < length params. sp_workerid (params ! i) = i \<and> \<not> sp_initialized (params ! i) \<and>
       sp_quit (params ! i) = (\<not> dynamic) \<and> mailbox_queue (mailboxes s' ! i) = [] \<and>
       mailbox_wf (mailboxes s' ! i)) \<and> rl_ready s' = 0"
proof -
  obtain fd s1 where run: "start_workers env dynamic cl junk fd [0..<nat (cl_workers cl)]
      ([], s1\<lparr>mailboxes := [], rl_ready := 0, rl_running := 1\<rparr>) = Some (Inr (params, s'))" and ne: "params \<noteq> []"
    using assms by (auto simp: main_start_def andthen_def split: option.splits sum.splits if_splits prod.splits)
  have res: "params = map (worker_params dynamic cl fd) [0..<nat (cl_workers cl)]" "rl_ready s' = 0"
      "\<exists>pipes. length pipes = nat (cl_workers cl) \<and> mailboxes s' = map (\<lambda>p. mailbox_init p junk) pipes"
    using start_workers_result [OF run] by simp_all
  then show ?thesis using ne by (auto simp: worker_params_def)
qed

text \<open>Without workers, or with a negative number of them, the parameters of the first are read all the same.\<close>

theorem main_start_no_workers:
  assumes "cl_workers cl \<le> 0" and "cl_cli cl"
  shows "main_start env dynamic junk cl s = None"
  using assms by (simp add: main_start_def andthen_def)

end
