(* ===== verification/Reload_Barrier.thy ===== *)
theory Reload_Barrier
  imports Startup
begin

text \<open>
  Live reload: \<open>run\<close> of \<^verbatim>\<open>src/80s/80s.c\<close>, which every worker's thread executes, as it is built on
  Linux, and its interplay with \<open>s80_reload\<close> and \<open>s80_quit\<close> of \<^verbatim>\<open>src/80s/80s_common.c\<close>.  A
  worker that left \<open>serve\<close> announces itself under a lock; the last one exchanges the shared objects
  and publishes the new \<open>serve\<close>, the others wait until it is there.

  The first part is what a worker does in its critical section.  The second is the protocol: the
  interleaved steps of any number of workers, abstracted to the counter, whether \<open>serve\<close> is there,
  the signals under way and where each worker is.  \<open>arrive_refines\<close> says that the critical section is
  a step of the protocol.
\<close>

section \<open>The critical section\<close>

record module_ext =
  mx_path :: "byte list"
  mx_dlcurrent :: int
  mx_load :: int
  mx_unload :: int

record reload_state =
  rs_ready :: int
  rs_workers :: int
  rs_dlcurrent :: int
  rs_serve :: int
  rs_modules :: "module_ext list"

text \<open>A module is closed, opened again, and its two entry points are looked up; a failure to close is ignored.\<close>

definition reload_module :: "env \<Rightarrow> module_ext \<Rightarrow> server \<Rightarrow> module_ext \<times> server" where
  "reload_module env m s =
     (let s1 = (if mx_dlcurrent m \<noteq> 0 then snd (os_call env ''dlclose'' [LInt (mx_dlcurrent m)] s) else s) in
      case os_call env ''dlopen'' [LStr (mx_path m)] s1 of
        (dl, s2) \<Rightarrow>
          if a_ret dl \<noteq> 0 then
            (case os_call env ''dlsym'' [LInt (a_ret dl), LStr (cstr ''on_load'')] s2 of
               (l, s3) \<Rightarrow>
                 (case os_call env ''dlsym'' [LInt (a_ret dl), LStr (cstr ''on_unload'')] s3 of
                    (u, s4) \<Rightarrow>
                      (m\<lparr>mx_dlcurrent := a_ret dl, mx_load := a_ret l, mx_unload := a_ret u\<rparr>, s4)))
          else (m\<lparr>mx_dlcurrent := 0\<rparr>, s2))"

primrec reload_modules :: "env \<Rightarrow> module_ext list \<Rightarrow> server \<Rightarrow> module_ext list \<times> server" where
  "reload_modules env [] s = ([], s)"
| "reload_modules env (m # ms) s =
     (case reload_module env m s of
        (m', s1) \<Rightarrow> (case reload_modules env ms s1 of (ms', s2) \<Rightarrow> (m' # ms', s2)))"

text \<open>
  Publishing \<open>serve\<close>: looked up in the dynamic library when there is one (\<open>S80_DYNAMIC\<close>), the linked
  function at address \<open>static\<close> otherwise.
\<close>

definition publish_serve :: "env \<Rightarrow> bool \<Rightarrow> int \<Rightarrow> reload_state \<Rightarrow> server \<Rightarrow> (reload_state \<times> server) outcome" where
  "publish_serve env dynamic static r s =
     (if dynamic then
        (case os_call env ''dlopen'' [LStr (cstr ''S80_DYNAMIC_SO'')] s of
           (dl, s1) \<Rightarrow>
             if a_ret dl = 0 then Some (Inl ''run: failed to open dynamic library'')
             else
               (case os_call env ''dlsym'' [LInt (a_ret dl), LStr (cstr ''serve'')] s1 of
                  (f, s2) \<Rightarrow>
                    if a_ret f = 0 then Some (Inl ''run: failed to locate serve procedure'')
                    else Some (Inr (r\<lparr>rs_dlcurrent := a_ret dl, rs_serve := a_ret f\<rparr>, s2))))
      else if static = 0 then Some (Inl ''run: failed to locate serve procedure'')
      else Some (Inr (r\<lparr>rs_serve := static\<rparr>, s)))"

definition run_arrive :: "env \<Rightarrow> bool \<Rightarrow> int \<Rightarrow> bool \<Rightarrow> reload_state \<Rightarrow> server \<Rightarrow> (reload_state \<times> server) outcome" where
  "run_arrive env dynamic static quit r s =
     (let r1 = r\<lparr>rs_ready := rs_ready r + 1\<rparr> in
      if rs_ready r1 = rs_workers r1 then
        (let c = (if rs_dlcurrent r1 \<noteq> 0 then os_call env ''dlclose'' [LInt (rs_dlcurrent r1)] s
                  else (\<lparr>a_ret = 0, a_errno = 0, a_bytes = [], a_vals = [], a_plan = [], a_events = []\<rparr>, s)) in
         if a_ret (fst c) < 0 then Some (Inl ''run: failed to close previous dynamic library'')
         else
           (case (if quit then (rs_modules r1, snd c) else reload_modules env (rs_modules r1) (snd c)) of
              (ms, s1) \<Rightarrow> publish_serve env dynamic static (r1\<lparr>rs_modules := ms\<rparr>) s1))
      else Some (Inr (r1\<lparr>rs_serve := 0\<rparr>, s)))"

text \<open>The body of the waiting loop, and the call behind it: \<open>serve\<close> is read again without the lock.\<close>

definition run_pass :: "reload_state \<Rightarrow> bool" where
  "run_pass r \<longleftrightarrow> rs_serve r \<noteq> 0"

definition run_enter :: "reload_state \<Rightarrow> int option" where
  "run_enter r = (if rs_serve r = 0 then None else Some (rs_serve r))"

text \<open>After the last worker came back: the modules are closed and everything is released.\<close>

definition close_module :: "env \<Rightarrow> module_ext \<Rightarrow> server \<Rightarrow> server" where
  "close_module env m s =
     (if mx_dlcurrent m \<noteq> 0 then snd (os_call env ''dlclose'' [LInt (mx_dlcurrent m)] s) else s)"

definition main_end :: "env \<Rightarrow> module_ext list \<Rightarrow> server \<Rightarrow> server" where
  "main_end env modules s = (fold (close_module env) modules s)\<lparr>mailboxes := []\<rparr>"

section \<open>The protocol\<close>

text \<open>
  Where a worker is: inside \<open>serve\<close>, in a call of \<open>s80_reload\<close> or \<open>s80_quit\<close> from there (with the
  signal it sends and the number of workers that have it), on its way to the lock, waiting, past the
  wait, calling a null pointer, or gone.
\<close>

datatype signal = Stop | Quit

datatype place = Serving | Signalling signal nat | Arriving | Waiting | Passed | Crashed | Gone

record barrier =
  b_ready :: nat
  b_served :: bool
  b_pipe :: "nat \<Rightarrow> signal set"
  b_at :: "nat \<Rightarrow> place"

definition barrier_start :: barrier where
  "barrier_start = \<lparr>b_ready = 0, b_served = False, b_pipe = (\<lambda>w. {}), b_at = (\<lambda>w. Arriving)\<rparr>"

definition move :: "nat \<Rightarrow> place \<Rightarrow> barrier \<Rightarrow> barrier" where
  "move w p b = b\<lparr>b_at := (b_at b)(w := p)\<rparr>"

definition arrive :: "nat \<Rightarrow> nat \<Rightarrow> barrier \<Rightarrow> barrier" where
  "arrive n w b = (move w Waiting b)\<lparr>b_ready := b_ready b + 1, b_served := (b_ready b + 1 = n)\<rparr>"

inductive barrier_step :: "nat \<Rightarrow> barrier \<Rightarrow> barrier \<Rightarrow> bool" for n where
  arriving: "w < n \<Longrightarrow> b_at b w = Arriving \<Longrightarrow> barrier_step n b (arrive n w b)"
| passing: "w < n \<Longrightarrow> b_at b w = Waiting \<Longrightarrow> b_served b \<Longrightarrow> barrier_step n b (move w Passed b)"
| entering: "w < n \<Longrightarrow> b_at b w = Passed \<Longrightarrow> barrier_step n b (move w (if b_served b then Serving else Crashed) b)"
| calling_reload: "w < n \<Longrightarrow> b_at b w = Serving \<Longrightarrow> n \<le> b_ready b \<Longrightarrow>
    barrier_step n b (move w (Signalling Stop 0) b)"
| calling_quit: "w < n \<Longrightarrow> b_at b w = Serving \<Longrightarrow> barrier_step n b (move w (Signalling Quit 0) b)"
| signalling: "w < n \<Longrightarrow> b_at b w = Signalling sig k \<Longrightarrow> k < n \<Longrightarrow>
    barrier_step n b ((move w (Signalling sig (Suc k)) b)\<lparr>b_pipe := (b_pipe b)(k := insert sig (b_pipe b k))\<rparr>)"
| resetting: "w < n \<Longrightarrow> b_at b w = Signalling sig n \<Longrightarrow> barrier_step n b ((move w Serving b)\<lparr>b_ready := 0\<rparr>)"
| stopping: "w < n \<Longrightarrow> b_at b w = Serving \<Longrightarrow> b_pipe b w = {Stop} \<Longrightarrow>
    barrier_step n b ((move w Arriving b)\<lparr>b_pipe := (b_pipe b)(w := {})\<rparr>)"
| quitting: "w < n \<Longrightarrow> b_at b w = Serving \<Longrightarrow> Quit \<in> b_pipe b w \<Longrightarrow>
    barrier_step n b ((move w Gone b)\<lparr>b_pipe := (b_pipe b)(w := {})\<rparr>)"

inductive barrier_reachable :: "nat \<Rightarrow> barrier \<Rightarrow> bool" for n where
  start: "barrier_reachable n barrier_start"
| step: "barrier_reachable n b \<Longrightarrow> barrier_step n b b' \<Longrightarrow> barrier_reachable n b'"

text \<open>The critical section of the code is the step of the protocol, whatever happens to the shared objects.\<close>

definition abstracts :: "reload_state \<Rightarrow> barrier \<Rightarrow> bool" where
  "abstracts r b \<longleftrightarrow> rs_ready r = int (b_ready b) \<and> (rs_serve r \<noteq> 0 \<longleftrightarrow> b_served b)"

text \<open>
  C11. The critical section of the code is the step of the protocol, whatever happens to the shared
  objects; only the last worker to arrive touches them.
\<close>

theorem arrive_refines:
  assumes "abstracts r b" and "rs_workers r = int n"
    and "run_arrive env dynamic static quit r s = Some (Inr (r', s'))"
  shows "abstracts r' (arrive n w b) \<and> rs_workers r' = int n \<and> (run_pass r' \<longleftrightarrow> b_served (arrive n w b)) \<and>
    (b_served (arrive n w b) \<or> s' = s)"
proof -
  have ready: "rs_ready r + 1 = int n \<longleftrightarrow> b_ready b + 1 = n"
    using assms(1) by (auto simp: abstracts_def)
  show ?thesis
    using assms ready
    by (auto simp: run_arrive_def publish_serve_def abstracts_def arrive_def move_def run_pass_def Let_def
        split: if_splits prod.splits)
qed

theorem arrive_refines_witness:
  "abstracts \<lparr>rs_ready = 1, rs_workers = 1, rs_dlcurrent = 0, rs_serve = 7, rs_modules = []\<rparr>
     (arrive 1 0 barrier_start) \<and>
   rs_workers \<lparr>rs_ready = 1, rs_workers = 1, rs_dlcurrent = 0, rs_serve = 7, rs_modules = []\<rparr> = int 1 \<and>
   (run_pass \<lparr>rs_ready = 1, rs_workers = 1, rs_dlcurrent = 0, rs_serve = 7, rs_modules = []\<rparr> \<longleftrightarrow>
     b_served (arrive 1 0 barrier_start)) \<and>
   (b_served (arrive 1 0 barrier_start) \<or> idle_server = idle_server)"
proof (rule arrive_refines)
  show "abstracts \<lparr>rs_ready = 0, rs_workers = 1, rs_dlcurrent = 0, rs_serve = 0, rs_modules = []\<rparr> barrier_start"
    by (simp add: abstracts_def barrier_start_def)
  show "run_arrive (const_env 0) False 7 True
      \<lparr>rs_ready = 0, rs_workers = 1, rs_dlcurrent = 0, rs_serve = 0, rs_modules = []\<rparr> idle_server =
    Some (Inr (\<lparr>rs_ready = 1, rs_workers = 1, rs_dlcurrent = 0, rs_serve = 7, rs_modules = []\<rparr>, idle_server))"
    by (simp add: run_arrive_def publish_serve_def)
qed simp

section \<open>Nobody is inside while the shared objects are exchanged\<close>

definition waiting :: "nat \<Rightarrow> barrier \<Rightarrow> nat set" where
  "waiting n b = {w. w < n \<and> b_at b w = Waiting}"

definition barrier_inv :: "nat \<Rightarrow> barrier \<Rightarrow> bool" where
  "barrier_inv n b \<longleftrightarrow> (b_served b \<longrightarrow> b_ready b = 0 \<or> b_ready b = n) \<and>
     (\<not> b_served b \<longrightarrow> b_ready b < n \<longrightarrow> b_ready b \<le> card (waiting n b))"

lemma waiting_finite [simp]: "finite (waiting n b)"
  by (simp add: waiting_def)

lemma waiting_move:
  "waiting n (move w p b) = (if p = Waiting \<and> w < n then insert w (waiting n b) else waiting n b - {w})"
  by (auto simp: waiting_def move_def)

lemma waiting_more [simp]:
  "waiting n (b\<lparr>b_ready := r\<rparr>) = waiting n b" "waiting n (b\<lparr>b_served := v\<rparr>) = waiting n b"
  "waiting n (b\<lparr>b_pipe := q\<rparr>) = waiting n b"
  by (simp_all add: waiting_def)

lemma not_waiting: "b_at b w \<noteq> Waiting \<Longrightarrow> waiting n b - {w} = waiting n b"
  by (auto simp: waiting_def)

lemma move_fields [simp]:
  "b_ready (move w p b) = b_ready b" "b_served (move w p b) = b_served b" "b_pipe (move w p b) = b_pipe b"
  "b_at (move w p b) = (b_at b)(w := p)"
  by (simp_all add: move_def)

lemma inv_move: "b_at b w \<noteq> Waiting \<Longrightarrow> p \<noteq> Waiting \<Longrightarrow> barrier_inv n (move w p b) = barrier_inv n b"
  by (simp add: barrier_inv_def waiting_move not_waiting)

lemma inv_pipe: "barrier_inv n (b\<lparr>b_pipe := q\<rparr>) = barrier_inv n b"
  by (simp add: barrier_inv_def)

lemma inv_reset: "barrier_inv n (b\<lparr>b_ready := 0\<rparr>)"
  by (simp add: barrier_inv_def)

lemma barrier_step_inv: "barrier_step n b b' \<Longrightarrow> barrier_inv n b \<Longrightarrow> barrier_inv n b'"
proof (induction rule: barrier_step.induct)
  case (arriving w b)
  have "w \<notin> waiting n b" using arriving by (simp add: waiting_def)
  then have "card (waiting n (arrive n w b)) = card (waiting n b) + 1"
    using arriving by (simp add: arrive_def waiting_move)
  then show ?case
    using arriving by (cases "b_served b") (auto simp: barrier_inv_def arrive_def)
next
  case (passing w b)
  then show ?case by (simp add: barrier_inv_def)
qed (simp_all add: inv_move inv_pipe inv_reset)

lemma barrier_reachable_inv: "barrier_reachable n b \<Longrightarrow> barrier_inv n b"
  by (induction rule: barrier_reachable.induct)
    (simp_all add: barrier_step_inv, simp add: barrier_inv_def barrier_start_def)

text \<open>
  C10. Whatever the interleaving of reloads, quits and arrivals: when the last arrival exchanges the
  shared objects, every other worker waits.  None of them is inside \<open>serve\<close>, on its way into it or
  signalling, so no code is unloaded under a worker that runs it.
\<close>

theorem reload_exclusive:
  assumes "barrier_reachable n b" and "w < n" and "b_at b w = Arriving" and "b_served (arrive n w b)"
  shows "\<forall>v < n. v \<noteq> w \<longrightarrow> b_at b v = Waiting"
proof (cases "n = 1")
  case False
  have last: "b_ready b + 1 = n" using assms(4) by (simp add: arrive_def)
  have inv: "barrier_inv n b" by (rule barrier_reachable_inv [OF assms(1)])
  then have "\<not> b_served b" using last False by (auto simp: barrier_inv_def)
  then have card: "n - 1 \<le> card (waiting n b)" using inv last by (auto simp: barrier_inv_def)
  have sub: "waiting n b \<subseteq> {..<n} - {w}" using assms(3) by (auto simp: waiting_def)
  moreover have "card ({..<n} - {w}) = n - 1" using assms(2) by simp
  ultimately have "waiting n b = {..<n} - {w}" using card by (metis card_seteq finite_Diff finite_lessThan)
  then show ?thesis by (auto simp: waiting_def)
qed (use assms(2) in simp)

theorem reload_exclusive_witness: "b_at (arrive 2 0 barrier_start) 0 = Waiting"
proof -
  let ?b = "arrive 2 0 barrier_start"
  have "barrier_step 2 barrier_start ?b" by (rule arriving) (simp_all add: barrier_start_def)
  then have reach: "barrier_reachable 2 ?b" by (rule barrier_reachable.step [OF barrier_reachable.start])
  have "b_at ?b 1 = Arriving" "b_served (arrive 2 1 ?b)" by (simp_all add: arrive_def barrier_start_def)
  then show ?thesis using reload_exclusive [OF reach, of 1] by simp
qed

section \<open>Signals that arrive before the counter is reset\<close>

text \<open>
  \<open>s80_reload\<close> first wakes the other workers and then sets the counter to 0.  A worker that comes back
  in between is counted and forgotten; when the reloading worker comes back itself, the counter
  never reaches the number of workers, and all of them wait for ever.
\<close>

definition stuck :: "nat \<Rightarrow> barrier \<Rightarrow> bool" where
  "stuck n b \<longleftrightarrow> \<not> b_served b \<and> (\<forall>w < n. b_at b w = Waiting)"

lemma stuck_no_step: "stuck n b \<Longrightarrow> \<not> barrier_step n b b'"
  by (auto simp: stuck_def elim!: barrier_step.cases)

lemma arrive_fields [simp]:
  "b_ready (arrive n w b) = b_ready b + 1" "b_served (arrive n w b) = (b_ready b + 1 = n)"
  "b_pipe (arrive n w b) = b_pipe b" "b_at (arrive n w b) = (b_at b)(w := Waiting)"
  by (simp_all add: arrive_def)

lemma reach_step:
  assumes "barrier_reachable n b" and "barrier_step n b b'"
  shows "barrier_reachable n b'"
  using assms by (rule barrier_reachable.step)

text \<open>Two workers that have come through the first round, and the reload the first one begins.\<close>

lemma two_serving:
  obtains b where "barrier_reachable 2 b" "b_ready b = 2" "b_served b" "b_pipe b = (\<lambda>w. {})"
    "b_at b 0 = Serving" "b_at b 1 = Passed"
proof -
  let ?b1 = "arrive 2 0 barrier_start"
  let ?b2 = "arrive 2 1 ?b1"
  let ?b3 = "move 0 Passed ?b2"
  let ?b4 = "move 0 (if b_served ?b3 then Serving else Crashed) ?b3"
  let ?b5 = "move 1 Passed ?b4"
  have "barrier_step 2 barrier_start ?b1" by (rule arriving) (simp_all add: barrier_start_def)
  then have "barrier_reachable 2 ?b1" by (rule reach_step [OF start])
  moreover have "barrier_step 2 ?b1 ?b2" by (rule arriving) (simp_all add: barrier_start_def)
  ultimately have "barrier_reachable 2 ?b2" by (rule reach_step)
  moreover have "barrier_step 2 ?b2 ?b3" by (rule passing) (simp_all add: barrier_start_def)
  ultimately have "barrier_reachable 2 ?b3" by (rule reach_step)
  moreover have "barrier_step 2 ?b3 ?b4" by (rule entering) simp_all
  ultimately have "barrier_reachable 2 ?b4" by (rule reach_step)
  moreover have "barrier_step 2 ?b4 ?b5" by (rule passing) (simp_all add: barrier_start_def)
  ultimately have "barrier_reachable 2 ?b5" by (rule reach_step)
  then show ?thesis by (rule that) (simp_all add: barrier_start_def)
qed

lemma reload_signals:
  assumes "barrier_reachable 2 b" and "b_ready b = 2" and "b_served b" and "b_pipe b = (\<lambda>w. {})"
    and "b_at b 0 = Serving" and "b_at b 1 = p"
  obtains b' where "barrier_reachable 2 b'" "b_ready b' = 2" "b_served b'" "b_pipe b' 0 = {Stop}" "b_pipe b' 1 = {Stop}"
    "b_at b' 0 = Signalling Stop 2" "b_at b' 1 = p"
proof -
  let ?b1 = "move 0 (Signalling Stop 0) b"
  let ?b2 = "(move 0 (Signalling Stop (Suc 0)) ?b1)\<lparr>b_pipe := (b_pipe ?b1)(0 := insert Stop (b_pipe ?b1 0))\<rparr>"
  let ?b3 = "(move 0 (Signalling Stop (Suc (Suc 0))) ?b2)\<lparr>b_pipe := (b_pipe ?b2)(Suc 0 := insert Stop (b_pipe ?b2 (Suc 0)))\<rparr>"
  have "barrier_step 2 b ?b1" using assms by (intro calling_reload) simp_all
  then have "barrier_reachable 2 ?b1" by (rule reach_step [OF assms(1)])
  moreover have "barrier_step 2 ?b1 ?b2" by (rule signalling) simp_all
  ultimately have "barrier_reachable 2 ?b2" by (rule reach_step)
  moreover have "barrier_step 2 ?b2 ?b3" by (rule signalling) simp_all
  ultimately have "barrier_reachable 2 ?b3" by (rule reach_step)
  then show ?thesis using assms by (intro that [of ?b3]) simp_all
qed

text \<open>
  C31. With two workers a reload can end with both of them waiting and nobody left to publish \<open>serve\<close>.
\<close>

theorem reload_deadlock: "\<exists>b. barrier_reachable 2 b \<and> stuck 2 b"
proof (rule two_serving)
  fix b assume b: "barrier_reachable 2 b" "b_ready b = 2" "b_served b" "b_pipe b = (\<lambda>w. {})"
      "b_at b 0 = Serving" "b_at b 1 = Passed"
  show ?thesis
  proof (rule reload_signals [OF b])
    fix c assume c: "barrier_reachable 2 c" "b_ready c = 2" "b_served c" "b_pipe c 0 = {Stop}" "b_pipe c 1 = {Stop}"
      "b_at c 0 = Signalling Stop 2" "b_at c 1 = Passed"
    let ?c1 = "move 1 (if b_served c then Serving else Crashed) c"
    let ?c2 = "(move 1 Arriving ?c1)\<lparr>b_pipe := (b_pipe ?c1)(1 := {})\<rparr>"
    let ?c3 = "arrive 2 1 ?c2"
    let ?c4 = "(move 0 Serving ?c3)\<lparr>b_ready := 0\<rparr>"
    let ?c5 = "(move 0 Arriving ?c4)\<lparr>b_pipe := (b_pipe ?c4)(0 := {})\<rparr>"
    let ?c6 = "arrive 2 0 ?c5"
    have "barrier_step 2 c ?c1" using c by (intro entering) simp_all
    then have "barrier_reachable 2 ?c1" by (rule reach_step [OF c(1)])
    moreover have "barrier_step 2 ?c1 ?c2" using c by (intro stopping) simp_all
    ultimately have "barrier_reachable 2 ?c2" by (rule reach_step)
    moreover have "barrier_step 2 ?c2 ?c3" by (intro arriving) simp_all
    ultimately have "barrier_reachable 2 ?c3" by (rule reach_step)
    moreover have "barrier_step 2 ?c3 ?c4" using c by (intro resetting [where sig = Stop]) simp_all
    ultimately have "barrier_reachable 2 ?c4" by (rule reach_step)
    moreover have "barrier_step 2 ?c4 ?c5" using c by (intro stopping) simp_all
    ultimately have "barrier_reachable 2 ?c5" by (rule reach_step)
    moreover have "barrier_step 2 ?c5 ?c6" by (intro arriving) simp_all
    ultimately have "barrier_reachable 2 ?c6" by (rule reach_step)
    moreover have "stuck 2 ?c6" using c by (auto simp: stuck_def less_Suc_eq numeral_2_eq_2)
    ultimately show ?thesis by blast
  qed
qed

text \<open>
  A worker reads \<open>serve\<close> a second time after it has given the lock back, and can then find the null
  pointer the next round put there.
\<close>

theorem reload_null_call: "\<exists>b. barrier_reachable 2 b \<and> b_at b 1 = Crashed"
proof (rule two_serving)
  fix b assume b: "barrier_reachable 2 b" "b_ready b = 2" "b_served b" "b_pipe b = (\<lambda>w. {})"
      "b_at b 0 = Serving" "b_at b 1 = Passed"
  show ?thesis
  proof (rule reload_signals [OF b])
    fix c assume c: "barrier_reachable 2 c" "b_ready c = 2" "b_served c" "b_pipe c 0 = {Stop}" "b_pipe c 1 = {Stop}"
      "b_at c 0 = Signalling Stop 2" "b_at c 1 = Passed"
    let ?c1 = "(move 0 Serving c)\<lparr>b_ready := 0\<rparr>"
    let ?c2 = "(move 0 Arriving ?c1)\<lparr>b_pipe := (b_pipe ?c1)(0 := {})\<rparr>"
    let ?c3 = "arrive 2 0 ?c2"
    let ?c4 = "move 1 (if b_served ?c3 then Serving else Crashed) ?c3"
    have "barrier_step 2 c ?c1" using c by (intro resetting [where sig = Stop]) simp_all
    then have "barrier_reachable 2 ?c1" by (rule reach_step [OF c(1)])
    moreover have "barrier_step 2 ?c1 ?c2" using c by (intro stopping) simp_all
    ultimately have "barrier_reachable 2 ?c2" by (rule reach_step)
    moreover have "barrier_step 2 ?c2 ?c3" by (intro arriving) simp_all
    ultimately have "barrier_reachable 2 ?c3" by (rule reach_step)
    moreover have "barrier_step 2 ?c3 ?c4" using c by (intro entering) simp_all
    ultimately have "barrier_reachable 2 ?c4" by (rule reach_step)
    moreover have "b_at ?c4 1 = Crashed" by simp
    ultimately show ?thesis by blast
  qed
qed

end
