(* ===== verification/Event_Loop.thy ===== *)
theory Event_Loop
  imports Net_Lua
begin

text \<open>
  The event loop of a worker: \<open>serve\<close> of \<^verbatim>\<open>src/80s/serve.epoll.c\<close> and \<open>resolve_mail\<close> of
  \<^verbatim>\<open>src/80s/80s_common.c\<close>.  One function per branch of the loop body; each threads the
  worker's own variables and the server state.  \<^verbatim>\<open>None\<close> is an access outside memory, or a
  loop over the kernel's answers that does not end.
\<close>

section \<open>The worker\<close>

text \<open>What does not change while \<open>serve\<close> runs; the Lua state of a worker is its number.\<close>

record config =
  sv_id :: nat
  sv_els :: "fd list"
  sv_sigfd :: fd
  sv_selfpipe :: fd

definition sv_elfd :: "config \<Rightarrow> fd" where
  "sv_elfd cfg = sv_els cfg ! sv_id cfg"

text \<open>
  \<open>accepts\<close> is the worker that gets the next connection, \<open>siginfo\<close> the buffer the signal
  descriptor is read into.
\<close>

record worker =
  w_accepts :: nat
  w_running :: bool
  w_quit :: bool
  w_siginfo :: "byte list"

text \<open>
  \<open>read\<close>: negative on error, otherwise the number of bytes handed out, at most as many as asked
  for.
\<close>

definition sys_read :: "env \<Rightarrow> fd \<Rightarrow> nat \<Rightarrow> server \<Rightarrow> int \<times> byte list \<times> server" where
  "sys_read env f n s =
     (let (a, s') = act env (ARead f n) s; bs = take n (a_bytes a)
      in if a_ret a < 0 then (a_ret a, [], s') else (int (length bs), bs, s'))"

section \<open>Mail\<close>

definition accept_mail :: "env \<Rightarrow> config \<Rightarrow> accept_params \<Rightarrow> server \<Rightarrow> server option" where
  "accept_mail env cfg p s =
     on_accept env (run_lua env (ap_ctx p)) p
       (log_act env (AEpollCtl (sv_elfd cfg) EPOLL_CTL_ADD (ap_childfd p) EPOLLIN
          (SET_FD_HOLDER (ap_fdtype p) (ap_childfd p))) s)"

text \<open>
  The \<open>switch\<close> of \<open>resolve_mail\<close>: the type of a message says what its block is cast to; a block
  of another kind is an access outside memory.
\<close>

definition dispatch_mail :: "env \<Rightarrow> config \<Rightarrow> mailbox_message \<Rightarrow> server \<Rightarrow> server option" where
  "dispatch_mail env cfg msg s =
     (if mtype msg = S80_MB_READ then
        (case message msg of PRead p \<Rightarrow> on_receive env (run_lua env (rp_ctx p)) p s | _ \<Rightarrow> None)
      else if mtype msg = S80_MB_WRITE then
        (case message msg of PWrite p \<Rightarrow> on_write env (run_lua env (wp_ctx p)) p s | _ \<Rightarrow> None)
      else if mtype msg = S80_MB_CLOSE then
        (case message msg of PClose p \<Rightarrow> on_close env (run_lua env (cp_ctx p)) p s | _ \<Rightarrow> None)
      else if mtype msg = S80_MB_ACCEPT then
        (case message msg of PAccept p \<Rightarrow> accept_mail env cfg p s | _ \<Rightarrow> None)
      else on_message env (run_lua env (sv_id cfg)) (sv_id cfg) (sv_elfd cfg) msg s)"

primrec deliver_mail :: "env \<Rightarrow> config \<Rightarrow> mailbox_message list \<Rightarrow> server \<Rightarrow> server option" where
  "deliver_mail env cfg [] s = Some s"
| "deliver_mail env cfg (msg # msgs) s =
     Option.bind (dispatch_mail env cfg msg s) (\<lambda>s1.
       deliver_mail env cfg msgs
         (if message msg = PNull then s1 else log_act env (AFree (message msg)) s1))"

definition resolve_mail :: "env \<Rightarrow> config \<Rightarrow> server \<Rightarrow> server option" where
  "resolve_mail env cfg s =
     (let s1 = s80_acquire_mailbox env (sv_id cfg) s in
      case take_mail (heap env (hist s1)) (mailboxes s1 ! sv_id cfg) of
        None \<Rightarrow> None
      | Some (messages, mb) \<Rightarrow>
          deliver_mail env cfg messages
            (s80_release_mailbox env (sv_id cfg)
              (s1\<lparr>mailboxes := (mailboxes s1)[sv_id cfg := mb]\<rparr>)))"

section \<open>The branches of the loop body\<close>

text \<open>The self-pipe: one signal per byte.\<close>

definition pipe_byte :: "env \<Rightarrow> config \<Rightarrow> byte \<Rightarrow> worker \<times> server \<Rightarrow> (worker \<times> server) option" where
  "pipe_byte env cfg b ws =
     (case ws of (w, s) \<Rightarrow>
        if b = S80_SIGNAL_STOP then Some (w\<lparr>w_running := False\<rparr>, pre_refresh_context s)
        else if b = S80_SIGNAL_QUIT then Some (w\<lparr>w_quit := True, w_running := False\<rparr>, s)
        else if b = S80_SIGNAL_MAIL then map_option (Pair w) (resolve_mail env cfg s)
        else Some (w, s))"

primrec pipe_bytes :: "env \<Rightarrow> config \<Rightarrow> byte list \<Rightarrow> worker \<times> server \<Rightarrow> (worker \<times> server) option" where
  "pipe_bytes env cfg [] ws = Some ws"
| "pipe_bytes env cfg (b # bs) ws = Option.bind (pipe_byte env cfg b ws) (pipe_bytes env cfg bs)"

definition pipe_event :: "env \<Rightarrow> config \<Rightarrow> fd \<Rightarrow> worker \<Rightarrow> server \<Rightarrow> (worker \<times> server) option" where
  "pipe_event env cfg childfd w s =
     (let (readlen, buf, s1) = sys_read env childfd BUFSIZE s in pipe_bytes env cfg buf (w, s1))"

text \<open>The signal descriptor: reap every child that has ended.\<close>

partial_function (option) reap :: "env \<Rightarrow> server \<Rightarrow> server option" where
  "reap env s =
     (let r = act env AWaitpid s in
      if 0 < a_ret (fst r) then reap env (snd r) else Some (snd r))"

definition signal_event :: "env \<Rightarrow> fd \<Rightarrow> worker \<Rightarrow> server \<Rightarrow> (worker \<times> server) option" where
  "signal_event env childfd w s =
     (let (a, s1) = act env (AReadSignal childfd) s;
          info = (if a_ret a < 0 then w_siginfo w else a_bytes a);
          w1 = w\<lparr>w_siginfo := info\<rparr>
      in if take 4 info = [17, 0, 0, 0] then map_option (Pair w1) (reap env s1)
         else Some (w1, s1))"

text \<open>
  The server socket.  The address is copied up to 64 bytes.  A connection for this worker is
  registered and reported here, one for another worker is sent to its mailbox.
\<close>

definition accepted_params :: "config \<Rightarrow> nat \<Rightarrow> fd \<Rightarrow> fd \<Rightarrow> byte list \<Rightarrow> accept_params" where
  "accepted_params cfg target parentfd childfd address =
     \<lparr>ap_ctx = target, ap_elfd = sv_els cfg ! target, ap_parentfd = parentfd, ap_childfd = childfd,
      ap_fdtype = S80_FD_SOCKET, ap_address = take 64 address, ap_addrlen = min 64 (length address)\<rparr>"

definition accept_message :: "config \<Rightarrow> accept_params \<Rightarrow> mailbox_message" where
  "accept_message cfg p =
     \<lparr>sender_id = int (sv_id cfg), sender_elfd = sv_elfd cfg, sender_fd = ap_parentfd p,
      receiver_fd = ap_childfd p, mtype = S80_MB_ACCEPT, msize = 160, message = PAccept p\<rparr>"

definition hand_over :: "env \<Rightarrow> config \<Rightarrow> nat \<Rightarrow> accept_params \<Rightarrow> server \<Rightarrow> server option" where
  "hand_over env cfg target p s =
     (if target = sv_id cfg then
        on_accept env (run_lua env target) p
          (log_act env (AEpollCtl (sv_els cfg ! target) EPOLL_CTL_ADD (ap_childfd p) EPOLLIN
             (SET_FD_HOLDER S80_FD_SOCKET (ap_childfd p))) s)
      else if heap env (hist s) 160 = None then Some s
      else map_option snd (s80_mail env (int target) (accept_message cfg p) s))"

definition accept_event :: "env \<Rightarrow> config \<Rightarrow> fd \<Rightarrow> worker \<Rightarrow> server \<Rightarrow> (worker \<times> server) option" where
  "accept_event env cfg parentfd w s =
     (let (a, s1) = act env (AAccept parentfd) s; childfd = a_ret a; target = w_accepts w in
      if childfd < 0 then Some (w, s1)
      else if length (sv_els cfg) \<le> target then None
      else
        Option.bind (hand_over env cfg target
            (accepted_params cfg target parentfd childfd (a_bytes a)) (s80_enable_async env childfd s1))
          (\<lambda>s2. Some (w\<lparr>w_accepts := (if target + 1 = length (sv_els cfg) then 0 else target + 1)\<rparr>, s2)))"

text \<open>
  A connection or a pipe of this worker, in the three steps of the code: writable, readable (which
  says whether the descriptor was closed), hung up.
\<close>

definition writable_step :: "env \<Rightarrow> config \<Rightarrow> int \<Rightarrow> fd \<Rightarrow> server \<Rightarrow> server option" where
  "writable_step env cfg fdtype childfd s =
     (let s1 = (if fdtype \<noteq> S80_FD_PIPE then
          log_act env (AEpollCtl (sv_elfd cfg) EPOLL_CTL_MOD childfd EPOLLIN
            (SET_FD_HOLDER fdtype childfd)) s else s)
      in on_write env (run_lua env (sv_id cfg))
           \<lparr>wp_ctx = sv_id cfg, wp_elfd = sv_elfd cfg, wp_childfd = childfd, wp_written = 0\<rparr> s1)"

definition drop_child :: "env \<Rightarrow> config \<Rightarrow> int \<Rightarrow> fd \<Rightarrow> server \<Rightarrow> server option" where
  "drop_child env cfg fdtype childfd s =
     on_close env (run_lua env (sv_id cfg))
       \<lparr>cp_ctx = sv_id cfg, cp_elfd = sv_elfd cfg, cp_childfd = childfd\<rparr>
       (log_act env (AClose childfd)
         (log_act env (AEpollCtl (sv_elfd cfg) EPOLL_CTL_DEL childfd (EPOLLIN OR EPOLLOUT)
            (SET_FD_HOLDER fdtype childfd)) s))"

definition received :: "env \<Rightarrow> config \<Rightarrow> int \<Rightarrow> fd \<Rightarrow> byte list \<Rightarrow> server \<Rightarrow> server option" where
  "received env cfg fdtype childfd buf s =
     on_receive env (run_lua env (sv_id cfg))
       \<lparr>rp_ctx = sv_id cfg, rp_elfd = sv_elfd cfg, rp_childfd = childfd, rp_fdtype = fdtype,
        rp_buf = buf, rp_readlen = int (length buf)\<rparr> s"

definition readable_step :: "env \<Rightarrow> config \<Rightarrow> int \<Rightarrow> fd \<Rightarrow> server \<Rightarrow> (bool \<times> server) option" where
  "readable_step env cfg fdtype childfd s =
     (let (readlen, buf, s1) = sys_read env childfd BUFSIZE s in
      if readlen \<le> 0 then map_option (Pair True) (drop_child env cfg fdtype childfd s1)
      else map_option (Pair False) (received env cfg fdtype childfd buf s1))"

partial_function (option) drain_pipe :: "env \<Rightarrow> config \<Rightarrow> int \<Rightarrow> fd \<Rightarrow> server \<Rightarrow> server option" where
  "drain_pipe env cfg fdtype childfd s =
     (if fdtype = S80_FD_PIPE then
        (let r = sys_read env childfd BUFSIZE s in
         if fst r \<le> 0 then Some (snd (snd r))
         else Option.bind (received env cfg fdtype childfd (fst (snd r)) (snd (snd r)))
                (drain_pipe env cfg fdtype childfd))
      else Some s)"

text \<open>The result says whether the rest of the batch is skipped (the \<open>break\<close>).\<close>

definition child_event :: "env \<Rightarrow> config \<Rightarrow> 32 word \<Rightarrow> int \<Rightarrow> fd \<Rightarrow> server \<Rightarrow> (bool \<times> server) option" where
  "child_event env cfg flags fdtype childfd s =
     Option.bind
       (if flags AND EPOLLOUT = EPOLLOUT then writable_step env cfg fdtype childfd s else Some s)
       (\<lambda>s1. Option.bind
         (if flags AND EPOLLIN = EPOLLIN \<and> is_fd_ready childfd fdtype
          then readable_step env cfg fdtype childfd s1 else Some (False, s1))
         (\<lambda>(closed, s2).
           if \<not> closed \<and> flags AND (EPOLLERR OR EPOLLHUP) \<noteq> 0 then
             Option.bind (drain_pipe env cfg fdtype childfd s2)
               (\<lambda>s3. map_option (Pair True) (drop_child env cfg fdtype childfd s3))
           else Some (False, s2)))"

definition handle_event :: "env \<Rightarrow> config \<Rightarrow> 32 word \<times> 64 word \<Rightarrow> worker \<Rightarrow> server \<Rightarrow>
    (bool \<times> worker \<times> server) option" where
  "handle_event env cfg ev w s =
     (let childfd = FD_HOLDER_FD (snd ev); fdtype = FD_HOLDER_TYPE (snd ev); flags = fst ev in
      if sv_id cfg = 0 \<and> childfd = sv_sigfd cfg \<and> flags AND EPOLLIN \<noteq> 0 then
        map_option (Pair False) (signal_event env childfd w s)
      else if fdtype = S80_FD_SERVER_SOCKET then
        map_option (Pair False) (accept_event env cfg childfd w s)
      else if childfd = sv_selfpipe cfg then
        map_option (Pair False) (pipe_event env cfg childfd w s)
      else map_option (\<lambda>(brk, s'). (brk, w, s')) (child_event env cfg flags fdtype childfd s))"

primrec event_batch :: "env \<Rightarrow> config \<Rightarrow> (32 word \<times> 64 word) list \<Rightarrow> worker \<times> server \<Rightarrow>
    (worker \<times> server) option" where
  "event_batch env cfg [] ws = Some ws"
| "event_batch env cfg (ev # evs) ws =
     (case handle_event env cfg ev (fst ws) (snd ws) of
        None \<Rightarrow> None
      | Some (brk, w, s) \<Rightarrow> if brk then Some (w, s) else event_batch env cfg evs (w, s))"

text \<open>
  The loop: \<open>Some (True, ...)\<close> when it ends because it was told to, \<open>Some (False, ...)\<close> when
  \<open>epoll_wait\<close> fails with anything but \<open>EINTR\<close> and the process exits.
\<close>

abbreviation (input) EINTR :: int where "EINTR \<equiv> 4"

partial_function (option) serve_loop :: "env \<Rightarrow> config \<Rightarrow> worker \<Rightarrow> server \<Rightarrow>
    (bool \<times> worker \<times> server) option" where
  "serve_loop env cfg w s =
     (if w_running w then
        (let r = act env (AEpollWait (sv_elfd cfg)) s in
         if a_ret (fst r) < 0 \<and> a_errno (fst r) \<noteq> EINTR then Some (False, w, snd r)
         else
           Option.bind (event_batch env cfg
               (if a_ret (fst r) < 0 then [] else take MAX_EVENTS (a_events (fst r))) (w, snd r))
             (\<lambda>ws. serve_loop env cfg (fst ws) (snd ws)))
      else Some (True, w, s))"

end
