(* ===== verification/Descriptor_Life.thy ===== *)
theory Descriptor_Life
  imports Event_Loop
begin

text \<open>
  The life of a descriptor in the event loop: which of its events reach Lua, in which order, and
  who closes it.  The library calls of a callback are arbitrary, so the central notion is what a
  stretch of history does to one descriptor (\<open>life\<close>), and the central lemma is that callbacks
  which spare a descriptor do nothing to it (\<open>run_lua_spares\<close>).
\<close>

section \<open>What a stretch of history does to a descriptor\<close>

definition reports_close :: "fd \<Rightarrow> action \<Rightarrow> bool" where
  "reports_close f a =
     (case a of APcall L name args \<Rightarrow> name = ''on_close'' \<and> length args = 2 \<and> args ! 1 = fd_to_void f
      | _ \<Rightarrow> False)"

definition reports_data :: "fd \<Rightarrow> action \<Rightarrow> bool" where
  "reports_data f a =
     (case a of APcall L name args \<Rightarrow> name = ''on_data'' \<and> length args = 5 \<and> args ! 1 = fd_to_void f
      | _ \<Rightarrow> False)"

definition concerns :: "fd \<Rightarrow> action \<Rightarrow> bool" where
  "concerns f a \<longleftrightarrow> a = AClose f \<or> reports_close f a \<or> reports_data f a"

definition life :: "fd \<Rightarrow> action list \<Rightarrow> action list" where
  "life f tr = filter (concerns f) tr"

lemma life_simps [simp]:
  "life f [] = []" "life f (xs @ ys) = life f xs @ life f ys"
  "life f (a # tr) = (if concerns f a then a # life f tr else life f tr)"
  by (simp_all add: life_def)

text \<open>The data the kernel handed out for a descriptor in a stretch \<open>tr\<close> of history behind \<open>h\<close>, read by read.\<close>

primrec chunks_read :: "env \<Rightarrow> fd \<Rightarrow> action list \<Rightarrow> action list \<Rightarrow> byte list list" where
  "chunks_read env f h [] = []"
| "chunks_read env f h (a # tr) =
     (case a of
        ARead g n \<Rightarrow>
          (let r = answers env (h @ [a]) in
           if g = f \<and> 0 \<le> a_ret r \<and> take n (a_bytes r) \<noteq> [] then [take n (a_bytes r)] else [])
      | _ \<Rightarrow> []) @ chunks_read env f (h @ [a]) tr"

lemma chunks_read_append: "chunks_read env f h (xs @ ys) = chunks_read env f h xs @ chunks_read env f (h @ xs) ys"
  by (induction xs arbitrary: h) auto

definition touches :: "fd \<Rightarrow> action \<Rightarrow> bool" where
  "touches f a \<longleftrightarrow> concerns f a \<or> (case a of ARead g n \<Rightarrow> g = f | _ \<Rightarrow> False)"

lemma untouched:
  assumes "filter (touches f) tr = []"
  shows "life f tr = [] \<and> chunks_read env f h tr = []"
  using assms by (induction tr arbitrary: h) (auto simp: touches_def split: if_splits action.splits)

text \<open>
  Calls that do nothing to a descriptor: no close of it.  (\<open>popen\<close> is left out: it closes ends of
  pipes it has just created, whose numbers the kernel chooses.)
\<close>

definition close_target :: "lua_value list \<Rightarrow> fd option" where
  "close_target args =
     (case args of [e, v, t] \<Rightarrow> Some (void_to_fd v) | _ \<Rightarrow> None)"

fun spares :: "fd \<Rightarrow> lua_op list \<Rightarrow> bool" where
  "spares f [] = True"
| "spares f (LuaCall name args plan # ops) =
     (name \<noteq> ''popen'' \<and>
      (name = ''close'' \<longrightarrow> close_target args \<noteq> Some f) \<and>
      spares f plan \<and> spares f ops)"

definition polite :: "fd \<Rightarrow> env \<Rightarrow> bool" where
  "polite f env \<longleftrightarrow> (\<forall>h. spares f (a_plan (answers env h)))"

text \<open>The history grows by actions that neither concern the descriptor nor read from it.\<close>

definition apart :: "fd \<Rightarrow> server \<Rightarrow> server \<Rightarrow> bool" where
  "apart f s s' \<longleftrightarrow> (\<exists>tr. hist s' = hist s @ tr \<and> filter (touches f) tr = [])"

named_theorems apart_intros "single steps that do not concern a descriptor"

lemma apart_refl [simp, intro]: "apart f s s"
  by (simp add: apart_def)

lemma apart_trans [trans]: "apart f s s1 \<Longrightarrow> apart f s1 s2 \<Longrightarrow> apart f s s2"
  by (force simp: apart_def)

lemma apart_log [apart_intros]: "apart f s s1 \<Longrightarrow> \<not> touches f a \<Longrightarrow> apart f s (log_act env a s1)"
  by (force simp: apart_def)

lemma apart_act [apart_intros]:
  "apart f s s1 \<Longrightarrow> \<not> touches f a \<Longrightarrow> apart f s (snd (act env a s1))"
  by (force simp: apart_def)

lemma apart_updates [simp]:
  "apart f s (s1\<lparr>c_errno := e\<rparr>) = apart f s s1" "apart f s (s1\<lparr>mailboxes := mbs\<rparr>) = apart f s s1"
  "apart f s (s1\<lparr>rl_ready := i\<rparr>) = apart f s s1" "apart f s (s1\<lparr>rl_running := i\<rparr>) = apart f s s1"
  by (simp_all add: apart_def)

lemma snd_act: "snd (act env a s) = log_act env a s"
  by (simp add: log_act_def)

lemma act_split: "act env a s = (answers env (hist s @ [a]), log_act env a s)"
  by (simp add: log_act_def act_def Let_def)

lemma concerns_simps [simp]:
  "\<not> concerns f (AEpollCtl e p g fl d)" "\<not> concerns f (ARead g n)" "\<not> concerns f (AWrite g bs)"
  "concerns f (AClose g) \<longleftrightarrow> g = f" "\<not> concerns f (AAccept g)" "\<not> concerns f (ANonblock g)"
  "\<not> concerns f (ASocket i1 i2 i3)" "\<not> concerns f (AConnect g sa n2)" "\<not> concerns f (AResolve bs)"
  "\<not> concerns f (APeername g)" "\<not> concerns f (AOther nm vs)" "\<not> concerns f (AAcquire m)"
  "\<not> concerns f (ARelease m)" "\<not> concerns f (AFree pl)" "\<not> concerns f AWaitpid"
  "\<not> concerns f (AEpollWait e)" "\<not> concerns f (AReadSignal g)"
  by (auto simp: concerns_def reports_close_def reports_data_def)

lemma concerns_pcall [simp]:
  "concerns f (APcall L name args) \<longleftrightarrow>
     name = ''on_close'' \<and> length args = 2 \<and> args ! 1 = fd_to_void f \<or>
     name = ''on_data'' \<and> length args = 5 \<and> args ! 1 = fd_to_void f"
  by (auto simp: concerns_def reports_close_def reports_data_def)

lemma touches_simps [simp]:
  "\<not> touches f (AEpollCtl e p g fl d)" "touches f (ARead g n) \<longleftrightarrow> g = f" "\<not> touches f (AWrite g bs)"
  "touches f (AClose g) \<longleftrightarrow> g = f" "\<not> touches f (AAccept g)" "\<not> touches f (ANonblock g)"
  "\<not> touches f (ASocket i1 i2 i3)" "\<not> touches f (AConnect g sa n2)" "\<not> touches f (AResolve bs)"
  "\<not> touches f (APeername g)" "\<not> touches f (AOther nm vs)" "\<not> touches f (AAcquire m)"
  "\<not> touches f (ARelease m)" "\<not> touches f (AFree pl)" "\<not> touches f AWaitpid"
  "\<not> touches f (AEpollWait e)" "\<not> touches f (AReadSignal g)"
  "touches f (APcall L name args) \<longleftrightarrow> concerns f (APcall L name args)"
  by (simp_all add: touches_def)

lemma void_to_fd_int: "c_int (void_to_fd v)"
proof -
  have "c_int (sint (w :: 32 word))" for w
    using sint_range_size [of w] by (simp add: c_int_def word_size)
  then show ?thesis by (cases v) (simp_all add: void_to_fd_def c_int_def)
qed

lemma fd_to_void_eq: "c_int f \<Longrightarrow> c_int g \<Longrightarrow> fd_to_void g = fd_to_void f \<longleftrightarrow> g = f"
  by (metis void_to_fd_to_void)

section \<open>Callbacks that spare a descriptor do nothing to it\<close>

lemma pcall_apart:
  assumes "pcall env run L name args s = Some s'" and "\<not> concerns f (APcall L name args)"
    and "\<And>p t t'. run p t = Some t' \<Longrightarrow> apart f t t'"
  shows "apart f s s'"
proof -
  have "run (a_plan (answers env (hist s @ [APcall L name args]))) (log_act env (APcall L name args) s) = Some s'"
    using assms(1) by (simp add: pcall_def act_split)
  then have "apart f (log_act env (APcall L name args) s) s'" by (rule assms(3))
  moreover have "apart f s (log_act env (APcall L name args) s)"
    by (rule apart_log [OF apart_refl]) (use assms(2) in \<open>simp del: concerns_pcall\<close>)
  ultimately show ?thesis by (rule apart_trans [rotated])
qed

lemma write_apart: "s80_write env e g t data off len s = Some (r, s') \<Longrightarrow> apart f s s'"
  by (auto simp: s80_write_def act_split Let_def intro!: apart_intros split: if_splits)

lemma connect_apart: "s80_connect env e addr port udp s = (r, s') \<Longrightarrow> apart f s s'"
proof -
  assume c: "s80_connect env e addr port udp s = (r, s')"
  obtain target s1 where res: "resolve_addr env addr port s = (target, s1)" by fastforce
  then have "apart f s s1"
    by (auto simp: resolve_addr_def act_split Let_def intro!: apart_intros
        split: prod.splits if_splits)
  then show ?thesis
    using c res
    by (auto simp: s80_connect_def act_split s80_enable_async_def Let_def intro!: apart_intros
        split: option.splits prod.splits if_splits)
qed

lemma peername_apart: "s80_peername env g s = (r, s') \<Longrightarrow> apart f s s'"
  by (auto simp: s80_peername_def act_split Let_def intro!: apart_intros split: if_splits)

lemma signal_workers_apart: "apart f s (fold (signal_worker env b) is s)"
  using signal_workers_hist [of env b "is" s]
  by (force simp: apart_def filter_empty_conv)

lemma mail_apart: "s80_mail env i msg s = Some (r, s') \<Longrightarrow> apart f s s'"
  by (auto simp: s80_mail_def s80_acquire_mailbox_def s80_release_mailbox_def Let_def
      intro!: apart_intros
      split: option.splits if_splits)

lemma close_apart:
  assumes "s80_close env run L e g t cb s = Some (r, s')" and "g \<noteq> f" and "c_int f" and "c_int g"
    and "\<And>p t t'. run p t = Some t' \<Longrightarrow> apart f t t'"
  shows "apart f s s'"
proof -
  let ?del = "AEpollCtl e EPOLL_CTL_DEL g (EPOLLIN OR EPOLLOUT) (SET_FD_HOLDER t g)"
  let ?s2 = "log_act env (AClose g) (log_act env ?del s)"
  have s2: "apart f s ?s2" using assms(2) by (auto intro!: apart_intros)
  have "pcall env run L ''on_close'' [fd_to_void e, fd_to_void g] ?s2 = Some s' \<Longrightarrow> apart f ?s2 s'"
    by (erule pcall_apart) (auto simp: fd_to_void_eq assms)
  then show ?thesis
    using assms(1) s2
    by (auto simp: s80_close_def act_split Let_def on_close_def map_option_Pair
        intro!: apart_intros intro: apart_trans split: if_splits)
qed

lemma on_message_apart:
  assumes "on_message env run L e m s = Some s'"
    and "\<And>p t t'. run p t = Some t' \<Longrightarrow> apart f t t'"
  shows "apart f s s'"
proof -
  from assms(1) obtain bs where "pcall env run L ''on_message''
       [LInt (sender_id m), fd_to_void (sender_elfd m), fd_to_void (sender_fd m),
        fd_to_void e, fd_to_void (receiver_fd m), LInt (mtype m), LStr bs] s = Some s'"
    by (auto simp: on_message_def split: Option.bind_splits)
  then show ?thesis by (rule pcall_apart) (simp_all add: assms(2))
qed

lemma outcome_apart:
  "(\<And>r s'. m = Some (r, s') \<Longrightarrow> apart f s s') \<Longrightarrow> apart f s (snd (outcome s m))"
  by (cases m) (auto simp: outcome_def)

lemma l_net_write_apart: "apart f s (snd (l_net_write env args s))"
  unfolding l_net_write_def
  by (auto split: list.splits lua_value.splits intro!: outcome_apart dest: write_apart)

lemma l_net_connect_apart: "apart f s (snd (l_net_connect env args s))"
  unfolding l_net_connect_def
  by (auto split: list.splits lua_value.splits prod.splits dest: connect_apart)

lemma l_net_sockname_apart: "apart f s (snd (l_net_sockname env args s))"
  unfolding l_net_sockname_def
  by (auto split: list.splits lua_value.splits prod.splits option.splits dest: peername_apart)

lemma l_net_quit_apart: "apart f s (snd (l_net_quit env args s))"
  by (auto simp: l_net_quit_def s80_quit_def Let_def signal_workers_apart
      split: list.splits lua_value.splits)

lemma l_net_reload_apart:
  assumes "\<And>p t t'. run p t = Some t' \<Longrightarrow> apart f t t'"
  shows "apart f s (snd (l_net_reload env run args s))"
proof -
  have "apart f s (log_act env (AOther nm vs) s)" for nm vs by (auto intro!: apart_intros)
  then have "apart f s (snd (outcome s (map_option (\<lambda>s'. (r, s')) (run pl (log_act env (AOther nm vs) s)))))"
    for r pl nm vs
    by (intro outcome_apart) (auto dest: assms intro: apart_trans)
  then show ?thesis
    by (auto simp: l_net_reload_def s80_reload_def Let_def signal_workers_apart act_split
        split: list.splits lua_value.splits)
qed

lemma l_net_mail_apart:
  assumes "\<And>p t t'. run p t = Some t' \<Longrightarrow> apart f t t'"
  shows "apart f s (snd (l_net_mail env run L args s))"
proof -
  have "apart f s s'" if "l_net_mail_send env run L tid msg s = Some (r, s')" for tid msg r s'
    using that by (auto simp: l_net_mail_send_def split: if_splits
        intro!: apart_intros dest: mail_apart on_message_apart [OF _ assms])
  then show ?thesis
    by (auto simp: l_net_mail_def Let_def split: list.splits lua_value.splits Option.bind_splits
        intro!: outcome_apart)
qed

lemma l_net_close_apart:
  assumes "close_target args \<noteq> Some f" and "c_int f"
    and "\<And>p t t'. run p t = Some t' \<Longrightarrow> apart f t t'"
  shows "apart f s (snd (l_net_close env run L args s))"
  using assms(1) unfolding l_net_close_def
  by (auto simp: close_target_def split: list.splits lua_value.splits
      intro!: outcome_apart dest: close_apart [OF _ _ assms(2) void_to_fd_int assms(3)])

lemma netlib_apart:
  assumes "spares f (LuaCall name args plan # ops)" and "c_int f"
    and "\<And>p t t'. run p t = Some t' \<Longrightarrow> apart f t t'"
  shows "apart f s (snd (netlib env run L name args s))"
proof -
  have "apart f s (snd (l_net_reload env run args s))" "apart f s (snd (l_net_mail env run L args s))"
    by (rule l_net_reload_apart l_net_mail_apart, erule assms(3))+
  moreover have "name = ''close'' \<Longrightarrow> apart f s (snd (l_net_close env run L args s))"
    using assms(1) by (intro l_net_close_apart assms(2,3)) auto
  moreover have "name \<noteq> ''popen''" using assms(1) by simp
  ultimately show ?thesis
    by (simp add: netlib_def l_net_write_apart l_net_connect_apart l_net_sockname_apart
        l_net_quit_apart)
qed

lemma run_lua_spares:
  assumes "run_lua env L ops s = Some s'" and "spares f ops" and "c_int f"
  shows "apart f s s'"
  using assms(1,2)
proof (induction env L ops s arbitrary: s' rule: run_lua.induct)
  case (1 env L s)
  then show ?case by simp
next
  case (2 env L name args plan ops s)
  let ?run = "\<lambda>p. run_lua env L plan"
  have "apart f t t'" if "run_lua env L plan t = Some t'" for t t'
    using "2.IH"(1) [OF that] "2.prems"(2) by simp
  then have first: "apart f s (snd (netlib env ?run L name args s))"
    using "2.prems"(2) assms(3) by (intro netlib_apart) auto
  obtain r s1 where r: "netlib env ?run L name args s = (r, s1)" by fastforce
  then have "run_lua env L ops s1 = Some s'" using "2.prems"(1) by (cases r) auto
  moreover have "spares f ops" using "2.prems"(2) by simp
  ultimately have "apart f s1 s'"
    using "2.IH"(2,3) r "2.prems"(1) by (cases r) auto
  then show ?case using first r by (auto intro: apart_trans)
qed

section \<open>One event of a descriptor\<close>

definition lives :: "env \<Rightarrow> fd \<Rightarrow> byte list list \<Rightarrow> action list \<Rightarrow> server \<Rightarrow> server \<Rightarrow> bool" where
  "lives env f ds es s s' \<longleftrightarrow> (\<exists>tr. hist s' = hist s @ tr \<and> chunks_read env f (hist s) tr = ds \<and> life f tr = es)"

lemma apart_lives: "apart f s s' \<Longrightarrow> lives env f [] [] s s'"
  using untouched by (fastforce simp: lives_def apart_def)

lemma lives_trans: "lives env f ds es s s1 \<Longrightarrow> lives env f ds' es' s1 s2 \<Longrightarrow> lives env f (ds @ ds') (es @ es') s s2"
  by (force simp: lives_def chunks_read_append)

lemma lives_apart: "apart f s s1 \<Longrightarrow> lives env f ds es s1 s2 \<Longrightarrow> lives env f ds es s s2"
  using lives_trans [OF apart_lives, of f s s1 env ds es s2] by simp

lemma lives_since: "lives env f ds es s s' \<Longrightarrow> chunks_read env f (hist s) (since s s') = ds \<and> life f (since s s') = es"
  by (auto simp: lives_def since_def)

definition data_report :: "config \<Rightarrow> int \<Rightarrow> fd \<Rightarrow> byte list \<Rightarrow> action" where
  "data_report cfg ty f bs = APcall (sv_id cfg) ''on_data'' [fd_to_void (sv_elfd cfg), fd_to_void f,
     fd_to_void ty, LStr bs, LInt (int (length bs))]"

definition close_report :: "config \<Rightarrow> fd \<Rightarrow> action" where
  "close_report cfg f = APcall (sv_id cfg) ''on_close'' [fd_to_void (sv_elfd cfg), fd_to_void f]"

lemma pcall_lives:
  assumes "pcall env (run_lua env L) L' name args s = Some s'" and "polite f env" and "c_int f"
  shows "lives env f [] (if concerns f (APcall L' name args) then [APcall L' name args] else []) s s'"
proof -
  let ?a = "APcall L' name args"
  have "run_lua env L (a_plan (answers env (hist s @ [?a]))) (log_act env ?a s) = Some s'"
    using assms(1) by (simp add: pcall_def act_split)
  then have "apart f (log_act env ?a s) s'"
    by (rule run_lua_spares) (use assms in \<open>simp_all add: polite_def\<close>)
  moreover have "lives env f [] (if concerns f ?a then [?a] else []) s (log_act env ?a s)"
    by (simp add: lives_def)
  ultimately show ?thesis using lives_trans [OF _ apart_lives] by fastforce
qed

text \<open>A read takes what the kernel hands out, and nothing else of the descriptor changes.\<close>

lemma sys_read_lives:
  assumes "sys_read env f n s = (r, bs, s')"
  shows "lives env f (if 0 < r then [bs] else []) [] s s' \<and> (0 < r \<longrightarrow> bs \<noteq> [])"
  using assms by (auto simp: sys_read_def act_split Let_def lives_def split: if_splits)

lemma writable_life:
  assumes "writable_step env cfg ty f s = Some s'" and "polite f env" and "c_int f"
  shows "lives env f [] [] s s'"
proof -
  let ?s1 = "if ty \<noteq> S80_FD_PIPE then log_act env (AEpollCtl (sv_elfd cfg) EPOLL_CTL_MOD f EPOLLIN
            (SET_FD_HOLDER ty f)) s else s"
  have "lives env f [] [] ?s1 s'"
    using assms(1) pcall_lives [OF _ assms(2,3)]
    by (fastforce simp: writable_step_def on_write_def Let_def)
  moreover have "apart f s ?s1" by (auto intro!: apart_intros)
  ultimately show ?thesis by (rule lives_apart [rotated])
qed

lemma received_life:
  assumes "received env cfg ty f bs s = Some s'" and "polite f env" and "c_int f"
  shows "lives env f [] [data_report cfg ty f bs] s s'"
proof -
  have "pcall env (run_lua env (sv_id cfg)) (sv_id cfg) ''on_data'' [fd_to_void (sv_elfd cfg),
      fd_to_void f, fd_to_void ty, LStr bs, LInt (int (length bs))] s = Some s'"
    using assms(1) by (simp add: received_def on_receive_def)
  from pcall_lives [OF this assms(2,3)] show ?thesis by (simp add: data_report_def)
qed

lemma drop_child_life:
  assumes "drop_child env cfg ty f s = Some s'" and "polite f env" and "c_int f"
  shows "lives env f [] [AClose f, close_report cfg f] s s'"
proof -
  let ?del = "AEpollCtl (sv_elfd cfg) EPOLL_CTL_DEL f (EPOLLIN OR EPOLLOUT) (SET_FD_HOLDER ty f)"
  have "pcall env (run_lua env (sv_id cfg)) (sv_id cfg) ''on_close''
      [fd_to_void (sv_elfd cfg), fd_to_void f] (log_act env (AClose f) (log_act env ?del s)) = Some s'"
    using assms(1) by (simp add: drop_child_def on_close_def)
  from pcall_lives [OF this assms(2,3)]
  have "lives env f [] [close_report cfg f] (log_act env (AClose f) (log_act env ?del s)) s'"
    by (simp add: close_report_def)
  moreover have "lives env f [] [AClose f] s (log_act env (AClose f) (log_act env ?del s))"
    by (simp add: lives_def)
  ultimately show ?thesis using lives_trans by fastforce
qed

lemma readable_life:
  assumes "readable_step env cfg ty f s = Some (closed, s')" and "polite f env" and "c_int f"
  shows "\<exists>ds. lives env f ds (map (data_report cfg ty f) ds @ (if closed then [AClose f, close_report cfg f] else [])) s s'"
proof -
  obtain r bs s1 where r: "sys_read env f BUFSIZE s = (r, bs, s1)"
    by (cases "sys_read env f BUFSIZE s") auto
  note got = sys_read_lives [OF r]
  show ?thesis
  proof (cases "r \<le> 0")
    case True
    then have "closed" "drop_child env cfg ty f s1 = Some s'"
      using assms(1) r by (auto simp: readable_step_def)
    then show ?thesis
      using lives_trans [OF conjunct1 [OF got] drop_child_life [OF _ assms(2,3)], of cfg ty s'] True by (intro exI [of _ "[]"]) simp
  next
    case False
    then have "\<not> closed" "received env cfg ty f bs s1 = Some s'"
      using assms(1) r by (auto simp: readable_step_def)
    then show ?thesis
      using lives_trans [OF conjunct1 [OF got] received_life [OF _ assms(2,3)], of cfg ty bs s'] False by (intro exI [of _ "[bs]"]) simp
  qed
qed

lemma drain_life:
  assumes "drain_pipe env cfg ty f s = Some s'"
  shows "polite f env \<longrightarrow> c_int f \<longrightarrow> (\<exists>ds. lives env f ds (map (data_report cfg ty f) ds) s s')"
proof (rule drain_pipe.raw_induct [OF _ assms], intro impI)
  fix drain env cfg ty f s s'
  assume IH: "\<And>env cfg ty f s s'. drain env cfg ty f s = Some s' \<Longrightarrow> polite f env \<longrightarrow> c_int f \<longrightarrow>
      (\<exists>ds. lives env f ds (map (data_report cfg ty f) ds) s s')"
    and body: "(if ty = S80_FD_PIPE then let r = sys_read env f BUFSIZE s in
        if fst r \<le> 0 then Some (snd (snd r))
        else Option.bind (received env cfg ty f (fst (snd r)) (snd (snd r))) (drain env cfg ty f)
      else Some s) = Some s'"
    and pol: "polite f env" "c_int f"
  obtain r bs s1 where r: "sys_read env f BUFSIZE s = (r, bs, s1)"
    by (cases "sys_read env f BUFSIZE s") auto
  note got = sys_read_lives [OF r]
  show "\<exists>ds. lives env f ds (map (data_report cfg ty f) ds) s s'"
  proof (cases "ty = S80_FD_PIPE \<and> 0 < r")
    case False
    then have "s' = s \<or> s' = s1 \<and> r \<le> 0" using body r by (auto split: if_splits)
    then have "lives env f [] [] s s'" using got apart_lives [OF apart_refl] by auto
    then show ?thesis by (intro exI [of _ "[]"]) simp
  next
    case True
    then obtain s2 where s2: "received env cfg ty f bs s1 = Some s2" "drain env cfg ty f s2 = Some s'"
      using body r by (auto simp: Let_def split: if_splits Option.bind_splits)
    then obtain ds where ds: "lives env f ds (map (data_report cfg ty f) ds) s2 s'"
      using IH [OF s2(2)] pol by auto
    have "lives env f [bs] [data_report cfg ty f bs] s s2"
      using lives_trans [OF conjunct1 [OF got] received_life [OF s2(1) pol]] True by simp
    from lives_trans [OF this ds] have "lives env f (bs # ds) (map (data_report cfg ty f) (bs # ds)) s s'"
      by simp
    then show ?thesis by blast
  qed
qed

lemma chunks_read_filled: "[] \<notin> set (chunks_read env f h tr)"
  by (induction tr arbitrary: h) (auto simp: Let_def split: action.splits)

text \<open>
  C2. However the kernel answers and whatever the Lua callbacks do to other descriptors, one event
  of a connection or pipe reports to Lua exactly the data the kernel's reads of it handed out during
  the event, read by read and in that order, none of it empty; then it ends at most once, with one
  close followed by one report of it and nothing after that.  A hang-up always ends it, the rest of the
  batch is skipped only if it did, and an event that is only about writing neither reads nor ends it.
\<close>

theorem child_event_life:
  assumes "child_event env cfg flags ty f s = Some (brk, s')" and "polite f env" and "c_int f"
  shows "\<exists>ended.
    life f (since s s') = map (data_report cfg ty f) (chunks_read env f (hist s) (since s s')) @
      (if ended then [AClose f, close_report cfg f] else []) \<and>
    [] \<notin> set (chunks_read env f (hist s) (since s s')) \<and>
    (brk \<longrightarrow> ended) \<and> (flags AND (EPOLLERR OR EPOLLHUP) \<noteq> 0 \<longrightarrow> ended) \<and>
    (flags = EPOLLOUT \<longrightarrow> chunks_read env f (hist s) (since s s') = [] \<and> \<not> ended)"
proof -
  note pol = assms(2,3)
  obtain s1 closed s2 where
    w: "(if flags AND EPOLLOUT = EPOLLOUT then writable_step env cfg ty f s else Some s) = Some s1"
    and r: "(if flags AND EPOLLIN = EPOLLIN then readable_step env cfg ty f s1 else Some (False, s1)) = Some (closed, s2)"
    and fin: "(if \<not> closed \<and> flags AND (EPOLLERR OR EPOLLHUP) \<noteq> 0 then
             Option.bind (drain_pipe env cfg ty f s2)
               (\<lambda>s3. map_option (Pair True) (drop_child env cfg ty f s3))
           else Some (False, s2)) = Some (brk, s')"
    using assms(1) unfolding child_event_def bind_eq_Some_conv is_fd_ready_def split_paired_Ex simp_thms
      prod.case by blast
  have s1: "lives env f [] [] s s1"
    using w writable_life [OF _ pol] apart_lives [OF apart_refl] by (auto split: if_splits)
  have "\<exists>ds. lives env f ds (map (data_report cfg ty f) ds @ (if closed then [AClose f, close_report cfg f] else [])) s s2 \<and>
    (flags AND EPOLLIN \<noteq> EPOLLIN \<longrightarrow> ds = [] \<and> \<not> closed)"
  proof (cases "flags AND EPOLLIN = EPOLLIN")
    case True
    then show ?thesis
      using r readable_life [OF _ pol] lives_trans [OF s1] by fastforce
  next
    case False
    then show ?thesis
      using r s1 by (intro exI [of _ "[]"]) auto
  qed
  then obtain ds where ds:
    "lives env f ds (map (data_report cfg ty f) ds @ (if closed then [AClose f, close_report cfg f] else [])) s s2"
    "flags AND EPOLLIN \<noteq> EPOLLIN \<longrightarrow> ds = [] \<and> \<not> closed" by blast
  show ?thesis
  proof (cases "\<not> closed \<and> flags AND (EPOLLERR OR EPOLLHUP) \<noteq> 0")
    case False
    then show ?thesis
      using fin ds lives_since [OF ds(1)] chunks_read_filled [of env f "hist s" "since s s'"] by (intro exI [of _ closed]) auto
  next
    case True
    then obtain s3 where s3: "drain_pipe env cfg ty f s2 = Some s3" "drop_child env cfg ty f s3 = Some s'" "brk"
      using fin by (auto simp: bind_eq_Some_conv)
    obtain ds2 where "lives env f ds2 (map (data_report cfg ty f) ds2) s2 s3"
      using drain_life [OF s3(1)] pol by blast
    from lives_trans [OF this drop_child_life [OF s3(2) pol]]
    have "lives env f (ds @ ds2) (map (data_report cfg ty f) (ds @ ds2) @ [AClose f, close_report cfg f]) s s'"
      using lives_trans [OF ds(1)] True by fastforce
    from lives_since [OF this] show ?thesis
      using True chunks_read_filled [of env f "hist s" "since s s'"] by (intro exI [of _ True]) auto
  qed
qed

text \<open>A single worker, for witnesses.\<close>

definition sample_config :: config where
  "sample_config = \<lparr>sv_id = 0, sv_els = [5], sv_sigfd = 6, sv_selfpipe = 7\<rparr>"

lemma polite_const [simp]: "polite f (const_env r)"
  by (simp add: polite_def)

definition chatty_env :: env where
  "chatty_env = (const_env 0)\<lparr>answers := \<lambda>h. case last h of
     ARead f n \<Rightarrow> \<lparr>a_ret = 2, a_errno = 0, a_bytes = [104, 105], a_vals = [], a_plan = [], a_events = []\<rparr>
   | _ \<Rightarrow> \<lparr>a_ret = 0, a_errno = 0, a_bytes = [], a_vals = [], a_plan = [], a_events = []\<rparr>\<rparr>"

lemma chatty_polite: "polite f chatty_env"
  by (auto simp: polite_def chatty_env_def split: action.splits)

lemma socket_not_drained: "drain_pipe env cfg S80_FD_SOCKET f s = Some s"
  by (subst drain_pipe.simps) simp

lemma chatty_event:
  "\<exists>s'. child_event chatty_env sample_config (EPOLLIN OR EPOLLHUP) S80_FD_SOCKET 9 idle_server = Some (True, s') \<and>
     chunks_read chatty_env 9 [] (since idle_server s') = [[104, 105]]"
  by (simp add: child_event_def is_fd_ready_def readable_step_def sys_read_def act_split Let_def received_def on_receive_def
      drop_child_def on_close_def pcall_def socket_not_drained chatty_env_def since_def idle_server_def BUFSIZE_def)

theorem child_event_life_witness:
  "\<exists>s' ended. child_event chatty_env sample_config
       (EPOLLIN OR EPOLLHUP) S80_FD_SOCKET 9 idle_server = Some (True, s') \<and> ended \<and>
     life 9 (since idle_server s') =
       map (data_report sample_config S80_FD_SOCKET 9) [[104, 105]] @ [AClose 9, close_report sample_config 9]"
proof -
  obtain s' where s': "child_event chatty_env sample_config (EPOLLIN OR EPOLLHUP) S80_FD_SOCKET 9 idle_server = Some (True, s')"
    "chunks_read chatty_env 9 [] (since idle_server s') = [[104, 105]]" using chatty_event by blast
  have nine: "c_int 9" by (simp add: c_int_def)
  have none: "hist idle_server = []" by (simp add: idle_server_def)
  from child_event_life [OF s'(1) chatty_polite nine] obtain ended where
    "life 9 (since idle_server s') = map (data_report sample_config S80_FD_SOCKET 9) [[104, 105]] @
      (if ended then [AClose 9, close_report sample_config 9] else [])" and "ended"
    unfolding none s'(2) by blast
  then show ?thesis using s'(1) by fastforce
qed

text \<open>
  An environment in which the Lua function \<open>on_write\<close> closes descriptor 9 with \<open>net.close\<close>, and
  reading a closed descriptor fails, as the kernel does.
\<close>

definition closing_env :: env where
  "closing_env = (const_env 0)\<lparr>answers := \<lambda>h. case last h of
       APcall L name args \<Rightarrow> \<lparr>a_ret = 0, a_errno = 0, a_bytes = [], a_vals = [],
         a_plan = (if name = ''on_write''
           then [LuaCall ''close'' [LLight 5, LLight 9, LLight 1] []] else []), a_events = []\<rparr>
     | ARead f n \<Rightarrow> \<lparr>a_ret = (if AClose f \<in> set h then - 1 else 0), a_errno = 9, a_bytes = [], a_vals = [],
         a_plan = [], a_events = []\<rparr>
     | _ \<Rightarrow> \<lparr>a_ret = 0, a_errno = 0, a_bytes = [], a_vals = [], a_plan = [], a_events = []\<rparr>\<rparr>"

lemma closing_writable:
  "\<exists>s'. writable_step closing_env sample_config S80_FD_SOCKET 9 idle_server = Some s' \<and>
   hist s' = [AEpollCtl 5 EPOLL_CTL_MOD 9 EPOLLIN (SET_FD_HOLDER S80_FD_SOCKET 9),
     APcall 0 ''on_write'' [fd_to_void 5, fd_to_void 9, LInt 0],
     AEpollCtl 5 EPOLL_CTL_DEL 9 (EPOLLIN OR EPOLLOUT) (SET_FD_HOLDER S80_FD_SOCKET 9), AClose 9,
     APcall 0 ''on_close'' [fd_to_void 5, fd_to_void 9]]"
  by (simp add: writable_step_def act_split Let_def on_close_def on_write_def pcall_def
      closing_env_def netlib_def l_net_close_def s80_close_def outcome_def void_to_fd_def
      idle_server_def sv_elfd_def sample_config_def)

lemma closing_readable:
  "hist s = h @ [AClose 9, b] \<Longrightarrow>
   \<exists>s'. readable_step closing_env sample_config S80_FD_SOCKET 9 s = Some (True, s') \<and>
     hist s' = hist s @ [ARead 9 BUFSIZE,
       AEpollCtl 5 EPOLL_CTL_DEL 9 (EPOLLIN OR EPOLLOUT) (SET_FD_HOLDER S80_FD_SOCKET 9), AClose 9,
       APcall 0 ''on_close'' [fd_to_void 5, fd_to_void 9]]"
  by (simp add: readable_step_def sys_read_def act_split Let_def drop_child_def on_close_def
      pcall_def closing_env_def sv_elfd_def sample_config_def)

text \<open>
  The loop trusts its copy of the descriptor after a callback: when a socket is both writable
  and readable and \<open>on_write\<close> closes it, the loop still reads the closed number, takes the error
  for a hang-up, closes the number again (by then possibly another worker's connection) and reports
  the close to Lua a second time.
\<close>

theorem closed_in_callback_closed_twice:
  "\<exists>s'. child_event closing_env sample_config (EPOLLIN OR EPOLLOUT) S80_FD_SOCKET 9 idle_server =
       Some (False, s') \<and>
     life 9 (since idle_server s') =
       [AClose 9, close_report sample_config 9, AClose 9, close_report sample_config 9]"
proof -
  obtain s1 where s1: "writable_step closing_env sample_config S80_FD_SOCKET 9 idle_server = Some s1"
    and h1: "hist s1 = [AEpollCtl 5 EPOLL_CTL_MOD 9 EPOLLIN (SET_FD_HOLDER S80_FD_SOCKET 9),
     APcall 0 ''on_write'' [fd_to_void 5, fd_to_void 9, LInt 0],
     AEpollCtl 5 EPOLL_CTL_DEL 9 (EPOLLIN OR EPOLLOUT) (SET_FD_HOLDER S80_FD_SOCKET 9), AClose 9,
     APcall 0 ''on_close'' [fd_to_void 5, fd_to_void 9]]"
    using closing_writable by blast
  obtain s2 where s2: "readable_step closing_env sample_config S80_FD_SOCKET 9 s1 = Some (True, s2)"
    and h2: "hist s2 = hist s1 @ [ARead 9 BUFSIZE,
       AEpollCtl 5 EPOLL_CTL_DEL 9 (EPOLLIN OR EPOLLOUT) (SET_FD_HOLDER S80_FD_SOCKET 9), AClose 9,
       APcall 0 ''on_close'' [fd_to_void 5, fd_to_void 9]]"
    using closing_readable [of s1 "take 3 (hist s1)"] h1 by auto
  have "child_event closing_env sample_config (EPOLLIN OR EPOLLOUT) S80_FD_SOCKET 9 idle_server =
      Some (False, s2)"
    by (simp add: child_event_def is_fd_ready_def s1 s2)
  moreover have "life 9 (since idle_server s2) =
      [AClose 9, close_report sample_config 9, AClose 9, close_report sample_config 9]"
    by (simp add: since_def h1 h2 idle_server_def close_report_def sv_elfd_def sample_config_def)
  ultimately show ?thesis by blast
qed

end
