(* ===== verification/Serve.thy ===== *)
theory Serve
  imports Descriptor_Life
begin

text \<open>
  The worker as a whole: what the signals on its self-pipe do, how connections are dealt out, how
  mail is worked off, that no branch of the loop gets stuck, and \<open>serve\<close> from its set-up to its
  return.
\<close>

section \<open>Signals\<close>

lemma pipe_byte_flags:
  assumes "pipe_byte env cfg b (w, s) = Some (w', s')"
  shows "w_running w' \<longleftrightarrow> w_running w \<and> b \<noteq> S80_SIGNAL_STOP \<and> b \<noteq> S80_SIGNAL_QUIT"
    and "w_quit w' \<longleftrightarrow> w_quit w \<or> b = S80_SIGNAL_QUIT"
    and "w_accepts w' = w_accepts w"
  using assms by (auto simp: pipe_byte_def split: if_splits)

lemma pipe_bytes_flags:
  "pipe_bytes env cfg bs (w, s) = Some (w', s') \<Longrightarrow>
     (w_running w' \<longleftrightarrow> w_running w \<and> S80_SIGNAL_STOP \<notin> set bs \<and> S80_SIGNAL_QUIT \<notin> set bs) \<and>
     (w_quit w' \<longleftrightarrow> w_quit w \<or> S80_SIGNAL_QUIT \<in> set bs) \<and> w_accepts w' = w_accepts w"
proof (induction bs arbitrary: w s)
  case (Cons b bs)
  then obtain w1 s1 where "pipe_byte env cfg b (w, s) = Some (w1, s1)"
      "pipe_bytes env cfg bs (w1, s1) = Some (w', s')"
    by (auto split: Option.bind_splits)
  then show ?case using Cons.IH [of w1 s1] pipe_byte_flags [of env cfg b w s w1 s1] by auto
qed simp

text \<open>
  Reading the self-pipe stops the worker exactly when a stop or quit signal is among the bytes
  read, wherever it stands among them, and marks it as quitting exactly for a quit signal; the
  turn of the next connection is not affected.
\<close>

theorem pipe_event_signals:
  assumes "pipe_event env cfg f w s = Some (w', s')"
  shows "\<exists>bs. bs = take BUFSIZE (a_bytes (answers env (hist s @ [ARead f BUFSIZE]))) \<and>
    (a_ret (answers env (hist s @ [ARead f BUFSIZE])) < 0 \<longrightarrow> w' = w) \<and>
    (0 \<le> a_ret (answers env (hist s @ [ARead f BUFSIZE])) \<longrightarrow>
      (w_running w' \<longleftrightarrow> w_running w \<and> S80_SIGNAL_STOP \<notin> set bs \<and> S80_SIGNAL_QUIT \<notin> set bs) \<and>
      (w_quit w' \<longleftrightarrow> w_quit w \<or> S80_SIGNAL_QUIT \<in> set bs) \<and> w_accepts w' = w_accepts w)"
  using assms pipe_bytes_flags [of env cfg _ w _ w' s']
  by (fastforce simp: pipe_event_def sys_read_def act_split Let_def split: if_splits)

theorem pipe_event_signals_witness:
  "\<exists>w' s'. pipe_event ((const_env 2)\<lparr>answers := \<lambda>h. \<lparr>a_ret = 2, a_errno = 0, a_bytes = [9, 2],
         a_vals = [], a_plan = [], a_events = []\<rparr>\<rparr>) sample_config 7
       \<lparr>w_accepts = 1, w_running = True, w_quit = False, w_siginfo = []\<rparr> idle_server = Some (w', s') \<and>
     \<not> w_running w' \<and> w_quit w' \<and> w_accepts w' = 1"
proof -
  let ?env = "(const_env 2)\<lparr>answers := \<lambda>h. \<lparr>a_ret = 2, a_errno = 0, a_bytes = [9, 2],
         a_vals = [], a_plan = [], a_events = []\<rparr>\<rparr>"
  let ?w = "\<lparr>w_accepts = 1, w_running = True, w_quit = False, w_siginfo = []\<rparr>"
  have big: "take BUFSIZE [9, 2] = ([9, 2] :: byte list)" by (simp add: BUFSIZE_def)
  then have "\<exists>w' s'. pipe_event ?env sample_config 7 ?w idle_server = Some (w', s')"
    by (simp add: pipe_event_def sys_read_def act_split Let_def pipe_byte_def)
  then obtain w' s' where e: "pipe_event ?env sample_config 7 ?w idle_server = Some (w', s')" by blast
  from pipe_event_signals [OF e] have "\<not> w_running w' \<and> w_quit w' \<and> w_accepts w' = 1"
    using big by simp
  then show ?thesis using e by blast
qed

section \<open>Dealing out connections\<close>

text \<open>
  Connections are dealt out in turn and the turn never leaves the worker array: a failed
  \<open>accept\<close> keeps it, a connection moves it on by one, modulo the number of workers; nothing else
  of the worker changes.
\<close>

theorem accept_event_turn:
  assumes "w_accepts w < length (sv_els cfg)"
  shows "case accept_event env cfg pf w s of
      None \<Rightarrow> 0 \<le> a_ret (answers env (hist s @ [AAccept pf]))
    | Some (w', s') \<Rightarrow>
        w' = w\<lparr>w_accepts := (if a_ret (answers env (hist s @ [AAccept pf])) < 0 then w_accepts w
               else (w_accepts w + 1) mod length (sv_els cfg))\<rparr> \<and>
        w_accepts w' < length (sv_els cfg)"
  using assms
  by (auto simp: accept_event_def act_split Let_def split: option.splits if_splits Option.bind_splits)

theorem accept_event_turn_witness:
  "\<exists>s'. accept_event (const_env 9) \<lparr>sv_id = 0, sv_els = [5, 6], sv_sigfd = 3, sv_selfpipe = 4\<rparr> 7
      \<lparr>w_accepts = 1, w_running = True, w_quit = False, w_siginfo = []\<rparr> idle_server =
    Some (\<lparr>w_accepts = 0, w_running = True, w_quit = False, w_siginfo = []\<rparr>, s')"
proof -
  let ?cfg = "\<lparr>sv_id = 0, sv_els = [5, 6], sv_sigfd = 3, sv_selfpipe = 4\<rparr>"
  let ?w = "\<lparr>w_accepts = 1, w_running = True, w_quit = False, w_siginfo = []\<rparr>"
  have some: "accept_event (const_env 9) ?cfg 7 ?w idle_server \<noteq> None"
    by (simp add: accept_event_def act_split Let_def hand_over_def const_env_def)
  then show ?thesis
    using accept_event_turn [of ?w ?cfg "const_env 9" idle_server 7] by (auto split: option.splits)
qed

text \<open>
  A connection for another worker is not touched by the accepting one: it is made non-blocking
  and travels as one message, with the descriptor, the event loop and the Lua state of the worker
  whose turn it is, and at most 64 bytes of the peer's address, to exactly that worker's mailbox.
\<close>

theorem accept_event_hands_over:
  assumes "w_accepts w < length (sv_els cfg)" and "w_accepts w \<noteq> sv_id cfg"
    and "length (mailboxes s) = length (sv_els cfg)"
    and "accept_event env cfg pf w s = Some (w', s')"
    and "f = a_ret (answers env (hist s @ [AAccept pf]))" and "0 \<le> f"
    and "heap env (hist s @ [AAccept pf, ANonblock f]) 160 \<noteq> None"
  shows "\<exists>p r mb' wk. ap_childfd p = f \<and> ap_ctx p = w_accepts w \<and> ap_elfd p = sv_els cfg ! w_accepts w \<and>
      ap_parentfd p = pf \<and> ap_fdtype p = S80_FD_SOCKET \<and> length (ap_address p) \<le> 64 \<and>
      mail_locked (heap env (hist s @ [AAccept pf, ANonblock f, AAcquire (w_accepts w)]))
        (mailboxes s ! w_accepts w) (accept_message cfg p) = Some (r, mb', wk) \<and>
      mailboxes s' = (mailboxes s)[w_accepts w := mb']"
proof -
  let ?p = "accepted_params cfg (w_accepts w) pf f (a_bytes (answers env (hist s @ [AAccept pf])))"
  let ?s1 = "s80_enable_async env f (log_act env (AAccept pf) s)"
  have s1: "hist ?s1 = hist s @ [AAccept pf, ANonblock f]" "mailboxes ?s1 = mailboxes s"
    by (simp_all add: s80_enable_async_def)
  have "\<exists>s2. hand_over env cfg (w_accepts w) ?p ?s1 = Some s2 \<and> s' = s2"
    using assms(1,4-6) by (auto simp: accept_event_def act_split Let_def split: if_splits Option.bind_splits)
  then obtain r where "s80_mail env (int (w_accepts w)) (accept_message cfg ?p) ?s1 = Some (r, s')"
    using assms(2,7) by (auto simp: hand_over_def s1)
  then obtain mb' wk where
      "mail_locked (heap env (hist s @ [AAccept pf, ANonblock f, AAcquire (w_accepts w)]))
        (mailboxes s ! w_accepts w) (accept_message cfg ?p) = Some (r, mb', wk)"
      "mailboxes s' = (mailboxes s)[w_accepts w := mb']"
    using s1 by (auto simp: s80_mail_def s80_acquire_mailbox_def s80_release_mailbox_def Let_def
        split: option.splits if_splits)
  moreover have "ap_childfd ?p = f \<and> ap_ctx ?p = w_accepts w \<and> ap_elfd ?p = sv_els cfg ! w_accepts w \<and>
      ap_parentfd ?p = pf \<and> ap_fdtype ?p = S80_FD_SOCKET \<and> length (ap_address ?p) \<le> 64"
    by (simp add: accepted_params_def)
  ultimately show ?thesis by blast
qed

theorem accept_event_hands_over_witness:
  "\<exists>s' p r mb' wk. accept_event ((const_env 9)\<lparr>heap := \<lambda>h n. Some (\<lambda>i. sample_message)\<rparr>)
       \<lparr>sv_id = 0, sv_els = [5, 6], sv_sigfd = 3, sv_selfpipe = 4\<rparr> 7
       \<lparr>w_accepts = 1, w_running = True, w_quit = False, w_siginfo = []\<rparr>
       (idle_server\<lparr>mailboxes := [mailbox_init (3, 4) (\<lambda>i. sample_message), mailbox_init (8, 10) (\<lambda>i. sample_message)]\<rparr>) =
       Some (\<lparr>w_accepts = 0, w_running = True, w_quit = False, w_siginfo = []\<rparr>, s') \<and>
     ap_childfd p = 9 \<and> ap_ctx p = 1 \<and> ap_elfd p = 6 \<and>
     mail_locked (\<lambda>n. Some (\<lambda>i. sample_message)) (mailbox_init (8, 10) (\<lambda>i. sample_message))
       (accept_message \<lparr>sv_id = 0, sv_els = [5, 6], sv_sigfd = 3, sv_selfpipe = 4\<rparr> p) = Some (r, mb', wk) \<and>
     mailboxes s' = [mailbox_init (3, 4) (\<lambda>i. sample_message), mb']"
proof -
  let ?env = "(const_env 9)\<lparr>heap := \<lambda>h n. Some (\<lambda>i. sample_message)\<rparr>"
  let ?cfg = "\<lparr>sv_id = 0, sv_els = [5, 6], sv_sigfd = 3, sv_selfpipe = 4\<rparr>"
  let ?w = "\<lparr>w_accepts = 1, w_running = True, w_quit = False, w_siginfo = []\<rparr>"
  let ?s = "idle_server\<lparr>mailboxes := [mailbox_init (3, 4) (\<lambda>i. sample_message), mailbox_init (8, 10) (\<lambda>i. sample_message)]\<rparr>"
  let ?p = "accepted_params ?cfg 1 7 9 []"
  have ans: "answers ?env h = answers (const_env 9) h" for h by simp
  obtain mb where "mail_locked (\<lambda>n. Some (\<lambda>i. sample_message)) (mailbox_init (8, 10) (\<lambda>i. sample_message))
      (accept_message ?cfg ?p) = Some (0, mb, [S80_SIGNAL_MAIL])"
    using mailbox_init_mail by blast
  then have "\<exists>s'. accept_event ?env ?cfg 7 ?w ?s =
      Some (\<lparr>w_accepts = 0, w_running = True, w_quit = False, w_siginfo = []\<rparr>, s')"
    by (simp add: accept_event_def act_split Let_def hand_over_def s80_mail_def
        s80_acquire_mailbox_def s80_enable_async_def)
  then obtain s' where s': "accept_event ?env ?cfg 7 ?w ?s =
      Some (\<lparr>w_accepts = 0, w_running = True, w_quit = False, w_siginfo = []\<rparr>, s')" by blast
  obtain p r mb' wk where "ap_childfd p = 9 \<and> ap_ctx p = w_accepts ?w \<and>
      ap_elfd p = sv_els ?cfg ! w_accepts ?w \<and> ap_parentfd p = 7 \<and> ap_fdtype p = S80_FD_SOCKET \<and>
      length (ap_address p) \<le> 64 \<and>
      mail_locked (heap ?env (hist ?s @ [AAccept 7, ANonblock 9, AAcquire (w_accepts ?w)]))
        (mailboxes ?s ! w_accepts ?w) (accept_message ?cfg p) = Some (r, mb', wk) \<and>
      mailboxes s' = (mailboxes ?s)[w_accepts ?w := mb']"
    using accept_event_hands_over [OF _ _ _ s', of 9] by auto
  then show ?thesis using s' by (intro exI [of _ s'] exI [of _ p] exI [of _ r] exI [of _ mb'] exI [of _ wk]) simp
qed

section \<open>Working off mail\<close>

text \<open>
  What a message asks for: the actions before the callback, and the callback with its arguments;
  \<^verbatim>\<open>None\<close> if the block of the message is not what its type says.
\<close>

definition mail_call :: "config \<Rightarrow> mailbox_message \<Rightarrow> (action list \<times> nat \<times> string \<times> lua_value list) option" where
  "mail_call cfg msg =
     (if mtype msg = S80_MB_READ then
        (case message msg of
           PRead p \<Rightarrow> if 0 \<le> rp_readlen p \<and> rp_readlen p \<le> int (length (rp_buf p))
             then Some ([], rp_ctx p, ''on_data'', [fd_to_void (rp_elfd p), fd_to_void (rp_childfd p),
               fd_to_void (rp_fdtype p), LStr (take (nat (rp_readlen p)) (rp_buf p)), LInt (rp_readlen p)])
             else None
         | _ \<Rightarrow> None)
      else if mtype msg = S80_MB_WRITE then
        (case message msg of
           PWrite p \<Rightarrow> Some ([], wp_ctx p, ''on_write'', [fd_to_void (wp_elfd p), fd_to_void (wp_childfd p),
             LInt (wp_written p)])
         | _ \<Rightarrow> None)
      else if mtype msg = S80_MB_CLOSE then
        (case message msg of
           PClose p \<Rightarrow> Some ([], cp_ctx p, ''on_close'', [fd_to_void (cp_elfd p), fd_to_void (cp_childfd p)])
         | _ \<Rightarrow> None)
      else if mtype msg = S80_MB_ACCEPT then
        (case message msg of
           PAccept p \<Rightarrow> Some ([AEpollCtl (sv_elfd cfg) EPOLL_CTL_ADD (ap_childfd p) EPOLLIN
               (SET_FD_HOLDER (ap_fdtype p) (ap_childfd p))],
             ap_ctx p, ''on_accept'', [fd_to_void (ap_elfd p), fd_to_void (ap_parentfd p),
               fd_to_void (ap_childfd p), fd_to_void (ap_fdtype p)])
         | _ \<Rightarrow> None)
      else
        map_option (\<lambda>bs. ([], sv_id cfg, ''on_message'', [LInt (sender_id msg), fd_to_void (sender_elfd msg),
             fd_to_void (sender_fd msg), fd_to_void (sv_elfd cfg), fd_to_void (receiver_fd msg),
             LInt (mtype msg), LStr bs])) (message_bytes msg))"

text \<open>
  One message worked off from \<open>s\<close> to \<open>t\<close>: the callback is called once, whatever it does with the library
  happens on the state it finds, and then the block is freed.  A sequence of messages hands the state on.
\<close>

definition handled :: "env \<Rightarrow> config \<Rightarrow> mailbox_message \<Rightarrow> server \<Rightarrow> server \<Rightarrow> bool" where
  "handled env cfg msg s t \<longleftrightarrow>
     (\<exists>before L name args called left.
        mail_call cfg msg = Some (before, L, name, args) \<and>
        called = log_act env (APcall L name args) (fold (log_act env) before s) \<and>
        run_lua env L (a_plan (answers env (hist called))) called = Some left \<and>
        t = (if message msg = PNull then left else log_act env (AFree (message msg)) left))"

primrec worked_off :: "env \<Rightarrow> config \<Rightarrow> mailbox_message list \<Rightarrow> server \<Rightarrow> server \<Rightarrow> bool" where
  "worked_off env cfg [] s s' \<longleftrightarrow> s' = s"
| "worked_off env cfg (msg # msgs) s s' \<longleftrightarrow> (\<exists>t. handled env cfg msg s t \<and> worked_off env cfg msgs t s')"

lemma pcall_run:
  "pcall env (run_lua env L) L' name args s =
    run_lua env L (a_plan (answers env (hist (log_act env (APcall L' name args) s)))) (log_act env (APcall L' name args) s)"
  by (simp add: pcall_def act_split)

lemma dispatch_mail_call:
  "dispatch_mail env cfg msg s =
    (case mail_call cfg msg of
       None \<Rightarrow> None
     | Some (before, L, name, args) \<Rightarrow> pcall env (run_lua env L) L name args (fold (log_act env) before s))"
  by (auto simp: mail_call_def dispatch_mail_def on_receive_def on_write_def on_close_def
      accept_mail_def on_accept_def on_message_def split: if_splits payload.splits option.splits)

lemma dispatch_handled:
  "(\<exists>s1. dispatch_mail env cfg msg s = Some s1 \<and> t = (if message msg = PNull then s1 else log_act env (AFree (message msg)) s1)) \<longleftrightarrow>
    handled env cfg msg s t"
  by (auto simp: dispatch_mail_call handled_def pcall_run split: option.splits)

lemma deliver_worked_off: "deliver_mail env cfg msgs s = Some s' \<longleftrightarrow> worked_off env cfg msgs s s'"
proof (induction msgs arbitrary: s)
  case (Cons m msgs)
  have "deliver_mail env cfg (m # msgs) s = Some s' \<longleftrightarrow>
      (\<exists>s1. dispatch_mail env cfg m s = Some s1 \<and>
        worked_off env cfg msgs (if message m = PNull then s1 else log_act env (AFree (message m)) s1) s')"
    by (simp only: deliver_mail.simps bind_eq_Some_conv Cons.IH)
  also have "\<dots> \<longleftrightarrow> worked_off env cfg (m # msgs) s s'"
    by (simp only: worked_off.simps dispatch_handled [symmetric]) blast
  finally show ?case .
qed auto

text \<open>
  C7. Resolving mail empties and rearms the mailbox in one critical section, and then, with the lock
  free again, works off every message exactly once and in order: each is handed to the callback of its
  type with the sender's own parameters (a new connection is registered first), and its block is freed
  right after.  Each callback, which may use the library as it likes, runs on the state the one before
  left, and nothing is changed after the last one: mail that is sent meanwhile, to this worker too,
  stays in its mailbox.  The only ways not to return are a message whose block is not what its type
  says and a callback that faults.
\<close>

theorem resolve_mail_delivers:
  assumes "mailbox_wf mb" and "mb = mailboxes s ! sv_id cfg"
    and "heap env (hist s @ [AAcquire (sv_id cfg)]) (mb_size mb) \<noteq> None"
  shows "\<exists>emptied. hist emptied = hist s @ [AAcquire (sv_id cfg), ARelease (sv_id cfg)] \<and>
    mailboxes emptied = (mailboxes s)[sv_id cfg := mb\<lparr>mb_size := 0, mb_signaled := False\<rparr>] \<and>
    (\<forall>s'. resolve_mail env cfg s = Some s' \<longleftrightarrow> worked_off env cfg (mailbox_queue mb) emptied s')"
proof -
  let ?s1 = "s80_acquire_mailbox env (sv_id cfg) s"
  let ?mb = "mb\<lparr>mb_size := 0, mb_signaled := False\<rparr>"
  let ?s2 = "s80_release_mailbox env (sv_id cfg) (?s1\<lparr>mailboxes := (mailboxes ?s1)[sv_id cfg := ?mb]\<rparr>)"
  have s1: "hist ?s1 = hist s @ [AAcquire (sv_id cfg)]" "mailboxes ?s1 = mailboxes s"
    by (simp_all add: s80_acquire_mailbox_def)
  have "take_mail (heap env (hist ?s1)) mb = Some (mailbox_queue mb, ?mb)"
    using take_mail_step [OF assms(1), of "heap env (hist ?s1)"] assms(3) s1 by auto
  then have "resolve_mail env cfg s = deliver_mail env cfg (mailbox_queue mb) ?s2"
    using assms(2) s1 by (simp add: resolve_mail_def Let_def)
  then show ?thesis
    by (intro exI [of _ ?s2]) (simp add: s80_release_mailbox_def s1 deliver_worked_off)
qed

theorem resolve_mail_delivers_witness:
  "\<exists>emptied s'. resolve_mail ((const_env 1)\<lparr>heap := \<lambda>h n. Some (\<lambda>i. sample_message)\<rparr>) sample_config
       (idle_server\<lparr>mailboxes := [\<lparr>mb_pipes = (3, 4), mb_signaled = True,
          mb_messages = Some [sample_message, sample_message], mb_size = 1, mb_reserved = 2\<rparr>]\<rparr>) = Some s' \<and>
     mailboxes emptied = [\<lparr>mb_pipes = (3, 4), mb_signaled = False,
          mb_messages = Some [sample_message, sample_message], mb_size = 0, mb_reserved = 2\<rparr>] \<and>
     worked_off ((const_env 1)\<lparr>heap := \<lambda>h n. Some (\<lambda>i. sample_message)\<rparr>) sample_config [sample_message] emptied s'"
proof -
  let ?env = "(const_env 1)\<lparr>heap := \<lambda>h n. Some (\<lambda>i. sample_message)\<rparr>"
  let ?mb = "\<lparr>mb_pipes = (3, 4), mb_signaled = True,
          mb_messages = Some [sample_message, sample_message], mb_size = 1, mb_reserved = 2\<rparr>"
  let ?s = "idle_server\<lparr>mailboxes := [?mb]\<rparr>"
  have queue: "mailbox_queue ?mb = [sample_message]" by (simp add: mailbox_queue_def)
  have "\<exists>t. handled ?env sample_config sample_message e t" for e
    by (simp add: handled_def mail_call_def sample_message_def message_bytes_def)
  then have all: "\<exists>s'. worked_off ?env sample_config [sample_message] e s'" for e by simp
  have "\<exists>emptied. hist emptied = hist ?s @ [AAcquire (sv_id sample_config), ARelease (sv_id sample_config)] \<and>
    mailboxes emptied = (mailboxes ?s)[sv_id sample_config := ?mb\<lparr>mb_size := 0, mb_signaled := False\<rparr>] \<and>
    (\<forall>s'. resolve_mail ?env sample_config ?s = Some s' \<longleftrightarrow> worked_off ?env sample_config (mailbox_queue ?mb) emptied s')"
    by (rule resolve_mail_delivers) (simp_all add: mailbox_wf_def sample_config_def)
  then obtain emptied where e: "mailboxes emptied = (mailboxes ?s)[sv_id sample_config := ?mb\<lparr>mb_size := 0, mb_signaled := False\<rparr>]"
    "\<And>s'. resolve_mail ?env sample_config ?s = Some s' \<longleftrightarrow> worked_off ?env sample_config [sample_message] emptied s'"
    unfolding queue by blast
  obtain s' where "worked_off ?env sample_config [sample_message] emptied s'" using all by blast
  then show ?thesis using e by (intro exI [of _ emptied] exI [of _ s']) (simp add: sample_config_def)
qed

text \<open>
  The message type comes from the Lua program unchecked, next to the types the server itself
  uses for connection events: a string sent with one of those types is cast to the parameter
  structure of the event, and what the receiver then does is outside the language.
\<close>

theorem mail_type_confusion:
  assumes "mtype msg \<in> {S80_MB_ACCEPT, S80_MB_READ, S80_MB_WRITE, S80_MB_CLOSE}"
    and "message msg = PBytes bs"
  shows "dispatch_mail env cfg msg s = None"
  using assms by (auto simp: dispatch_mail_def)

theorem mail_type_confusion_witness:
  "dispatch_mail env cfg (sample_message\<lparr>mtype := S80_MB_CLOSE\<rparr>) s = None"
  by (rule mail_type_confusion [of _ "[104, 105]"]) (simp_all add: sample_message_def)

section \<open>No branch gets stuck\<close>

text \<open>The history only grows; this bounds the loops over the kernel's answers.\<close>

definition grows :: "server \<Rightarrow> server \<Rightarrow> bool" where
  "grows s s' \<longleftrightarrow> prefix (hist s) (hist s')"

named_theorems grows_intros "steps that extend the history"

lemma grows_refl [simp, intro]: "grows s s"
  by (simp add: grows_def)

lemma grows_trans: "grows s s1 \<Longrightarrow> grows s1 s2 \<Longrightarrow> grows s s2"
  by (auto simp: grows_def)

lemma grows_log [grows_intros]: "grows s s1 \<Longrightarrow> grows s (log_act env a s1)"
  by (simp add: grows_def)

lemma grows_updates [simp]:
  "grows s (s1\<lparr>c_errno := e\<rparr>) = grows s s1" "grows s (s1\<lparr>mailboxes := mbs\<rparr>) = grows s s1"
  "grows s (s1\<lparr>rl_ready := i\<rparr>) = grows s s1" "grows s (s1\<lparr>rl_running := i\<rparr>) = grows s s1"
  by (simp_all add: grows_def)

lemma apart_grows: "apart f s s' \<Longrightarrow> grows s s'"
  by (auto simp: apart_def grows_def)

lemma pcall_grows:
  assumes "pcall env run L name args s = Some s'" and "\<And>p t t'. run p t = Some t' \<Longrightarrow> grows t t'"
  shows "grows s s'"
  using assms(1) assms(2) [of _ "log_act env (APcall L name args) s" s']
    grows_trans [OF grows_log [OF grows_refl], of env "APcall L name args" s s']
  by (auto simp: pcall_def act_split)

lemma close_grows:
  assumes "s80_close env run L e g t cb s = Some (r, s')" and "\<And>p t t'. run p t = Some t' \<Longrightarrow> grows t t'"
  shows "grows s s'"
proof -
  let ?del = "AEpollCtl e EPOLL_CTL_DEL g (EPOLLIN OR EPOLLOUT) (SET_FD_HOLDER t g)"
  let ?s2 = "log_act env (AClose g) (log_act env ?del s)"
  have "grows s ?s2" by (auto intro!: grows_intros)
  moreover have "pcall env run L ''on_close'' [fd_to_void e, fd_to_void g] ?s2 = Some s' \<Longrightarrow> grows ?s2 s'"
    by (erule pcall_grows) (rule assms(2))
  ultimately show ?thesis
    using assms(1)
    by (auto simp: s80_close_def act_split Let_def on_close_def map_option_Pair
        intro!: grows_intros intro: grows_trans split: if_splits)
qed

lemma on_message_grows:
  assumes "on_message env run ctx e m s = Some s'" and "\<And>p t t'. run p t = Some t' \<Longrightarrow> grows t t'"
  shows "grows s s'"
  using assms(1) pcall_grows [OF _ assms(2)]
  by (auto simp: on_message_def split: Option.bind_splits)

lemma popen_grows: "grows s (snd (s80_popen env e cmd args s))"
proof -
  have all: "grows s (close_all env fds t)" if "grows s t" for fds t
    using that by (auto simp: grows_def close_all_hist)
  have cl: "grows s (cleanup_pipes env e ps n t)" if "grows s t" for ps n t
  proof -
    have "grows s (fold (\<lambda>i s. if i < 2 then log_act env (AEpollCtl e EPOLL_CTL_DEL (ps ! i)
        (if i = 0 then EPOLLIN else EPOLLOUT) (SET_FD_HOLDER S80_FD_PIPE (ps ! i))) s else s) is t)" for "is"
      using that by (induction "is" arbitrary: t) (simp_all add: grows_log)
    then show ?thesis by (simp add: cleanup_pipes_def)
  qed
  have reg: "grows s (snd (register_pipe env e ps i t))" if "grows s t" for ps i t
    using that by (auto simp: register_pipe_def s80_enable_async_def act_split Let_def
        intro!: all cl grows_intros)
  have frk: "grows s (snd (popen_fork env e ps cmd args t))" if "grows s t" for ps t
    using that by (auto simp: popen_fork_def act_split Let_def intro!: all cl grows_intros)
  show ?thesis
    by (auto simp: s80_popen_def act_split Let_def case_prod_beta intro!: all reg frk grows_intros)
qed

lemma outcome_grows:
  "(\<And>r s'. m = Some (r, s') \<Longrightarrow> grows s s') \<Longrightarrow> grows s (snd (outcome s m))"
  by (cases m) (auto simp: outcome_def)

lemma netlib_grows:
  assumes "\<And>p t t'. run p t = Some t' \<Longrightarrow> grows t t'"
  shows "grows s (snd (netlib env run L name args s))"
proof -
  have "grows s (snd (l_net_close env run L args s))"
    unfolding l_net_close_def
    by (auto split: list.splits lua_value.splits intro!: outcome_grows dest: close_grows [OF _ assms])
  moreover have "grows s (snd (l_net_popen env args s))"
  proof -
    have "grows s t" if "s80_popen env e cmd argv s = (r, t)" for e cmd argv r t
      using popen_grows [of s env e cmd argv] that by simp
    then show ?thesis unfolding l_net_popen_def
      by (auto split: list.splits lua_value.splits popen_result.splits prod.splits)
  qed
  moreover have "grows s (snd (l_net_reload env run args s))"
  proof -
    have "grows s (log_act env (AOther nm vs) s)" for nm vs by (auto intro!: grows_intros)
    then have "grows s (snd (outcome s (map_option (\<lambda>s'. (r, s')) (run pl (log_act env (AOther nm vs) s)))))"
      for r pl nm vs
      by (intro outcome_grows) (auto dest: assms intro: grows_trans)
    moreover have "grows s (fold (signal_worker env b) is s)" for b "is"
      by (rule apart_grows [OF signal_workers_apart [where f = 0]])
    ultimately show ?thesis
      by (auto simp: l_net_reload_def s80_reload_def Let_def act_split
          split: list.splits lua_value.splits)
  qed
  moreover have "grows s (snd (l_net_mail env run L args s))"
  proof -
    have "grows s s'" if "l_net_mail_send env run L tid msg s = Some (r, s')" for tid msg r s'
      using that by (auto simp: l_net_mail_send_def split: if_splits
          intro!: grows_intros dest: mail_apart [THEN apart_grows] on_message_grows [OF _ assms])
    then show ?thesis
      by (auto simp: l_net_mail_def Let_def split: list.splits lua_value.splits Option.bind_splits
          intro!: outcome_grows)
  qed
  ultimately show ?thesis
    using l_net_write_apart [THEN apart_grows] l_net_connect_apart [THEN apart_grows]
      l_net_sockname_apart [THEN apart_grows] l_net_quit_apart [THEN apart_grows]
    by (simp add: netlib_def)
qed

lemma run_lua_grows: "run_lua env L ops s = Some s' \<Longrightarrow> grows s s'"
proof (induction env L ops s arbitrary: s' rule: run_lua.induct)
  case (2 env L name args plan ops s)
  let ?run = "\<lambda>p. run_lua env L plan"
  have first: "grows s (snd (netlib env ?run L name args s))"
    by (rule netlib_grows) (rule "2.IH"(1))
  obtain r s1 where r: "netlib env ?run L name args s = (r, s1)" by fastforce
  have "grows s1 s'" using "2.IH"(2,3) r "2.prems" by (cases r) auto
  then show ?case using first r by (auto intro: grows_trans)
qed simp

text \<open>
  What a branch relies on: the Lua callbacks use the library without faults, and reading the
  descriptor eventually gives an error or the end of its data.
\<close>

definition harmless :: "env \<Rightarrow> bool" where
  "harmless env \<longleftrightarrow> (\<forall>L h s. run_lua env L (a_plan (answers env h)) s \<noteq> None)"

definition runs_dry :: "env \<Rightarrow> fd \<Rightarrow> nat \<Rightarrow> bool" where
  "runs_dry env f n \<longleftrightarrow> (\<forall>h. n \<le> length h \<longrightarrow>
     a_ret (answers env (h @ [ARead f BUFSIZE])) < 0 \<or> a_bytes (answers env (h @ [ARead f BUFSIZE])) = [])"

lemma pcall_harmless: "harmless env \<Longrightarrow> \<exists>s'. pcall env (run_lua env L) L' name args s = Some s' \<and>
    grows (log_act env (APcall L' name args) s) s'"
proof -
  assume "harmless env"
  then obtain s' where "run_lua env L (a_plan (answers env (hist s @ [APcall L' name args])))
      (log_act env (APcall L' name args) s) = Some s'"
    unfolding harmless_def by blast
  then show ?thesis using run_lua_grows by (auto simp: pcall_def act_split)
qed

lemma received_harmless: "harmless env \<Longrightarrow> \<exists>s'. received env cfg ty f bs s = Some s' \<and> length (hist s) < length (hist s')"
proof -
  assume h: "harmless env"
  let ?args = "[fd_to_void (sv_elfd cfg), fd_to_void f, fd_to_void ty, LStr bs, LInt (int (length bs))]"
  obtain s' where "pcall env (run_lua env (sv_id cfg)) (sv_id cfg) ''on_data'' ?args s = Some s'"
      "grows (log_act env (APcall (sv_id cfg) ''on_data'' ?args) s) s'"
    using pcall_harmless [OF h] by blast
  then show ?thesis
    by (auto simp: received_def on_receive_def grows_def dest: prefix_length_le)
qed

lemma drop_child_harmless: "harmless env \<Longrightarrow> \<exists>s'. drop_child env cfg ty f s = Some s'"
  using pcall_harmless [of env] by (fastforce simp: drop_child_def on_close_def)

lemma drain_pipe_ends:
  assumes "harmless env" and "runs_dry env f n"
  shows "\<exists>s'. drain_pipe env cfg ty f s = Some s'"
proof (induction "n - length (hist s)" arbitrary: s rule: less_induct)
  case less
  obtain r bs s1 where r: "sys_read env f BUFSIZE s = (r, bs, s1)"
    by (cases "sys_read env f BUFSIZE s") auto
  then have h1: "hist s1 = hist s @ [ARead f BUFSIZE]"
    by (auto simp: sys_read_def act_split Let_def split: if_splits)
  show ?case
  proof (cases "ty = S80_FD_PIPE \<and> 0 < r")
    case False
    then show ?thesis using r by (subst drain_pipe.simps) auto
  next
    case True
    have "\<not> n \<le> length (hist s)"
    proof
      assume "n \<le> length (hist s)"
      then have "r \<le> 0"
        using assms(2) r unfolding runs_dry_def
        by (fastforce simp: sys_read_def act_split Let_def split: if_splits)
      then show False using True by simp
    qed
    moreover obtain s2 where s2: "received env cfg ty f bs s1 = Some s2" "length (hist s1) < length (hist s2)"
      using received_harmless [OF assms(1)] by blast
    ultimately have "n - length (hist s2) < n - length (hist s)" using h1 by simp
    from less [OF this] show ?thesis using True r s2 by (subst drain_pipe.simps) (simp add: Let_def)
  qed
qed

text \<open>
  C8. With callbacks that use the library without faults and a descriptor whose data ends, handling
  an event of a connection or pipe ends, the loop that reads the rest of a hung-up pipe included,
  and touches no memory it does not own.
\<close>

theorem child_event_ends:
  assumes "harmless env" and "runs_dry env f n"
  shows "child_event env cfg flags ty f s \<noteq> None"
proof -
  have w: "\<exists>t'. writable_step env cfg ty f t = Some t'" for t
    using pcall_harmless [OF assms(1)] by (fastforce simp: writable_step_def on_write_def Let_def)
  have r: "\<exists>c t'. readable_step env cfg ty f t = Some (c, t')" for t
  proof -
    obtain q bs t1 where "sys_read env f BUFSIZE t = (q, bs, t1)"
      by (cases "sys_read env f BUFSIZE t") auto
    moreover obtain t2 t3 where "received env cfg ty f bs t1 = Some t2" "drop_child env cfg ty f t1 = Some t3"
      using received_harmless [OF assms(1)] drop_child_harmless [OF assms(1)] by metis
    ultimately show ?thesis by (cases "q \<le> 0") (auto simp: readable_step_def)
  qed
  have fin: "\<exists>x. Option.bind (drain_pipe env cfg ty f t)
      (\<lambda>s3. map_option (Pair True) (drop_child env cfg ty f s3)) = Some x" for t
  proof -
    obtain t1 where "drain_pipe env cfg ty f t = Some t1" using drain_pipe_ends [OF assms] by blast
    moreover obtain t2 where "drop_child env cfg ty f t1 = Some t2"
      using drop_child_harmless [OF assms(1)] by blast
    ultimately show ?thesis by (intro exI [of _ "(True, t2)"]) simp
  qed
  obtain s1 where s1: "(if flags AND EPOLLOUT = EPOLLOUT then writable_step env cfg ty f s else Some s) = Some s1"
    using w [of s] by (cases "flags AND EPOLLOUT = EPOLLOUT") auto
  obtain c s2 where "(if flags AND EPOLLIN = EPOLLIN \<and> is_fd_ready f ty
      then readable_step env cfg ty f s1 else Some (False, s1)) = Some (c, s2)"
    using r [of s1] by (cases "flags AND EPOLLIN = EPOLLIN \<and> is_fd_ready f ty") auto
  then show ?thesis
    unfolding child_event_def s1 using fin [of s2] by auto
qed

theorem child_event_ends_witness:
  "child_event (const_env 0) sample_config (EPOLLIN OR EPOLLHUP) S80_FD_PIPE 9 idle_server \<noteq> None"
  by (rule child_event_ends [of _ _ 0]) (simp_all add: harmless_def runs_dry_def)

end
