(* ===== verification/Serve_Entry.thy ===== *)
theory Serve_Entry
  imports Lua_State Reload_Barrier Serve
begin

text \<open>
  The beginning and the end of \<open>serve\<close> of \<^verbatim>\<open>src/80s/serve.epoll.c\<close>: a worker that starts opens
  its descriptors and its Lua state, one that comes back after a reload finds them, then the
  modules are told and the loop of \<open>Event_Loop\<close> runs.
\<close>

text \<open>
  The fields \<open>ctx\<close> and \<open>elfd\<close> of the parameter structures, which live on the stack of \<open>serve\<close>:
  \<open>None\<close> before they are assigned.
\<close>

record frame =
  fr_elfd :: "fd option"
  fr_ctx :: "nat option"

definition fresh_frame :: frame where
  "fresh_frame = \<lparr>fr_elfd = None, fr_ctx = None\<rparr>"

text \<open>A call that ends the process when it fails.\<close>

definition must :: "string \<Rightarrow> answer \<times> server \<Rightarrow> (answer \<times> server) outcome" where
  "must msg r = (if a_ret (fst r) < 0 then Some (Inl msg) else Some (Inr r))"

definition epoll_add :: "env \<Rightarrow> fd \<Rightarrow> int \<Rightarrow> fd \<Rightarrow> server \<Rightarrow> answer \<times> server" where
  "epoll_add env elfd ty f s = act env (AEpollCtl elfd EPOLL_CTL_ADD f EPOLLIN (SET_FD_HOLDER ty f)) s"

text \<open>The first worker also polls the server socket and the signal descriptor; the result is the latter.\<close>

definition serve_accepting :: "env \<Rightarrow> fd \<Rightarrow> fd \<Rightarrow> server \<Rightarrow> (fd \<times> server) outcome" where
  "serve_accepting env elfd parentfd s =
     andthen (must ''serve: failed to add server socket to epoll''
         (epoll_add env elfd S80_FD_SERVER_SOCKET parentfd (s80_enable_async env parentfd s))) (\<lambda>(_, s1).
     andthen (must ''serve: failed to create sigprocmask'' (os_call env ''sigprocmask'' [] s1)) (\<lambda>(_, s2).
     andthen (must ''serve: failed to create signal fd'' (os_call env ''signalfd'' [LInt (- 1)] s2)) (\<lambda>(a, s3).
     andthen (must ''serve: failed to add signal fd to epoll'' (epoll_add env elfd S80_FD_OTHER (a_ret a) s3)) (\<lambda>(_, s4).
     Some (Inr (a_ret a, s4))))))"

text \<open>What a worker keeps over its calls of \<open>serve\<close>: its epoll descriptor, its signal descriptor, its Lua state.\<close>

record worker_slot =
  ws_elfd :: fd
  ws_sigfd :: fd
  ws_vm :: "lua_vm option"

definition worker_node :: "serve_params \<Rightarrow> node_id" where
  "worker_node p =
     \<lparr>nd_id = int (sp_workerid p), nd_port = sp_port p,
      nd_name = (case sp_name p of None \<Rightarrow> [] | Some n \<Rightarrow> n)\<rparr>"

text \<open>The Lua state is made last; \<open>mk\<close> is \<open>create_context\<close> with the build and the memory fixed.\<close>

definition serve_first :: "env \<Rightarrow> (fd \<Rightarrow> server \<Rightarrow> (lua_vm option \<times> server) option) \<Rightarrow> serve_params \<Rightarrow> worker_slot \<Rightarrow> server \<Rightarrow>
    (frame \<times> serve_params \<times> worker_slot \<times> server) outcome" where
  "serve_first env mk p slot s =
     (let id = sp_workerid p; selfpipe = fst (mb_pipes (mailboxes s ! id));
          s1 = snd (os_call env ''signal'' [LStr (cstr ''SIGPIPE'')] (s80_enable_async env selfpipe s)) in
      andthen (must ''serve: failed to create epoll'' (os_call env ''epoll_create1'' [LInt 0] s1)) (\<lambda>(a, s2).
      andthen (must ''serve: failed to add self pipe to epoll'' (epoll_add env (a_ret a) S80_FD_PIPE selfpipe s2)) (\<lambda>(_, s3).
      andthen (if id = 0 \<and> 0 \<le> sp_parentfd p then serve_accepting env (a_ret a) (sp_parentfd p) s3
               else Some (Inr (ws_sigfd slot, snd (os_call env ''signal'' [LStr (cstr ''SIGCHLD'')] s3)))) (\<lambda>(sigfd, s4).
        case mk (a_ret a) s4 of
          None \<Rightarrow> None
        | Some (None, s5) \<Rightarrow> Some (Inl ''failed to initialize context'')
        | Some (Some vm, s5) \<Rightarrow>
            map_option (\<lambda>s6. Inr (\<lparr>fr_elfd = Some (a_ret a), fr_ctx = Some id\<rparr>, p\<lparr>sp_initialized := True\<rparr>,
                \<lparr>ws_elfd = a_ret a, ws_sigfd = sigfd, ws_vm = Some vm\<rparr>, s6))
              (on_init env (run_lua env id) \<lparr>ip_ctx = id, ip_elfd = a_ret a, ip_parentfd = sp_parentfd p\<rparr> s5)))))"

text \<open>After a reload only the Lua state is refreshed; the structures on the stack stay as they are.\<close>

definition serve_entry :: "env \<Rightarrow> lua_build \<Rightarrow> allocator \<Rightarrow> (nat \<Rightarrow> byte) \<Rightarrow> nat \<Rightarrow> serve_params \<Rightarrow> worker_slot \<Rightarrow> server \<Rightarrow>
    (frame \<times> bool \<times> serve_params \<times> worker_slot \<times> server) outcome" where
  "serve_entry env b A stk reload p slot s =
     (if length (mailboxes s) \<le> sp_workerid p then None
      else if \<not> sp_initialized p then
        andthen (serve_first env
            (\<lambda>elfd. create_context env b (run_lua env (sp_workerid p)) A stk elfd (worker_node p) (sp_entrypoint p)
               (sp_workers p) reload) p slot s)
          (\<lambda>(fr, p1, slot1, s1). Some (Inr (fr, False, p1, slot1, s1)))
      else
        (case ws_vm slot of
           None \<Rightarrow> None
         | Some vm \<Rightarrow>
             map_option (\<lambda>(vm1, s1). Inr (fresh_frame, True, p, slot\<lparr>ws_vm := Some vm1\<rparr>, s1))
               (refresh_context env b (run_lua env (sp_workerid p)) A stk vm (ws_elfd slot) (worker_node p)
                  (sp_entrypoint p) (sp_workers p) reload s)))"

text \<open>The modules that have the entry point are called, with the flag the code passes.\<close>

definition module_calls :: "env \<Rightarrow> string \<Rightarrow> (module_ext \<Rightarrow> int) \<Rightarrow> bool \<Rightarrow> module_ext list \<Rightarrow> server \<Rightarrow> server" where
  "module_calls env name f flag ms s =
     fold (\<lambda>m s. if f m \<noteq> 0 then snd (os_call env name [LInt (f m), LBool flag] s) else s) ms s"

definition slot_config :: "serve_params \<Rightarrow> worker_slot \<Rightarrow> fd list \<Rightarrow> server \<Rightarrow> config" where
  "slot_config p slot els s =
     \<lparr>sv_id = sp_workerid p, sv_els = els[sp_workerid p := ws_elfd slot], sv_sigfd = ws_sigfd slot,
      sv_selfpipe = fst (mb_pipes (mailboxes s ! sp_workerid p))\<rparr>"

text \<open>
  The steps of an event of a connection or a pipe, with the structures as they are passed to the
  callbacks: reading a field that was never assigned is a fault.
\<close>

definition with_frame :: "frame \<Rightarrow> (nat \<Rightarrow> fd \<Rightarrow> 'a option) \<Rightarrow> 'a option" where
  "with_frame fr callback = Option.bind (fr_ctx fr) (\<lambda>ctx. Option.bind (fr_elfd fr) (callback ctx))"

definition framed_writable :: "env \<Rightarrow> frame \<Rightarrow> config \<Rightarrow> int \<Rightarrow> fd \<Rightarrow> server \<Rightarrow> server option" where
  "framed_writable env fr cfg fdtype childfd s =
     (let s1 = (if fdtype \<noteq> S80_FD_PIPE then
          log_act env (AEpollCtl (sv_elfd cfg) EPOLL_CTL_MOD childfd EPOLLIN
            (SET_FD_HOLDER fdtype childfd)) s else s)
      in with_frame fr (\<lambda>ctx elfd. on_write env (run_lua env ctx)
           \<lparr>wp_ctx = ctx, wp_elfd = elfd, wp_childfd = childfd, wp_written = 0\<rparr> s1))"

definition framed_drop :: "env \<Rightarrow> frame \<Rightarrow> config \<Rightarrow> int \<Rightarrow> fd \<Rightarrow> server \<Rightarrow> server option" where
  "framed_drop env fr cfg fdtype childfd s =
     with_frame fr (\<lambda>ctx elfd. on_close env (run_lua env ctx)
       \<lparr>cp_ctx = ctx, cp_elfd = elfd, cp_childfd = childfd\<rparr>
       (log_act env (AClose childfd)
         (log_act env (AEpollCtl (sv_elfd cfg) EPOLL_CTL_DEL childfd (EPOLLIN OR EPOLLOUT)
            (SET_FD_HOLDER fdtype childfd)) s)))"

definition framed_received :: "env \<Rightarrow> frame \<Rightarrow> int \<Rightarrow> fd \<Rightarrow> byte list \<Rightarrow> server \<Rightarrow> server option" where
  "framed_received env fr fdtype childfd buf s =
     with_frame fr (\<lambda>ctx elfd. on_receive env (run_lua env ctx)
       \<lparr>rp_ctx = ctx, rp_elfd = elfd, rp_childfd = childfd, rp_fdtype = fdtype,
        rp_buf = buf, rp_readlen = int (length buf)\<rparr> s)"

definition framed_readable :: "env \<Rightarrow> frame \<Rightarrow> config \<Rightarrow> int \<Rightarrow> fd \<Rightarrow> server \<Rightarrow> (bool \<times> server) option" where
  "framed_readable env fr cfg fdtype childfd s =
     (let (readlen, buf, s1) = sys_read env childfd BUFSIZE s in
      if readlen \<le> 0 then map_option (Pair True) (framed_drop env fr cfg fdtype childfd s1)
      else map_option (Pair False) (framed_received env fr fdtype childfd buf s1))"

partial_function (option) framed_drain :: "env \<Rightarrow> frame \<Rightarrow> int \<Rightarrow> fd \<Rightarrow> server \<Rightarrow> server option" where
  "framed_drain env fr fdtype childfd s =
     (if fdtype = S80_FD_PIPE then
        (let r = sys_read env childfd BUFSIZE s in
         if fst r \<le> 0 then Some (snd (snd r))
         else Option.bind (framed_received env fr fdtype childfd (fst (snd r)) (snd (snd r)))
                (framed_drain env fr fdtype childfd))
      else Some s)"

definition framed_child :: "env \<Rightarrow> frame \<Rightarrow> config \<Rightarrow> 32 word \<Rightarrow> int \<Rightarrow> fd \<Rightarrow> server \<Rightarrow> (bool \<times> server) option" where
  "framed_child env fr cfg flags fdtype childfd s =
     Option.bind
       (if flags AND EPOLLOUT = EPOLLOUT then framed_writable env fr cfg fdtype childfd s else Some s)
       (\<lambda>s1. Option.bind
         (if flags AND EPOLLIN = EPOLLIN \<and> is_fd_ready childfd fdtype
          then framed_readable env fr cfg fdtype childfd s1 else Some (False, s1))
         (\<lambda>(closed, s2).
           if \<not> closed \<and> flags AND (EPOLLERR OR EPOLLHUP) \<noteq> 0 then
             Option.bind (framed_drain env fr fdtype childfd s2)
               (\<lambda>s3. map_option (Pair True) (framed_drop env fr cfg fdtype childfd s3))
           else Some (False, s2)))"

text \<open>One event of the batch: only those of connections and pipes use the structures.\<close>

definition framed_event :: "env \<Rightarrow> frame \<Rightarrow> config \<Rightarrow> 32 word \<times> 64 word \<Rightarrow> worker \<Rightarrow> server \<Rightarrow>
    (bool \<times> worker \<times> server) option" where
  "framed_event env fr cfg ev w s =
     (let childfd = FD_HOLDER_FD (snd ev); fdtype = FD_HOLDER_TYPE (snd ev); flags = fst ev in
      if sv_id cfg = 0 \<and> childfd = sv_sigfd cfg \<and> flags AND EPOLLIN \<noteq> 0 then
        map_option (Pair False) (signal_event env childfd w s)
      else if fdtype = S80_FD_SERVER_SOCKET then
        map_option (Pair False) (accept_event env cfg childfd w s)
      else if childfd = sv_selfpipe cfg then
        map_option (Pair False) (pipe_event env cfg childfd w s)
      else map_option (\<lambda>(brk, s'). (brk, w, s')) (framed_child env fr cfg flags fdtype childfd s))"

primrec framed_batch :: "env \<Rightarrow> frame \<Rightarrow> config \<Rightarrow> (32 word \<times> 64 word) list \<Rightarrow> worker \<times> server \<Rightarrow>
    (worker \<times> server) option" where
  "framed_batch env fr cfg [] ws = Some ws"
| "framed_batch env fr cfg (ev # evs) ws =
     (case framed_event env fr cfg ev (fst ws) (snd ws) of
        None \<Rightarrow> None
      | Some (brk, w, s) \<Rightarrow> if brk then Some (w, s) else framed_batch env fr cfg evs (w, s))"

partial_function (option) framed_loop :: "env \<Rightarrow> frame \<Rightarrow> config \<Rightarrow> worker \<Rightarrow> server \<Rightarrow>
    (bool \<times> worker \<times> server) option" where
  "framed_loop env fr cfg w s =
     (if w_running w then
        (let r = act env (AEpollWait (sv_elfd cfg)) s in
         if a_ret (fst r) < 0 \<and> a_errno (fst r) \<noteq> EINTR then Some (False, w, snd r)
         else
           Option.bind (framed_batch env fr cfg
               (if a_ret (fst r) < 0 then [] else take MAX_EVENTS (a_events (fst r))) (w, snd r))
             (\<lambda>ws. framed_loop env fr cfg (fst ws) (snd ws)))
      else Some (True, w, s))"

text \<open>
  A whole call of \<open>serve\<close>; \<open>Inl\<close> when the process exits.  The worker's state of the loop starts with
  the round robin at 0 and an undefined signal buffer.
\<close>

definition serve :: "env \<Rightarrow> lua_build \<Rightarrow> allocator \<Rightarrow> (nat \<Rightarrow> byte) \<Rightarrow> nat \<Rightarrow> byte list \<Rightarrow> fd list \<Rightarrow> module_ext list \<Rightarrow>
    serve_params \<Rightarrow> worker_slot \<Rightarrow> server \<Rightarrow> (serve_params \<times> worker_slot \<times> server) outcome" where
  "serve env b A stk reload siginfo els modules p slot s =
     andthen (serve_entry env b A stk reload p slot s) (\<lambda>(fr, is_reload, p1, slot1, s1).
       case framed_loop env fr (slot_config p1 slot1 els s1)
           \<lparr>w_accepts = 0, w_running = True, w_quit = sp_quit p1, w_siginfo = siginfo\<rparr>
           (module_calls env ''on_load'' mx_load is_reload modules s1) of
         None \<Rightarrow> None
       | Some (False, w, s2) \<Rightarrow> Some (Inl ''serve: error on epoll_wait'')
       | Some (True, w, s2) \<Rightarrow>
           (let s3 = module_calls env ''on_unload'' mx_unload (\<not> w_quit w) modules s2 in
            Some (Inr (p1\<lparr>sp_quit := w_quit w\<rparr>, slot1, if w_quit w then close_context env s3 else s3))))"

section \<open>The first call\<close>

text \<open>After a first entry the structures are those the loop was modelled with, so it is the loop of \<open>Event_Loop\<close>.\<close>

definition frame_filled :: "frame \<Rightarrow> config \<Rightarrow> bool" where
  "frame_filled fr cfg \<longleftrightarrow> fr_elfd fr = Some (sv_elfd cfg) \<and> fr_ctx fr = Some (sv_id cfg)"

lemma with_frame_filled: "frame_filled fr cfg \<Longrightarrow> with_frame fr f = f (sv_id cfg) (sv_elfd cfg)"
  by (simp add: frame_filled_def with_frame_def)

lemma framed_steps_same:
  assumes "frame_filled fr cfg"
  shows "framed_writable env fr cfg = writable_step env cfg" "framed_drop env fr cfg = drop_child env cfg"
    "framed_received env fr = received env cfg" "framed_readable env fr cfg = readable_step env cfg"
proof -
  show w: "framed_writable env fr cfg = writable_step env cfg"
    by (intro ext) (simp add: framed_writable_def writable_step_def with_frame_filled [OF assms])
  show d: "framed_drop env fr cfg = drop_child env cfg"
    by (intro ext) (simp add: framed_drop_def drop_child_def with_frame_filled [OF assms])
  show r: "framed_received env fr = received env cfg"
    by (intro ext) (simp add: framed_received_def received_def with_frame_filled [OF assms])
  show "framed_readable env fr cfg = readable_step env cfg"
    unfolding fun_eq_iff framed_readable_def readable_step_def d r by simp
qed

lemma framed_drain_some:
  assumes "framed_drain env fr ty f s = Some r"
  shows "frame_filled fr cfg \<longrightarrow> drain_pipe env cfg ty f s = Some r"
proof (rule framed_drain.raw_induct [OF _ assms], intro impI)
  fix drain env fr ty f s r
  assume IH: "\<And>env fr ty f s r. drain env fr ty f s = Some r \<Longrightarrow> frame_filled fr cfg \<longrightarrow> drain_pipe env cfg ty f s = Some r"
    and body: "(if ty = S80_FD_PIPE then let r = sys_read env f BUFSIZE s in
        if fst r \<le> 0 then Some (snd (snd r))
        else Option.bind (framed_received env fr ty f (fst (snd r)) (snd (snd r))) (drain env fr ty f)
      else Some s) = Some r"
    and fr: "frame_filled fr cfg"
  show "drain_pipe env cfg ty f s = Some r"
    using body IH fr framed_steps_same(3) [OF fr, of env]
    by (subst drain_pipe.simps) (auto simp: Let_def bind_eq_Some_conv split: if_splits)
qed

lemma drain_pipe_some:
  assumes "drain_pipe env cfg ty f s = Some r"
  shows "frame_filled fr cfg \<longrightarrow> framed_drain env fr ty f s = Some r"
proof (rule drain_pipe.raw_induct [OF _ assms], intro impI)
  fix drain env cfg ty f s r
  assume IH: "\<And>env cfg ty f s r. drain env cfg ty f s = Some r \<Longrightarrow> frame_filled fr cfg \<longrightarrow> framed_drain env fr ty f s = Some r"
    and body: "(if ty = S80_FD_PIPE then let r = sys_read env f BUFSIZE s in
        if fst r \<le> 0 then Some (snd (snd r))
        else Option.bind (received env cfg ty f (fst (snd r)) (snd (snd r))) (drain env cfg ty f)
      else Some s) = Some r"
    and fr: "frame_filled fr cfg"
  show "framed_drain env fr ty f s = Some r"
    using body IH fr framed_steps_same(3) [OF fr, of env]
    by (subst framed_drain.simps) (auto simp: Let_def bind_eq_Some_conv split: if_splits)
qed

lemma framed_drain_same:
  assumes "frame_filled fr cfg"
  shows "framed_drain env fr ty f s = drain_pipe env cfg ty f s"
proof (cases "framed_drain env fr ty f s")
  case None
  then show ?thesis using drain_pipe_some [of env cfg ty f s _ fr] assms by (cases "drain_pipe env cfg ty f s") auto
next
  case (Some r)
  then show ?thesis using framed_drain_some [OF Some] assms by simp
qed

lemma framed_event_same:
  assumes "fr_elfd fr = Some (sv_elfd cfg)" and "fr_ctx fr = Some (sv_id cfg)"
  shows "framed_event env fr cfg = handle_event env cfg"
proof -
  have fr: "frame_filled fr cfg" using assms by (simp add: frame_filled_def)
  have child: "framed_child env fr cfg = child_event env cfg"
    unfolding fun_eq_iff framed_child_def child_event_def framed_steps_same [OF fr] framed_drain_same [OF fr] by simp
  show ?thesis unfolding fun_eq_iff framed_event_def handle_event_def child by simp
qed

lemma framed_batch_same:
  assumes "fr_elfd fr = Some (sv_elfd cfg)" and "fr_ctx fr = Some (sv_id cfg)"
  shows "framed_batch env fr cfg evs ws = event_batch env cfg evs ws"
  by (induction evs arbitrary: ws) (simp_all add: framed_event_same [OF assms] split: option.splits prod.splits)

lemma framed_loop_some:
  assumes "framed_loop env fr cfg w s = Some r"
  shows "fr_elfd fr = Some (sv_elfd cfg) \<longrightarrow> fr_ctx fr = Some (sv_id cfg) \<longrightarrow> serve_loop env cfg w s = Some r"
proof (rule framed_loop.raw_induct [OF _ assms], intro impI)
  fix loop env fr cfg w s r
  let ?a = "act env (AEpollWait (sv_elfd cfg)) s"
  let ?evs = "if a_ret (fst ?a) < 0 then [] else take MAX_EVENTS (a_events (fst ?a))"
  assume IH: "\<And>env fr cfg w s r. loop env fr cfg w s = Some r \<Longrightarrow>
      fr_elfd fr = Some (sv_elfd cfg) \<longrightarrow> fr_ctx fr = Some (sv_id cfg) \<longrightarrow> serve_loop env cfg w s = Some r"
    and body: "(if w_running w then
        (let r = act env (AEpollWait (sv_elfd cfg)) s in
         if a_ret (fst r) < 0 \<and> a_errno (fst r) \<noteq> EINTR then Some (False, w, snd r)
         else
           Option.bind (framed_batch env fr cfg
               (if a_ret (fst r) < 0 then [] else take MAX_EVENTS (a_events (fst r))) (w, snd r))
             (\<lambda>ws. loop env fr cfg (fst ws) (snd ws)))
      else Some (True, w, s)) = Some r"
    and fr: "fr_elfd fr = Some (sv_elfd cfg)" "fr_ctx fr = Some (sv_id cfg)"
  show "serve_loop env cfg w s = Some r"
  proof (cases "w_running w \<and> \<not> (a_ret (fst ?a) < 0 \<and> a_errno (fst ?a) \<noteq> EINTR)")
    case True
    then have c: "w_running w" "\<not> (a_ret (fst ?a) < 0 \<and> a_errno (fst ?a) \<noteq> EINTR)" by simp_all
    have "Option.bind (event_batch env cfg ?evs (w, snd ?a)) (\<lambda>ws. loop env fr cfg (fst ws) (snd ws)) = Some r"
      using body unfolding Let_def if_P [OF c(1)] if_not_P [OF c(2)] framed_batch_same [OF fr] .
    then obtain ws where ws: "event_batch env cfg ?evs (w, snd ?a) = Some ws" "loop env fr cfg (fst ws) (snd ws) = Some r"
      by (auto simp: bind_eq_Some_conv)
    then have "serve_loop env cfg (fst ws) (snd ws) = Some r" using IH fr by blast
    then show ?thesis
      unfolding serve_loop.simps [of env cfg w s] Let_def if_P [OF c(1)] if_not_P [OF c(2)] ws(1) by simp
  next
    case False
    then show ?thesis using body by (subst serve_loop.simps) (auto simp: Let_def split: if_splits)
  qed
qed

lemma serve_loop_some:
  assumes "serve_loop env cfg w s = Some r"
  shows "fr_elfd fr = Some (sv_elfd cfg) \<longrightarrow> fr_ctx fr = Some (sv_id cfg) \<longrightarrow> framed_loop env fr cfg w s = Some r"
proof (rule serve_loop.raw_induct [OF _ assms], intro impI)
  fix loop env cfg w s r
  let ?a = "act env (AEpollWait (sv_elfd cfg)) s"
  let ?evs = "if a_ret (fst ?a) < 0 then [] else take MAX_EVENTS (a_events (fst ?a))"
  assume IH: "\<And>env cfg w s r. loop env cfg w s = Some r \<Longrightarrow>
      fr_elfd fr = Some (sv_elfd cfg) \<longrightarrow> fr_ctx fr = Some (sv_id cfg) \<longrightarrow> framed_loop env fr cfg w s = Some r"
    and body: "(if w_running w then
        (let r = act env (AEpollWait (sv_elfd cfg)) s in
         if a_ret (fst r) < 0 \<and> a_errno (fst r) \<noteq> EINTR then Some (False, w, snd r)
         else
           Option.bind (event_batch env cfg
               (if a_ret (fst r) < 0 then [] else take MAX_EVENTS (a_events (fst r))) (w, snd r))
             (\<lambda>ws. loop env cfg (fst ws) (snd ws)))
      else Some (True, w, s)) = Some r"
    and fr: "fr_elfd fr = Some (sv_elfd cfg)" "fr_ctx fr = Some (sv_id cfg)"
  show "framed_loop env fr cfg w s = Some r"
  proof (cases "w_running w \<and> \<not> (a_ret (fst ?a) < 0 \<and> a_errno (fst ?a) \<noteq> EINTR)")
    case True
    then have c: "w_running w" "\<not> (a_ret (fst ?a) < 0 \<and> a_errno (fst ?a) \<noteq> EINTR)" by simp_all
    have "Option.bind (event_batch env cfg ?evs (w, snd ?a)) (\<lambda>ws. loop env cfg (fst ws) (snd ws)) = Some r"
      using body unfolding Let_def if_P [OF c(1)] if_not_P [OF c(2)] .
    then obtain ws where ws: "event_batch env cfg ?evs (w, snd ?a) = Some ws" "loop env cfg (fst ws) (snd ws) = Some r"
      by (auto simp: bind_eq_Some_conv)
    then have "framed_loop env fr cfg (fst ws) (snd ws) = Some r" using IH fr by blast
    then show ?thesis
      unfolding framed_loop.simps [of env fr cfg w s] Let_def if_P [OF c(1)] if_not_P [OF c(2)]
        framed_batch_same [OF fr] ws(1) by simp
  next
    case False
    then show ?thesis using body by (subst framed_loop.simps) (auto simp: Let_def split: if_splits)
  qed
qed

text \<open>
  A call of \<open>serve\<close> that starts the worker goes on with exactly the loop of \<open>Event_Loop\<close>, so that what is
  proved of the loop holds of the worker until the first reload.
\<close>

theorem first_entry_loop:
  assumes "serve_entry env b A stk reload p slot s = Some (Inr (fr, is_reload, p1, slot1, s1))"
    and "\<not> sp_initialized p" and "sp_workerid p < length els"
  shows "framed_loop env fr (slot_config p1 slot1 els s1) w s2 = serve_loop env (slot_config p1 slot1 els s1) w s2 \<and>
    sp_initialized p1 \<and> \<not> is_reload"
proof -
  have first: "fr = \<lparr>fr_elfd = Some (ws_elfd slot1), fr_ctx = Some (sp_workerid p)\<rparr>" "p1 = p\<lparr>sp_initialized := True\<rparr>"
      "\<not> is_reload"
    using assms(1,2)
    by (auto simp: serve_entry_def serve_first_def andthen_def Let_def split: if_splits option.splits sum.splits prod.splits)
  have fr: "fr_elfd fr = Some (sv_elfd (slot_config p1 slot1 els s1))" "fr_ctx fr = Some (sv_id (slot_config p1 slot1 els s1))"
    using first assms(3) by (simp_all add: slot_config_def sv_elfd_def)
  let ?cfg = "slot_config p1 slot1 els s1"
  have "framed_loop env fr ?cfg w s2 = serve_loop env ?cfg w s2"
  proof (cases "framed_loop env fr ?cfg w s2")
    case None
    then show ?thesis using serve_loop_some [of env ?cfg w s2 _ fr] fr by (cases "serve_loop env ?cfg w s2") auto
  next
    case (Some r)
    then show ?thesis using framed_loop_some [OF Some] fr by simp
  qed
  then show ?thesis using first by simp
qed

text \<open>The events of connections and pipes that have a flag the loop handles.\<close>

definition uses_frame :: "config \<Rightarrow> 32 word \<times> 64 word \<Rightarrow> bool" where
  "uses_frame cfg ev \<longleftrightarrow>
     \<not> (sv_id cfg = 0 \<and> FD_HOLDER_FD (snd ev) = sv_sigfd cfg \<and> fst ev AND EPOLLIN \<noteq> 0) \<and>
     FD_HOLDER_TYPE (snd ev) \<noteq> S80_FD_SERVER_SOCKET \<and> FD_HOLDER_FD (snd ev) \<noteq> sv_selfpipe cfg \<and>
     fst ev AND (EPOLLIN OR EPOLLOUT OR EPOLLERR OR EPOLLHUP) \<noteq> 0"

lemma single_bit: "(x :: 32 word) AND 1 \<noteq> 0 \<Longrightarrow> x AND 1 = 1" "(x :: 32 word) AND 4 \<noteq> 0 \<Longrightarrow> x AND 4 = 4"
proof -
  have "x AND push_bit n 1 = (if bit x n then push_bit n 1 else 0)" for n
    by (rule bit_word_eqI) (auto simp: bit_simps)
  from this [of 0] this [of 2] show "x AND 1 \<noteq> 0 \<Longrightarrow> x AND 1 = 1" "x AND 4 \<noteq> 0 \<Longrightarrow> x AND 4 = 4"
    by (auto simp: push_bit_eq_mult split: if_splits)
qed

lemma handled_flags:
  assumes "x AND (EPOLLIN OR EPOLLOUT OR EPOLLERR OR EPOLLHUP) \<noteq> (0 :: 32 word)"
  shows "x AND EPOLLOUT = EPOLLOUT \<or> x AND EPOLLIN = EPOLLIN \<or> x AND (EPOLLERR OR EPOLLHUP) \<noteq> 0"
proof (rule ccontr)
  assume "\<not> ?thesis"
  then have z: "x AND EPOLLIN = 0" "x AND EPOLLOUT = 0" "x AND (EPOLLERR OR EPOLLHUP) = 0" using single_bit [of x] by auto
  have "x AND (EPOLLIN OR EPOLLOUT OR EPOLLERR OR EPOLLHUP) =
      (x AND EPOLLIN) OR (x AND EPOLLOUT) OR (x AND (EPOLLERR OR EPOLLHUP))"
    by (simp only: bit.conj_disj_distrib)
  then show False using assms unfolding z by simp
qed

lemma fresh_callback [simp]: "with_frame fresh_frame f = None"
  by (simp add: with_frame_def fresh_frame_def)

lemma fresh_child:
  assumes "fst ev AND (EPOLLIN OR EPOLLOUT OR EPOLLERR OR EPOLLHUP) \<noteq> (0 :: 32 word)"
  shows "framed_child env fresh_frame cfg (fst ev) fdtype childfd s = None"
  using handled_flags [OF assms]
  by (auto simp: framed_child_def framed_writable_def framed_readable_def framed_drop_def framed_received_def is_fd_ready_def
      Let_def bind_eq_None_conv split: prod.splits)

text \<open>
  C32. After a live reload the structures on the stack of the new call are never filled: the first event of a
  connection or a pipe passes whatever they hold to the callbacks.
\<close>

theorem reentry_reads_garbage:
  assumes "sp_initialized p" and "serve_entry env b A stk reload p slot s = Some (Inr (fr, is_reload, p1, slot1, s1))"
    and "uses_frame cfg ev"
  shows "framed_event env fr cfg ev w s2 = None"
proof -
  have "fr = fresh_frame"
    using assms(1,2) by (auto simp: serve_entry_def split: if_splits option.splits)
  moreover have "framed_child env fresh_frame cfg (fst ev) (FD_HOLDER_TYPE (snd ev)) (FD_HOLDER_FD (snd ev)) s2 = None"
    using assms(3) by (intro fresh_child) (simp add: uses_frame_def)
  ultimately show ?thesis using assms(3) unfolding framed_event_def uses_frame_def Let_def by auto
qed

section \<open>Both at work\<close>

text \<open>A system in which every call succeeds and the executable is \<^verbatim>\<open>/opt/bin/80s\<close>.\<close>

definition exe_env :: env where
  "exe_env = (const_env 1)\<lparr>answers := (\<lambda>h. \<lparr>a_ret = 1, a_errno = 0, a_bytes = cstr ''/opt/bin/80s'', a_vals = [],
     a_plan = [], a_events = []\<rparr>)\<rparr>"

definition one_worker :: "bool \<Rightarrow> serve_params" where
  "one_worker initialized =
     \<lparr>sp_workerid = 0, sp_workers = 1, sp_initialized = initialized, sp_quit = False, sp_parentfd = - 1,
      sp_entrypoint = cstr ''main.lua'', sp_port = 8080, sp_name = None\<rparr>"

definition fresh_worker :: worker where
  "fresh_worker = \<lparr>w_accepts = 0, w_running = True, w_quit = False, w_siginfo = []\<rparr>"

definition one_mailbox :: server where
  "one_mailbox = idle_server\<lparr>mailboxes := [mailbox_init (5, 6) (\<lambda>i. sample_message)]\<rparr>"

lemma exe_env_answers [simp]: "answers exe_env h =
    \<lparr>a_ret = 1, a_errno = 0, a_bytes = cstr ''/opt/bin/80s'', a_vals = [], a_plan = [], a_events = []\<rparr>"
  by (simp add: exe_env_def)

lemma exe_env_refreshes:
  assumes "0 \<notin> set (vm_path vm)" and "length (vm_path vm) < 2 ^ 40"
  shows "\<exists>vm1 s1. refresh_lua exe_env b (run_lua exe_env 0) (\<lambda>n. Some (\<lambda>i. 0)) stk vm elfd node entrypoint workers reload s =
    Some (vm1, s1)"
proof -
  let ?exe = "answers exe_env []"
  have path: "exe_path ?exe = cstr ''/opt'' @ 47 # cstr ''bin'' @ 47 # cstr ''80s''"
    by (simp add: exe_path_def c_string_def cstr_def)
  have vm_same: "vm_path (fold (\<lambda>(name, v). set_global name v) gs (clean_global b x (clean_global b y vm))) = vm_path vm"
    for gs x y
    by (induction gs rule: rev_induct) (auto simp: set_global_def clean_global_def)
  have "\<exists>s'. set_package_path exe_env (\<lambda>n. Some (\<lambda>i. 0)) stk v s1 =
      Some (v\<lparr>vm_path := vm_path v @ 59 # cstr ''/opt'' @ 47 # cstr ''?.lua''\<rparr>, s')" if "vm_path v = vm_path vm" for v s1
    by (rule package_path_result [OF _ _ _ _ path])
      (use assms that in \<open>auto simp: reliable_def cstr_def is_separator_def\<close>)
  note path_of = this
  let ?vm2 = "fold (\<lambda>(name, v). set_global name v) (lua_globals b elfd node entrypoint workers reload)
      (clean_global b ''FILE*'' (clean_global b ''_LOADED'' vm))"
  obtain vm3 s1 where "set_package_path exe_env (\<lambda>n. Some (\<lambda>i. 0)) stk ?vm2 (open_libraries exe_env b s) = Some (vm3, s1)"
    using path_of [OF vm_same] by blast
  moreover obtain s2 where "act exe_env (AOther ''luaL_dofile'' [LStr entrypoint]) s1 = (answers exe_env [], s2)"
    by (simp add: act_def Let_def)
  ultimately show ?thesis by (simp add: refresh_lua_def Let_def)
qed

lemma one_worker_fields [simp]:
  "sp_initialized (one_worker i) = i" "sp_workerid (one_worker i) = 0" "sp_parentfd (one_worker i) = - 1"
  by (simp_all add: one_worker_def)

lemma one_mailbox_length [simp]: "mailboxes one_mailbox = [mailbox_init (5, 6) (\<lambda>i. sample_message)]"
  by (simp add: one_mailbox_def)

lemma exe_env_enters:
  assumes "\<And>e s. \<exists>vm s2. mk e s = Some (Some vm, s2)"
  shows "\<exists>r. serve_first exe_env mk (one_worker False) slot s = Some (Inr r)"
proof -
  have ok: "must msg (os_call exe_env name args s) = Some (Inr (answers exe_env [], snd (os_call exe_env name args s)))"
    "must msg (epoll_add exe_env e ty f s) = Some (Inr (answers exe_env [], snd (epoll_add exe_env e ty f s)))"
    for msg name args s e ty f
    by (simp_all add: must_def os_call_def epoll_add_def act_def Let_def)
  have init: "\<exists>s1. on_init exe_env (run_lua exe_env 0) ip s = Some s1" for ip s
    by (simp add: on_init_def pcall_def act_def Let_def)
  define s4 where "s4 = (\<lambda>selfpipe. snd (os_call exe_env ''signal'' [LStr (cstr ''SIGCHLD'')]
    (snd (epoll_add exe_env 1 S80_FD_PIPE selfpipe
      (snd (os_call exe_env ''epoll_create1'' [LInt 0]
        (snd (os_call exe_env ''signal'' [LStr (cstr ''SIGPIPE'')] (s80_enable_async exe_env selfpipe s)))))))))"
  obtain vm s5 where "mk 1 (s4 (fst (mb_pipes (mailboxes s ! 0)))) = Some (Some vm, s5)" using assms by blast
  then show ?thesis
    using init by (simp add: serve_first_def ok andthen_def Let_def s4_def)
qed

theorem first_entry_loop_witness:
  "\<exists>fr is_reload p1 slot1 s1. serve_entry exe_env \<lparr>lb_dynamic = True, lb_modern = True, lb_ktls = False\<rparr> (\<lambda>n. Some (\<lambda>i. 0))
        (\<lambda>i. 0) 0 (one_worker False) \<lparr>ws_elfd = 0, ws_sigfd = 0, ws_vm = None\<rparr> one_mailbox =
      Some (Inr (fr, is_reload, p1, slot1, s1)) \<and>
    framed_loop exe_env fr (slot_config p1 slot1 [0] s1) fresh_worker s1 =
      serve_loop exe_env (slot_config p1 slot1 [0] s1) fresh_worker s1 \<and>
    sp_initialized p1 \<and> \<not> is_reload"
proof -
  let ?b = "\<lparr>lb_dynamic = True, lb_modern = True, lb_ktls = False\<rparr>" and ?A = "\<lambda>n. Some (\<lambda>i. 0)"
  let ?mk = "\<lambda>elfd. create_context exe_env ?b (run_lua exe_env 0) ?A (\<lambda>i. 0) elfd (worker_node (one_worker False))
      (sp_entrypoint (one_worker False)) (sp_workers (one_worker False)) 0"
  have call: "\<exists>s1. os_call exe_env name args s = (answers exe_env [], s1)" for name args s
    by (simp add: os_call_def act_def Let_def)
  have "\<exists>vm s2. ?mk elfd s = Some (Some vm, s2)" for elfd s
  proof -
    obtain s1 where s1: "os_call exe_env ''lua_newstate'' [] s = (answers exe_env [], s1)" using call by blast
    let ?vm = "\<lparr>vm_globals = [], vm_registry = [], vm_path = c_string (cstr ''/opt/bin/80s'')\<rparr>"
    have "0 \<notin> set (vm_path ?vm)" "length (vm_path ?vm) < 2 ^ 40" by (simp_all add: c_string_def cstr_def)
    from exe_env_refreshes [OF this] show ?thesis using s1 unfolding create_context_def create_lua_def by fastforce
  qed
  then have mk: "\<exists>vm s2. ?mk elfd s = Some (Some vm, s2)" for elfd s by blast
  have "\<exists>r. serve_first exe_env ?mk (one_worker False) \<lparr>ws_elfd = 0, ws_sigfd = 0, ws_vm = None\<rparr> one_mailbox = Some (Inr r)"
    using exe_env_enters [of ?mk] mk by blast
  then obtain r where first: "serve_first exe_env ?mk (one_worker False) \<lparr>ws_elfd = 0, ws_sigfd = 0, ws_vm = None\<rparr> one_mailbox =
      Some (Inr r)"
    by blast
  obtain fr p1 slot1 s1 where r: "r = (fr, p1, slot1, s1)" by (cases r)
  have entry: "serve_entry exe_env ?b ?A (\<lambda>i. 0) 0 (one_worker False)
      \<lparr>ws_elfd = 0, ws_sigfd = 0, ws_vm = None\<rparr> one_mailbox = Some (Inr (fr, False, p1, slot1, s1))"
    using first r by (simp add: serve_entry_def andthen_def)
  from first_entry_loop [OF this, of "[0]" fresh_worker s1] have "framed_loop exe_env fr (slot_config p1 slot1 [0] s1) fresh_worker s1 =
      serve_loop exe_env (slot_config p1 slot1 [0] s1) fresh_worker s1 \<and> sp_initialized p1 \<and> \<not> False" by simp
  with entry show ?thesis by blast
qed

theorem reentry_reads_garbage_witness:
  "\<exists>fr is_reload p1 slot1 s1. serve_entry exe_env \<lparr>lb_dynamic = True, lb_modern = True, lb_ktls = False\<rparr> (\<lambda>n. Some (\<lambda>i. 0))
        (\<lambda>i. 0) 0 (one_worker True) \<lparr>ws_elfd = 3, ws_sigfd = 0, ws_vm = Some \<lparr>vm_globals = [], vm_registry = [], vm_path = []\<rparr>\<rparr>
        one_mailbox = Some (Inr (fr, is_reload, p1, slot1, s1)) \<and>
    framed_event exe_env fr sample_config (EPOLLIN, SET_FD_HOLDER S80_FD_SOCKET 9) fresh_worker idle_server = None"
proof -
  obtain vm1 s1 where "refresh_context exe_env \<lparr>lb_dynamic = True, lb_modern = True, lb_ktls = False\<rparr> (run_lua exe_env 0)
      (\<lambda>n. Some (\<lambda>i. 0)) (\<lambda>i. 0) \<lparr>vm_globals = [], vm_registry = [], vm_path = []\<rparr> 3 (worker_node (one_worker True))
      (sp_entrypoint (one_worker True)) (sp_workers (one_worker True)) 0 one_mailbox = Some (vm1, s1)"
    using exe_env_refreshes [of "\<lparr>vm_globals = [], vm_registry = [], vm_path = []\<rparr>"] unfolding refresh_context_def by simp blast
  then obtain fr p1 slot1 s1 where entry: "serve_entry exe_env \<lparr>lb_dynamic = True, lb_modern = True, lb_ktls = False\<rparr>
      (\<lambda>n. Some (\<lambda>i. 0)) (\<lambda>i. 0) 0 (one_worker True)
      \<lparr>ws_elfd = 3, ws_sigfd = 0, ws_vm = Some \<lparr>vm_globals = [], vm_registry = [], vm_path = []\<rparr>\<rparr> one_mailbox =
      Some (Inr (fr, True, p1, slot1, s1))"
    by (simp add: serve_entry_def)
  have "uses_frame sample_config (EPOLLIN, SET_FD_HOLDER S80_FD_SOCKET 9)"
    by (simp add: uses_frame_def fd_holder_parts c_int_def sample_config_def)
  from reentry_reads_garbage [OF _ entry this] have "framed_event exe_env fr sample_config
      (EPOLLIN, SET_FD_HOLDER S80_FD_SOCKET 9) fresh_worker idle_server = None" by simp
  then show ?thesis using entry by blast
qed

end
