(* ===== verification/Crypto_Cipher.thy ===== *)
theory Crypto_Cipher
  imports Net_Files
begin

text \<open>
  The digests, the cipher and the base 64 codec of \<^verbatim>\<open>src/80s/crypto.c\<close>.  OpenSSL is not part of the
  repository: its pure functions are the fields of a parameter, its objects and its random bytes
  are answers of the environment.  The layout of an encrypted text is
  \<^verbatim>\<open>hmac[0:32] + length[32:36] + iv[36:52] + contents\<close>, without the third part when no
  initialisation vector is used; decryption finds out by itself which of the two it has.
\<close>

section \<open>What is used of OpenSSL\<close>

text \<open>
  \<open>lib_update\<close> and \<open>lib_final\<close> are the outputs of \<open>EVP_CipherUpdate\<close> on the whole data and of the
  \<open>EVP_CipherFinal_ex\<close> behind it, for a direction, a key and an initialisation vector;
  \<open>None\<close> is failure.  \<open>lib_decode\<close> is the output of \<open>EVP_DecodeUpdate\<close>, \<open>lib_decode_end\<close> the
  result and the output of \<open>EVP_DecodeFinal\<close>.
\<close>

record crypto_lib =
  lib_sha1 :: "byte list \<Rightarrow> byte list"
  lib_sha256 :: "byte list \<Rightarrow> byte list"
  lib_hmac :: "byte list \<Rightarrow> byte list \<Rightarrow> byte list"
  lib_update :: "bool \<Rightarrow> byte list \<Rightarrow> byte list \<Rightarrow> byte list \<Rightarrow> byte list option"
  lib_final :: "bool \<Rightarrow> byte list \<Rightarrow> byte list \<Rightarrow> byte list \<Rightarrow> byte list option"
  lib_base64 :: "byte list \<Rightarrow> byte list"
  lib_decode :: "byte list \<Rightarrow> byte list option"
  lib_decode_end :: "byte list \<Rightarrow> int \<times> byte list"

section \<open>Digests\<close>

text \<open>A digest into a caller's buffer: the return code and the buffer after it.\<close>

definition digest_into :: "nat \<Rightarrow> byte list \<Rightarrow> byte list \<Rightarrow> nat \<Rightarrow> (int \<times> byte list) option" where
  "digest_into n d buf out_length =
     (if out_length < n then Some (- 1, buf) else map_option (Pair 0) (poke buf 0 (take n d)))"

definition crypto_sha1 :: "crypto_lib \<Rightarrow> byte list \<Rightarrow> byte list \<Rightarrow> nat \<Rightarrow> (int \<times> byte list) option" where
  "crypto_sha1 lib data buf out_length = digest_into 20 (lib_sha1 lib data) buf out_length"

definition crypto_sha256 :: "crypto_lib \<Rightarrow> byte list \<Rightarrow> byte list \<Rightarrow> nat \<Rightarrow> (int \<times> byte list) option" where
  "crypto_sha256 lib data buf out_length = digest_into 32 (lib_sha256 lib data) buf out_length"

definition crypto_hmac_sha256 :: "crypto_lib \<Rightarrow> byte list \<Rightarrow> byte list \<Rightarrow> byte list \<Rightarrow> nat \<Rightarrow> (int \<times> byte list) option" where
  "crypto_hmac_sha256 lib data key buf out_length = digest_into 32 (lib_hmac lib key data) buf out_length"

section \<open>The cipher\<close>

text \<open>
  The key: a longer one is folded into 16 bytes, \<^verbatim>\<open>key_buf[i & 15] ^= key[i]\<close>.
\<close>

definition fold_step :: "byte list \<Rightarrow> nat \<Rightarrow> byte list \<Rightarrow> byte list" where
  "fold_step key i kb = kb[i mod 16 := kb ! (i mod 16) XOR key ! i]"

definition fold_key :: "byte list \<Rightarrow> byte list option" where
  "fold_key key =
     (if length key < 16 then None
      else if 16 < length key then Some (fold (fold_step key) [16..<length key] (take 16 key))
      else Some key)"

text \<open>\<open>*(int *)(data + 32)\<close>, the length of the plain text, in a text of at least 36 bytes.\<close>

definition payload_len :: "byte list \<Rightarrow> int" where
  "payload_len data = sint (word32 (take 4 (drop 32 data)))"

text \<open>
  Decryption looks for an initialisation vector; the sum is computed in \<open>unsigned int\<close>.
\<close>

definition has_iv :: "byte list \<Rightarrow> bool" where
  "has_iv data \<longleftrightarrow> 36 \<le> length data \<and> 16 < int (length data) - (payload_len data + 36) mod 2 ^ 32"

text \<open>
  The vector: random, taken from the data, or zeros.  The answer to \<open>RAND_bytes\<close> holds the 16 bytes
  that are in the array afterwards, whether it succeeded or not: nobody asks.
\<close>

definition cipher_iv :: "env \<Rightarrow> bool \<Rightarrow> bool \<Rightarrow> byte list \<Rightarrow> server \<Rightarrow> byte list \<times> server" where
  "cipher_iv env encrypt use_iv data s =
     (if \<not> use_iv then (replicate 16 0, s)
      else if encrypt then
        (case os_call env ''RAND_bytes'' [LInt 16] s of
           (a, s1) \<Rightarrow> (take 16 (a_bytes a @ replicate 16 0), s1))
      else (take 16 (drop 36 data), s))"

definition store_at :: "nat \<Rightarrow> byte list \<Rightarrow> dynstr \<Rightarrow> dynstr option" where
  "store_at off bs str = map_option (\<lambda>m. str\<lparr>ds_ptr := m\<rparr>) (poke (ds_ptr str) off bs)"

text \<open>
  \<open>EVP_CipherUpdate\<close> and \<open>EVP_CipherFinal_ex\<close>, one behind the other from the offset on: the number of
  bytes written, or \<open>None\<close> when one of them fails.  The length \<open>inl\<close> is an \<open>int\<close>; a negative one is
  refused.
\<close>

definition cipher_stream :: "crypto_lib \<Rightarrow> bool \<Rightarrow> byte list \<Rightarrow> byte list \<Rightarrow> nat \<Rightarrow> int \<Rightarrow> byte list \<Rightarrow> dynstr \<Rightarrow>
    (nat option \<times> dynstr) option" where
  "cipher_stream lib encrypt key iv at inl data str =
     (if inl < 0 then Some (None, str)
      else
        (let input = take (nat inl) data in
         case lib_update lib encrypt key iv input of
           None \<Rightarrow> Some (None, str)
         | Some out \<Rightarrow>
             Option.bind (store_at at out str) (\<lambda>str1.
               case lib_final lib encrypt key iv input of
                 None \<Rightarrow> Some (None, str1)
               | Some rest \<Rightarrow>
                   map_option (Pair (Some (length out + length rest)))
                     (store_at (at + length out) rest str1))))"

text \<open>Reading \<open>n\<close> bytes of the buffer from an offset on.\<close>

definition read_at :: "nat \<Rightarrow> nat \<Rightarrow> dynstr \<Rightarrow> byte list option" where
  "read_at off n str =
     (if off + n \<le> length (ds_ptr str) then Some (take n (drop off (ds_ptr str))) else None)"

definition encrypt_body :: "crypto_lib \<Rightarrow> byte list \<Rightarrow> byte list \<Rightarrow> nat \<Rightarrow> byte list \<Rightarrow> dynstr \<Rightarrow>
    (string option \<times> dynstr) option" where
  "encrypt_body lib key iv iv_len data str =
     Option.bind (store_at 36 (take iv_len iv) str) (\<lambda>str1.
     Option.bind (store_at 32 (le32 (word_of_nat (length data))) str1) (\<lambda>str2.
     Option.bind (cipher_stream lib True key iv (36 + iv_len) (to_int (int (length data))) data str2) (\<lambda>(done_len, str3).
       case done_len of
         None \<Rightarrow> Some (Some ''failed to cipher'', str3)
       | Some n \<Rightarrow>
           Option.bind (read_at 32 (n + iv_len + 4) str3) (\<lambda>signed.
           map_option (\<lambda>str4. (None, str4\<lparr>ds_length := n + 32 + iv_len + 4\<rparr>))
             (store_at 0 (take 32 (lib_hmac lib key signed)) str3)))))"

text \<open>
  The length that was sent is what is returned, and nothing but the signature vouches for it: a
  negative one is a huge \<open>size_t\<close>.
\<close>

definition decrypt_body :: "crypto_lib \<Rightarrow> byte list \<Rightarrow> byte list \<Rightarrow> nat \<Rightarrow> byte list \<Rightarrow> dynstr \<Rightarrow>
    (string option \<times> dynstr) option" where
  "decrypt_body lib key iv iv_len data str =
     (if take 32 data \<noteq> take 32 (lib_hmac lib key (drop 32 data)) then Some (Some ''failed to cipher'', str)
      else
        Option.bind (cipher_stream lib False key iv (36 + iv_len)
            (to_int (int (length data)) - int (36 + iv_len)) (drop (36 + iv_len) data) str) (\<lambda>(done_len, str1).
          case done_len of
            None \<Rightarrow> Some (Some ''failed to cipher'', str1)
          | Some n \<Rightarrow>
              (let out_len = nat (payload_len data mod 2 ^ 64) in
               Option.bind (read_at (36 + iv_len) out_len str1) (\<lambda>plain.
               map_option (\<lambda>str2. (None, str2\<lparr>ds_length := out_len\<rparr>)) (store_at 0 plain str1)))))"

definition needed_size :: "nat \<Rightarrow> nat" where
  "needed_size len = sz (len + (if len mod 16 \<noteq> 0 then 16 - len mod 16 else 0) + 52)"

text \<open>Between the creation of the context and its release.\<close>

definition cipher_run :: "env \<Rightarrow> crypto_lib \<Rightarrow> bool \<Rightarrow> byte list \<Rightarrow> bool \<Rightarrow> byte list \<Rightarrow> dynstr \<Rightarrow> server \<Rightarrow>
    ((string option \<times> dynstr) \<times> server) option" where
  "cipher_run env lib encrypt key use_iv data str s =
     (let iv_len = (if use_iv then 16 else 0) in
      case cipher_iv env encrypt use_iv data s of
        (iv, s1) \<Rightarrow>
          (case os_call env ''EVP_CipherInit'' [] s1 of
             (c, s2) \<Rightarrow>
               if a_ret c = 0 then Some ((Some ''failed to initialize cipher'', str), s2)
               else
                 map_option (\<lambda>r. (r, s2))
                   (if encrypt then encrypt_body lib key iv iv_len data str
                    else decrypt_body lib key iv iv_len data str)))"

text \<open>The error message, if any, the output and the state; \<open>-1\<close> goes with a message, \<open>0\<close> without.\<close>

definition crypto_cipher :: "env \<Rightarrow> crypto_lib \<Rightarrow> allocator \<Rightarrow> byte list \<Rightarrow> byte list \<Rightarrow> bool \<Rightarrow> bool \<Rightarrow> dynstr \<Rightarrow>
    server \<Rightarrow> ((string option \<times> dynstr) \<times> server) option" where
  "crypto_cipher env lib A data key want_iv encrypt str s =
     (case fold_key key of
        None \<Rightarrow> Some ((Some ''key must be 16 at least bytes long'', str), s)
      | Some k \<Rightarrow>
          (let use_iv = (if encrypt then want_iv else has_iv data) in
           if \<not> encrypt \<and> length data < 36 + (if use_iv then 16 else 0) then
             Some ((Some ''decrypt payload is too short'', str), s)
           else
             (case os_call env ''EVP_CIPHER_CTX_new'' [] s of
                (ctx, s1) \<Rightarrow>
                  if a_ret ctx = 0 then Some ((Some ''failed to create cipher context'', str), s1)
                  else
                    Option.bind (dynstr_check A str (needed_size (length data))) (\<lambda>(ok, str1).
                      if \<not> ok then
                        Some ((Some ''failed to allocate enough memory for cipher output buffer'', str1),
                          snd (os_call env ''EVP_CIPHER_CTX_free'' [] s1))
                      else
                        map_option (\<lambda>(r, s2). (r, snd (os_call env ''EVP_CIPHER_CTX_free'' [] s2)))
                          (cipher_run env lib encrypt k use_iv data str1 s1)))))"

section \<open>Base 64\<close>

text \<open>\<open>EVP_EncodeBlock\<close> writes a NUL behind the text.\<close>

definition crypto_to64 :: "crypto_lib \<Rightarrow> allocator \<Rightarrow> byte list \<Rightarrow> dynstr \<Rightarrow> (string option \<times> dynstr) option" where
  "crypto_to64 lib A data str =
     Option.bind (dynstr_check A str (sz (4 + 4 * ((length data + 2) div 3)))) (\<lambda>(ok, str1).
       if \<not> ok then Some (Some ''failed to allocate enough memory'', str1)
       else
         map_option (\<lambda>str2. (None, str2\<lparr>ds_length := length (lib_base64 lib data)\<rparr>))
           (store_at 0 (lib_base64 lib data @ [0]) str1))"

text \<open>
  \<open>EVP_DecodeFinal\<close> answers 1, or \<open>-1\<close> for an incomplete text; both are true.
\<close>

definition crypto_from64 :: "env \<Rightarrow> crypto_lib \<Rightarrow> allocator \<Rightarrow> byte list \<Rightarrow> dynstr \<Rightarrow> server \<Rightarrow>
    ((string option \<times> dynstr) \<times> server) option" where
  "crypto_from64 env lib A data str s =
     (case os_call env ''EVP_ENCODE_CTX_new'' [] s of
        (ctx, s1) \<Rightarrow>
          if a_ret ctx = 0 then Some ((Some ''failed to create decode context'', str), s1)
          else
            Option.bind (dynstr_check A str (nat (to_int (int (length data)) mod 2 ^ 64))) (\<lambda>(ok, str1).
              let s2 = snd (os_call env ''EVP_ENCODE_CTX_free'' [] s1) in
              if \<not> ok then Some ((Some ''failed to allocate enough memory'', str1), s2)
              else
                (case lib_decode lib data of
                   None \<Rightarrow> Some ((Some ''failed to decode'', str1), s2)
                 | Some out \<Rightarrow>
                     Option.bind (store_at 0 out str1) (\<lambda>str3.
                       if fst (lib_decode_end lib data) \<noteq> 0 then
                         map_option (\<lambda>str4. ((None, str4\<lparr>ds_length :=
                             length out + length (snd (lib_decode_end lib data))\<rparr>), s2))
                           (store_at (length out) (snd (lib_decode_end lib data)) str3)
                       else Some ((Some ''failed to decode'', str3), s2)))))"

definition l_crypto_cipher :: "env \<Rightarrow> crypto_lib \<Rightarrow> allocator \<Rightarrow> (nat \<Rightarrow> byte) \<Rightarrow> binding" where
  "l_crypto_cipher env lib A stk args s =
     (case args of
        [LStr data, LStr key, LBool use_iv, LBool encrypt] \<Rightarrow>
          (case crypto_cipher env lib A data key use_iv encrypt (init_on_stack stk 4096) s of
             None \<Rightarrow> (Fault, s)
           | Some ((Some msg, str), s1) \<Rightarrow> (Returns [LNil, LStr (cstr msg)], s1)
           | Some ((None, str), s1) \<Rightarrow> (push_block (ds_ptr str) (ds_length str), s1))
      | _ \<Rightarrow> (LuaError ''expecting 4 arguments: data (string), key (string), iv (bool), encrypt (bool)'', s))"

section \<open>What OpenSSL promises\<close>

text \<open>
  With a key and a vector of 16 bytes, AES in CBC mode with padding writes every whole block in the
  update and one more block at the end, and decryption inverts it; a signature has 32 bytes.
\<close>

definition cipher_laws :: "crypto_lib \<Rightarrow> bool" where
  "cipher_laws lib \<longleftrightarrow>
     (\<forall>key data. length (lib_hmac lib key data) = 32) \<and>
     (\<forall>key iv data. length key = 16 \<longrightarrow> length iv = 16 \<longrightarrow>
        (\<exists>out rest out' rest'. lib_update lib True key iv data = Some out \<and> lib_final lib True key iv data = Some rest \<and>
           length out = 16 * (length data div 16) \<and> length rest = 16 \<and>
           lib_update lib False key iv (out @ rest) = Some out' \<and> lib_final lib False key iv (out @ rest) = Some rest' \<and>
           out' @ rest' = data))"

text \<open>Nothing fails that could be missing memory or a broken library.\<close>

definition cipher_works :: "env \<Rightarrow> bool" where
  "cipher_works env \<longleftrightarrow>
     (\<forall>h. a_ret (answers env (h @ [AOther ''EVP_CIPHER_CTX_new'' []])) \<noteq> 0) \<and>
     (\<forall>h. a_ret (answers env (h @ [AOther ''EVP_CipherInit'' []])) \<noteq> 0)"

section \<open>The key\<close>

text \<open>The reference: byte \<open>j\<close> of the short key is the sum of the bytes in column \<open>j\<close>.\<close>

definition key_columns :: "byte list \<Rightarrow> byte list" where
  "key_columns key = map (\<lambda>j. foldr (XOR) (map (\<lambda>i. key ! i) (filter (\<lambda>i. i mod 16 = j) [0..<length key])) 0) [0..<16]"

lemma foldr_xor_append: "foldr (XOR) (xs @ [x]) (0 :: byte) = foldr (XOR) xs 0 XOR x"
  by (induction xs) (simp_all add: xor.assoc)

lemma column_once:
  assumes "j < 16"
  shows "filter (\<lambda>i. i mod 16 = j) [16 * m..<16 * m + 16] = [16 * m + j]"
proof -
  have "[16 * m..<16 * m + 16] = [16 * m..<16 * m + j] @ (16 * m + j) # [Suc (16 * m + j)..<16 * m + 16]"
    using assms upt_add_eq_append [of "16 * m" "16 * m + j" "16 - j"] by (simp add: upt_conv_Cons)
  moreover have "i mod 16 \<noteq> j" if i: "16 * m \<le> i" "i < 16 * m + 16" "i \<noteq> 16 * m + j" for i
  proof -
    obtain k where "i = 16 * m + k" "k < 16" "k \<noteq> j" using i by (metis add_less_cancel_left le_Suc_ex)
    then show ?thesis by simp
  qed
  then have "filter (\<lambda>i. i mod 16 = j) [16 * m..<16 * m + j] = []"
    "filter (\<lambda>i. i mod 16 = j) [Suc (16 * m + j)..<16 * m + 16] = []"
    using assms by (auto simp: filter_empty_conv)
  ultimately show ?thesis using assms by simp
qed

lemma fold_step_columns:
  "16 \<le> n \<Longrightarrow> n \<le> length key \<Longrightarrow> fold (fold_step key) [16..<n] (take 16 key) =
   map (\<lambda>j. foldr (XOR) (map (\<lambda>i. key ! i) (filter (\<lambda>i. i mod 16 = j) [0..<n])) 0) [0..<16]"
proof (induction n rule: nat_induct_at_least)
  case base
  then show ?case using column_once [of _ 0] by (auto intro!: nth_equalityI)
next
  case (Suc n)
  let ?cols = "\<lambda>n. map (\<lambda>j. foldr (XOR) (map (\<lambda>i. key ! i) (filter (\<lambda>i. i mod 16 = j) [0..<n])) 0) [0..<16]"
  have "fold (fold_step key) [16..<Suc n] (take 16 key) = fold_step key n (?cols n)"
    using Suc by simp
  also have "\<dots> = ?cols (Suc n)"
    by (intro nth_equalityI) (auto simp: fold_step_def nth_list_update foldr_xor_append simp del: foldr_append)
  finally show ?case .
qed

lemma fold_step_length [simp]: "length (fold (fold_step key) is kb) = length kb"
  by (induction "is" arbitrary: kb) (simp_all add: fold_step_def)

lemma fold_key_some: "16 \<le> length key \<Longrightarrow> \<exists>k. fold_key key = Some k"
  by (simp add: fold_key_def)

lemma fold_key_length: "fold_key key = Some k \<Longrightarrow> length k = 16"
  by (auto simp: fold_key_def split: if_splits)

text \<open>
  The folding loop computes the sums of the columns: no byte of a long key is left out.
\<close>

theorem fold_key_equals_columns:
  assumes "16 \<le> length key"
  shows "fold_key key = Some (key_columns key)"
  using fold_step_columns [OF _ order.refl, of key] assms
  by (auto simp: fold_key_def key_columns_def dest: order.antisym)

theorem fold_key_equals_columns_witness: "fold_key (replicate 17 3) = Some (key_columns (replicate 17 3))"
  by (rule fold_key_equals_columns) simp

text \<open>It follows that a key made of two equal halves is the zero key.\<close>

lemma fold_key_equal_halves:
  assumes "length k = 16"
  shows "fold_key (k @ k) = Some (replicate 16 0)"
proof -
  have "[0..<32] = [0..<16] @ [16..<32]" using upt_add_eq_append [of 0 16 16] by simp
  then have "filter (\<lambda>i. i mod 16 = j) [0..<32] = [j, 16 + j]" if "j < 16" for j :: nat
    using column_once [OF that, of 0] column_once [OF that, of 1] by simp
  then have "map (\<lambda>j. foldr (XOR) (map ((!) (k @ k)) (filter (\<lambda>i. i mod 16 = j) [0..<32])) 0) [0..<16] = replicate 16 0"
    using assms by (intro nth_equalityI) (auto simp: nth_append)
  then show ?thesis
    using fold_step_columns [of 32 "k @ k"] assms by (simp add: fold_key_def)
qed

section \<open>The layout\<close>

definition layout :: "crypto_lib \<Rightarrow> byte list \<Rightarrow> nat \<Rightarrow> byte list \<Rightarrow> byte list \<Rightarrow> byte list" where
  "layout lib key n iv body =
     take 32 (lib_hmac lib key (le32 (word_of_nat n) @ iv @ body)) @ le32 (word_of_nat n) @ iv @ body"

lemma store_at_fits:
  assumes "off + length bs \<le> length (ds_ptr str)"
  shows "store_at off bs str = Some (str\<lparr>ds_ptr := take off (ds_ptr str) @ bs @ drop (off + length bs) (ds_ptr str)\<rparr>)"
  using assms by (simp add: store_at_def poke_fits)

lemma to_int_length: "length data < 2 ^ 31 \<Longrightarrow> to_int (int (length data)) = int (length data)"
  by (simp add: to_int_def signed_of_nat signed_take_bit_int_eq_self)

lemma encrypt_body_layout:
  assumes room: "36 + length iv' + length out + length rest \<le> length (ds_ptr str)"
    and iv: "take n iv = iv'" "length iv' = n"
    and lib: "lib_update lib True key iv data = Some out" "lib_final lib True key iv data = Some rest"
      "length (lib_hmac lib key (le32 (word_of_nat (length data)) @ iv' @ out @ rest)) = 32"
    and len: "length data < 2 ^ 31"
  shows "\<exists>str'. encrypt_body lib key iv n data str = Some (None, str') \<and>
    take (ds_length str') (ds_ptr str') = layout lib key (length data) iv' (out @ rest) \<and>
    ds_length str' = 36 + n + length out + length rest \<and> length (ds_ptr str') = length (ds_ptr str)"
proof -
  let ?hd = "le32 (word_of_nat (length data))"
  obtain a b where ab: "ds_ptr str = a @ b" "length a = 32" and b: "4 + n + length out + length rest \<le> length b"
    using room iv by (intro that [of "take 32 (ds_ptr str)" "drop 32 (ds_ptr str)"]) auto
  define tail where "tail = drop (4 + n + length out + length rest) b"
  let ?s1 = "str\<lparr>ds_ptr := a @ take 4 b @ iv' @ drop (4 + n) b\<rparr>"
  let ?s2 = "str\<lparr>ds_ptr := a @ ?hd @ iv' @ drop (4 + n) b\<rparr>"
  let ?s3 = "str\<lparr>ds_ptr := a @ ?hd @ iv' @ out @ drop (4 + n + length out) b\<rparr>"
  let ?s4 = "str\<lparr>ds_ptr := a @ ?hd @ iv' @ out @ rest @ tail\<rparr>"
  have 1: "store_at 36 (take n iv) str = Some ?s1"
    using ab b iv by (subst store_at_fits) (simp_all add: take_append)
  have 2: "store_at 32 ?hd ?s1 = Some ?s2"
    using ab b iv by (subst store_at_fits) simp_all
  have 3: "store_at (36 + n) out ?s2 = Some ?s3"
    using ab b iv by (subst store_at_fits) (simp_all add: add.commute)
  have 4: "store_at (36 + n + length out) rest ?s3 = Some ?s4"
    using ab b iv by (subst store_at_fits) (simp_all add: tail_def add.commute add.left_commute)
  have stream: "cipher_stream lib True key iv (36 + n) (to_int (int (length data))) data ?s2 =
      Some (Some (length out + length rest), ?s4)"
    using lib 3 4 len by (simp add: cipher_stream_def to_int_length)
  have read: "read_at 32 (length out + length rest + n + 4) ?s4 = Some (?hd @ iv' @ out @ rest)"
    using ab iv by (simp add: read_at_def)
  let ?sig = "take 32 (lib_hmac lib key (?hd @ iv' @ out @ rest))"
  let ?s5 = "str\<lparr>ds_ptr := ?sig @ ?hd @ iv' @ out @ rest @ tail\<rparr>"
  have 5: "store_at 0 ?sig ?s4 = Some ?s5"
    using ab lib(3) by (subst store_at_fits) simp_all
  have "encrypt_body lib key iv n data str =
      Some (None, ?s5\<lparr>ds_length := length out + length rest + 32 + n + 4\<rparr>)"
    using 1 2 stream read 5 by (simp add: encrypt_body_def)
  moreover have "length (?sig @ ?hd @ iv' @ out @ rest @ tail) = length (ds_ptr str)"
    using ab b iv lib(3) by (simp add: tail_def)
  ultimately show ?thesis using lib(3) iv by (intro exI) (auto simp: layout_def)
qed

lemma layout_parts:
  assumes "length (lib_hmac lib key (le32 (word_of_nat n) @ iv @ body)) = 32"
  shows "length (layout lib key n iv body) = 36 + length iv + length body"
    and "take 32 (layout lib key n iv body) = take 32 (lib_hmac lib key (drop 32 (layout lib key n iv body)))"
    and "drop (36 + length iv) (layout lib key n iv body) = body"
    and "take (length iv) (drop 36 (layout lib key n iv body)) = iv"
    and "n < 2 ^ 31 \<Longrightarrow> payload_len (layout lib key n iv body) = int n"
  using assms
  by (simp_all add: layout_def payload_len_def word32_le32 signed_of_nat signed_take_bit_int_eq_self drop_Cons')

text \<open>Decryption sees from the lengths alone whether a vector was used.\<close>

lemma layout_has_iv:
  assumes "length (lib_hmac lib key (le32 (word_of_nat n) @ iv @ body)) = 32"
    and "n < 2 ^ 30" and "length body = 16 * (n div 16) + 16" and "length iv = 0 \<or> length iv = 16"
  shows "has_iv (layout lib key n iv body) \<longleftrightarrow> length iv = 16"
proof -
  have "payload_len (layout lib key n iv body) = int n" using layout_parts(5) [OF assms(1)] assms(2) by simp
  moreover have "(int n + 36) mod 2 ^ 32 = int n + 36" using assms(2) by simp
  moreover have "n = 16 * (n div 16) + n mod 16" "n mod 16 < 16" by simp_all
  then have "int n = 16 * int (n div 16) + int (n mod 16)" "int (n mod 16) < 16" by linarith+
  ultimately show ?thesis
    using assms(3,4) layout_parts(1) [OF assms(1)] by (auto simp: has_iv_def)
qed

lemma decrypt_body_layout:
  assumes sig: "length (lib_hmac lib key (le32 (word_of_nat (length data)) @ iv' @ body)) = 32"
    and lib: "lib_update lib False key iv body = Some out" "lib_final lib False key iv body = Some rest" "out @ rest = data"
    and room: "36 + length iv' + length data \<le> length (ds_ptr str)"
    and len: "length data < 2 ^ 30" "36 + length iv' + length body < 2 ^ 31"
  shows "\<exists>str'. decrypt_body lib key iv (length iv') (layout lib key (length data) iv' body) str = Some (None, str') \<and>
    take (ds_length str') (ds_ptr str') = data \<and> ds_length str' = length data \<and>
    length (ds_ptr str') = length (ds_ptr str)"
proof -
  let ?c = "layout lib key (length data) iv' body"
  let ?n = "36 + length iv'"
  note parts = layout_parts [OF sig]
  obtain a b where ab: "ds_ptr str = a @ b" "length a = ?n" and b: "length data \<le> length b"
    using room by (intro that [of "take ?n (ds_ptr str)" "drop ?n (ds_ptr str)"]) auto
  have data: "length data = length out + length rest" using lib(3) by auto
  let ?s1 = "str\<lparr>ds_ptr := a @ out @ drop (length out) b\<rparr>"
  let ?s2 = "str\<lparr>ds_ptr := a @ data @ drop (length data) b\<rparr>"
  have 1: "store_at ?n out str = Some ?s1"
    using ab b data by (subst store_at_fits) simp_all
  have "drop (length rest) (drop (length out) b) = drop (length data) b" using data by (simp add: add.commute)
  then have 2: "store_at (?n + length out) rest ?s1 = Some ?s2"
    unfolding lib(3) [symmetric] using ab b data by (subst store_at_fits) simp_all
  have inl: "to_int (int (length ?c)) - int ?n = int (length body)"
    using parts(1) len by (subst to_int_length) simp_all
  have stream: "cipher_stream lib False key iv ?n (to_int (int (length ?c)) - int ?n) (drop ?n ?c) str =
      Some (Some (length data), ?s2)"
    unfolding inl parts(3) using lib 1 2 data by (simp add: cipher_stream_def)
  have out_len: "nat (payload_len ?c mod 2 ^ 64) = length data"
    using parts(5) len by simp
  have read: "read_at ?n (length data) ?s2 = Some data"
    using ab by (simp add: read_at_def)
  define m where "m = data @ drop (length data) (ds_ptr ?s2)"
  have 3: "store_at 0 data ?s2 = Some (str\<lparr>ds_ptr := m\<rparr>)"
    using ab by (subst store_at_fits) (simp_all add: m_def)
  have "decrypt_body lib key iv (length iv') ?c str = Some (None, (str\<lparr>ds_ptr := m\<rparr>)\<lparr>ds_length := length data\<rparr>)"
    unfolding decrypt_body_def stream using parts(2) out_len read 3 by simp
  moreover have "length m = length (ds_ptr str)" using ab b by (simp add: m_def)
  ultimately show ?thesis by (intro exI) (auto simp: m_def)
qed

section \<open>Room for the result\<close>

lemma needed_size_rounds:
  assumes "len < 2 ^ 40"
  shows "needed_size len = 16 * ((len + 15) div 16) + 52"
proof -
  define q r where "q = len div 16" and "r = len mod 16"
  have len: "len = 16 * q + r" "r < 16" by (simp_all add: q_def r_def)
  then have "(len + 15) div 16 = (if r = 0 then q else q + 1)" by auto
  then have "len + (if r \<noteq> 0 then 16 - r else 0) = 16 * ((len + 15) div 16)" using len by simp
  moreover have "16 * ((len + 15) div 16) + 52 < 2 ^ 64" using assms by simp
  ultimately show ?thesis unfolding needed_size_def r_def [symmetric] by (metis sz_small)
qed

lemma cipher_room:
  assumes "k < 2 ^ 41" and "reliable A" and "0 < n" "n \<le> 4096"
  shows "\<exists>str. dynstr_check A (init_on_stack stk n) k = Some (True, str) \<and>
    (if k < n then length (ds_ptr str) = n else k + 65536 \<le> length (ds_ptr str))"
proof (cases "k < n")
  case True
  have "sz k = k" using assms(1) by simp
  then show ?thesis
    using True by (auto simp: dynstr_check_def init_on_stack_def dynstr_init_def stack_array_def)
next
  case False
  let ?n = "n + k + n div 2 + 65536"
  have n: "sz ?n = ?n" "sz k = k" using assms(1,4) by simp_all
  obtain arr where arr: "c_calloc A ?n = Some arr" using reliable_calloc [OF assms(2), of ?n] by auto
  then have "length arr = ?n" by (rule c_calloc_length)
  then show ?thesis
    using False n arr
    by (auto simp: dynstr_check_def init_on_stack_def dynstr_init_def stack_array_def poke_def Let_def)
qed

text \<open>
  The size that is asked for leaves out the block that padding adds to a text of whole blocks.  The
  growth of the buffer hides this, unless the buffer on the stack is just large enough.
\<close>

definition cipher_tight :: "nat \<Rightarrow> nat \<Rightarrow> bool" where
  "cipher_tight n len \<longleftrightarrow> needed_size len < n \<and> n < 68 + 16 * (len div 16)"

lemma cipher_tight_sizes:
  assumes "len < 2 ^ 30"
  shows "cipher_tight 4096 len \<longleftrightarrow> len = 4032" "cipher_tight 200 len \<longleftrightarrow> len = 144"
proof -
  define q r where "q = len div 16" and "r = len mod 16"
  have len: "len = 16 * q + r" "r < 16" by (simp_all add: q_def r_def)
  have need: "needed_size len = 16 * ((len + 15) div 16) + 52" using assms by (intro needed_size_rounds) simp
  have up: "(len + 15) div 16 = (if r = 0 then q else q + 1)" using len by auto
  show "cipher_tight 4096 len \<longleftrightarrow> len = 4032" "cipher_tight 200 len \<longleftrightarrow> len = 144"
    unfolding cipher_tight_def need up q_def [symmetric] using len by (auto, presburger+)
qed

lemma encrypt_room:
  assumes "\<not> (use_iv \<and> cipher_tight n len)" and "len < 2 ^ 30"
    and "if needed_size len < n then room = n else needed_size len + 65536 \<le> room"
  shows "36 + (if use_iv then 16 else 0) + 16 * (len div 16) + 16 \<le> room"
proof -
  have need: "needed_size len = 16 * ((len + 15) div 16) + 52" using assms(2) by (intro needed_size_rounds) simp
  moreover have "16 * (len div 16) \<le> 16 * ((len + 15) div 16)" by (simp add: div_le_mono)
  ultimately show ?thesis using assms(1,3) by (auto simp: cipher_tight_def split: if_splits)
qed

section \<open>Encryption and decryption\<close>

definition cipher_text :: "crypto_lib \<Rightarrow> byte list \<Rightarrow> bool \<Rightarrow> byte list \<Rightarrow> byte list \<Rightarrow> bool" where
  "cipher_text lib k use_iv data c \<longleftrightarrow>
     (\<exists>iv iv' out rest. c = layout lib k (length data) iv' (out @ rest) \<and> length iv = 16 \<and>
        iv' = (if use_iv then iv else []) \<and> (\<not> use_iv \<longrightarrow> iv = replicate 16 0) \<and>
        lib_update lib True k iv data = Some out \<and> lib_final lib True k iv data = Some rest)"

lemma works_context:
  assumes "cipher_works env"
  shows "\<exists>a s1. os_call env ''EVP_CIPHER_CTX_new'' [] s = (a, s1) \<and> a_ret a \<noteq> 0"
    and "\<exists>a s1. os_call env ''EVP_CipherInit'' [] s = (a, s1) \<and> a_ret a \<noteq> 0"
  using assms os_call_result [of env _ "[]" s] unfolding cipher_works_def by (metis prod.collapse)+

lemma random_iv: "\<exists>iv s2. cipher_iv env True use_iv data s = (iv, s2) \<and> length iv = 16 \<and>
    (\<not> use_iv \<longrightarrow> iv = replicate 16 0)"
  by (cases use_iv; cases "os_call env ''RAND_bytes'' [LInt 16] s") (simp_all add: cipher_iv_def)

lemma encrypts:
  assumes laws: "cipher_laws lib" and env: "cipher_works env" and A: "reliable A"
    and key: "fold_key key = Some k" and len: "length data < 2 ^ 30" and fits: "\<not> (use_iv \<and> cipher_tight n (length data))" and n: "0 < n" "n \<le> 4096"
  shows "\<exists>str s'. crypto_cipher env lib A data key use_iv True (init_on_stack stk n) s = Some ((None, str), s') \<and>
    cipher_text lib k use_iv data (take (ds_length str) (ds_ptr str)) \<and>
    ds_length str \<le> length (ds_ptr str) \<and> ds_length str < 2 ^ 31"
proof -
  obtain a s1 where ctx: "os_call env ''EVP_CIPHER_CTX_new'' [] s = (a, s1)" "a_ret a \<noteq> 0"
    using works_context(1) [OF env] by blast
  have "needed_size (length data) < 2 ^ 41" using needed_size_rounds [of "length data"] len by simp
  from cipher_room [OF this A n] obtain str where
    str: "dynstr_check A (init_on_stack stk n) (needed_size (length data)) = Some (True, str)"
      "if needed_size (length data) < n then length (ds_ptr str) = n
       else needed_size (length data) + 65536 \<le> length (ds_ptr str)" by blast
  let ?n = "if use_iv then 16 else 0 :: nat"
  obtain iv s2 where iv: "cipher_iv env True use_iv data s1 = (iv, s2)" "length iv = 16"
      "\<not> use_iv \<longrightarrow> iv = replicate 16 0"
    using random_iv by blast
  obtain b s3 where init: "os_call env ''EVP_CipherInit'' [] s2 = (b, s3)" "a_ret b \<noteq> 0"
    using works_context(2) [OF env] by blast
  let ?iv = "if use_iv then iv else []"
  obtain out rest where lib: "lib_update lib True k iv data = Some out" "lib_final lib True k iv data = Some rest"
      "length out = 16 * (length data div 16)" "length rest = 16"
    using laws fold_key_length [OF key] iv(2) unfolding cipher_laws_def by blast
  have room: "36 + length ?iv + length out + length rest \<le> length (ds_ptr str)"
    using encrypt_room [OF fits len str(2)] lib(3,4) iv(2) by (cases use_iv) simp_all
  have sig: "length (lib_hmac lib k (le32 (word_of_nat (length data)) @ ?iv @ out @ rest)) = 32"
    using laws by (simp add: cipher_laws_def)
  have "take ?n iv = ?iv" "length ?iv = ?n" "length data < 2 ^ 31" using iv(2) len by simp_all
  from encrypt_body_layout [OF room this(1,2) lib(1,2) sig this(3)]
  obtain str' where body: "encrypt_body lib k iv ?n data str = Some (None, str')"
      "take (ds_length str') (ds_ptr str') = layout lib k (length data) ?iv (out @ rest)"
      "ds_length str' = 36 + ?n + length out + length rest" "length (ds_ptr str') = length (ds_ptr str)"
    by blast
  have "cipher_run env lib True k use_iv data str s1 = Some ((None, str'), s3)"
    using iv(1) init body(1) by (simp add: cipher_run_def Let_def)
  then have "crypto_cipher env lib A data key use_iv True (init_on_stack stk n) s =
      Some ((None, str'), snd (os_call env ''EVP_CIPHER_CTX_free'' [] s3))"
    using key ctx str(1) by (simp add: crypto_cipher_def Let_def)
  moreover have "cipher_text lib k use_iv data (take (ds_length str') (ds_ptr str'))"
    unfolding cipher_text_def body(2) using iv(2,3) lib(1,2) by blast
  moreover have "16 * (length data div 16) \<le> length data" by simp
  then have "16 * (length data div 16) < 2 ^ 30" using len by (rule le_less_trans)
  then have "ds_length str' < 2 ^ 31" using body(3) lib(3,4) by (cases use_iv) simp_all
  moreover have "ds_length str' \<le> length (ds_ptr str')" using body(3,4) room iv(2) by (simp split: if_splits)
  ultimately show ?thesis by blast
qed

lemma decrypts:
  assumes laws: "cipher_laws lib" and env: "cipher_works env" and A: "reliable A"
    and key: "fold_key key = Some k" and len: "length data < 2 ^ 30" and c: "cipher_text lib k use_iv data c"
    and n: "0 < n" "n \<le> 4096"
  shows "\<exists>str s'. crypto_cipher env lib A c key w False (init_on_stack stk n) s = Some ((None, str), s') \<and>
    take (ds_length str) (ds_ptr str) = data \<and> ds_length str = length data \<and> length data \<le> length (ds_ptr str)"
proof -
  obtain a s1 where ctx: "os_call env ''EVP_CIPHER_CTX_new'' [] s = (a, s1)" "a_ret a \<noteq> 0"
    using works_context(1) [OF env] by blast
  obtain b s2 where init: "os_call env ''EVP_CipherInit'' [] s1 = (b, s2)" "a_ret b \<noteq> 0"
    using works_context(2) [OF env] by blast
  obtain iv iv' out rest where enc: "c = layout lib k (length data) iv' (out @ rest)" "length iv = 16"
      "iv' = (if use_iv then iv else [])" "\<not> use_iv \<longrightarrow> iv = replicate 16 0"
      "lib_update lib True k iv data = Some out" "lib_final lib True k iv data = Some rest"
    using c unfolding cipher_text_def by blast
  obtain out' rest' where lens: "length out = 16 * (length data div 16)" "length rest = 16"
      and dec: "lib_update lib False k iv (out @ rest) = Some out'" "lib_final lib False k iv (out @ rest) = Some rest'"
      "out' @ rest' = data"
    using laws fold_key_length [OF key] enc(2,5,6) unfolding cipher_laws_def by (metis option.sel)
  have sig: "length (lib_hmac lib k (le32 (word_of_nat (length data)) @ iv' @ out @ rest)) = 32"
    using laws by (simp add: cipher_laws_def)
  note parts = layout_parts [OF sig, folded enc(1)]
  have iv_len: "length iv' = (if use_iv then 16 else 0)" using enc(2,3) by simp
  have has: "has_iv c \<longleftrightarrow> use_iv"
    using layout_has_iv [OF sig len] lens iv_len unfolding enc(1) by simp
  have div_le: "16 * (length data div 16) \<le> length data" "length data < 16 * (length data div 16) + 16" by simp_all
  have len_c: "length c = 36 + length iv' + 16 * (length data div 16) + 16" using parts(1) lens by simp
  have "16 * (length data div 16) < 2 ^ 30" using div_le(1) len by (rule le_less_trans)
  then have "length c < 2 ^ 40" using len_c iv_len by (cases use_iv) simp_all
  then have need: "needed_size (length c) = 16 * ((length c + 15) div 16) + 52" by (rule needed_size_rounds)
  then have "needed_size (length c) < 2 ^ 41" using \<open>length c < 2 ^ 40\<close> by simp
  from cipher_room [OF this A n] obtain str where
    str: "dynstr_check A (init_on_stack stk n) (needed_size (length c)) = Some (True, str)"
      "if needed_size (length c) < n then length (ds_ptr str) = n
       else needed_size (length c) + 65536 \<le> length (ds_ptr str)" by blast
  have "length c \<le> length (ds_ptr str)" using str(2) need by (auto split: if_splits)
  then have room: "36 + length iv' + length data \<le> length (ds_ptr str)" using len_c div_le(2) by linarith
  have "36 + length iv' + length (out @ rest) < 2 ^ 31"
    using lens iv_len \<open>16 * (length data div 16) < 2 ^ 30\<close> by (cases use_iv) simp_all
  from decrypt_body_layout [OF sig dec room len this, folded enc(1)]
  obtain str' where body: "decrypt_body lib k iv (length iv') c str = Some (None, str')"
      "take (ds_length str') (ds_ptr str') = data" "ds_length str' = length data"
      "length (ds_ptr str') = length (ds_ptr str)"
    by blast
  have "cipher_iv env False use_iv c s1 = (iv, s1)"
    using parts(4) enc(3,4) iv_len by (cases use_iv) (simp_all add: cipher_iv_def)
  then have "cipher_run env lib False k use_iv c str s1 = Some ((None, str'), s2)"
    using init body(1) iv_len by (simp add: cipher_run_def Let_def)
  then have "crypto_cipher env lib A c key w False (init_on_stack stk n) s =
      Some ((None, str'), snd (os_call env ''EVP_CIPHER_CTX_free'' [] s2))"
    using key ctx str(1) has len_c iv_len by (simp add: crypto_cipher_def Let_def)
  then show ?thesis using body room by auto
qed

text \<open>
  C12. What Lua encrypts with a key of at least 16 bytes, with or without a vector, it can decrypt with the
  same key and any value of the third argument, provided memory can be had and the text is not one
  of the 4032 bytes of \<open>cipher_overflows\<close>.
\<close>

theorem cipher_roundtrip:
  assumes "cipher_laws lib" and "cipher_works env" and "cipher_works env'" and "reliable A" and "reliable A'"
    and "16 \<le> length key" and "length data < 2 ^ 30" and "\<not> (use_iv \<and> length data = 4032)"
  shows "\<exists>c s1 s2. l_crypto_cipher env lib A stk [LStr data, LStr key, LBool use_iv, LBool True] s = (Returns [LStr c], s1) \<and>
    l_crypto_cipher env' lib A' stk' [LStr c, LStr key, LBool w, LBool False] s' = (Returns [LStr data], s2)"
proof -
  obtain k where key: "fold_key key = Some k" using fold_key_some [OF assms(6)] by blast
  have n: "(0 :: nat) < 4096" "(4096 :: nat) \<le> 4096" by simp_all
  have loose: "\<not> (use_iv \<and> cipher_tight 4096 (length data))" using cipher_tight_sizes(1) [OF assms(7)] assms(8) by simp
  obtain str s1 where enc: "crypto_cipher env lib A data key use_iv True (init_on_stack stk 4096) s = Some ((None, str), s1)"
      "cipher_text lib k use_iv data (take (ds_length str) (ds_ptr str))"
      "ds_length str \<le> length (ds_ptr str)" "ds_length str < 2 ^ 31"
    using encrypts [OF assms(1,2,4) key assms(7) loose n, of stk s] by blast
  let ?c = "take (ds_length str) (ds_ptr str)"
  obtain str' s2 where dec: "crypto_cipher env' lib A' ?c key w False (init_on_stack stk' 4096) s' = Some ((None, str'), s2)"
      "take (ds_length str') (ds_ptr str') = data" "ds_length str' = length data" "length data \<le> length (ds_ptr str')"
    using decrypts [OF assms(1,3,5) key assms(7) enc(2) n, of w stk' s'] by blast
  have "l_crypto_cipher env lib A stk [LStr data, LStr key, LBool use_iv, LBool True] s = (Returns [LStr ?c], s1)"
    using enc by (simp add: l_crypto_cipher_def push_block_def)
  moreover have "l_crypto_cipher env' lib A' stk' [LStr ?c, LStr key, LBool w, LBool False] s' = (Returns [LStr data], s2)"
    using dec assms(7) by (simp add: l_crypto_cipher_def push_block_def)
  ultimately show ?thesis by blast
qed

text \<open>A library that satisfies the laws: the cipher that changes nothing, with padding.\<close>

definition plain_lib :: crypto_lib where
  "plain_lib =
     \<lparr>lib_sha1 = (\<lambda>d. replicate 20 0), lib_sha256 = (\<lambda>d. replicate 32 0), lib_hmac = (\<lambda>k d. replicate 32 0),
      lib_update = (\<lambda>enc k iv d. Some (if enc then take (16 * (length d div 16)) d else take (length d - 16) d)),
      lib_final = (\<lambda>enc k iv d. Some
        (if enc then drop (16 * (length d div 16)) d @ replicate (16 - length d mod 16) (word_of_nat (16 - length d mod 16))
         else take (16 - unat (last d)) (drop (length d - 16) d))),
      lib_base64 = (\<lambda>d. []), lib_decode = (\<lambda>d. None), lib_decode_end = (\<lambda>d. (- 1, []))\<rparr>"

lemma plain_lib_inverts:
  fixes d :: "byte list"
  defines "r \<equiv> length d mod 16"
  defines "c \<equiv> take (16 * (length d div 16)) d @ drop (16 * (length d div 16)) d @ replicate (16 - r) (word_of_nat (16 - r))"
  shows "take (length c - 16) c @ take (16 - unat (last c)) (drop (length c - 16) c) = d"
proof -
  have r: "r < 16" by (simp add: r_def)
  have "length (drop (16 * (length d div 16)) d) = r" by (simp add: r_def minus_mult_div_eq_mod)
  then have split: "drop (length c - 16) c = drop (16 * (length d div 16)) d @ replicate (16 - r) (word_of_nat (16 - r))"
      "take (length c - 16) c = take (16 * (length d div 16)) d"
    using r by (simp_all add: c_def)
  have "last c = word_of_nat (16 - r)" using r by (simp add: c_def)
  then have "unat (last c) = 16 - r" by (simp add: unat_of_nat take_bit_eq_mod)
  then have "take (16 - unat (last c)) (drop (length c - 16) c) = drop (16 * (length d div 16)) d"
    unfolding split(1) using r \<open>length (drop (16 * (length d div 16)) d) = r\<close> by simp
  then show ?thesis using split(2) by simp
qed

lemma plain_lib_laws: "cipher_laws plain_lib"
  using plain_lib_inverts by (simp add: cipher_laws_def plain_lib_def minus_mult_div_eq_mod del: append_assoc drop_append take_append)

theorem cipher_roundtrip_witness:
  "\<exists>c s1 s2. l_crypto_cipher (const_env 1) plain_lib (\<lambda>n. Some (\<lambda>i. 0)) (\<lambda>i. 9)
        [LStr [1, 2, 3], LStr (replicate 16 7), LBool True, LBool True] idle_server = (Returns [LStr c], s1) \<and>
    l_crypto_cipher (const_env 1) plain_lib (\<lambda>n. Some (\<lambda>i. 0)) (\<lambda>i. 9)
        [LStr c, LStr (replicate 16 7), LBool True, LBool False] idle_server = (Returns [LStr [1, 2, 3]], s2)"
  by (rule cipher_roundtrip) (simp_all add: plain_lib_laws cipher_works_def reliable_def)

lemma encrypt_overflows:
  assumes laws: "cipher_laws lib" and env: "cipher_works env" and key: "fold_key key = Some k"
    and tight: "n = 4096 \<and> length data = 4032 \<or> n = 200 \<and> length data = 144"
  shows "crypto_cipher env lib A data key True True (init_on_stack stk n) s = None"
proof -
  obtain a s1 where ctx: "os_call env ''EVP_CIPHER_CTX_new'' [] s = (a, s1)" "a_ret a \<noteq> 0"
    using works_context(1) [OF env] by blast
  let ?str = "init_on_stack stk n"
  have str: "dynstr_check A ?str (needed_size (length data)) = Some (True, ?str)"
    using tight by (auto simp: needed_size_rounds dynstr_check_def init_on_stack_def dynstr_init_def)
  have size: "length (ds_ptr ?str) = n"
    by (simp add: init_on_stack_def dynstr_init_def stack_array_def)
  obtain iv s2 where iv: "cipher_iv env True True data s1 = (iv, s2)" "length iv = 16"
    using random_iv by blast
  obtain b s3 where init: "os_call env ''EVP_CipherInit'' [] s2 = (b, s3)" "a_ret b \<noteq> 0"
    using works_context(2) [OF env] by blast
  obtain out rest where lib: "lib_update lib True k iv data = Some out" "lib_final lib True k iv data = Some rest"
      "length out = 16 * (length data div 16)" "length rest = 16"
    using laws fold_key_length [OF key] iv(2) unfolding cipher_laws_def by blast
  have "to_int (int (length data)) = int (length data)" using tight by (intro to_int_length) auto
  then have "encrypt_body lib k iv 16 data ?str = None"
    using lib iv(2) size tight
    by (auto simp: encrypt_body_def cipher_stream_def store_at_def poke_def Let_def)
  then have "cipher_run env lib True k True data ?str s1 = None"
    using iv(1) init by (simp add: cipher_run_def)
  then show ?thesis
    using key ctx str by (simp add: crypto_cipher_def)
qed

text \<open>
  A text of 4032 bytes, encrypted with a vector: the result has 4100 bytes, 4084 are asked for, and the
  array on the stack has 4096.
\<close>

theorem cipher_overflows:
  assumes "cipher_laws lib" and "cipher_works env" and "16 \<le> length key" and "length data = 4032"
  shows "fst (l_crypto_cipher env lib A stk [LStr data, LStr key, LBool True, LBool True] s) = Fault"
proof -
  obtain k where key: "fold_key key = Some k" using fold_key_some [OF assms(3)] by blast
  have "crypto_cipher env lib A data key True True (init_on_stack stk 4096) s = None"
    using assms(4) by (intro encrypt_overflows [OF assms(1,2) key]) simp
  then show ?thesis by (simp add: l_crypto_cipher_def)
qed

theorem cipher_overflows_witness:
  "fst (l_crypto_cipher (const_env 1) plain_lib (\<lambda>n. None) (\<lambda>i. 9)
     [LStr (replicate 4032 1), LStr (replicate 16 7), LBool True, LBool True] idle_server) = Fault"
  by (rule cipher_overflows) (simp_all add: plain_lib_laws cipher_works_def)

text \<open>
  C13. A text whose signature is not the one the key gives is never decrypted: the answer is nil and a
  message, whatever OpenSSL and the memory do.
\<close>

theorem cipher_rejects_forgery:
  assumes "take 32 data \<noteq> take 32 (lib_hmac lib (the (fold_key key)) (drop 32 data))" and "length data < 2 ^ 40"
  shows "\<exists>msg s'. l_crypto_cipher env lib A stk [LStr data, LStr key, LBool w, LBool False] s =
    (Returns [LNil, LStr msg], s')"
proof -
  have "needed_size (length data) = 16 * ((length data + 15) div 16) + 52" using assms(2) by (rule needed_size_rounds)
  then have lim: "needed_size (length data) \<le> mem_limit" using assms(2) by (simp add: mem_limit_def)
  have small: "4096 \<le> mem_limit" by (simp add: mem_limit_def)
  have "\<exists>ok str. dynstr_check A (init_on_stack stk 4096) (needed_size (length data)) = Some (ok, str)"
    by (rule make_room [OF small lim, of A stk]) blast+
  then obtain ok str where check: "dynstr_check A (init_on_stack stk 4096) (needed_size (length data)) = Some (ok, str)"
    by blast
  have run: "\<exists>msg s2. cipher_run env lib False k (has_iv data) data str s1 = Some ((Some msg, str), s2)"
    if "fold_key key = Some k" for k s1
    using that assms(1) by (auto simp: cipher_run_def decrypt_body_def Let_def split: prod.splits)
  show ?thesis
  proof (cases "fold_key key")
    case None
    then show ?thesis by (simp add: l_crypto_cipher_def crypto_cipher_def)
  next
    case (Some k)
    obtain a s1 where ctx: "os_call env ''EVP_CIPHER_CTX_new'' [] s = (a, s1)" by (metis prod.exhaust)
    obtain msg s2 where "cipher_run env lib False k (has_iv data) data str s1 = Some ((Some msg, str), s2)"
      using run [OF Some] by blast
    then show ?thesis
      using Some ctx check
      by (cases ok; cases "has_iv data") (simp_all add: l_crypto_cipher_def crypto_cipher_def Let_def)
  qed
qed

theorem cipher_rejects_forgery_witness:
  "\<exists>msg s'. l_crypto_cipher (const_env 1) plain_lib (\<lambda>n. None) (\<lambda>i. 9)
      [LStr (replicate 60 1), LStr (replicate 16 7), LBool True, LBool False] idle_server =
    (Returns [LNil, LStr msg], s')"
  by (rule cipher_rejects_forgery) (simp_all add: plain_lib_def)

section \<open>Contexts are released\<close>

lemma open_other: "a = AOther name args \<Longrightarrow> name \<noteq> new \<Longrightarrow> name \<noteq> free \<Longrightarrow>
    open_objects env new free h [a] = 0"
  by simp

lemma cipher_run_hist:
  assumes "cipher_run env lib encrypt key use_iv data str s = Some (r, s')"
  shows "hist s' = hist s @ [AOther ''EVP_CipherInit'' []] \<or>
    hist s' = hist s @ [AOther ''RAND_bytes'' [LInt 16], AOther ''EVP_CipherInit'' []]"
proof -
  obtain iv s1 where iv: "cipher_iv env encrypt use_iv data s = (iv, s1)" by (metis prod.exhaust)
  then have "hist s1 = hist s \<or> hist s1 = hist s @ [AOther ''RAND_bytes'' [LInt 16]]"
    by (auto simp: cipher_iv_def os_call_def act_def Let_def split: if_splits)
  moreover have "s' = snd (os_call env ''EVP_CipherInit'' [] s1)"
    using assms iv by (auto simp: cipher_run_def Let_def split: prod.splits if_splits)
  ultimately show ?thesis by auto
qed

lemma os_call_pair: "os_call env name args s = (a, s') \<Longrightarrow>
    hist s' = hist s @ [AOther name args] \<and> a = answers env (hist s @ [AOther name args])"
  by (metis fst_conv os_call_hist os_call_result snd_conv)

lemma cipher_releases:
  assumes "crypto_cipher env lib A data key w encrypt str s = Some (r, s')"
  shows "held env ''EVP_CIPHER_CTX_new'' ''EVP_CIPHER_CTX_free'' s s' = 0"
proof -
  let ?new = "AOther ''EVP_CIPHER_CTX_new'' []" and ?free = "AOther ''EVP_CIPHER_CTX_free'' []"
  let ?held = "\<lambda>tr. open_objects env ''EVP_CIPHER_CTX_new'' ''EVP_CIPHER_CTX_free'' (hist s) tr"
  obtain a s1 where ctx: "os_call env ''EVP_CIPHER_CTX_new'' [] s = (a, s1)" by (metis prod.exhaust)
  note h = os_call_pair [OF ctx]
  consider "s' = s" | "s' = s1" "a_ret a = 0"
    | "a_ret a \<noteq> 0" "s' = snd (os_call env ''EVP_CIPHER_CTX_free'' [] s1)"
    | use_iv k str1 s2 where "a_ret a \<noteq> 0" "cipher_run env lib encrypt k use_iv data str1 s1 = Some (r, s2)"
        "s' = snd (os_call env ''EVP_CIPHER_CTX_free'' [] s2)"
    using assms ctx
    by (auto simp: crypto_cipher_def Let_def bind_eq_Some_conv split: option.splits if_splits prod.splits)
  then show ?thesis
  proof cases
    case 1
    then show ?thesis by (simp add: held_def since_def)
  next
    case 2
    then show ?thesis using h held_hist [of s' s "[?new]"] by simp
  next
    case 3
    then show ?thesis using h held_hist [of s' s "[?new, ?free]"] by simp
  next
    case 4
    from cipher_run_hist [OF this(2)] obtain tr where
      "hist s2 = hist s1 @ tr" "tr = [AOther ''EVP_CipherInit'' []] \<or> tr = [AOther ''RAND_bytes'' [LInt 16], AOther ''EVP_CipherInit'' []]"
      by blast
    then show ?thesis using 4 h held_hist [of s' s "?new # tr @ [?free]"] by auto
  qed
qed

lemma from64_releases:
  assumes "crypto_from64 env lib A data str s = Some (r, s')"
  shows "held env ''EVP_ENCODE_CTX_new'' ''EVP_ENCODE_CTX_free'' s s' = 0"
proof -
  let ?new = "AOther ''EVP_ENCODE_CTX_new'' []" and ?free = "AOther ''EVP_ENCODE_CTX_free'' []"
  obtain a s1 where ctx: "os_call env ''EVP_ENCODE_CTX_new'' [] s = (a, s1)" by (metis prod.exhaust)
  note h = os_call_pair [OF ctx]
  consider "s' = s1" "a_ret a = 0" | "a_ret a \<noteq> 0" "s' = snd (os_call env ''EVP_ENCODE_CTX_free'' [] s1)"
    using assms ctx
    by (auto simp: crypto_from64_def Let_def bind_eq_Some_conv split: option.splits if_splits prod.splits)
  then show ?thesis
  proof cases
    case 1
    then show ?thesis using h held_hist [of s' s "[?new]"] by simp
  next
    case 2
    then show ?thesis using h held_hist [of s' s "[?new, ?free]"] by simp
  qed
qed

end
