(* ===== verification/Crypto_Ssl.thy ===== *)
theory Crypto_Ssl
  imports Crypto_Cipher
begin

text \<open>
  The TLS contexts, connections, keys and signatures of \<^verbatim>\<open>src/80s/crypto.c\<close>, as it is built on
  Linux (without \<open>USE_KTLS\<close>).  Every OpenSSL object is an address the environment answers with, 0
  is the null pointer; the order of the calls and the releases on the error paths are the code's.
  What a function reports is a message (\<open>Inl\<close>, with the return code \<open>-1\<close>) or its result (\<open>Inr\<close>).
\<close>

section \<open>Contexts\<close>

text \<open>Loading a certificate and its key: the message of the first step that fails.\<close>

definition ssl_use_keys :: "env \<Rightarrow> int \<Rightarrow> byte list \<Rightarrow> byte list \<Rightarrow> server \<Rightarrow> string option \<times> server" where
  "ssl_use_keys env ctx pubkey privkey s =
     (case os_call env ''SSL_CTX_use_certificate_file'' [LInt ctx, LStr pubkey] s of
        (a, s1) \<Rightarrow>
          if a_ret a = 0 then (Some ''failed to load public key'', s1)
          else
            (case os_call env ''SSL_CTX_use_PrivateKey_file'' [LInt ctx, LStr privkey] s1 of
               (b, s2) \<Rightarrow>
                 if a_ret b = 0 then (Some ''failed to load private key'', s2)
                 else
                   (case os_call env ''SSL_CTX_check_private_key'' [LInt ctx] s2 of
                      (c, s3) \<Rightarrow> (if a_ret c = 0 then Some ''keys do not match'' else None, s3))))"

definition cipher_list :: "byte list" where
  "cipher_list = cstr ''ECDHE-ECDSA-AES256-GCM-SHA384:ECDHE-RSA-AES256-GCM-SHA384:ECDHE-ECDSA-CHACHA20-POLY1305:ECDHE-RSA-CHACHA20-POLY1305:ECDHE-ECDSA-AES128-GCM-SHA256:ECDHE-RSA-AES128-GCM-SHA256''"

definition ssl_set_ciphers :: "env \<Rightarrow> int \<Rightarrow> server \<Rightarrow> string option \<times> server" where
  "ssl_set_ciphers env ctx s =
     (let refuse = Some ''device doesn't support cipher mode'' in
      case os_call env ''SSL_CTX_set_cipher_list'' [LInt ctx, LStr cipher_list]
          (snd (os_call env ''SSL_CTX_set_options'' [LInt ctx] s)) of
        (a, s1) \<Rightarrow>
          if a_ret a = 0 then (refuse, s1)
          else
            (case os_call env ''SSL_CTX_set_ciphersuites'' [LInt ctx, LStr (cstr ''TLS_AES_128_GCM_SHA256'')] s1 of
               (b, s2) \<Rightarrow> (if a_ret b = 0 then refuse else None, s2)))"

text \<open>The context is released when a step fails.\<close>

definition ssl_or_free :: "env \<Rightarrow> int \<Rightarrow> string option \<times> server \<Rightarrow> (server \<Rightarrow> (string + int) \<times> server) \<Rightarrow>
    (string + int) \<times> server" where
  "ssl_or_free env ctx r next_step =
     (case r of
        (Some msg, s) \<Rightarrow> (Inl msg, snd (os_call env ''SSL_CTX_free'' [LInt ctx] s))
      | (None, s) \<Rightarrow> next_step s)"

definition crypto_ssl_new_server :: "env \<Rightarrow> byte list \<Rightarrow> byte list \<Rightarrow> server \<Rightarrow> (string + int) \<times> server" where
  "crypto_ssl_new_server env pubkey privkey s =
     (case os_call env ''SSL_CTX_new'' [] s of
        (a, s1) \<Rightarrow>
          if a_ret a = 0 then (Inl ''failed to allocate ssl ctx'', s1)
          else
            ssl_or_free env (a_ret a) (ssl_use_keys env (a_ret a) pubkey privkey s1) (\<lambda>s2.
            ssl_or_free env (a_ret a) (ssl_set_ciphers env (a_ret a) s2) (\<lambda>s3.
            (Inr (a_ret a), s3))))"

definition string_arg :: "byte list option \<Rightarrow> lua_value" where
  "string_arg x = (case x of None \<Rightarrow> LNil | Some bs \<Rightarrow> LStr bs)"

definition ssl_load_ca :: "env \<Rightarrow> int \<Rightarrow> byte list option \<Rightarrow> byte list option \<Rightarrow> server \<Rightarrow> string option \<times> server" where
  "ssl_load_ca env ctx ca_file ca_path s =
     (let ca_path = (case ca_path of None \<Rightarrow> Some (cstr ''/etc/ssl/certs'') | Some p \<Rightarrow> Some p) in
      if ca_file \<noteq> None \<or> ca_path \<noteq> None then
        (case os_call env ''SSL_CTX_load_verify_locations'' [LInt ctx, string_arg ca_file, string_arg ca_path] s of
           (a, s1) \<Rightarrow> (if a_ret a = 0 then Some ''failed to load SSL certificates'' else None, s1))
      else (None, s))"

definition crypto_ssl_new_client :: "env \<Rightarrow> byte list option \<Rightarrow> byte list option \<Rightarrow> byte list option \<Rightarrow>
    byte list option \<Rightarrow> server \<Rightarrow> (string + int) \<times> server" where
  "crypto_ssl_new_client env ca_file ca_path pubkey privkey s =
     (case os_call env ''SSL_CTX_new'' [] s of
        (a, s1) \<Rightarrow>
          if a_ret a = 0 then (Inl ''failed to allocate ssl ctx'', s1)
          else
            ssl_or_free env (a_ret a) (ssl_load_ca env (a_ret a) ca_file ca_path s1) (\<lambda>s2.
            ssl_or_free env (a_ret a)
              (case (pubkey, privkey) of
                 (Some pub, Some priv) \<Rightarrow> ssl_use_keys env (a_ret a) pub priv s2
               | _ \<Rightarrow> (None, s2)) (\<lambda>s3.
            ssl_or_free env (a_ret a) (ssl_set_ciphers env (a_ret a) s3) (\<lambda>s4.
            (Inr (a_ret a), s4)))))"

definition crypto_ssl_release :: "env \<Rightarrow> int \<Rightarrow> server \<Rightarrow> server" where
  "crypto_ssl_release env ctx s = snd (os_call env ''SSL_CTX_free'' [LInt ctx] s)"

section \<open>Connections\<close>

text \<open>
  \<open>struct ssl_nb_context\<close>: the connection and its two memory buffers, which \<open>SSL_free\<close> releases with
  it.  The blocks that are allocated are a map from addresses.
\<close>

record ssl_nb_context =
  nb_ssl :: int
  nb_rdbio :: int
  nb_wrbio :: int
  nb_open :: bool

type_synonym bio_store = "nat \<Rightarrow> ssl_nb_context option"

text \<open>Access to the connection behind an address: a block that was freed, or whose objects were, is a fault.\<close>

definition with_bio :: "bio_store \<Rightarrow> nat \<Rightarrow> (ssl_nb_context \<Rightarrow> 'r) \<Rightarrow> 'r option" where
  "with_bio st p f =
     (case st p of None \<Rightarrow> None | Some nb \<Rightarrow> if nb_open nb then Some (f nb) else None)"

definition crypto_ssl_bio_new :: "env \<Rightarrow> int \<Rightarrow> bio_store \<Rightarrow> server \<Rightarrow> nat option \<times> bio_store \<times> server" where
  "crypto_ssl_bio_new env ssl_ctx st s =
     (case os_call env ''calloc'' [] s of
        (p, s1) \<Rightarrow>
          if a_ret p = 0 then (None, st, s1)
          else
            (case os_call env ''BIO_new'' [] s1 of
               (r, s2) \<Rightarrow>
                 (case os_call env ''BIO_new'' [] s2 of
                    (w, s3) \<Rightarrow>
                      (case os_call env ''SSL_new'' [LInt ssl_ctx] s3 of
                         (c, s4) \<Rightarrow>
                           (Some (nat (a_ret p)),
                            st(nat (a_ret p) \<mapsto> \<lparr>nb_ssl = a_ret c, nb_rdbio = a_ret r, nb_wrbio = a_ret w, nb_open = True\<rparr>),
                            snd (os_call env ''SSL_set_bio'' [LInt (a_ret c), LInt (a_ret r), LInt (a_ret w)]
                              (snd (os_call env ''SSL_set_accept_state'' [LInt (a_ret c)]
                                (snd (os_call env ''SSL_set_ex_data'' [LInt (a_ret c), LInt (a_ret p)] s4))))))))))"

text \<open>A client connection; with a host name it verifies the certificate of the peer.\<close>

definition crypto_ssl_bio_new_connect :: "env \<Rightarrow> int \<Rightarrow> byte list option \<Rightarrow> bio_store \<Rightarrow> server \<Rightarrow>
    nat option \<times> bio_store \<times> server" where
  "crypto_ssl_bio_new_connect env ssl_ctx hostport st s =
     (case os_call env ''calloc'' [] s of
        (p, s1) \<Rightarrow>
          if a_ret p = 0 then (None, st, s1)
          else
            (case os_call env ''BIO_new'' [] s1 of
               (r, s2) \<Rightarrow>
                 (case os_call env ''BIO_new'' [] s2 of
                    (w, s3) \<Rightarrow>
                      (case os_call env ''SSL_new'' [LInt ssl_ctx] s3 of
                         (c, s4) \<Rightarrow>
                           (let ssl = LInt (a_ret c);
                                s5 = snd (os_call env ''BIO_set_nbio'' [LInt (a_ret w), LInt 1]
                                  (snd (os_call env ''BIO_set_nbio'' [LInt (a_ret r), LInt 1] s4)));
                                s6 = snd (os_call env ''SSL_set_bio'' [ssl, LInt (a_ret r), LInt (a_ret w)]
                                  (snd (os_call env ''SSL_set_connect_state'' [ssl]
                                    (snd (os_call env ''SSL_set_ex_data'' [ssl, LInt (a_ret p)] s5)))))
                            in (Some (nat (a_ret p)),
                                st(nat (a_ret p) \<mapsto> \<lparr>nb_ssl = a_ret c, nb_rdbio = a_ret r, nb_wrbio = a_ret w, nb_open = True\<rparr>),
                                (case hostport of
                                   None \<Rightarrow> s6
                                 | Some host \<Rightarrow>
                                     if host = [] then s6
                                     else
                                       snd (os_call env ''SSL_set_tlsext_host_name'' [ssl, LStr host]
                                         (snd (os_call env ''SSL_set1_host'' [ssl, LStr host]
                                           (snd (os_call env ''SSL_set_verify'' [ssl, LInt 1] s6))))))))))))"

text \<open>Flag 1 releases the OpenSSL objects, flag 2 the block.\<close>

definition crypto_ssl_bio_release :: "env \<Rightarrow> nat \<Rightarrow> int \<Rightarrow> bio_store \<Rightarrow> server \<Rightarrow> (bio_store \<times> server) option" where
  "crypto_ssl_bio_release env p flags st s =
     (case (if flags AND 1 \<noteq> 0 then
              with_bio st p (\<lambda>nb. (st(p \<mapsto> nb\<lparr>nb_open := False\<rparr>), snd (os_call env ''SSL_free'' [LInt (nb_ssl nb)] s)))
            else Some (st, s)) of
        None \<Rightarrow> None
      | Some (st1, s1) \<Rightarrow>
          if flags AND 2 \<noteq> 0 then (if st1 p = None then None else Some (st1(p := None), s1))
          else Some (st1, s1))"

definition crypto_ssl_bio_write :: "env \<Rightarrow> ssl_nb_context \<Rightarrow> byte list \<Rightarrow> server \<Rightarrow> int \<times> server" where
  "crypto_ssl_bio_write env nb data s =
     (case os_call env ''BIO_write'' [LInt (nb_rdbio nb), LStr data, LInt (to_int (int (length data)))] s of
        (a, s1) \<Rightarrow> (a_ret a, s1))"

text \<open>The number of bytes read, and the bytes.\<close>

definition crypto_ssl_bio_read :: "env \<Rightarrow> ssl_nb_context \<Rightarrow> nat \<Rightarrow> server \<Rightarrow> (int \<times> byte list) \<times> server" where
  "crypto_ssl_bio_read env nb size_max s =
     (case os_call env ''BIO_read'' [LInt (nb_wrbio nb), LInt (int size_max)] s of
        (a, s1) \<Rightarrow> ((a_ret a, a_bytes a), s1))"

definition crypto_ssl_write :: "env \<Rightarrow> ssl_nb_context \<Rightarrow> byte list \<Rightarrow> server \<Rightarrow> int \<times> server" where
  "crypto_ssl_write env nb data s =
     (case os_call env ''SSL_write'' [LInt (nb_ssl nb), LStr data, LInt (to_int (int (length data)))] s of
        (a, s1) \<Rightarrow> (a_ret a, s1))"

abbreviation (input) SSL_ERROR_NONE :: int where "SSL_ERROR_NONE \<equiv> 0"
abbreviation (input) SSL_ERROR_WANT_READ :: int where "SSL_ERROR_WANT_READ \<equiv> 2"
abbreviation (input) SSL_ERROR_WANT_WRITE :: int where "SSL_ERROR_WANT_WRITE \<equiv> 3"

definition ssl_get_error :: "env \<Rightarrow> ssl_nb_context \<Rightarrow> int \<Rightarrow> server \<Rightarrow> int \<times> server" where
  "ssl_get_error env nb n s =
     (case os_call env ''SSL_get_error'' [LInt (nb_ssl nb), LInt n] s of (a, s1) \<Rightarrow> (a_ret a, s1))"

text \<open>The count, the bytes, and the two flags, which start as given.\<close>

definition crypto_ssl_read :: "env \<Rightarrow> ssl_nb_context \<Rightarrow> nat \<Rightarrow> bool \<Rightarrow> bool \<Rightarrow> server \<Rightarrow>
    (int \<times> byte list \<times> bool \<times> bool) \<times> server" where
  "crypto_ssl_read env nb size_max want_write is_error s =
     (case os_call env ''SSL_read'' [LInt (nb_ssl nb), LInt (int size_max)] s of
        (a, s1) \<Rightarrow>
          (case ssl_get_error env nb (a_ret a) s1 of
             (err, s2) \<Rightarrow>
               ((if err = SSL_ERROR_NONE then (a_ret a, a_bytes a, False, False)
                 else if err = SSL_ERROR_WANT_WRITE \<or> err = SSL_ERROR_WANT_READ then (a_ret a, a_bytes a, True, False)
                 else (a_ret a, a_bytes a, want_write, True)), s2)))"

definition crypto_ssl_is_init_finished :: "env \<Rightarrow> ssl_nb_context \<Rightarrow> server \<Rightarrow> int \<times> server" where
  "crypto_ssl_is_init_finished env nb s =
     (case os_call env ''SSL_is_init_finished'' [LInt (nb_ssl nb)] s of (a, s1) \<Rightarrow> (a_ret a, s1))"

text \<open>
  The handshake.  On an error the queue of OpenSSL's errors, the values of one answer, is emptied and
  the text of the last is the message; there is none when the queue is empty.
\<close>

definition ssl_handshake :: "string \<Rightarrow> env \<Rightarrow> ssl_nb_context \<Rightarrow> server \<Rightarrow> (byte list option + bool) \<times> server" where
  "ssl_handshake f env nb s =
     (case os_call env f [LInt (nb_ssl nb)] s of
        (a, s1) \<Rightarrow>
          (case ssl_get_error env nb (a_ret a) s1 of
             (err, s2) \<Rightarrow>
               if err = SSL_ERROR_NONE then (Inr False, s2)
               else if err = SSL_ERROR_WANT_WRITE \<or> err = SSL_ERROR_WANT_READ then (Inr True, s2)
               else
                 (case os_call env ''ERR_get_error'' [] s2 of
                    (q, s3) \<Rightarrow> (Inl (if a_vals q = [] then None else Some (strerror env (last (a_vals q)))), s3))))"

definition crypto_ssl_accept :: "env \<Rightarrow> ssl_nb_context \<Rightarrow> server \<Rightarrow> (byte list option + bool) \<times> server" where
  "crypto_ssl_accept = ssl_handshake ''SSL_accept''"

definition crypto_ssl_connect :: "env \<Rightarrow> ssl_nb_context \<Rightarrow> server \<Rightarrow> (byte list option + bool) \<times> server" where
  "crypto_ssl_connect = ssl_handshake ''SSL_do_handshake''"

definition crypto_ssl_requests_io :: "env \<Rightarrow> ssl_nb_context \<Rightarrow> int \<Rightarrow> server \<Rightarrow> int \<times> server" where
  "crypto_ssl_requests_io env nb n s =
     (case ssl_get_error env nb n s of
        (err, s1) \<Rightarrow>
          (if err = SSL_ERROR_NONE then 0
           else if err = SSL_ERROR_WANT_WRITE \<or> err = SSL_ERROR_WANT_READ then 1 else - 1, s1))"

section \<open>Keys and signatures\<close>

text \<open>A key from a file or from memory; the reader and the message depend on the kind of key.\<close>

definition key_from_file :: "string \<Rightarrow> string \<Rightarrow> env \<Rightarrow> byte list \<Rightarrow> server \<Rightarrow> (string + int) \<times> server" where
  "key_from_file reader refuse env path s =
     (case os_call env ''fopen'' [LStr path] s of
        (f, s1) \<Rightarrow>
          if a_ret f = 0 then (Inl ''failed to open key file'', s1)
          else
            (case os_call env reader [LInt (a_ret f)] s1 of
               (k, s2) \<Rightarrow>
                 (if a_ret k = 0 then Inl refuse else Inr (a_ret k),
                  snd (os_call env ''fclose'' [LInt (a_ret f)] s2))))"

definition key_from_buffer :: "string \<Rightarrow> string \<Rightarrow> env \<Rightarrow> byte list \<Rightarrow> server \<Rightarrow> (string + int) \<times> server" where
  "key_from_buffer reader refuse env data s =
     (case os_call env ''BIO_new_mem_buf'' [LStr data, LInt (to_int (int (length data)))] s of
        (b, s1) \<Rightarrow>
          if a_ret b = 0 then (Inl ''failed to create bio'', s1)
          else
            (case os_call env reader [LInt (a_ret b)] s1 of
               (k, s2) \<Rightarrow>
                 (if a_ret k = 0 then Inl refuse else Inr (a_ret k),
                  snd (os_call env ''BIO_free'' [LInt (a_ret b)] s2))))"

definition crypto_private_key_new :: "env \<Rightarrow> byte list \<Rightarrow> server \<Rightarrow> (string + int) \<times> server" where
  "crypto_private_key_new = key_from_file ''PEM_read_PrivateKey'' ''failed to read private key''"

definition crypto_private_key_from_buffer_new :: "env \<Rightarrow> byte list \<Rightarrow> server \<Rightarrow> (string + int) \<times> server" where
  "crypto_private_key_from_buffer_new = key_from_buffer ''PEM_read_bio_PrivateKey'' ''failed to read private key''"

definition crypto_public_key_new :: "env \<Rightarrow> byte list \<Rightarrow> server \<Rightarrow> (string + int) \<times> server" where
  "crypto_public_key_new = key_from_file ''PEM_read_PUBKEY'' ''failed to read public key''"

definition crypto_public_key_from_buffer_new :: "env \<Rightarrow> byte list \<Rightarrow> server \<Rightarrow> (string + int) \<times> server" where
  "crypto_public_key_from_buffer_new = key_from_buffer ''PEM_read_bio_PUBKEY'' ''failed to read public key''"

definition free_key :: "env \<Rightarrow> int \<Rightarrow> server \<Rightarrow> server" where
  "free_key env key s = (if key \<noteq> 0 then snd (os_call env ''EVP_PKEY_free'' [LInt key] s) else s)"

definition crypto_private_key_release :: "env \<Rightarrow> int \<Rightarrow> server \<Rightarrow> server" where
  "crypto_private_key_release = free_key"

definition crypto_public_key_release :: "env \<Rightarrow> int \<Rightarrow> server \<Rightarrow> server" where
  "crypto_public_key_release = free_key"

text \<open>A call of the digest interface: anything but 1 is an error.\<close>

definition evp_ok :: "env \<Rightarrow> string \<Rightarrow> lua_value list \<Rightarrow> server \<Rightarrow> bool \<times> server" where
  "evp_ok env name args s = (case os_call env name args s of (a, s1) \<Rightarrow> (a_ret a = 1, s1))"

text \<open>
  Signing; a function that read the key itself also releases it (\<open>own\<close>), before the context.
\<close>

definition sign_done :: "env \<Rightarrow> bool \<Rightarrow> int \<Rightarrow> int \<Rightarrow> server \<Rightarrow> server" where
  "sign_done env own key md s =
     snd (os_call env ''EVP_MD_CTX_free'' [LInt md] (if own then free_key env key s else s))"

definition rsa_sign_with :: "env \<Rightarrow> bool \<Rightarrow> string \<Rightarrow> int \<Rightarrow> int \<Rightarrow> byte list \<Rightarrow> dynstr \<Rightarrow> server \<Rightarrow>
    ((string option \<times> dynstr) \<times> server) option" where
  "rsa_sign_with env own digest key md data out s =
     (case evp_ok env ''EVP_DigestSignInit'' [LInt md, LStr (cstr digest), LInt key] s of
        (ok, s1) \<Rightarrow>
          if \<not> ok then Some ((Some ''signing initialization failed'', out), sign_done env own key md s1)
          else
            (case evp_ok env ''EVP_DigestSignUpdate'' [LInt md, LStr data] s1 of
               (ok, s2) \<Rightarrow>
                 if \<not> ok then Some ((Some ''signing update failed'', out), sign_done env own key md s2)
                 else
                   (case os_call env ''EVP_DigestSignFinal'' [LInt md] s2 of
                      (a, s3) \<Rightarrow>
                        Option.bind (store_at 0 (a_bytes a) out) (\<lambda>out1.
                          if a_ret a \<noteq> 1 then Some ((Some ''signing finalization failed'', out1), sign_done env own key md s3)
                          else
                            Some ((None, out1\<lparr>ds_length := length (a_bytes a)\<rparr>), sign_done env own key md s3)))))"

definition rsa_sign :: "env \<Rightarrow> allocator \<Rightarrow> bool \<Rightarrow> string \<Rightarrow> int \<Rightarrow> byte list \<Rightarrow> dynstr \<Rightarrow> server \<Rightarrow>
    ((string option \<times> dynstr) \<times> server) option" where
  "rsa_sign env A own digest key data out s =
     (if key = 0 then Some ((Some ''failed to read privkey as EVP_PKEY'', out), s)
      else
        (case os_call env ''EVP_PKEY_size'' [LInt key] s of
           (n, s1) \<Rightarrow>
             Option.bind (dynstr_check A out (nat (a_ret n mod 2 ^ 64))) (\<lambda>(ok, out1).
               if \<not> ok then
                 Some ((Some ''failed to allocate enough memory'', out1), if own then free_key env key s1 else s1)
               else
                 (case os_call env ''EVP_MD_CTX_new'' [] (snd (os_call env ''EVP_PKEY_size'' [LInt key] s1)) of
                    (md, s2) \<Rightarrow>
                      if a_ret md = 0 then
                        Some ((Some ''failed to create signing context'', out1), if own then free_key env key s2 else s2)
                      else rsa_sign_with env own digest key (a_ret md) data out1 s2))))"

text \<open>With the path of a key, which is read first.\<close>

definition rsa_sign_file :: "env \<Rightarrow> allocator \<Rightarrow> string \<Rightarrow> byte list \<Rightarrow> byte list \<Rightarrow> dynstr \<Rightarrow> server \<Rightarrow>
    ((string option \<times> dynstr) \<times> server) option" where
  "rsa_sign_file env A digest path data out s =
     (case key_from_file ''PEM_read_PrivateKey'' ''failed to read privkey as EVP_PKEY'' env path s of
        (Inl msg, s1) \<Rightarrow> Some ((Some msg, out), s1)
      | (Inr key, s1) \<Rightarrow> rsa_sign env A True digest key data out s1)"

definition crypto_rsa_sha1 :: "env \<Rightarrow> allocator \<Rightarrow> byte list \<Rightarrow> byte list \<Rightarrow> dynstr \<Rightarrow> server \<Rightarrow>
    ((string option \<times> dynstr) \<times> server) option" where
  "crypto_rsa_sha1 env A = rsa_sign_file env A ''EVP_sha1''"

definition crypto_rsa_sha256 :: "env \<Rightarrow> allocator \<Rightarrow> byte list \<Rightarrow> byte list \<Rightarrow> dynstr \<Rightarrow> server \<Rightarrow>
    ((string option \<times> dynstr) \<times> server) option" where
  "crypto_rsa_sha256 env A = rsa_sign_file env A ''EVP_sha256''"

definition crypto_rsa_sha1_with_key :: "env \<Rightarrow> allocator \<Rightarrow> int \<Rightarrow> byte list \<Rightarrow> dynstr \<Rightarrow> server \<Rightarrow>
    ((string option \<times> dynstr) \<times> server) option" where
  "crypto_rsa_sha1_with_key env A = rsa_sign env A False ''EVP_sha1''"

definition crypto_rsa_sha256_with_key :: "env \<Rightarrow> allocator \<Rightarrow> int \<Rightarrow> byte list \<Rightarrow> dynstr \<Rightarrow> server \<Rightarrow>
    ((string option \<times> dynstr) \<times> server) option" where
  "crypto_rsa_sha256_with_key env A = rsa_sign env A False ''EVP_sha256''"

definition rsa_verify :: "string \<Rightarrow> env \<Rightarrow> int \<Rightarrow> byte list \<Rightarrow> byte list \<Rightarrow> server \<Rightarrow> string option \<times> server" where
  "rsa_verify digest env key data signature s =
     (if key = 0 then (Some ''failed to read privkey as EVP_PKEY'', s)
      else
        (case os_call env ''EVP_MD_CTX_new'' [] s of
           (md, s1) \<Rightarrow>
             if a_ret md = 0 then (Some ''failed to create verify context'', s1)
             else
               (let done = (\<lambda>s. snd (os_call env ''EVP_MD_CTX_free'' [LInt (a_ret md)] s)) in
                case evp_ok env ''EVP_DigestVerifyInit'' [LInt (a_ret md), LStr (cstr digest), LInt key] s1 of
                  (ok, s2) \<Rightarrow>
                    if \<not> ok then (Some ''verify initialization failed'', done s2)
                    else
                      (case evp_ok env ''EVP_DigestVerifyUpdate'' [LInt (a_ret md), LStr data] s2 of
                         (ok, s3) \<Rightarrow>
                           if \<not> ok then (Some ''verify update failed'', done s3)
                           else
                             (case evp_ok env ''EVP_DigestVerifyFinal'' [LInt (a_ret md), LStr signature] s3 of
                                (ok, s4) \<Rightarrow>
                                  (if \<not> ok then Some ''verify finalization failed'' else None, done s4))))))"

definition crypto_rsa_sha1_verify_with_key :: "env \<Rightarrow> int \<Rightarrow> byte list \<Rightarrow> byte list \<Rightarrow> server \<Rightarrow> string option \<times> server" where
  "crypto_rsa_sha1_verify_with_key = rsa_verify ''EVP_sha1''"

definition crypto_rsa_sha256_verify_with_key :: "env \<Rightarrow> int \<Rightarrow> byte list \<Rightarrow> byte list \<Rightarrow> server \<Rightarrow> string option \<times> server" where
  "crypto_rsa_sha256_verify_with_key = rsa_verify ''EVP_sha256''"

text \<open>Random bytes: what the buffer holds afterwards; a failure is not noticed.\<close>

definition crypto_random :: "env \<Rightarrow> byte list \<Rightarrow> server \<Rightarrow> byte list \<times> server" where
  "crypto_random env buf s =
     (case os_call env ''RAND_bytes'' [LInt (to_int (int (length buf)))] s of
        (a, s1) \<Rightarrow> (take (length buf) (a_bytes a @ drop (length (a_bytes a)) buf), s1))"

definition crypto_init :: "env \<Rightarrow> server \<Rightarrow> server" where
  "crypto_init env s =
     snd (os_call env ''OpenSSL_add_ssl_algorithms'' []
       (snd (os_call env ''OpenSSL_add_all_algorithms'' []
         (snd (os_call env ''SSL_library_init'' [] s)))))"

section \<open>Nothing is leaked\<close>

text \<open>Every error path of the two constructors releases the context; success hands it out.\<close>

lemma new_server_held:
  assumes "crypto_ssl_new_server env pubkey privkey s = (r, s')"
  shows "held env ''SSL_CTX_new'' ''SSL_CTX_free'' s s' = (case r of Inl msg \<Rightarrow> 0 | Inr ctx \<Rightarrow> 1)"
  using assms
  by (auto simp: crypto_ssl_new_server_def ssl_or_free_def ssl_use_keys_def ssl_set_ciphers_def os_call_def act_def
      held_def since_def Let_def split: if_splits)

lemma new_client_held:
  assumes "crypto_ssl_new_client env ca_file ca_path pubkey privkey s = (r, s')"
  shows "held env ''SSL_CTX_new'' ''SSL_CTX_free'' s s' = (case r of Inl msg \<Rightarrow> 0 | Inr ctx \<Rightarrow> 1)"
  using assms
  by (auto simp: crypto_ssl_new_client_def ssl_or_free_def ssl_use_keys_def ssl_set_ciphers_def ssl_load_ca_def
      os_call_def act_def held_def since_def Let_def split: if_splits option.splits)

lemma rsa_sign_hist:
  assumes "rsa_sign env A own digest key data out s = Some (r, s')"
  shows "(\<exists>tr. hist s' = hist s @ tr) \<and>
    held env ''EVP_MD_CTX_new'' ''EVP_MD_CTX_free'' s s' = 0 \<and>
    held env ''fopen'' ''fclose'' s s' = 0 \<and>
    held env ''PEM_read_PrivateKey'' ''EVP_PKEY_free'' s s' = (if own \<and> key \<noteq> 0 then - 1 else 0)"
  using assms
  by (auto simp: rsa_sign_def rsa_sign_with_def sign_done_def free_key_def evp_ok_def os_call_def act_def held_def
      since_def Let_def bind_eq_Some_conv split: if_splits)

lemma open_objects_append:
  "open_objects env new free h (as @ bs) = open_objects env new free h as + open_objects env new free (h @ as) bs"
  by (induction as arbitrary: h) simp_all

lemma held_trans:
  assumes "hist s1 = hist s @ as" and "hist s2 = hist s1 @ bs"
  shows "held env new free s s2 = held env new free s s1 + held env new free s1 s2"
  using assms held_hist [of s2 s "as @ bs"] held_hist [of s1 s as] held_hist [of s2 s1 bs]
  by (simp add: open_objects_append)

lemma key_from_file_held:
  assumes "key_from_file ''PEM_read_PrivateKey'' msg env path s = (r, s')"
  shows "(\<exists>tr. hist s' = hist s @ tr) \<and> held env ''EVP_MD_CTX_new'' ''EVP_MD_CTX_free'' s s' = 0 \<and>
    held env ''fopen'' ''fclose'' s s' = 0 \<and>
    held env ''PEM_read_PrivateKey'' ''EVP_PKEY_free'' s s' = (case r of Inl msg \<Rightarrow> 0 | Inr key \<Rightarrow> 1) \<and> r \<noteq> Inr 0"
  using assms
  by (auto simp: key_from_file_def os_call_def act_def held_def since_def Let_def split: if_splits)

lemma rsa_verify_held:
  assumes "rsa_verify digest env key data signature s = (r, s')"
  shows "held env ''EVP_MD_CTX_new'' ''EVP_MD_CTX_free'' s s' = 0"
  using assms
  by (auto simp: rsa_verify_def evp_ok_def os_call_def act_def held_def since_def Let_def split: if_splits)

text \<open>
  Signing with a key file: on every path, whatever fails, the file is closed and the key and the signing
  context are released, each as often as it was created.
\<close>

theorem rsa_sign_releases:
  assumes "rsa_sign_file env A digest path data out s = Some (r, s')"
  shows "held env ''fopen'' ''fclose'' s s' = 0 \<and> held env ''PEM_read_PrivateKey'' ''EVP_PKEY_free'' s s' = 0 \<and>
    held env ''EVP_MD_CTX_new'' ''EVP_MD_CTX_free'' s s' = 0"
proof -
  obtain k s1 where key: "key_from_file ''PEM_read_PrivateKey'' ''failed to read privkey as EVP_PKEY'' env path s = (k, s1)"
    by (metis prod.exhaust)
  note first = key_from_file_held [OF key]
  then obtain tr where tr: "hist s1 = hist s @ tr" by blast
  show ?thesis
  proof (cases k)
    case (Inl msg)
    then have "s' = s1" using assms key by (simp add: rsa_sign_file_def)
    then show ?thesis using first Inl by simp
  next
    case (Inr pkey)
    then have "rsa_sign env A True digest pkey data out s1 = Some (r, s')" using assms key by (simp add: rsa_sign_file_def)
    from rsa_sign_hist [OF this] obtain tr' where second:
      "hist s' = hist s1 @ tr'" "held env ''EVP_MD_CTX_new'' ''EVP_MD_CTX_free'' s1 s' = 0"
      "held env ''fopen'' ''fclose'' s1 s' = 0"
      "held env ''PEM_read_PrivateKey'' ''EVP_PKEY_free'' s1 s' = (if pkey \<noteq> 0 then - 1 else 0)" by auto
    then show ?thesis using first Inr unfolding held_trans [OF tr second(1)] by simp
  qed
qed

theorem rsa_sign_releases_witness:
  "\<exists>r s'. rsa_sign_file (const_env 1) (\<lambda>n. None) ''EVP_sha256'' (cstr ''key.pem'') [1, 2] (init_on_stack (\<lambda>i. 0) 100)
      idle_server = Some (r, s') \<and>
    held (const_env 1) ''fopen'' ''fclose'' idle_server s' = 0 \<and>
    held (const_env 1) ''PEM_read_PrivateKey'' ''EVP_PKEY_free'' idle_server s' = 0 \<and>
    held (const_env 1) ''EVP_MD_CTX_new'' ''EVP_MD_CTX_free'' idle_server s' = 0"
proof -
  have "\<exists>r s'. rsa_sign_file (const_env 1) (\<lambda>n. None) ''EVP_sha256'' (cstr ''key.pem'') [1, 2] (init_on_stack (\<lambda>i. 0) 100)
      idle_server = Some (r, s')"
    by (simp add: rsa_sign_file_def key_from_file_def rsa_sign_def rsa_sign_with_def evp_ok_def os_call_def act_def
        Let_def dynstr_check_def init_on_stack_def dynstr_init_def store_at_def poke_def)
  then show ?thesis using rsa_sign_releases by blast
qed

end
