(* ===== verification/Lua_Crypto.thy ===== *)
theory Lua_Crypto
  imports Crypto_Ssl
begin

text \<open>
  The \<open>crypto\<close> library of \<^verbatim>\<open>src/80s/lua_crypto.c\<close>: argument checks, the calls of
  \<^verbatim>\<open>src/80s/crypto.c\<close> and what is pushed.  The functions of connections work on the map of the
  allocated connection blocks beside the state of the server.
\<close>

section \<open>Digests and base 64\<close>

definition digest_result :: "nat \<Rightarrow> (int \<times> byte list) option \<Rightarrow> lua_result" where
  "digest_result n r = (case r of None \<Rightarrow> Fault | Some (status, buf) \<Rightarrow> push_block buf n)"

definition l_crypto_sha1 :: "crypto_lib \<Rightarrow> (nat \<Rightarrow> byte) \<Rightarrow> lua_value list \<Rightarrow> lua_result" where
  "l_crypto_sha1 lib stk args =
     (case args of
        [LStr data] \<Rightarrow> digest_result 20 (crypto_sha1 lib data (stack_array stk 20) 20)
      | _ \<Rightarrow> LuaError ''expecting 1 argument: text (string)'')"

definition l_crypto_sha256 :: "crypto_lib \<Rightarrow> (nat \<Rightarrow> byte) \<Rightarrow> lua_value list \<Rightarrow> lua_result" where
  "l_crypto_sha256 lib stk args =
     (case args of
        [LStr data] \<Rightarrow> digest_result 32 (crypto_sha256 lib data (stack_array stk 32) 32)
      | _ \<Rightarrow> LuaError ''expecting 1 argument: text (string)'')"

definition l_crypto_hmac_sha256 :: "crypto_lib \<Rightarrow> (nat \<Rightarrow> byte) \<Rightarrow> lua_value list \<Rightarrow> lua_result" where
  "l_crypto_hmac_sha256 lib stk args =
     (case args of
        [LStr data, LStr key] \<Rightarrow> digest_result 32 (crypto_hmac_sha256 lib data key (stack_array stk 32) 32)
      | _ \<Rightarrow> LuaError ''expecting 2 argument: text (string), key (string)'')"

text \<open>Nil and a message, or the text that was written.\<close>

definition dynstr_result :: "string option \<times> dynstr \<Rightarrow> lua_result" where
  "dynstr_result r =
     (case r of
        (Some msg, str) \<Rightarrow> Returns [LNil, LStr (cstr msg)]
      | (None, str) \<Rightarrow> push_block (ds_ptr str) (ds_length str))"

definition l_crypto_to64 :: "crypto_lib \<Rightarrow> allocator \<Rightarrow> (nat \<Rightarrow> byte) \<Rightarrow> lua_value list \<Rightarrow> lua_result" where
  "l_crypto_to64 lib A stk args =
     (case args of
        [LStr data] \<Rightarrow>
          (case crypto_to64 lib A data (init_on_stack stk 10000) of None \<Rightarrow> Fault | Some r \<Rightarrow> dynstr_result r)
      | _ \<Rightarrow> LuaError ''expecting 1 argument: text (string)'')"

definition l_crypto_from64 :: "env \<Rightarrow> crypto_lib \<Rightarrow> allocator \<Rightarrow> (nat \<Rightarrow> byte) \<Rightarrow> binding" where
  "l_crypto_from64 env lib A stk args s =
     (case args of
        [LStr data] \<Rightarrow>
          (case crypto_from64 env lib A data (init_on_stack stk 10000) s of
             None \<Rightarrow> (Fault, s) | Some (r, s1) \<Rightarrow> (dynstr_result r, s1))
      | _ \<Rightarrow> (LuaError ''expecting 1 argument: text (string)'', s))"

section \<open>TLS contexts\<close>

definition context_result :: "(string + int) \<times> server \<Rightarrow> lua_result \<times> server" where
  "context_result r =
     (case r of
        (Inl msg, s) \<Rightarrow> (Returns [LNil, LStr (cstr msg)], s)
      | (Inr ctx, s) \<Rightarrow> (Returns [LLight (nat ctx)], s))"

definition l_crypto_ssl_new_server :: "env \<Rightarrow> binding" where
  "l_crypto_ssl_new_server env args s =
     (case args of
        [LStr pubkey, LStr privkey] \<Rightarrow>
          context_result (crypto_ssl_new_server env (c_string pubkey) (c_string privkey) s)
      | _ \<Rightarrow> (LuaError ''expecting two arguments: public key (string), private key (string)'', s))"

definition optional_string :: "lua_value list \<Rightarrow> nat \<Rightarrow> byte list option" where
  "optional_string args i =
     (if i < length args then (case args ! i of LStr bs \<Rightarrow> Some (c_string bs) | _ \<Rightarrow> None) else None)"

definition l_crypto_ssl_new_client :: "env \<Rightarrow> binding" where
  "l_crypto_ssl_new_client env args s =
     (let pub = optional_string args 2; priv = optional_string args 3;
          both = length args = 4 \<and> pub \<noteq> None \<and> priv \<noteq> None in
      context_result (crypto_ssl_new_client env (optional_string args 1) (optional_string args 0)
        (if both then pub else None) (if both then priv else None) s))"

definition l_crypto_ssl_release :: "env \<Rightarrow> binding" where
  "l_crypto_ssl_release env args s =
     (case args of
        [LLight ctx] \<Rightarrow> (Returns [], crypto_ssl_release env (int ctx) s)
      | _ \<Rightarrow> (LuaError ''expecting 1 argument: ssl (lightuserdata)'', s))"

section \<open>Connections\<close>

type_synonym bio_state = "bio_store \<times> server"
type_synonym bio_binding = "lua_value list \<Rightarrow> bio_state \<Rightarrow> lua_result \<times> bio_state"

definition new_bio_result :: "nat option \<times> bio_store \<times> server \<Rightarrow> lua_result \<times> bio_state" where
  "new_bio_result r =
     (case r of (None, st) \<Rightarrow> (Returns [], st) | (Some p, st) \<Rightarrow> (Returns [LLight p], st))"

definition l_crypto_ssl_bio_new :: "env \<Rightarrow> bio_binding" where
  "l_crypto_ssl_bio_new env args bs =
     (case args of
        LLight ctx # LLight elfd # LLight childfd # rest \<Rightarrow>
          new_bio_result (crypto_ssl_bio_new env (int ctx) (fst bs) (snd bs))
      | _ \<Rightarrow> (LuaError ''expecting 3 arguments: ssl context (lightuserdata), elfd (lightuserdata), childfd (lightuserdata)[, ktls (boolean)]'', bs))"

definition connect_usage :: string where
  "connect_usage = ''expecting 4 arguments: ssl context (lightuserdata), host:port? (string), elfd (lightuserdata), childfd (lightuserdata)[, ktls (boolean)]''"

definition l_crypto_ssl_bio_new_connect :: "env \<Rightarrow> bio_binding" where
  "l_crypto_ssl_bio_new_connect env args bs =
     (case args of
        LLight ctx # host # LLight elfd # LLight childfd # rest \<Rightarrow>
          (case host of
             LStr name \<Rightarrow> new_bio_result (crypto_ssl_bio_new_connect env (int ctx) (Some (c_string name)) (fst bs) (snd bs))
           | LNil \<Rightarrow> new_bio_result (crypto_ssl_bio_new_connect env (int ctx) None (fst bs) (snd bs))
           | _ \<Rightarrow> (LuaError connect_usage, bs))
      | _ \<Rightarrow> (LuaError connect_usage, bs))"

definition l_crypto_ssl_bio_release :: "env \<Rightarrow> bio_binding" where
  "l_crypto_ssl_bio_release env args bs =
     (let usage = (LuaError ''expecting 2 arguments: bio (lightuserdata), flags (integer)'', bs) in
      case args of
        [LLight p, flags] \<Rightarrow>
          if lua_isnum flags then
            (case crypto_ssl_bio_release env p (to_int (lua_tointeger env flags)) (fst bs) (snd bs) of
               None \<Rightarrow> (Fault, bs) | Some bs1 \<Rightarrow> (Returns [], bs1))
          else usage
      | _ \<Rightarrow> usage)"

text \<open>A call on the connection behind a pointer: what is pushed, and the state after it.\<close>

definition on_bio :: "nat \<Rightarrow> (ssl_nb_context \<Rightarrow> server \<Rightarrow> lua_result \<times> server) \<Rightarrow> bio_state \<Rightarrow> lua_result \<times> bio_state" where
  "on_bio p f bs =
     (case with_bio (fst bs) p (\<lambda>nb. f nb (snd bs)) of
        None \<Rightarrow> (Fault, bs) | Some (r, s1) \<Rightarrow> (r, (fst bs, s1)))"

definition l_crypto_ssl_bio_write :: "env \<Rightarrow> bio_binding" where
  "l_crypto_ssl_bio_write env args bs =
     (case args of
        [LLight p, LStr data] \<Rightarrow>
          on_bio p (\<lambda>nb s. (case crypto_ssl_bio_write env nb data s of (n, s1) \<Rightarrow> (Returns [LInt n], s1))) bs
      | _ \<Rightarrow> (LuaError ''expecting 2 arguments: bio (lightuserdata), data (string)'', bs))"

text \<open>The first bytes of the array on the stack are what was read; \<open>n\<close> of them are pushed.\<close>

definition filled :: "(nat \<Rightarrow> byte) \<Rightarrow> nat \<Rightarrow> byte list \<Rightarrow> byte list" where
  "filled stk n bytes = take n bytes @ drop (length bytes) (stack_array stk n)"

definition l_crypto_ssl_bio_read :: "env \<Rightarrow> (nat \<Rightarrow> byte) \<Rightarrow> bio_binding" where
  "l_crypto_ssl_bio_read env stk args bs =
     (case args of
        [LLight p] \<Rightarrow>
          on_bio p (\<lambda>nb s.
            (case crypto_ssl_bio_read env nb 4096 s of
               ((n, bytes), s1) \<Rightarrow>
                 (if n < 0 then Returns [] else if n = 0 then Returns [LStr []]
                  else push_block (filled stk 4096 bytes) (nat n), s1))) bs
      | _ \<Rightarrow> (LuaError ''expecting 1 argument: bio (lightuserdata)'', bs))"

definition l_crypto_ssl_write :: "env \<Rightarrow> bio_binding" where
  "l_crypto_ssl_write env args bs =
     (case args of
        [LLight p, LStr data] \<Rightarrow>
          on_bio p (\<lambda>nb s. (case crypto_ssl_write env nb data s of (n, s1) \<Rightarrow> (Returns [LInt n], s1))) bs
      | _ \<Rightarrow> (LuaError ''expecting 2 arguments: bio (lightuserdata), data (string)'', bs))"

text \<open>The argument is not checked here; anything but a light userdata is a null pointer.\<close>

definition l_crypto_ssl_read :: "env \<Rightarrow> (nat \<Rightarrow> byte) \<Rightarrow> bio_binding" where
  "l_crypto_ssl_read env stk args bs =
     (case args of
        [v] \<Rightarrow>
          on_bio (case v of LLight p \<Rightarrow> p | _ \<Rightarrow> 0) (\<lambda>nb s.
            (case crypto_ssl_read env nb 4096 False False s of
               ((n, bytes, want_write, is_error), s1) \<Rightarrow>
                 (case (if n < 0 then Returns [LNil] else if n = 0 then Returns [LStr []]
                        else push_block (filled stk 4096 bytes) (nat n)) of
                    Returns vs \<Rightarrow> (Returns (vs @ [if is_error then LNil else LBool want_write]), s1)
                  | r \<Rightarrow> (r, s1)))) bs
      | _ \<Rightarrow> (LuaError ''expecting 1 argument: bio (lightuserdata)'', bs))"

definition l_crypto_ssl_init_finished :: "env \<Rightarrow> bio_binding" where
  "l_crypto_ssl_init_finished env args bs =
     (case args of
        [LLight p] \<Rightarrow>
          on_bio p (\<lambda>nb s. (case crypto_ssl_is_init_finished env nb s of (n, s1) \<Rightarrow> (Returns [LBool (n \<noteq> 0)], s1))) bs
      | _ \<Rightarrow> (LuaError ''expecting 1 argument: bio (lightuserdata)'', bs))"

definition handshake_result :: "(byte list option + bool) \<times> server \<Rightarrow> lua_result \<times> server" where
  "handshake_result r =
     (case r of
        (Inl msg, s) \<Rightarrow> (Returns [LNil, string_arg msg], s)
      | (Inr again, s) \<Rightarrow> (Returns [LBool again], s))"

definition l_crypto_ssl_accept :: "env \<Rightarrow> bio_binding" where
  "l_crypto_ssl_accept env args bs =
     (case args of
        [LLight p] \<Rightarrow> on_bio p (\<lambda>nb s. handshake_result (crypto_ssl_accept env nb s)) bs
      | _ \<Rightarrow> (LuaError ''expecting 1 argument: bio (lightuserdata)'', bs))"

definition l_crypto_ssl_connect :: "env \<Rightarrow> bio_binding" where
  "l_crypto_ssl_connect env args bs =
     (case args of
        [LLight p] \<Rightarrow> on_bio p (\<lambda>nb s. handshake_result (crypto_ssl_connect env nb s)) bs
      | _ \<Rightarrow> (LuaError ''expecting 1 argument: bio (lightuserdata)'', bs))"

text \<open>The test behind the call is of the argument, not of the result.\<close>

definition l_crypto_ssl_requests_io :: "env \<Rightarrow> bio_binding" where
  "l_crypto_ssl_requests_io env args bs =
     (let usage = (LuaError ''expecting 2 arguments: bio (lightuserdata), n (integer)'', bs) in
      case args of
        [LLight p, v] \<Rightarrow>
          if lua_isnum v then
            on_bio p (\<lambda>nb s.
              (let n = to_int (lua_tointeger env v) in
               case crypto_ssl_requests_io env nb n s of
                 (ok, s1) \<Rightarrow> (Returns [if n < 0 then LNil else LBool (ok \<noteq> 0)], s1))) bs
          else usage
      | _ \<Rightarrow> usage)"

section \<open>Random bytes and signatures\<close>

definition l_crypto_random :: "env \<Rightarrow> allocator \<Rightarrow> binding" where
  "l_crypto_random env A args s =
     (let usage = (LuaError ''expecting 1 argument: length (integer)'', s) in
      case args of
        [v] \<Rightarrow>
          if lua_isnum v then
            (let len = nat (lua_tointeger env v mod 2 ^ 64) in
             case c_calloc A len of
               None \<Rightarrow> (Returns [], s)
             | Some buf \<Rightarrow> (case crypto_random env buf s of (bytes, s1) \<Rightarrow> (push_block bytes len, s1)))
          else usage
      | _ \<Rightarrow> usage)"

definition l_crypto_rsa_sha256 :: "env \<Rightarrow> allocator \<Rightarrow> (nat \<Rightarrow> byte) \<Rightarrow> binding" where
  "l_crypto_rsa_sha256 env A stk args s =
     (case args of
        [LStr privkey, LStr data] \<Rightarrow>
          (case crypto_rsa_sha256 env A (c_string privkey) data (init_on_stack stk 10000) s of
             None \<Rightarrow> (Fault, s) | Some (r, s1) \<Rightarrow> (dynstr_result r, s1))
      | _ \<Rightarrow> (LuaError ''expecting 2 arguments: privkey path (string) text (string)'', s))"

section \<open>What they return\<close>

text \<open>Digests have their length, whatever the array on the stack held.\<close>

lemma digest_results:
  assumes "length (lib_sha256 lib data) = 32" and "length (lib_sha1 lib data) = 20"
    and "length (lib_hmac lib key data) = 32"
  shows "l_crypto_sha256 lib stk [LStr data] = Returns [LStr (lib_sha256 lib data)]"
    and "l_crypto_sha1 lib stk [LStr data] = Returns [LStr (lib_sha1 lib data)]"
    and "l_crypto_hmac_sha256 lib stk [LStr data, LStr key] = Returns [LStr (lib_hmac lib key data)]"
  using assms
  by (simp_all add: l_crypto_sha256_def l_crypto_sha1_def l_crypto_hmac_sha256_def crypto_sha256_def crypto_sha1_def
      crypto_hmac_sha256_def digest_into_def digest_result_def push_block_def poke_def stack_array_def)

text \<open>
  The base 64 encoder stays inside its buffer, the NUL behind the text included, and returns the text
  or, without memory, a message.
\<close>

theorem to64_result:
  assumes "length (lib_base64 lib data) = 4 * ((length data + 2) div 3)" and "length data < 2 ^ 40"
  shows "l_crypto_to64 lib A stk [LStr data] = Returns [LStr (lib_base64 lib data)] \<or>
    l_crypto_to64 lib A stk [LStr data] = Returns [LNil, LStr (cstr ''failed to allocate enough memory'')] \<and> \<not> reliable A"
proof -
  let ?k = "4 + 4 * ((length data + 2) div 3)"
  have "(length data + 2) div 3 \<le> length data + 2" by simp
  then have k: "?k < 2 ^ 43" using assms(2) by simp
  then have lim: "10000 \<le> mem_limit" "sz ?k = ?k" "?k \<le> mem_limit" by (simp_all add: mem_limit_def)
  show ?thesis
  proof (rule make_room [OF lim(1,3), of A stk])
    fix str assume str: "dynstr_check A (init_on_stack stk 10000) ?k = Some (True, str)" "?k < length (ds_ptr str)"
    have "store_at 0 (lib_base64 lib data @ [0]) str =
        Some (str\<lparr>ds_ptr := (lib_base64 lib data @ [0]) @ drop (length (lib_base64 lib data) + 1) (ds_ptr str)\<rparr>)"
      using str(2) assms(1) by (subst store_at_fits) simp_all
    moreover have "length (lib_base64 lib data) < 2 ^ 63" using k assms(1) by simp
    ultimately show ?thesis
      using str lim(2) by (simp add: l_crypto_to64_def crypto_to64_def dynstr_result_def push_block_def)
  next
    assume "dynstr_check A (init_on_stack stk 10000) ?k = Some (False, (init_on_stack stk 10000)\<lparr>ds_ok := False\<rparr>)" "\<not> reliable A"
    then show ?thesis using lim(2) by (simp add: l_crypto_to64_def crypto_to64_def dynstr_result_def)
  qed
qed

text \<open>
  An incomplete base 64 text, for which OpenSSL reports an error at the end, is decoded without one as far
  as it goes.
\<close>

lemma from64_accepts_truncated:
  assumes "lib_decode lib data = Some out" and "lib_decode_end lib data = (- 1, [])"
    and "length out \<le> length data" and "length data < 2 ^ 31" and "reliable A"
    and "a_ret (fst (os_call env ''EVP_ENCODE_CTX_new'' [] s)) \<noteq> 0"
  shows "fst (l_crypto_from64 env lib A stk [LStr data] s) = Returns [LStr out]"
proof -
  have len: "nat (to_int (int (length data)) mod 2 ^ 64) = length data"
    using assms(4) by (simp add: to_int_length)
  have "10000 \<le> mem_limit" "length data \<le> mem_limit" using assms(4) by (simp_all add: mem_limit_def)
  then obtain str where str: "dynstr_check A (init_on_stack stk 10000) (length data) = Some (True, str)"
      "length data < length (ds_ptr str)"
    by (rule make_room [of 10000 "length data" A stk]) (use assms(5) in blast)+
  let ?str = "str\<lparr>ds_ptr := out @ drop (length out) (ds_ptr str)\<rparr>"
  have "store_at 0 out str = Some ?str" "store_at (length out) [] ?str = Some ?str"
    using str(2) assms(3) by (simp_all add: store_at_def poke_def)
  then show ?thesis
    using str len assms
    by (auto simp: l_crypto_from64_def crypto_from64_def dynstr_result_def push_block_def Let_def split: prod.splits)
qed

text \<open>
  \<open>ssl_requests_io\<close> answers nil to every negative count, the only ones for which OpenSSL wants reading or
  writing, and true to an error that goes with another count.
\<close>

theorem requests_io_blind:
  assumes "st p = Some nb" and "nb_open nb" and "lua_isnum v"
  shows "\<exists>s'. l_crypto_ssl_requests_io env [LLight p, v] (st, s) =
    (Returns [if to_int (lua_tointeger env v) < 0 then LNil
       else LBool (fst (ssl_get_error env nb (to_int (lua_tointeger env v)) s) \<noteq> SSL_ERROR_NONE)], (st, s'))"
  using assms
  by (auto simp: l_crypto_ssl_requests_io_def on_bio_def with_bio_def crypto_ssl_requests_io_def Let_def
      split: prod.splits)

text \<open>
  A connection released with flag 1 or 2 must not be used again: every other function of the library faults
  on it.
\<close>

definition bio_functions :: "env \<Rightarrow> (nat \<Rightarrow> byte) \<Rightarrow> nat \<Rightarrow> byte list \<Rightarrow> (bio_state \<Rightarrow> lua_result \<times> bio_state) list" where
  "bio_functions env stk p data =
     [l_crypto_ssl_bio_write env [LLight p, LStr data], l_crypto_ssl_bio_read env stk [LLight p],
      l_crypto_ssl_write env [LLight p, LStr data], l_crypto_ssl_read env stk [LLight p],
      l_crypto_ssl_init_finished env [LLight p], l_crypto_ssl_accept env [LLight p], l_crypto_ssl_connect env [LLight p],
      l_crypto_ssl_requests_io env [LLight p, LInt (- 1)]]"

theorem released_bio_faults:
  assumes "l_crypto_ssl_bio_release env [LLight p, LInt flags] (st, s) = (Returns [], bs)"
    and "to_int flags AND 3 \<noteq> 0" and "f \<in> set (bio_functions env stk p data)"
  shows "fst (f (fst bs, s')) = Fault"
proof -
  have flag: "to_int flags AND 1 \<noteq> 0 \<or> to_int flags AND 2 \<noteq> 0"
  proof (rule ccontr)
    assume "\<not> ?thesis"
    then have "to_int flags AND (1 OR 2) = 0" by (simp only: bit.conj_disj_distrib) simp
    then show False using assms(2) by simp
  qed
  have rel: "crypto_ssl_bio_release env p (to_int flags) st s = Some bs"
    using assms(1)
    by (auto simp: l_crypto_ssl_bio_release_def lua_isnum_def lua_tointeger_def Let_def split: option.splits)
  have "fst bs p = None \<or> (\<exists>nb. fst bs p = Some nb \<and> \<not> nb_open nb)"
    using rel flag by (auto simp: crypto_ssl_bio_release_def with_bio_def split: if_splits option.splits)
  then have "with_bio (fst bs) p g = None" for g :: "ssl_nb_context \<Rightarrow> lua_result \<times> server"
    by (auto simp: with_bio_def)
  then show ?thesis
    using assms(3)
    by (auto simp: bio_functions_def on_bio_def l_crypto_ssl_bio_write_def l_crypto_ssl_bio_read_def
      l_crypto_ssl_write_def l_crypto_ssl_read_def l_crypto_ssl_init_finished_def l_crypto_ssl_accept_def
      l_crypto_ssl_connect_def l_crypto_ssl_requests_io_def lua_isnum_def)
qed

end
