(* ===== verification/Afd.thy ===== *)
theory Afd
  imports Crypto_Ssl
begin

text \<open>
  The asynchronous descriptor of the C++ layer, \<^verbatim>\<open>src/90s/afd.cpp\<close>: a queue of read commands over
  a read buffer, a queue of write promises over a write buffer, and the optional TLS layer below
  both.

  Resolving a promise runs the coroutine that waits for it at once, inside the call that resolves
  it, and that coroutine may call the descriptor again.  The coroutines are no code of the
  repository, so they are a parameter: a client answers every resolved promise with the calls it
  makes next.  The calls under way are an explicit stack of tasks, one for every place of the code
  at which another call returns, and \<open>step\<close> runs the topmost one.  \<open>None\<close> is an access outside an
  array or a loop that does not end.
\<close>

section \<open>The state\<close>

datatype close_state = CsOpen | CsClosing | CsClosed

datatype ssl_state =
    SslNone
  | SslClientInitializing
  | SslClientReady
  | SslServerInitializing
  | SslServerReady

text \<open>A command of type \<open>until\<close> has its delimiter and the table for it.\<close>

datatype read_kind = RcAny | RcN nat | RcUntil "byte list" "int list"

record read_command =
  rc_promise :: nat
  rc_kind :: read_kind

record back_buffer =
  bb_promise :: nat
  bb_length :: nat
  bb_sent :: nat

text \<open>
  What is observable of a descriptor: the bytes it took in, the read commands it finished with the
  error flag and the data, the data it queued for writing, the bytes the system accepted and the
  write promises it resolved.
\<close>

datatype event =
    EvArrived "byte list"
  | EvRead read_command bool "byte list"
  | EvQueued nat "byte list"
  | EvSent "byte list"
  | EvWritten back_buffer bool
  | EvRefused nat

record afd =
  af_closed :: close_state
  af_elfd :: fd
  af_fd :: fd
  af_fd_type :: int
  af_registered :: bool
  af_read_buffer :: "byte list"
  af_read_offset :: nat
  af_read_commands :: "read_command list"
  af_delim_offset :: int
  af_delim_match :: int
  af_write_buffer :: "byte list"
  af_write_offset :: nat
  af_write_info :: "back_buffer list"
  af_ssl_status :: ssl_state
  af_ssl_bio :: "ssl_nb_context option"
  af_next_promise :: nat
  af_log :: "event list"

type_synonym afd_state = "afd \<times> server"

text \<open>\<open>af_registered\<close>: the descriptor is in the table \<open>fds\<close> of its context, which passes events on.\<close>

definition fresh_afd :: "fd \<Rightarrow> fd \<Rightarrow> int \<Rightarrow> afd" where
  "fresh_afd elfd f ty =
     \<lparr>af_closed = CsOpen, af_elfd = elfd, af_fd = f, af_fd_type = ty, af_registered = True,
      af_read_buffer = [], af_read_offset = 0, af_read_commands = [], af_delim_offset = 0, af_delim_match = 0,
      af_write_buffer = [], af_write_offset = 0, af_write_info = [], af_ssl_status = SslNone, af_ssl_bio = None,
      af_next_promise = 0, af_log = []\<rparr>"

definition is_closed :: "afd \<Rightarrow> bool" where
  "is_closed a \<longleftrightarrow> af_closed a \<noteq> CsOpen"

definition ssl_ready :: "afd \<Rightarrow> bool" where
  "ssl_ready a \<longleftrightarrow> af_ssl_status a = SslClientReady \<or> af_ssl_status a = SslServerReady"

definition add_event :: "event \<Rightarrow> afd \<Rightarrow> afd" where
  "add_event e a = a\<lparr>af_log := af_log a @ [e]\<rparr>"

section \<open>Clients and tasks\<close>

datatype call =
    ReadAny
  | ReadN nat
  | ReadUntil "byte list"
  | ReadUntilWith "byte list" "int list"
  | Write "byte list"
  | Close bool

text \<open>
  \<open>cl_alive\<close>: somebody still holds the promise of the last event.  \<open>cl_resume\<close>: the calls of the
  coroutine that waits for it.  \<open>cl_on_empty\<close>: the calls of \<open>on_command_queue_empty\<close>, when one is set.
\<close>

record client =
  cl_alive :: "event list \<Rightarrow> bool"
  cl_resume :: "event list \<Rightarrow> call list"
  cl_on_empty :: "event list \<Rightarrow> call list option"

text \<open>
  The places of the code, in the order of the functions: the turn of \<open>on_data\<close> before the TLS
  layer, behind it and behind the callback of the empty queue, its inner loop and what follows the
  loop; \<open>ssl_cycle\<close> before a read, while it drains the connection, and behind that; \<open>on_write\<close>, its
  loop over the promises and what follows it; \<open>on_close\<close> and the three parts of \<open>handle_failure\<close>.
\<close>

datatype task =
    TData "byte list" bool
  | TTurn "byte list" bool
  | TFill "byte list" bool
  | TLoop
  | TTail bool
  | TSslRead "byte list" bool "byte list" bool
  | TSslFlush "byte list" bool int "byte list" bool
  | TSslTake "byte list" bool int "byte list" bool
  | TOnWrite nat
  | TWriteTurn nat
  | TAck nat bool
  | TWriteNext bool
  | TWriteEnd
  | TOnClose
  | TFailReads
  | TFailWrites
  | TFailClear
  | TCall call
  | TPut "byte list" bool
  | TDestroy

definition resume :: "client \<Rightarrow> afd \<Rightarrow> task list" where
  "resume cl a = (if cl_alive cl (af_log a) then map TCall (cl_resume cl (af_log a)) else [])"

text \<open>A read command is finished: it leaves the queue, then its promise is resolved.\<close>

definition finish_read :: "bool \<Rightarrow> byte list \<Rightarrow> afd \<Rightarrow> afd" where
  "finish_read err arg a =
     add_event (EvRead (hd (af_read_commands a)) err arg) (a\<lparr>af_read_commands := tl (af_read_commands a)\<rparr>)"

definition finish_write :: "bool \<Rightarrow> afd \<Rightarrow> afd" where
  "finish_write ok a =
     add_event (EvWritten (hd (af_write_info a)) ok) (a\<lparr>af_write_info := tl (af_write_info a)\<rparr>)"

section \<open>Reading\<close>

text \<open>
  The search of a command \<open>until\<close> in the window: with a part \<open>m\<close> of the delimiter already seen, the
  rest is first tried right at \<open>off\<close>, then the whole delimiter from \<open>off\<close> on.  The table is always
  the one of the whole delimiter.  The result is the part found and the value of \<open>match\<close>.
\<close>

definition until_search :: "byte list \<Rightarrow> byte list \<Rightarrow> int list \<Rightarrow> int \<Rightarrow> int \<Rightarrow> ((nat \<times> nat) \<times> int) option" where
  "until_search window delim T off m =
     (if 0 < m then
        (if length delim < nat m then None
         else
           (let remaining = length delim - nat m;
                data_length = (if length window < u64 (off + int remaining) then length window else u64 (off + int remaining)) in
            Option.bind (kmp (\<lambda>i. 0) (take data_length window) (drop (nat m) delim) (u64 off) (Some T)) (\<lambda>part.
              if snd part < remaining then
                map_option (\<lambda>part. (part, 0)) (kmp (\<lambda>i. 0) window delim (u64 off) (Some T))
              else Some (part, m))))
      else if m < 0 then None
      else map_option (\<lambda>part. (part, m)) (kmp (\<lambda>i. 0) window delim (u64 off) (Some T)))"

text \<open>
  What follows from the part: the length to consume, delimiter included (\<open>Inl\<close>), or the new values of
  \<open>offset\<close> and \<open>match\<close>.
\<close>

definition until_result :: "nat \<Rightarrow> nat \<Rightarrow> int \<Rightarrow> int \<Rightarrow> nat \<times> nat \<Rightarrow> nat + (int \<times> int)" where
  "until_result wl dl off m part =
     (case part of (po, pl) \<Rightarrow>
        if pl = dl \<or> (po = u64 off \<and> u64 (int pl + m) = dl) then Inl (u64 (to_int (int (po + pl))))
        else if po = u64 (off + m) \<and> 0 < pl then Inr (to_int (int (po + pl)), to_int (m + int pl))
        else
          (let to_add = (if po = u64 (int wl - int pl) then pl else 0) in
           if m = 0 \<or> (0 < m \<and> po = u64 off) then Inr (to_int (int (po + to_add)), to_int (m + int to_add))
           else Inr (to_int (int po + to_int (int to_add)), to_int (int to_add))))"

text \<open>
  One turn of the inner loop of \<open>on_data\<close>: the state and whether the loop goes on.
\<close>

definition read_turn :: "client \<Rightarrow> afd \<Rightarrow> (task list \<times> afd) option" where
  "read_turn cl a =
     (if af_read_commands a = [] then Some ([], a)
      else if length (af_read_buffer a) < af_read_offset a then None
      else
        (let window = drop (af_read_offset a) (af_read_buffer a) in
         if window = [] then Some ([], a)
         else
           (case rc_kind (hd (af_read_commands a)) of
              RcAny \<Rightarrow>
                (let a1 = finish_read False window (a\<lparr>af_read_offset := af_read_offset a + length window\<rparr>) in
                 Some (resume cl a1, a1))
            | RcN n \<Rightarrow>
                if length window < n then Some ([], a)
                else
                  (let a1 = finish_read False (take n window) (a\<lparr>af_read_offset := af_read_offset a + n\<rparr>) in
                   Some (resume cl a1 @ [TLoop], a1))
            | RcUntil delim T \<Rightarrow>
                Option.bind (until_search window delim T (af_delim_offset a) (af_delim_match a)) (\<lambda>(part, m).
                  case until_result (length window) (length delim) (af_delim_offset a) m part of
                    Inr (off', m') \<Rightarrow> Some ([], a\<lparr>af_delim_offset := off', af_delim_match := m'\<rparr>)
                  | Inl used \<Rightarrow>
                      if length window < used then None
                      else
                        (let a1 = finish_read False (take (u64 (int used - int (length delim))) window)
                               (a\<lparr>af_delim_offset := 0, af_delim_match := 0,
                                  af_read_offset := af_read_offset a + used\<rparr>) in
                         Some (resume cl a1 @ [TLoop], a1))))))"

text \<open>\<open>on_data\<close> behind the callback of the empty queue; the buffer takes in the data.\<close>

definition fill_turn :: "byte list \<Rightarrow> bool \<Rightarrow> afd \<Rightarrow> task list \<times> afd" where
  "fill_turn data cycle a =
     (if \<not> cycle \<and> data = [] then ([], a)
      else if length (af_read_buffer a) + length data = af_read_offset a then ([], a)
      else
        ([TLoop, TTail cycle],
         if data = [] then a
         else add_event (EvArrived data) (a\<lparr>af_read_buffer := af_read_buffer a @ data\<rparr>)))"

text \<open>\<open>on_data\<close> behind the inner loop; \<open>buffering\<close> is never cleared.\<close>

definition tail_turn :: "bool \<Rightarrow> afd \<Rightarrow> task list \<times> afd" where
  "tail_turn cycle a =
     (if af_read_offset a = length (af_read_buffer a) then ([], a\<lparr>af_read_offset := 0, af_read_buffer := []\<rparr>)
      else if af_read_buffer a = [] then ([], a)
      else if cycle then ([], a)
      else ([TData [] cycle], a))"

text \<open>\<open>read_any\<close>, \<open>read_n\<close> and \<open>read_until\<close>.\<close>

definition add_read :: "read_kind \<Rightarrow> afd \<Rightarrow> task list \<times> afd" where
  "add_read kind a =
     (let p = af_next_promise a; a1 = a\<lparr>af_next_promise := p + 1\<rparr> in
      if is_closed a then ([], add_event (EvRefused p) a1)
      else
        (let a2 = a1\<lparr>af_read_commands := af_read_commands a @ [\<lparr>rc_promise = p, rc_kind = kind\<rparr>]\<rparr> in
         (if 0 < length (af_read_buffer a) \<and> length (af_read_commands a2) = 1 then [TData [] True] else [], a2)))"

definition read_until :: "byte list \<Rightarrow> afd \<Rightarrow> (task list \<times> afd) option" where
  "read_until delim a =
     (if is_closed a then Some (add_read RcAny a)
      else map_option (\<lambda>T. add_read (RcUntil delim T) a) (build_kmp delim (replicate (length delim + 2) 0)))"

section \<open>Writing\<close>

text \<open>\<open>perform_write\<close>; the second component of its result is never used.\<close>

definition perform_write :: "env \<Rightarrow> afd \<Rightarrow> server \<Rightarrow> (int \<times> afd \<times> server) option" where
  "perform_write env a s =
     (case s80_write env (af_elfd a) (af_fd a) (af_fd_type a) (af_write_buffer a) (af_write_offset a)
         (length (af_write_buffer a)) s of
        None \<Rightarrow> None
      | Some (ok, s1) \<Rightarrow>
          if ok < 0 then Some (ok, a\<lparr>af_closed := CsClosing\<rparr>, s1)
          else Some (ok, add_event (EvSent (take (nat ok) (drop (af_write_offset a) (af_write_buffer a)))) a, s1))"

text \<open>The TLS records behind a write are fetched until there are none.\<close>

partial_function (option) ssl_records :: "env \<Rightarrow> ssl_nb_context \<Rightarrow> byte list \<Rightarrow> server \<Rightarrow> (byte list \<times> server) option" where
  "ssl_records env nb acc s =
     (let r = crypto_ssl_bio_read env nb 4000 s in
      if 0 < fst (fst r) then
        (if length (snd (fst r)) < nat (fst (fst r)) then None
         else ssl_records env nb (acc @ take (nat (fst (fst r))) (snd (fst r))) (snd r))
      else Some (acc, snd r))"

definition encode_layers :: "env \<Rightarrow> byte list \<Rightarrow> bool \<Rightarrow> afd \<Rightarrow> server \<Rightarrow> (byte list \<times> server) option" where
  "encode_layers env data layers a s =
     (if layers \<and> ssl_ready a then
        (case af_ssl_bio a of
           None \<Rightarrow> None
         | Some nb \<Rightarrow>
             (case crypto_ssl_write env nb data s of
                (r, s1) \<Rightarrow> if 0 \<le> r then ssl_records env nb [] s1 else Some ([], s1)))
      else Some (data, s))"

text \<open>\<open>write\<close>.  Only the write that finds the queue empty is tried at once.\<close>

definition put_data :: "env \<Rightarrow> byte list \<Rightarrow> bool \<Rightarrow> afd \<Rightarrow> server \<Rightarrow> (task list \<times> afd \<times> server) option" where
  "put_data env data layers a s =
     Option.bind (encode_layers env data layers a s) (\<lambda>(bytes, s1).
       let p = af_next_promise a; a1 = a\<lparr>af_next_promise := p + 1\<rparr> in
       if is_closed a then Some ([], add_event (EvRefused p) a1, s1)
       else
         (let a2 = add_event (EvQueued p bytes)
                (a1\<lparr>af_write_buffer := af_write_buffer a @ bytes,
                   af_write_info := af_write_info a @ [\<lparr>bb_promise = p, bb_length = length bytes, bb_sent = 0\<rparr>]\<rparr>) in
          if length (af_write_info a2) = 1 then
            Option.bind (perform_write env a2 s1) (\<lambda>(ok, a3, s2).
              Some (if 0 < ok then [TOnWrite (nat ok)] else [], a3, s2))
          else Some ([], a2, s1)))"

text \<open>The loop of \<open>on_write\<close> over the promises.\<close>

definition ack_turn :: "client \<Rightarrow> nat \<Rightarrow> bool \<Rightarrow> afd \<Rightarrow> task list \<times> afd" where
  "ack_turn cl n do_write a =
     (case af_write_info a of
        [] \<Rightarrow> ([TWriteNext do_write], a)
      | b # bs \<Rightarrow>
          if bb_length b \<le> bb_sent b + n then
            (let a1 = finish_write True (a\<lparr>af_write_info := b\<lparr>bb_sent := bb_length b\<rparr> # bs\<rparr>) in
             (resume cl a1 @ [TAck (n - (bb_length b - bb_sent b)) do_write], a1))
          else
            ([TWriteNext do_write],
             if 0 < n then a\<lparr>af_write_info := b\<lparr>bb_sent := bb_sent b + n\<rparr> # bs\<rparr> else a))"

definition write_next :: "env \<Rightarrow> bool \<Rightarrow> afd \<Rightarrow> server \<Rightarrow> (task list \<times> afd \<times> server) option" where
  "write_next env do_write a s =
     (if af_write_offset a < length (af_write_buffer a) \<and> do_write then
        Option.bind (perform_write env a s) (\<lambda>(ok, a1, s1).
          Some (if ok < 0 then [TWriteEnd] else [TWriteTurn (nat ok)], a1, s1))
      else Some ([TWriteEnd], a, s))"

section \<open>Closing\<close>

text \<open>
  \<open>s80_close\<close> calls back when the descriptor could be taken out of the event loop; the callback finds
  the descriptor in the table of its context and takes it out.
\<close>

definition close_reaches :: "env \<Rightarrow> afd \<Rightarrow> server \<Rightarrow> bool" where
  "close_reaches env a s \<longleftrightarrow>
     0 \<le> a_ret (fst (act env (AEpollCtl (af_elfd a) EPOLL_CTL_DEL (af_fd a) (EPOLLIN OR EPOLLOUT)
       (SET_FD_HOLDER (af_fd_type a) (af_fd a))) s))"

text \<open>\<open>handle_failure\<close>.\<close>

definition fail_tasks :: "task list" where
  "fail_tasks = [TFailReads, TFailWrites, TFailClear]"

definition close_afd :: "env \<Rightarrow> bool \<Rightarrow> afd \<Rightarrow> server \<Rightarrow> (task list \<times> afd \<times> server) option" where
  "close_afd env immediate a s =
     (if af_closed a = CsOpen then
        (case s80_close env (\<lambda>plan s. Some s) 0 (af_elfd a) (af_fd a) (af_fd_type a) False s of
           None \<Rightarrow> None
         | Some (r, s1) \<Rightarrow>
             if immediate then
               (if close_reaches env a s \<and> af_registered a
                then Some ([TOnClose], a\<lparr>af_closed := CsClosing, af_registered := False\<rparr>, s1)
                else Some ([], a\<lparr>af_closed := CsClosing\<rparr>, s1))
             else Some (fail_tasks, a\<lparr>af_closed := CsClosed\<rparr>, s1))
      else Some ([], a, s))"

text \<open>The destructor: the TLS connection is released, then the descriptor is closed.\<close>

definition destroy_afd :: "env \<Rightarrow> afd \<Rightarrow> server \<Rightarrow> (task list \<times> afd \<times> server) option" where
  "destroy_afd env a s =
     (case af_ssl_bio a of
        None \<Rightarrow> close_afd env False a s
      | Some nb \<Rightarrow>
          (case crypto_ssl_bio_release env 0 3 [0 \<mapsto> nb] s of
             None \<Rightarrow> None
           | Some (st, s1) \<Rightarrow> close_afd env False (a\<lparr>af_ssl_bio := st 0, af_ssl_status := SslNone\<rparr>) s1))"

section \<open>One step, and a run\<close>

text \<open>Storing at the front of the array \<open>new_data\<close> of \<open>ssl_cycle\<close>.\<close>

definition overlay :: "byte list \<Rightarrow> byte list \<Rightarrow> byte list" where
  "overlay bs arr = bs @ drop (length bs) arr"

definition ssl_read_turn :: "env \<Rightarrow> byte list \<Rightarrow> bool \<Rightarrow> byte list \<Rightarrow> bool \<Rightarrow> afd \<Rightarrow> server \<Rightarrow>
    (task list \<times> afd_state) option" where
  "ssl_read_turn env decoded want arr cycle a s =
     (case af_ssl_bio a of
        None \<Rightarrow> None
      | Some nb \<Rightarrow>
          (case crypto_ssl_read env nb 4000 want False s of
             ((r, bs, want1, err), s1) \<Rightarrow>
               let arr1 = overlay (take (nat r) bs) arr in
               Some ([if want1 then TSslFlush decoded want1 r arr1 cycle else TSslTake decoded want1 r arr1 cycle], a, s1)))"

definition ssl_flush_turn :: "env \<Rightarrow> byte list \<Rightarrow> bool \<Rightarrow> int \<Rightarrow> byte list \<Rightarrow> bool \<Rightarrow> afd \<Rightarrow> server \<Rightarrow>
    (task list \<times> afd_state) option" where
  "ssl_flush_turn env decoded want r arr cycle a s =
     (case af_ssl_bio a of
        None \<Rightarrow> None
      | Some nb \<Rightarrow>
          (case crypto_ssl_bio_read env nb 4000 s of
             ((n, bs), s1) \<Rightarrow>
               if n \<le> 0 then Some ([TSslTake decoded want r arr cycle], a, s1)
               else if length bs < nat n then None
               else Some ([TPut (take (nat n) bs) False, TSslFlush decoded want r (overlay (take (nat n) bs) arr) cycle], a, s1)))"

definition ssl_take_turn :: "byte list \<Rightarrow> bool \<Rightarrow> int \<Rightarrow> byte list \<Rightarrow> bool \<Rightarrow> task list option" where
  "ssl_take_turn decoded want r arr cycle =
     (if 0 < r then
        (if length arr < nat r then None else Some [TSslRead (decoded @ take (nat r) arr) want arr cycle])
      else Some [TTurn decoded cycle])"

fun afd_call :: "env \<Rightarrow> call \<Rightarrow> afd \<Rightarrow> server \<Rightarrow> (task list \<times> afd_state) option" where
  "afd_call env ReadAny a s = Some (fst (add_read RcAny a), snd (add_read RcAny a), s)"
| "afd_call env (ReadN n) a s = Some (fst (add_read (RcN n) a), snd (add_read (RcN n) a), s)"
| "afd_call env (ReadUntil d) a s = map_option (\<lambda>(ts, a1). (ts, a1, s)) (read_until d a)"
| "afd_call env (ReadUntilWith d T) a s = Some (fst (add_read (RcUntil d T) a), snd (add_read (RcUntil d T) a), s)"
| "afd_call env (Write d) a s = put_data env d True a s"
| "afd_call env (Close immediate) a s = close_afd env immediate a s"

fun afd_step :: "env \<Rightarrow> client \<Rightarrow> task \<Rightarrow> afd_state \<Rightarrow> (task list \<times> afd_state) option" where
  "afd_step env cl (TData data cycle) (a, s) =
     (if data \<noteq> [] \<and> ssl_ready a then
        (case af_ssl_bio a of
           None \<Rightarrow> None
         | Some nb \<Rightarrow> Some ([TSslRead [] False [] cycle], a, snd (crypto_ssl_bio_write env nb data s)))
      else Some ([TTurn data cycle], a, s))"
| "afd_step env cl (TSslRead decoded want arr cycle) (a, s) = ssl_read_turn env decoded want arr cycle a s"
| "afd_step env cl (TSslFlush decoded want r arr cycle) (a, s) = ssl_flush_turn env decoded want r arr cycle a s"
| "afd_step env cl (TSslTake decoded want r arr cycle) (a, s) =
     map_option (\<lambda>ts. (ts, a, s)) (ssl_take_turn decoded want r arr cycle)"
| "afd_step env cl (TTurn data cycle) (a, s) =
     Some (if is_closed a then []
           else if \<not> cycle \<and> af_read_commands a = [] then
             (case cl_on_empty cl (af_log a) of
                None \<Rightarrow> [TFill data cycle]
              | Some calls \<Rightarrow> map TCall calls @ [TFill data cycle])
           else [TFill data cycle], a, s)"
| "afd_step env cl (TFill data cycle) (a, s) = Some (fst (fill_turn data cycle a), snd (fill_turn data cycle a), s)"
| "afd_step env cl TLoop (a, s) = map_option (\<lambda>(ts, a1). (ts, a1, s)) (read_turn cl a)"
| "afd_step env cl (TTail cycle) (a, s) = Some (fst (tail_turn cycle a), snd (tail_turn cycle a), s)"
| "afd_step env cl (TOnWrite n) (a, s) = Some (if is_closed a then [] else [TWriteTurn n], a, s)"
| "afd_step env cl (TWriteTurn n) (a, s) =
     Some ([TAck n (n = 0)], a\<lparr>af_write_offset := af_write_offset a + n\<rparr>, s)"
| "afd_step env cl (TAck n do_write) (a, s) = Some (fst (ack_turn cl n do_write a), snd (ack_turn cl n do_write a), s)"
| "afd_step env cl (TWriteNext do_write) (a, s) = write_next env do_write a s"
| "afd_step env cl TWriteEnd (a, s) =
     Some ([], if af_write_info a = [] then a\<lparr>af_write_buffer := [], af_write_offset := 0\<rparr> else a, s)"
| "afd_step env cl TOnClose (a, s) =
     Some (if af_closed a = CsClosed then ([], a, s) else (fail_tasks, a\<lparr>af_closed := CsClosed\<rparr>, s))"
| "afd_step env cl TFailReads (a, s) =
     Some (if af_read_commands a = [] then ([], a, s)
           else (resume cl (finish_read True [] a) @ [TFailReads], finish_read True [] a, s))"
| "afd_step env cl TFailWrites (a, s) =
     Some (if af_write_info a = [] then ([], a, s)
           else (resume cl (finish_write False a) @ [TFailWrites], finish_write False a, s))"
| "afd_step env cl TFailClear (a, s) =
     Some ([], a\<lparr>af_write_offset := 0, af_write_buffer := [], af_read_buffer := []\<rparr>, s)"
| "afd_step env cl (TCall c) (a, s) = afd_call env c a s"
| "afd_step env cl (TPut data layers) (a, s) = put_data env data layers a s"
| "afd_step env cl TDestroy (a, s) = destroy_afd env a s"

partial_function (option) afd_run :: "env \<Rightarrow> client \<Rightarrow> task list \<Rightarrow> afd \<Rightarrow> server \<Rightarrow> afd_state option" where
  "afd_run env cl ts a s =
     (case ts of
        [] \<Rightarrow> Some (a, s)
      | t # rest \<Rightarrow>
          Option.bind (afd_step env cl t (a, s)) (\<lambda>r. afd_run env cl (fst r @ rest) (fst (snd r)) (snd (snd r))))"

section \<open>Runs\<close>

text \<open>What every step preserves over the whole stack holds at the end of a run.\<close>

lemma afd_run_steps:
  assumes "afd_run env cl ts a s = Some (a1, s1)"
  shows "(\<forall>t rest a s new a' s'. I (t # rest) a s \<longrightarrow> afd_step env cl t (a, s) = Some (new, a', s') \<longrightarrow> I (new @ rest) a' s') \<longrightarrow>
    I ts a s \<longrightarrow> I [] a1 s1"
proof -
  have "(\<forall>t rest a s new a' s'. I (t # rest) a s \<longrightarrow> afd_step env cl t (a, s) = Some (new, a', s') \<longrightarrow> I (new @ rest) a' s') \<longrightarrow>
      I ts a s \<longrightarrow> I [] (fst (a1, s1)) (snd (a1, s1))"
  proof (rule afd_run.raw_induct [OF _ assms])
    fix loop env cl ts a s y
    assume IH: "\<And>env cl ts a s y. loop env cl ts a s = Some y \<Longrightarrow>
        (\<forall>t rest a s new a' s'. I (t # rest) a s \<longrightarrow> afd_step env cl t (a, s) = Some (new, a', s') \<longrightarrow> I (new @ rest) a' s') \<longrightarrow>
        I ts a s \<longrightarrow> I [] (fst y) (snd y)"
      and body: "(case ts of [] \<Rightarrow> Some (a, s)
        | t # rest \<Rightarrow>
            Option.bind (afd_step env cl t (a, s)) (\<lambda>r. loop env cl (fst r @ rest) (fst (snd r)) (snd (snd r)))) = Some y"
    show "(\<forall>t rest a s new a' s'. I (t # rest) a s \<longrightarrow> afd_step env cl t (a, s) = Some (new, a', s') \<longrightarrow> I (new @ rest) a' s') \<longrightarrow>
        I ts a s \<longrightarrow> I [] (fst y) (snd y)"
    proof (intro impI)
      assume step: "\<forall>t rest a s new a' s'. I (t # rest) a s \<longrightarrow> afd_step env cl t (a, s) = Some (new, a', s') \<longrightarrow> I (new @ rest) a' s'"
        and start: "I ts a s"
      show "I [] (fst y) (snd y)"
      proof (cases ts)
        case Nil
        then show ?thesis using body start by auto
      next
        case (Cons t rest)
        then obtain new a' s' where "afd_step env cl t (a, s) = Some (new, a', s')" "loop env cl (new @ rest) a' s' = Some y"
          using body by (auto simp: bind_eq_Some_conv)
        then show ?thesis using IH step start Cons by blast
      qed
    qed
  qed
  then show ?thesis by simp
qed

lemma afd_run_invariant:
  assumes "afd_run env cl ts a s = Some (a1, s1)" and "I ts a s"
    and "\<And>t rest a s new a' s'. I (t # rest) a s \<Longrightarrow> afd_step env cl t (a, s) = Some (new, a', s') \<Longrightarrow> I (new @ rest) a' s'"
  shows "I [] a1 s1"
  using afd_run_steps [OF assms(1), of I] assms(2,3) by blast

end
