(* ===== verification/Afd_Until.thy ===== *)
theory Afd_Until
  imports Afd
begin

text \<open>
  The search of a \<open>read_until\<close> command in the window of a descriptor, over the chunks in which the data
  arrives: what it consumes always ends with the delimiter, and within one chunk it is the first
  occurrence.
\<close>

section \<open>The search with a table of the caller\<close>

lemma kmp_table_result:
  assumes "p \<noteq> []" and "h \<noteq> []" and "offset \<le> length h" and "length h < 2 ^ 63" and "length p < 2 ^ 63"
    and T: "table_ok p T (length p)" "length p \<le> length T"
  shows "\<exists>s. kmp junk h p offset (Some T) = Some (s, min (length p) (length h - s)) \<and> first_agreement p h offset s"
proof (cases "length p = 1")
  case True
  then obtain c where p: "p = [c]" by (cases p) auto
  let ?f = "find_byte c (drop offset h)"
  have "kmp junk h p offset (Some T) = Some (case ?f of Some n \<Rightarrow> (offset + n, 1) | None \<Rightarrow> (length h, 0))"
    using assms by (simp add: kmp_def p split: option.splits)
  then show ?thesis
    using memchr_agreement [OF assms(3), of c] find_byte_Some [of c "drop offset h"] p
    by (auto split: option.splits)
next
  case False
  have "search_inv p h offset offset 0" using assms by (auto simp: search_inv_def)
  then have "\<exists>s. kmp_loop h p T (int offset) (int 0) = Some (s, min (length p) (length h - s)) \<and> first_agreement p h offset s"
    using T assms by (intro kmp_loop_result) simp_all
  then show ?thesis using False assms by (simp add: kmp_def Let_def)
qed

text \<open>
  A table of another pattern, as long as its entries go back, cannot make the search report a match
  that is not there when the haystack is no longer than the match: every step back costs a byte.
\<close>

definition goes_back :: "int list \<Rightarrow> nat \<Rightarrow> bool" where
  "goes_back T n \<longleftrightarrow> n \<le> length T \<and> (\<forall>x<n. - 1 \<le> T ! x \<and> T ! x < int x)"

lemma table_goes_back: "table_ok p T n \<Longrightarrow> n \<le> length T \<Longrightarrow> goes_back T n"
  using strong_bounds by (auto simp: table_ok_def goes_back_def)

lemma goes_back_mono: "goes_back T n \<Longrightarrow> m \<le> n \<Longrightarrow> goes_back T m"
  by (auto simp: goes_back_def)

lemma kmp_loop_tight:
  assumes "goes_back T (length p)" and "length h \<le> offset + length p" "length h < 2 ^ 63" "length p < 2 ^ 63"
    and "k < length p" "offset + k \<le> j" "j \<le> length h" "j = offset + k \<Longrightarrow> \<forall>i<k. h ! (offset + i) = p ! i"
  shows "\<exists>s l. kmp_loop h p T (int j) (int k) = Some (s, l) \<and>
    (l < length p \<or> s = offset \<and> l = length p \<and> offset + length p \<le> length h \<and> (\<forall>i<length p. h ! (offset + i) = p ! i))"
  using assms(5-)
proof (induction "2 * (length h - j) + k" arbitrary: j k rule: less_induct)
  case less
  note k = less.prems(1) and at = less.prems(2) and jl = less.prems(3) and eqs = less.prems(4)
  have small: "k < 2 ^ 64" "j - k < 2 ^ 64" "j < 2 ^ 64" "Suc k < 2 ^ 64" using k jl assms(3,4) by simp_all
  have sub: "int j - int k = int (j - k)" using at by simp
  show ?case
  proof (cases "j = length h")
    case True
    have "kmp_loop h p T (int j) (int k) = Some (u64 (int (j - k)), u64 (int k))"
      using True assms(3) sub by (subst kmp_loop.simps) (simp del: u64_nat of_nat_diff)
    then show ?thesis using k small by simp
  next
    case False
    then have j: "j < length h" using jl by simp
    show ?thesis
    proof (cases "p ! k = h ! j")
      case eq: True
      show ?thesis
      proof (cases "Suc k = length p")
        case full: True
        have tight: "j = offset + k" using at j assms(2) full by linarith
        have full': "int k + 1 = int (length p)" and at': "int j + 1 - int (length p) = int (j - k)"
          using full tight by linarith+
        have "kmp_loop h p T (int j) (int k) = Some (u64 (int (j - k)), u64 (int (length p)))"
          using eq j k assms(3,4) full' at' by (subst kmp_loop.simps) simp
        then have run: "kmp_loop h p T (int j) (int k) = Some (offset, length p)"
          using small full tight by (simp only: u64_nat) simp
        have "h ! (offset + i) = p ! i" if "i < length p" for i
          using that eqs [OF tight] eq tight full by (cases "i = k") auto
        then show ?thesis using run full tight j by auto
      next
        case more: False
        then have "int k + 1 \<noteq> int (length p)" by linarith
        then have step: "kmp_loop h p T (int j) (int k) = kmp_loop h p T (int (Suc j)) (int (Suc k))"
          using eq j k assms(3,4) by (subst kmp_loop.simps) (simp add: algebra_simps)
        have eqs': "\<forall>i<Suc k. h ! (offset + i) = p ! i" if "Suc j = offset + Suc k"
          using eqs eq that by (auto simp: less_Suc_eq)
        show ?thesis unfolding step
          using k more at j eqs' by (intro less.hyps) auto
      qed
    next
      case neq: False
      have T: "- 1 \<le> T ! k" "T ! k < int k" "k < length T" using assms(1) k by (auto simp: goes_back_def)
      have step: "kmp_loop h p T (int j) (int k) =
          (if T ! k < 0 then kmp_loop h p T (int j + 1) (T ! k + 1) else kmp_loop h p T (int j) (T ! k))"
        using neq j k T small assms(3,4) by (subst kmp_loop.simps) simp
      show ?thesis
      proof (cases "T ! k < 0")
        case True
        then have "T ! k + 1 = int 0" "int j + 1 = int (Suc j)" using T by simp_all
        then have step': "kmp_loop h p T (int j) (int k) = kmp_loop h p T (int (Suc j)) (int 0)"
          using step True by (simp add: add.commute)
        show ?thesis unfolding step' using k at j by (intro less.hyps) auto
      next
        case False
        then obtain t where t: "T ! k = int t" "t < k" using T by (metis nat_less_iff nonneg_int_cases not_less of_nat_less_iff)
        then have step': "kmp_loop h p T (int j) (int k) = kmp_loop h p T (int j) (int t)" using step by simp
        show ?thesis unfolding step' using k at j t by (intro less.hyps) auto
      qed
    qed
  qed
qed

lemma kmp_tight:
  assumes "goes_back T (length p)" and "length h \<le> offset + length p" "offset \<le> length h" "length h < 2 ^ 63" "length p < 2 ^ 63"
    and "p \<noteq> []"
  shows "\<exists>s l. kmp junk h p offset (Some T) = Some (s, l) \<and>
    (l < length p \<or> s = offset \<and> l = length p \<and> offset + length p \<le> length h \<and> (\<forall>i<length p. h ! (offset + i) = p ! i))"
proof -
  consider "h = []" | "h \<noteq> []" "length p = 1" | "h \<noteq> []" "length p \<noteq> 1" by blast
  then show ?thesis
  proof cases
    case 1
    then show ?thesis using assms(6) by (simp add: kmp_def)
  next
    case 2
    then obtain c where p: "p = [c]" by (cases p) auto
    let ?f = "find_byte c (drop offset h)"
    have run: "kmp junk h p offset (Some T) = Some (case ?f of Some n \<Rightarrow> (offset + n, 1) | None \<Rightarrow> (length h, 0))"
      using 2 assms(3) by (simp add: kmp_def p split: option.splits)
    show ?thesis
    proof (cases ?f)
      case None
      then show ?thesis using run p by simp
    next
      case (Some n)
      have "n < length h - offset" using find_byte_Some [OF Some] by simp
      then have "n = 0" "offset < length h" using assms(2) p by auto
      then show ?thesis using run p Some find_byte_Some [OF Some] by simp
    qed
  next
    case 3
    have "\<exists>s l. kmp_loop h p T (int offset) (int 0) = Some (s, l) \<and>
      (l < length p \<or> s = offset \<and> l = length p \<and> offset + length p \<le> length h \<and> (\<forall>i<length p. h ! (offset + i) = p ! i))"
      by (rule kmp_loop_tight) (use assms in auto)
    then show ?thesis using 3 assms by (simp add: kmp_def Let_def)
  qed
qed

section \<open>One turn of the search\<close>

text \<open>
  What \<open>offset\<close> and \<open>match\<close> stand for: the window up to \<open>offset\<close> has been searched and ends with the
  first \<open>match\<close> bytes of the delimiter.
\<close>

definition delim_inv :: "byte list \<Rightarrow> byte list \<Rightarrow> nat \<Rightarrow> nat \<Rightarrow> bool" where
  "delim_inv w delim off m \<longleftrightarrow> (m = 0 \<or> m < length delim) \<and> m \<le> off \<and> off \<le> length w \<and> (\<forall>y<m. w ! (off - m + y) = delim ! y)"

lemma delim_inv_start [simp]: "delim_inv w delim 0 0"
  by (simp add: delim_inv_def)

lemma delim_inv_more: "delim_inv w delim off m \<Longrightarrow> delim_inv (w @ data) delim off m"
  by (auto simp: delim_inv_def nth_append)

lemma to_int_nat [simp]: "n < 2 ^ 31 \<Longrightarrow> to_int (int n) = int n"
  unfolding to_int_def by (rule sint_word_of_int) (simp add: c_int_def)

text \<open>What a turn leaves behind: an occurrence to consume, or the state for the next chunk.\<close>

definition until_good :: "byte list \<Rightarrow> byte list \<Rightarrow> nat + int \<times> int \<Rightarrow> bool" where
  "until_good w delim r \<longleftrightarrow>
     (case r of
        Inl used \<Rightarrow> length delim \<le> used \<and> used \<le> length w \<and> take used w = take (used - length delim) w @ delim
      | Inr (off', m') \<Rightarrow> \<exists>m. off' = int (length w) \<and> m' = int m \<and> delim_inv w delim (length w) m)"

lemma agrees_full:
  assumes "agrees d w s (length w)" and "s + length d \<le> length w"
  shows "take (s + length d) w = take s w @ d"
proof (rule nth_equalityI)
  show "length (take (s + length d) w) = length (take s w @ d)" using assms(2) by simp
  fix i assume "i < length (take (s + length d) w)"
  then have i: "i < s + length d" using assms(2) by simp
  show "take (s + length d) w ! i = (take s w @ d) ! i"
  proof (cases "i < s")
    case True
    then show ?thesis using assms(2) i by (simp add: nth_append)
  next
    case False
    then have "i - s < length d" "s + (i - s) = i" "\<not> i < min (length w) s" using i assms(2) by linarith+
    then show ?thesis
      using assms i unfolding agrees_def by (auto simp: nth_append)
  qed
qed

lemma agrees_nth: "agrees d w s (length w) \<Longrightarrow> y < length d \<Longrightarrow> s + y < length w \<Longrightarrow> w ! (s + y) = d ! y"
  by (simp add: agrees_def)

lemma until_result_first:
  assumes "first_agreement d w off s" and "length w < 2 ^ 31" "length d < 2 ^ 31" "d \<noteq> []"
  shows "until_good w d (until_result (length w) (length d) (int off) 0 (s, min (length d) (length w - s))) \<and>
    (until_result (length w) (length d) (int off) 0 (s, min (length d) (length w - s)) =
       (if s + length d \<le> length w then Inl (s + length d) else Inr (int (length w), int (length w - s))))"
proof -
  have s: "off \<le> s" "s \<le> length w" "agrees d w s (length w)" using assms(1) by (auto simp: first_agreement_def)
  have u: "u64 (int off) = off" "u64 (int off + 0) = off" using s assms(2) by simp_all
  show ?thesis
  proof (cases "s + length d \<le> length w")
    case True
    then have "min (length d) (length w - s) = length d" by simp
    then have r: "until_result (length w) (length d) (int off) 0 (s, min (length d) (length w - s)) = Inl (s + length d)"
      using True assms(2) to_int_nat [of "s + length d"] u64_nat [of "s + length d"]
      by (simp add: until_result_def del: of_nat_add)
    show ?thesis unfolding r using agrees_full [OF s(3) True] True by (simp add: until_good_def)
  next
    case False
    let ?l = "length w - s"
    have l: "min (length d) (length w - s) = ?l" "?l < length d" "s + ?l = length w" using False s(2) by auto
    have t: "to_int (int (s + ?l)) = int (length w)" "to_int (int ?l) = int ?l"
      using l(3) assms(2) to_int_nat [of "s + ?l"] to_int_nat [of ?l] by simp_all
    have start: "u64 (int (length w) - int ?l) = s"
    proof -
      have "int (length w) - int ?l = int s" using s(2) by simp
      then show ?thesis using s(2) assms(2) by simp
    qed
    have ne: "u64 (int ?l + 0) \<noteq> length d" "?l \<noteq> length d" using l(2) assms(2,3) by simp_all
    have r: "until_result (length w) (length d) (int off) 0 (s, ?l) = Inr (int (length w), int ?l)"
    proof (cases "s = u64 (int off + 0) \<and> 0 < ?l")
      case True
      then show ?thesis using ne t by (simp add: until_result_def)
    next
      case False
      then show ?thesis using ne t start unfolding until_result_def prod.case Let_def by (auto simp: u)
    qed
    have "delim_inv w d (length w) ?l"
      using l s by (auto simp: delim_inv_def intro: agrees_nth)
    then have "until_good w d (Inr (int (length w), int ?l))" unfolding until_good_def by auto
    then show ?thesis unfolding l(1) r using False by simp
  qed
qed

lemma delim_inv_rest:
  assumes "delim_inv w d off m" and "m < length d" and "off + (length d - m) \<le> length w"
    and "\<forall>i<length d - m. w ! (off + i) = drop m d ! i"
  shows "take (off + (length d - m)) w = take (off - m) w @ d"
proof -
  have m: "m \<le> off" "\<forall>y<m. w ! (off - m + y) = d ! y" using assms(1) by (auto simp: delim_inv_def)
  have "agrees d w (off - m) (length w)"
    unfolding agrees_def
  proof (intro allI impI)
    fix x assume x: "x < length d" "off - m + x < length w"
    show "d ! x = w ! (off - m + x)"
    proof (cases "x < m")
      case True
      then show ?thesis using m(2) by simp
    next
      case False
      then have at: "off - m + x = off + (x - m)" "x - m < length d - m" "m + (x - m) = x" using m(1) x(1) by linarith+
      have "w ! (off + (x - m)) = drop m d ! (x - m)" using assms(4) at(2) by blast
      also have "\<dots> = d ! x" using at(3) x(1) by simp
      finally show ?thesis unfolding at(1) by simp
    qed
  qed
  moreover have "off - m + length d = off + (length d - m)" using m(1) assms(2) by linarith
  ultimately show ?thesis using agrees_full [of d w "off - m"] assms(3) by simp
qed

lemma kmp_empty_pattern [simp]: "kmp junk h [] off K = Some (length h, 0)"
  by (simp add: kmp_def)

text \<open>Every turn ends without a fault, in a good state.\<close>

lemma until_turn:
  assumes inv: "delim_inv w d off m" and w: "w \<noteq> []" "length w < 2 ^ 31" and d: "length d < 2 ^ 31"
    and T: "d = [] \<or> table_ok d T (length d) \<and> length d \<le> length T"
  shows "\<exists>part m'. until_search w d T (int off) (int m) = Some (part, m') \<and>
    until_good w d (until_result (length w) (length d) (int off) m' part)"
proof (cases "d = []")
  case True
  then have m: "m = 0" using inv by (simp add: delim_inv_def)
  then have "until_search w d T (int off) (int m) = Some ((length w, 0), 0)" using True by (simp add: until_search_def)
  moreover have "until_result (length w) (length d) (int off) 0 (length w, 0) = Inl (length w)"
    using True w(2) by (simp add: until_result_def)
  ultimately show ?thesis using True by (auto simp: until_good_def)
next
  case False
  then have T: "table_ok d T (length d)" "length d \<le> length T" using T by auto
  have off: "off \<le> length w" "m \<le> off" using inv by (auto simp: delim_inv_def)
  have u: "u64 (int off) = off" using off w(2) by simp
  have bounds: "length w < 2 ^ 63" "length d < 2 ^ 63" using w(2) d by simp_all
  obtain s where s: "kmp (\<lambda>i. 0) w d off (Some T) = Some (s, min (length d) (length w - s))" "first_agreement d w off s"
    using kmp_table_result [OF False w(1) off(1) bounds T] by blast
  note full = until_result_first [OF s(2) w(2) d False]
  show ?thesis
  proof (cases "m = 0")
    case True
    then have "until_search w d T (int off) (int m) = Some ((s, min (length d) (length w - s)), 0)"
      using s(1) u by (simp add: until_search_def)
    then show ?thesis using full by blast
  next
    case False
    then have m: "0 < m" "m < length d" using inv by (auto simp: delim_inv_def)
    let ?r = "length d - m"
    define n where "n = min (length w) (off + ?r)"
    have r: "u64 (int off + int ?r) = off + ?r"
      using u64_nat [of "off + ?r"] off w(2) d by simp
    have n: "(if length w < u64 (int off + int ?r) then length w else u64 (int off + int ?r)) = n"
      unfolding n_def r by simp
    have drop: "drop m d \<noteq> []" "length (drop m d) = ?r" using m by simp_all
    have gb: "goes_back T (length (drop m d))"
      using goes_back_mono [OF table_goes_back [OF T], of ?r] drop by simp
    have tk: "length (take n w) \<le> off + length (drop m d)" "off \<le> length (take n w)" "length (take n w) < 2 ^ 63"
        "length (drop m d) < 2 ^ 63"
      using off bounds unfolding n_def drop(2) by auto
    from kmp_tight [OF gb tk drop(1), of "\<lambda>i. 0"]
    obtain x l where x: "kmp (\<lambda>i. 0) (take n w) (drop m d) off (Some T) = Some (x, l)"
      "l < ?r \<or> x = off \<and> l = ?r \<and> off + ?r \<le> length (take n w) \<and> (\<forall>i<?r. take n w ! (off + i) = drop m d ! i)"
      unfolding drop(2) by blast
    have search: "until_search w d T (int off) (int m) =
        (if l < ?r then Some ((s, min (length d) (length w - s)), 0) else Some ((x, l), int m))"
      using m s(1) x(1) u unfolding until_search_def by (simp add: n Let_def del: of_nat_diff)
    show ?thesis
    proof (cases "l < ?r")
      case True
      then show ?thesis using search full by auto
    next
      case False
      then have hit: "x = off" "l = ?r" "off + ?r \<le> length w" "\<forall>i<?r. w ! (off + i) = drop m d ! i"
        using x(2) unfolding n_def by auto
      have mm: "int l + int m = int (length d)" "length d < 2 ^ 64" using hit(2) m(2) d by simp_all
      then have "u64 (int l + int m) = length d" by (simp only: u64_nat)
      moreover have "to_int (int (x + l)) = int (x + l)" "u64 (int (x + l)) = x + l"
        using hit w(2) to_int_nat [of "x + l"] u64_nat [of "x + l"] by (simp_all del: of_nat_add)
      ultimately have "until_result (length w) (length d) (int off) (int m) (x, l) = Inl (off + ?r)"
        using hit(1,2) u by (simp add: until_result_def del: of_nat_add)
      moreover have "off + ?r - length d = off - m" using m off by linarith
      ultimately have "until_good w d (until_result (length w) (length d) (int off) (int m) (x, l))"
        using delim_inv_rest [OF inv m(2) hit(3,4)] hit(3) m off by (simp add: until_good_def)
      then show ?thesis using search False by auto
    qed
  qed
qed

text \<open>A fresh search consumes up to the first occurrence, or remembers the part of one at the end.\<close>

lemma until_fresh:
  assumes w: "w \<noteq> []" "length w < 2 ^ 31" and d: "d \<noteq> []" "length d < 2 ^ 31"
    and T: "table_ok d T (length d)" "length d \<le> length T"
  shows "\<exists>part s. until_search w d T 0 0 = Some (part, 0) \<and> first_agreement d w 0 s \<and>
    until_result (length w) (length d) 0 0 part =
      (if s + length d \<le> length w then Inl (s + length d) else Inr (int (length w), int (length w - s)))"
proof -
  have bounds: "length w < 2 ^ 63" "length d < 2 ^ 63" using w(2) d by simp_all
  obtain s where s: "kmp (\<lambda>i. 0) w d 0 (Some T) = Some (s, min (length d) (length w - s))" "first_agreement d w 0 s"
    using kmp_table_result [OF d(1) w(1) _ bounds T, of 0] by blast
  have "u64 0 = 0" by (simp add: u64_def)
  then have "until_search w d T 0 0 = Some ((s, min (length d) (length w - s)), 0)" using s(1) by (simp add: until_search_def)
  then show ?thesis using s(2) until_result_first [OF s(2) w(2) d(2) d(1)] by auto
qed

text \<open>
  When the next chunk does not bring the whole rest of the delimiter, the part seen before is forgotten:
  the search starts anew behind it.
\<close>

lemma until_forgets:
  assumes inv: "delim_inv w d off m" "0 < m" and w: "length w < 2 ^ 31" "length w < off + (length d - m)"
    and d: "length d < 2 ^ 31" and T: "table_ok d T (length d)" "length d \<le> length T"
  shows "\<exists>part s. until_search w d T (int off) (int m) = Some (part, 0) \<and> first_agreement d w off s \<and>
    until_result (length w) (length d) (int off) 0 part =
      (if s + length d \<le> length w then Inl (s + length d) else Inr (int (length w), int (length w - s)))"
proof -
  have m: "m < length d" "m \<le> off" "off \<le> length w" using inv by (auto simp: delim_inv_def)
  have d0: "d \<noteq> []" and w0: "w \<noteq> []" using m inv(2) by auto
  have bounds: "length w < 2 ^ 63" "length d < 2 ^ 63" using w(1) d by simp_all
  obtain s where s: "kmp (\<lambda>i. 0) w d off (Some T) = Some (s, min (length d) (length w - s))" "first_agreement d w off s"
    using kmp_table_result [OF d0 w0 m(3) bounds T] by blast
  let ?r = "length d - m"
  have small: "off < 2 ^ 64" "off + ?r < 2 ^ 64" using m w(1) d by simp_all
  have u: "u64 (int off) = off" "u64 (int off + int ?r) = off + ?r"
    using u64_nat [OF small(1)] u64_nat [OF small(2)] by (simp_all only: of_nat_add)
  have drop: "drop m d \<noteq> []" "length (drop m d) = ?r" using m by simp_all
  have gb: "goes_back T (length (drop m d))"
    using goes_back_mono [OF table_goes_back [OF T], of ?r] drop by simp
  have tk: "length w \<le> off + length (drop m d)" "length (drop m d) < 2 ^ 63" using w(2) bounds unfolding drop(2) by simp_all
  from kmp_tight [OF gb tk(1) m(3) bounds(1) tk(2) drop(1), of "\<lambda>i. 0"]
  obtain x l where x: "kmp (\<lambda>i. 0) w (drop m d) off (Some T) = Some (x, l)" "l < ?r"
    using w(2) unfolding drop(2) by auto
  have "until_search w d T (int off) (int m) = Some ((s, min (length d) (length w - s)), 0)"
    using m inv(2) s(1) x w(2) unfolding until_search_def by (simp add: u Let_def del: of_nat_diff)
  then show ?thesis using s(2) until_result_first [OF s(2) w(1) d d0] by auto
qed

end
