(* ===== verification/Afd_Control.thy ===== *)
theory Afd_Control
  imports Afd_Until
begin

text \<open>
  The control flow of a descriptor: it is closed for good once it is closed, and from then on the only
  thing that happens is that \<open>handle_failure\<close> works off what is left, whatever the coroutines it wakes
  do.
\<close>

section \<open>Tasks of handle\_failure\<close>

definition quiet :: "task list \<Rightarrow> bool" where
  "quiet ts \<longleftrightarrow> (\<forall>t\<in>set ts. t \<notin> set fail_tasks)"

lemma quiet_simps [simp]:
  "quiet []" "quiet (t # ts) \<longleftrightarrow> t \<notin> set fail_tasks \<and> quiet ts" "quiet (ts @ us) \<longleftrightarrow> quiet ts \<and> quiet us"
  by (auto simp: quiet_def)

lemma quiet_calls [simp]: "quiet (map TCall cs)"
  by (auto simp: quiet_def fail_tasks_def)

lemma quiet_resume [simp]: "quiet (resume cl a)"
  by (simp add: resume_def)

lemma in_fail_tasks: "t \<in> set fail_tasks \<longleftrightarrow> t = TFailReads \<or> t = TFailWrites \<or> t = TFailClear"
  by (auto simp: fail_tasks_def)

text \<open>Nothing is left to do for a closed descriptor, or \<open>handle_failure\<close> is at work on it.\<close>

definition settled :: "afd \<Rightarrow> bool" where
  "settled a \<longleftrightarrow> af_read_commands a = [] \<and> af_write_info a = [] \<and> af_write_buffer a = []"

definition failing :: "task list \<Rightarrow> afd \<Rightarrow> bool" where
  "failing ts a \<longleftrightarrow>
     (\<exists>k cs rest. k \<le> 2 \<and> ts = map TCall cs @ drop k fail_tasks @ rest \<and>
        (1 \<le> k \<longrightarrow> af_read_commands a = []) \<and> (2 \<le> k \<longrightarrow> af_write_info a = []))"

definition ctl :: "task list \<Rightarrow> afd \<Rightarrow> bool" where
  "ctl ts a \<longleftrightarrow>
     (af_closed a = CsClosed \<longrightarrow> settled a \<or> failing ts a) \<and> (af_closed a \<noteq> CsClosed \<longrightarrow> quiet ts)"

section \<open>What the operations leave alone\<close>

lemma add_event_fields [simp]:
  "af_closed (add_event e a) = af_closed a" "af_read_commands (add_event e a) = af_read_commands a"
  "af_write_info (add_event e a) = af_write_info a" "af_write_buffer (add_event e a) = af_write_buffer a"
  "af_write_offset (add_event e a) = af_write_offset a" "af_read_buffer (add_event e a) = af_read_buffer a"
  "af_read_offset (add_event e a) = af_read_offset a" "af_log (add_event e a) = af_log a @ [e]"
  "af_delim_offset (add_event e a) = af_delim_offset a" "af_delim_match (add_event e a) = af_delim_match a"
  "af_next_promise (add_event e a) = af_next_promise a" "af_registered (add_event e a) = af_registered a"
  "af_ssl_status (add_event e a) = af_ssl_status a" "af_ssl_bio (add_event e a) = af_ssl_bio a"
  "af_fd (add_event e a) = af_fd a" "af_elfd (add_event e a) = af_elfd a" "af_fd_type (add_event e a) = af_fd_type a"
  by (simp_all add: add_event_def)

lemma perform_write_frame:
  assumes "perform_write env a s = Some (ok, a', s')"
  shows "a' = (if ok < 0 then a\<lparr>af_closed := CsClosing\<rparr>
    else add_event (EvSent (take (nat ok) (drop (af_write_offset a) (af_write_buffer a)))) a)"
  using assms by (auto simp: perform_write_def split: option.splits prod.splits if_splits)

lemma put_data_cases:
  assumes "put_data env data layers a s = Some (new, a', s')"
  obtains (refused) "is_closed a" "new = []" "a' = add_event (EvRefused (af_next_promise a)) (a\<lparr>af_next_promise := af_next_promise a + 1\<rparr>)"
  | (queued) bytes a2 where "\<not> is_closed a"
      "a2 = add_event (EvQueued (af_next_promise a) bytes)
        (a\<lparr>af_next_promise := af_next_promise a + 1, af_write_buffer := af_write_buffer a @ bytes,
           af_write_info := af_write_info a @ [\<lparr>bb_promise = af_next_promise a, bb_length = length bytes, bb_sent = 0\<rparr>]\<rparr>)"
      "af_write_info a \<noteq> []" "new = []" "a' = a2"
  | (tried) bytes s1 a2 ok where "\<not> is_closed a"
      "a2 = add_event (EvQueued (af_next_promise a) bytes)
        (a\<lparr>af_next_promise := af_next_promise a + 1, af_write_buffer := af_write_buffer a @ bytes,
           af_write_info := af_write_info a @ [\<lparr>bb_promise = af_next_promise a, bb_length = length bytes, bb_sent = 0\<rparr>]\<rparr>)"
      "af_write_info a = []" "perform_write env a2 s1 = Some (ok, a', s')" "new = (if 0 < ok then [TOnWrite (nat ok)] else [])"
proof -
  obtain bytes s1 where enc: "encode_layers env data layers a s = Some (bytes, s1)"
    using assms by (auto simp: put_data_def bind_eq_Some_conv)
  show ?thesis
  proof (cases "is_closed a")
    case True
    then show ?thesis using assms enc by (intro refused) (simp_all add: put_data_def Let_def)
  next
    case open_: False
    let ?a2 = "add_event (EvQueued (af_next_promise a) bytes)
        (a\<lparr>af_next_promise := af_next_promise a + 1, af_write_buffer := af_write_buffer a @ bytes,
           af_write_info := af_write_info a @ [\<lparr>bb_promise = af_next_promise a, bb_length = length bytes, bb_sent = 0\<rparr>]\<rparr>)"
    show ?thesis
    proof (cases "af_write_info a = []")
      case True
      then obtain ok where "perform_write env ?a2 s1 = Some (ok, a', s')" "new = (if 0 < ok then [TOnWrite (nat ok)] else [])"
        using assms enc open_ by (auto simp: put_data_def Let_def bind_eq_Some_conv)
      then show ?thesis using open_ True by (intro tried [of ?a2 bytes s1 ok]) simp_all
    next
      case False
      then show ?thesis using assms enc open_ by (intro queued [of ?a2 bytes]) (simp_all add: put_data_def Let_def)
    qed
  qed
qed

lemma add_read_cases:
  obtains (refused) "is_closed a" "add_read kind a =
      ([], add_event (EvRefused (af_next_promise a)) (a\<lparr>af_next_promise := af_next_promise a + 1\<rparr>))"
  | (queued) ts where "\<not> is_closed a" "ts = [] \<or> ts = [TData [] True]" "add_read kind a =
      (ts, a\<lparr>af_next_promise := af_next_promise a + 1,
         af_read_commands := af_read_commands a @ [\<lparr>rc_promise = af_next_promise a, rc_kind = kind\<rparr>]\<rparr>)"
proof (cases "is_closed a")
  case True
  then show ?thesis by (intro refused) (simp_all add: add_read_def Let_def)
next
  case False
  then show ?thesis
    by (intro queued [of "if 0 < length (af_read_buffer a) \<and> af_read_commands a = [] then [TData [] True] else []"])
      (simp_all add: add_read_def Let_def)
qed

lemma close_afd_cases:
  assumes "close_afd env imm a s = Some (new, a', s')"
  obtains (nothing) "af_closed a \<noteq> CsOpen" "new = []" "a' = a"
  | (kept) "af_closed a = CsOpen" "new = []" "a' = a\<lparr>af_closed := CsClosing\<rparr>"
  | (called) "af_closed a = CsOpen" "new = [TOnClose]" "a' = a\<lparr>af_closed := CsClosing, af_registered := False\<rparr>"
  | (direct) "af_closed a = CsOpen" "new = fail_tasks" "a' = a\<lparr>af_closed := CsClosed\<rparr>"
  using assms by (auto simp: close_afd_def split: if_splits option.splits prod.splits)

lemma destroy_afd_cases:
  assumes "destroy_afd env a s = Some (new, a', s')"
  obtains bio st s1 where "close_afd env False (a\<lparr>af_ssl_bio := bio, af_ssl_status := st\<rparr>) s1 = Some (new, a', s')"
proof (cases "af_ssl_bio a")
  case None
  have "a\<lparr>af_ssl_bio := af_ssl_bio a, af_ssl_status := af_ssl_status a\<rparr> = a" by simp
  then show ?thesis using that [of "af_ssl_status a" "af_ssl_bio a" s] None assms unfolding destroy_afd_def by (metis option.simps(4))
next
  case (Some nb)
  then show ?thesis using assms that by (auto simp: destroy_afd_def split: option.splits prod.splits)
qed

lemma read_turn_cases:
  assumes "read_turn cl a = Some (new, a')"
  obtains (idle) "new = []" "a' = a"
  | (any) c cs w where "af_read_commands a = c # cs" "rc_kind c = RcAny" "af_read_offset a \<le> length (af_read_buffer a)"
      "w = drop (af_read_offset a) (af_read_buffer a)" "w \<noteq> []"
      "a' = finish_read False w (a\<lparr>af_read_offset := af_read_offset a + length w\<rparr>)" "new = resume cl a'"
  | (enough) c cs w n where "af_read_commands a = c # cs" "rc_kind c = RcN n" "af_read_offset a \<le> length (af_read_buffer a)"
      "w = drop (af_read_offset a) (af_read_buffer a)" "w \<noteq> []" "n \<le> length w"
      "a' = finish_read False (take n w) (a\<lparr>af_read_offset := af_read_offset a + n\<rparr>)" "new = resume cl a' @ [TLoop]"
  | (found) c cs w delim T part m used where "af_read_commands a = c # cs" "rc_kind c = RcUntil delim T"
      "af_read_offset a \<le> length (af_read_buffer a)" "w = drop (af_read_offset a) (af_read_buffer a)" "w \<noteq> []"
      "until_search w delim T (af_delim_offset a) (af_delim_match a) = Some (part, m)"
      "until_result (length w) (length delim) (af_delim_offset a) m part = Inl used" "used \<le> length w"
      "a' = finish_read False (take (u64 (int used - int (length delim))) w)
         (a\<lparr>af_delim_offset := 0, af_delim_match := 0, af_read_offset := af_read_offset a + used\<rparr>)" "new = resume cl a' @ [TLoop]"
  | (more) c cs w delim T part m off' m' where "af_read_commands a = c # cs" "rc_kind c = RcUntil delim T"
      "af_read_offset a \<le> length (af_read_buffer a)" "w = drop (af_read_offset a) (af_read_buffer a)" "w \<noteq> []"
      "until_search w delim T (af_delim_offset a) (af_delim_match a) = Some (part, m)"
      "until_result (length w) (length delim) (af_delim_offset a) m part = Inr (off', m')"
      "a' = a\<lparr>af_delim_offset := off', af_delim_match := m'\<rparr>" "new = []"
proof -
  define w where "w = drop (af_read_offset a) (af_read_buffer a)"
  consider "af_read_commands a = []" | "af_read_offset a \<le> length (af_read_buffer a)" "w = []"
    | c cs where "af_read_commands a = c # cs" "af_read_offset a \<le> length (af_read_buffer a)" "w \<noteq> []"
    using assms by (cases "af_read_commands a") (auto simp: read_turn_def split: if_splits)
  then show ?thesis
  proof cases
    case 1
    then show ?thesis using assms by (intro idle) (auto simp: read_turn_def)
  next
    case 2
    then show ?thesis using assms unfolding w_def by (intro idle) (auto simp: read_turn_def split: if_splits)
  next
    case 3
    have w: "drop (af_read_offset a) (af_read_buffer a) = w" by (simp add: w_def)
    have hd: "hd (af_read_commands a) = c" "af_read_commands a \<noteq> []" "\<not> length (af_read_buffer a) < af_read_offset a"
      using 3 by simp_all
    note body = assms [unfolded read_turn_def Let_def w if_not_P [OF hd(2)] if_not_P [OF hd(3)] if_not_P [OF 3(3)] hd(1)]
    show ?thesis
    proof (cases "rc_kind c")
      case RcAny
      then show ?thesis using body 3 w by (intro any [of c cs w]) auto
    next
      case (RcN n)
      show ?thesis
      proof (cases "length w < n")
        case True
        then show ?thesis using body RcN by (intro idle) auto
      next
        case False
        then show ?thesis using body 3 w RcN by (intro enough [of c cs n w]) auto
      qed
    next
      case (RcUntil delim T)
      then obtain part m where search: "until_search w delim T (af_delim_offset a) (af_delim_match a) = Some (part, m)"
        using body by (auto simp: bind_eq_Some_conv)
      show ?thesis
      proof (cases "until_result (length w) (length delim) (af_delim_offset a) m part")
        case (Inl used)
        then show ?thesis using body 3 w RcUntil search by (intro found [of c cs delim T w part m used]) (auto split: if_splits)
      next
        case (Inr r)
        then show ?thesis
          using body 3 w RcUntil search by (intro more [of c cs delim T w part m "fst r" "snd r"]) (auto split: prod.splits)
      qed
    qed
  qed
qed

lemma finish_read_fields [simp]:
  "af_closed (finish_read err d a) = af_closed a" "af_write_info (finish_read err d a) = af_write_info a"
  "af_write_buffer (finish_read err d a) = af_write_buffer a" "af_write_offset (finish_read err d a) = af_write_offset a"
  "af_read_buffer (finish_read err d a) = af_read_buffer a" "af_read_offset (finish_read err d a) = af_read_offset a"
  "af_delim_offset (finish_read err d a) = af_delim_offset a" "af_delim_match (finish_read err d a) = af_delim_match a"
  "af_next_promise (finish_read err d a) = af_next_promise a" "af_read_commands (finish_read err d a) = tl (af_read_commands a)"
  "af_log (finish_read err d a) = af_log a @ [EvRead (hd (af_read_commands a)) err d]"
  by (simp_all add: finish_read_def)

lemma finish_write_fields [simp]:
  "af_closed (finish_write ok a) = af_closed a" "af_read_commands (finish_write ok a) = af_read_commands a"
  "af_write_buffer (finish_write ok a) = af_write_buffer a" "af_write_offset (finish_write ok a) = af_write_offset a"
  "af_read_buffer (finish_write ok a) = af_read_buffer a" "af_read_offset (finish_write ok a) = af_read_offset a"
  "af_delim_offset (finish_write ok a) = af_delim_offset a" "af_delim_match (finish_write ok a) = af_delim_match a"
  "af_next_promise (finish_write ok a) = af_next_promise a" "af_write_info (finish_write ok a) = tl (af_write_info a)"
  "af_log (finish_write ok a) = af_log a @ [EvWritten (hd (af_write_info a)) ok]"
  by (simp_all add: finish_write_def)

lemma read_turn_frame:
  assumes "read_turn cl a = Some (new, a')"
  shows "af_closed a' = af_closed a \<and> af_write_info a' = af_write_info a \<and> af_write_buffer a' = af_write_buffer a \<and>
    af_write_offset a' = af_write_offset a \<and> af_next_promise a' = af_next_promise a \<and>
    quiet new \<and> (af_read_commands a = [] \<longrightarrow> new = [] \<and> a' = a)"
  using assms by (cases rule: read_turn_cases) (simp_all add: in_fail_tasks)

lemma read_until_cases:
  assumes "read_until d a = Some r"
  obtains kind where "r = add_read kind a" "is_closed a \<or> (\<exists>T. kind = RcUntil d T \<and> build_kmp d (replicate (length d + 2) 0) = Some T)"
  using assms by (auto simp: read_until_def split: if_splits)

text \<open>A call on a descriptor that is not open only uses up a promise.\<close>

lemma closed_add_read:
  "is_closed a \<Longrightarrow> add_read kind a = ([], add_event (EvRefused (af_next_promise a)) (a\<lparr>af_next_promise := af_next_promise a + 1\<rparr>))"
  by (simp add: add_read_def Let_def)

lemma closed_call:
  assumes "afd_call env c a s = Some (new, a', s')" and "is_closed a"
  shows "new = [] \<and> (a' = a \<or> a' = add_event (EvRefused (af_next_promise a)) (a\<lparr>af_next_promise := af_next_promise a + 1\<rparr>))"
proof (cases c)
  case (ReadUntil d)
  then show ?thesis using assms(1) by (simp add: read_until_def assms(2) closed_add_read)
next
  case (Write d)
  then have "put_data env d True a s = Some (new, a', s')" using assms by simp
  then show ?thesis
  proof (cases rule: put_data_cases)
    case refused
    then show ?thesis by blast
  qed (use assms(2) in blast)+
next
  case (Close imm)
  then have "close_afd env imm a s = Some (new, a', s')" using assms by simp
  moreover have "af_closed a \<noteq> CsOpen" using assms(2) by (simp add: is_closed_def)
  ultimately show ?thesis by (cases rule: close_afd_cases) blast+
qed (use assms in \<open>simp_all add: closed_add_read\<close>)

section \<open>The control invariant\<close>

lemma fill_turn_frame [simp]:
  "af_closed (snd (fill_turn data cycle a)) = af_closed a" "quiet (fst (fill_turn data cycle a))"
  "af_read_commands (snd (fill_turn data cycle a)) = af_read_commands a"
  "af_write_info (snd (fill_turn data cycle a)) = af_write_info a"
  "af_write_buffer (snd (fill_turn data cycle a)) = af_write_buffer a"
  "af_write_offset (snd (fill_turn data cycle a)) = af_write_offset a"
  "af_next_promise (snd (fill_turn data cycle a)) = af_next_promise a"
  by (simp_all add: fill_turn_def in_fail_tasks)

lemma tail_turn_frame [simp]:
  "af_closed (snd (tail_turn cycle a)) = af_closed a" "quiet (fst (tail_turn cycle a))"
  "af_read_commands (snd (tail_turn cycle a)) = af_read_commands a"
  "af_write_info (snd (tail_turn cycle a)) = af_write_info a"
  "af_write_buffer (snd (tail_turn cycle a)) = af_write_buffer a"
  "af_write_offset (snd (tail_turn cycle a)) = af_write_offset a"
  "af_next_promise (snd (tail_turn cycle a)) = af_next_promise a" "af_log (snd (tail_turn cycle a)) = af_log a"
  by (simp_all add: tail_turn_def in_fail_tasks)

lemma add_read_frame [simp]:
  "af_closed (snd (add_read kind a)) = af_closed a" "quiet (fst (add_read kind a))"
  "af_write_info (snd (add_read kind a)) = af_write_info a"
  "af_write_buffer (snd (add_read kind a)) = af_write_buffer a"
  "af_write_offset (snd (add_read kind a)) = af_write_offset a"
  "af_next_promise (snd (add_read kind a)) = af_next_promise a + 1"
  by (simp_all add: add_read_def Let_def in_fail_tasks)

lemma ack_turn_frame [simp]:
  "af_closed (snd (ack_turn cl n w a)) = af_closed a" "quiet (fst (ack_turn cl n w a))"
  "af_read_commands (snd (ack_turn cl n w a)) = af_read_commands a"
  "af_write_buffer (snd (ack_turn cl n w a)) = af_write_buffer a"
  "af_write_offset (snd (ack_turn cl n w a)) = af_write_offset a"
  "af_read_buffer (snd (ack_turn cl n w a)) = af_read_buffer a"
  "af_read_offset (snd (ack_turn cl n w a)) = af_read_offset a"
  "af_delim_offset (snd (ack_turn cl n w a)) = af_delim_offset a"
  "af_delim_match (snd (ack_turn cl n w a)) = af_delim_match a"
  "af_next_promise (snd (ack_turn cl n w a)) = af_next_promise a"
  "af_write_info a = [] \<Longrightarrow> ack_turn cl n w a = ([TWriteNext w], a)"
  by (simp_all add: ack_turn_def Let_def in_fail_tasks split: list.splits)

lemma ssl_turns_frame:
  "ssl_read_turn env decoded want arr cycle a s = Some (new, a', s') \<Longrightarrow> a' = a \<and> quiet new"
  "ssl_flush_turn env decoded want r arr cycle a s = Some (new, a', s') \<Longrightarrow> a' = a \<and> quiet new"
  "ssl_take_turn decoded want r arr cycle = Some ts \<Longrightarrow> quiet ts"
  by (auto simp: ssl_read_turn_def ssl_flush_turn_def ssl_take_turn_def Let_def in_fail_tasks
      split: option.splits prod.splits if_splits)

lemma write_next_cases:
  assumes "write_next env w a s = Some (new, a', s')"
  obtains (stop) "\<not> (af_write_offset a < length (af_write_buffer a) \<and> w)" "new = [TWriteEnd]" "a' = a" "s' = s"
  | (failed) ok where "af_write_offset a < length (af_write_buffer a)" "perform_write env a s = Some (ok, a', s')" "ok < 0" "new = [TWriteEnd]"
  | (sent) ok where "af_write_offset a < length (af_write_buffer a)" "perform_write env a s = Some (ok, a', s')" "0 \<le> ok" "new = [TWriteTurn (nat ok)]"
proof (cases "af_write_offset a < length (af_write_buffer a) \<and> w")
  case True
  then obtain r where r: "perform_write env a s = Some r"
      "Some (if fst r < 0 then [TWriteEnd] else [TWriteTurn (nat (fst r))], snd r) = Some (new, a', s')"
    using assms by (auto simp: write_next_def bind_eq_Some_conv)
  obtain ok where ok: "r = (ok, a', s')" using r(2) by (cases r) simp
  show ?thesis
  proof (cases "ok < 0")
    case neg: True
    show ?thesis by (rule failed [of ok]) (use True r ok neg in simp_all)
  next
    case False
    show ?thesis by (rule sent [of ok]) (use True r ok False in simp_all)
  qed
next
  case False
  show ?thesis by (rule stop [OF False]) (use assms in \<open>simp_all add: write_next_def if_not_P [OF False]\<close>)
qed

lemma put_data_frame:
  assumes "put_data env data layers a s = Some (new, a', s')"
  shows "quiet new" "af_closed a \<noteq> CsClosed \<Longrightarrow> af_closed a' \<noteq> CsClosed" "af_read_commands a' = af_read_commands a"
    "af_next_promise a' = af_next_promise a + 1"
proof -
  have "quiet new \<and> (af_closed a \<noteq> CsClosed \<longrightarrow> af_closed a' \<noteq> CsClosed) \<and> af_read_commands a' = af_read_commands a \<and>
      af_next_promise a' = af_next_promise a + 1"
    using assms
  proof (cases rule: put_data_cases)
    case (tried bytes s1 a2 ok)
    then show ?thesis using perform_write_frame [OF tried(4)] by (simp add: in_fail_tasks)
  qed (simp_all add: in_fail_tasks)
  then show "quiet new" "af_closed a \<noteq> CsClosed \<Longrightarrow> af_closed a' \<noteq> CsClosed" "af_read_commands a' = af_read_commands a"
    "af_next_promise a' = af_next_promise a + 1" by blast+
qed

definition fails_or_goes_on :: "task list \<Rightarrow> afd \<Rightarrow> bool" where
  "fails_or_goes_on new a' \<longleftrightarrow> (if af_closed a' = CsClosed then new = fail_tasks else quiet new)"

lemma close_afd_open:
  assumes "close_afd env imm a s = Some (new, a', s')" and "af_closed a \<noteq> CsClosed"
  shows "fails_or_goes_on new a'"
  using assms by (cases rule: close_afd_cases) (simp_all add: fails_or_goes_on_def in_fail_tasks)

lemma call_open:
  assumes "afd_call env c a s = Some (new, a', s')" and "af_closed a \<noteq> CsClosed"
  shows "fails_or_goes_on new a'"
proof (cases c)
  case (ReadUntil d)
  then obtain r where r: "read_until d a = Some r" "new = fst r" "a' = snd r" using assms(1) by auto
  from r(1) obtain kind where "r = add_read kind a" by (rule read_until_cases)
  then show ?thesis using r assms(2) by (simp add: fails_or_goes_on_def)
next
  case (Write d)
  then show ?thesis using put_data_frame [of env d True a s new a' s'] assms by (simp add: fails_or_goes_on_def)
next
  case (Close imm)
  then show ?thesis using close_afd_open [of env imm a s] assms by simp
qed (use assms in \<open>auto simp: fails_or_goes_on_def\<close>)

lemma step_open:
  assumes "afd_step env cl t (a, s) = Some (new, a', s')" and "af_closed a \<noteq> CsClosed" and "t \<notin> set fail_tasks"
  shows "fails_or_goes_on new a'"
proof (cases t)
  case (TData data cycle)
  then show ?thesis using assms by (auto simp: fails_or_goes_on_def in_fail_tasks split: if_splits option.splits)
next
  case (TTurn data cycle)
  then show ?thesis using assms by (auto simp: fails_or_goes_on_def in_fail_tasks split: if_splits option.splits)
next
  case TLoop
  then obtain "read_turn cl a = Some (new, a')" using assms(1) by auto
  then show ?thesis using read_turn_frame assms(2) by (auto simp: fails_or_goes_on_def)
next
  case (TSslRead decoded want arr cycle)
  then show ?thesis using assms by (auto simp: fails_or_goes_on_def dest!: ssl_turns_frame(1))
next
  case (TSslFlush decoded want r arr cycle)
  then show ?thesis using assms by (auto simp: fails_or_goes_on_def dest!: ssl_turns_frame(2))
next
  case (TSslTake decoded want r arr cycle)
  then show ?thesis using assms by (auto simp: fails_or_goes_on_def dest!: ssl_turns_frame(3))
next
  case (TWriteNext w)
  then have "write_next env w a s = Some (new, a', s')" using assms by simp
  then show ?thesis
    by (cases rule: write_next_cases) (use assms(2) perform_write_frame in \<open>fastforce simp: fails_or_goes_on_def in_fail_tasks\<close>)+
next
  case (TCall c)
  then show ?thesis using assms call_open by simp
next
  case (TPut data layers)
  then show ?thesis using put_data_frame [of env data layers a s new a' s'] assms by (simp add: fails_or_goes_on_def)
next
  case TDestroy
  then have "destroy_afd env a s = Some (new, a', s')" using assms by simp
  then obtain bio st s1 where "close_afd env False (a\<lparr>af_ssl_bio := bio, af_ssl_status := st\<rparr>) s1 = Some (new, a', s')"
    by (rule destroy_afd_cases)
  then show ?thesis using close_afd_open assms(2) by fastforce
qed (use assms in \<open>auto simp: fails_or_goes_on_def in_fail_tasks split: if_splits\<close>)

lemma settled_put:
  assumes "put_data env data layers a s = Some (new, a', s')" and "is_closed a"
  shows "new = []" "af_closed a' = af_closed a" "settled a' = settled a" "af_read_commands a' = af_read_commands a"
    "af_write_info a' = af_write_info a"
proof -
  from assms have "new = [] \<and> a' = add_event (EvRefused (af_next_promise a)) (a\<lparr>af_next_promise := af_next_promise a + 1\<rparr>)"
    by (cases rule: put_data_cases) blast+
  then show "new = []" "af_closed a' = af_closed a" "settled a' = settled a" "af_read_commands a' = af_read_commands a"
    "af_write_info a' = af_write_info a" by (simp_all add: settled_def)
qed

lemma closed_call_settled:
  assumes "afd_call env c a s = Some (new, a', s')" and "is_closed a"
  shows "new = [] \<and> af_closed a' = af_closed a \<and> settled a' = settled a \<and> af_read_commands a' = af_read_commands a \<and>
    af_write_info a' = af_write_info a"
  using closed_call [OF assms] by (auto simp: settled_def)

lemma step_settled:
  assumes "afd_step env cl t (a, s) = Some (new, a', s')" and "af_closed a = CsClosed" and "settled a"
  shows "af_closed a' = CsClosed \<and> settled a'"
proof (cases t)
  case TLoop
  then have "read_turn cl a = Some (new, a')" using assms(1) by auto
  then show ?thesis using read_turn_frame [of cl a new a'] assms(2,3) by (simp add: settled_def)
next
  case (TSslRead decoded want arr cycle)
  then show ?thesis using assms by (auto dest!: ssl_turns_frame(1))
next
  case (TSslFlush decoded want r arr cycle)
  then show ?thesis using assms by (auto dest!: ssl_turns_frame(2))
next
  case (TSslTake decoded want r arr cycle)
  then show ?thesis using assms by auto
next
  case (TWriteNext w)
  then have "write_next env w a s = Some (new, a', s')" using assms by simp
  then show ?thesis
    by (cases rule: write_next_cases) (use assms(2,3) in \<open>simp_all add: settled_def\<close>)
next
  case (TCall c)
  then show ?thesis using closed_call_settled [of env c a s new a' s'] assms by (simp add: is_closed_def)
next
  case (TPut data layers)
  then show ?thesis using settled_put [of env data layers a s new a' s'] assms by (simp add: is_closed_def)
next
  case TDestroy
  then have "destroy_afd env a s = Some (new, a', s')" using assms by simp
  then obtain bio st s1 where "close_afd env False (a\<lparr>af_ssl_bio := bio, af_ssl_status := st\<rparr>) s1 = Some (new, a', s')"
    by (rule destroy_afd_cases)
  then have "a' = a\<lparr>af_ssl_bio := bio, af_ssl_status := st\<rparr>" using assms(2) by (simp add: close_afd_def)
  then show ?thesis using assms(2,3) by (simp add: settled_def)
qed (use assms in \<open>auto simp: settled_def split: if_splits option.splits\<close>)

text \<open>The task on top of a failing descriptor, and what is left of \<open>handle_failure\<close> after it.\<close>

lemma failing_cases:
  assumes "failing (t # ts) a"
  obtains (call) c where "t = TCall c" "failing ts a"
  | (reads) rest where "t = TFailReads" "ts = TFailWrites # TFailClear # rest"
  | (writes) rest where "t = TFailWrites" "ts = TFailClear # rest" "af_read_commands a = []"
  | (clear) rest where "t = TFailClear" "ts = rest" "af_read_commands a = []" "af_write_info a = []"
proof -
  obtain k cs rest where k: "k \<le> 2" "t # ts = map TCall cs @ drop k fail_tasks @ rest"
    "1 \<le> k \<longrightarrow> af_read_commands a = []" "2 \<le> k \<longrightarrow> af_write_info a = []"
    using assms by (auto simp: failing_def)
  show ?thesis
  proof (cases cs)
    case (Cons c cs')
    then have "ts = map TCall cs' @ drop k fail_tasks @ rest" using k(2) by simp
    then have "failing ts a" using k(1,3,4) unfolding failing_def by blast
    then show ?thesis using Cons k(2) by (intro call) simp_all
  next
    case Nil
    consider "k = 0" | "k = 1" | "k = 2" using k(1) by linarith
    then show ?thesis
    proof cases
      case 1
      then show ?thesis using Nil k(2) by (intro reads) (simp_all add: fail_tasks_def)
    next
      case 2
      then show ?thesis using Nil k by (intro writes) (simp_all add: fail_tasks_def)
    next
      case 3
      then show ?thesis using Nil k by (intro clear) (simp_all add: fail_tasks_def)
    qed
  qed
qed

lemma failingI:
  "failing (map TCall cs @ TFailReads # TFailWrites # TFailClear # rest) a"
  "af_read_commands a = [] \<Longrightarrow> failing (map TCall cs @ TFailWrites # TFailClear # rest) a"
  "af_read_commands a = [] \<Longrightarrow> af_write_info a = [] \<Longrightarrow> failing (map TCall cs @ TFailClear # rest) a"
proof -
  show "failing (map TCall cs @ TFailReads # TFailWrites # TFailClear # rest) a"
    unfolding failing_def by (rule exI [of _ 0], rule exI [of _ cs], rule exI [of _ rest]) (simp add: fail_tasks_def)
  show "failing (map TCall cs @ TFailWrites # TFailClear # rest) a" if "af_read_commands a = []"
    using that unfolding failing_def by (intro exI [of _ 1], intro exI [of _ cs], intro exI [of _ rest]) (simp add: fail_tasks_def)
  show "failing (map TCall cs @ TFailClear # rest) a" if "af_read_commands a = []" "af_write_info a = []"
    using that unfolding failing_def by (intro exI [of _ 2], intro exI [of _ cs], intro exI [of _ rest]) (simp add: fail_tasks_def)
qed

lemma resume_calls: "\<exists>cs. resume cl a = map TCall cs \<and> set cs \<subseteq> set (cl_resume cl (af_log a))"
  by (auto simp: resume_def intro: exI [of _ "[]"])

lemma failing_same:
  "failing ts a \<Longrightarrow> af_read_commands a' = af_read_commands a \<Longrightarrow> af_write_info a' = af_write_info a \<Longrightarrow> failing ts a'"
  by (simp add: failing_def)

lemma step_failing:
  assumes "afd_step env cl t (a, s) = Some (new, a', s')" and "af_closed a = CsClosed" and "failing (t # ts) a"
  shows "af_closed a' = CsClosed \<and> (settled a' \<or> failing (new @ ts) a')"
  using assms(3)
proof (cases rule: failing_cases)
  case (call c)
  then show ?thesis
    using closed_call_settled [of env c a s new a' s'] failing_same [of ts a a'] assms(1,2) by (simp add: is_closed_def)
next
  case (reads rest)
  show ?thesis
  proof (cases "af_read_commands a = []")
    case True
    then have "new = []" "a' = a" using reads assms(1) by auto
    then show ?thesis using failingI(2) [OF True, of "[]"] reads assms(2) by simp
  next
    case False
    then have new: "new = resume cl a' @ [TFailReads]" "a' = finish_read True [] a" using reads assms(1) by auto
    obtain cs where "resume cl a' = map TCall cs" using resume_calls by blast
    then show ?thesis using failingI(1) [of cs rest a'] new reads assms(2) by simp
  qed
next
  case (writes rest)
  show ?thesis
  proof (cases "af_write_info a = []")
    case True
    then have "new = []" "a' = a" using writes assms(1) by auto
    then show ?thesis using failingI(3) [OF writes(3) True, of "[]"] writes assms(2) by simp
  next
    case False
    then have new: "new = resume cl a' @ [TFailWrites]" "a' = finish_write False a" using writes assms(1) by auto
    obtain cs where "resume cl a' = map TCall cs" using resume_calls by blast
    then show ?thesis using failingI(2) [of a' cs rest] new writes assms(2) by simp
  qed
next
  case (clear rest)
  then show ?thesis using assms(1,2) by (auto simp: settled_def)
qed

lemma step_ctl:
  assumes "ctl (t # ts) a" and "afd_step env cl t (a, s) = Some (new, a', s')"
  shows "ctl (new @ ts) a'"
proof (cases "af_closed a = CsClosed")
  case True
  then have "settled a \<or> failing (t # ts) a" using assms(1) by (simp add: ctl_def)
  then have "af_closed a' = CsClosed \<and> (settled a' \<or> failing (new @ ts) a')"
    using step_settled [OF assms(2) True] step_failing [OF assms(2) True] by blast
  then show ?thesis by (simp add: ctl_def)
next
  case False
  then have q: "quiet (t # ts)" using assms(1) by (simp add: ctl_def)
  then have f: "fails_or_goes_on new a'" using step_open [OF assms(2) False] by simp
  show ?thesis
  proof (cases "af_closed a' = CsClosed")
    case True
    then have "new = fail_tasks" using f by (simp add: fails_or_goes_on_def)
    then have "failing (new @ ts) a'" using failingI(1) [of "[]" ts a'] by (simp add: fail_tasks_def)
    then show ?thesis using True by (simp add: ctl_def)
  next
    case False
    then show ?thesis using f q by (simp add: ctl_def fails_or_goes_on_def)
  qed
qed

section \<open>The log\<close>

lemma perform_write_log:
  assumes "perform_write env a s = Some (ok, a', s')"
  shows "prefix (af_log a) (af_log a')"
  using perform_write_frame [OF assms] by simp

lemma put_data_log:
  assumes "put_data env data layers a s = Some (new, a', s')"
  shows "prefix (af_log a) (af_log a')"
  using assms
proof (cases rule: put_data_cases)
  case (tried bytes s1 a2 ok)
  have "prefix (af_log a) (af_log a2)" using tried(2) by simp
  then show ?thesis using perform_write_log [OF tried(4)] by (rule prefix_order.trans)
qed simp_all

lemma close_afd_log: "close_afd env imm a s = Some (new, a', s') \<Longrightarrow> af_log a' = af_log a"
  by (erule close_afd_cases) simp_all

lemma add_read_log: "prefix (af_log a) (af_log (snd (add_read kind a)))"
  by (simp add: add_read_def Let_def)

lemma call_log:
  assumes "afd_call env c a s = Some (new, a', s')"
  shows "prefix (af_log a) (af_log a')"
proof (cases c)
  case (ReadUntil d)
  then obtain r where r: "read_until d a = Some r" "a' = snd r" using assms by auto
  from r(1) obtain kind where "r = add_read kind a" by (rule read_until_cases)
  then show ?thesis using r(2) add_read_log by simp
next
  case (Write d)
  then show ?thesis using assms put_data_log by simp
next
  case (Close imm)
  then show ?thesis using assms close_afd_log by fastforce
qed (use assms add_read_log in auto)

lemma step_log:
  assumes "afd_step env cl t (a, s) = Some (new, a', s')"
  shows "prefix (af_log a) (af_log a')"
proof (cases t)
  case TLoop
  then have "read_turn cl a = Some (new, a')" using assms by auto
  then show ?thesis by (cases rule: read_turn_cases) simp_all
next
  case (TFill data cycle)
  then show ?thesis using assms by (auto simp: fill_turn_def)
next
  case (TSslRead decoded want arr cycle)
  then show ?thesis using assms by (auto dest!: ssl_turns_frame(1))
next
  case (TSslFlush decoded want r arr cycle)
  then show ?thesis using assms by (auto dest!: ssl_turns_frame(2))
next
  case (TAck n w)
  then show ?thesis using assms by (auto simp: ack_turn_def Let_def split: list.splits if_splits)
next
  case (TWriteNext w)
  then have "write_next env w a s = Some (new, a', s')" using assms by simp
  then show ?thesis
    by (cases rule: write_next_cases) (simp_all add: perform_write_log)
next
  case (TCall c)
  then show ?thesis using call_log assms by simp
next
  case (TPut data layers)
  then show ?thesis using put_data_log assms by simp
next
  case TDestroy
  then have "destroy_afd env a s = Some (new, a', s')" using assms by simp
  then obtain bio st s1 where "close_afd env False (a\<lparr>af_ssl_bio := bio, af_ssl_status := st\<rparr>) s1 = Some (new, a', s')"
    by (rule destroy_afd_cases)
  then have "af_log a' = af_log (a\<lparr>af_ssl_bio := bio, af_ssl_status := st\<rparr>)" by (rule close_afd_log)
  then show ?thesis by simp
qed (use assms in \<open>auto split: if_splits option.splits\<close>)

section \<open>Everything that can happen to a descriptor\<close>

text \<open>
  What enters a descriptor from outside: data, a free send buffer, the end of the connection, calls of
  coroutines that run for other reasons, and the destructor.  The context takes the descriptor out of
  its table before it reports the end.
\<close>

datatype entry = EntryData "byte list" | EntryWritable | EntryClosed | EntryCall call | EntryDestroy

definition entry_task :: "entry \<Rightarrow> task" where
  "entry_task e =
     (case e of
        EntryData d \<Rightarrow> TData d False
      | EntryWritable \<Rightarrow> TOnWrite 0
      | EntryClosed \<Rightarrow> TOnClose
      | EntryCall c \<Rightarrow> TCall c
      | EntryDestroy \<Rightarrow> TDestroy)"

definition entry_state :: "entry \<Rightarrow> afd \<Rightarrow> afd" where
  "entry_state e a = (if e = EntryClosed then a\<lparr>af_registered := False\<rparr> else a)"

text \<open>The rest of the system may change between two entries.\<close>

inductive afd_reach :: "env \<Rightarrow> client \<Rightarrow> (entry \<Rightarrow> bool) \<Rightarrow> afd \<Rightarrow> bool" for env cl ok where
  start: "afd_reach env cl ok (fresh_afd elfd f ty)"
| entry: "afd_reach env cl ok a \<Longrightarrow> ok e \<Longrightarrow> afd_run env cl [entry_task e] (entry_state e a) s = Some (a', s') \<Longrightarrow>
    afd_reach env cl ok a'"

lemma afd_reach_invariant:
  assumes "afd_reach env cl ok a" and "\<And>elfd f ty. I [] (fresh_afd elfd f ty)"
    and "\<And>a e. I [] a \<Longrightarrow> ok e \<Longrightarrow> I [entry_task e] (entry_state e a)"
    and "\<And>t rest a s new a' s'. I (t # rest) a \<Longrightarrow> afd_step env cl t (a, s) = Some (new, a', s') \<Longrightarrow> I (new @ rest) a'"
  shows "I [] a"
  using assms(1)
proof (induction rule: afd_reach.induct)
  case (start elfd f ty)
  then show ?case by (rule assms(2))
next
  case (entry a e s a' s')
  show ?case
    by (rule afd_run_invariant [OF entry.hyps(3), of "\<lambda>ts a s. I ts a"])
      (use assms(3) [OF entry.IH entry.hyps(2)] assms(4) in blast)+
qed

lemma ctl_entry:
  assumes "ctl [] a"
  shows "ctl [entry_task e] (entry_state e a)"
proof -
  have "\<not> failing [] a" by (auto simp: failing_def fail_tasks_def numeral_2_eq_2 le_Suc_eq)
  then have "af_closed a = CsClosed \<longrightarrow> settled a" using assms by (simp add: ctl_def)
  moreover have "entry_task e \<notin> set fail_tasks" by (cases e) (simp_all add: entry_task_def in_fail_tasks)
  ultimately show ?thesis by (simp add: ctl_def entry_state_def settled_def)
qed

lemma ctl_fresh [simp]: "ctl [] (fresh_afd elfd f ty)"
  by (simp add: ctl_def fresh_afd_def)

end
