(* ===== verification/Afd_Reads.thy ===== *)
theory Afd_Reads
  imports Afd_Control
begin

text \<open>
  Reading from a descriptor: what the commands hand out, with the delimiters they drop, and what still
  lies in the window is exactly the data that arrived, in its order, whatever the client does.
\<close>

section \<open>What arrived and what was handed out\<close>

definition arrived_of :: "event \<Rightarrow> byte list" where
  "arrived_of e = (case e of EvArrived d \<Rightarrow> d | _ \<Rightarrow> [])"

definition delimiter_of :: "read_kind \<Rightarrow> byte list" where
  "delimiter_of k = (case k of RcUntil d T \<Rightarrow> d | _ \<Rightarrow> [])"

definition handed_of :: "event \<Rightarrow> byte list" where
  "handed_of e = (case e of EvRead c False d \<Rightarrow> d @ delimiter_of (rc_kind c) | _ \<Rightarrow> [])"

definition arrived :: "event list \<Rightarrow> byte list" where
  "arrived l = concat (map arrived_of l)"

definition handed_out :: "event list \<Rightarrow> byte list" where
  "handed_out l = concat (map handed_of l)"

lemma arrived_simps [simp]: "arrived [] = []" "arrived (l @ l') = arrived l @ arrived l'" "arrived [e] = arrived_of e"
  by (simp_all add: arrived_def)

lemma handed_simps [simp]: "handed_out [] = []" "handed_out (l @ l') = handed_out l @ handed_out l'" "handed_out [e] = handed_of e"
  by (simp_all add: handed_out_def)

lemma event_parts [simp]:
  "arrived_of (EvArrived d) = d" "arrived_of (EvRead c err d) = []" "arrived_of (EvQueued p d) = []"
  "arrived_of (EvSent d) = []" "arrived_of (EvWritten b ok) = []" "arrived_of (EvRefused p) = []"
  "handed_of (EvArrived d) = []" "handed_of (EvRead c err d) = (if err then [] else d @ delimiter_of (rc_kind c))"
  "handed_of (EvQueued p d) = []" "handed_of (EvSent d) = []" "handed_of (EvWritten b ok) = []" "handed_of (EvRefused p) = []"
  by (simp_all add: arrived_of_def handed_of_def)

section \<open>Clients that keep the interface\<close>

text \<open>A table handed in with a delimiter is the one \<open>build_kmp\<close> makes; delimiters are shorter than 2 GiB.\<close>

definition kind_ok :: "read_kind \<Rightarrow> bool" where
  "kind_ok k = (case k of RcUntil d T \<Rightarrow> length d < 2 ^ 31 \<and> (d = [] \<or> table_ok d T (length d) \<and> length d \<le> length T) | _ \<Rightarrow> True)"

definition call_ok :: "call \<Rightarrow> bool" where
  "call_ok c = (case c of ReadUntil d \<Rightarrow> length d < 2 ^ 31 | ReadUntilWith d T \<Rightarrow> kind_ok (RcUntil d T) | _ \<Rightarrow> True)"

definition client_ok :: "client \<Rightarrow> bool" where
  "client_ok cl \<longleftrightarrow> (\<forall>l. \<forall>c\<in>set (cl_resume cl l). call_ok c) \<and> (\<forall>l cs. cl_on_empty cl l = Some cs \<longrightarrow> (\<forall>c\<in>set cs. call_ok c))"

definition tasks_ok :: "task list \<Rightarrow> bool" where
  "tasks_ok ts \<longleftrightarrow> (\<forall>c. TCall c \<in> set ts \<longrightarrow> call_ok c)"

lemma tasks_ok_simps [simp]:
  "tasks_ok []" "tasks_ok (t # ts) \<longleftrightarrow> (\<forall>c. t = TCall c \<longrightarrow> call_ok c) \<and> tasks_ok ts"
  "tasks_ok (ts @ us) \<longleftrightarrow> tasks_ok ts \<and> tasks_ok us" "tasks_ok (map TCall cs) \<longleftrightarrow> (\<forall>c\<in>set cs. call_ok c)"
  by (auto simp: tasks_ok_def)

lemma resume_ok: "client_ok cl \<Longrightarrow> tasks_ok (resume cl a)"
  by (auto simp: resume_def client_ok_def)

lemma tasks_ok_fail [simp]: "tasks_ok fail_tasks"
  by (simp add: fail_tasks_def)

section \<open>The invariant\<close>

definition window :: "afd \<Rightarrow> byte list" where
  "window a = drop (af_read_offset a) (af_read_buffer a)"

text \<open>The state of a search belongs to the command at the head of the queue.\<close>

definition delim_state_ok :: "afd \<Rightarrow> bool" where
  "delim_state_ok a =
     (case af_read_commands a of
        [] \<Rightarrow> af_delim_offset a = 0 \<and> af_delim_match a = 0
      | c # _ \<Rightarrow>
          (case rc_kind c of
             RcUntil d T \<Rightarrow> \<exists>off m. af_delim_offset a = int off \<and> af_delim_match a = int m \<and> delim_inv (window a) d off m
           | _ \<Rightarrow> af_delim_offset a = 0 \<and> af_delim_match a = 0))"

definition reads_ok :: "afd \<Rightarrow> bool" where
  "reads_ok a \<longleftrightarrow> af_read_offset a \<le> length (af_read_buffer a) \<and> (\<forall>c\<in>set (af_read_commands a). kind_ok (rc_kind c)) \<and>
     delim_state_ok a \<and> arrived (af_log a) = handed_out (af_log a) @ window a"

lemma delim_fresh: "af_delim_offset a = 0 \<Longrightarrow> af_delim_match a = 0 \<Longrightarrow> delim_state_ok a"
  by (auto simp: delim_state_ok_def split: list.splits read_kind.splits intro: exI [of _ 0])

lemma delim_state_same:
  assumes "window a' = window a" "af_read_commands a' = af_read_commands a" "af_delim_offset a' = af_delim_offset a"
    "af_delim_match a' = af_delim_match a"
  shows "delim_state_ok a' = delim_state_ok a"
  unfolding delim_state_ok_def assms ..

text \<open>What neither the buffer, the commands, the search nor the relevant part of the log changes.\<close>

lemma reads_ok_same:
  assumes "reads_ok a" and "af_read_offset a' = af_read_offset a" "af_read_buffer a' = af_read_buffer a"
    "af_read_commands a' = af_read_commands a" "af_delim_offset a' = af_delim_offset a" "af_delim_match a' = af_delim_match a"
    "arrived (af_log a') = arrived (af_log a)" "handed_out (af_log a') = handed_out (af_log a)"
  shows "reads_ok a'"
proof -
  have w: "window a' = window a" using assms(2,3) by (simp add: window_def)
  have "delim_state_ok a' = delim_state_ok a" by (rule delim_state_same [OF w assms(4-6)])
  then show ?thesis using assms(1) unfolding reads_ok_def w assms(2-4,7,8) by simp
qed

lemma window_after: "n \<le> length w \<Longrightarrow> w = drop off buf \<Longrightarrow> off \<le> length buf \<Longrightarrow>
    off + n \<le> length buf \<and> drop (off + n) buf = drop n w"
  by (auto simp: add.commute)

lemma delim_idle:
  assumes "delim_state_ok a" and "af_read_commands a = c # cs" and "\<And>d T. rc_kind c \<noteq> RcUntil d T"
  shows "af_delim_offset a = 0 \<and> af_delim_match a = 0"
  using assms by (auto simp: delim_state_ok_def split: read_kind.splits)

lemma reads_ok_handed:
  assumes "reads_ok a" and "af_read_commands a = c # cs" and "w = window a"
    and "n \<le> length w" and "take n w = d @ delimiter_of (rc_kind c)"
    and "af_delim_offset a' = 0" "af_delim_match a' = 0" "af_read_offset a' = af_read_offset a + n"
      "af_read_buffer a' = af_read_buffer a" "af_read_commands a' = cs" "af_log a' = af_log a @ [EvRead c False d]"
  shows "reads_ok a'"
proof -
  have off: "af_read_offset a \<le> length (af_read_buffer a)" using assms(1) by (simp add: reads_ok_def)
  note after = window_after [OF assms(4) assms(3) [unfolded window_def] off]
  have "delim_state_ok a'" using assms(6,7) by (rule delim_fresh)
  moreover have "arrived (af_log a') = handed_out (af_log a') @ window a'"
  proof -
    have "window a' = drop n w" using assms(8,9) after by (simp add: window_def)
    then have "take n w @ window a' = w" by simp
    moreover have "arrived (af_log a) = handed_out (af_log a) @ w" using assms(1,3) by (simp add: reads_ok_def)
    ultimately show ?thesis using assms(5,11) by simp
  qed
  ultimately show ?thesis using assms(1,2,8,9,10) after by (simp add: reads_ok_def)
qed

lemma reads_ok_turn:
  assumes "reads_ok a" and "read_turn cl a = Some (new, a')" and "length (window a) < 2 ^ 31"
  shows "reads_ok a'"
  using assms(2)
proof (cases rule: read_turn_cases)
  case idle
  then show ?thesis using assms(1) by simp
next
  case (any c cs w)
  have d: "af_delim_offset a = 0" "af_delim_match a = 0"
    using delim_idle [of a c cs] assms(1) any(1,2) by (simp_all add: reads_ok_def)
  show ?thesis
    by (rule reads_ok_handed [OF assms(1) any(1), of w "length w" w])
      (use any d in \<open>simp_all add: window_def delimiter_of_def\<close>)
next
  case (enough c cs w n)
  have d: "af_delim_offset a = 0" "af_delim_match a = 0"
    using delim_idle [of a c cs] assms(1) enough(1,2) by (simp_all add: reads_ok_def)
  show ?thesis
    by (rule reads_ok_handed [OF assms(1) enough(1), of w n "take n w"])
      (use enough d in \<open>simp_all add: window_def delimiter_of_def\<close>)
next
  case (found c cs w delim T part m used)
  have w: "w = window a" using found(4) by (simp add: window_def)
  have k: "kind_ok (RcUntil delim T)" using assms(1) found(1,2) by (simp add: reads_ok_def)
  obtain off k where inv: "af_delim_offset a = int off" "af_delim_match a = int k" "delim_inv w delim off k"
    using assms(1) found(1,2) w by (auto simp: reads_ok_def delim_state_ok_def)
  have good: "until_good w delim (Inl used)"
    using until_turn [OF inv(3) found(5), of T] assms(3) k found(6,7) w inv by (auto simp: kind_ok_def)
  then have u: "length delim \<le> used" "take used w = take (used - length delim) w @ delim" by (simp_all add: until_good_def)
  have "u64 (int used - int (length delim)) = used - length delim"
  proof -
    have "int used - int (length delim) = int (used - length delim)" using u(1) by simp
    moreover have "used - length delim < 2 ^ 64" using found(8) assms(3) w by simp
    ultimately show ?thesis by (simp only: u64_nat)
  qed
  then show ?thesis
    by (intro reads_ok_handed [OF assms(1) found(1) w, of used "take (used - length delim) w"])
      (use found u in \<open>simp_all add: delimiter_of_def\<close>)
next
  case (more c cs w delim T part m off' m')
  have w: "w = window a" using more(4) by (simp add: window_def)
  have k: "kind_ok (RcUntil delim T)" using assms(1) more(1,2) by (simp add: reads_ok_def)
  obtain off k where inv: "af_delim_offset a = int off" "af_delim_match a = int k" "delim_inv w delim off k"
    using assms(1) more(1,2) w by (auto simp: reads_ok_def delim_state_ok_def)
  have good: "until_good w delim (Inr (off', m'))"
    using until_turn [OF inv(3) more(5), of T] assms(3) k more(6,7) w inv by (auto simp: kind_ok_def)
  then obtain j where "off' = int (length w)" "m' = int j" "delim_inv w delim (length w) j" by (auto simp: until_good_def)
  moreover have "window a' = w" using w more(8) by (simp add: window_def)
  ultimately have "delim_state_ok a'" using more(1,2,8) by (auto simp: delim_state_ok_def)
  then show ?thesis using assms(1) more(8) by (simp add: reads_ok_def window_def)
qed

section \<open>Every step keeps it\<close>

lemma reads_ok_add:
  assumes "reads_ok a" and "kind_ok kind \<or> is_closed a"
  shows "reads_ok (snd (add_read kind a))"
proof (cases rule: add_read_cases [of a kind])
  case refused
  show ?thesis unfolding refused(2) by (rule reads_ok_same [OF assms(1)]) simp_all
next
  case (queued ts)
  let ?c = "\<lparr>rc_promise = af_next_promise a, rc_kind = kind\<rparr>"
  let ?a' = "a\<lparr>af_next_promise := af_next_promise a + 1, af_read_commands := af_read_commands a @ [?c]\<rparr>"
  have "delim_state_ok ?a'"
  proof (cases "af_read_commands a")
    case Nil
    then show ?thesis using assms(1) by (intro delim_fresh) (simp_all add: reads_ok_def delim_state_ok_def)
  next
    case (Cons c cs)
    have "delim_state_ok ?a' = delim_state_ok a" by (simp add: delim_state_ok_def Cons window_def split: read_kind.split)
    then show ?thesis using assms(1) by (simp add: reads_ok_def)
  qed
  then have "reads_ok ?a'" using assms queued(1) by (auto simp: reads_ok_def window_def)
  then show ?thesis unfolding queued(3) by simp
qed

lemma built_table_ok:
  assumes "build_kmp d (replicate (length d + 2) 0) = Some T" and "length d < 2 ^ 31"
  shows "kind_ok (RcUntil d T)"
proof (cases "d = []")
  case False
  have "length d < 2 ^ 63" using assms(2) by simp
  then show ?thesis
    using build_kmp_result [OF False, of "replicate (length d + 2) 0"] assms by (auto simp: kind_ok_def)
qed (simp add: kind_ok_def)

lemma reads_ok_put:
  assumes "reads_ok a" and "put_data env data layers a s = Some (new, a', s')"
  shows "reads_ok a'"
  using assms(2)
proof (cases rule: put_data_cases)
  case refused
  show ?thesis unfolding refused(3) by (rule reads_ok_same [OF assms(1)]) simp_all
next
  case (queued bytes a2)
  show ?thesis unfolding queued(5,2) by (rule reads_ok_same [OF assms(1)]) simp_all
next
  case (tried bytes s1 a2 ok)
  have "reads_ok a2" unfolding tried(2) by (rule reads_ok_same [OF assms(1)]) simp_all
  then show ?thesis using perform_write_frame [OF tried(4)] by (auto intro: reads_ok_same)
qed

lemma reads_ok_close:
  assumes "reads_ok a" and "close_afd env imm a s = Some (new, a', s')"
  shows "reads_ok a'"
  using assms(2)
proof (cases rule: close_afd_cases)
  case nothing
  then show ?thesis using assms(1) by blast
next
  case kept
  show ?thesis unfolding kept(3) by (rule reads_ok_same [OF assms(1)]) simp_all
next
  case called
  show ?thesis unfolding called(3) by (rule reads_ok_same [OF assms(1)]) simp_all
next
  case direct
  show ?thesis unfolding direct(3) by (rule reads_ok_same [OF assms(1)]) simp_all
qed

lemma reads_ok_call:
  assumes "reads_ok a" and "afd_call env c a s = Some (new, a', s')" and "call_ok c"
  shows "reads_ok a'"
proof (cases c)
  case ReadAny
  then have "a' = snd (add_read RcAny a)" using assms(2) by simp
  then show ?thesis using reads_ok_add [OF assms(1), of RcAny] by (simp add: kind_ok_def)
next
  case (ReadN n)
  then have "a' = snd (add_read (RcN n) a)" using assms(2) by simp
  then show ?thesis using reads_ok_add [OF assms(1), of "RcN n"] by (simp add: kind_ok_def)
next
  case (ReadUntil d)
  then obtain r where r: "read_until d a = Some r" "a' = snd r" using assms(2) by auto
  from r(1) obtain kind where "r = add_read kind a"
      "is_closed a \<or> (\<exists>T. kind = RcUntil d T \<and> build_kmp d (replicate (length d + 2) 0) = Some T)" by (rule read_until_cases)
  then show ?thesis
    using r(2) reads_ok_add [OF assms(1), of kind] built_table_ok assms(3) ReadUntil by (auto simp: call_ok_def)
next
  case (ReadUntilWith d T)
  then have "a' = snd (add_read (RcUntil d T) a)" using assms(2) by simp
  then show ?thesis using reads_ok_add [OF assms(1), of "RcUntil d T"] assms(3) ReadUntilWith by (simp add: call_ok_def)
next
  case (Write d)
  then show ?thesis using reads_ok_put [OF assms(1)] assms(2) by simp
next
  case (Close imm)
  then show ?thesis using reads_ok_close [OF assms(1)] assms(2) by simp
qed

lemma reads_ok_fill:
  assumes "reads_ok a"
  shows "reads_ok (snd (fill_turn data cycle a))"
proof -
  let ?a' = "add_event (EvArrived data) (a\<lparr>af_read_buffer := af_read_buffer a @ data\<rparr>)"
  have w: "window ?a' = window a @ data" using assms by (simp add: window_def reads_ok_def)
  have "delim_state_ok ?a'"
    using assms unfolding reads_ok_def delim_state_ok_def w
    by (auto split: list.splits read_kind.splits dest: delim_inv_more)
  then have "reads_ok ?a'" using assms w by (simp add: reads_ok_def)
  then show ?thesis using assms by (simp add: fill_turn_def)
qed

lemma reads_ok_tail:
  assumes "reads_ok a"
  shows "reads_ok (snd (tail_turn cycle a))"
proof (cases "af_read_offset a = length (af_read_buffer a)")
  case True
  let ?a' = "a\<lparr>af_read_offset := 0, af_read_buffer := []\<rparr>"
  have w: "window ?a' = window a" using True by (simp add: window_def)
  have "delim_state_ok ?a' = delim_state_ok a" by (rule delim_state_same [OF w]) simp_all
  then have "reads_ok ?a'" using assms w unfolding reads_ok_def by simp
  then show ?thesis using True by (simp add: tail_turn_def)
next
  case False
  then show ?thesis using assms by (simp add: tail_turn_def)
qed

lemma ack_turn_log:
  "arrived (af_log (snd (ack_turn cl n w a))) = arrived (af_log a)"
  "handed_out (af_log (snd (ack_turn cl n w a))) = handed_out (af_log a)"
  "af_read_commands (snd (ack_turn cl n w a)) = af_read_commands a"
  by (simp_all add: ack_turn_def Let_def split: list.splits)

lemma window_bound: "reads_ok a \<Longrightarrow> length (arrived (af_log a)) < 2 ^ 31 \<Longrightarrow> length (window a) < 2 ^ 31"
  unfolding reads_ok_def by simp

lemma step_reads_open:
  assumes "afd_step env cl t (a, s) = Some (new, a', s')" and "t \<notin> set fail_tasks" and "reads_ok a"
    and "tasks_ok [t]" and "length (arrived (af_log a)) < 2 ^ 31"
  shows "reads_ok a'"
proof (cases t)
  case TLoop
  then have "read_turn cl a = Some (new, a')" using assms(1) by auto
  then show ?thesis using reads_ok_turn [OF assms(3)] window_bound assms(3,5) by blast
next
  case (TFill data cycle)
  then have "a' = snd (fill_turn data cycle a)" using assms(1) by simp
  then show ?thesis using reads_ok_fill assms(3) by simp
next
  case (TTail cycle)
  then have "a' = snd (tail_turn cycle a)" using assms(1) by simp
  then show ?thesis using reads_ok_tail assms(3) by simp
next
  case (TSslRead decoded want arr cycle)
  then show ?thesis using assms(1,3) by (auto dest!: ssl_turns_frame(1))
next
  case (TSslFlush decoded want r arr cycle)
  then show ?thesis using assms(1,3) by (auto dest!: ssl_turns_frame(2))
next
  case (TAck n w)
  then have "a' = snd (ack_turn cl n w a)" using assms(1) by simp
  then show ?thesis using reads_ok_same [OF assms(3)] ack_turn_log by simp
next
  case (TWriteNext w)
  then have "write_next env w a s = Some (new, a', s')" using assms by simp
  then show ?thesis
  proof (cases rule: write_next_cases)
    case stop
    then show ?thesis using assms(3) by blast
  next
    case (failed ok)
    then show ?thesis using perform_write_frame [OF failed(2)] assms(3) by (auto intro: reads_ok_same)
  next
    case (sent ok)
    then show ?thesis using perform_write_frame [OF sent(2)] assms(3) by (auto intro: reads_ok_same)
  qed
next
  case (TCall c)
  then show ?thesis using reads_ok_call [OF assms(3)] assms(1,4) by simp
next
  case (TPut data layers)
  then show ?thesis using reads_ok_put [OF assms(3)] assms(1) by simp
next
  case TDestroy
  then have "destroy_afd env a s = Some (new, a', s')" using assms by simp
  then obtain bio st s1 where c: "close_afd env False (a\<lparr>af_ssl_bio := bio, af_ssl_status := st\<rparr>) s1 = Some (new, a', s')"
    by (rule destroy_afd_cases)
  have "reads_ok (a\<lparr>af_ssl_bio := bio, af_ssl_status := st\<rparr>)" by (rule reads_ok_same [OF assms(3)]) simp_all
  then show ?thesis using reads_ok_close c by blast
qed (use assms in \<open>auto simp: in_fail_tasks split: if_splits option.splits intro: reads_ok_same [OF assms(3)]\<close>)

text \<open>A descriptor that is closed hands out nothing more.\<close>

lemma step_reads_closed:
  assumes "afd_step env cl t (a, s) = Some (new, a', s')" and "af_closed a = CsClosed" and "settled a \<or> failing (t # ts) a"
  shows "handed_out (af_log a') = handed_out (af_log a) \<and> prefix (arrived (af_log a)) (arrived (af_log a'))"
proof (cases t)
  case TLoop
  then have "read_turn cl a = Some (new, a')" using assms(1) by auto
  moreover have "af_read_commands a = []"
    using assms(3) TLoop by (auto simp: settled_def elim: failing_cases)
  ultimately show ?thesis using read_turn_frame [of cl a new a'] by simp
next
  case (TFill data cycle)
  then show ?thesis using assms(1) by (auto simp: fill_turn_def)
next
  case (TSslRead decoded want arr cycle)
  then show ?thesis using assms(1) by (auto dest!: ssl_turns_frame(1))
next
  case (TSslFlush decoded want r arr cycle)
  then show ?thesis using assms(1) by (auto dest!: ssl_turns_frame(2))
next
  case (TAck n w)
  then have "a' = snd (ack_turn cl n w a)" using assms(1) by simp
  then show ?thesis using ack_turn_log by simp
next
  case (TWriteNext w)
  then have "write_next env w a s = Some (new, a', s')" using assms by simp
  then show ?thesis
  proof (cases rule: write_next_cases)
    case stop
    then show ?thesis by simp
  next
    case (failed ok)
    then show ?thesis using perform_write_frame [OF failed(2)] by simp
  next
    case (sent ok)
    then show ?thesis using perform_write_frame [OF sent(2)] by simp
  qed
next
  case (TCall c)
  then show ?thesis using closed_call [of env c a s new a' s'] assms(1,2) by (auto simp: is_closed_def)
next
  case (TPut data layers)
  then have "put_data env data layers a s = Some (new, a', s')" using assms(1) by simp
  then show ?thesis
  proof (cases rule: put_data_cases)
    case refused
    then show ?thesis by simp
  qed (use assms(2) in \<open>simp_all add: is_closed_def\<close>)
next
  case TDestroy
  then have "destroy_afd env a s = Some (new, a', s')" using assms by simp
  then obtain bio st s1 where "close_afd env False (a\<lparr>af_ssl_bio := bio, af_ssl_status := st\<rparr>) s1 = Some (new, a', s')"
    by (rule destroy_afd_cases)
  then have "a' = a\<lparr>af_ssl_bio := bio, af_ssl_status := st\<rparr>" using assms(2) by (simp add: close_afd_def)
  then show ?thesis by simp
qed (use assms(1) in \<open>auto split: if_splits option.splits\<close>)

section \<open>The whole life of a descriptor\<close>

lemma step_tasks_ok:
  assumes "afd_step env cl t (a, s) = Some (new, a', s')" and "client_ok cl" 
  shows "tasks_ok new"
proof (cases t)
  case TLoop
  then have "read_turn cl a = Some (new, a')" using assms by auto
  then show ?thesis by (cases rule: read_turn_cases) (simp_all add: resume_ok assms(2))
next
  case (TFill data cycle)
  then show ?thesis using assms(1) by (auto simp: fill_turn_def)
next
  case (TTail cycle)
  then show ?thesis using assms(1) by (auto simp: tail_turn_def)
next
  case (TTurn data cycle)
  then show ?thesis using assms by (auto simp: client_ok_def split: if_splits option.splits)
next
  case (TSslRead decoded want arr cycle)
  then show ?thesis using assms(1) by (auto simp: ssl_read_turn_def Let_def split: option.splits prod.splits if_splits)
next
  case (TSslFlush decoded want r arr cycle)
  then show ?thesis using assms(1) by (auto simp: ssl_flush_turn_def split: option.splits prod.splits if_splits)
next
  case (TSslTake decoded want r arr cycle)
  then show ?thesis using assms(1) by (auto simp: ssl_take_turn_def split: if_splits)
next
  case (TAck n w)
  then show ?thesis using assms(1) by (auto simp: ack_turn_def Let_def resume_ok assms(2) split: list.splits if_splits)
next
  case (TWriteNext w)
  then have "write_next env w a s = Some (new, a', s')" using assms by simp
  then show ?thesis by (cases rule: write_next_cases) simp_all
next
  case (TCall c)
  show ?thesis
  proof (cases c)
    case (Write d)
    then have "put_data env d True a s = Some (new, a', s')" using assms(1) TCall by simp
    then show ?thesis by (cases rule: put_data_cases) simp_all
  next
    case (Close imm)
    then have "close_afd env imm a s = Some (new, a', s')" using assms(1) TCall by simp
    then show ?thesis by (cases rule: close_afd_cases) simp_all
  qed (use assms(1) TCall in \<open>auto simp: read_until_def add_read_def Let_def split: if_splits\<close>)
next
  case (TPut data layers)
  then have "put_data env data layers a s = Some (new, a', s')" using assms(1) by simp
  then show ?thesis by (cases rule: put_data_cases) simp_all
next
  case TDestroy
  then have "destroy_afd env a s = Some (new, a', s')" using assms by simp
  then obtain bio st s1 where "close_afd env False (a\<lparr>af_ssl_bio := bio, af_ssl_status := st\<rparr>) s1 = Some (new, a', s')"
    by (rule destroy_afd_cases)
  then show ?thesis by (cases rule: close_afd_cases) simp_all
qed (use assms in \<open>auto simp: resume_ok split: if_splits option.splits\<close>)

definition reads_inv :: "task list \<Rightarrow> afd \<Rightarrow> bool" where
  "reads_inv ts a \<longleftrightarrow> ctl ts a \<and> tasks_ok ts \<and>
     (length (arrived (af_log a)) < 2 ^ 31 \<longrightarrow>
       (if af_closed a = CsClosed then prefix (handed_out (af_log a)) (arrived (af_log a)) else reads_ok a))"

lemma arrived_mono: "prefix l l' \<Longrightarrow> length (arrived l) \<le> length (arrived l')"
  by (auto simp: prefix_def)

lemma step_reads_inv:
  assumes "reads_inv (t # ts) a" and "afd_step env cl t (a, s) = Some (new, a', s')" and "client_ok cl"
  shows "reads_inv (new @ ts) a'"
proof -
  have c: "ctl (t # ts) a" "ctl (new @ ts) a'" and ok: "tasks_ok [t]" "tasks_ok ts"
    using assms(1) step_ctl [OF _ assms(2), of ts] by (auto simp: reads_inv_def)
  have "if af_closed a' = CsClosed then prefix (handed_out (af_log a')) (arrived (af_log a')) else reads_ok a'"
    if "length (arrived (af_log a')) < 2 ^ 31"
  proof -
    have short: "length (arrived (af_log a)) < 2 ^ 31"
      using that arrived_mono [OF step_log [OF assms(2)]] by simp
    show ?thesis
    proof (cases "af_closed a = CsClosed")
      case True
      then have st: "settled a \<or> failing (t # ts) a" using c(1) by (simp add: ctl_def)
      have "af_closed a' = CsClosed"
        using step_settled [OF assms(2) True] step_failing [OF assms(2) True] st by blast
      moreover have "prefix (handed_out (af_log a)) (arrived (af_log a))" using assms(1) short True by (simp add: reads_inv_def)
      ultimately show ?thesis using step_reads_closed [OF assms(2) True st] by (auto intro: prefix_order.trans)
    next
      case False
      then have "reads_ok a" "t \<notin> set fail_tasks" using assms(1) short c(1) by (simp_all add: reads_inv_def ctl_def)
      then have "reads_ok a'" using step_reads_open [OF assms(2)] ok(1) short by blast
      then show ?thesis by (simp add: reads_ok_def)
    qed
  qed
  then show ?thesis using c(2) ok(2) step_tasks_ok [OF assms(2,3)] by (simp add: reads_inv_def)
qed

definition entry_ok :: "entry \<Rightarrow> bool" where
  "entry_ok e = (case e of EntryCall c \<Rightarrow> call_ok c | _ \<Rightarrow> True)"

lemma reads_inv_entry:
  assumes "reads_inv [] a" and "entry_ok e"
  shows "reads_inv [entry_task e] (entry_state e a)"
proof -
  have "tasks_ok [entry_task e]" using assms(2) by (cases e) (simp_all add: entry_task_def entry_ok_def)
  moreover have "reads_ok (entry_state e a)" if "reads_ok a"
    by (rule reads_ok_same [OF that]) (simp_all add: entry_state_def)
  moreover have "af_closed (entry_state e a) = af_closed a" "af_log (entry_state e a) = af_log a"
    by (simp_all add: entry_state_def)
  ultimately show ?thesis using assms(1) ctl_entry [of a e] unfolding reads_inv_def by simp
qed

lemma reads_inv_reach:
  assumes "afd_reach env cl entry_ok a" and "client_ok cl"
  shows "reads_inv [] a"
  using assms(1)
proof (rule afd_reach_invariant)
  show "reads_inv [] (fresh_afd elfd f ty)" for elfd f ty
    using ctl_fresh [of elfd f ty] by (simp add: reads_inv_def reads_ok_def delim_state_ok_def window_def) (simp add: fresh_afd_def)
qed (use reads_inv_entry step_reads_inv assms(2) in blast)+

text \<open>
  C14. For every client and every system, the data that arrived at a descriptor is, in its order, what its
  read commands have handed out, each with the delimiter it dropped, followed by what lies in the
  window; once the descriptor is closed, what was handed out is still the beginning of what arrived.
\<close>

theorem reads_conserve:
  assumes "afd_reach env cl entry_ok a" and "client_ok cl" and "length (arrived (af_log a)) < 2 ^ 31"
  shows "if af_closed a = CsClosed then prefix (handed_out (af_log a)) (arrived (af_log a))
    else arrived (af_log a) = handed_out (af_log a) @ window a"
  using reads_inv_reach [OF assms(1,2)] assms(3) unfolding reads_inv_def reads_ok_def by auto

end
