(* ===== verification/Afd_Writes.thy ===== *)
theory Afd_Writes
  imports Afd_Control
begin

text \<open>
  Writing to a descriptor: the data queued reaches the system in its order and without gaps, a write
  promise is resolved only after its last byte was accepted, and every promise is resolved once.
\<close>

section \<open>What was queued, sent and resolved\<close>

definition queued_of :: "event \<Rightarrow> (nat \<times> byte list) list" where
  "queued_of e = (case e of EvQueued p d \<Rightarrow> [(p, d)] | _ \<Rightarrow> [])"

definition sent_of :: "event \<Rightarrow> byte list" where
  "sent_of e = (case e of EvSent d \<Rightarrow> d | _ \<Rightarrow> [])"

definition done_of :: "event \<Rightarrow> back_buffer list" where
  "done_of e = (case e of EvWritten b True \<Rightarrow> [b] | _ \<Rightarrow> [])"

definition resolved_of :: "event \<Rightarrow> nat list" where
  "resolved_of e = (case e of EvRead c err d \<Rightarrow> [rc_promise c] | EvWritten b ok \<Rightarrow> [bb_promise b] | EvRefused p \<Rightarrow> [p] | _ \<Rightarrow> [])"

definition queued :: "event list \<Rightarrow> (nat \<times> byte list) list" where
  "queued l = concat (map queued_of l)"

definition sent :: "event list \<Rightarrow> byte list" where
  "sent l = concat (map sent_of l)"

definition written :: "event list \<Rightarrow> back_buffer list" where
  "written l = concat (map done_of l)"

definition resolved :: "event list \<Rightarrow> nat list" where
  "resolved l = concat (map resolved_of l)"

lemma log_simps [simp]:
  "queued [] = []" "queued (l @ l') = queued l @ queued l'" "queued [e] = queued_of e"
  "sent [] = []" "sent (l @ l') = sent l @ sent l'" "sent [e] = sent_of e"
  "written [] = []" "written (l @ l') = written l @ written l'" "written [e] = done_of e"
  "resolved [] = []" "resolved (l @ l') = resolved l @ resolved l'" "resolved [e] = resolved_of e"
  by (simp_all add: queued_def sent_def written_def resolved_def)

lemma write_event_parts [simp]:
  "queued_of (EvArrived d) = []" "queued_of (EvRead c err d) = []" "queued_of (EvQueued p d) = [(p, d)]"
  "queued_of (EvSent d) = []" "queued_of (EvWritten b ok) = []" "queued_of (EvRefused p) = []"
  "sent_of (EvArrived d) = []" "sent_of (EvRead c err d) = []" "sent_of (EvQueued p d) = []"
  "sent_of (EvSent d) = d" "sent_of (EvWritten b ok) = []" "sent_of (EvRefused p) = []"
  "done_of (EvArrived d) = []" "done_of (EvRead c err d) = []" "done_of (EvQueued p d) = []"
  "done_of (EvSent d) = []" "done_of (EvWritten b ok) = (if ok then [b] else [])" "done_of (EvRefused p) = []"
  "resolved_of (EvArrived d) = []" "resolved_of (EvRead c err d) = [rc_promise c]" "resolved_of (EvQueued p d) = []"
  "resolved_of (EvSent d) = []" "resolved_of (EvWritten b ok) = [bb_promise b]" "resolved_of (EvRefused p) = [p]"
  by (simp_all add: queued_of_def sent_of_def done_of_def resolved_of_def)

section \<open>The system call\<close>

text \<open>\<open>write\<close> returns -1 or the number of bytes it took, at most 0x7ffff000 on Linux.\<close>

definition kernel_writes :: "env \<Rightarrow> bool" where
  "kernel_writes env \<longleftrightarrow>
     (\<forall>h f d. - 1 \<le> a_ret (answers env (h @ [AWrite f d])) \<and> a_ret (answers env (h @ [AWrite f d])) \<le> int (length d) \<and>
        a_ret (answers env (h @ [AWrite f d])) < 2 ^ 31)"

lemma s80_write_bound:
  assumes "kernel_writes env" and "s80_write env elfd f ty data off len s = Some (ok, s')" and "length data = len"
  shows "off \<le> len \<and> ok \<le> int (len - off)"
proof -
  let ?d = "take (len - off) (drop off data)"
  let ?r = "a_ret (answers env (hist s @ [AWrite f ?d]))"
  have off: "off \<le> len" using assms(2) by (simp add: s80_write_def split: if_splits)
  have "length ?d = len - off" using assms(3) off by simp
  then have r: "- 1 \<le> ?r" "?r \<le> int (len - off)" "?r < 2 ^ 31" using assms(1) unfolding kernel_writes_def by metis+
  have conv: "int_of_size (size_of_ret ?r) = ?r"
  proof (cases "?r = - 1")
    case True
    have "int_of_size (size_of_ret (- 1)) = - 1" by (simp add: size_of_ret_def int_of_size_def)
    then show ?thesis using True by simp
  next
    case False
    then have "0 \<le> ?r" using r by simp
    then show ?thesis
      using r(3) sint_word_of_int [of ?r] by (simp add: size_of_ret_def int_of_size_def c_int_def)
  qed
  have "ok = - 1 \<or> ok = int_of_size (size_of_ret ?r)"
    using assms(2) off by (auto simp: s80_write_def act_def Let_def split: if_splits)
  then show ?thesis using conv r off by auto
qed

lemma perform_write_bound:
  assumes "kernel_writes env" and "perform_write env a s = Some (ok, a', s')"
  shows "af_write_offset a \<le> length (af_write_buffer a) \<and> ok \<le> int (length (af_write_buffer a) - af_write_offset a)"
proof -
  obtain s1 where "s80_write env (af_elfd a) (af_fd a) (af_fd_type a) (af_write_buffer a) (af_write_offset a)
      (length (af_write_buffer a)) s = Some (ok, s1)"
    using assms(2) by (auto simp: perform_write_def split: option.splits prod.splits if_splits)
  then show ?thesis using s80_write_bound [OF assms(1)] by blast
qed

section \<open>The invariant of the write queue\<close>

text \<open>Bytes counted for promises by the turns of \<open>on_write\<close> under way, and bytes the offset does not know of yet.\<close>

fun ack_of :: "task \<Rightarrow> nat" where
  "ack_of (TAck n w) = n"
| "ack_of t = 0"

definition acks :: "task list \<Rightarrow> nat" where
  "acks ts = sum_list (map ack_of ts)"

fun in_flight :: "task \<Rightarrow> nat" where
  "in_flight (TOnWrite n) = n"
| "in_flight (TWriteTurn n) = n"
| "in_flight t = 0"

definition flight :: "task list \<Rightarrow> nat" where
  "flight ts = sum_list (map in_flight ts)"

lemma acks_simps [simp]: "acks [] = 0" "acks (t # ts) = ack_of t + acks ts" "acks (ts @ us) = acks ts + acks us"
  by (simp_all add: acks_def)

lemma flight_simps [simp]: "flight [] = 0" "flight (t # ts) = in_flight t + flight ts" "flight (ts @ us) = flight ts + flight us"
  by (simp_all add: flight_def)

lemma acks_calls [simp]: "acks (map TCall cs) = 0" "flight (map TCall cs) = 0"
  by (induction cs) simp_all

lemma acks_resume [simp]: "acks (resume cl a) = 0" "flight (resume cl a) = 0" "acks fail_tasks = 0" "flight fail_tasks = 0"
  by (simp_all add: resume_def fail_tasks_def)

definition unacked :: "back_buffer list \<Rightarrow> nat" where
  "unacked bs = sum_list (map (\<lambda>b. bb_length b - bb_sent b) bs)"

lemma unacked_simps [simp]: "unacked [] = 0" "unacked (b # bs) = bb_length b - bb_sent b + unacked bs" "unacked (bs @ cs) = unacked bs + unacked cs"
  by (simp_all add: unacked_def)

text \<open>
  The entries of the queue are the writes that are not done yet, in order; what they still wait for is
  what lies behind the offset or is being counted; what lies behind the offset is what was queued and
  not sent.
\<close>

definition entry_of :: "back_buffer \<Rightarrow> nat \<times> nat" where
  "entry_of b = (bb_promise b, bb_length b)"

definition writes_ok :: "task list \<Rightarrow> afd \<Rightarrow> bool" where
  "writes_ok ts a \<longleftrightarrow>
     af_write_offset a + flight ts \<le> length (af_write_buffer a) \<and>
     (\<forall>b\<in>set (af_write_info a). bb_sent b \<le> bb_length b) \<and>
     unacked (af_write_info a) = length (af_write_buffer a) - af_write_offset a + acks ts \<and>
     concat (map snd (queued (af_log a))) = sent (af_log a) @ drop (af_write_offset a + flight ts) (af_write_buffer a) \<and>
     map (\<lambda>(p, d). (p, length d)) (queued (af_log a)) = map entry_of (written (af_log a) @ af_write_info a)"

text \<open>What a client can rely on, which also holds when the descriptor is closed.\<close>

definition writes_done :: "event list \<Rightarrow> bool" where
  "writes_done l \<longleftrightarrow>
     (let n = length (written l) in
      n \<le> length (queued l) \<and> map bb_promise (written l) = map fst (take n (queued l)) \<and>
      prefix (concat (map snd (take n (queued l)))) (sent l) \<and> prefix (sent l) (concat (map snd (queued l))))"

lemma writes_ok_done:
  assumes "writes_ok ts a"
  shows "writes_done (af_log a)"
proof -
  let ?q = "queued (af_log a)" and ?w = "written (af_log a)" and ?i = "af_write_info a" and ?s = "sent (af_log a)"
  let ?n = "length ?w" and ?rest = "drop (af_write_offset a + flight ts) (af_write_buffer a)"
  have items: "map (\<lambda>(p, d). (p, length d)) ?q = map entry_of ?w @ map entry_of ?i"
    using assms by (simp add: writes_ok_def)
  have n: "?n \<le> length ?q"
    using arg_cong [OF items, of length] by simp
  have head: "map (\<lambda>(p, d). (p, length d)) (take ?n ?q) = map entry_of ?w"
    using arg_cong [OF items, of "take ?n"] by (simp add: take_map)
  have tail: "map (\<lambda>(p, d). (p, length d)) (drop ?n ?q) = map entry_of ?i"
    using arg_cong [OF items, of "drop ?n"] by (simp add: drop_map)
  have names: "map fst (take ?n ?q) = map bb_promise ?w"
  proof -
    have "map fst (map (\<lambda>(p, d). (p, length d)) (take ?n ?q)) = map fst (take ?n ?q)" by (simp add: case_prod_beta)
    moreover have "map fst (map entry_of ?w) = map bb_promise ?w" by (simp add: entry_of_def)
    ultimately show ?thesis unfolding head by simp
  qed
  have tail_len: "length (concat (map snd (drop ?n ?q))) = sum_list (map bb_length ?i)"
  proof -
    have "map (length \<circ> snd) (drop ?n ?q) = map snd (map (\<lambda>(p, d). (p, length d)) (drop ?n ?q))" by (simp add: case_prod_beta comp_def)
    also have "\<dots> = map bb_length ?i" unfolding tail by (simp add: entry_of_def)
    finally show ?thesis by (simp add: length_concat)
  qed
  have whole: "concat (map snd (take ?n ?q)) @ concat (map snd (drop ?n ?q)) = ?s @ ?rest"
  proof -
    have "concat (map snd (take ?n ?q)) @ concat (map snd (drop ?n ?q)) = concat (map snd (take ?n ?q @ drop ?n ?q))"
      by (simp only: map_append concat_append)
    then show ?thesis using assms by (simp add: writes_ok_def)
  qed
  have "length ?rest \<le> length (concat (map snd (drop ?n ?q)))"
  proof -
    have "unacked ?i \<le> sum_list (map bb_length ?i)" unfolding unacked_def by (induction ?i) (auto intro: sum_list_mono)
    then show ?thesis using assms unfolding tail_len by (simp add: writes_ok_def)
  qed
  then have "length (concat (map snd (take ?n ?q))) \<le> length ?s"
    using arg_cong [OF whole, of length] by simp
  then have "prefix (concat (map snd (take ?n ?q))) ?s"
    by (rule prefix_length_prefix [OF prefixI [OF whole [symmetric]] prefixI [OF refl]])
  moreover have "prefix ?s (concat (map snd ?q))" using assms by (simp add: writes_ok_def)
  ultimately show ?thesis using n names by (simp add: writes_done_def Let_def)
qed

section \<open>Every step keeps it\<close>

lemma writes_ok_same:
  assumes "writes_ok ts a" and "af_write_offset a' = af_write_offset a" "af_write_buffer a' = af_write_buffer a"
    "af_write_info a' = af_write_info a" "queued (af_log a') = queued (af_log a)" "sent (af_log a') = sent (af_log a)"
    "written (af_log a') = written (af_log a)" "acks ts' = acks ts" "flight ts' = flight ts"
  shows "writes_ok ts' a'"
  using assms(1) unfolding writes_ok_def assms(2-) .

lemma writes_ok_turn:
  assumes "writes_ok (TWriteTurn n # ts) a" and "flight ts = 0"
  shows "writes_ok (TAck n w # ts) (a\<lparr>af_write_offset := af_write_offset a + n\<rparr>)"
  using assms by (auto simp: writes_ok_def)

lemma writes_ok_ack:
  assumes "writes_ok (TAck n w # ts) a"
  shows "writes_ok (fst (ack_turn cl n w a) @ ts) (snd (ack_turn cl n w a))"
proof (cases "af_write_info a")
  case Nil
  then have "n = 0" using assms by (simp add: writes_ok_def)
  then show ?thesis using assms Nil by (auto intro: writes_ok_same)
next
  case (Cons b bs)
  have b: "bb_sent b \<le> bb_length b" "unacked (af_write_info a) = bb_length b - bb_sent b + unacked bs"
    using assms Cons by (simp_all add: writes_ok_def)
  show ?thesis
  proof (cases "bb_length b \<le> bb_sent b + n")
    case True
    let ?b = "b\<lparr>bb_sent := bb_length b\<rparr>"
    have "entry_of ?b = entry_of b" by (simp add: entry_of_def)
    then show ?thesis using assms Cons True b by (auto simp: writes_ok_def ack_turn_def Let_def)
  next
    case False
    let ?b = "b\<lparr>bb_sent := bb_sent b + n\<rparr>"
    have "entry_of ?b = entry_of b" by (simp add: entry_of_def)
    then show ?thesis using assms Cons False b by (auto simp: writes_ok_def ack_turn_def Let_def)
  qed
qed

lemma writes_ok_performed:
  assumes "writes_ok ts a" and "perform_write env a s = Some (ok, a', s')" and "kernel_writes env"
    and "flight ts = 0" and "acks us = acks ts" "flight us = nat ok"
  shows "writes_ok us a'"
proof (cases "ok < 0")
  case True
  then show ?thesis using assms perform_write_frame [OF assms(2)] by (auto intro: writes_ok_same)
next
  case False
  let ?rest = "drop (af_write_offset a) (af_write_buffer a)"
  note bound = perform_write_bound [OF assms(3,2)]
  have n: "nat ok \<le> length ?rest" using bound unfolding nat_le_iff by (simp only: length_drop)
  have split: "?rest = take (nat ok) ?rest @ drop (af_write_offset a + nat ok) (af_write_buffer a)"
    by (metis append_take_drop_id drop_drop add.commute)
  have a': "a' = add_event (EvSent (take (nat ok) ?rest)) a" using perform_write_frame [OF assms(2)] False by simp
  show ?thesis
    unfolding writes_ok_def assms(5,6)
  proof (intro conjI)
    have "af_write_offset a + nat ok \<le> length (af_write_buffer a)" using n bound by (simp only: length_drop) linarith
    then show "af_write_offset a' + nat ok \<le> length (af_write_buffer a')" using a' by simp
    show "concat (map snd (queued (af_log a'))) =
        sent (af_log a') @ drop (af_write_offset a' + nat ok) (af_write_buffer a')"
      using assms(1,4) a' split by (simp add: writes_ok_def)
  qed (use assms(1,4) a' in \<open>simp_all add: writes_ok_def\<close>)
qed

lemma writes_ok_queue:
  assumes "writes_ok ts a" and "flight ts = 0"
    and "a2 = add_event (EvQueued (af_next_promise a) bytes)
        (a\<lparr>af_next_promise := af_next_promise a + 1, af_write_buffer := af_write_buffer a @ bytes,
           af_write_info := af_write_info a @ [\<lparr>bb_promise = af_next_promise a, bb_length = length bytes, bb_sent = 0\<rparr>]\<rparr>)"
  shows "writes_ok ts a2"
  using assms by (auto simp: writes_ok_def entry_of_def)

lemma writes_ok_put:
  assumes "put_data env data layers a s = Some (new, a', s')" and "writes_ok ts a" "flight ts = 0" "kernel_writes env"
  shows "writes_ok (new @ ts) a'"
  using assms(1)
proof (cases rule: put_data_cases)
  case refused
  then show ?thesis using assms(2) by (auto intro: writes_ok_same)
next
  case (queued bytes a2)
  then show ?thesis using writes_ok_queue [OF assms(2,3) queued(2)] by simp
next
  case (tried bytes s1 a2 ok)
  note q = writes_ok_queue [OF assms(2,3) tried(2)]
  show ?thesis
    by (rule writes_ok_performed [OF q tried(4) assms(4,3)]) (use tried(5) assms(3) in auto)
qed

lemma writes_ok_close:
  assumes "close_afd env imm a s = Some (new, a', s')" and "writes_ok ts a" "flight ts = 0"
  shows "writes_ok (new @ ts) a'"
  using assms(1) by (cases rule: close_afd_cases) (use assms(2,3) in \<open>auto intro: writes_ok_same\<close>)

lemma writes_ok_add_read:
  assumes "writes_ok ts a" and "r = add_read kind a"
  shows "writes_ok (fst r @ ts) (snd r)"
  using assms by (cases rule: add_read_cases [of a kind]) (auto intro: writes_ok_same)

lemma writes_ok_call:
  assumes "afd_call env c a s = Some (new, a', s')" and "writes_ok ts a" "flight ts = 0" "kernel_writes env"
  shows "writes_ok (new @ ts) a'"
proof (cases c)
  case ReadAny
  then show ?thesis using assms(1,2) writes_ok_add_read [of ts a "(new, a')"] by (metis afd_call.simps(1) fst_conv option.inject prod.collapse prod.inject snd_conv)
next
  case (ReadN n)
  then show ?thesis using assms(1,2) writes_ok_add_read [of ts a "(new, a')"] by (metis afd_call.simps(2) fst_conv option.inject prod.collapse prod.inject snd_conv)
next
  case (ReadUntil d)
  then obtain r where r: "read_until d a = Some r" "new = fst r" "a' = snd r" using assms(1) by auto
  from r(1) obtain kind where "r = add_read kind a" by (rule read_until_cases)
  then show ?thesis using writes_ok_add_read [OF assms(2)] r(2,3) by blast
next
  case (ReadUntilWith d T)
  then show ?thesis using assms(1,2) writes_ok_add_read [of ts a "(new, a')"] by (metis afd_call.simps(4) fst_conv option.inject prod.collapse prod.inject snd_conv)
next
  case (Write d)
  then show ?thesis using writes_ok_put assms by simp
next
  case (Close imm)
  then show ?thesis using writes_ok_close assms by simp
qed

text \<open>The parts of the log a task does not write.\<close>

lemma read_turn_log:
  assumes "read_turn cl a = Some (new, a')"
  shows "queued (af_log a') = queued (af_log a)" "sent (af_log a') = sent (af_log a)" "written (af_log a') = written (af_log a)"
    "acks new = 0" "flight new = 0"
proof -
  have "queued (af_log a') = queued (af_log a) \<and> sent (af_log a') = sent (af_log a) \<and> written (af_log a') = written (af_log a) \<and>
      acks new = 0 \<and> flight new = 0"
    using assms by (cases rule: read_turn_cases) simp_all
  then show "queued (af_log a') = queued (af_log a)" "sent (af_log a') = sent (af_log a)" "written (af_log a') = written (af_log a)"
    "acks new = 0" "flight new = 0" by blast+
qed

lemma fill_turn_log:
  "queued (af_log (snd (fill_turn data cycle a))) = queued (af_log a)" "sent (af_log (snd (fill_turn data cycle a))) = sent (af_log a)"
  "written (af_log (snd (fill_turn data cycle a))) = written (af_log a)" "acks (fst (fill_turn data cycle a)) = 0"
  "flight (fst (fill_turn data cycle a)) = 0" "acks (fst (tail_turn cycle a)) = 0" "flight (fst (tail_turn cycle a)) = 0"
  by (simp_all add: fill_turn_def tail_turn_def)

lemma ssl_turns_idle:
  "ssl_read_turn env decoded want arr cycle a s = Some (new, a', s') \<Longrightarrow> acks new = 0 \<and> flight new = 0"
  "ssl_flush_turn env decoded want r arr cycle a s = Some (new, a', s') \<Longrightarrow> acks new = 0 \<and> flight new = 0"
  "ssl_take_turn decoded want r arr cycle = Some ts \<Longrightarrow> acks ts = 0 \<and> flight ts = 0"
  by (auto simp: ssl_read_turn_def ssl_flush_turn_def ssl_take_turn_def Let_def split: option.splits prod.splits if_splits)

lemma step_writes_open:
  assumes "afd_step env cl t (a, s) = Some (new, a', s')" and "writes_ok (t # ts) a" and "t \<notin> set fail_tasks"
    and "flight ts = 0" and "0 < in_flight t \<longrightarrow> af_closed a = CsOpen" and "kernel_writes env"
  shows "writes_ok (new @ ts) a'"
proof (cases t)
  case TLoop
  then have r: "read_turn cl a = Some (new, a')" using assms(1) by auto
  show ?thesis
    by (rule writes_ok_same [OF assms(2)]) (use read_turn_log [OF r] read_turn_frame [OF r] TLoop in simp_all)
next
  case (TFill data cycle)
  then show ?thesis
    by (intro writes_ok_same [OF assms(2)]) (use assms(1) in \<open>auto simp: fill_turn_log\<close>)
next
  case (TTail cycle)
  then show ?thesis
    by (intro writes_ok_same [OF assms(2)]) (use assms(1) in \<open>auto simp: fill_turn_log\<close>)
next
  case (TSslRead decoded want arr cycle)
  then show ?thesis
    using assms(1) by (intro writes_ok_same [OF assms(2)]) (auto dest: ssl_turns_idle(1) ssl_turns_frame(1))
next
  case (TSslFlush decoded want r arr cycle)
  then show ?thesis
    using assms(1) by (intro writes_ok_same [OF assms(2)]) (auto dest: ssl_turns_idle(2) ssl_turns_frame(2))
next
  case (TSslTake decoded want r arr cycle)
  then show ?thesis
    using assms(1) by (intro writes_ok_same [OF assms(2)]) (auto dest: ssl_turns_idle(3))
next
  case (TOnWrite n)
  then have "n = 0 \<or> new = [TWriteTurn n]" "a' = a" "new = [] \<or> new = [TWriteTurn n]"
    using assms(1,5) by (auto simp: is_closed_def)
  then show ?thesis using assms(2) TOnWrite by (auto intro: writes_ok_same)
next
  case (TWriteTurn n)
  then show ?thesis using writes_ok_turn [OF _ assms(4)] assms(1,2) by auto
next
  case (TAck n w)
  then have "new = fst (ack_turn cl n w a)" "a' = snd (ack_turn cl n w a)" using assms(1) by auto
  then show ?thesis using writes_ok_ack assms(2) TAck by simp
next
  case (TWriteNext w)
  then have "write_next env w a s = Some (new, a', s')" using assms by simp
  then show ?thesis
  proof (cases rule: write_next_cases)
    case stop
    then show ?thesis using assms(2) TWriteNext by (auto intro: writes_ok_same)
  next
    case (failed ok)
    show ?thesis by (rule writes_ok_performed [OF assms(2) failed(2) assms(6)]) (use failed assms(4) TWriteNext in auto)
  next
    case (sent ok)
    show ?thesis by (rule writes_ok_performed [OF assms(2) sent(2) assms(6)]) (use sent assms(4) TWriteNext in auto)
  qed
next
  case TWriteEnd
  show ?thesis
  proof (cases "af_write_info a = []")
    case True
    then have "length (af_write_buffer a) = af_write_offset a" "acks ts = 0"
      using assms(2,4) TWriteEnd by (auto simp: writes_ok_def)
    then show ?thesis using assms(1,2,4) True TWriteEnd by (auto simp: writes_ok_def)
  next
    case False
    then show ?thesis using assms(1,2) TWriteEnd by (auto intro: writes_ok_same)
  qed
next
  case (TCall c)
  then have "writes_ok ts a" using writes_ok_same [OF assms(2)] by simp
  then show ?thesis using writes_ok_call assms(1,4,6) TCall by simp
next
  case (TPut data layers)
  then have "writes_ok ts a" using writes_ok_same [OF assms(2)] by simp
  then show ?thesis using writes_ok_put assms(1,4,6) TPut by simp
next
  case TDestroy
  then have "destroy_afd env a s = Some (new, a', s')" using assms by simp
  then obtain bio st s1 where c: "close_afd env False (a\<lparr>af_ssl_bio := bio, af_ssl_status := st\<rparr>) s1 = Some (new, a', s')"
    by (rule destroy_afd_cases)
  have "writes_ok ts (a\<lparr>af_ssl_bio := bio, af_ssl_status := st\<rparr>)"
    by (rule writes_ok_same [OF assms(2)]) (simp_all add: TDestroy)
  then show ?thesis using writes_ok_close c assms(4) by blast
next
  case (TData data cycle)
  then show ?thesis using assms(1,2) by (auto split: if_splits option.splits intro: writes_ok_same)
next
  case (TTurn data cycle)
  then show ?thesis using assms(1,2) by (auto split: if_splits option.splits intro: writes_ok_same)
next
  case TOnClose
  then show ?thesis using assms(1,2) by (auto split: if_splits intro: writes_ok_same)
qed (use assms(3) in \<open>simp_all add: in_fail_tasks\<close>)

section \<open>The whole life of a descriptor\<close>

text \<open>Bytes in flight are noted by the task on top only, of a descriptor that is open.\<close>

definition flight_ok :: "task list \<Rightarrow> afd \<Rightarrow> bool" where
  "flight_ok ts a \<longleftrightarrow>
     (case ts of [] \<Rightarrow> True | t # us \<Rightarrow> flight us = 0 \<and> (0 < in_flight t \<and> (\<exists>n. t = TOnWrite n) \<longrightarrow> af_closed a = CsOpen))"

lemma flight_ok_idle: "flight ts = 0 \<Longrightarrow> flight_ok ts a"
  by (auto simp: flight_ok_def split: list.splits)

lemma ack_turn_flight [simp]: "flight (fst (ack_turn cl n w a)) = 0"
  by (simp add: ack_turn_def Let_def split: list.splits)

lemma step_flight:
  assumes "afd_step env cl t (a, s) = Some (new, a', s')" and "flight ts = 0"
  shows "flight_ok (new @ ts) a'"
proof -
  have put: "flight_ok (new @ ts) a'" if "put_data env data layers a s = Some (new, a', s')" for data layers
    using that
  proof (cases rule: put_data_cases)
    case (tried bytes s1 a2 ok)
    show ?thesis
    proof (cases "0 < ok")
      case True
      then have "af_closed a' = CsOpen" using perform_write_frame [OF tried(4)] tried(1,2) by (simp add: is_closed_def)
      then show ?thesis using True tried(5) assms(2) by (simp add: flight_ok_def)
    next
      case False
      then show ?thesis using tried(5) assms(2) by (simp add: flight_ok_idle)
    qed
  qed (use assms(2) in \<open>simp_all add: flight_ok_idle\<close>)
  have close: "flight_ok (new @ ts) a'" if "close_afd env imm b s1 = Some (new, a', s')" for imm b s1
    using that by (cases rule: close_afd_cases) (use assms(2) in \<open>simp_all add: flight_ok_idle\<close>)
  show ?thesis
  proof (cases t)
    case TLoop
    then have "read_turn cl a = Some (new, a')" using assms(1) by auto
    then show ?thesis using read_turn_log(5) assms(2) by (simp add: flight_ok_idle)
  next
    case (TSslRead decoded want arr cycle)
    then show ?thesis using assms by (auto intro!: flight_ok_idle dest: ssl_turns_idle(1))
  next
    case (TSslFlush decoded want r arr cycle)
    then show ?thesis using assms by (auto intro!: flight_ok_idle dest: ssl_turns_idle(2))
  next
    case (TSslTake decoded want r arr cycle)
    then show ?thesis using assms by (auto intro!: flight_ok_idle dest: ssl_turns_idle(3))
  next
    case (TWriteNext w)
    then have "write_next env w a s = Some (new, a', s')" using assms by simp
    then show ?thesis by (cases rule: write_next_cases) (use assms(2) in \<open>simp_all add: flight_ok_def\<close>)
  next
    case (TOnWrite n)
    then have "new = [] \<or> new = [TWriteTurn n]" using assms(1) by (cases "is_closed a") auto
    then show ?thesis using flight_ok_idle [OF assms(2)] assms(2) by (auto simp: flight_ok_def)
  next
    case (TPut data layers)
    then show ?thesis using put assms(1) by simp
  next
    case TDestroy
    then have "destroy_afd env a s = Some (new, a', s')" using assms by simp
    then obtain bio st s1 where "close_afd env False (a\<lparr>af_ssl_bio := bio, af_ssl_status := st\<rparr>) s1 = Some (new, a', s')"
      by (rule destroy_afd_cases)
    then show ?thesis by (rule close)
  next
    case (TCall c)
    have add: "flight (fst (add_read kind a)) = 0" for kind by (simp add: add_read_def Let_def)
    show ?thesis
    proof (cases c)
      case (ReadUntil d)
      then obtain r where r: "read_until d a = Some r" "new = fst r" using assms(1) TCall by auto
      from r(1) obtain kind where "r = add_read kind a" by (rule read_until_cases)
      then show ?thesis using r add assms(2) by (simp add: flight_ok_idle)
    next
      case (Write d)
      then show ?thesis using put assms(1) TCall by simp
    next
      case (Close imm)
      then show ?thesis using close assms(1) TCall by simp
    qed (use assms TCall add in \<open>auto intro!: flight_ok_idle\<close>)
  qed (use assms in \<open>auto simp: fill_turn_log split: if_splits option.splits intro!: flight_ok_idle\<close>)
qed

lemma step_writes_closed:
  assumes "afd_step env cl t (a, s) = Some (new, a', s')" and "af_closed a = CsClosed" and "settled a \<or> failing (t # ts) a"
  shows "queued (af_log a') = queued (af_log a) \<and> sent (af_log a') = sent (af_log a) \<and> written (af_log a') = written (af_log a)"
proof (cases t)
  case TLoop
  then have r: "read_turn cl a = Some (new, a')" using assms(1) by auto
  show ?thesis using read_turn_log [OF r] by simp
next
  case (TFill data cycle)
  then show ?thesis using assms(1) by (auto simp: fill_turn_log)
next
  case (TSslRead decoded want arr cycle)
  then show ?thesis using assms(1) by (auto dest!: ssl_turns_frame(1))
next
  case (TSslFlush decoded want r arr cycle)
  then show ?thesis using assms(1) by (auto dest!: ssl_turns_frame(2))
next
  case (TAck n w)
  then have "af_write_info a = []" using assms(3) by (auto simp: settled_def elim: failing_cases)
  then show ?thesis using assms(1) TAck by simp
next
  case (TWriteNext w)
  then have "af_write_buffer a = []" using assms(3) by (auto simp: settled_def elim: failing_cases)
  then show ?thesis using assms(1) TWriteNext by (simp add: write_next_def)
next
  case (TCall c)
  then show ?thesis using closed_call [of env c a s new a' s'] assms(1,2) by (auto simp: is_closed_def)
next
  case (TPut data layers)
  then have "put_data env data layers a s = Some (new, a', s')" using assms(1) by simp
  then show ?thesis by (cases rule: put_data_cases) (use assms(2) in \<open>simp_all add: is_closed_def\<close>)
next
  case TDestroy
  then have "destroy_afd env a s = Some (new, a', s')" using assms by simp
  then obtain bio st s1 where "close_afd env False (a\<lparr>af_ssl_bio := bio, af_ssl_status := st\<rparr>) s1 = Some (new, a', s')"
    by (rule destroy_afd_cases)
  then have "a' = a\<lparr>af_ssl_bio := bio, af_ssl_status := st\<rparr>" using assms(2) by (simp add: close_afd_def)
  then show ?thesis by simp
qed (use assms(1) in \<open>auto split: if_splits option.splits\<close>)

definition writes_inv :: "task list \<Rightarrow> afd \<Rightarrow> bool" where
  "writes_inv ts a \<longleftrightarrow> ctl ts a \<and> flight_ok ts a \<and> (if af_closed a = CsClosed then writes_done (af_log a) else writes_ok ts a)"

lemma step_writes_inv:
  assumes "writes_inv (t # ts) a" and "afd_step env cl t (a, s) = Some (new, a', s')" and "kernel_writes env"
  shows "writes_inv (new @ ts) a'"
proof -
  have c: "ctl (t # ts) a" "ctl (new @ ts) a'" and f: "flight_ok (t # ts) a" "flight ts = 0"
    using assms(1) step_ctl [OF _ assms(2), of ts] by (auto simp: writes_inv_def flight_ok_def)
  have "if af_closed a' = CsClosed then writes_done (af_log a') else writes_ok (new @ ts) a'"
  proof (cases "af_closed a = CsClosed")
    case True
    then have st: "settled a \<or> failing (t # ts) a" using c(1) by (simp add: ctl_def)
    have "af_closed a' = CsClosed"
      using step_settled [OF assms(2) True] step_failing [OF assms(2) True] st by blast
    moreover have "writes_done (af_log a)" using assms(1) True by (simp add: writes_inv_def)
    ultimately show ?thesis using step_writes_closed [OF assms(2) True st] by (simp add: writes_done_def)
  next
    case False
    then have w: "writes_ok (t # ts) a" "t \<notin> set fail_tasks" using assms(1) c(1) by (simp_all add: writes_inv_def ctl_def)
    show ?thesis
    proof (cases "\<exists>n. t = TWriteTurn n \<and> 0 < n")
      case True
      then obtain n where t: "t = TWriteTurn n" by blast
      then have "new = [TAck n (n = 0)]" "a' = a\<lparr>af_write_offset := af_write_offset a + n\<rparr>" using assms(2) by auto
      then show ?thesis using writes_ok_turn [OF _ f(2)] w(1) t False by simp
    next
      case no_turn: False
      have "0 < in_flight t \<longrightarrow> af_closed a = CsOpen"
        using f(1) no_turn by (cases t) (auto simp: flight_ok_def)
      from step_writes_open [OF assms(2) w f(2) this assms(3)] have "writes_ok (new @ ts) a'" .
      then show ?thesis using writes_ok_done by simp
    qed
  qed
  then show ?thesis using c(2) step_flight [OF assms(2) f(2)] by (simp add: writes_inv_def)
qed

lemma writes_inv_entry:
  assumes "writes_inv [] a"
  shows "writes_inv [entry_task e] (entry_state e a)"
proof -
  have z: "acks [entry_task e] = 0" "flight [entry_task e] = 0" by (cases e; simp add: entry_task_def)+
  have st: "af_closed (entry_state e a) = af_closed a" "af_log (entry_state e a) = af_log a"
    by (simp_all add: entry_state_def)
  have "writes_ok [entry_task e] (entry_state e a)" if "writes_ok [] a"
    by (rule writes_ok_same [OF that]) (use z in \<open>simp_all add: entry_state_def\<close>)
  then show ?thesis using assms ctl_entry [of a e] flight_ok_idle [OF z(2)] st by (simp add: writes_inv_def)
qed

lemma writes_inv_reach:
  assumes "afd_reach env cl ok a" and "kernel_writes env"
  shows "writes_inv [] a"
  using assms(1)
proof (rule afd_reach_invariant)
  show "writes_inv [] (fresh_afd elfd f ty)" for elfd f ty
    using ctl_fresh [of elfd f ty]
    by (simp add: writes_inv_def writes_ok_def flight_ok_def) (simp add: fresh_afd_def writes_ok_def)
qed (use writes_inv_entry step_writes_inv assms(2) in blast)+

text \<open>
  C15. For every client and every system, a write promise is resolved with true only after all its data was
  accepted by the system, in the order of the writes, and the system is handed the data queued, in its
  order and without gaps.
\<close>

theorem writes_in_order:
  assumes "afd_reach env cl ok a" and "kernel_writes env"
  shows "prefix (map bb_promise (written (af_log a))) (map fst (queued (af_log a))) \<and>
    prefix (concat (map snd (take (length (written (af_log a))) (queued (af_log a))))) (sent (af_log a)) \<and>
    prefix (sent (af_log a)) (concat (map snd (queued (af_log a))))"
proof -
  have "writes_done (af_log a)"
    using writes_inv_reach [OF assms] writes_ok_done by (auto simp: writes_inv_def split: if_splits)
  then show ?thesis by (auto simp: writes_done_def Let_def take_map [symmetric] take_is_prefix)
qed

section \<open>Every promise is resolved once\<close>

definition pending :: "afd \<Rightarrow> nat list" where
  "pending a = map rc_promise (af_read_commands a) @ map bb_promise (af_write_info a)"

definition promises_ok :: "afd \<Rightarrow> bool" where
  "promises_ok a \<longleftrightarrow> mset (resolved (af_log a)) + mset (pending a) = mset [0..<af_next_promise a]"

lemma promises_same:
  assumes "promises_ok a" and "resolved (af_log a') = resolved (af_log a)" "af_read_commands a' = af_read_commands a"
    "map bb_promise (af_write_info a') = map bb_promise (af_write_info a)" "af_next_promise a' = af_next_promise a"
  shows "promises_ok a'"
  using assms(1) unfolding promises_ok_def pending_def assms(2-) .

lemma promises_read:
  assumes "promises_ok a" and "af_read_commands a = c # cs" and "af_read_commands b = c # cs"
    "af_write_info b = af_write_info a" "af_log b = af_log a" "af_next_promise b = af_next_promise a"
  shows "promises_ok (finish_read err d b)"
  using assms by (simp add: promises_ok_def pending_def)

lemma promises_write:
  assumes "promises_ok a" and "af_write_info a = w # ws" and "af_write_info b = w' # ws" "bb_promise w' = bb_promise w"
    "af_read_commands b = af_read_commands a" "af_log b = af_log a" "af_next_promise b = af_next_promise a"
  shows "promises_ok (finish_write ok b)"
  using assms by (simp add: promises_ok_def pending_def)

lemma promises_new:
  assumes "promises_ok a" and "af_next_promise a' = af_next_promise a + 1"
    and "mset (resolved (af_log a')) + mset (pending a') = mset (resolved (af_log a)) + mset (pending a) + {#af_next_promise a#}"
  shows "promises_ok a'"
  using assms by (simp add: promises_ok_def)

lemma promises_performed:
  assumes "promises_ok a" and "perform_write env a s = Some (ok, a', s')"
  shows "promises_ok a'"
  using perform_write_frame [OF assms(2)] by (auto intro: promises_same [OF assms(1)])

lemma promises_put:
  assumes "put_data env data layers a s = Some (new, a', s')" and "promises_ok a"
  shows "promises_ok a'"
  using assms(1)
proof (cases rule: put_data_cases)
  case refused
  then show ?thesis by (intro promises_new [OF assms(2)]) (simp_all add: pending_def)
next
  case (queued bytes a2)
  then show ?thesis by (intro promises_new [OF assms(2)]) (simp_all add: pending_def)
next
  case (tried bytes s1 a2 ok)
  have "promises_ok a2" using tried(2) by (intro promises_new [OF assms(2)]) (simp_all add: pending_def)
  then show ?thesis using promises_performed tried(4) by blast
qed

lemma promises_add_read:
  assumes "promises_ok a"
  shows "promises_ok (snd (add_read kind a))"
  by (cases rule: add_read_cases [of a kind]) (simp_all add: promises_new [OF assms] pending_def)

lemma promises_close:
  assumes "close_afd env imm a s = Some (new, a', s')" and "promises_ok a"
  shows "promises_ok a'"
  using assms(1)
proof (cases rule: close_afd_cases)
  case nothing
  then show ?thesis using assms(2) by blast
qed (auto intro: promises_same [OF assms(2)])

lemma promises_call:
  assumes "afd_call env c a s = Some (new, a', s')" and "promises_ok a"
  shows "promises_ok a'"
proof (cases c)
  case (ReadUntil d)
  then obtain r where r: "read_until d a = Some r" "a' = snd r" using assms(1) by auto
  from r(1) obtain kind where "r = add_read kind a" by (rule read_until_cases)
  then show ?thesis using r(2) promises_add_read [OF assms(2)] by simp
next
  case (Write d)
  then show ?thesis using promises_put assms by simp
next
  case (Close imm)
  then show ?thesis using promises_close assms by simp
qed (use assms(1) promises_add_read [OF assms(2)] in auto)

lemma promises_turn:
  assumes "read_turn cl a = Some (new, a')" and "promises_ok a"
  shows "promises_ok a'"
  using assms(1)
proof (cases rule: read_turn_cases)
  case idle
  then show ?thesis using assms(2) by simp
next
  case (any c cs w)
  show ?thesis unfolding any(6) by (rule promises_read [OF assms(2) any(1)]) (simp_all add: any(1))
next
  case (enough c cs w n)
  show ?thesis unfolding enough(7) by (rule promises_read [OF assms(2) enough(1)]) (simp_all add: enough(1))
next
  case (found c cs w delim T part m used)
  show ?thesis unfolding found(9) by (rule promises_read [OF assms(2) found(1)]) (simp_all add: found(1))
next
  case (more c cs w delim T part m off' m')
  show ?thesis unfolding more(8) by (rule promises_same [OF assms(2)]) simp_all
qed

lemma promises_ack:
  assumes "promises_ok a"
  shows "promises_ok (snd (ack_turn cl n w a))"
proof (cases "af_write_info a")
  case Nil
  then show ?thesis using assms by simp
next
  case (Cons b bs)
  have "promises_ok (finish_write True (a\<lparr>af_write_info := b\<lparr>bb_sent := bb_length b\<rparr> # bs\<rparr>))"
    by (rule promises_write [OF assms Cons, where w' = "b\<lparr>bb_sent := bb_length b\<rparr>"]) simp_all
  moreover have "promises_ok (a\<lparr>af_write_info := b\<lparr>bb_sent := bb_sent b + n\<rparr> # bs\<rparr>)"
    by (rule promises_same [OF assms]) (simp_all add: Cons)
  ultimately show ?thesis using assms Cons by (simp add: ack_turn_def Let_def)
qed

lemma step_promises:
  assumes "afd_step env cl t (a, s) = Some (new, a', s')" and "promises_ok a"
  shows "promises_ok a'"
proof (cases t)
  case TLoop
  then have "read_turn cl a = Some (new, a')" using assms(1) by auto
  then show ?thesis using promises_turn assms(2) by blast
next
  case (TFill data cycle)
  then show ?thesis using assms(1) by (auto simp: fill_turn_def intro: promises_same [OF assms(2)])
next
  case (TTail cycle)
  then show ?thesis using assms(1) by (auto simp: tail_turn_def intro: promises_same [OF assms(2)])
next
  case (TSslRead decoded want arr cycle)
  then show ?thesis using assms by (auto dest!: ssl_turns_frame(1))
next
  case (TSslFlush decoded want r arr cycle)
  then show ?thesis using assms by (auto dest!: ssl_turns_frame(2))
next
  case (TAck n w)
  then show ?thesis using assms promises_ack by auto
next
  case (TWriteNext w)
  then have "write_next env w a s = Some (new, a', s')" using assms by simp
  then show ?thesis
  proof (cases rule: write_next_cases)
    case stop
    then show ?thesis using assms(2) by blast
  next
    case (failed ok)
    then show ?thesis using promises_performed assms(2) by blast
  next
    case (sent ok)
    then show ?thesis using promises_performed assms(2) by blast
  qed
next
  case (TCall c)
  then show ?thesis using promises_call assms by simp
next
  case (TPut data layers)
  then show ?thesis using promises_put assms by simp
next
  case TFailReads
  show ?thesis
  proof (cases "af_read_commands a")
    case Nil
    then show ?thesis using assms TFailReads by auto
  next
    case (Cons c cs)
    have "promises_ok (finish_read True [] a)" by (rule promises_read [OF assms(2) Cons Cons]) simp_all
    then show ?thesis using assms TFailReads Cons by auto
  qed
next
  case TFailWrites
  show ?thesis
  proof (cases "af_write_info a")
    case Nil
    then show ?thesis using assms TFailWrites by auto
  next
    case (Cons b bs)
    have "promises_ok (finish_write False a)" by (rule promises_write [OF assms(2) Cons Cons]) simp_all
    then show ?thesis using assms TFailWrites Cons by auto
  qed
next
  case TDestroy
  then have "destroy_afd env a s = Some (new, a', s')" using assms by simp
  then obtain bio st s1 where c: "close_afd env False (a\<lparr>af_ssl_bio := bio, af_ssl_status := st\<rparr>) s1 = Some (new, a', s')"
    by (rule destroy_afd_cases)
  have "promises_ok (a\<lparr>af_ssl_bio := bio, af_ssl_status := st\<rparr>)" by (rule promises_same [OF assms(2)]) simp_all
  then show ?thesis using promises_close c by blast
qed (use assms(1) in \<open>auto split: if_splits option.splits intro: promises_same [OF assms(2)]\<close>)

lemma promises_reach:
  assumes "afd_reach env cl ok a"
  shows "ctl [] a \<and> promises_ok a"
  using assms
proof (rule afd_reach_invariant)
  show "ctl [] (fresh_afd elfd f ty) \<and> promises_ok (fresh_afd elfd f ty)" for elfd f ty
    using ctl_fresh [of elfd f ty] by (simp add: promises_ok_def pending_def) (simp add: fresh_afd_def)
  show "ctl [entry_task e] (entry_state e a) \<and> promises_ok (entry_state e a)" if "ctl [] a \<and> promises_ok a" for a e
    using that ctl_entry [of a e] by (auto simp: entry_state_def intro: promises_same)
  show "ctl (new @ rest) a' \<and> promises_ok a'"
    if "ctl (t # rest) a \<and> promises_ok a" "afd_step env cl t (a, s) = Some (new, a', s')" for t rest a s new a' s'
    using that step_ctl step_promises by blast
qed

text \<open>
  C16. For every client and every system, no promise is resolved twice, every promise that was given out is
  either resolved or waits in a queue, and when the descriptor is closed none waits any more.
\<close>

theorem promises_once:
  assumes "afd_reach env cl ok a"
  shows "distinct (resolved (af_log a) @ pending a) \<and>
    set (resolved (af_log a) @ pending a) = {p. p < af_next_promise a} \<and>
    (af_closed a = CsClosed \<longrightarrow> pending a = [])"
proof -
  have inv: "ctl [] a" "promises_ok a" using promises_reach [OF assms] by auto
  have perm: "mset (resolved (af_log a) @ pending a) = mset [0..<af_next_promise a]"
    using inv(2) by (simp add: promises_ok_def)
  have "distinct (resolved (af_log a) @ pending a)"
    using perm by (metis distinct_upt mset_eq_imp_distinct_iff)
  moreover have "set (resolved (af_log a) @ pending a) = {p. p < af_next_promise a}"
    using mset_eq_setD [OF perm] by auto
  moreover have "pending a = []" if "af_closed a = CsClosed"
  proof -
    have "\<not> failing [] a" by (auto simp: failing_def fail_tasks_def numeral_2_eq_2 le_Suc_eq)
    then have "settled a" using inv(1) that by (simp add: ctl_def)
    then show ?thesis by (simp add: settled_def pending_def)
  qed
  ultimately show ?thesis by simp
qed

end
