(* ===== verification/Afd_Cases.thy ===== *)
theory Afd_Cases
  imports Afd_Reads Afd_Writes
begin

text \<open>
  Single runs of a descriptor: what a read command gets when its data is there, and the situations in
  which a descriptor stops working.
\<close>

section \<open>Runs from outside\<close>

primrec afd_entries :: "env \<Rightarrow> client \<Rightarrow> entry list \<Rightarrow> afd \<Rightarrow> server \<Rightarrow> afd_state option" where
  "afd_entries env cl [] a s = Some (a, s)"
| "afd_entries env cl (e # es) a s =
     Option.bind (afd_run env cl [entry_task e] (entry_state e a) s) (\<lambda>(a1, s1). afd_entries env cl es a1 s1)"

lemma afd_entries_reach:
  "afd_entries env cl es a s = Some (a', s') \<Longrightarrow> afd_reach env cl ok a \<Longrightarrow> \<forall>e\<in>set es. ok e \<Longrightarrow> afd_reach env cl ok a'"
  by (induction es arbitrary: a s) (auto simp: bind_eq_Some_conv dest: afd_reach.entry)

lemma afd_run_Nil [simp]: "afd_run env cl [] a s = Some (a, s)"
  by (subst afd_run.simps) simp

lemma afd_run_Cons:
  "afd_run env cl (t # ts) a s =
     Option.bind (afd_step env cl t (a, s)) (\<lambda>r. afd_run env cl (fst r @ ts) (fst (snd r)) (snd (snd r)))"
  by (subst afd_run.simps) simp

text \<open>A client that waits for nothing it is told.\<close>

definition idle_client :: client where
  "idle_client = \<lparr>cl_alive = (\<lambda>l. False), cl_resume = (\<lambda>l. []), cl_on_empty = (\<lambda>l. None)\<rparr>"

lemma idle_client_simps [simp]:
  "cl_on_empty idle_client l = None" "resume idle_client a = []" "client_ok idle_client"
  by (simp_all add: idle_client_def resume_def client_ok_def)

section \<open>Runs of the three invariants\<close>

lemmas run_simps = afd_run_Cons entry_task_def entry_state_def is_closed_def ssl_ready_def add_event_def fresh_afd_def

lemmas read_run_simps = run_simps add_read_def fill_turn_def read_turn_def finish_read_def tail_turn_def

lemmas write_run_simps = run_simps put_data_def encode_layers_def perform_write_def ack_turn_def finish_write_def write_next_def

lemma read_run:
  "\<exists>a. afd_entries (const_env 0) idle_client [EntryCall ReadAny, EntryData [1, 2, 3], EntryData [4]] (fresh_afd 5 9 S80_FD_SOCKET)
      idle_server = Some (a, idle_server) \<and> af_closed a = CsOpen \<and>
    af_log a = [EvArrived [1, 2, 3], EvRead \<lparr>rc_promise = 0, rc_kind = RcAny\<rparr> False [1, 2, 3], EvArrived [4]]"
  by (simp add: read_run_simps Let_def)

lemma reads_conserve_witness:
  "\<exists>a. afd_entries (const_env 0) idle_client [EntryCall ReadAny, EntryData [1, 2, 3], EntryData [4]] (fresh_afd 5 9 S80_FD_SOCKET)
      idle_server = Some (a, idle_server) \<and>
    (if af_closed a = CsClosed then prefix (handed_out (af_log a)) (arrived (af_log a))
     else arrived (af_log a) = handed_out (af_log a) @ window a)"
proof -
  obtain a where run: "afd_entries (const_env 0) idle_client [EntryCall ReadAny, EntryData [1, 2, 3], EntryData [4]]
      (fresh_afd 5 9 S80_FD_SOCKET) idle_server = Some (a, idle_server)" and
    log: "af_log a = [EvArrived [1, 2, 3], EvRead \<lparr>rc_promise = 0, rc_kind = RcAny\<rparr> False [1, 2, 3], EvArrived [4]]"
    using read_run by blast
  have "afd_reach (const_env 0) idle_client entry_ok a"
    by (rule afd_entries_reach [OF run afd_reach.start]) (simp add: entry_ok_def call_ok_def)
  moreover have "length (arrived (af_log a)) < 2 ^ 31" by (simp add: log arrived_def)
  ultimately show ?thesis using run reads_conserve [of "const_env 0" idle_client a] idle_client_simps(3) by blast
qed

text \<open>A system that takes one byte a time.\<close>

definition byte_env :: env where
  "byte_env = (const_env 0)\<lparr>answers := \<lambda>h. (answers (const_env 0) h)\<lparr>a_ret := case last h of AWrite f d \<Rightarrow> (if d = [] then 0 else 1) | _ \<Rightarrow> 0\<rparr>\<rparr>"

lemma byte_env_writes: "kernel_writes byte_env"
  by (simp add: kernel_writes_def byte_env_def Suc_le_eq)

lemma write_run:
  "\<exists>a s'. afd_entries byte_env idle_client [EntryCall (Write [1, 2]), EntryCall (Write [3]), EntryWritable, EntryCall ReadAny]
      (fresh_afd 5 9 S80_FD_SOCKET) idle_server = Some (a, s') \<and> af_closed a = CsOpen \<and> af_next_promise a = 3 \<and>
    af_log a = [EvQueued 0 [1, 2], EvSent [1], EvQueued 1 [3], EvSent [2], EvWritten \<lparr>bb_promise = 0, bb_length = 2, bb_sent = 2\<rparr> True]"
  by (simp add: write_run_simps add_read_def s80_write_def act_def byte_env_def size_of_ret_def int_of_size_def c_int_def Let_def)

lemma writes_in_order_witness:
  "\<exists>a s'. afd_entries byte_env idle_client [EntryCall (Write [1, 2]), EntryCall (Write [3]), EntryWritable, EntryCall ReadAny]
      (fresh_afd 5 9 S80_FD_SOCKET) idle_server = Some (a, s') \<and>
    prefix (map bb_promise (written (af_log a))) (map fst (queued (af_log a))) \<and>
    prefix (concat (map snd (take (length (written (af_log a))) (queued (af_log a))))) (sent (af_log a)) \<and>
    prefix (sent (af_log a)) (concat (map snd (queued (af_log a))))"
proof -
  obtain a s' where run: "afd_entries byte_env idle_client [EntryCall (Write [1, 2]), EntryCall (Write [3]), EntryWritable, EntryCall ReadAny]
      (fresh_afd 5 9 S80_FD_SOCKET) idle_server = Some (a, s')"
    using write_run by blast
  have "afd_reach byte_env idle_client (\<lambda>e. True) a" by (rule afd_entries_reach [OF run afd_reach.start]) simp
  then show ?thesis using run writes_in_order [OF _ byte_env_writes] by blast
qed

lemma promises_once_witness:
  "\<exists>a s'. afd_entries byte_env idle_client [EntryCall (Write [1, 2]), EntryCall (Write [3]), EntryWritable, EntryCall ReadAny]
      (fresh_afd 5 9 S80_FD_SOCKET) idle_server = Some (a, s') \<and>
    distinct (resolved (af_log a) @ pending a) \<and> set (resolved (af_log a) @ pending a) = {p. p < af_next_promise a}"
proof -
  obtain a s' where run: "afd_entries byte_env idle_client [EntryCall (Write [1, 2]), EntryCall (Write [3]), EntryWritable, EntryCall ReadAny]
      (fresh_afd 5 9 S80_FD_SOCKET) idle_server = Some (a, s')"
    using write_run by blast
  have "afd_reach byte_env idle_client (\<lambda>e. True) a" by (rule afd_entries_reach [OF run afd_reach.start]) simp
  then show ?thesis using run promises_once by blast
qed

section \<open>A delimiter that arrives in three pieces\<close>

definition crlf2 :: "byte list" where
  "crlf2 = [13, 10, 13, 10]"

lemma first_agreement_unique: "first_agreement p h off s \<Longrightarrow> first_agreement p h off s' \<Longrightarrow> s = s'"
  unfolding first_agreement_def by (metis linorder_neqE_nat)

lemma first_agreement_eq: "first_agreement p h off s \<Longrightarrow> first_agreement p h off s' \<longleftrightarrow> s' = s"
  using first_agreement_unique by metis

lemma first_agreement_bounded:
  "first_agreement p h off s \<longleftrightarrow> off \<le> s \<and> s \<le> length h \<and> agrees p h s (length h) \<and>
     (\<forall>i < s. off \<le> i \<longrightarrow> \<not> agrees p h i (length h))"
  by (auto simp: first_agreement_def)

lemma agreements:
  assumes "r \<noteq> n"
  shows "first_agreement [r, n, r, n] [r] 0 0" "first_agreement [r, n, r, n] [r, n, r] 1 2"
    "first_agreement [r, n, r, n] [r, n, r, n] 3 4" "first_agreement [r, n, r, n] [r, n, r, n] 0 0"
  using assms by (simp_all add: first_agreement_bounded agrees_def All_less_Suc eval_nat_numeral)

lemma crlf2_agreements:
  "first_agreement crlf2 [13] 0 0" "first_agreement crlf2 [13, 10, 13] 1 2" "first_agreement crlf2 [13, 10, 13, 10] 3 4"
  "first_agreement crlf2 crlf2 0 0"
  unfolding crlf2_def by (rule agreements, simp)+

lemma crlf2_inv:
  "delim_inv [13, 10, 13] crlf2 1 1" "delim_inv [13, 10, 13, 10] crlf2 3 1"
  by (simp_all add: delim_inv_def crlf2_def)

lemma crlf2_searches:
  assumes T: "table_ok crlf2 T (length crlf2)" "length crlf2 \<le> length T"
  shows "\<exists>part. until_search [13] crlf2 T 0 0 = Some (part, 0) \<and> until_result 1 4 0 0 part = Inr (1, 1)"
    "\<exists>part. until_search [13, 10, 13] crlf2 T 1 1 = Some (part, 0) \<and> until_result 3 4 1 0 part = Inr (3, 1)"
    "\<exists>part. until_search [13, 10, 13, 10] crlf2 T 3 1 = Some (part, 0) \<and> until_result 4 4 3 0 part = Inr (4, 0)"
    "\<exists>part. until_search crlf2 crlf2 T 0 0 = Some (part, 0) \<and> until_result 4 4 0 0 part = Inl 4"
proof -
  have len: "length crlf2 = 4" "length [13::byte] = 1" "length [13::byte, 10, 13] = 3" "length [13::byte, 10, 13, 10] = 4"
    and ne: "crlf2 \<noteq> []" by (simp_all add: crlf2_def)
  have small: "length crlf2 < 2 ^ 31" by (simp add: len)
  show "\<exists>part. until_search [13] crlf2 T 0 0 = Some (part, 0) \<and> until_result 1 4 0 0 part = Inr (1, 1)"
  proof -
    obtain part s where p: "until_search [13] crlf2 T 0 0 = Some (part, 0)" "first_agreement crlf2 [13] 0 s"
      "until_result (length [13::byte]) (length crlf2) 0 0 part =
        (if s + length crlf2 \<le> length [13::byte] then Inl (s + length crlf2) else Inr (int (length [13::byte]), int (length [13::byte] - s)))"
      using until_fresh [of "[13]" crlf2 T] ne small T by auto
    have "s = 0" by (rule first_agreement_unique [OF p(2) crlf2_agreements(1)])
    then show ?thesis using p(1,3) unfolding len by simp
  qed
  show "\<exists>part. until_search [13, 10, 13] crlf2 T 1 1 = Some (part, 0) \<and> until_result 3 4 1 0 part = Inr (3, 1)"
  proof -
    obtain part s where p: "until_search [13, 10, 13] crlf2 T (int 1) (int 1) = Some (part, 0)" "first_agreement crlf2 [13, 10, 13] 1 s"
      "until_result (length [13::byte, 10, 13]) (length crlf2) (int 1) 0 part =
        (if s + length crlf2 \<le> length [13::byte, 10, 13] then Inl (s + length crlf2)
         else Inr (int (length [13::byte, 10, 13]), int (length [13::byte, 10, 13] - s)))"
      using until_forgets [OF crlf2_inv(1) _ _ _ small T] by (auto simp: crlf2_def)
    have "s = 2" by (rule first_agreement_unique [OF p(2) crlf2_agreements(2)])
    then show ?thesis using p(1,3) unfolding len by simp
  qed
  show "\<exists>part. until_search [13, 10, 13, 10] crlf2 T 3 1 = Some (part, 0) \<and> until_result 4 4 3 0 part = Inr (4, 0)"
  proof -
    obtain part s where p: "until_search [13, 10, 13, 10] crlf2 T (int 3) (int 1) = Some (part, 0)" "first_agreement crlf2 [13, 10, 13, 10] 3 s"
      "until_result (length [13::byte, 10, 13, 10]) (length crlf2) (int 3) 0 part =
        (if s + length crlf2 \<le> length [13::byte, 10, 13, 10] then Inl (s + length crlf2)
         else Inr (int (length [13::byte, 10, 13, 10]), int (length [13::byte, 10, 13, 10] - s)))"
      using until_forgets [OF crlf2_inv(2) _ _ _ small T] by (auto simp: crlf2_def)
    have "s = 4" by (rule first_agreement_unique [OF p(2) crlf2_agreements(3)])
    then show ?thesis using p(1,3) unfolding len by simp
  qed
  show "\<exists>part. until_search crlf2 crlf2 T 0 0 = Some (part, 0) \<and> until_result 4 4 0 0 part = Inl 4"
  proof -
    obtain part s where p: "until_search crlf2 crlf2 T 0 0 = Some (part, 0)" "first_agreement crlf2 crlf2 0 s"
      "until_result (length crlf2) (length crlf2) 0 0 part =
        (if s + length crlf2 \<le> length crlf2 then Inl (s + length crlf2) else Inr (int (length crlf2), int (length crlf2 - s)))"
      using until_fresh [of crlf2 crlf2 T] ne small T by auto
    have "s = 0" by (rule first_agreement_unique [OF p(2) crlf2_agreements(4)])
    then show ?thesis using p(1,3) unfolding len by simp
  qed
qed

text \<open>One turn of the inner loop for a command \<open>until\<close> that goes on, and for one that is done.\<close>

lemma until_turn_more:
  assumes "af_read_commands a = c # cs" "rc_kind c = RcUntil d T" "af_read_offset a \<le> length (af_read_buffer a)"
    "window a = w" "w \<noteq> []"
    "until_search w d T (af_delim_offset a) (af_delim_match a) = Some (part, m)"
    "until_result (length w) (length d) (af_delim_offset a) m part = Inr (off', m')"
  shows "read_turn cl a = Some ([], a\<lparr>af_delim_offset := off', af_delim_match := m'\<rparr>)"
  using assms by (simp add: read_turn_def window_def Let_def)

text \<open>Data that arrives and does not finish the command at the head.\<close>

lemma data_not_enough:
  assumes "af_closed a = CsOpen" "\<not> ssl_ready a" and "af_read_commands a = c # cs" "rc_kind c = RcUntil d T"
    "af_read_offset a = 0" "data \<noteq> []" "w = af_read_buffer a @ data"
    "until_search w d T (af_delim_offset a) (af_delim_match a) = Some (part, m)"
    "length w = n" "length d = k"
    "until_result n k (af_delim_offset a) m part = Inr (off', m')"
  shows "afd_run env cl [TData data False] a s =
    Some (a\<lparr>af_read_buffer := w, af_delim_offset := off', af_delim_match := m', af_log := af_log a @ [EvArrived data]\<rparr>, s)"
proof -
  let ?a1 = "add_event (EvArrived data) (a\<lparr>af_read_buffer := af_read_buffer a @ data\<rparr>)"
  let ?a2 = "?a1\<lparr>af_delim_offset := off', af_delim_match := m'\<rparr>"
  have fill: "fill_turn data False a = ([TLoop, TTail False], ?a1)" using assms(5,6) by (simp add: fill_turn_def)
  have loop: "read_turn cl ?a1 = Some ([], ?a2)"
    by (rule until_turn_more [of _ c cs d T w part m]) (use assms in \<open>simp_all add: window_def\<close>)
  have tail: "tail_turn False ?a2 = ([TData [] False], ?a2)" using assms(5,6) by (simp add: tail_turn_def)
  have idle: "fill_turn [] False ?a2 = ([], ?a2)" by (simp add: fill_turn_def)
  have state: "?a2 = a\<lparr>af_read_buffer := w, af_delim_offset := off', af_delim_match := m', af_log := af_log a @ [EvArrived data]\<rparr>"
    using assms(7) by (simp add: add_event_def)
  have "afd_run env cl [TData data False] a s = Some (?a2, s)"
    using assms(1-3) fill loop tail idle by (simp add: afd_run_Cons is_closed_def ssl_ready_def)
  then show ?thesis unfolding state .
qed

lemma afd_run_no_data: "afd_run env cl [TData [] False] a s = Some (a, s)"
  if "cl_on_empty cl (af_log a) = None"
  using that by (simp add: afd_run_Cons fill_turn_def)

text \<open>Data that finishes the only command, on a descriptor whose client does nothing more.\<close>

lemma data_enough:
  assumes "af_closed a = CsOpen" "\<not> ssl_ready a" and "af_read_commands a = [c]" "rc_kind c = RcUntil d T"
    "af_read_offset a = 0" "af_read_buffer a = []" "data \<noteq> []" "length data = n" "length d = k"
    "until_search data d T (af_delim_offset a) (af_delim_match a) = Some (part, m)"
    "until_result n k (af_delim_offset a) m part = Inl used" "k \<le> used" "used \<le> n" "0 < used" "n < 2 ^ 31"
  shows "afd_run env idle_client [TData data False] a s =
    Some (a\<lparr>af_read_buffer := if used = n then [] else data, af_read_offset := if used = n then 0 else used,
        af_read_commands := [], af_delim_offset := 0, af_delim_match := 0,
        af_log := af_log a @ [EvArrived data, EvRead c False (take (used - k) data)]\<rparr>, s)"
proof -
  let ?b = "add_event (EvArrived data) (a\<lparr>af_read_buffer := data\<rparr>)"
  let ?b' = "finish_read False (take (used - k) data) (?b\<lparr>af_delim_offset := 0, af_delim_match := 0, af_read_offset := used\<rparr>)"
  let ?e = "if used = n then ?b'\<lparr>af_read_offset := 0, af_read_buffer := []\<rparr> else ?b'"
  have fill: "fill_turn data False a = ([TLoop, TTail False], ?b)" using assms(5-7) by (simp add: fill_turn_def)
  have sub: "int used - int k = int (used - k)" using assms(12) by simp
  have small: "used - k < 2 ^ 64" using assms(13,15) by simp
  have u: "u64 (int used - int k) = used - k" unfolding sub by (rule u64_nat [OF small])
  have b: "af_read_commands ?b = [c]" "af_read_offset ?b = 0" "af_read_buffer ?b = data" "af_delim_offset ?b = af_delim_offset a"
    "af_delim_match ?b = af_delim_match a"
    using assms(3,5) by simp_all
  have loop: "read_turn idle_client ?b = Some ([TLoop], ?b')"
    unfolding read_turn_def b Let_def using assms(4,7,10,11,13) u
    by (simp add: assms(8) [symmetric] assms(9) [symmetric])
  have done_: "read_turn idle_client ?b' = Some ([], ?b')" using assms(3) by (simp add: read_turn_def finish_read_def)
  have tail: "tail_turn False ?b' = (if used = n then [] else [TData [] False], ?e)"
    using assms(7,8,14) by (auto simp: tail_turn_def finish_read_def)
  have quiet_tail: "afd_run env idle_client (if used = n then [] else [TData [] False]) ?e s = Some (?e, s)"
    by (simp add: afd_run_no_data)
  have "afd_run env idle_client [TData data False] a s = Some (?e, s)"
    using assms(1-3) fill loop done_ tail quiet_tail by (simp add: afd_run_Cons is_closed_def ssl_ready_def)
  moreover have "?e = a\<lparr>af_read_buffer := if used = n then [] else data, af_read_offset := if used = n then 0 else used,
        af_read_commands := [], af_delim_offset := 0, af_delim_match := 0,
        af_log := af_log a @ [EvArrived data, EvRead c False (take (used - k) data)]\<rparr>"
    using assms(3) by (simp add: finish_read_def add_event_def)
  ultimately show ?thesis by simp
qed

section \<open>A delimiter in the first piece\<close>

lemma agrees_occurs:
  assumes "agrees d w i (length w)" and "i + length d \<le> length w"
  shows "take (length d) (drop i w) = d"
proof (rule nth_equalityI)
  show "length (take (length d) (drop i w)) = length d" using assms(2) by simp
  fix x assume "x < length (take (length d) (drop i w))"
  then have "x < length d" by simp
  then show "take (length d) (drop i w) ! x = d ! x" using assms agrees_nth [of d w i x] by simp
qed

lemma first_occurrence:
  assumes "\<forall>i < length pre. take (length d) (drop i (pre @ d @ post)) \<noteq> d"
  shows "first_agreement d (pre @ d @ post) 0 (length pre)"
proof -
  have "\<not> agrees d (pre @ d @ post) i (length (pre @ d @ post))" if "i < length pre" for i
    using agrees_occurs [of d "pre @ d @ post" i] assms that by auto
  moreover have "agrees d (pre @ d @ post) (length pre) (length (pre @ d @ post))"
    by (auto simp: agrees_def nth_append)
  ultimately show ?thesis unfolding first_agreement_bounded by simp
qed

lemma until_call:
  assumes "d \<noteq> []" and "length d < 2 ^ 31"
  obtains T where "table_ok d T (length d)" "length d \<le> length T"
    "afd_run env cl [TCall (ReadUntil d)] (fresh_afd elfd f ty) s =
      Some ((fresh_afd elfd f ty)\<lparr>af_read_commands := [\<lparr>rc_promise = 0, rc_kind = RcUntil d T\<rparr>], af_next_promise := 1\<rparr>, s)"
proof -
  obtain T where T: "build_kmp d (replicate (length d + 2) 0) = Some T" "table_ok d T (length d)" "length d \<le> length T"
    using build_kmp_result [of d "replicate (length d + 2) 0"] assms by auto
  show ?thesis
    by (rule that [OF T(2,3)]) (use T(1) in \<open>simp add: afd_run_Cons read_until_def is_closed_def add_read_def Let_def\<close>,
      simp add: fresh_afd_def)
qed

text \<open>
  A command that reads until a delimiter, on a descriptor where the delimiter lies in the first chunk,
  is resolved with exactly the text before the first occurrence, and what lies behind the delimiter
  stays for the next command.
\<close>

theorem until_first_chunk:
  assumes "d \<noteq> []" and "length (pre @ d @ post) < 2 ^ 31" and "\<forall>i < length pre. take (length d) (drop i (pre @ d @ post)) \<noteq> d"
  shows "\<exists>T a. afd_entries env idle_client [EntryCall (ReadUntil d), EntryData (pre @ d @ post)] (fresh_afd elfd f ty) s = Some (a, s) \<and>
    af_log a = [EvArrived (pre @ d @ post), EvRead \<lparr>rc_promise = 0, rc_kind = RcUntil d T\<rparr> False pre] \<and>
    window a = post \<and> af_read_commands a = []"
proof -
  let ?w = "pre @ d @ post"
  have len: "length d < 2 ^ 31" "?w \<noteq> []" using assms(1,2) by auto
  obtain T where T: "table_ok d T (length d)" "length d \<le> length T" and
    call: "afd_run env idle_client [TCall (ReadUntil d)] (fresh_afd elfd f ty) s =
      Some ((fresh_afd elfd f ty)\<lparr>af_read_commands := [\<lparr>rc_promise = 0, rc_kind = RcUntil d T\<rparr>], af_next_promise := 1\<rparr>, s)"
    by (rule until_call [OF assms(1) len(1)])
  let ?c = "\<lparr>rc_promise = 0, rc_kind = RcUntil d T\<rparr>"
  let ?a0 = "(fresh_afd elfd f ty)\<lparr>af_read_commands := [?c], af_next_promise := 1\<rparr>"
  let ?used = "length pre + length d"
  obtain part s' where part: "until_search ?w d T 0 0 = Some (part, 0)" and first: "first_agreement d ?w 0 s'" and
    res: "until_result (length ?w) (length d) 0 0 part =
      (if s' + length d \<le> length ?w then Inl (s' + length d) else Inr (int (length ?w), int (length ?w - s')))"
    using until_fresh [OF len(2) assms(2,1) len(1) T] by blast
  have "s' = length pre" by (rule first_agreement_unique [OF first first_occurrence [OF assms(3)]])
  then have found: "until_result (length ?w) (length d) 0 0 part = Inl ?used" using res by simp
  have a0: "af_closed ?a0 = CsOpen" "\<not> ssl_ready ?a0" "af_read_commands ?a0 = [?c]" "rc_kind ?c = RcUntil d T" "af_read_offset ?a0 = 0"
    "af_read_buffer ?a0 = []" "af_delim_offset ?a0 = 0" "af_delim_match ?a0 = 0" "af_log ?a0 = []"
    by (simp_all add: fresh_afd_def ssl_ready_def)
  have "afd_run env idle_client [TData ?w False] ?a0 s =
      Some (?a0\<lparr>af_read_buffer := if ?used = length ?w then [] else ?w, af_read_offset := if ?used = length ?w then 0 else ?used,
          af_read_commands := [], af_delim_offset := 0, af_delim_match := 0,
          af_log := af_log ?a0 @ [EvArrived ?w, EvRead ?c False (take (?used - length d) ?w)]\<rparr>, s)"
    by (rule data_enough [OF a0(1-6) len(2) refl refl _ _ _ _ _ assms(2)]) (use part found assms(1) a0(7,8) in simp_all)
  moreover define fin where "fin = ?a0\<lparr>af_read_buffer := if ?used = length ?w then [] else ?w,
      af_read_offset := if ?used = length ?w then 0 else ?used, af_read_commands := [], af_delim_offset := 0, af_delim_match := 0,
      af_log := [EvArrived ?w, EvRead ?c False pre]\<rparr>"
  ultimately have "afd_entries env idle_client [EntryCall (ReadUntil d), EntryData ?w] (fresh_afd elfd f ty) s = Some (fin, s)"
    using call a0(9) by (simp add: entry_task_def entry_state_def)
  moreover have "window fin = post" "af_log fin = [EvArrived ?w, EvRead ?c False pre]" "af_read_commands fin = []"
    by (auto simp: fin_def window_def)
  ultimately show ?thesis by blast
qed

lemma until_first_chunk_witness:
  "\<exists>T a. afd_entries (const_env 0) idle_client [EntryCall (ReadUntil [13, 10]), EntryData [71, 13, 10, 88]] (fresh_afd 5 9 S80_FD_SOCKET)
      idle_server = Some (a, idle_server) \<and>
    af_log a = [EvArrived [71, 13, 10, 88], EvRead \<lparr>rc_promise = 0, rc_kind = RcUntil [13, 10] T\<rparr> False [71]] \<and>
    window a = [88] \<and> af_read_commands a = []"
  using until_first_chunk [of "[13, 10]" "[71]" "[88]" "const_env 0" 5 9 S80_FD_SOCKET idle_server] by simp

section \<open>Writes that end a descriptor\<close>

text \<open>A descriptor that is marked as closing without having been closed: no entry gets it out of there.\<close>

definition dead :: "afd \<Rightarrow> bool" where
  "dead a \<longleftrightarrow> af_closed a = CsClosing \<and> af_ssl_bio a = None \<and> \<not> ssl_ready a"

lemma dead_add_event [simp]: "dead (add_event e a) = dead a" "dead (a\<lparr>af_next_promise := n\<rparr>) = dead a"
  by (simp_all add: dead_def ssl_ready_def add_event_def)

lemma dead_add_read: "dead a \<Longrightarrow> fst (add_read k a) = [] \<and> dead (snd (add_read k a))"
  by (simp add: add_read_def Let_def) (simp add: dead_def is_closed_def)

lemma dead_call:
  assumes "dead a"
  shows "\<exists>a'. afd_call env c a s = Some ([], a', s) \<and> dead a'"
proof -
  have closed: "is_closed a" "af_closed a \<noteq> CsOpen" "\<not> ssl_ready a" using assms by (auto simp: dead_def is_closed_def)
  show ?thesis
    using assms closed dead_add_read [OF assms]
    by (cases c) (simp_all add: read_until_def put_data_def encode_layers_def close_afd_def Let_def split_beta)
qed

lemma dead_entry:
  assumes "dead a" and "e \<noteq> EntryClosed"
  shows "\<exists>a'. afd_run env cl [entry_task e] (entry_state e a) s = Some (a', s) \<and> dead a'"
proof -
  have closed: "is_closed a" "\<not> ssl_ready a" "af_ssl_bio a = None" "af_closed a \<noteq> CsOpen"
    using assms(1) by (auto simp: dead_def is_closed_def)
  show ?thesis
  proof (cases e)
    case (EntryCall c)
    then show ?thesis using dead_call [OF assms(1), of env c s] by (auto simp: entry_task_def entry_state_def afd_run_Cons)
  qed (use assms closed in \<open>auto simp: entry_task_def entry_state_def afd_run_Cons destroy_afd_def close_afd_def\<close>)
qed

lemma dead_entries:
  "dead a \<Longrightarrow> EntryClosed \<notin> set es \<Longrightarrow> \<exists>a'. afd_entries env cl es a s = Some (a', s) \<and> dead a'"
proof (induction es arbitrary: a)
  case (Cons e es)
  obtain a1 where "afd_run env cl [entry_task e] (entry_state e a) s = Some (a1, s)" "dead a1"
    using dead_entry [OF Cons.prems(1), of e env cl s] Cons.prems(2) by auto
  then show ?case using Cons.IH [of a1] Cons.prems(2) by auto
qed simp

text \<open>The first write of a descriptor, by the result of the system call.\<close>

lemma first_write:
  assumes "length d < 2 ^ 31"
    and "r = a_ret (answers env (hist s @ [AWrite f d]))" "r = - 1 \<or> r = int (length d)"
  shows "s80_write env elfd f ty d 0 (length d) s = Some (r, log_act env (AWrite f d) s)"
proof -
  have neg: "size_of_ret (- 1) = 2 ^ 64 - 1" "int_of_size (2 ^ 64 - 1) = - 1" "\<not> 2 ^ 64 - 1 < length d"
    using assms(1) by (simp_all add: size_of_ret_def int_of_size_def)
  have pos: "size_of_ret (int (length d)) = length d" "int_of_size (length d) = int (length d)"
    using assms(1) to_int_nat [of "length d"] by (simp_all add: size_of_ret_def int_of_size_def to_int_def)
  show ?thesis
    using assms(2,3) neg pos by (auto simp: s80_write_def act_def log_act_def Let_def)
qed

text \<open>
  C34. A write that would block marks the descriptor as closing: from then on no data, no writable event,
  no call, not even closing or destroying it, writes anything or closes the descriptor; only a close of
  the event loop itself, as on a hang-up, still ends it.
\<close>

theorem would_block_kills:
  assumes "length d < 2 ^ 31" and "a_ret (answers env (hist s @ [AWrite f d])) = - 1" and "EntryClosed \<notin> set es"
  shows "\<exists>a s'. afd_entries env cl (EntryCall (Write d) # es) (fresh_afd elfd f ty) s = Some (a, s') \<and>
    since s s' = [AWrite f d] \<and> af_closed a = CsClosing"
proof -
  let ?s = "log_act env (AWrite f d) s"
  have w: "s80_write env elfd f ty d 0 (length d) s = Some (- 1, ?s)" by (rule first_write) (use assms(1,2) in simp_all)
  have "\<exists>a. afd_run env cl [TCall (Write d)] (fresh_afd elfd f ty) s = Some (a, ?s) \<and> dead a"
    using w by (simp add: afd_run_Cons put_data_def encode_layers_def perform_write_def ssl_ready_def is_closed_def
        fresh_afd_def add_event_def Let_def dead_def)
  then obtain a where a: "afd_run env cl [TCall (Write d)] (fresh_afd elfd f ty) s = Some (a, ?s)" "dead a" by blast
  obtain a' where "afd_entries env cl es a ?s = Some (a', ?s)" "dead a'" using dead_entries [OF a(2) assms(3)] by blast
  then show ?thesis using a(1) by (simp add: entry_task_def entry_state_def dead_def)
qed

text \<open>A descriptor with a promise in its queue only queues further writes.\<close>

definition stalled :: "nat \<Rightarrow> afd \<Rightarrow> bool" where
  "stalled n a \<longleftrightarrow> af_closed a = CsOpen \<and> \<not> ssl_ready a \<and> length (af_write_info a) = n \<and> 0 < n \<and>
     sent (af_log a) = [] \<and> resolved (af_log a) = []"

lemma stalled_write:
  assumes "stalled n a"
  shows "\<exists>a'. afd_run env cl [TCall (Write d)] a s = Some (a', s) \<and> stalled (Suc n) a'"
  using assms
  by (simp add: afd_run_Cons put_data_def encode_layers_def is_closed_def add_event_def Let_def stalled_def ssl_ready_def)

lemma stalled_writes:
  "stalled n a \<Longrightarrow> \<exists>a'. afd_entries env cl (map (\<lambda>d. EntryCall (Write d)) ds) a s = Some (a', s) \<and> stalled (n + length ds) a'"
proof (induction ds arbitrary: n a)
  case (Cons d ds)
  obtain a1 where "afd_run env cl [TCall (Write d)] a s = Some (a1, s)" "stalled (Suc n) a1" using stalled_write [OF Cons.prems] by blast
  then show ?case using Cons.IH [of "Suc n" a1] by (auto simp: entry_task_def entry_state_def)
qed simp

text \<open>
  A write of no bytes leaves a promise in the queue that nothing resolves and asks for no event, so
  all later writes are only queued: nothing of them is ever handed to the system.
\<close>

theorem empty_write_stalls:
  assumes "a_ret (answers env (hist s @ [AWrite f []])) = 0"
  shows "\<exists>a s'. afd_entries env cl (EntryCall (Write []) # map (\<lambda>d. EntryCall (Write d)) ds) (fresh_afd elfd f ty) s = Some (a, s') \<and>
    since s s' = [AWrite f []] \<and> sent (af_log a) = [] \<and> resolved (af_log a) = [] \<and> length (af_write_info a) = Suc (length ds)"
proof -
  let ?s = "log_act env (AWrite f []) s"
  have w: "s80_write env elfd f ty [] 0 (length ([] :: byte list)) s = Some (0, ?s)" by (rule first_write) (use assms in simp_all)
  have "\<exists>a. afd_run env cl [TCall (Write [])] (fresh_afd elfd f ty) s = Some (a, ?s) \<and> stalled 1 a"
    using w by (simp add: afd_run_Cons put_data_def encode_layers_def perform_write_def ssl_ready_def is_closed_def
        fresh_afd_def add_event_def Let_def stalled_def sent_def resolved_def)
  then obtain a where a: "afd_run env cl [TCall (Write [])] (fresh_afd elfd f ty) s = Some (a, ?s)" "stalled 1 a" by blast
  obtain a' where "afd_entries env cl (map (\<lambda>d. EntryCall (Write d)) ds) a ?s = Some (a', ?s)" "stalled (1 + length ds) a'"
    using stalled_writes [OF a(2)] by blast
  then show ?thesis using a(1) by (simp add: entry_task_def entry_state_def stalled_def)
qed

lemma would_block_kills_witness:
  "\<exists>a s'. afd_entries (const_env (- 1)) idle_client [EntryCall (Write [72, 105]), EntryData [1], EntryWritable, EntryCall (Close True)]
      (fresh_afd 5 9 S80_FD_SOCKET) idle_server = Some (a, s') \<and>
    since idle_server s' = [AWrite 9 [72, 105]] \<and> af_closed a = CsClosing"
  using would_block_kills [of "[72, 105]" "const_env (- 1)" idle_server 9
      "[EntryData [1], EntryWritable, EntryCall (Close True)]" idle_client 5 S80_FD_SOCKET] by simp

lemma empty_write_stalls_witness:
  "\<exists>a s'. afd_entries (const_env 0) idle_client [EntryCall (Write []), EntryCall (Write [72]), EntryCall (Write [105])]
      (fresh_afd 5 9 S80_FD_SOCKET) idle_server = Some (a, s') \<and>
    since idle_server s' = [AWrite 9 []] \<and> sent (af_log a) = [] \<and> resolved (af_log a) = [] \<and> length (af_write_info a) = 3"
  using empty_write_stalls [of "const_env 0" idle_server 9 idle_client "[[72], [105]]" 5 S80_FD_SOCKET]
  by (simp add: numeral_3_eq_3 del: afd_entries.simps)

section \<open>A delimiter that arrives in pieces\<close>

text \<open>
  C33. The blank line that ends an HTTP header, arriving in three pieces, is not found: the part seen first
  is forgotten when the second piece does not bring all of the rest.  The same bytes in one piece are.
\<close>

theorem split_delimiter_missed:
  "\<exists>T a1 a2 s1 s2.
     afd_entries env idle_client [EntryCall (ReadUntil crlf2), EntryData [13], EntryData [10, 13], EntryData [10]]
       (fresh_afd elfd f ty) s = Some (a1, s1) \<and>
     window a1 = crlf2 \<and> af_read_commands a1 = [\<lparr>rc_promise = 0, rc_kind = RcUntil crlf2 T\<rparr>] \<and> resolved (af_log a1) = [] \<and>
     afd_entries env idle_client [EntryCall (ReadUntil crlf2), EntryData [13, 10, 13, 10]] (fresh_afd elfd f ty) s = Some (a2, s2) \<and>
     window a2 = [] \<and> af_log a2 = [EvArrived crlf2, EvRead \<lparr>rc_promise = 0, rc_kind = RcUntil crlf2 T\<rparr> False []]"
proof -
  have len: "length crlf2 = 4" "crlf2 \<noteq> []" "length crlf2 < 2 ^ 31" by (simp_all add: crlf2_def)
  obtain T where T: "table_ok crlf2 T (length crlf2)" "length crlf2 \<le> length T" and
    call: "afd_run env idle_client [TCall (ReadUntil crlf2)] (fresh_afd elfd f ty) s =
      Some ((fresh_afd elfd f ty)\<lparr>af_read_commands := [\<lparr>rc_promise = 0, rc_kind = RcUntil crlf2 T\<rparr>], af_next_promise := 1\<rparr>, s)"
    by (rule until_call [OF len(2,3)])
  obtain p1 p2 p3 p4 where
    p1: "until_search [13] crlf2 T 0 0 = Some (p1, 0)" "until_result 1 4 0 0 p1 = Inr (1, 1)" and
    p2: "until_search [13, 10, 13] crlf2 T 1 1 = Some (p2, 0)" "until_result 3 4 1 0 p2 = Inr (3, 1)" and
    p3: "until_search [13, 10, 13, 10] crlf2 T 3 1 = Some (p3, 0)" "until_result 4 4 3 0 p3 = Inr (4, 0)" and
    p4: "until_search crlf2 crlf2 T 0 0 = Some (p4, 0)" "until_result 4 4 0 0 p4 = Inl 4"
    using crlf2_searches [OF T] by blast
  let ?c = "\<lparr>rc_promise = 0, rc_kind = RcUntil crlf2 T\<rparr>"
  let ?a0 = "(fresh_afd elfd f ty)\<lparr>af_read_commands := [?c], af_next_promise := 1\<rparr>"
  let ?st = "\<lambda>w k m l. ?a0\<lparr>af_read_buffer := w, af_delim_offset := k, af_delim_match := m, af_log := l\<rparr>"
  have a0: "af_closed ?a0 = CsOpen" "\<not> ssl_ready ?a0" "af_read_commands ?a0 = [?c]" "rc_kind ?c = RcUntil crlf2 T"
    "af_read_offset ?a0 = 0" "af_read_buffer ?a0 = []" "af_delim_offset ?a0 = 0" "af_delim_match ?a0 = 0" "af_log ?a0 = []"
    by (simp_all add: fresh_afd_def ssl_ready_def)
  have st: "af_closed (?st w k m l) = CsOpen" "\<not> ssl_ready (?st w k m l)" "af_read_commands (?st w k m l) = [?c]"
    "af_read_offset (?st w k m l) = 0" "af_read_buffer (?st w k m l) = w" for w k m l
    by (simp_all add: fresh_afd_def ssl_ready_def)
  have r1: "afd_run env idle_client [TData [13] False] ?a0 s = Some (?st [13] 1 1 [EvArrived [13]], s)"
    by (subst data_not_enough [OF a0(1-5), of "[13]" "[13]" p1 0 1 4 1 1]) (use p1 len in \<open>simp_all add: fresh_afd_def\<close>)
  have r2: "afd_run env idle_client [TData [10, 13] False] (?st [13] 1 1 [EvArrived [13]]) s =
      Some (?st [13, 10, 13] 3 1 [EvArrived [13], EvArrived [10, 13]], s)"
    by (subst data_not_enough [OF st(1-3) a0(4) st(4), of "[10, 13]" "[13, 10, 13]" _ _ _ _ p2 0 3 4 3 1]) (use p2 len in simp_all)
  have r3: "afd_run env idle_client [TData [10] False] (?st [13, 10, 13] 3 1 [EvArrived [13], EvArrived [10, 13]]) s =
      Some (?st [13, 10, 13, 10] 4 0 [EvArrived [13], EvArrived [10, 13], EvArrived [10]], s)"
    by (subst data_not_enough [OF st(1-3) a0(4) st(4), of "[10]" "[13, 10, 13, 10]" _ _ _ _ p3 0 4 4 4 0]) (use p3 len in simp_all)
  let ?e = "?a0\<lparr>af_read_commands := [], af_log := [EvArrived crlf2, EvRead ?c False []]\<rparr>"
  have r4: "afd_run env idle_client [TData crlf2 False] ?a0 s = Some (?e, s)"
    by (subst data_enough [OF a0(1-6) len(2) len(1) len(1), of p4 0 4]) (use p4 in \<open>simp_all add: fresh_afd_def\<close>)
  have "afd_entries env idle_client [EntryCall (ReadUntil crlf2), EntryData [13], EntryData [10, 13], EntryData [10]]
       (fresh_afd elfd f ty) s = Some (?st [13, 10, 13, 10] 4 0 [EvArrived [13], EvArrived [10, 13], EvArrived [10]], s)"
    using call r1 r2 r3 by (simp add: entry_task_def entry_state_def)
  moreover have "window (?st [13, 10, 13, 10] 4 0 [EvArrived [13], EvArrived [10, 13], EvArrived [10]]) = crlf2"
    using st(4,5) by (simp add: window_def crlf2_def)
  moreover have "afd_entries env idle_client [EntryCall (ReadUntil crlf2), EntryData [13, 10, 13, 10]] (fresh_afd elfd f ty) s =
      Some (?e, s)"
    using call r4 by (simp add: entry_task_def entry_state_def crlf2_def)
  moreover have "window ?e = []" using a0(5,6) by (simp add: window_def)
  ultimately show ?thesis by (intro exI [of _ T] exI conjI) (assumption | simp add: resolved_def)+
qed

end
