(* ===== verification/Web_Text.thy ===== *)
theory Web_Text
  imports Codec_Escape Crypto_Cipher
begin

text \<open>
  The helpers of the C++ layer, \<^verbatim>\<open>src/90s/util/util.cpp\<close>, and the escaping of \<^verbatim>\<open>render_context.cpp\<close>:
  URL texts, query strings, digests, base 64 and the cipher.  A \<^verbatim>\<open>std::string_view\<close> ends with its
  last byte: an index behind it is \<open>None\<close>.
\<close>

section \<open>URL texts\<close>

definition view_at :: "byte list \<Rightarrow> nat \<Rightarrow> byte option" where
  "view_at data k = (if k < length data then Some (data ! k) else None)"

definition view_triple :: "byte list \<Rightarrow> nat \<Rightarrow> bool option" where
  "view_triple data i =
     Option.bind (view_at data (i + 1)) (\<lambda>d1.
       if \<not> is_hex d1 then Some False
       else Option.bind (view_at data (i + 2)) (\<lambda>d2. Some (is_hex d2)))"

definition view_value :: "byte list \<Rightarrow> nat \<Rightarrow> byte option" where
  "view_value data i =
     Option.bind (view_at data (i + 1)) (\<lambda>d1.
     Option.bind (url_lut_digit d1) (\<lambda>v1.
     Option.bind (view_at data (i + 2)) (\<lambda>d2.
     Option.bind (url_lut_digit d2) (\<lambda>v2. Some (push_bit 4 v1 OR v2)))))"

function view_decode_loop :: "byte list \<Rightarrow> nat \<Rightarrow> byte list \<Rightarrow> byte list option" where
  "view_decode_loop data i out =
     (if i < length data then
        (let c = data ! i in
         if i \<le> url_last (length data) then
           (if c = c_plus then view_decode_loop data (i + 1) (out @ [c_space])
            else if c = c_percent then
              Option.bind (view_triple data i) (\<lambda>t.
                if t then Option.bind (view_value data i) (\<lambda>v. view_decode_loop data (i + 3) (out @ [v]))
                else view_decode_loop data (i + 1) (out @ [c]))
            else view_decode_loop data (i + 1) (out @ [c]))
         else view_decode_loop data (i + 1) (out @ [if c = c_plus then c_space else c]))
      else Some out)"
  by pat_completeness auto
termination by (relation "measure (\<lambda>(data, i, out). length data - i)") auto

declare view_decode_loop.simps [simp del]

definition util_url_decode :: "byte list \<Rightarrow> byte list option" where
  "util_url_decode data = view_decode_loop data 0 []"

text \<open>The table \<open>url_lut\<close> has 256 entries and is read with the byte as an unsigned number.\<close>

definition url_lut :: "nat list" where
  "url_lut = map (\<lambda>i. if 65 \<le> i \<and> i \<le> 90 \<or> 97 \<le> i \<and> i \<le> 122 \<or> 48 \<le> i \<and> i \<le> 57 \<or>
     i = 126 \<or> i = 45 \<or> i = 46 \<or> i = 95 then i else 0) [0..<256]"

definition encode_step :: "byte \<Rightarrow> byte list \<Rightarrow> byte list" where
  "encode_step c out =
     (if url_lut ! unat c \<noteq> 0 then out @ [c]
      else out @ [c_percent, hex_upper ! (unat c div 16), hex_upper ! (unat c mod 16)])"

definition util_url_encode :: "byte list \<Rightarrow> byte list" where
  "util_url_encode data = fold encode_step data []"

definition util_to_hex :: "byte list \<Rightarrow> byte list" where
  "util_to_hex data = fold (\<lambda>c out. out @ [hex_lower ! (unat c div 16), hex_lower ! (unat c mod 16)]) data []"

text \<open>\<open>escape_string\<close> of \<^verbatim>\<open>render_context.cpp\<close>; its buffer has room for six bytes for every byte.\<close>

definition escape_step :: "byte \<Rightarrow> byte list \<Rightarrow> byte list" where
  "escape_step c out =
     (if c = c_amp then out @ cstr ''&amp;''
      else if c = c_dquote then out @ cstr ''&quot;''
      else if c = c_lt then out @ cstr ''&lt;''
      else if c = c_gt then out @ cstr ''&gt;''
      else if c = c_squote then out @ cstr ''&#39;''
      else out @ [c])"

definition escape_string :: "byte list \<Rightarrow> byte list" where
  "escape_string data = fold escape_step data []"

text \<open>Loops that append to their output.\<close>

lemma fold_append: "(\<And>x out. f x out = out @ g x) \<Longrightarrow> fold f xs out = out @ concat (map g xs)"
  by (induction xs arbitrary: out) simp_all

lemma url_lut_plain: "url_lut ! unat (c :: byte) \<noteq> 0 \<longleftrightarrow> url_plain (unat c)"
  by (auto simp: url_lut_def url_plain_def c_isalnum_def)

lemma util_url_encode_text: "util_url_encode data = url_text data"
proof -
  have "encode_step c out = out @ url_enc c" for c out
    unfolding encode_step_def url_lut_plain by (simp add: url_enc_def hi_nibble_div lo_nibble_mod)
  then show ?thesis by (simp add: util_url_encode_def url_text_def fold_append)
qed

lemma util_to_hex_text: "util_to_hex data = hex_text data"
  by (simp add: util_to_hex_def hex_text_def hi_nibble_div lo_nibble_mod
      fold_append [where g = "\<lambda>c. [hex_lower ! (unat c div 16), hex_lower ! (unat c mod 16)]"])

lemma escape_string_chunks: "escape_string data = concat (map html_chunk data)"
  by (simp add: escape_string_def fold_append [where g = html_chunk] escape_step_def html_chunk_def)

text \<open>The C++ decoder computes the same text as the decoder of Lua, unless it looks behind the end.\<close>

lemma view_triple_val:
  "i + 2 < length data \<Longrightarrow> view_triple data i = Some (is_hex (data ! (i + 1)) \<and> is_hex (data ! (i + 2)))"
  by (simp add: view_triple_def view_at_def)

lemma view_value_val: "i + 2 < length data \<Longrightarrow> is_hex (data ! (i + 1)) \<Longrightarrow> is_hex (data ! (i + 2)) \<Longrightarrow>
   view_value data i = Some (url_escaped data i)"
  by (simp add: view_value_def view_at_def url_lut_digit_hex)

lemma url_last_val: "3 \<le> n \<Longrightarrow> n < 2 ^ 64 \<Longrightarrow> url_last n = n - 3"
proof -
  assume n: "3 \<le> n" "n < 2 ^ 64"
  have "n + (2 ^ 64 - 3) = (n - 3) + 2 ^ 64" using n(1) by simp
  then have "url_last n = (n - 3) mod 2 ^ 64" unfolding url_last_def sz_def by (simp only: mod_add_self2)
  then show ?thesis using n(2) by simp
qed

lemma url_last_short: "n < 3 \<Longrightarrow> i < n \<Longrightarrow> i \<le> url_last n"
  by (simp add: url_last_def)

definition view_ok :: "byte list \<Rightarrow> bool" where
  "view_ok data \<longleftrightarrow> length data < 2 ^ 64 \<and> (3 \<le> length data \<or> c_percent \<notin> set data)"

lemma view_decode_loop_step:
  assumes "i < length data" and "view_ok data"
  shows "view_decode_loop data i out =
    (if url_escape_at data i then view_decode_loop data (i + 3) (out @ [url_escaped data i])
     else view_decode_loop data (i + 1) (out @ [unplus (data ! i)]))"
proof (cases "data ! i = c_percent")
  case True
  then have len: "3 \<le> length data" "length data < 2 ^ 64"
    using assms nth_mem [OF assms(1)] by (auto simp: view_ok_def)
  then have "url_last (length data) = length data - 3" by (rule url_last_val)
  then have "i \<le> url_last (length data) \<longleftrightarrow> i + 2 < length data" using len(1) by linarith
  then show ?thesis
    using assms(1) True view_triple_val [of i data] view_value_val [of i data]
    by (subst view_decode_loop.simps) (auto simp: Let_def unplus_def)
next
  case False
  then show ?thesis using assms(1) by (subst view_decode_loop.simps) (simp add: Let_def unplus_def)
qed

lemma view_decode_loop_text:
  "i \<le> length data \<Longrightarrow> view_ok data \<Longrightarrow> view_decode_loop data i out = Some (out @ url_decoded (drop i data))"
proof (induction "length data - i" arbitrary: i out rule: less_induct)
  case less
  show ?case
  proof (cases "i < length data")
    case False
    then show ?thesis using less.prems by (subst view_decode_loop.simps) simp
  next
    case True
    then show ?thesis
      using view_decode_loop_step [OF True less.prems(2), of out] less.hyps less.prems url_decoded_drop [OF True] by simp
  qed
qed

lemma util_url_decode_ok: "view_ok data \<Longrightarrow> util_url_decode data = Some (url_decoded data)"
  by (simp add: util_url_decode_def view_decode_loop_text)

lemma url_text_view_ok: "length (url_text data) < 2 ^ 64 \<Longrightarrow> view_ok (url_text data)"
proof -
  assume len: "length (url_text data) < 2 ^ 64"
  have "3 \<le> length (url_text data)" if pct: "c_percent \<in> set (url_text data)"
  proof -
    obtain c where c: "c \<in> set data" "c_percent \<in> set (url_enc c)" using pct by (auto simp: url_text_def)
    then have "\<not> url_plain (unat c)" by (auto simp: url_enc_def url_plain_def c_isalnum_def split: if_splits)
    then have "length (url_enc c) = 3" by (simp add: url_enc_def)
    moreover have "length (url_enc c) \<le> length (url_text data)"
      using c(1) split_list [OF c(1)] by (auto simp: url_text_def)
    ultimately show ?thesis by simp
  qed
  then show ?thesis using len by (auto simp: view_ok_def)
qed

lemma util_url_decode_text: "length (url_text data) < 2 ^ 64 \<Longrightarrow> util_url_decode (url_text data) = Some data"
  by (simp add: util_url_decode_ok url_text_view_ok url_decoded_text)

section \<open>Query strings\<close>

text \<open>\<open>std::string_view::find\<close> of one byte.\<close>

definition view_find :: "byte \<Rightarrow> byte list \<Rightarrow> nat option" where
  "view_find c data = find_byte c data"

text \<open>\<open>qs[url_decode(\<dots>)] = url_decode(\<dots>)\<close> for one field of the query string.\<close>

definition query_field :: "byte list \<Rightarrow> (byte list \<rightharpoonup> byte list) \<Rightarrow> (byte list \<rightharpoonup> byte list) option" where
  "query_field current qs =
     (case view_find 61 current of
        None \<Rightarrow> Option.bind (util_url_decode current) (\<lambda>k. Some (qs(k \<mapsto> [])))
      | Some mid \<Rightarrow>
          Option.bind (util_url_decode (drop (mid + 1) current)) (\<lambda>v.
          Option.bind (util_url_decode (take mid current)) (\<lambda>k. Some (qs(k \<mapsto> v)))))"

function query_loop :: "byte list \<Rightarrow> nat \<Rightarrow> (byte list \<rightharpoonup> byte list) \<Rightarrow> (byte list \<rightharpoonup> byte list) option" where
  "query_loop query prev_pos qs =
     (if prev_pos < length query then
        (case view_find c_amp (drop prev_pos query) of
           None \<Rightarrow> query_field (drop prev_pos query) qs
         | Some n \<Rightarrow>
             if n = 0 then Some qs
             else Option.bind (query_field (take n (drop prev_pos query)) qs) (query_loop query (prev_pos + n + 1)))
      else Some qs)"
  by pat_completeness auto
termination by (relation "measure (\<lambda>(query, prev_pos, qs). length query - prev_pos)") auto

declare query_loop.simps [simp del]

definition parse_query_string :: "byte list \<Rightarrow> (byte list \<rightharpoonup> byte list) option" where
  "parse_query_string query = query_loop query 0 Map.empty"

text \<open>The query string of a list of parameters, as \<open>environment::url\<close> writes it.\<close>

definition query_pair :: "byte list \<times> byte list \<Rightarrow> byte list" where
  "query_pair p = url_text (fst p) @ 61 # url_text (snd p)"

fun query_text :: "(byte list \<times> byte list) list \<Rightarrow> byte list" where
  "query_text [] = []"
| "query_text [p] = query_pair p"
| "query_text (p # q # ps) = query_pair p @ c_amp # query_text (q # ps)"

lemma view_find_simps:
  "c \<notin> set xs \<Longrightarrow> view_find c xs = None" "c \<notin> set xs \<Longrightarrow> view_find c (xs @ c # ys) = Some (length xs)"
  by (induction xs) (auto simp: view_find_def)

lemma hex_upper_plain: "i < 16 \<Longrightarrow> url_plain (unat (hex_upper ! i))"
proof -
  have "list_all (\<lambda>i. url_plain (unat (hex_upper ! i))) [0..<16]" by code_simp
  then show "i < 16 \<Longrightarrow> url_plain (unat (hex_upper ! i))" by (simp add: list_all_iff)
qed

lemma url_text_letters: "c \<in> set (url_text d) \<Longrightarrow> url_plain (unat c) \<or> c = c_percent"
  by (auto simp: url_text_def url_enc_def hex_upper_plain split: if_splits)

lemma url_text_no [simp]: "c_amp \<notin> set (url_text d)" "61 \<notin> set (url_text d)"
  using url_text_letters [of c_amp d] url_text_letters [of 61 d] by (auto simp: url_plain_def c_isalnum_def)

lemma query_pair_no [simp]: "c_amp \<notin> set (query_pair p)" "query_pair p \<noteq> []"
  by (simp_all add: query_pair_def)

lemma query_field_pair:
  assumes "length (query_pair p) < 2 ^ 64"
  shows "query_field (query_pair p) qs = Some (qs(fst p \<mapsto> snd p))"
proof -
  have "view_find 61 (query_pair p) = Some (length (url_text (fst p)))"
    by (simp add: query_pair_def view_find_simps)
  moreover have "util_url_decode (url_text (fst p)) = Some (fst p)" "util_url_decode (url_text (snd p)) = Some (snd p)"
    using assms by (auto simp: query_pair_def intro!: util_url_decode_text)
  ultimately show ?thesis by (simp add: query_field_def) (simp add: query_pair_def)
qed

lemma query_loop_text:
  assumes "drop prev query = query_text ps" and "prev \<le> length query" and "length query < 2 ^ 64"
  shows "query_loop query prev qs = Some (qs ++ map_of (rev ps))"
  using assms(1,2)
proof (induction ps arbitrary: prev qs rule: query_text.induct)
  case 1
  then show ?case by (subst query_loop.simps) simp
next
  case (2 p)
  have "length (query_pair p) \<le> length query" using 2(1) by (metis length_drop diff_le_self query_text.simps(2))
  then have "query_field (query_pair p) qs = Some (qs(fst p \<mapsto> snd p))"
    using assms(3) by (intro query_field_pair) simp
  moreover have "prev < length query" using 2(1) by (metis drop_all not_le query_pair_no(2) query_text.simps(2))
  ultimately show ?case using 2(1) by (subst query_loop.simps) (simp add: view_find_simps)
next
  case (3 p q ps)
  let ?n = "length (query_pair p)"
  have at: "drop prev query = query_pair p @ c_amp # query_text (q # ps)" using 3(2) by simp
  have "length (drop prev query) = ?n + 1 + length (query_text (q # ps))" unfolding at by simp
  then have len: "prev + ?n + 1 \<le> length query" "prev < length query" by simp_all
  then have "query_field (query_pair p) qs = Some (qs(fst p \<mapsto> snd p))"
    using assms(3) by (intro query_field_pair) simp
  moreover have "drop (prev + ?n + 1) query = drop (?n + 1) (drop prev query)" by (simp add: add.commute add.left_commute)
  then have "drop (prev + ?n + 1) query = query_text (q # ps)" unfolding at by simp
  from 3(1) [OF this len(1)]
  have "query_loop query (prev + ?n + 1) (qs(fst p \<mapsto> snd p)) = Some (qs(fst p \<mapsto> snd p) ++ map_of (rev (q # ps)))" .
  moreover have "qs(fst p \<mapsto> snd p) ++ map_of (rev (q # ps)) = qs ++ map_of (rev (p # q # ps))"
    by (simp add: map_add_def fun_eq_iff split: option.splits)
  ultimately show ?case using len at by (subst query_loop.simps) (simp add: view_find_simps)
qed

section \<open>Digests, base 64 and the cipher\<close>

definition util_sha1 :: "crypto_lib \<Rightarrow> (nat \<Rightarrow> byte) \<Rightarrow> byte list \<Rightarrow> byte list option" where
  "util_sha1 lib stk txt = map_option (\<lambda>r. take 20 (snd r)) (crypto_sha1 lib txt (stack_array stk 20) 20)"

definition util_sha256 :: "crypto_lib \<Rightarrow> (nat \<Rightarrow> byte) \<Rightarrow> byte list \<Rightarrow> byte list option" where
  "util_sha256 lib stk txt = map_option (\<lambda>r. take 32 (snd r)) (crypto_sha256 lib txt (stack_array stk 32) 32)"

definition util_hmac_sha256 :: "crypto_lib \<Rightarrow> (nat \<Rightarrow> byte) \<Rightarrow> byte list \<Rightarrow> byte list \<Rightarrow> byte list option" where
  "util_hmac_sha256 lib stk txt key =
     map_option (\<lambda>r. take 32 (snd r)) (crypto_hmac_sha256 lib txt key (stack_array stk 32) 32)"

text \<open>The bytes \<^verbatim>\<open>std::string(ptr, ptr + length)\<close> of a dynamic string.\<close>

definition string_of :: "dynstr \<Rightarrow> byte list option" where
  "string_of str = (if ds_length str \<le> length (ds_ptr str) then Some (take (ds_length str) (ds_ptr str)) else None)"

definition expected :: "((string option \<times> dynstr) \<times> server) option \<Rightarrow> ((string + byte list) \<times> server) option" where
  "expected r =
     Option.bind r (\<lambda>((err, str), s).
       case err of
         Some msg \<Rightarrow> Some (Inl msg, s)
       | None \<Rightarrow> map_option (\<lambda>b. (Inr b, s)) (string_of str))"

definition util_from_b64 :: "env \<Rightarrow> crypto_lib \<Rightarrow> allocator \<Rightarrow> (nat \<Rightarrow> byte) \<Rightarrow> byte list \<Rightarrow> server \<Rightarrow>
    ((string + byte list) \<times> server) option" where
  "util_from_b64 env lib A stk txt s = expected (crypto_from64 env lib A txt (init_on_stack stk 200) s)"

definition util_to_b64 :: "crypto_lib \<Rightarrow> allocator \<Rightarrow> (nat \<Rightarrow> byte) \<Rightarrow> byte list \<Rightarrow> byte list option" where
  "util_to_b64 lib A stk txt =
     Option.bind (crypto_to64 lib A txt (init_on_stack stk 200)) (\<lambda>(err, str).
       if err \<noteq> None then Some [] else string_of str)"

definition util_cipher :: "env \<Rightarrow> crypto_lib \<Rightarrow> allocator \<Rightarrow> (nat \<Rightarrow> byte) \<Rightarrow> byte list \<Rightarrow> byte list \<Rightarrow> bool \<Rightarrow> bool \<Rightarrow>
    server \<Rightarrow> ((string + byte list) \<times> server) option" where
  "util_cipher env lib A stk txt key encrypt use_iv s =
     expected (crypto_cipher env lib A txt key use_iv encrypt (init_on_stack stk 200) s)"

section \<open>What the helpers promise\<close>

text \<open>
  Every list of parameters, whatever bytes it holds, comes back from its query string; of equal names
  the last one counts.
\<close>

theorem query_roundtrip:
  assumes "length (query_text ps) < 2 ^ 64"
  shows "parse_query_string (query_text ps) = Some (map_of (rev ps))"
  using query_loop_text [of 0 "query_text ps" ps Map.empty] assms by (simp add: parse_query_string_def)

theorem query_roundtrip_witness:
  "parse_query_string (query_text [([97, 38], [61, 195, 169]), ([98], [])]) = Some [[97, 38] \<mapsto> [61, 195, 169], [98] \<mapsto> []]"
proof -
  have "length (query_text [([97, 38], [61, 195, 169]), ([98], [])]) \<le> 6 * 3 + 5"
    using url_text_length [of "[97, 38]"] url_text_length [of "[61, 195, 169]"] url_text_length [of "[98]"]
    by (simp add: query_pair_def)
  then have "length (query_text [([97, 38], [61, 195, 169]), ([98], [])]) < 2 ^ 64" by (rule le_less_trans) simp
  from query_roundtrip [OF this] show ?thesis by (simp add: fun_upd_twist)
qed

text \<open>
  A text of one or two bytes that ends in a percent sign makes the decoder look behind the end of the
  view: the bound \<open>len - 3\<close> is a huge number then.
\<close>

theorem url_decode_short_faults:
  assumes "length data < 3" and "data \<noteq> []" and "last data = c_percent"
  shows "util_url_decode data = None"
proof -
  have at: "view_decode_loop data (length data - 1) out = None" for out
    using assms url_last_short [of "length data" "length data - 1"]
    by (subst view_decode_loop.simps) (simp add: Let_def last_conv_nth view_triple_def view_at_def)
  consider "length data = 1" | "length data = 2" using assms(1,2) length_greater_0_conv [of data] by linarith
  then show ?thesis
  proof cases
    case 1
    then show ?thesis using at by (simp add: util_url_decode_def)
  next
    case 2
    then have "data ! 1 = c_percent" using assms(2,3) by (simp add: last_conv_nth)
    then have nohex: "view_triple data 0 = Some False" using 2 by (simp add: view_triple_def view_at_def is_hex_def)
    have "view_decode_loop data 0 [] = view_decode_loop data 1 [if data ! 0 = c_plus then c_space else data ! 0]"
      using 2 nohex url_last_short [of "length data" 0] by (subst view_decode_loop.simps) (simp add: Let_def)
    then show ?thesis using at 2 by (simp add: util_url_decode_def)
  qed
qed

theorem url_decode_short_faults_witness: "util_url_decode [97, 37] = None"
  by (rule url_decode_short_faults) simp_all

end
