(* ===== verification/Web_Stream.thy ===== *)
theory Web_Stream
  imports Web_Text
begin

text \<open>
  What a coroutine of the C++ layer does with a connection: it awaits reads and writes, and the event
  loop answers.  A read that fails hands out no data.  The answers are arbitrary, as everything the
  rest of the system does in between.  Two contracts restrict them: \<open>serves\<close>, below, is the one of a
  stream that finds a delimiter wherever it is, and \<open>connected\<close> of \<open>Web_Descriptor\<close> says that the answers
  are those of the modelled descriptor of \<^verbatim>\<open>src/90s/afd.cpp\<close>, which can miss a delimiter that arrives in
  pieces: there the next bytes are handed out however they arrive (\<open>connected_bytes\<close>), and the text in
  front of a delimiter when both lie in one piece (\<open>connected_delimiter\<close>).
\<close>

section \<open>Reads and writes\<close>

definition read_result :: "answer \<Rightarrow> bool \<times> byte list" where
  "read_result a = (if a_ret a < 0 then (True, []) else (False, a_bytes a))"

definition read_n :: "env \<Rightarrow> fd \<Rightarrow> nat \<Rightarrow> server \<Rightarrow> (bool \<times> byte list) \<times> server" where
  "read_n env f n s = (let r = os_call env ''read_n'' [LInt f, LInt (int n)] s in (read_result (fst r), snd r))"

definition read_up_to :: "env \<Rightarrow> fd \<Rightarrow> byte list \<Rightarrow> server \<Rightarrow> (bool \<times> byte list) \<times> server" where
  "read_up_to env f delim s = (let r = os_call env ''read_until'' [LInt f, LStr delim] s in (read_result (fst r), snd r))"

definition fd_write :: "env \<Rightarrow> fd \<Rightarrow> byte list \<Rightarrow> server \<Rightarrow> bool \<times> server" where
  "fd_write env f data s = (let r = os_call env ''write'' [LInt f, LStr data] s in (0 \<le> a_ret (fst r), snd r))"

section \<open>A connection that hands out a text\<close>

text \<open>The first occurrence of a text.\<close>

fun view_search :: "byte list \<Rightarrow> byte list \<Rightarrow> nat option" where
  "view_search p [] = (if p = [] then Some 0 else None)"
| "view_search p (c # cs) = (if prefix p (c # cs) then Some 0 else map_option Suc (view_search p cs))"

lemma view_search_here: "view_search p (p @ xs) = Some 0"
  by (cases "p @ xs") (auto intro: prefixI [OF sym])

lemma prefix_facts: "prefix p xs \<Longrightarrow> length p \<le> length xs \<and> take (length p) xs = p"
  by (auto simp: prefix_def)

lemma view_search_Some: "view_search p xs = Some n \<Longrightarrow> n + length p \<le> length xs \<and> take (length p) (drop n xs) = p"
  by (induction xs arbitrary: n) (auto split: if_splits dest!: prefix_facts)

lemma view_search_None: "view_search p xs = None \<longleftrightarrow> \<not> (\<exists>ys zs. xs = ys @ p @ zs)"
proof (induction xs)
  case (Cons c cs)
  have "(\<exists>ys zs. c # cs = ys @ p @ zs) \<longleftrightarrow> prefix p (c # cs) \<or> (\<exists>ys zs. cs = ys @ p @ zs)"
    by (auto simp: prefix_def Cons_eq_append_conv)
  then show ?case using Cons by simp
qed simp

lemma view_search_first:
  assumes "\<And>i. i < length ys \<Longrightarrow> \<not> prefix p (drop i (ys @ p @ zs))"
  shows "view_search p (ys @ p @ zs) = Some (length ys)"
  using assms
proof (induction ys)
  case Nil
  then show ?case using view_search_here by simp
next
  case (Cons c ys)
  have "\<not> prefix p (drop i (ys @ p @ zs))" if "i < length ys" for i using Cons.prems [of "Suc i"] that by simp
  moreover have "\<not> prefix p (c # ys @ p @ zs)" using Cons.prems [of 0] by simp
  ultimately show ?case using Cons.IH by simp
qed

text \<open>A delimiter whose first byte does not occur in front of it is found behind that text.\<close>

lemma view_search_fresh: "c \<notin> set ys \<Longrightarrow> view_search (c # p) (ys @ (c # p) @ zs) = Some (length ys)"
proof (induction ys)
  case Nil
  then show ?case using view_search_here [of "c # p" zs] by simp
qed auto

lemma view_search_absent: "c \<notin> set ys \<Longrightarrow> view_search (c # p) ys = None"
  by (induction ys) auto

text \<open>How much a stretch of history took.\<close>

definition taken_by :: "env \<Rightarrow> fd \<Rightarrow> action list \<Rightarrow> action \<Rightarrow> nat" where
  "taken_by env f h a =
     (case a of
        AOther name [LInt g, LInt n] \<Rightarrow> if name = ''read_n'' \<and> g = f \<and> 0 \<le> a_ret (answers env (h @ [a])) then nat n else 0
      | AOther name [LInt g, LStr d] \<Rightarrow>
          if name = ''read_until'' \<and> g = f \<and> 0 \<le> a_ret (answers env (h @ [a]))
          then length (a_bytes (answers env (h @ [a]))) + length d else 0
      | _ \<Rightarrow> 0)"

primrec taken :: "env \<Rightarrow> fd \<Rightarrow> action list \<Rightarrow> action list \<Rightarrow> nat" where
  "taken env f h [] = 0"
| "taken env f h (a # tr) = taken_by env f h a + taken env f (h @ [a]) tr"

definition serves :: "env \<Rightarrow> fd \<Rightarrow> server \<Rightarrow> byte list \<Rightarrow> bool" where
  "serves env f s bs \<longleftrightarrow>
     (\<forall>tr. let rest = drop (taken env f (hist s) tr) bs in
        (\<forall>n. let a = answers env (hist s @ tr @ [AOther ''read_n'' [LInt f, LInt (int n)]]) in
           if n \<le> length rest then a_ret a = 0 \<and> a_bytes a = take n rest else a_ret a < 0) \<and>
        (\<forall>d. let a = answers env (hist s @ tr @ [AOther ''read_until'' [LInt f, LStr d]]) in
           case view_search d rest of Some k \<Rightarrow> a_ret a = 0 \<and> a_bytes a = take k rest | None \<Rightarrow> a_ret a < 0))"

lemma serves_after:
  assumes "serves env f s bs" and "hist s' = hist s @ [a]"
  shows "serves env f s' (drop (taken_by env f (hist s) a) bs)"
  unfolding serves_def
proof (rule allI)
  fix tr
  have "taken env f (hist s) (a # tr) = taken_by env f (hist s) a + taken env f (hist s') tr" by (simp add: assms(2))
  then show "let rest = drop (taken env f (hist s') tr) (drop (taken_by env f (hist s) a) bs) in
      (\<forall>n. let a = answers env (hist s' @ tr @ [AOther ''read_n'' [LInt f, LInt (int n)]]) in
         if n \<le> length rest then a_ret a = 0 \<and> a_bytes a = take n rest else a_ret a < 0) \<and>
      (\<forall>d. let a = answers env (hist s' @ tr @ [AOther ''read_until'' [LInt f, LStr d]]) in
         case view_search d rest of Some k \<Rightarrow> a_ret a = 0 \<and> a_bytes a = take k rest | None \<Rightarrow> a_ret a < 0)"
    using spec [OF assms(1) [unfolded serves_def], of "a # tr"] by (simp add: assms(2) add.commute)
qed

lemma serves_read:
  assumes "serves env f s (xs @ bs)" and "length xs = n"
  obtains s1 where "read_n env f n s = ((False, xs), s1)" "serves env f s1 bs"
    "hist s1 = hist s @ [AOther ''read_n'' [LInt f, LInt (int n)]]"
proof -
  let ?a = "AOther ''read_n'' [LInt f, LInt (int n)]"
  have ans: "a_ret (answers env (hist s @ [?a])) = 0" "a_bytes (answers env (hist s @ [?a])) = xs"
    using spec [OF assms(1) [unfolded serves_def], of "[]"] assms(2) by (auto simp: Let_def dest!: spec [of _ n])
  have t: "taken_by env f (hist s) ?a = n" using ans by (simp add: taken_by_def)
  let ?s1 = "snd (os_call env ''read_n'' [LInt f, LInt (int n)] s)"
  have "read_n env f n s = ((False, xs), ?s1)"
    using ans os_call_result [of env "''read_n''" "[LInt f, LInt (int n)]" s]
    by (simp add: read_n_def read_result_def Let_def)
  moreover have "serves env f ?s1 bs" using serves_after [OF assms(1), of ?s1 ?a] t assms(2) by simp
  ultimately show thesis using that by simp
qed

lemma serves_short:
  assumes "serves env f s bs" and "length bs < n"
  obtains s1 where "read_n env f n s = ((True, []), s1)" "hist s1 = hist s @ [AOther ''read_n'' [LInt f, LInt (int n)]]"
proof -
  let ?a = "AOther ''read_n'' [LInt f, LInt (int n)]"
  have ans: "a_ret (answers env (hist s @ [?a])) < 0"
    using spec [OF assms(1) [unfolded serves_def], of "[]"] assms(2) by (auto simp: Let_def dest!: spec [of _ n])
  have "read_n env f n s = ((True, []), snd (os_call env ''read_n'' [LInt f, LInt (int n)] s))"
    using ans os_call_result [of env "''read_n''" "[LInt f, LInt (int n)]" s]
    by (simp add: read_n_def read_result_def Let_def)
  then show thesis using that by simp
qed

lemma serves_until:
  assumes "serves env f s (xs @ d @ bs)" and "view_search d (xs @ d @ bs) = Some (length xs)"
  obtains s1 where "read_up_to env f d s = ((False, xs), s1)" "serves env f s1 bs"
    "hist s1 = hist s @ [AOther ''read_until'' [LInt f, LStr d]]"
proof -
  let ?a = "AOther ''read_until'' [LInt f, LStr d]"
  have ans: "a_ret (answers env (hist s @ [?a])) = 0" "a_bytes (answers env (hist s @ [?a])) = xs"
    using spec [OF assms(1) [unfolded serves_def], of "[]"] assms(2) by (auto simp: Let_def dest!: spec [of _ d])
  have t: "taken_by env f (hist s) ?a = length xs + length d" using ans by (simp add: taken_by_def)
  let ?s1 = "snd (os_call env ''read_until'' [LInt f, LStr d] s)"
  have "read_up_to env f d s = ((False, xs), ?s1)"
    using ans os_call_result [of env "''read_until''" "[LInt f, LStr d]" s]
    by (simp add: read_up_to_def read_result_def Let_def)
  moreover have "serves env f ?s1 bs" using serves_after [OF assms(1), of ?s1 ?a] t by simp
  ultimately show thesis using that by simp
qed

lemma serves_other:
  assumes "serves env f s bs" and "hist s' = hist s @ [AOther name args]" and "name \<noteq> ''read_n''" "name \<noteq> ''read_until''"
  shows "serves env f s' bs"
proof -
  have "taken_by env f (hist s) (AOther name args) = 0"
    using assms(3,4) by (auto simp: taken_by_def split: list.splits lua_value.splits)
  then show ?thesis using serves_after [OF assms(1,2)] by simp
qed

text \<open>An environment that serves a text, for witnesses.\<close>

fun feed :: "fd \<Rightarrow> byte list \<Rightarrow> action list \<Rightarrow> answer \<times> byte list" where
  "feed f bs [] = (\<lparr>a_ret = 0, a_errno = 0, a_bytes = [], a_vals = [], a_plan = [], a_events = []\<rparr>, bs)"
| "feed f bs (a # h) =
     (case feed f bs h of
        (_, rest) \<Rightarrow>
          (case a of
             AOther name [LInt g, LInt n] \<Rightarrow>
               if name = ''read_n'' \<and> g = f then
                 (if nat n \<le> length rest
                  then (\<lparr>a_ret = 0, a_errno = 0, a_bytes = take (nat n) rest, a_vals = [], a_plan = [], a_events = []\<rparr>, drop (nat n) rest)
                  else (\<lparr>a_ret = - 1, a_errno = 0, a_bytes = [], a_vals = [], a_plan = [], a_events = []\<rparr>, rest))
               else (\<lparr>a_ret = 1, a_errno = 0, a_bytes = [], a_vals = [], a_plan = [], a_events = []\<rparr>, rest)
           | AOther name [LInt g, LStr d] \<Rightarrow>
               if name = ''read_until'' \<and> g = f then
                 (case view_search d rest of
                    Some k \<Rightarrow> (\<lparr>a_ret = 0, a_errno = 0, a_bytes = take k rest, a_vals = [], a_plan = [], a_events = []\<rparr>, drop (k + length d) rest)
                  | None \<Rightarrow> (\<lparr>a_ret = - 1, a_errno = 0, a_bytes = [], a_vals = [], a_plan = [], a_events = []\<rparr>, rest))
               else (\<lparr>a_ret = 1, a_errno = 0, a_bytes = [], a_vals = [], a_plan = [], a_events = []\<rparr>, rest)
           | _ \<Rightarrow> (\<lparr>a_ret = 1, a_errno = 0, a_bytes = [], a_vals = [], a_plan = [], a_events = []\<rparr>, rest)))"

definition feed_env :: "fd \<Rightarrow> byte list \<Rightarrow> env" where
  "feed_env f bs = (const_env 1)\<lparr>answers := \<lambda>h. fst (feed f bs (rev h))\<rparr>"

lemma feed_env_answers: "answers (feed_env f bs) h = fst (feed f bs (rev h))"
  by (simp add: feed_env_def)

lemma feed_rest:
  "snd (feed f bs (rev (h @ tr))) = drop (taken (feed_env f bs) f h tr) (snd (feed f bs (rev h)))"
proof (induction tr arbitrary: h)
  case (Cons a tr)
  have "snd (feed f bs (rev (h @ [a]))) = drop (taken_by (feed_env f bs) f h a) (snd (feed f bs (rev h)))"
    by (auto simp: taken_by_def feed_env_answers split: prod.splits action.splits list.splits lua_value.splits option.splits
        dest: view_search_Some)
  then show ?case using Cons [of "h @ [a]"] by (simp add: add.commute)
qed simp

lemma feed_env_serves: "hist s = [] \<Longrightarrow> serves (feed_env f bs) f s bs"
proof -
  assume h: "hist s = []"
  have rest: "drop (taken (feed_env f bs) f [] tr) bs = snd (feed f bs (rev tr))" for tr
    using feed_rest [of f bs "[]" tr] by simp
  show ?thesis
    unfolding serves_def h Let_def append_Nil rest
    by (auto simp: feed_env_answers split: prod.splits option.splits)
qed

end
