(* ===== verification/Web_Socket.thy ===== *)
theory Web_Socket
  imports Web_Stream
begin

text \<open>
  Web sockets, \<open>websocket_read\<close> and \<open>websocket_write\<close> of
  \<^verbatim>\<open>src/90s/httpd/environment.cpp\<close>.
\<close>

section \<open>The code\<close>

text \<open>\<open>message[i] ^ mask[i & 3]\<close>.\<close>

definition xor_mask :: "byte list \<Rightarrow> byte list \<Rightarrow> byte list" where
  "xor_mask m bs = map (\<lambda>i. bs ! i XOR m ! (i mod 4)) [0..<length bs]"

text \<open>The extended lengths: two or eight bytes, the most significant first, in 64 bits.\<close>

definition be_value :: "byte list \<Rightarrow> 64 word" where
  "be_value p = fold (\<lambda>b len. push_bit 8 len OR ucast b) p 0"

text \<open>\<open>crypto_random\<close> into the array; what it did not fill is what was there.\<close>

definition random_mask :: "env \<Rightarrow> byte list \<Rightarrow> server \<Rightarrow> byte list \<times> server" where
  "random_mask env m s = (let r = os_call env ''RAND_bytes'' [LInt 4] s in (take 4 (a_bytes (fst r) @ m), snd r))"

text \<open>The answer to a ping, as the code builds it.\<close>

definition pong :: "env \<Rightarrow> bool \<Rightarrow> byte list \<Rightarrow> byte list \<Rightarrow> server \<Rightarrow> byte list \<times> server" where
  "pong env masked m msg s =
     (if masked then
        (let r = random_mask env m s in ([10, 2] @ fst r @ xor_mask (fst r) msg, snd r))
      else ([10, 130] @ msg, s))"

definition PROTOCOL_ERROR :: string where "PROTOCOL_ERROR = ''protocol_error''"
definition STREAM_CLOSED :: string where "STREAM_CLOSED = ''stream_closed''"

text \<open>The length of the payload, behind the first two bytes.\<close>

definition ws_length :: "env \<Rightarrow> fd \<Rightarrow> nat \<Rightarrow> server \<Rightarrow> ((string + nat) \<times> server) option" where
  "ws_length env f len7 s =
     (if len7 = 126 then
        (case read_n env f 2 s of
           ((err, p), s1) \<Rightarrow>
             if err then Some (Inl PROTOCOL_ERROR, s1)
             else if length p < 2 then None else Some (Inr (unat (be_value (take 2 p))), s1))
      else if len7 = 127 then
        (case read_n env f 8 s of
           ((err, p), s1) \<Rightarrow>
             if err then Some (Inl PROTOCOL_ERROR, s1)
             else if length p < 8 then None else Some (Inr (unat (be_value (take 8 p))), s1))
      else Some (Inr len7, s))"

definition ws_mask :: "env \<Rightarrow> fd \<Rightarrow> bool \<Rightarrow> server \<Rightarrow> ((string + byte list) \<times> server) option" where
  "ws_mask env f masked s =
     (if masked then
        (case read_n env f 4 s of
           ((err, p), s1) \<Rightarrow>
             if err then Some (Inl PROTOCOL_ERROR, s1)
             else if length p < 4 then None else Some (Inr (take 4 p), s1))
      else Some (Inr (replicate 4 0), s))"

definition ws_payload :: "env \<Rightarrow> fd \<Rightarrow> nat \<Rightarrow> byte list \<Rightarrow> server \<Rightarrow> (string + byte list) \<times> server" where
  "ws_payload env f n m s =
     (if 0 < n then
        (case read_n env f n s of
           ((err, p), s1) \<Rightarrow> if err then (Inl PROTOCOL_ERROR, s1) else (Inr (xor_mask m p), s1))
      else (Inr [], s))"

text \<open>One frame: opcode, whether it is masked, the mask and the message.\<close>

definition ws_frame :: "env \<Rightarrow> fd \<Rightarrow> server \<Rightarrow> ((string + (byte \<times> bool \<times> byte list \<times> byte list)) \<times> server) option" where
  "ws_frame env f s =
     (case read_n env f 2 s of
        ((err, d), s1) \<Rightarrow>
          if err then Some (Inl PROTOCOL_ERROR, s1)
          else if length d < 2 then None
          else
            (let opcode = d ! 0 AND 15; masked = (d ! 1 AND 128 = 128) in
             Option.bind (ws_length env f (unat (d ! 1 AND 127)) s1) (\<lambda>(len, s2).
               case len of
                 Inl e \<Rightarrow> Some (Inl e, s2)
               | Inr n \<Rightarrow>
                   Option.bind (ws_mask env f masked s2) (\<lambda>(mk, s3).
                     case mk of
                       Inl e \<Rightarrow> Some (Inl e, s3)
                     | Inr m \<Rightarrow>
                         (case ws_payload env f n m s3 of
                            (Inl e, s4) \<Rightarrow> Some (Inl e, s4)
                          | (Inr msg, s4) \<Rightarrow> Some (Inr (opcode, masked, m, msg), s4))))))"

partial_function (option) websocket_read :: "env \<Rightarrow> fd \<Rightarrow> server \<Rightarrow> ((string + (byte \<times> byte list)) \<times> server) option" where
  "websocket_read env f s =
     Option.bind (ws_frame env f s) (\<lambda>r.
       case fst r of
         Inl e \<Rightarrow> Some (Inl e, snd r)
       | Inr (opcode, masked, m, msg) \<Rightarrow>
           if opcode = 9 then
             (let p = pong env masked m msg (snd r); w = fd_write env f (fst p) (snd p) in
              if fst w then websocket_read env f (snd w) else Some (Inl PROTOCOL_ERROR, snd w))
           else if opcode = 8 then Some (Inl STREAM_CLOSED, snd (os_call env ''close'' [LInt f] (snd r)))
           else Some (Inr (opcode, msg), snd r))"

text \<open>
  \<open>websocket_write\<close>.  The second test asks for the length of the frame so far, which is one byte, not
  for the length of the data; no mask is used.
\<close>

definition be_bytes :: "nat \<Rightarrow> nat \<Rightarrow> byte list" where
  "be_bytes k n = map (\<lambda>i. word_of_nat (n div 2 ^ (8 * (k - 1 - i)))) [0..<k]"

definition ws_encode :: "byte \<Rightarrow> byte list \<Rightarrow> byte list" where
  "ws_encode opcode data =
     (let message = [128 OR opcode];
          header =
            (if length data \<le> 125 then message @ [word_of_nat (length data)]
             else if length message < 65536 then message @ [126] @ be_bytes 2 (length data)
             else message @ [127] @ be_bytes 8 (length data))
      in header @ xor_mask (replicate 4 0) data)"

definition websocket_write :: "env \<Rightarrow> fd \<Rightarrow> byte \<Rightarrow> byte list \<Rightarrow> server \<Rightarrow> bool \<times> server" where
  "websocket_write env f opcode data s = fd_write env f (ws_encode opcode data) s"

section \<open>Frames\<close>

lemma xor_mask_zero [simp]: "xor_mask (replicate 4 0) bs = bs"
  by (rule nth_equalityI) (simp_all add: xor_mask_def)

lemma xor_mask_twice: "xor_mask m (xor_mask m bs) = bs"
  by (rule nth_equalityI) (simp_all add: xor_mask_def xor.assoc)

lemma xor_mask_length [simp]: "length (xor_mask m bs) = length bs"
  by (simp add: xor_mask_def)

lemma be_bytes_length [simp]: "length (be_bytes k n) = k"
  by (simp add: be_bytes_def)

lemma be_two: "unat (be_value (be_bytes 2 n)) = n mod 65536"
proof -
  have bytes: "be_bytes 2 n = [word_of_nat (drop_bit 8 n), word_of_nat n]"
    by (simp add: be_bytes_def upt_rec drop_bit_eq_div)
  have low: "n mod 65536 = take_bit 16 n" by (simp add: take_bit_eq_mod)
  have "be_value (be_bytes 2 n) = word_of_nat (n mod 65536)"
    unfolding low bytes
  proof (rule bit_word_eqI)
    fix i assume "i < LENGTH(64)"
    consider "i < 8" | "8 \<le> i" "i < 16" | "16 \<le> i" by linarith
    then show "bit (be_value [word_of_nat (drop_bit 8 n), word_of_nat n]) i \<longleftrightarrow> bit (word_of_nat (take_bit 16 n) :: 64 word) i"
      using \<open>i < LENGTH(64)\<close> by cases (auto simp: be_value_def bit_simps)
  qed
  moreover have "n mod 65536 < 65536" by simp
  ultimately show ?thesis by (simp add: unat_of_nat)
qed

text \<open>What a reader gets from a connection that hands out a frame without a mask.\<close>

lemma low_byte: "word_of_nat n AND 127 = (word_of_nat n :: byte)" "word_of_nat n AND 128 = (0 :: byte)" if "n < 128"
proof -
  have "take_bit 7 n = n" using that by (simp add: take_bit_nat_eq_self)
  then have "take_bit 7 (word_of_nat n :: byte) = word_of_nat n" by (metis take_bit_of_nat)
  moreover have "take_bit 7 (word_of_nat n :: byte) = word_of_nat n AND 127"
    by (simp add: take_bit_eq_mask mask_eq_exp_minus_1)
  ultimately show "word_of_nat n AND 127 = (word_of_nat n :: byte)" by simp
  then have "word_of_nat n AND 128 = (word_of_nat n AND 127 :: byte) AND 128" by simp
  also have "\<dots> = word_of_nat n AND (127 AND 128)" by (simp only: and.assoc)
  finally show "word_of_nat n AND 128 = (0 :: byte)" by simp
qed

lemma opcode_bits: "(128 OR opcode) AND 15 = opcode" if "unat opcode < 16" for opcode :: byte
proof -
  have "take_bit 4 opcode = opcode" using that by (simp add: take_bit_eq_mod word_unat_eq_iff unat_mod)
  then have op: "opcode AND 15 = opcode" by (simp add: take_bit_eq_mask mask_eq_exp_minus_1)
  have "(128 OR opcode) AND 15 = (128 AND 15) OR (opcode AND 15)" by (simp only: bit.conj_disj_distrib2)
  then show ?thesis using op by simp
qed

lemma reads_frame:
  assumes "serves env f s (ws_encode opcode data @ tail)" and "unat opcode < 16" and "length data \<noteq> 0"
  defines "n \<equiv> (if length data \<le> 125 then length data else length data mod 65536)"
  shows "\<exists>s1. ws_frame env f s = Some (Inr (opcode, False, replicate 4 0, take n data), s1) \<and> serves env f s1 (drop n data @ tail)"
proof -
  have nl: "n \<le> length data" by (simp add: n_def)
  have split: "data @ tail = take n data @ (drop n data @ tail)" by (simp add: append_assoc [symmetric] del: append_assoc)
  show ?thesis
  proof (cases "length data \<le> 125")
    case True
    let ?b = "word_of_nat (length data) :: byte"
    have enc: "ws_encode opcode data @ tail = [128 OR opcode, ?b] @ (data @ tail)" using True by (simp add: ws_encode_def)
    obtain s1 where s1: "read_n env f 2 s = ((False, [128 OR opcode, ?b]), s1)" "serves env f s1 (data @ tail)"
      using serves_read [OF assms(1) [unfolded enc], of 2] by auto
    have n: "n = length data" using True by (simp add: n_def)
    obtain s2 where s2: "read_n env f n s1 = ((False, data), s2)" "serves env f s2 tail"
      using serves_read [OF s1(2), of n] n by auto
    have "unat (?b AND 127) = length data" "?b AND 128 = 0" using True low_byte [of "length data"] by (simp_all add: unat_of_nat)
    then have "ws_frame env f s = Some (Inr (opcode, False, replicate 4 0, data), s2)"
      using s1(1) s2(1) n True assms(2,3)
      by (simp add: ws_frame_def ws_length_def ws_mask_def ws_payload_def opcode_bits Let_def)
    then show ?thesis using s2(2) n by simp
  next
    case False
    have enc: "ws_encode opcode data @ tail = [128 OR opcode, 126] @ be_bytes 2 (length data) @ (data @ tail)"
      using False by (simp add: ws_encode_def)
    obtain s1 where s1: "read_n env f 2 s = ((False, [128 OR opcode, 126]), s1)"
        "serves env f s1 (be_bytes 2 (length data) @ (data @ tail))"
      using serves_read [OF assms(1) [unfolded enc], of 2] by auto
    obtain s2 where s2: "read_n env f 2 s1 = ((False, be_bytes 2 (length data)), s2)" "serves env f s2 (data @ tail)"
      using serves_read [OF s1(2), of 2] by auto
    have n: "n = length data mod 65536" using False by (simp add: n_def)
    obtain s3 where s3: "0 < n \<Longrightarrow> read_n env f n s2 = ((False, take n data), s3)" "serves env f s3 (drop n data @ tail)" "n = 0 \<Longrightarrow> s3 = s2"
    proof (cases "n = 0")
      case True
      then show ?thesis using that [of s2] s2(2) by simp
    next
      case False
      have "serves env f s2 (take n data @ (drop n data @ tail))" using s2(2) unfolding split .
      from serves_read [OF this, of n] nl obtain s3 where "read_n env f n s2 = ((False, take n data), s3)"
        "serves env f s3 (drop n data @ tail)" by auto
      then show ?thesis using that [of s3] False by simp
    qed
    have "ws_length env f (unat ((126 :: byte) AND 127)) s1 = Some (Inr n, s2)"
      using s2(1) n be_two [of "length data"] by (simp add: ws_length_def)
    moreover have "ws_payload env f n (replicate 4 0) s2 = (Inr (take n data), s3)"
      using s3 by (cases "n = 0") (simp_all add: ws_payload_def)
    ultimately have "ws_frame env f s = Some (Inr (opcode, False, replicate 4 0, take n data), s3)"
      using s1(1) assms(2) by (simp add: ws_frame_def ws_mask_def opcode_bits Let_def)
    then show ?thesis using s3(2) by blast
  qed
qed

section \<open>What is sent and what arrives\<close>

text \<open>
  C22. A message of 1 to 65535 bytes that is sent as a web socket frame is read back with its opcode, and the
  reader is at the beginning of the next frame.
\<close>

theorem websocket_roundtrip:
  assumes "serves env f s (ws_encode opcode data @ tail)"
    and "unat opcode < 16" "opcode \<noteq> 8" "opcode \<noteq> 9" and "0 < length data" "length data < 65536"
  shows "\<exists>s1. websocket_read env f s = Some (Inr (opcode, data), s1) \<and> serves env f s1 tail"
proof -
  have "(if length data \<le> 125 then length data else length data mod 65536) = length data" using assms(6) by simp
  then obtain s1 where "ws_frame env f s = Some (Inr (opcode, False, replicate 4 0, data), s1)" "serves env f s1 tail"
    using reads_frame [OF assms(1,2)] assms(5) by auto
  then show ?thesis using assms(3,4) by (subst websocket_read.simps) simp
qed

theorem websocket_roundtrip_witness:
  "\<exists>s1. websocket_read (feed_env 7 (ws_encode 2 [1, 2, 3] @ [129])) 7 idle_server = Some (Inr (2, [1, 2, 3]), s1) \<and>
    serves (feed_env 7 (ws_encode 2 [1, 2, 3] @ [129])) 7 s1 [129]"
  by (rule websocket_roundtrip) (simp_all add: feed_env_serves idle_server_def)

text \<open>
  A message of 65536 bytes or tail is announced with its length modulo 65536: the reader gets the
  beginning of it, and takes the rest for frames.
\<close>

theorem long_message_cut:
  assumes "serves env f s (ws_encode opcode data @ tail)"
    and "unat opcode < 16" "opcode \<noteq> 8" "opcode \<noteq> 9" and "65536 \<le> length data"
  shows "\<exists>s1. websocket_read env f s = Some (Inr (opcode, take (length data mod 65536) data), s1) \<and>
    serves env f s1 (drop (length data mod 65536) data @ tail)"
proof -
  have eq: "(if length data \<le> 125 then length data else length data mod 65536) = length data mod 65536" using assms(5) by simp
  have "length data \<noteq> 0" using assms(5) by linarith
  note reads_frame [OF assms(1,2) this, unfolded eq]
  then obtain s1 where "ws_frame env f s = Some (Inr (opcode, False, replicate 4 0, take (length data mod 65536) data), s1)"
      "serves env f s1 (drop (length data mod 65536) data @ tail)"
    by blast
  then show ?thesis using assms(3,4) by (subst websocket_read.simps) simp
qed

theorem long_message_cut_witness:
  "\<exists>s1. websocket_read (feed_env 7 (ws_encode 1 (replicate 65538 65))) 7 idle_server = Some (Inr (1, [65, 65]), s1) \<and>
    serves (feed_env 7 (ws_encode 1 (replicate 65538 65))) 7 s1 (replicate 65536 65)"
proof -
  let ?d = "replicate 65538 65 :: byte list"
  have cut: "take (length ?d mod 65536) ?d = [65, 65]" "drop (length ?d mod 65536) ?d = replicate 65536 65"
    by (simp_all add: numeral_2_eq_2)
  have "serves (feed_env 7 (ws_encode 1 ?d)) 7 idle_server (ws_encode 1 ?d @ [])"
    using feed_env_serves [of idle_server 7 "ws_encode 1 ?d"] by (simp add: idle_server_def)
  from long_message_cut [OF this] show ?thesis unfolding cut by simp
qed

end
