(* ===== verification/Web_Render.thy ===== *)
theory Web_Render
  imports Web_Text
begin

text \<open>
  The output of a page, \<^verbatim>\<open>src/90s/httpd/render_context.cpp\<close>: contexts that hold blocks of text and
  further contexts.  A page holds pointers to all of them and may write to them in any order until the
  whole is put together.
\<close>

section \<open>The code\<close>

datatype block = BText "byte list" | BCtx nat

record rctx =
  rc_off :: bool
  rc_length :: nat
  rc_blocks :: "block list"

text \<open>The contexts of a page by their numbers; the outermost one is 0.\<close>

type_synonym contexts = "rctx list"

definition render_context :: rctx where
  "render_context = \<lparr>rc_off = False, rc_length = 0, rc_blocks = []\<rparr>"

definition ctx_write :: "byte list \<Rightarrow> rctx \<Rightarrow> rctx" where
  "ctx_write t r =
     (if rc_off r then r
      else r\<lparr>rc_length := rc_length r + length t,
             rc_blocks :=
               (case rev (rc_blocks r) of
                  BText u # bs \<Rightarrow> rev bs @ [BText (u @ t)]
                | _ \<Rightarrow> rc_blocks r @ [BText t])\<rparr>)"

definition render_write :: "nat \<Rightarrow> byte list \<Rightarrow> contexts \<Rightarrow> contexts" where
  "render_write c t H = H[c := ctx_write t (H ! c)]"

definition render_disable :: "nat \<Rightarrow> contexts \<Rightarrow> contexts" where
  "render_disable c H = H[c := (H ! c)\<lparr>rc_off := True\<rparr>]"

definition render_clear :: "nat \<Rightarrow> contexts \<Rightarrow> contexts" where
  "render_clear c H = H[c := render_context]"

definition append_context :: "nat \<Rightarrow> contexts \<Rightarrow> nat \<times> contexts" where
  "append_context c H =
     (length H, H[c := (H ! c)\<lparr>rc_blocks := rc_blocks (H ! c) @ [BCtx (length H)]\<rparr>] @
        [render_context\<lparr>rc_off := rc_off (H ! c)\<rparr>])"

text \<open>\<open>finalize\<close>: the contexts are emptied on the way; \<open>disabled\<close> stays.\<close>

definition emptied :: "nat \<Rightarrow> contexts \<Rightarrow> contexts" where
  "emptied c H = H[c := (H ! c)\<lparr>rc_length := 0, rc_blocks := []\<rparr>]"

partial_function (option) finalize_blocks :: "block list \<Rightarrow> byte list \<Rightarrow> contexts \<Rightarrow> (byte list \<times> contexts) option" where
  "finalize_blocks bs ss H =
     (case bs of
        [] \<Rightarrow> Some (ss, H)
      | b # rest \<Rightarrow>
          (case b of
             BText t \<Rightarrow> finalize_blocks rest (ss @ t) H
           | BCtx d \<Rightarrow>
               Option.bind (finalize_blocks (rc_blocks (H ! d)) [] H) (\<lambda>r.
                 finalize_blocks rest (ss @ fst r) (emptied d (snd r)))))"

definition finalize :: "nat \<Rightarrow> contexts \<Rightarrow> (byte list \<times> contexts) option" where
  "finalize c H = map_option (\<lambda>r. (fst r, emptied c (snd r))) (finalize_blocks (rc_blocks (H ! c)) [] H)"

section \<open>Pages\<close>

text \<open>What a page does with its output.\<close>

datatype page_op = PWriteTo nat "byte list" | PAppend nat | PDisable nat | PClear nat

definition page_step :: "page_op \<Rightarrow> contexts \<Rightarrow> contexts" where
  "page_step p H =
     (case p of
        PWriteTo c t \<Rightarrow> render_write c t H
      | PAppend c \<Rightarrow> snd (append_context c H)
      | PDisable c \<Rightarrow> render_disable c H
      | PClear c \<Rightarrow> render_clear c H)"

definition page_ref :: "page_op \<Rightarrow> nat" where
  "page_ref p = (case p of PWriteTo c t \<Rightarrow> c | PAppend c \<Rightarrow> c | PDisable c \<Rightarrow> c | PClear c \<Rightarrow> c)"

text \<open>Pages only hold pointers they were given.\<close>

fun page_runs :: "page_op list \<Rightarrow> contexts \<Rightarrow> contexts option" where
  "page_runs [] H = Some H"
| "page_runs (p # ps) H = (if page_ref p < length H then page_runs ps (page_step p H) else None)"

text \<open>A context holds contexts that were made later, each at most once, and nobody else holds them.\<close>

definition kids :: "rctx \<Rightarrow> nat list" where
  "kids r = concat (map (\<lambda>b. case b of BText t \<Rightarrow> [] | BCtx d \<Rightarrow> [d]) (rc_blocks r))"

definition contexts_ok :: "contexts \<Rightarrow> bool" where
  "contexts_ok H \<longleftrightarrow>
     (\<forall>c < length H. \<forall>d\<in>set (kids (H ! c)). c < d \<and> d < length H) \<and> distinct (concat (map kids H))"

text \<open>The text of a context in document order.\<close>

function flat :: "contexts \<Rightarrow> nat \<Rightarrow> byte list" where
  "flat H c =
     (if c < length H then
        concat (map (\<lambda>b. case b of BText t \<Rightarrow> t | BCtx d \<Rightarrow> if c < d then flat H d else []) (rc_blocks (H ! c)))
      else [])"
  by pat_completeness auto
termination by (relation "measure (\<lambda>(H, c). length H - c)") auto

declare flat.simps [simp del]

section \<open>The contexts of a page form a tree\<close>

definition edge :: "contexts \<Rightarrow> nat \<Rightarrow> nat \<Rightarrow> bool" where
  "edge H c d \<longleftrightarrow> c < length H \<and> d \<in> set (kids (H ! c))"

definition under :: "contexts \<Rightarrow> nat \<Rightarrow> nat \<Rightarrow> bool" where
  "under H = (edge H)\<^sup>*\<^sup>*"

lemma under_refl [simp]: "under H c c"
  by (simp add: under_def)

lemma under_edge: "edge H c d \<Longrightarrow> under H d e \<Longrightarrow> under H c e"
  unfolding under_def by (rule converse_rtranclp_into_rtranclp)

lemma contexts_ok_distinct: "contexts_ok H \<Longrightarrow> distinct (concat (map kids H))"
  unfolding contexts_ok_def by blast

lemma edge_less: "contexts_ok H \<Longrightarrow> edge H c d \<Longrightarrow> c < d \<and> d < length H"
  unfolding contexts_ok_def edge_def by blast

lemma under_le:
  assumes "contexts_ok H" and "under H c d"
  shows "c \<le> d"
  using assms(2) unfolding under_def
proof (induction rule: rtranclp_induct)
  case (step y z)
  then show ?case using edge_less [OF assms(1) step.hyps(2)] by simp
qed simp

lemma distinct_concat_disjoint:
  assumes "distinct (concat xss)" and "i < length xss" "j < length xss" "i \<noteq> j"
  shows "set (xss ! i) \<inter> set (xss ! j) = {}"
proof -
  have apart: "set (xss ! i) \<inter> set (xss ! j) = {}" if ij: "i < j" "j < length xss" for i j
  proof -
    have "xss = take j xss @ xss ! j # drop (Suc j) xss" using ij(2) by (rule id_take_nth_drop)
    then have "distinct (concat (take j xss) @ xss ! j @ concat (drop (Suc j) xss))"
      using assms(1) by (metis concat.simps(2) concat_append)
    moreover have "xss ! i \<in> set (take j xss)" using ij by (auto simp: in_set_conv_nth)
    ultimately show ?thesis by fastforce
  qed
  show ?thesis
  proof (cases "i < j")
    case True
    then show ?thesis using apart assms(3) by blast
  next
    case False
    then have "j < i" using assms(4) by simp
    then show ?thesis using apart assms(2) by (metis Int_commute)
  qed
qed

lemma edge_unique:
  assumes "contexts_ok H" and "edge H c d" "edge H c' d"
  shows "c = c'"
proof (rule ccontr)
  assume "c \<noteq> c'"
  then have "set (map kids H ! c) \<inter> set (map kids H ! c') = {}"
    using assms(2,3) by (intro distinct_concat_disjoint [OF contexts_ok_distinct [OF assms(1)]]) (simp_all add: edge_def)
  moreover have "d \<in> set (map kids H ! c)" "d \<in> set (map kids H ! c')" using assms(2,3) by (simp_all add: edge_def)
  ultimately show False by blast
qed

lemma under_chain:
  assumes "contexts_ok H" and "under H d e" "under H d' e"
  shows "under H d d' \<or> under H d' d"
  using assms(2,3) unfolding under_def
proof (induction arbitrary: d' rule: rtranclp_induct)
  case (step y z)
  from step.prems show ?case
  proof (cases rule: rtranclp.cases)
    case rtrancl_refl
    then show ?thesis using step.hyps by (auto intro: rtranclp.rtrancl_into_rtrancl)
  next
    case (rtrancl_into_rtrancl b)
    then have "b = y" using edge_unique [OF assms(1)] step.hyps(2) by blast
    then show ?thesis using step.IH rtrancl_into_rtrancl by blast
  qed
qed simp

lemma siblings_apart:
  assumes ok: "contexts_ok H" and "edge H c d" "edge H c d'" "d \<noteq> d'" and "under H d e"
  shows "\<not> under H d' e"
proof
  assume "under H d' e"
  have no: False if e: "edge H c d" "edge H c d'" "d \<noteq> d'" "under H d d'" for d d'
  proof -
    from e(4) obtain p where p: "under H d p" "edge H p d'"
      using e(3) unfolding under_def by (auto elim: rtranclp.cases)
    then have "p = c" using edge_unique [OF ok] e(2) by blast
    then show False using under_le [OF ok p(1)] edge_less [OF ok e(1)] by simp
  qed
  from under_chain [OF ok assms(5) \<open>under H d' e\<close>] show False using no assms(2-4) by metis
qed

text \<open>What pages do keeps the tree.\<close>

lemma kids_simps [simp]:
  "kids render_context = []" "kids (r\<lparr>rc_off := b\<rparr>) = kids r"
  "kids (r\<lparr>rc_blocks := rc_blocks r @ [BCtx d]\<rparr>) = kids r @ [d]"
  by (simp_all add: kids_def render_context_def)

lemma kids_write [simp]: "kids (ctx_write t r) = kids r"
proof -
  have "rc_blocks r = rev (rev (rc_blocks r))" by simp
  then show ?thesis by (auto simp: kids_def ctx_write_def split: list.splits block.splits)
qed

lemma kids_update: "c < length H \<Longrightarrow> kids r = kids (H ! c) \<Longrightarrow> map kids (H[c := r]) = map kids H"
  by (simp add: map_update list_update_same_conv)

lemma contexts_ok_same:
  assumes eq: "map kids H' = map kids H" and ok: "contexts_ok H"
  shows "contexts_ok H'"
proof -
  have len: "length H' = length H" using eq by (rule map_eq_imp_length_eq)
  have "kids (H' ! c) = kids (H ! c)" if "c < length H" for c using eq that len by (metis nth_map)
  then show ?thesis using ok eq len unfolding contexts_ok_def by metis
qed

lemma distinct_concat_append_at:
  assumes "distinct (concat xss)" and "c < length xss" and "\<forall>xs\<in>set xss. x \<notin> set xs"
  shows "distinct (concat (xss[c := xss ! c @ [x]]))"
proof -
  let ?a = "concat (take c xss)" and ?b = "concat (drop (Suc c) xss)"
  have "xss = take c xss @ xss ! c # drop (Suc c) xss" using assms(2) by (rule id_take_nth_drop)
  then have old: "concat xss = ?a @ xss ! c @ ?b" by (metis concat.simps(2) concat_append)
  have "concat (xss[c := xss ! c @ [x]]) = ?a @ (xss ! c @ [x]) @ ?b"
    using assms(2) by (simp add: upd_conv_take_nth_drop)
  moreover have "x \<notin> set (concat xss)" using assms(3) by (simp add: set_concat)
  ultimately show ?thesis using assms(1) unfolding old by auto
qed

lemma page_step_ok:
  assumes "contexts_ok H" and "page_ref p < length H"
  shows "contexts_ok (page_step p H)"
proof (cases p)
  case (PWriteTo c t)
  then show ?thesis using assms
    by (simp add: page_step_def page_ref_def render_write_def contexts_ok_same [OF kids_update])
next
  case (PDisable c)
  then show ?thesis using assms
    by (simp add: page_step_def page_ref_def render_disable_def contexts_ok_same [OF kids_update])
next
  case (PClear c)
  then have c: "c < length H" using assms(2) by (simp add: page_ref_def)
  have new: "map kids (page_step p H) = (map kids H)[c := []]" using PClear by (simp add: page_step_def render_clear_def map_update)
  have "distinct (concat ((map kids H)[c := []]))"
  proof -
    have "concat (map kids H) = concat (take c (map kids H)) @ kids (H ! c) @ concat (drop (Suc c) (map kids H))"
      using id_take_nth_drop [of c "map kids H"] c by (metis concat.simps(2) concat_append length_map nth_map)
    then show ?thesis using contexts_ok_distinct [OF assms(1)] c by (auto simp: upd_conv_take_nth_drop)
  qed
  moreover have "e < d \<and> d < length (page_step p H)" if "e < length (page_step p H)" "d \<in> set (kids (page_step p H ! e))" for e d
  proof -
    have len: "length (page_step p H) = length H" using new by (metis length_list_update length_map)
    then have "kids (page_step p H ! e) = (if e = c then [] else kids (H ! e))"
      using that(1) arg_cong [OF new, of "\<lambda>xs. xs ! e"] by (simp add: nth_list_update split: if_splits)
    then have "edge H e d" using that len by (auto simp: edge_def split: if_splits)
    then show ?thesis using edge_less [OF assms(1)] len by simp
  qed
  ultimately show ?thesis unfolding contexts_ok_def new by blast
next
  case (PAppend c)
  then have c: "c < length H" using assms(2) by (simp add: page_ref_def)
  let ?n = "length H"
  have new: "map kids (page_step p H) = (map kids H)[c := map kids H ! c @ [?n]] @ [[]]"
    using PAppend c by (simp add: page_step_def append_context_def map_update)
  have fresh: "\<forall>xs\<in>set (map kids H). ?n \<notin> set xs"
  proof (intro ballI notI)
    fix xs assume xs: "xs \<in> set (map kids H)" "?n \<in> set xs"
    then obtain e where "e < length H" "xs = kids (H ! e)" by (metis in_set_conv_nth length_map nth_map)
    then have "edge H e ?n" using xs(2) by (simp add: edge_def)
    then show False using edge_less [OF assms(1)] by blast
  qed
  have "distinct (concat ((map kids H)[c := map kids H ! c @ [?n]] @ [[]]))"
    using distinct_concat_append_at [OF contexts_ok_distinct [OF assms(1)] _ fresh, of c] c by simp
  moreover have "e < d \<and> d < length (page_step p H)" if "e < length (page_step p H)" "d \<in> set (kids (page_step p H ! e))" for e d
  proof -
    have len: "length (page_step p H) = Suc ?n" using arg_cong [OF new, of length] by simp
    then have k: "kids (page_step p H ! e) = (if e = ?n then [] else if e = c then kids (H ! c) @ [?n] else kids (H ! e))"
      using that(1) c arg_cong [OF new, of "\<lambda>xs. xs ! e"] by (auto simp: nth_append nth_list_update split: if_splits)
    then have "e < ?n" using that(1,2) len by (auto split: if_splits)
    then have "edge H e d \<or> e = c \<and> d = ?n" using that(2) k by (auto simp: edge_def split: if_splits)
    then show ?thesis using edge_less [OF assms(1), of e d] len c by auto
  qed
  ultimately show ?thesis unfolding contexts_ok_def new by blast
qed

lemma page_runs_ok: "page_runs ps H = Some H' \<Longrightarrow> contexts_ok H \<Longrightarrow> H \<noteq> [] \<Longrightarrow> contexts_ok H' \<and> H' \<noteq> []"
proof (induction ps arbitrary: H)
  case (Cons p ps)
  then have ref: "page_ref p < length H" "page_runs ps (page_step p H) = Some H'" by (auto split: if_splits)
  have "page_step p H \<noteq> []"
    using Cons.prems(3) by (cases p) (simp_all add: page_step_def render_write_def render_disable_def render_clear_def append_context_def)
  then show ?case using Cons.IH [OF ref(2)] page_step_ok [OF Cons.prems(2) ref(1)] by blast
qed simp

section \<open>Putting the page together\<close>

definition btext :: "contexts \<Rightarrow> block \<Rightarrow> byte list" where
  "btext H b = (case b of BText t \<Rightarrow> t | BCtx d \<Rightarrow> flat H d)"

definition block_kids :: "block list \<Rightarrow> nat list" where
  "block_kids bs = concat (map (\<lambda>b. case b of BText t \<Rightarrow> [] | BCtx d \<Rightarrow> [d]) bs)"

lemma block_kids_simps [simp]:
  "block_kids [] = []" "block_kids (BText t # bs) = block_kids bs" "block_kids (BCtx d # bs) = d # block_kids bs"
  "block_kids (bs @ cs) = block_kids bs @ block_kids cs"
  by (simp_all add: block_kids_def)

lemma kids_block_kids: "kids r = block_kids (rc_blocks r)"
  by (simp add: kids_def block_kids_def)

lemma btext_simps [simp]: "btext H (BText t) = t" "btext H (BCtx d) = flat H d"
  by (simp_all add: btext_def)

lemma flat_blocks:
  assumes "contexts_ok H" and "c < length H"
  shows "flat H c = concat (map (btext H) (rc_blocks (H ! c)))"
proof -
  have "c < d" if "BCtx d \<in> set (rc_blocks (H ! c))" for d
  proof -
    have "d \<in> set (kids (H ! c))" using that by (force simp: kids_def)
    then have "edge H c d" using assms(2) by (simp add: edge_def)
    then show ?thesis using edge_less [OF assms(1)] by blast
  qed
  then have "map (\<lambda>b. case b of BText t \<Rightarrow> t | BCtx d \<Rightarrow> if c < d then flat H d else []) (rc_blocks (H ! c)) =
      map (btext H) (rc_blocks (H ! c))"
    by (intro map_cong) (auto simp: btext_def split: block.splits)
  then show ?thesis using assms(2) by (simp only: flat.simps [of H c] if_True)
qed

lemma emptied_other [simp]: "e \<noteq> c \<Longrightarrow> emptied c H ! e = H ! e" "length (emptied c H) = length H"
  by (simp_all add: emptied_def)

definition agree :: "contexts \<Rightarrow> contexts \<Rightarrow> nat list \<Rightarrow> bool" where
  "agree H0 H ds \<longleftrightarrow> length H = length H0 \<and> (\<forall>d\<in>set ds. \<forall>e. under H0 d e \<longrightarrow> H ! e = H0 ! e)"

definition untouched :: "contexts \<Rightarrow> contexts \<Rightarrow> contexts \<Rightarrow> nat list \<Rightarrow> bool" where
  "untouched H0 H H' ds \<longleftrightarrow> length H' = length H \<and> (\<forall>e. (\<forall>d\<in>set ds. \<not> under H0 d e) \<longrightarrow> H' ! e = H ! e)"

lemma finalize_Nil: "finalize_blocks [] ss H = Some (ss, H)"
  by (subst finalize_blocks.simps) simp

lemma finalize_BText: "finalize_blocks (BText t # bs) ss H = finalize_blocks bs (ss @ t) H"
  by (subst finalize_blocks.simps) simp

lemma finalize_BCtx: "finalize_blocks (BCtx d # bs) ss H =
   Option.bind (finalize_blocks (rc_blocks (H ! d)) [] H) (\<lambda>r. finalize_blocks bs (ss @ fst r) (emptied d (snd r)))"
  by (subst finalize_blocks.simps) simp

lemma finalize_blocks_text:
  assumes ok: "contexts_ok H0" and "c < length H0" "rc_blocks (H0 ! c) = before @ bs" "agree H0 H (block_kids bs)"
  shows "\<exists>H'. finalize_blocks bs ss H = Some (ss @ concat (map (btext H0) bs), H') \<and> untouched H0 H H' (block_kids bs)"
  using assms(2-4)
proof (induction "length H0 - c" arbitrary: c before bs ss H rule: less_induct)
  case less
  from less.prems(2,3) show ?case
  proof (induction bs arbitrary: before ss H)
    case Nil
    then show ?case by (simp add: finalize_Nil untouched_def agree_def)
  next
    case (Cons b bs)
    have rest: "rc_blocks (H0 ! c) = (before @ [b]) @ bs" using Cons.prems(1) by simp
    show ?case
    proof (cases b)
      case (BText t)
      then show ?thesis using Cons.IH [OF rest, of H "ss @ t"] Cons.prems(2) by (simp add: finalize_BText)
    next
      case (BCtx d)
      have kids: "kids (H0 ! c) = block_kids before @ d # block_kids bs" using rest BCtx by (simp add: kids_block_kids)
      then have cd: "edge H0 c d" using less.prems(1) by (simp add: edge_def)
      note dl = edge_less [OF ok cd]
      have Hd: "H ! d = H0 ! d" using Cons.prems(2) BCtx by (simp add: agree_def)
      have "length H0 - d < length H0 - c" using dl less.prems(1) by linarith
      moreover have "agree H0 H (block_kids (rc_blocks (H0 ! d)))"
        using Cons.prems(2) BCtx dl under_edge [of H0 d]
        by (auto simp: agree_def edge_def kids_block_kids)
      ultimately obtain H1 where H1: "finalize_blocks (rc_blocks (H0 ! d)) [] H = Some (flat H0 d, H1)"
          "untouched H0 H H1 (block_kids (rc_blocks (H0 ! d)))"
        using less.hyps [of d "[]" "rc_blocks (H0 ! d)" H "[]"] dl flat_blocks [OF ok] by auto
      have out: "emptied d H1 ! e = H ! e" if "\<not> under H0 d e" for e
      proof -
        have "e \<noteq> d" using that by auto
        moreover have "\<not> under H0 d' e" if "d' \<in> set (block_kids (rc_blocks (H0 ! d)))" for d'
          using that \<open>\<not> under H0 d e\<close> dl under_edge [of H0 d d' e] by (auto simp: edge_def kids_block_kids)
        ultimately show ?thesis using H1(2) by (simp add: untouched_def)
      qed
      have "distinct (kids (H0 ! c))"
        using contexts_ok_distinct [OF ok] less.prems(1) by (simp add: distinct_concat_iff)
      then have "d \<notin> set (block_kids bs)" unfolding kids by simp
      have "emptied d H1 ! e = H0 ! e" if "d' \<in> set (block_kids bs)" "under H0 d' e" for d' e
      proof -
        have "edge H0 c d'" "d' \<noteq> d" using that(1) kids less.prems(1) \<open>d \<notin> set (block_kids bs)\<close> by (auto simp: edge_def)
        then have "\<not> under H0 d e" using siblings_apart [OF ok _ cd _ that(2)] by blast
        then show ?thesis using out Cons.prems(2) that BCtx by (simp add: agree_def)
      qed
      then have "agree H0 (emptied d H1) (block_kids bs)"
        using Cons.prems(2) H1(2) by (simp add: agree_def untouched_def)
      then obtain H2 where H2: "finalize_blocks bs (ss @ flat H0 d) (emptied d H1) =
          Some ((ss @ flat H0 d) @ concat (map (btext H0) bs), H2)" "untouched H0 (emptied d H1) H2 (block_kids bs)"
        using Cons.IH [OF rest] by blast
      have "untouched H0 H H2 (block_kids (b # bs))"
        using H1(2) H2(2) out BCtx by (simp add: untouched_def)
      then show ?thesis using H1(1) H2(1) BCtx Hd by (simp add: finalize_BCtx)
    qed
  qed
qed

lemma finalize_text:
  assumes "contexts_ok H" and "c < length H"
  shows "\<exists>H'. finalize c H = Some (flat H c, H')"
proof -
  have "agree H H (block_kids (rc_blocks (H ! c)))" by (simp add: agree_def)
  from finalize_blocks_text [OF assms, of "[]" _ H "[]", OF _ this] show ?thesis
    using flat_blocks [OF assms] by (auto simp: finalize_def)
qed

text \<open>Writing to a context changes the text of the contexts around it in one place.\<close>

lemma edge_write: "c < length H \<Longrightarrow> edge (render_write c t H) = edge H"
  by (auto simp: edge_def render_write_def nth_list_update fun_eq_iff)

lemma write_blocks: "\<not> rc_off r \<Longrightarrow> concat (map f (rc_blocks (ctx_write t r))) = concat (map f (rc_blocks r)) @ t"
  if "\<And>u v. f (BText (u @ v)) = f (BText u) @ f (BText v)" "\<And>u. f (BText u) = u"
proof -
  assume "\<not> rc_off r"
  moreover have "rc_blocks r = rev (rev (rc_blocks r))" by simp
  ultimately show ?thesis using that
    by (cases "rev (rc_blocks r)" ; cases "hd (rev (rc_blocks r))") (auto simp: ctx_write_def simp del: rev_rev_ident)
qed

lemma flat_write_other:
  assumes "contexts_ok H" and "c < length H" and "\<not> under H d c"
  shows "flat (render_write c t H) d = flat H d"
proof (cases "d < length H")
  case True
  then show ?thesis using assms(3)
  proof (induction "length H - d" arbitrary: d rule: less_induct)
    case less
    have ok: "contexts_ok (render_write c t H)"
      using page_step_ok [OF assms(1), of "PWriteTo c t"] assms(2) by (simp add: page_step_def page_ref_def)
    have same: "render_write c t H ! d = H ! d" using less.prems(2) unfolding render_write_def by (metis nth_list_update_neq under_refl)
    have "btext (render_write c t H) b = btext H b" if b: "b \<in> set (rc_blocks (H ! d))" for b
    proof (cases b)
      case (BCtx e)
      then have "edge H d e" using b less.prems(1) by (force simp: edge_def kids_def)
      then show ?thesis
        using less.hyps [of e] edge_less [OF assms(1), of d e] less.prems under_edge [of H d e c] BCtx by fastforce
    qed simp
    then have eq: "map (btext (render_write c t H)) (rc_blocks (H ! d)) = map (btext H) (rc_blocks (H ! d))" by (rule map_cong [OF refl])
    have len: "d < length (render_write c t H)" using less.prems(1) by (simp add: render_write_def)
    show ?case unfolding flat_blocks [OF ok len] flat_blocks [OF assms(1) less.prems(1)] same eq by (rule refl)
  qed
next
  case False
  then show ?thesis by (simp add: flat.simps render_write_def)
qed

lemma flat_write_in_place:
  assumes ok: "contexts_ok H" and "c < length H" "\<not> rc_off (H ! c)" and "under H a c" "a < length H"
  shows "\<exists>pre post. flat H a = pre @ flat H c @ post \<and> flat (render_write c t H) a = pre @ flat H c @ t @ post"
  using assms(4,5) unfolding under_def
proof (induction rule: converse_rtranclp_induct)
  case base
  have ok': "contexts_ok (render_write c t H)"
    using page_step_ok [OF ok, of "PWriteTo c t"] assms(2) by (simp add: page_step_def page_ref_def)
  have "btext (render_write c t H) b = btext H b" if "b \<in> set (rc_blocks (H ! c))" for b
  proof (cases b)
    case (BCtx e)
    then have "edge H c e" using that assms(2) by (force simp: edge_def kids_def)
    then have "\<not> under H e c" using under_le [OF ok, of e c] edge_less [OF ok, of c e] by auto
    then show ?thesis using flat_write_other [OF ok assms(2)] BCtx by simp
  qed simp
  then have same: "concat (map (btext (render_write c t H)) (rc_blocks (H ! c))) = flat H c"
    using flat_blocks [OF ok assms(2)] by (metis map_cong)
  have "flat (render_write c t H) c = concat (map (btext (render_write c t H)) (rc_blocks (ctx_write t (H ! c))))"
    using flat_blocks [OF ok', of c] assms(2) by (simp add: render_write_def)
  also have "\<dots> = flat H c @ t" using write_blocks [of "btext (render_write c t H)"] assms(3) same by simp
  finally show ?case by (intro exI [of _ "[]"]) simp
next
  case (step a d)
  have d: "d < length H" using edge_less [OF ok step.hyps(1)] by simp
  obtain pre post where IH: "flat H d = pre @ flat H c @ post" "flat (render_write c t H) d = pre @ flat H c @ t @ post"
    using step.IH d by blast
  have "BCtx d \<in> set (rc_blocks (H ! a))" using step.hyps(1) by (auto simp: edge_def kids_def split: block.splits)
  then obtain xs ys where bl: "rc_blocks (H ! a) = xs @ BCtx d # ys" by (meson split_list)
  have kids: "kids (H ! a) = block_kids xs @ d # block_kids ys" using bl by (simp add: kids_block_kids)
  have "distinct (kids (H ! a))" using contexts_ok_distinct [OF ok] step.prems by (simp add: distinct_concat_iff)
  then have nd: "d \<notin> set (block_kids (xs @ ys))" unfolding kids by simp
  have other: "btext (render_write c t H) b = btext H b" if "b \<in> set (xs @ ys)" for b
  proof (cases b)
    case (BCtx e)
    then have "e \<in> set (block_kids (xs @ ys))" using that by (force simp: block_kids_def)
    then have "edge H a e" "e \<noteq> d" using kids nd step.prems by (auto simp: edge_def)
    then have "\<not> under H e c" using siblings_apart [OF ok step.hyps(1), of e c] step.hyps(2) by (auto simp: under_def)
    then show ?thesis using flat_write_other [OF ok assms(2)] BCtx by simp
  qed simp
  have ac: "a \<noteq> c" using edge_less [OF ok step.hyps(1)] under_le [OF ok, of d c] step.hyps(2) by (auto simp: under_def)
  have ok': "contexts_ok (render_write c t H)"
    using page_step_ok [OF ok, of "PWriteTo c t"] assms(2) by (simp add: page_step_def page_ref_def)
  have "flat H a = concat (map (btext H) xs) @ flat H d @ concat (map (btext H) ys)"
    using flat_blocks [OF ok step.prems] bl by simp
  moreover have "flat (render_write c t H) a = concat (map (btext (render_write c t H)) xs) @ flat (render_write c t H) d @
      concat (map (btext (render_write c t H)) ys)"
    using flat_blocks [OF ok', of a] step.prems bl ac by (simp add: render_write_def)
  moreover have "map (btext (render_write c t H)) xs = map (btext H) xs" "map (btext (render_write c t H)) ys = map (btext H) ys"
    using other by simp_all
  ultimately show ?case using IH
    by (intro exI [of _ "concat (map (btext H) xs) @ pre"] exI [of _ "post @ concat (map (btext H) ys)"]) simp
qed

lemma page_start: "contexts_ok [render_context]" "[render_context] \<noteq> []"
  by (simp_all add: contexts_ok_def)

text \<open>
  C23. Whatever a page did, in whatever order, its output is put together without an endless loop; and text
  that a page writes to one of its contexts appears in the output right behind what that context
  already holds, wherever the context stands.
\<close>

theorem written_in_place:
  assumes "page_runs ps [render_context] = Some H" and "under H 0 c" "c < length H" and "\<not> rc_off (H ! c)"
  shows "\<exists>before after inner H1 H2 H3. finalize c H = Some (inner, H1) \<and>
    finalize 0 H = Some (before @ inner @ after, H2) \<and>
    finalize 0 (render_write c t H) = Some (before @ inner @ t @ after, H3)"
proof -
  have ok: "contexts_ok H" "0 < length H" using page_runs_ok [OF assms(1) page_start] by simp_all
  have ok': "contexts_ok (render_write c t H)" "0 < length (render_write c t H)"
    using page_step_ok [OF ok(1), of "PWriteTo c t"] assms(3) ok(2) by (simp_all add: page_step_def page_ref_def render_write_def)
  obtain pre post where "flat H 0 = pre @ flat H c @ post" "flat (render_write c t H) 0 = pre @ flat H c @ t @ post"
    using flat_write_in_place [OF ok(1) assms(3,4,2) ok(2)] by blast
  then show ?thesis
    using finalize_text [OF ok] finalize_text [OF ok'] finalize_text [OF ok(1) assms(3)] by metis
qed

theorem written_in_place_witness:
  "\<exists>before after inner H1 H2 H3.
    finalize 1 [\<lparr>rc_off = False, rc_length = 1, rc_blocks = [BCtx 1, BText [66]]\<rparr>, \<lparr>rc_off = False, rc_length = 1, rc_blocks = [BText [65]]\<rparr>] =
      Some (inner, H1) \<and>
    finalize 0 [\<lparr>rc_off = False, rc_length = 1, rc_blocks = [BCtx 1, BText [66]]\<rparr>, \<lparr>rc_off = False, rc_length = 1, rc_blocks = [BText [65]]\<rparr>] =
      Some (before @ inner @ after, H2) \<and>
    finalize 0 (render_write 1 [67]
        [\<lparr>rc_off = False, rc_length = 1, rc_blocks = [BCtx 1, BText [66]]\<rparr>, \<lparr>rc_off = False, rc_length = 1, rc_blocks = [BText [65]]\<rparr>]) =
      Some (before @ inner @ [67] @ after, H3)"
proof (rule written_in_place)
  let ?H = "[\<lparr>rc_off = False, rc_length = 1, rc_blocks = [BCtx 1, BText [66]]\<rparr>, \<lparr>rc_off = False, rc_length = 1, rc_blocks = [BText [65]]\<rparr>]"
  show "page_runs [PAppend 0, PWriteTo 0 [66], PWriteTo 1 [65]] [render_context] = Some ?H"
    by (simp add: page_step_def page_ref_def append_context_def render_write_def ctx_write_def render_context_def)
  have "edge ?H 0 1" by (simp add: edge_def kids_def)
  then show "under ?H 0 1" by (rule under_edge) simp
qed simp_all

end
