(* ===== verification/Web_Env.thy ===== *)
theory Web_Env
  imports Web_Socket Web_Render Json_Roundtrip "HOL-Library.List_Lexorder"
begin

text \<open>
  The environment of a request, \<^verbatim>\<open>src/90s/httpd/environment.cpp\<close>: headers, cookies, URLs with encrypted
  parameters, the text of the response and the change to a web socket.  A \<^verbatim>\<open>dict\<close> is a \<^verbatim>\<open>std::map\<close>: where
  its order is visible it is the sorted list of its pairs, elsewhere a map.  The pointers to the local
  and the global context are not part of it: a page is a function that holds them.
\<close>

section \<open>Dictionaries and letters\<close>

fun dict_put :: "byte list \<Rightarrow> byte list \<Rightarrow> (byte list \<times> byte list) list \<Rightarrow> (byte list \<times> byte list) list" where
  "dict_put k v [] = [(k, v)]"
| "dict_put k v (p # d) =
     (if k = fst p then (k, v) # d else if k < fst p then (k, v) # p # d else p # dict_put k v d)"

text \<open>\<open>std::tolower\<close> of the C locale.\<close>

definition c_tolower :: "byte \<Rightarrow> byte" where
  "c_tolower c = (if 65 \<le> unat c \<and> unat c \<le> 90 then c + 32 else c)"

abbreviation (input) lower :: "byte list \<Rightarrow> byte list" where
  "lower k \<equiv> map c_tolower k"

definition crlf :: "byte list" where "crlf = [13, 10]"

definition colon :: "byte list" where "colon = [58, 32]"

section \<open>The environment\<close>

record http_env =
  he_status :: "byte list"
  he_output :: contexts
  he_out_headers :: "(byte list \<times> byte list) list"
  he_estimate :: nat
  he_redirects :: bool
  he_method :: "byte list"
  he_endpoint :: "byte list"
  he_base :: "byte list"
  he_peer :: "byte list"
  he_fd :: "fd option"
  he_signed :: "byte list \<rightharpoonup> byte list"
  he_query :: "byte list \<rightharpoonup> byte list"
  he_headers :: "byte list \<rightharpoonup> byte list"
  he_body :: "byte list"

definition environment :: http_env where
  "environment = \<lparr>he_status = cstr ''200 OK'', he_output = [render_context], he_out_headers = [], he_estimate = 0,
     he_redirects = False, he_method = cstr ''GET'', he_endpoint = cstr ''/'', he_base = [], he_peer = [],
     he_fd = None, he_signed = Map.empty, he_query = Map.empty, he_headers = Map.empty, he_body = []\<rparr>"

definition env_clear :: "http_env \<Rightarrow> http_env" where
  "env_clear e = e\<lparr>he_status := cstr ''200 OK'', he_out_headers := [],
     he_output := render_clear 0 (he_output e), he_estimate := 0\<rparr>"

definition env_disable :: "http_env \<Rightarrow> http_env" where
  "env_disable e = e\<lparr>he_output := render_disable 0 (he_output e)\<rparr>"

definition env_header :: "byte list \<Rightarrow> http_env \<Rightarrow> byte list option" where
  "env_header key e = he_headers e (lower key)"

text \<open>
  The three ways to set a header.  The first one, for names and values that are not temporary, computes
  the name in small letters and then stores under the name as it is.
\<close>

definition put_header :: "byte list \<Rightarrow> byte list \<Rightarrow> http_env \<Rightarrow> http_env" where
  "put_header key v e =
     e\<lparr>he_estimate := he_estimate e + (length key + 4 + length v), he_out_headers := dict_put key v (he_out_headers e)\<rparr>"

definition put_header_moved :: "byte list \<Rightarrow> byte list \<Rightarrow> http_env \<Rightarrow> http_env" where
  "put_header_moved key v e =
     e\<lparr>he_estimate := he_estimate e + (length key + 4 + length v),
       he_out_headers := dict_put (lower key) v (he_out_headers e)\<rparr>"

definition header_byte :: "byte \<Rightarrow> byte list" where
  "header_byte c =
     (if c = c_dquote then [c_backslash, c_dquote]
      else if c = 13 then cstr ''%x0D''
      else if c = 10 then cstr ''%x0A''
      else [c])"

definition header_params :: "byte list \<Rightarrow> (byte list \<times> byte list) list \<Rightarrow> byte list" where
  "header_params v params =
     fold (\<lambda>(k, w) val. val @ [59, 32] @ k @ [61, c_dquote] @ concat (map header_byte w) @ [c_dquote])
       params (concat (map header_byte v))"

definition put_header_params :: "byte list \<Rightarrow> byte list \<Rightarrow> (byte list \<times> byte list) list \<Rightarrow> http_env \<Rightarrow> http_env" where
  "put_header_params key v params e =
     (let val = header_params v params in
      e\<lparr>he_estimate := he_estimate e + (length key + 4 + length val),
        he_out_headers := dict_put (lower key) val (he_out_headers e)\<rparr>)"

definition env_content_type :: "byte list \<Rightarrow> http_env \<Rightarrow> http_env" where
  "env_content_type v e = e\<lparr>he_out_headers := dict_put (cstr ''content-type'') v (he_out_headers e)\<rparr>"

definition env_status :: "byte list \<Rightarrow> http_env \<Rightarrow> http_env" where
  "env_status v e = e\<lparr>he_status := v\<rparr>"

definition env_redirect :: "byte list \<Rightarrow> http_env \<Rightarrow> http_env" where
  "env_redirect target e =
     e\<lparr>he_status := cstr ''302 Temporary redirect'',
       he_out_headers := dict_put (cstr ''location'') target (he_out_headers e), he_redirects := True\<rparr>"

text \<open>Output goes to the outermost context.\<close>

definition env_write :: "byte list \<Rightarrow> http_env \<Rightarrow> http_env" where
  "env_write t e = e\<lparr>he_output := render_write 0 t (he_output e)\<rparr>"

text \<open>\<open>write_header\<close>, for the headers of the request.\<close>

definition write_header :: "byte list \<Rightarrow> byte list \<Rightarrow> (byte list \<rightharpoonup> byte list) \<Rightarrow> (byte list \<rightharpoonup> byte list)" where
  "write_header key v hs = hs(lower key \<mapsto> v)"

section \<open>Cookies and forms\<close>

function split_cookies :: "byte list \<Rightarrow> byte list list" where
  "split_cookies t =
     (case view_search [59, 32] t of
        None \<Rightarrow> [t]
      | Some n \<Rightarrow> take n t # split_cookies (drop (n + 2) t))"
  by pat_completeness auto
termination
  by (relation "measure length") (auto dest: view_search_Some)

declare split_cookies.simps [simp del]

definition env_cookies :: "http_env \<Rightarrow> (byte list \<rightharpoonup> byte list)" where
  "env_cookies e =
     (case env_header (cstr ''cookie'') e of
        None \<Rightarrow> Map.empty
      | Some hdr \<Rightarrow>
          fold (\<lambda>v jar. case view_find 61 v of None \<Rightarrow> jar | Some n \<Rightarrow> jar(take n v \<mapsto> drop (n + 1) v))
            (split_cookies hdr) Map.empty)"

definition env_form :: "http_env \<Rightarrow> (byte list \<rightharpoonup> byte list) option" where
  "env_form e = parse_query_string (he_body e)"

section \<open>Keys and addresses\<close>

definition env_encrypt :: "env \<Rightarrow> crypto_lib \<Rightarrow> allocator \<Rightarrow> (nat \<Rightarrow> byte) \<Rightarrow> byte list \<Rightarrow> byte list \<Rightarrow> bool \<Rightarrow>
    http_env \<Rightarrow> server \<Rightarrow> ((string + byte list) \<times> server) option" where
  "env_encrypt env lib A stk txt key full e s = util_cipher env lib A stk txt (he_base e @ key) True full s"

definition env_decrypt :: "env \<Rightarrow> crypto_lib \<Rightarrow> allocator \<Rightarrow> (nat \<Rightarrow> byte) \<Rightarrow> byte list \<Rightarrow> byte list \<Rightarrow>
    http_env \<Rightarrow> server \<Rightarrow> ((string + byte list) \<times> server) option" where
  "env_decrypt env lib A stk txt key e s = util_cipher env lib A stk txt (he_base e @ key) False True s"

text \<open>\<open>stream()\<close> is a null pointer before the server has stored the connection.\<close>

definition remote_ip :: "env \<Rightarrow> http_env \<Rightarrow> server \<Rightarrow> (byte list \<times> server) option" where
  "remote_ip env e s =
     (case env_header (cstr ''x-real-ip'') e of
        Some r \<Rightarrow> Some (r, s)
      | None \<Rightarrow>
          (case he_fd e of
             None \<Rightarrow> None
           | Some f \<Rightarrow> (let r = os_call env ''remote_addr'' [LInt f] s in Some (a_bytes (fst r), snd r))))"

section \<open>The text of a response\<close>

definition header_line :: "byte list \<times> byte list \<Rightarrow> byte list" where
  "header_line h = fst h @ colon @ snd h @ crlf"

definition http_response :: "bool \<Rightarrow> http_env \<Rightarrow> (byte list \<times> http_env) option" where
  "http_response with_content_length e =
     Option.bind (if he_redirects e then Some ([], he_output e) else finalize 0 (he_output e)) (\<lambda>r.
       let rendered = fst r;
           hs = (if with_content_length
                 then dict_put (cstr ''content-length'') (decimal (int (length rendered))) (he_out_headers e)
                 else he_out_headers e) in
       Some (fold (\<lambda>h t. t @ header_line h) hs (cstr ''HTTP/1.1 '' @ he_status e @ crlf) @ crlf @ rendered,
             e\<lparr>he_output := snd r, he_out_headers := hs,
               he_estimate := he_estimate e + 9 + length (he_status e) + 4 + length rendered\<rparr>))"

text \<open>The answer that turns a connection into a web socket.\<close>

definition websocket_upgrade :: "env \<Rightarrow> crypto_lib \<Rightarrow> allocator \<Rightarrow> (nat \<Rightarrow> byte) \<Rightarrow> fd \<Rightarrow> http_env \<Rightarrow> server \<Rightarrow>
    ((string + unit) \<times> http_env \<times> server) option" where
  "websocket_upgrade env lib A stk f e s =
     (case env_header (cstr ''sec-websocket-key'') e of
        None \<Rightarrow> Some (Inl PROTOCOL_ERROR, e, s)
      | Some secKey \<Rightarrow>
          Option.bind (util_sha1 lib stk (secKey @ cstr ''258EAFA5-E914-47DA-95CA-C5AB0DC85B11'')) (\<lambda>d.
          Option.bind (util_to_b64 lib A stk d) (\<lambda>sign.
          let e1 = put_header (cstr ''Sec-WebSocket-Accept'') sign
                (put_header_moved (cstr ''Connection'') (cstr ''upgrade'')
                  (put_header_moved (cstr ''Upgrade'') (cstr ''websocket'')
                    (env_status (cstr ''101 Switching protocols'') e))) in
          Option.bind (http_response False e1) (\<lambda>r.
          let w = fd_write env f (fst r) s in
          Some (if fst w then Inr () else Inl STREAM_CLOSED, snd r, snd w)))))"

end
