(* ===== verification/Web_Http.thy ===== *)
theory Web_Http
  imports Web_Env
begin

text \<open>
  The loop of the HTTP server, \<open>on_accept\<close> of \<^verbatim>\<open>src/90s/httpd/server.cpp\<close>: one request is read and parsed,
  a page is chosen and rendered, and the response is written.  A page is any function from the
  environment and the state of the system to a result; its name in the table of pages is an endpoint
  or a method, a space and an endpoint.
\<close>

section \<open>Pages and error pages\<close>

datatype http_status = BadRequest | Unauthorized | Forbidden | NotFound | InternalServerError

text \<open>
  A page is a coroutine that starts at once.  An exception it throws after it has waited for something
  is found in its promise; an exception before that leaves a promise without a result, and whoever
  waits for it is never resumed (\<^verbatim>\<open>aiopromise.hpp\<close>).
\<close>

datatype page_result = PageDone | PageFails http_status | PageThrows "byte list" | PageThrowsAtOnce "byte list"

type_synonym page = "http_env \<Rightarrow> server \<Rightarrow> (page_result \<times> http_env \<times> server) option"

definition status_line_of :: "http_status \<Rightarrow> byte list" where
  "status_line_of st =
     (case st of
        NotFound \<Rightarrow> cstr ''404 Not found''
      | BadRequest \<Rightarrow> cstr ''400 Bad request''
      | Unauthorized \<Rightarrow> cstr ''401 Unauthorized''
      | Forbidden \<Rightarrow> cstr ''403 Forbidden''
      | InternalServerError \<Rightarrow> cstr ''500 Internal server error'')"

definition status_text_of :: "http_status \<Rightarrow> byte list" where
  "status_text_of st =
     (case st of
        NotFound \<Rightarrow> cstr ''Not found''
      | BadRequest \<Rightarrow> cstr ''Bad request''
      | Unauthorized \<Rightarrow> cstr ''Unauthorized''
      | Forbidden \<Rightarrow> cstr ''Forbidden''
      | InternalServerError \<Rightarrow> cstr ''Internal server error'')"

definition render_error :: "http_status \<Rightarrow> http_env \<Rightarrow> http_env" where
  "render_error st e =
     env_write (status_text_of st)
       (env_status (status_line_of st) (put_header_moved (cstr ''Content-type'') (cstr ''text/plain'') e))"

record site =
  st_pages :: "byte list \<rightharpoonup> page"
  st_default :: page
  st_base :: "byte list"

section \<open>Parsing the head\<close>

text \<open>
  The method, the script and the position of the second space, which is counted from behind the first
  space.  The connection is dropped when the head has no line end or the line not two spaces.
\<close>

definition request_line :: "byte list \<Rightarrow> (byte list \<times> byte list \<times> nat) option" where
  "request_line data =
     (case view_search crlf data of
        None \<Rightarrow> None
      | Some p \<Rightarrow>
          (let status = take p data in
           case view_find 32 status of
             None \<Rightarrow> None
           | Some m \<Rightarrow>
               (let status = drop (m + 1) (take p data) in
                case view_find 32 status of
                  None \<Rightarrow> None
                | Some pivot \<Rightarrow> Some (take m (take p data), take pivot status, pivot))))"

definition read_header :: "byte list \<Rightarrow> (byte list \<rightharpoonup> byte list) \<Rightarrow> (byte list \<rightharpoonup> byte list)" where
  "read_header line hs =
     (case view_search colon line of
        None \<Rightarrow> hs
      | Some mid_key \<Rightarrow> write_header (take mid_key line) (drop (mid_key + 2) line) hs)"

function header_loop :: "byte list \<Rightarrow> (byte list \<rightharpoonup> byte list) \<Rightarrow> (byte list \<rightharpoonup> byte list)" where
  "header_loop remaining hs =
     (case view_search crlf remaining of
        None \<Rightarrow> read_header remaining hs
      | Some pivot \<Rightarrow>
          (if length remaining \<le> pivot + 2 then read_header (take pivot remaining) hs
           else header_loop (drop (pivot + 2) remaining) (read_header (take pivot remaining) hs)))"
  by pat_completeness auto
termination by (relation "measure (\<lambda>(remaining, hs). length remaining)") auto

declare header_loop.simps [simp del]

text \<open>\<open>remaining.substr(pivot + 2)\<close> throws when the position is behind the end.\<close>

definition parse_headers :: "byte list \<Rightarrow> nat \<Rightarrow> (byte list \<rightharpoonup> byte list) \<Rightarrow> (byte list \<rightharpoonup> byte list) option" where
  "parse_headers data pivot hs = (if pivot + 2 \<le> length data then Some (header_loop (drop (pivot + 2) data) hs) else None)"

text \<open>The parameters that arrive encrypted under the master key and the endpoint.\<close>

definition read_signed :: "env \<Rightarrow> crypto_lib \<Rightarrow> allocator \<Rightarrow> (nat \<Rightarrow> byte) \<Rightarrow> byte list \<Rightarrow> byte list \<Rightarrow>
    (byte list \<rightharpoonup> byte list) \<Rightarrow> http_env \<Rightarrow> server \<Rightarrow> (http_env \<times> server) option" where
  "read_signed env lib A stk base endpoint query e s =
     (if length base < 16 then Some (e, s)
      else
        (case query (cstr ''e'') of
           None \<Rightarrow> Some (e, s)
         | Some v \<Rightarrow>
             Option.bind (util_from_b64 env lib A stk v s) (\<lambda>(d, s1).
               case d of
                 Inl _ \<Rightarrow> Some (e, s1)
               | Inr decoded \<Rightarrow>
                   Option.bind (util_cipher env lib A stk decoded (base @ endpoint) False False s1) (\<lambda>(p, s2).
                     case p of
                       Inl _ \<Rightarrow> Some (e, s2)
                     | Inr decrypted \<Rightarrow>
                         Option.bind (parse_query_string decrypted) (\<lambda>q. Some (e\<lparr>he_signed := q\<rparr>, s2))))))"

text \<open>The endpoint and the parameters.\<close>

definition parse_script :: "env \<Rightarrow> crypto_lib \<Rightarrow> allocator \<Rightarrow> (nat \<Rightarrow> byte) \<Rightarrow> byte list \<Rightarrow> byte list \<Rightarrow> http_env \<Rightarrow> server \<Rightarrow>
    (byte list \<times> http_env \<times> server) option" where
  "parse_script env lib A stk base script e s =
     (case view_find 63 script of
        None \<Rightarrow> Option.bind (util_url_decode script) (\<lambda>endpoint. Some (endpoint, e, s))
      | Some pivot \<Rightarrow>
          Option.bind (util_url_decode (take pivot script)) (\<lambda>endpoint.
          Option.bind (parse_query_string (drop (pivot + 1) script)) (\<lambda>query.
          Option.bind (read_signed env lib A stk base endpoint query e s) (\<lambda>(e1, s1).
            Some (endpoint, e1\<lparr>he_query := query\<rparr>, s1)))))"

definition find_page :: "site \<Rightarrow> byte list \<Rightarrow> byte list \<Rightarrow> page" where
  "find_page site meth endpoint =
     (case st_pages site endpoint of
        Some p \<Rightarrow> p
      | None \<Rightarrow>
          (case st_pages site (meth @ [32] @ endpoint) of
             Some p \<Rightarrow> p
           | None \<Rightarrow> st_default site))"

section \<open>The body\<close>

text \<open>\<open>atoll\<close>: spaces, a sign, digits, and whatever follows; the C library keeps to the range of the type.\<close>

definition c_isspace :: "byte \<Rightarrow> bool" where
  "c_isspace c \<longleftrightarrow> c = 32 \<or> 9 \<le> unat c \<and> unat c \<le> 13"

definition c_isdigit :: "byte \<Rightarrow> bool" where
  "c_isdigit c \<longleftrightarrow> 48 \<le> unat c \<and> unat c \<le> 57"

definition digits_value :: "byte list \<Rightarrow> nat" where
  "digits_value ds = fold (\<lambda>c n. 10 * n + (unat c - 48)) ds 0"

definition c_atoll :: "byte list \<Rightarrow> int" where
  "c_atoll t =
     (let u = dropWhile c_isspace t;
          neg = (u \<noteq> [] \<and> hd u = 45);
          w = (if u \<noteq> [] \<and> (hd u = 45 \<or> hd u = 43) then tl u else u);
          n = int (digits_value (takeWhile c_isdigit w)) in
      if neg then max (- (2 ^ 63)) (- n) else min (2 ^ 63 - 1) n)"

text \<open>The result \<open>None\<close> ends the connection.\<close>

definition read_body :: "env \<Rightarrow> fd \<Rightarrow> http_env \<Rightarrow> server \<Rightarrow> http_env option \<times> server" where
  "read_body env f e s =
     (case env_header (cstr ''content-length'') e of
        None \<Rightarrow> (Some e, s)
      | Some content_length \<Rightarrow>
          (let len = c_atoll content_length in
           if 0 < len then
             (case read_n env f (nat len) s of
                ((err, data), s1) \<Rightarrow> if err then (None, s1) else (Some (e\<lparr>he_body := data\<rparr>), s1))
           else (Some e, s)))"

section \<open>One request\<close>

text \<open>Up to the call of the page; \<open>None\<close> inside ends the connection.\<close>

definition prepare :: "site \<Rightarrow> byte list \<Rightarrow> fd \<Rightarrow> byte list \<Rightarrow> http_env \<Rightarrow> http_env" where
  "prepare site peer f endpoint e =
     (put_header_moved (cstr ''connection'') (cstr ''keep-alive'') e)\<lparr>he_endpoint := endpoint, he_base := st_base site,
       he_peer := peer, he_fd := Some f\<rparr>"

definition read_request :: "env \<Rightarrow> crypto_lib \<Rightarrow> allocator \<Rightarrow> (nat \<Rightarrow> byte) \<Rightarrow> site \<Rightarrow> byte list \<Rightarrow> fd \<Rightarrow> http_env \<Rightarrow> server \<Rightarrow>
    ((page \<times> http_env) option \<times> server) option" where
  "read_request env lib A stk site peer f e s =
     (case read_up_to env f [13, 10, 13, 10] s of
        ((err, data), s1) \<Rightarrow>
          if err then Some (None, s1)
          else
            (case request_line data of
               None \<Rightarrow> Some (None, s1)
             | Some (meth, script, pivot) \<Rightarrow>
                 Option.bind (parse_headers data pivot (he_headers e)) (\<lambda>hs.
                 Option.bind (parse_script env lib A stk (st_base site) script (e\<lparr>he_method := meth, he_headers := hs\<rparr>) s1)
                   (\<lambda>(endpoint, e2, s2).
                   case read_body env f e2 s2 of
                     (None, s3) \<Rightarrow> Some (None, s3)
                   | (Some e3, s3) \<Rightarrow>
                       Some (Some (find_page site meth endpoint, prepare site peer f endpoint e3), s3)))))"

definition render_page :: "page \<Rightarrow> http_env \<Rightarrow> server \<Rightarrow> (http_env option \<times> server) option" where
  "render_page page e s =
     Option.bind (page e s) (\<lambda>(r, e1, s1).
       Some (case r of
               PageDone \<Rightarrow> Some e1
             | PageThrows _ \<Rightarrow> Some (render_error InternalServerError (env_clear e1))
             | PageThrowsAtOnce _ \<Rightarrow> None
             | PageFails st \<Rightarrow> Some (render_error st (env_clear e1)), s1))"

text \<open>
  Each request gets a new environment; the coroutine returns with the connection, or is left where it
  waits.
\<close>

datatype accept_end = AcceptReturns | AcceptWaits

partial_function (option) accept_loop :: "env \<Rightarrow> crypto_lib \<Rightarrow> allocator \<Rightarrow> (nat \<Rightarrow> byte) \<Rightarrow> site \<Rightarrow> byte list \<Rightarrow> fd \<Rightarrow>
    server \<Rightarrow> (accept_end \<times> server) option" where
  "accept_loop env lib A stk site peer f s =
     Option.bind (read_request env lib A stk site peer f environment s) (\<lambda>r.
       case fst r of
         None \<Rightarrow> Some (AcceptReturns, snd r)
       | Some (page, e) \<Rightarrow>
           Option.bind (render_page page e (snd r)) (\<lambda>p.
             case fst p of
               None \<Rightarrow> Some (AcceptWaits, snd p)
             | Some e1 \<Rightarrow>
                 Option.bind (http_response True e1) (\<lambda>resp.
                   let w = fd_write env f (fst resp) (snd p) in
                   if fst w then accept_loop env lib A stk site peer f (snd w) else Some (AcceptReturns, snd w))))"

definition peer_of :: "env \<Rightarrow> fd \<Rightarrow> server \<Rightarrow> byte list \<times> server" where
  "peer_of env f s =
     (case s80_peername env f s of
        (None, s1) \<Rightarrow> ([], s1)
      | (Some (ip, port), s1) \<Rightarrow> (ip @ [44] @ decimal port, s1))"

definition on_accept :: "env \<Rightarrow> crypto_lib \<Rightarrow> allocator \<Rightarrow> (nat \<Rightarrow> byte) \<Rightarrow> site \<Rightarrow> fd \<Rightarrow> server \<Rightarrow>
    (accept_end \<times> server) option" where
  "on_accept env lib A stk site f s =
     (let p = peer_of env f s in
      accept_loop env lib A stk site (fst p) f (snd (os_call env ''set_timeout'' [LInt f, LInt 90] (snd p))))"

end
