(* ===== verification/Web_Client.thy ===== *)
theory Web_Client
  imports Web_Http
begin

text \<open>
  The HTTP client, \<^verbatim>\<open>src/90s/httpd/client.cpp\<close>: the address, at most two attempts to send the request
  over a named connection, and the response with its body.  The connection is locked from the write to
  the end of the response.
\<close>

section \<open>The request\<close>

definition INVALID_ADDRESS :: string where "INVALID_ADDRESS = ''invalid_address''"

definition chars_of :: "byte list \<Rightarrow> string" where
  "chars_of bs = map (\<lambda>b. char_of (unat b)) bs"

text \<open>The scheme, the user part, the host and the script of an address.\<close>

record http_address =
  ad_ssl :: bool
  ad_auth :: "byte list option"
  ad_host :: "byte list"
  ad_script :: "byte list"

definition parse_address :: "byte list \<Rightarrow> string + http_address" where
  "parse_address url =
     (if \<not> (prefix (cstr ''https://'') url \<or> prefix (cstr ''http://'') url) then Inl INVALID_ADDRESS
      else
        (let ssl = prefix (cstr ''https://'') url; start = (if ssl then 8 else 7) in
         case view_find 47 (drop start url) of
           None \<Rightarrow> Inl (INVALID_ADDRESS @ ''|script'')
         | Some n \<Rightarrow>
             (let host = take n (drop start url) in
              case view_find 64 host of
                None \<Rightarrow> Inr \<lparr>ad_ssl = ssl, ad_auth = None, ad_host = host, ad_script = drop (start + n) url\<rparr>
              | Some at \<Rightarrow> Inr \<lparr>ad_ssl = ssl, ad_auth = Some (take at host), ad_host = drop (at + 1) host,
                              ad_script = drop (start + n) url\<rparr>)))"

definition port_of :: "http_address \<Rightarrow> int" where
  "port_of a = (if ad_ssl a then 443 else 80)"

definition auth_headers :: "crypto_lib \<Rightarrow> allocator \<Rightarrow> (nat \<Rightarrow> byte) \<Rightarrow> http_address \<Rightarrow> (byte list \<times> byte list) list \<Rightarrow>
    (byte list \<times> byte list) list option" where
  "auth_headers lib A stk a hs =
     (case ad_auth a of
        None \<Rightarrow> Some hs
      | Some auth \<Rightarrow>
          map_option (\<lambda>t. dict_put (cstr ''authorization'') (cstr ''Basic '' @ t) hs) (util_to_b64 lib A stk auth))"

definition request_headers :: "http_address \<Rightarrow> byte list \<Rightarrow> (byte list \<times> byte list) list \<Rightarrow> (byte list \<times> byte list) list" where
  "request_headers a body hs =
     dict_put (cstr ''host'') (ad_host a) (dict_put (cstr ''content-length'') (decimal (int (length body))) hs)"

definition request_text :: "byte list \<Rightarrow> byte list \<Rightarrow> (byte list \<times> byte list) list \<Rightarrow> byte list \<Rightarrow> byte list" where
  "request_text meth script hs body =
     fold (\<lambda>h t. t @ header_line h) hs (meth @ [32] @ script @ cstr '' HTTP/1.1'' @ crlf) @ crlf @ body"

section \<open>Sending\<close>

text \<open>
  One attempt: \<open>Inl\<close> is the place where it failed, \<open>Inr\<close> the head of the response.  \<open>connect\<close> answers
  with a connection also when it fails; its number is the first value of the answer.
\<close>

datatype stage = AtConnect string | AtWrite | AtHeader

definition attempt :: "env \<Rightarrow> http_address \<Rightarrow> byte list \<Rightarrow> byte list \<Rightarrow> server \<Rightarrow> (stage + byte list) \<times> fd \<times> server" where
  "attempt env a record0 data s =
     (let c = os_call env ''connect''
            [LStr (ad_host a @ [64] @ record0), LInt (port_of a), LBool (ad_ssl a),
             LStr (cstr ''http:'' @ ad_host a @ [58] @ decimal (port_of a))] s;
          f = val_at (fst c) 0 in
      if a_ret (fst c) < 0 then
        (Inl (AtConnect (chars_of (a_bytes (fst c)))), f, snd (os_call env ''revoke_named_fd'' [LInt f] (snd c)))
      else
        (let s1 = snd (os_call env ''lock'' [LInt f] (snd c)); w = fd_write env f data s1 in
         if \<not> fst w then
           (Inl AtWrite, f, snd (os_call env ''unlock'' [LInt f] (snd (os_call env ''revoke_named_fd'' [LInt f] (snd w)))))
         else
           (let r = read_up_to env f [13, 10, 13, 10] (snd w) in
            if fst (fst r) then
              (Inl AtHeader, f, snd (os_call env ''unlock'' [LInt f] (snd (os_call env ''revoke_named_fd'' [LInt f] (snd r)))))
            else (Inr (snd (fst r)), f, snd r))))"

definition stage_error :: "stage \<Rightarrow> string" where
  "stage_error st =
     (case st of
        AtConnect msg \<Rightarrow> msg @ ''|connect''
      | AtWrite \<Rightarrow> PROTOCOL_ERROR @ ''|initial_write''
      | AtHeader \<Rightarrow> PROTOCOL_ERROR @ ''|read_header'')"

text \<open>The second attempt follows five ticks later.\<close>

definition attempts :: "env \<Rightarrow> http_address \<Rightarrow> byte list \<Rightarrow> byte list \<Rightarrow> server \<Rightarrow> (string + byte list) \<times> fd \<times> server" where
  "attempts env a record0 data s =
     (case attempt env a record0 data s of
        (Inr head, f, s1) \<Rightarrow> (Inr head, f, s1)
      | (Inl _, _, s1) \<Rightarrow>
          (case attempt env a record0 data (snd (os_call env ''sleep'' [LInt 5] s1)) of
             (Inr head, f, s2) \<Rightarrow> (Inr head, f, s2)
           | (Inl st, f, s2) \<Rightarrow> (Inl (stage_error st), f, s2)))"

section \<open>The response\<close>

record http_reply =
  hr_status :: int
  hr_status_line :: "byte list"
  hr_headers :: "byte list \<rightharpoonup> byte list"
  hr_body :: "byte list"

text \<open>\<open>std::from_chars\<close> for \<open>size_t\<close>: the digits at the beginning; none or too large a number is an error.\<close>

definition digit_of :: "byte \<Rightarrow> nat option" where
  "digit_of c =
     (if 48 \<le> unat c \<and> unat c \<le> 57 then Some (unat c - 48)
      else if 97 \<le> unat c \<and> unat c \<le> 122 then Some (unat c - 87)
      else if 65 \<le> unat c \<and> unat c \<le> 90 then Some (unat c - 55)
      else None)"

definition base_digit :: "nat \<Rightarrow> byte \<Rightarrow> bool" where
  "base_digit base c = (case digit_of c of None \<Rightarrow> False | Some d \<Rightarrow> d < base)"

definition from_chars :: "nat \<Rightarrow> byte list \<Rightarrow> nat option" where
  "from_chars base t =
     (let ds = takeWhile (base_digit base) t;
          n = fold (\<lambda>c n. base * n + the (digit_of c)) ds 0 in
      if ds = [] \<or> 2 ^ 64 \<le> n then None else Some n)"

text \<open>\<open>atoi\<close> on the rest of the head; digits behind the status end it.\<close>

definition reply_head :: "byte list \<Rightarrow> (string + http_reply) option" where
  "reply_head data =
     (case view_search crlf data of
        None \<Rightarrow> Some (Inl (PROTOCOL_ERROR @ ''|status_line_missing''))
      | Some p \<Rightarrow>
          (case view_find 32 (take p data) of
             None \<Rightarrow> Some (Inl (PROTOCOL_ERROR @ ''|status_line_invalid''))
           | Some pivot \<Rightarrow>
               map_option (\<lambda>hs. Inr \<lparr>hr_status = sint (word_of_int (c_atoll (drop (pivot + 1) data)) :: 32 word),
                   hr_status_line = take p data, hr_headers = hs, hr_body = []\<rparr>)
                 (parse_headers data pivot Map.empty)))"

text \<open>Chunks; a line without a number of its own is the last chunk.\<close>

partial_function (option) read_chunks :: "env \<Rightarrow> fd \<Rightarrow> byte list \<Rightarrow> server \<Rightarrow> ((string + byte list) \<times> server) option" where
  "read_chunks env f body s =
     (let r = read_up_to env f crlf s in
      if fst (fst r) then Some (Inl (PROTOCOL_ERROR @ ''|chunk_read_length''), snd r)
      else
        (case (if snd (fst r) = [] then Some 0 else from_chars 16 (snd (fst r))) of
           None \<Rightarrow> Some (Inl (PROTOCOL_ERROR @ ''|invalid_chunk_length''), snd r)
         | Some n \<Rightarrow>
             if n = 0 then
               (let e = read_n env f 2 (snd r) in
                if fst (fst e) then Some (Inl (PROTOCOL_ERROR @ ''|chunked_eof''), snd e)
                else if snd (fst e) \<noteq> crlf then Some (Inl (PROTOCOL_ERROR @ ''|corrupted_eof''), snd e)
                else Some (Inr body, snd e))
             else
               (let c = read_n env f (sz (n + 2)) (snd r) in
                if fst (fst c) then Some (Inl (PROTOCOL_ERROR @ ''|chunk_read''), snd c)
                else read_chunks env f (body @ take n (snd (fst c))) (snd c))))"

definition read_sized :: "env \<Rightarrow> fd \<Rightarrow> byte list \<Rightarrow> server \<Rightarrow> (string + byte list) \<times> server" where
  "read_sized env f cl s =
     (case from_chars 10 cl of
        None \<Rightarrow> (Inl (PROTOCOL_ERROR @ ''|invalid_length''), s)
      | Some n \<Rightarrow>
          if 0 < n then
            (let c = read_n env f n s in
             if fst (fst c) then (Inl (PROTOCOL_ERROR @ ''|chunk_read''), snd c) else (Inr (snd (fst c)), snd c))
          else (Inr [], s))"

definition reply_body :: "env \<Rightarrow> fd \<Rightarrow> http_reply \<Rightarrow> server \<Rightarrow> ((string + byte list) \<times> server) option" where
  "reply_body env f resp s =
     (if hr_headers resp (cstr ''transfer-encoding'') = Some (cstr ''chunked'') then read_chunks env f [] s
      else
        (case hr_headers resp (cstr ''content-length'') of
           Some cl \<Rightarrow> Some (read_sized env f cl s)
         | None \<Rightarrow> Some (Inr [], s)))"

text \<open>From the head on; the connection is unlocked on every way out.\<close>

definition read_reply :: "env \<Rightarrow> fd \<Rightarrow> byte list \<Rightarrow> server \<Rightarrow> ((string + http_reply) \<times> server) option" where
  "read_reply env f data s =
     Option.bind (reply_head data) (\<lambda>h.
       case h of
         Inl msg \<Rightarrow> Some (Inl msg, snd (os_call env ''unlock'' [LInt f] s))
       | Inr resp \<Rightarrow>
           Option.bind (reply_body env f resp s) (\<lambda>b.
             Some (map_sum (\<lambda>msg. msg) (\<lambda>body. resp\<lparr>hr_body := body\<rparr>) (fst b),
                   snd (os_call env ''unlock'' [LInt f] (snd b)))))"

text \<open>
  \<open>request\<close>.  The resolver answers with the number of its records and the text of the first one.
\<close>

definition http_request :: "env \<Rightarrow> crypto_lib \<Rightarrow> allocator \<Rightarrow> (nat \<Rightarrow> byte) \<Rightarrow> byte list \<Rightarrow> byte list \<Rightarrow>
    (byte list \<times> byte list) list \<Rightarrow> byte list \<Rightarrow> server \<Rightarrow> ((string + http_reply) \<times> server) option" where
  "http_request env lib A stk meth url user_headers body s =
     (case parse_address url of
        Inl msg \<Rightarrow> Some (Inl msg, s)
      | Inr a \<Rightarrow>
          Option.bind (auth_headers lib A stk a user_headers) (\<lambda>hs.
          let d = os_call env ''dns_query'' [LStr (ad_host a)] s in
          if a_ret (fst d) < 0 then Some (Inl (''dns:'' @ chars_of (a_bytes (fst d))), snd d)
          else if a_ret (fst d) = 0 then None
          else
            (case attempts env a (a_bytes (fst d)) (request_text meth (ad_script a) (request_headers a body hs) body) (snd d) of
               (Inl msg, f, s1) \<Rightarrow> Some (Inl msg, s1)
             | (Inr head, f, s1) \<Rightarrow> read_reply env f head s1)))"

end
