(* ===== verification/Web_Descriptor.thy ===== *)
theory Web_Descriptor
  imports Web_Stream Afd_Cases
begin

text \<open>
  The connection a coroutine of the C++ layer reads from, on the model of \<^verbatim>\<open>src/90s/afd.cpp\<close>.  The
  contract \<open>serves\<close> of \<open>Web_Stream\<close> is not what a descriptor keeps: a delimiter that arrives in
  pieces can be missed.  Here the answers to the reads are computed by the modelled descriptor from the
  chunks that arrive, and what holds of them is proved: \<open>read_n\<close> hands out the next bytes however they
  arrive, and \<open>read_until\<close> hands out the text in front of the first delimiter of the next piece.
\<close>

section \<open>A read on a descriptor\<close>

text \<open>
  The coroutine holds its promises, and what it calls when a promise is resolved is not an answer of
  the client but the next read of the connection.
\<close>

definition waiting_client :: client where
  "waiting_client = \<lparr>cl_alive = (\<lambda>l. True), cl_resume = (\<lambda>l. []), cl_on_empty = (\<lambda>l. None)\<rparr>"

lemma waiting_client_simps [simp]: "cl_on_empty waiting_client l = None" "resume waiting_client a = []"
  by (simp_all add: waiting_client_def resume_def)

text \<open>What a promise of a read was resolved with.\<close>

fun read_answer :: "nat \<Rightarrow> event list \<Rightarrow> (bool \<times> byte list) option" where
  "read_answer p [] = None"
| "read_answer p (EvRead c err bs # l) = (if rc_promise c = p then Some (err, bs) else read_answer p l)"
| "read_answer p (EvRefused q # l) = (if q = p then Some (True, []) else read_answer p l)"
| "read_answer p (e # l) = read_answer p l"

lemma read_answer_append: "read_answer p (l @ l') = (case read_answer p l of None \<Rightarrow> read_answer p l' | Some r \<Rightarrow> Some r)"
  by (induction p l rule: read_answer.induct) simp_all

text \<open>
  A connection: the calls of the descriptor that are under way below the coroutine, the descriptor, and
  the chunks that are still to arrive.  A coroutine whose promise is resolved inside \<open>on_data\<close> runs on
  top of that call; its next read is made there, and the call goes on when the coroutine waits again.
\<close>

type_synonym connection = "task list \<times> afd_state \<times> byte list list"

partial_function (option) read_suspended ::
    "env \<Rightarrow> nat \<Rightarrow> task list \<Rightarrow> afd \<Rightarrow> server \<Rightarrow> byte list list \<Rightarrow> ((bool \<times> byte list) \<times> connection) option" where
  "read_suspended env p ts a s cs =
     (case read_answer p (af_log a) of
        Some r \<Rightarrow> Some (r, ts, (a, s), cs)
      | None \<Rightarrow>
          (case ts of
             t # rest \<Rightarrow>
               Option.bind (afd_step env waiting_client t (a, s)) (\<lambda>r.
                 read_suspended env p (fst r @ rest) (fst (snd r)) (snd (snd r)) cs)
           | [] \<Rightarrow>
               (case cs of
                  [] \<Rightarrow> None
                | d # ds \<Rightarrow> read_suspended env p [entry_task (EntryData d)] a s ds)))"

text \<open>\<open>None\<close>: the coroutine is never resumed with what arrives.\<close>

definition fd_read :: "env \<Rightarrow> call \<Rightarrow> connection \<Rightarrow> ((bool \<times> byte list) \<times> connection) option" where
  "fd_read env c C =
     (case C of (ts, (a, s), cs) \<Rightarrow>
        Option.bind (afd_run env waiting_client [TCall c] a s) (\<lambda>r.
          read_suspended env (af_next_promise a) ts (fst r) (snd r) cs))"

section \<open>The reads of a coroutine\<close>

text \<open>\<open>tb\<close>: the tables a caller passes along with its delimiters.\<close>

definition read_call :: "(byte list \<rightharpoonup> int list) \<Rightarrow> fd \<Rightarrow> action \<Rightarrow> call option" where
  "read_call tb f x =
     (case x of
        AOther name [LInt g, LInt n] \<Rightarrow> if name = ''read_n'' \<and> g = f then Some (ReadN (nat n)) else None
      | AOther name [LInt g, LStr d] \<Rightarrow>
          if name = ''read_until'' \<and> g = f then
            Some (case tb d of None \<Rightarrow> ReadUntil d | Some T \<Rightarrow> ReadUntilWith d T)
          else None
      | _ \<Rightarrow> None)"

text \<open>A write or a close may end the descriptor: nothing is said about it from there on.\<close>

definition may_end :: "fd \<Rightarrow> action \<Rightarrow> bool" where
  "may_end f x =
     (case x of
        AOther name (LInt g # _) \<Rightarrow> g = f \<and> name \<in> {''write'', ''close''}
      | _ \<Rightarrow> False)"

primrec connection_after :: "env \<Rightarrow> (byte list \<rightharpoonup> int list) \<Rightarrow> fd \<Rightarrow> connection \<Rightarrow> action list \<Rightarrow> connection option" where
  "connection_after env tb f C [] = Some C"
| "connection_after env tb f C (x # tr) =
     (case read_call tb f x of
        Some c \<Rightarrow> Option.bind (fd_read env c C) (\<lambda>r. connection_after env tb f (snd r) tr)
      | None \<Rightarrow> if may_end f x then None else connection_after env tb f C tr)"

text \<open>
  From now on the reads of \<open>f\<close> are answered by the modelled descriptor; \<open>sys\<close> answers its own calls.
\<close>

definition connected :: "env \<Rightarrow> env \<Rightarrow> (byte list \<rightharpoonup> int list) \<Rightarrow> fd \<Rightarrow> connection \<Rightarrow> server \<Rightarrow> bool" where
  "connected sys env tb f C s \<longleftrightarrow>
     (\<forall>tr x c C1 r C2. read_call tb f x = Some c \<longrightarrow> connection_after sys tb f C tr = Some C1 \<longrightarrow>
        fd_read sys c C1 = Some (r, C2) \<longrightarrow>
        (let a = answers env (hist s @ tr @ [x]) in a_ret a = (if fst r then - 1 else 0) \<and> a_bytes a = snd r))"

lemma connected_after_read:
  assumes "connected sys env tb f C s" and "read_call tb f x = Some c" and "fd_read sys c C = Some (r, C')"
    and "hist s' = hist s @ [x]"
  shows "connected sys env tb f C' s'"
  unfolding connected_def
proof (intro allI impI)
  fix tr x' c' C1 r' C2
  assume a: "read_call tb f x' = Some c'" "connection_after sys tb f C' tr = Some C1" "fd_read sys c' C1 = Some (r', C2)"
  then have "connection_after sys tb f C (x # tr) = Some C1" using assms(2,3) by simp
  then show "let a = answers env (hist s' @ tr @ [x']) in a_ret a = (if fst r' then - 1 else 0) \<and> a_bytes a = snd r'"
    using assms(1) a unfolding connected_def assms(4) by (metis append.assoc append_Cons append_Nil)
qed

lemma connected_after_other:
  assumes "connected sys env tb f C s" and "read_call tb f x = None" and "\<not> may_end f x"
    and "hist s' = hist s @ [x]"
  shows "connected sys env tb f C s'"
  unfolding connected_def
proof (intro allI impI)
  fix tr x' c' C1 r' C2
  assume a: "read_call tb f x' = Some c'" "connection_after sys tb f C tr = Some C1" "fd_read sys c' C1 = Some (r', C2)"
  then have "connection_after sys tb f C (x # tr) = Some C1" using assms(2,3) by simp
  then show "let a = answers env (hist s' @ tr @ [x']) in a_ret a = (if fst r' then - 1 else 0) \<and> a_bytes a = snd r'"
    using assms(1) a unfolding connected_def assms(4) by (metis append.assoc append_Cons append_Nil)
qed

text \<open>An answer is what the coroutine gets.\<close>

lemma connected_answer:
  assumes "connected sys env tb f C s" and "read_call tb f x = Some c" and "fd_read sys c C = Some (r, C')"
  shows "read_result (answers env (hist s @ [x])) = (if fst r then (True, []) else r)"
proof -
  have "connection_after sys tb f C [] = Some C" by simp
  then have "let a = answers env (hist s @ [] @ [x]) in a_ret a = (if fst r then - 1 else 0) \<and> a_bytes a = snd r"
    using assms unfolding connected_def by blast
  then show ?thesis by (cases r) (simp add: read_result_def Let_def)
qed

lemma connected_read_n:
  assumes "connected sys env tb f C s" and "fd_read sys (ReadN n) C = Some ((False, xs), C')"
  shows "\<exists>s1. read_n env f n s = ((False, xs), s1) \<and> connected sys env tb f C' s1"
proof -
  let ?x = "AOther ''read_n'' [LInt f, LInt (int n)]"
  have x: "read_call tb f ?x = Some (ReadN n)" by (simp add: read_call_def)
  let ?r = "os_call env ''read_n'' [LInt f, LInt (int n)] s"
  have "read_n env f n s = ((False, xs), snd ?r)"
    using connected_answer [OF assms(1) x assms(2)] os_call_result [of env "''read_n''" "[LInt f, LInt (int n)]" s]
    by (simp add: read_n_def Let_def)
  moreover have "connected sys env tb f C' (snd ?r)"
    by (rule connected_after_read [OF assms(1) x assms(2)]) simp
  ultimately show ?thesis by blast
qed

lemma connected_read_until:
  assumes "connected sys env tb f C s" and "fd_read sys (case tb d of None \<Rightarrow> ReadUntil d | Some T \<Rightarrow> ReadUntilWith d T) C = Some ((False, xs), C')"
  shows "\<exists>s1. read_up_to env f d s = ((False, xs), s1) \<and> connected sys env tb f C' s1"
proof -
  let ?x = "AOther ''read_until'' [LInt f, LStr d]" and ?c = "case tb d of None \<Rightarrow> ReadUntil d | Some T \<Rightarrow> ReadUntilWith d T"
  have x: "read_call tb f ?x = Some ?c" by (simp add: read_call_def)
  let ?r = "os_call env ''read_until'' [LInt f, LStr d] s"
  have "read_up_to env f d s = ((False, xs), snd ?r)"
    using connected_answer [OF assms(1) x assms(2)] os_call_result [of env "''read_until''" "[LInt f, LStr d]" s]
    by (simp add: read_up_to_def Let_def)
  moreover have "connected sys env tb f C' (snd ?r)"
    by (rule connected_after_read [OF assms(1) x assms(2)]) simp
  ultimately show ?thesis by blast
qed

text \<open>The system whose reads of \<open>f\<close> are those of a descriptor.\<close>

definition descriptor_env :: "(byte list \<rightharpoonup> int list) \<Rightarrow> fd \<Rightarrow> connection \<Rightarrow> env" where
  "descriptor_env tb f C = (const_env 1)\<lparr>answers := \<lambda>h.
     (let good = \<lparr>a_ret = 1, a_errno = 0, a_bytes = [], a_vals = [], a_plan = [], a_events = []\<rparr> in
      if h = [] then good
      else
        (case Option.bind (connection_after (const_env 1) tb f C (butlast h)) (\<lambda>C1.
                Option.bind (read_call tb f (last h)) (\<lambda>c. fd_read (const_env 1) c C1)) of
           None \<Rightarrow> good
         | Some (r, C2) \<Rightarrow> good\<lparr>a_ret := (if fst r then - 1 else 0), a_bytes := snd r\<rparr>))\<rparr>"

lemma descriptor_env_connected:
  assumes "hist s = []"
  shows "connected (const_env 1) (descriptor_env tb f C) tb f C s"
  unfolding connected_def assms by (auto simp: descriptor_env_def Let_def)

section \<open>A descriptor that waits for nothing\<close>

text \<open>
  It is open and plain, has no command in its queue, and is called by nobody but the coroutine or the
  coroutine runs inside the inner loop of \<open>on_data\<close>.  Promises are numbered in order.
\<close>

definition open_plain :: "afd \<Rightarrow> bool" where
  "open_plain a \<longleftrightarrow> af_closed a = CsOpen \<and> \<not> ssl_ready a \<and> af_read_offset a \<le> length (af_read_buffer a) \<and>
     af_delim_offset a = 0 \<and> af_delim_match a = 0"

definition unused :: "nat \<Rightarrow> afd \<Rightarrow> bool" where
  "unused p a \<longleftrightarrow> (\<forall>q\<ge>p. read_answer q (af_log a) = None)"

definition able_to_read :: "connection \<Rightarrow> bool" where
  "able_to_read C \<longleftrightarrow> (case C of (ts, (a, s), cs) \<Rightarrow>
     (ts = [] \<or> ts = [TLoop, TTail False]) \<and> open_plain a \<and> af_read_commands a = [] \<and> unused (af_next_promise a) a)"

definition to_come :: "connection \<Rightarrow> byte list" where
  "to_come C = (case C of (ts, (a, s), cs) \<Rightarrow> window a @ concat cs)"

text \<open>What the next read looks at first: the window, or else the next chunk that is not empty.\<close>

definition next_piece :: "connection \<Rightarrow> byte list" where
  "next_piece C = (case C of (ts, (a, s), cs) \<Rightarrow> concat (take 1 (filter (\<lambda>d. d \<noteq> []) (window a # cs))))"

text \<open>Commands that the window satisfies, with the data and the bytes they consume.\<close>

fun satisfied :: "read_kind \<Rightarrow> byte list \<Rightarrow> byte list \<Rightarrow> nat \<Rightarrow> bool" where
  "satisfied RcAny w bs used = False"
| "satisfied (RcN n) w bs used = (n \<le> length w \<and> bs = take n w \<and> used = n)"
| "satisfied (RcUntil d T) w bs used =
     (d \<noteq> [] \<and> length w < 2 ^ 31 \<and> table_ok d T (length d) \<and> length d \<le> length T \<and>
      (\<exists>k. view_search d w = Some k \<and> bs = take k w \<and> used = k + length d))"

lemma view_search_least: "view_search d w = Some k \<Longrightarrow> i < k \<Longrightarrow> take (length d) (drop i w) \<noteq> d"
proof -
  have "view_search d w = Some k \<Longrightarrow> i < k \<Longrightarrow> \<not> prefix d (drop i w)"
  proof (induction w arbitrary: k i)
    case (Cons c cs)
    then show ?case by (cases i) (auto split: if_splits)
  qed (simp split: if_splits)
  then show "view_search d w = Some k \<Longrightarrow> i < k \<Longrightarrow> ?thesis" using take_is_prefix [of "length d" "drop i w"] by auto
qed

lemma satisfied_used: "satisfied kind w bs used \<Longrightarrow> used \<le> length w"
  by (cases kind) (auto dest: view_search_Some)

lemma window_used:
  "open_plain a \<Longrightarrow> window a = w \<Longrightarrow> used \<le> length w \<Longrightarrow>
   af_read_offset a + used \<le> length (af_read_buffer a) \<and> drop (af_read_offset a + used) (af_read_buffer a) = drop used w"
  using window_after [of used w "af_read_offset a" "af_read_buffer a"] unfolding open_plain_def window_def by blast

lemma search_satisfied:
  assumes "view_search d w = Some k" and "d \<noteq> []" and "length w < 2 ^ 31" and "table_ok d T (length d)" "length d \<le> length T"
  shows "\<exists>part. until_search w d T 0 0 = Some (part, 0) \<and> until_result (length w) (length d) 0 0 part = Inl (k + length d)"
proof -
  have k: "k + length d \<le> length w" "take (length d) (drop k w) = d" using view_search_Some [OF assms(1)] by simp_all
  let ?post = "drop (k + length d) w"
  have "drop k w = d @ ?post" using k(2) append_take_drop_id [of "length d" "drop k w"] by (simp add: add.commute)
  then have w: "w = take k w @ d @ ?post" using append_take_drop_id [of k w] by simp
  have len: "length (take k w) = k" using k(1) by simp
  have "first_agreement d (take k w @ d @ ?post) 0 (length (take k w))"
    using view_search_least [OF assms(1)] w len by (intro first_occurrence) simp
  then have first: "first_agreement d w 0 k" using w len by simp
  have "w \<noteq> []" "length d < 2 ^ 31" using assms(2,3) k(1) by auto
  then obtain part s where part: "until_search w d T 0 0 = Some (part, 0)" "first_agreement d w 0 s"
      "until_result (length w) (length d) 0 0 part =
        (if s + length d \<le> length w then Inl (s + length d) else Inr (int (length w), int (length w - s)))"
    using until_fresh [of w d T] assms by blast
  then show ?thesis using first_agreement_unique [OF part(2) first] k(1) by auto
qed

lemma read_turn_satisfied:
  assumes "af_read_commands a = [\<lparr>rc_promise = p, rc_kind = kind\<rparr>]" and "open_plain a" and "window a = w" "w \<noteq> []"
    and "satisfied kind w bs used"
  shows "read_turn waiting_client a = Some ([TLoop], finish_read False bs (a\<lparr>af_read_offset := af_read_offset a + used\<rparr>))"
proof (cases kind)
  case (RcUntil d T)
  then obtain k where k: "view_search d w = Some k" "bs = take k w" "used = k + length d" "d \<noteq> []" "length w < 2 ^ 31"
      "table_ok d T (length d)" "length d \<le> length T" using assms(5) by auto
  obtain part where part: "until_search w d T 0 0 = Some (part, 0)" "until_result (length w) (length d) 0 0 part = Inl used"
    using search_satisfied [OF k(1,4,5,6,7)] k(3) by blast
  have le: "used \<le> length w" by (rule satisfied_used [OF assms(5)])
  have "int used - int (length d) = int k" using k(3) by simp
  moreover have "k < 2 ^ 64" using le k(3,5) by simp
  ultimately have u: "u64 (int used - int (length d)) = k" by simp
  have same: "a\<lparr>af_delim_offset := 0, af_delim_match := 0, af_read_offset := af_read_offset a + used\<rparr> =
      a\<lparr>af_read_offset := af_read_offset a + used\<rparr>" using assms(2) by (cases a) (simp add: open_plain_def)
  show ?thesis
  proof -
    have "read_turn waiting_client a = Some ([TLoop], finish_read False bs
        (a\<lparr>af_delim_offset := 0, af_delim_match := 0, af_read_offset := af_read_offset a + used\<rparr>))"
      using assms(1-4) part le u k(2) RcUntil unfolding window_def [of a] by (simp add: read_turn_def open_plain_def Let_def)
    then show ?thesis unfolding same .
  qed
qed (use assms in \<open>auto simp: read_turn_def open_plain_def Let_def window_def\<close>)

section \<open>A read that is served at once, and one that waits\<close>

fun asks :: "call \<Rightarrow> read_kind \<Rightarrow> bool" where
  "asks (ReadN n) kind = (kind = RcN n)"
| "asks (ReadUntil d) kind = (\<exists>T. build_kmp d (replicate (length d + 2) 0) = Some T \<and> kind = RcUntil d T)"
| "asks (ReadUntilWith d T) kind = (kind = RcUntil d T)"
| "asks c kind = False"

lemma asks_call:
  "asks c kind \<Longrightarrow> af_closed a = CsOpen \<Longrightarrow> afd_call sys c a s = Some (fst (add_read kind a), snd (add_read kind a), s)"
  by (cases c) (auto simp: read_until_def is_closed_def)

definition queued_read :: "read_kind \<Rightarrow> afd \<Rightarrow> afd" where
  "queued_read kind a = a\<lparr>af_next_promise := af_next_promise a + 1,
     af_read_commands := [\<lparr>rc_promise = af_next_promise a, rc_kind = kind\<rparr>]\<rparr>"

lemma queued_read_fields [simp]:
  "af_closed (queued_read kind a) = af_closed a" "ssl_ready (queued_read kind a) = ssl_ready a"
  "af_read_buffer (queued_read kind a) = af_read_buffer a" "af_read_offset (queued_read kind a) = af_read_offset a"
  "open_plain (queued_read kind a) = open_plain a" "window (queued_read kind a) = window a"
  "af_delim_offset (queued_read kind a) = af_delim_offset a" "af_delim_match (queued_read kind a) = af_delim_match a"
  "af_log (queued_read kind a) = af_log a" "af_next_promise (queued_read kind a) = af_next_promise a + 1"
  "af_read_commands (queued_read kind a) = [\<lparr>rc_promise = af_next_promise a, rc_kind = kind\<rparr>]"
  by (simp_all add: queued_read_def open_plain_def ssl_ready_def window_def)

lemma add_read_queued:
  "open_plain a \<Longrightarrow> af_read_commands a = [] \<Longrightarrow>
   add_read kind a = (if af_read_buffer a = [] then [] else [TData [] True], queued_read kind a)"
  by (simp add: add_read_def queued_read_def open_plain_def is_closed_def Let_def)

text \<open>What a window does for the command that waits.\<close>

definition unsatisfied :: "read_kind \<Rightarrow> byte list \<Rightarrow> bool" where
  "unsatisfied kind w \<longleftrightarrow> w = [] \<or> (\<exists>n. kind = RcN n \<and> length w < n)"

lemma read_turn_unsatisfied:
  assumes "af_read_commands a = [\<lparr>rc_promise = p, rc_kind = kind\<rparr>]" and "open_plain a" and "unsatisfied kind (window a)"
  shows "read_turn waiting_client a = Some ([], a)"
  using assms by (auto simp: read_turn_def open_plain_def unsatisfied_def window_def Let_def)

lemma window_empty: "open_plain a \<Longrightarrow> window a = [] \<longleftrightarrow> af_read_offset a = length (af_read_buffer a)"
  by (auto simp: open_plain_def window_def)

lemma tail_open:
  assumes "open_plain a" 
  shows "\<exists>new a'. tail_turn cycle a = (new, a') \<and> (new = [] \<or> new = [TData [] cycle] \<and> \<not> cycle) \<and> open_plain a' \<and>
    window a' = window a \<and> af_log a' = af_log a \<and> af_read_commands a' = af_read_commands a \<and> af_next_promise a' = af_next_promise a"
proof (cases "af_read_offset a = length (af_read_buffer a)")
  case True
  then show ?thesis using assms by (simp add: tail_turn_def open_plain_def window_def ssl_ready_def)
next
  case False
  then show ?thesis using assms by (auto simp: tail_turn_def)
qed

lemma idle_data: "open_plain a \<Longrightarrow> afd_run sys waiting_client (TData [] False # ts) a s = afd_run sys waiting_client ts a s"
  by (simp add: afd_run_Cons fill_turn_def open_plain_def ssl_ready_def)

text \<open>The end of a call of \<open>on_data\<close> when no command waits, or the one that waits is not served.\<close>

lemma call_unsatisfied:
  assumes "asks c kind" and "open_plain a" "af_read_commands a = []" and "unsatisfied kind (window a)"
  shows "afd_run sys waiting_client [TCall c] a s = Some (queued_read kind a, s)"
proof -
  let ?a = "queued_read kind a"
  note call = asks_call [OF assms(1), of a sys s] add_read_queued [OF assms(2,3), of kind]
  have open_a: "af_closed a = CsOpen" "open_plain ?a" "\<not> is_closed ?a" using assms(2) by (simp_all add: open_plain_def is_closed_def)
  show ?thesis
  proof (cases "window a = []")
    case True
    then have "fill_turn [] True ?a = ([], ?a)" using window_empty [OF assms(2)] by (simp add: fill_turn_def)
    then show ?thesis using call open_a by (simp add: afd_run_Cons)
  next
    case False
    then have "af_read_offset a \<noteq> length (af_read_buffer a)" "af_read_buffer a \<noteq> []"
      using window_empty [OF assms(2)] by (auto simp: window_def)
    moreover have "read_turn waiting_client ?a = Some ([], ?a)"
      by (rule read_turn_unsatisfied [where p = "af_next_promise a" and kind = kind]) (use open_a assms(4) in simp_all)
    ultimately show ?thesis using call open_a by (simp add: afd_run_Cons fill_turn_def tail_turn_def)
  qed
qed

lemma call_satisfied:
  assumes "asks c kind" and "open_plain a" "af_read_commands a = []" and "window a = w" "w \<noteq> []" and "satisfied kind w bs used"
  shows "\<exists>a'. afd_run sys waiting_client [TCall c] a s = Some (a', s) \<and> open_plain a' \<and> af_read_commands a' = [] \<and>
    af_log a' = af_log a @ [EvRead \<lparr>rc_promise = af_next_promise a, rc_kind = kind\<rparr> False bs] \<and>
    af_next_promise a' = af_next_promise a + 1 \<and> window a' = drop used w"
proof -
  let ?a = "queued_read kind a"
  let ?b = "finish_read False bs (?a\<lparr>af_read_offset := af_read_offset a + used\<rparr>)"
  note call = asks_call [OF assms(1), of a sys s] add_read_queued [OF assms(2,3), of kind]
  have open_a: "af_closed a = CsOpen" "open_plain ?a" "\<not> is_closed ?a" using assms(2) by (simp_all add: open_plain_def is_closed_def)
  have ne: "af_read_offset a \<noteq> length (af_read_buffer a)" "af_read_buffer a \<noteq> []"
    using assms(4,5) window_empty [OF assms(2)] by (auto simp: window_def)
  have turn: "read_turn waiting_client ?a = Some ([TLoop], ?b)"
    using read_turn_satisfied [of ?a "af_next_promise a" kind w bs used] open_a assms(4-6) by simp
  have le: "af_read_offset a + used \<le> length (af_read_buffer a)" "drop (af_read_offset a + used) (af_read_buffer a) = drop used w"
    using window_used [OF assms(2,4) satisfied_used [OF assms(6)]] by simp_all
  have open_b: "open_plain ?b" using assms(2) le by (simp add: open_plain_def ssl_ready_def finish_read_def queued_read_def)
  have b: "af_read_commands ?b = []" "window ?b = drop used w"
    "af_log ?b = af_log a @ [EvRead \<lparr>rc_promise = af_next_promise a, rc_kind = kind\<rparr> False bs]"
    "af_next_promise ?b = af_next_promise a + 1"
    using le by (simp_all add: window_def)
  have stop: "read_turn waiting_client ?b = Some ([], ?b)" using b(1) by (simp add: read_turn_def)
  obtain a' where tail: "tail_turn True ?b = ([], a')" "open_plain a'" "window a' = window ?b" "af_log a' = af_log ?b"
      "af_read_commands a' = af_read_commands ?b" "af_next_promise a' = af_next_promise ?b"
    using tail_open [OF open_b, of True] by auto
  have "afd_run sys waiting_client [TCall c] a s = Some (a', s)"
    using call open_a ne turn stop tail(1) by (auto simp: afd_run_Cons fill_turn_def)
  then show ?thesis using tail b by (intro exI [of _ a']) simp
qed

section \<open>A coroutine that waits\<close>

lemma suspended_step:
  "read_answer p (af_log a) = None \<Longrightarrow>
   read_suspended sys p (t # rest) a s cs =
     Option.bind (afd_step sys waiting_client t (a, s)) (\<lambda>r. read_suspended sys p (fst r @ rest) (fst (snd r)) (snd (snd r)) cs)"
  by (subst read_suspended.simps) simp

lemma suspended_chunk:
  "read_answer p (af_log a) = None \<Longrightarrow>
   read_suspended sys p [] a s (d # ds) = read_suspended sys p [TData d False] a s ds"
  by (subst read_suspended.simps) (simp add: entry_task_def)

lemma suspended_answer:
  "read_answer p (af_log a) = Some r \<Longrightarrow> read_suspended sys p ts a s cs = Some (r, ts, (a, s), cs)"
  by (subst read_suspended.simps) simp

lemma suspended_nothing:
  assumes "open_plain a" and "read_answer p (af_log a) = None"
  shows "read_suspended sys p [TData [] False] a s cs = read_suspended sys p [] a s cs"
  using assms by (simp add: suspended_step fill_turn_def open_plain_def ssl_ready_def)

text \<open>The rest of the call of \<open>on_data\<close> in which the coroutine ran.\<close>

lemma suspended_tail:
  assumes "open_plain a" and "read_answer p (af_log a) = None"
  obtains a' where "read_suspended sys p [TTail False] a s cs = read_suspended sys p [] a' s cs" "open_plain a'" "window a' = window a"
    "af_log a' = af_log a" "af_read_commands a' = af_read_commands a" "af_next_promise a' = af_next_promise a"
proof -
  obtain new a' where t: "tail_turn False a = (new, a')" "new = [] \<or> new = [TData [] False]" "open_plain a'" "window a' = window a"
      "af_log a' = af_log a" "af_read_commands a' = af_read_commands a" "af_next_promise a' = af_next_promise a"
    using tail_open [OF assms(1), of False] by auto
  have none: "read_answer p (af_log a') = None" using assms(2) t(5) by simp
  have "read_suspended sys p [TTail False] a s cs = read_suspended sys p new a' s cs"
    using t(1) assms(2) by (simp add: suspended_step)
  also have "\<dots> = read_suspended sys p [] a' s cs"
    using t(2) suspended_nothing [OF t(3) none, of sys s cs] by auto
  finally show ?thesis using that t by blast
qed

text \<open>What the chunks that come do for the command that waits.\<close>

fun arrives :: "read_kind \<Rightarrow> byte list \<Rightarrow> byte list list \<Rightarrow> byte list \<Rightarrow> nat \<Rightarrow> bool" where
  "arrives kind w [] bs used = False"
| "arrives kind w (d # ds) bs used =
     (if d = [] then arrives kind w ds bs used
      else if unsatisfied kind (w @ d) then arrives kind (w @ d) ds bs used
      else satisfied kind (w @ d) bs used)"

definition waits :: "nat \<Rightarrow> read_kind \<Rightarrow> afd \<Rightarrow> bool" where
  "waits p kind a \<longleftrightarrow> open_plain a \<and> af_read_commands a = [\<lparr>rc_promise = p, rc_kind = kind\<rparr>] \<and>
     unused p a \<and> af_next_promise a = Suc p"

lemma waits_none: "waits p kind a \<Longrightarrow> read_answer p (af_log a) = None"
  by (simp add: waits_def unused_def)

lemma fill_chunk:
  assumes "waits p kind a" and "d \<noteq> []"
  defines "a1 \<equiv> add_event (EvArrived d) (a\<lparr>af_read_buffer := af_read_buffer a @ d\<rparr>)"
  shows "read_suspended sys p [TData d False] a s cs = read_suspended sys p [TLoop, TTail False] a1 s cs"
    and "waits p kind a1" and "window a1 = window a @ d"
proof -
  have open_a: "open_plain a" "\<not> is_closed a" "\<not> ssl_ready a" "af_read_commands a \<noteq> []"
    using assms(1) by (auto simp: waits_def open_plain_def is_closed_def)
  have none: "read_answer p (af_log a) = None" by (rule waits_none [OF assms(1)])
  have "fill_turn d False a = ([TLoop, TTail False], a1)"
    using assms(2) open_a(1) by (cases d) (auto simp: fill_turn_def a1_def open_plain_def)
  then show "read_suspended sys p [TData d False] a s cs = read_suspended sys p [TLoop, TTail False] a1 s cs"
    using none open_a by (simp add: suspended_step)
  show "waits p kind a1"
    using assms(1) by (simp add: waits_def open_plain_def a1_def unused_def read_answer_append ssl_ready_def)
  show "window a1 = window a @ d" using open_a(1) by (simp add: window_def a1_def open_plain_def)
qed

lemma unused_more: "unused p a \<Longrightarrow> af_log a' = af_log a @ [EvRead \<lparr>rc_promise = p, rc_kind = kind\<rparr> err bs] \<Longrightarrow> unused (p + 1) a'"
  by (auto simp: unused_def read_answer_append)

lemma suspended_arrives:
  assumes "waits p kind a" and "arrives kind (window a) cs bs used"
  shows "\<exists>C'. read_suspended sys p [] a s cs = Some ((False, bs), C') \<and> able_to_read C' \<and> to_come C' = drop used (window a @ concat cs)"
  using assms
proof (induction cs arbitrary: a)
  case (Cons d ds)
  have none: "read_answer p (af_log a) = None" by (rule waits_none [OF Cons.prems(1)])
  show ?case
  proof (cases "d = []")
    case True
    then show ?thesis
      using Cons none suspended_nothing [of a p sys s ds] by (simp add: suspended_chunk waits_def)
  next
    case False
    let ?a1 = "add_event (EvArrived d) (a\<lparr>af_read_buffer := af_read_buffer a @ d\<rparr>)"
    note f = fill_chunk [OF Cons.prems(1) False]
    have run: "read_suspended sys p [] a s (d # ds) = read_suspended sys p [TLoop, TTail False] ?a1 s ds"
      using none f(1) [of sys s ds] by (simp add: suspended_chunk)
    have none1: "read_answer p (af_log ?a1) = None" by (rule waits_none [OF f(2)])
    have cmd: "af_read_commands ?a1 = [\<lparr>rc_promise = p, rc_kind = kind\<rparr>]" "open_plain ?a1" "unused p ?a1"
      "af_next_promise ?a1 = Suc p" using f(2) unfolding waits_def by blast+
    show ?thesis
    proof (cases "unsatisfied kind (window a @ d)")
      case True
      then have "read_turn waiting_client ?a1 = Some ([], ?a1)"
        by (intro read_turn_unsatisfied [OF cmd(1,2)]) (simp only: f(3))
      then have "read_suspended sys p [TLoop, TTail False] ?a1 s ds = read_suspended sys p [TTail False] ?a1 s ds"
        by (subst suspended_step [OF none1]) simp
      moreover obtain a2 where a2: "read_suspended sys p [TTail False] ?a1 s ds = read_suspended sys p [] a2 s ds" "open_plain a2"
          "window a2 = window ?a1" "af_log a2 = af_log ?a1" "af_read_commands a2 = af_read_commands ?a1"
          "af_next_promise a2 = af_next_promise ?a1"
        by (rule suspended_tail [OF cmd(2) none1])
      moreover have "waits p kind a2" using a2 cmd unfolding waits_def unused_def by simp
      moreover have "arrives kind (window a2) ds bs used" using Cons.prems(2) True False a2(3) f(3) by simp
      ultimately show ?thesis using Cons.IH [of a2] run a2(3) f(3) by simp
    next
      case sat: False
      then have s: "satisfied kind (window a @ d) bs used" using Cons.prems(2) False by simp
      let ?b = "finish_read False bs (?a1\<lparr>af_read_offset := af_read_offset ?a1 + used\<rparr>)"
      have turn: "read_turn waiting_client ?a1 = Some ([TLoop], ?b)"
        using read_turn_satisfied [OF cmd(1,2) f(3) _ s] False by simp
      have le: "af_read_offset ?a1 + used \<le> length (af_read_buffer ?a1)" "drop (af_read_offset ?a1 + used) (af_read_buffer ?a1) = drop used (window a @ d)"
        using window_used [OF cmd(2) f(3) satisfied_used [OF s]] by blast+
      have ans: "read_answer p (af_log ?b) = Some (False, bs)"
        using none1 cmd(1) unfolding finish_read_fields(11) by (simp add: read_answer_append del: add_event_fields)
      have "read_suspended sys p [TLoop, TTail False] ?a1 s ds = read_suspended sys p [TLoop, TTail False] ?b s ds"
        by (subst suspended_step [OF none1]) (simp add: turn)
      then have "read_suspended sys p [] a s (d # ds) = Some ((False, bs), [TLoop, TTail False], (?b, s), ds)"
        using run suspended_answer [OF ans] by simp
      moreover have "open_plain ?b" using cmd(2) le(1) by (simp add: open_plain_def ssl_ready_def finish_read_def)
      moreover have "unused (af_next_promise ?b) ?b" using unused_more [OF cmd(3), of ?b kind False bs] cmd(1,4) by simp
      moreover have "window ?b = drop used (window a @ d)" using le(2) by (simp add: window_def)
      ultimately show ?thesis
        using cmd(1) satisfied_used [OF s] by (auto simp: able_to_read_def to_come_def)
    qed
  qed
qed simp

section \<open>What a read hands out\<close>

lemma fd_read_satisfied:
  assumes "able_to_read C" and "asks c kind" and "C = (ts, (a, s), cs)" and "window a \<noteq> []" and "satisfied kind (window a) bs used"
  shows "\<exists>C'. fd_read sys c C = Some ((False, bs), C') \<and> able_to_read C' \<and> to_come C' = drop used (to_come C)"
proof -
  have r: "ts = [] \<or> ts = [TLoop, TTail False]" "open_plain a" "af_read_commands a = []" "unused (af_next_promise a) a"
    using assms(1,3) by (simp_all add: able_to_read_def)
  obtain a' where a': "afd_run sys waiting_client [TCall c] a s = Some (a', s)" "open_plain a'" "af_read_commands a' = []"
      "af_log a' = af_log a @ [EvRead \<lparr>rc_promise = af_next_promise a, rc_kind = kind\<rparr> False bs]"
      "af_next_promise a' = af_next_promise a + 1" "window a' = drop used (window a)"
    using call_satisfied [OF assms(2) r(2,3) refl assms(4,5)] by blast
  have "read_answer (af_next_promise a) (af_log a') = Some (False, bs)"
    using a'(4) r(4) by (simp add: read_answer_append unused_def)
  then have "fd_read sys c C = Some ((False, bs), ts, (a', s), cs)"
    unfolding fd_read_def assms(3) prod.case a'(1) by (simp add: suspended_answer)
  moreover have "able_to_read (ts, (a', s), cs)" using r(1) a' unused_more [OF r(4) a'(4)] by (simp add: able_to_read_def)
  moreover have "to_come (ts, (a', s), cs) = drop used (to_come C)"
    using a'(6) satisfied_used [OF assms(5)] assms(3) by (simp add: to_come_def)
  ultimately show ?thesis by blast
qed

lemma fd_read_arrives:
  assumes "able_to_read C" and "asks c kind" and "C = (ts, (a, s), cs)" and "unsatisfied kind (window a)" and "arrives kind (window a) cs bs used"
  shows "\<exists>C'. fd_read sys c C = Some ((False, bs), C') \<and> able_to_read C' \<and> to_come C' = drop used (to_come C)"
proof -
  have r: "ts = [] \<or> ts = [TLoop, TTail False]" "open_plain a" "af_read_commands a = []" "unused (af_next_promise a) a"
    using assms(1,3) by (simp_all add: able_to_read_def)
  let ?p = "af_next_promise a" and ?q = "queued_read kind a"
  have w: "waits ?p kind ?q" using r by (simp add: waits_def unused_def)
  have none: "read_answer ?p (af_log ?q) = None" by (rule waits_none [OF w])
  obtain b where b: "read_suspended sys ?p ts ?q s cs = read_suspended sys ?p [] b s cs" "waits ?p kind b" "window b = window a"
  proof (cases "ts = []")
    case True
    show ?thesis by (rule that [of ?q]) (use True w in simp_all)
  next
    case False
    have turn: "read_turn waiting_client ?q = Some ([], ?q)"
      by (rule read_turn_unsatisfied [where p = ?p and kind = kind]) (use r(2) assms(4) in simp_all)
    have plain: "open_plain ?q" using r(2) by simp
    have "read_suspended sys ?p ts ?q s cs = read_suspended sys ?p [TTail False] ?q s cs"
      using False r(1) turn by (simp add: suspended_step [OF none])
    moreover obtain b where b: "read_suspended sys ?p [TTail False] ?q s cs = read_suspended sys ?p [] b s cs" "open_plain b"
        "window b = window ?q" "af_log b = af_log ?q" "af_read_commands b = af_read_commands ?q"
        "af_next_promise b = af_next_promise ?q"
      by (rule suspended_tail [OF plain none])
    moreover have "waits ?p kind b" using w b(2-6) by (simp add: waits_def unused_def)
    ultimately show ?thesis using that [of b] by simp
  qed
  have "arrives kind (window b) cs bs used" using assms(5) b(3) by simp
  then obtain C' where "read_suspended sys ?p ts ?q s cs = Some ((False, bs), C')" "able_to_read C'" "to_come C' = drop used (window b @ concat cs)"
    using suspended_arrives [OF b(2)] b(1) by metis
  then show ?thesis
    using call_unsatisfied [OF assms(2) r(2,3) assms(4), of sys s] assms(3) b(3)
    by (simp add: fd_read_def to_come_def)
qed

text \<open>A number of bytes is handed out whatever the pieces are in which they come.\<close>

lemma arrives_number:
  "length w < n \<Longrightarrow> n \<le> length (w @ concat cs) \<Longrightarrow> arrives (RcN n) w cs (take n (w @ concat cs)) n"
proof (induction cs arbitrary: w)
  case (Cons d ds)
  show ?case
  proof (cases "n \<le> length (w @ d)")
    case True
    then have "\<not> unsatisfied (RcN n) (w @ d)" "d \<noteq> []" using Cons.prems(1) by (auto simp: unsatisfied_def)
    then show ?thesis using True by simp
  next
    case False
    then show ?thesis using Cons.IH [of "w @ d"] Cons.prems Cons.IH [of w] by (auto simp: unsatisfied_def)
  qed
qed simp

lemma fd_read_number:
  assumes "able_to_read C" and "to_come C = xs @ bs" and "xs \<noteq> []"
  shows "\<exists>C'. fd_read sys (ReadN (length xs)) C = Some ((False, xs), C') \<and> able_to_read C' \<and> to_come C' = bs"
proof -
  obtain ts a s cs where C: "C = (ts, (a, s), cs)" by (cases C) auto
  have all: "window a @ concat cs = xs @ bs" using assms(2) C by (simp add: to_come_def)
  have asks: "asks (ReadN (length xs)) (RcN (length xs))" by simp
  have xs: "take (length xs) (window a @ concat cs) = xs" "drop (length xs) (to_come C) = bs" using all assms(2) by simp_all
  show ?thesis
  proof (cases "length xs \<le> length (window a)")
    case True
    then have "take (length xs) (window a) = xs" "window a \<noteq> []" using xs(1) assms(3) by auto
    then show ?thesis
      using fd_read_satisfied [OF assms(1) asks C, of xs "length xs" sys] True xs(2) by simp
  next
    case False
    have "length xs \<le> length (window a @ concat cs)" unfolding all by simp
    then have "arrives (RcN (length xs)) (window a) cs xs (length xs)" using arrives_number [of "window a" "length xs" cs] False xs(1) by simp
    moreover have "unsatisfied (RcN (length xs)) (window a)" using False by (simp add: unsatisfied_def)
    ultimately show ?thesis using fd_read_arrives [OF assms(1) asks C, of xs "length xs" sys] xs(2) by simp
  qed
qed

text \<open>A delimiter is found when it lies in the next piece, its whole text in front of it.\<close>

lemma arrives_piece:
  "satisfied kind (concat (take 1 (filter (\<lambda>d. d \<noteq> []) cs))) bs used \<Longrightarrow> kind = RcUntil d T \<Longrightarrow> arrives kind [] cs bs used"
proof (induction cs)
  case (Cons c cs)
  then show ?case by (auto simp: unsatisfied_def)
qed auto

lemma fd_read_delimiter:
  assumes "able_to_read C" and "asks c (RcUntil d T)" and "table_ok d T (length d)" "length d \<le> length T" and "d \<noteq> []"
    and "view_search d (next_piece C) = Some k" and "length (next_piece C) < 2 ^ 31"
  shows "\<exists>C'. fd_read sys c C = Some ((False, take k (next_piece C)), C') \<and> able_to_read C' \<and> to_come C' = drop (k + length d) (to_come C)"
proof -
  obtain ts a s cs where C: "C = (ts, (a, s), cs)" by (cases C) auto
  have sat: "satisfied (RcUntil d T) (next_piece C) (take k (next_piece C)) (k + length d)" using assms(3-7) by auto
  show ?thesis
  proof (cases "window a = []")
    case True
    then have "next_piece C = concat (take 1 (filter (\<lambda>d. d \<noteq> []) cs))" unfolding C next_piece_def by simp
    then have "arrives (RcUntil d T) (window a) cs (take k (next_piece C)) (k + length d)"
      using arrives_piece [of "RcUntil d T" cs] sat True by simp
    then show ?thesis using fd_read_arrives [OF assms(1,2) C] True by (simp add: unsatisfied_def)
  next
    case False
    then have "next_piece C = window a" unfolding C next_piece_def by simp
    then show ?thesis using fd_read_satisfied [OF assms(1,2) C False] sat by simp
  qed
qed

section \<open>Reads of a coroutine on a connection\<close>

text \<open>The table \<open>rnrn\<close> of the server's translation unit, which it passes with every \<open>read_until\<close>.\<close>

definition init_rnrn :: "int list option" where
  "init_rnrn = build_kmp [13, 10, 13, 10] (replicate 8 0)"

definition server_tables :: "byte list \<rightharpoonup> int list" where
  "server_tables d = (if d = [13, 10, 13, 10] then init_rnrn else None)"

definition tables_fit :: "(byte list \<rightharpoonup> int list) \<Rightarrow> byte list \<Rightarrow> bool" where
  "tables_fit tb d \<longleftrightarrow> (\<forall>T. tb d = Some T \<longrightarrow> table_ok d T (length d) \<and> length d \<le> length T)"

lemma tables_fit_empty [simp]: "tables_fit Map.empty d"
  by (simp add: tables_fit_def)

lemma tables_fit_server [simp]: "tables_fit server_tables d"
  using build_kmp_result [of "[13, 10, 13, 10]" "replicate 8 0"]
  by (auto simp: tables_fit_def server_tables_def init_rnrn_def split: if_splits)

lemma next_piece_prefix: "prefix (next_piece C) (to_come C)"
proof -
  have "prefix (concat (take 1 (filter (\<lambda>d. d \<noteq> []) cs))) (concat cs)" for cs :: "byte list list"
    by (induction cs) auto
  then have "prefix (concat (take 1 (filter (\<lambda>d. d \<noteq> []) (w # cs)))) (w @ concat cs)" for w :: "byte list" and cs
    by (cases "w = []") auto
  then show ?thesis by (cases C) (auto simp: next_piece_def to_come_def simp del: filter.simps)
qed

lemma connected_bytes:
  assumes "connected sys env tb f C s" and "able_to_read C" and "to_come C = xs @ bs" and "xs \<noteq> []"
  shows "\<exists>s1 C'. read_n env f (length xs) s = ((False, xs), s1) \<and> connected sys env tb f C' s1 \<and> able_to_read C' \<and> to_come C' = bs"
proof -
  obtain C' where C': "fd_read sys (ReadN (length xs)) C = Some ((False, xs), C')" "able_to_read C'" "to_come C' = bs"
    using fd_read_number [OF assms(2-4), of sys] by blast
  then show ?thesis using connected_read_n [OF assms(1) C'(1)] by blast
qed

lemma connected_delimiter:
  assumes "connected sys env tb f C s" and "able_to_read C" and "tables_fit tb d" and "d \<noteq> []" "length d < 2 ^ 31"
    and "view_search d (next_piece C) = Some k" and "length (next_piece C) < 2 ^ 31"
  shows "\<exists>s1 C'. read_up_to env f d s = ((False, take k (next_piece C)), s1) \<and> connected sys env tb f C' s1 \<and> able_to_read C' \<and>
    to_come C' = drop (k + length d) (to_come C)"
proof -
  let ?c = "case tb d of None \<Rightarrow> ReadUntil d | Some T \<Rightarrow> ReadUntilWith d T"
  obtain T where T: "asks ?c (RcUntil d T)" "table_ok d T (length d)" "length d \<le> length T"
  proof (cases "tb d")
    case None
    obtain T where "build_kmp d (replicate (length d + 2) 0) = Some T" "table_ok d T (length d)" "length d \<le> length T"
      using build_kmp_result [of d "replicate (length d + 2) 0"] assms(4,5) by auto
    then show ?thesis using that [of T] None by simp
  next
    case (Some T)
    then show ?thesis using that [of T] assms(3) by (simp add: tables_fit_def)
  qed
  obtain C' where C': "fd_read sys ?c C = Some ((False, take k (next_piece C)), C')" "able_to_read C'"
      "to_come C' = drop (k + length d) (to_come C)"
    using fd_read_delimiter [OF assms(2) T assms(4,6,7), of sys] by blast
  then show ?thesis using connected_read_until [OF assms(1) C'(1)] by blast
qed

text \<open>A descriptor that was just accepted, with the chunks that will arrive.\<close>

lemma fresh_connection:
  "able_to_read ([], (fresh_afd elfd f ty, s), cs)" "to_come ([], (fresh_afd elfd f ty, s), cs) = concat cs"
  "next_piece ([], (fresh_afd elfd f ty, s), cs) = concat (take 1 (filter (\<lambda>d. d \<noteq> []) cs))"
  by (simp_all add: able_to_read_def to_come_def next_piece_def open_plain_def unused_def fresh_afd_def ssl_ready_def window_def)

end
