(* ===== verification/Web_Exchange.thy ===== *)
theory Web_Exchange
  imports Web_Client Web_Descriptor
begin

text \<open>
  What the client sends is what the server reads, and what the server answers is what the client reads:
  the two ends of an exchange over the connections of \<open>Web_Descriptor\<close>, whose reads the modelled
  descriptor answers.
\<close>

section \<open>Lines\<close>

definition line_of :: "byte list \<times> byte list \<Rightarrow> byte list" where
  "line_of h = fst h @ colon @ snd h"

definition head_text :: "byte list \<Rightarrow> (byte list \<times> byte list) list \<Rightarrow> byte list" where
  "head_text start hs = start @ concat (map (\<lambda>h. crlf @ line_of h) hs)"

definition clean_header :: "byte list \<times> byte list \<Rightarrow> bool" where
  "clean_header h \<longleftrightarrow> 13 \<notin> set (fst h) \<and> 58 \<notin> set (fst h) \<and> 13 \<notin> set (snd h)"

lemma head_text_simps [simp]:
  "head_text start [] = start" "head_text start (h # hs) = start @ crlf @ head_text (line_of h) hs"
  by (simp_all add: head_text_def)

lemma header_lines: "fold (\<lambda>h t. t @ header_line h) hs (start @ crlf) = head_text start hs @ crlf"
proof (induction hs arbitrary: start)
  case (Cons h hs)
  have "fold (\<lambda>h t. t @ header_line h) (h # hs) (start @ crlf)
      = fold (\<lambda>h t. t @ header_line h) hs ((start @ crlf @ line_of h) @ crlf)"
    by (simp add: header_line_def line_of_def)
  then show ?case unfolding Cons.IH by (simp add: head_text_def)
qed simp

lemma line_of_facts [simp]: "line_of h \<noteq> []" "clean_header h \<Longrightarrow> 13 \<notin> set (line_of h)"
  by (simp_all add: line_of_def colon_def clean_header_def)

lemma view_search_skip: "c \<notin> set ys \<Longrightarrow> view_search (c # p) (ys @ xs) = map_option ((+) (length ys)) (view_search (c # p) xs)"
proof (induction ys)
  case Nil
  then show ?case by (cases "view_search (c # p) xs") simp_all
next
  case (Cons y ys)
  then show ?case by (cases "view_search (c # p) xs") auto
qed

lemma head_end_found:
  "13 \<notin> set start \<Longrightarrow> list_all clean_header hs \<Longrightarrow>
   view_search [13, 10, 13, 10] (head_text start hs @ [13, 10, 13, 10] @ rest) = Some (length (head_text start hs))"
proof (induction hs arbitrary: start)
  case Nil
  then show ?case using view_search_fresh [of 13 start "[10, 13, 10]" rest] by simp
next
  case (Cons h hs)
  let ?rest = "head_text (line_of h) hs @ [13, 10, 13, 10] @ rest"
  have found: "view_search [13, 10, 13, 10] ?rest = Some (length (head_text (line_of h) hs))"
    using Cons by simp
  have "\<exists>c cs. ?rest = c # cs \<and> c \<noteq> 13"
  proof -
    obtain c cs where c: "line_of h = c # cs" using line_of_facts(1) [of h] by (cases "line_of h") auto
    moreover have "c \<noteq> 13" using line_of_facts(2) [of h] Cons.prems(2) c by auto
    ultimately show ?thesis by (simp add: head_text_def)
  qed
  then obtain c cs where c: "?rest = c # cs" "c \<noteq> 13" by blast
  have "view_search [13, 10, 13, 10] (crlf @ ?rest) = map_option (\<lambda>n. Suc (Suc n)) (view_search [13, 10, 13, 10] ?rest)"
    unfolding c using c(2) by (simp add: crlf_def option.map_comp comp_def)
  then have "view_search [13, 10, 13, 10] (start @ crlf @ ?rest) = Some (length (head_text start (h # hs)))"
    using view_search_skip [of 13 start "[10, 13, 10]" "crlf @ ?rest"] Cons.prems(1) found by (simp add: crlf_def)
  then show ?case by (simp add: crlf_def)
qed

lemma read_header_line: "clean_header h \<Longrightarrow> read_header (line_of h) m = write_header (fst h) (snd h) m"
  using view_search_fresh [of 58 "fst h" "[32]" "snd h"]
  by (simp add: read_header_def line_of_def clean_header_def colon_def)

lemma header_loop_lines:
  "13 \<notin> set start \<Longrightarrow> list_all clean_header hs \<Longrightarrow>
   header_loop (head_text start hs) m = fold (\<lambda>h. write_header (fst h) (snd h)) hs (read_header start m)"
proof (induction hs arbitrary: start m)
  case Nil
  then show ?case using view_search_absent [of 13 start "[10]"] by (subst header_loop.simps) (simp add: crlf_def)
next
  case (Cons h hs)
  have "head_text (line_of h) hs \<noteq> []" by (simp add: head_text_def)
  moreover have "view_search crlf (start @ crlf @ head_text (line_of h) hs) = Some (length start)"
    using view_search_fresh [of 13 start "[10]"] Cons.prems(1) by (simp add: crlf_def)
  ultimately have "header_loop (head_text start (h # hs)) m = header_loop (head_text (line_of h) hs) (read_header start m)"
    by (subst header_loop.simps) (simp add: crlf_def)
  also have "\<dots> = fold (\<lambda>h. write_header (fst h) (snd h)) hs (read_header (line_of h) (read_header start m))"
    using Cons by simp
  finally show ?case using Cons.prems read_header_line by simp
qed

lemma read_header_plain: "58 \<notin> set line \<Longrightarrow> read_header line m = m"
  using view_search_absent [of 58 line "[32]"] by (simp add: read_header_def colon_def)

text \<open>A head whose first line has the length of its start, from a position within that line on.\<close>

lemma parse_headers_text:
  assumes "k + 2 \<le> length start" and "13 \<notin> set start" "58 \<notin> set start" and "list_all clean_header hs"
  shows "parse_headers (head_text start hs) k m = Some (fold (\<lambda>h. write_header (fst h) (snd h)) hs m)"
proof -
  have "drop (k + 2) (head_text start hs) = head_text (drop (k + 2) start) hs" using assms(1) by (simp add: head_text_def)
  moreover have "13 \<notin> set (drop (k + 2) start)" "58 \<notin> set (drop (k + 2) start)"
    using assms(2,3) by (auto dest: in_set_dropD)
  moreover have "k + 2 \<le> length (head_text start hs)" using assms(1) by (simp add: head_text_def)
  ultimately show ?thesis using assms(4) by (simp add: parse_headers_def header_loop_lines read_header_plain)
qed

section \<open>Dictionaries\<close>

definition dict_ok :: "(byte list \<times> byte list) list \<Rightarrow> bool" where
  "dict_ok d \<longleftrightarrow> sorted_wrt (<) (map fst d)"

lemma map_of_dict_put: "map_of (dict_put k v d) = (map_of d)(k \<mapsto> v)"
  by (induction d) (auto simp: fun_upd_twist)

lemma dict_put_keys: "set (dict_put k v d) \<subseteq> insert (k, v) (set d)"
  by (induction d) auto

lemma dict_put_ok: "dict_ok d \<Longrightarrow> dict_ok (dict_put k v d)"
proof (induction d)
  case (Cons p d)
  have ok: "dict_ok d" and low: "\<forall>x\<in>set d. fst p < fst x" using Cons.prems by (auto simp: dict_ok_def)
  show ?case
  proof (cases "k = fst p \<or> k < fst p")
    case True
    then show ?thesis using Cons.prems low by (auto simp: dict_ok_def)
  next
    case False
    then have "fst p < k" by auto
    then have "\<forall>x\<in>set (dict_put k v d). fst p < fst x" using low dict_put_keys [of k v d] by auto
    then show ?thesis using Cons.IH [OF ok] False by (auto simp: dict_ok_def)
  qed
qed (simp add: dict_ok_def)

lemma dict_ok_distinct: "dict_ok d \<Longrightarrow> distinct (map fst d)"
  by (simp add: dict_ok_def strict_sorted_iff)

definition small_names :: "(byte list \<times> byte list) list \<Rightarrow> bool" where
  "small_names d \<longleftrightarrow> list_all (\<lambda>h. lower (fst h) = fst h) d"

lemma headers_read:
  "small_names d \<Longrightarrow> distinct (map fst d) \<Longrightarrow> fold (\<lambda>h. write_header (fst h) (snd h)) d m = m ++ map_of d"
proof (induction d arbitrary: m)
  case (Cons h d)
  obtain k v where h: "h = (k, v)" by (cases h)
  have "k \<notin> dom (map_of d)" using Cons.prems(2) h by (simp add: dom_map_of_conv_image_fst)
  then have "m(k \<mapsto> v) ++ map_of d = m ++ map_of (h # d)" using h by (simp add: map_add_upd_left)
  moreover have "small_names d" "distinct (map fst d)" "lower k = k" using Cons.prems h by (simp_all add: small_names_def)
  ultimately show ?case using Cons.IH [of "m(k \<mapsto> v)"] h by (simp only: fold_simps fst_conv snd_conv write_header_def comp_def)
qed simp

lemma dict_put_all: "list_all P d \<Longrightarrow> P (k, v) \<Longrightarrow> list_all P (dict_put k v d)"
  using dict_put_keys [of k v d] by (auto simp: list_all_iff)

section \<open>Numbers\<close>

lemma digit_byte: "d < 10 \<Longrightarrow> unat (48 + word_of_nat d :: byte) = 48 + d"
proof -
  assume "d < 10"
  then have "unat (word_of_nat (48 + d) :: byte) = 48 + d" by (simp add: unat_of_nat del: of_nat_add)
  then show ?thesis by simp
qed

lemma digits_chars: "list_all c_isdigit (digits n) \<and> digits n \<noteq> []"
proof (induction n rule: digits.induct)
  case (1 n)
  then show ?case
    using digit_byte [of n] digit_byte [of "n mod 10"]
    by (subst (1 2) digits.simps) (auto simp: c_isdigit_def [abs_def])
qed

lemma digits_back: "fold (\<lambda>c n. 10 * n + (unat c - 48)) (digits n) 0 = n"
proof (induction n rule: digits.induct)
  case (1 n)
  then show ?case
    using digit_byte [of n] digit_byte [of "n mod 10"] by (subst digits.simps) (auto)
qed

lemma digits_end:
  "(\<And>c. c_isdigit c \<Longrightarrow> P c) \<Longrightarrow> rest = [] \<or> \<not> P (hd rest) \<Longrightarrow> takeWhile P (digits n @ rest) = digits n"
  using digits_chars [of n] by (cases rest) (auto simp: takeWhile_append2 list_all_iff)

lemma decimal_nat: "decimal (int n) = digits n"
  by (simp add: decimal_def)

lemma c_atoll_decimal:
  assumes "n < 2 ^ 63" and "rest = [] \<or> \<not> c_isdigit (hd rest)"
  shows "c_atoll (decimal (int n) @ rest) = int n"
proof -
  obtain c cs where c: "digits n = c # cs" "c_isdigit c" using digits_chars [of n] by (cases "digits n") auto
  then have "\<not> c_isspace c" "c \<noteq> 45" "c \<noteq> 43" by (auto simp: c_isdigit_def c_isspace_def)
  moreover have "takeWhile c_isdigit (digits n @ rest) = digits n" using assms(2) by (rule digits_end [rotated]) simp
  ultimately show ?thesis
    using assms(1) digits_back [of n] c(1) by (simp add: c_atoll_def decimal_nat digits_value_def Let_def)
qed

lemma from_chars_decimal:
  assumes "n < 2 ^ 64"
  shows "from_chars 10 (decimal (int n)) = Some n"
proof -
  have digit: "base_digit 10 c \<and> the (digit_of c) = unat c - 48" if "c_isdigit c" for c
    using that by (auto simp: base_digit_def digit_of_def c_isdigit_def)
  have all: "takeWhile (base_digit 10) (digits n) = digits n" using digits_end [of "base_digit 10" "[]" n] digit by simp
  have "fold (\<lambda>c n. 10 * n + the (digit_of c)) (digits n) 0 = fold (\<lambda>c n. 10 * n + (unat c - 48)) (digits n) 0"
    by (rule fold_cong) (use digits_chars [of n] digit in \<open>auto simp: list_all_iff\<close>)
  then show ?thesis
    using assms digits_back [of n] digits_chars [of n] unfolding from_chars_def decimal_nat Let_def all by simp
qed

lemma decimal_letters: "c \<in> set (decimal (int n)) \<Longrightarrow> c_isdigit c"
  using digits_chars [of n] by (simp add: decimal_nat list_all_iff)

section \<open>Requests\<close>

definition first_line :: "byte list \<Rightarrow> byte list \<Rightarrow> byte list" where
  "first_line meth script = meth @ [32] @ script @ cstr '' HTTP/1.1''"

lemma request_text_head:
  "request_text meth script hs body = head_text (first_line meth script) hs @ [13, 10, 13, 10] @ body"
  using header_lines [of hs "first_line meth script"] by (simp add: request_text_def first_line_def crlf_def)

lemma first_line_letters:
  "13 \<notin> set (first_line meth script) \<longleftrightarrow> 13 \<notin> set meth \<and> 13 \<notin> set script"
  "58 \<notin> set (first_line meth script) \<longleftrightarrow> 58 \<notin> set meth \<and> 58 \<notin> set script"
  by (auto simp: first_line_def cstr_def)

lemma first_crlf: "13 \<notin> set start \<Longrightarrow> hs \<noteq> [] \<Longrightarrow> view_search crlf (head_text start hs) = Some (length start)"
proof -
  assume "13 \<notin> set start" "hs \<noteq> []"
  then obtain h hs' where "head_text start hs = start @ (13 # [10]) @ head_text (line_of h) hs'"
    by (cases hs) (auto simp: crlf_def)
  then show ?thesis using view_search_fresh [of 13 start "[10]"] \<open>13 \<notin> set start\<close> by (simp add: crlf_def)
qed

lemma take_start: "take (length start) (head_text start hs) = start"
  by (simp add: head_text_def)

lemma request_line_text:
  assumes "13 \<notin> set meth" "13 \<notin> set script" "32 \<notin> set meth" "32 \<notin> set script" and "hs \<noteq> []"
  shows "request_line (head_text (first_line meth script) hs) = Some (meth, script, length script)"
proof -
  let ?line = "first_line meth script"
  have crlf: "view_search crlf (head_text ?line hs) = Some (length ?line)"
    using assms(1,2,5) by (intro first_crlf) (simp_all add: first_line_letters)
  have sp: "cstr '' HTTP/1.1'' = 32 # cstr ''HTTP/1.1''" by (simp add: cstr_def)
  have "view_find 32 ?line = Some (length meth)" using assms(3) by (simp add: first_line_def view_find_simps)
  moreover have "view_find 32 (drop (length meth + 1) ?line) = Some (length script)"
    using assms(4) by (simp add: first_line_def sp view_find_simps)
  ultimately show ?thesis unfolding request_line_def crlf option.case Let_def take_start by (simp add: first_line_def)
qed

lemma parse_script_query:
  assumes "63 \<notin> set path" and "util_url_decode path = Some endpoint" and "length (query_text ps) < 2 ^ 64"
    and "length base < 16 \<or> map_of (rev ps) (cstr ''e'') = None"
  shows "parse_script env lib A stk base (path @ [63] @ query_text ps) e s =
    Some (endpoint, e\<lparr>he_query := map_of (rev ps)\<rparr>, s)"
proof -
  have "view_find 63 (path @ [63] @ query_text ps) = Some (length path)" using assms(1) by (simp add: view_find_simps)
  moreover have "parse_query_string (query_text ps) = Some (map_of (rev ps))"
    using query_loop_text [of 0 "query_text ps" ps Map.empty] assms(3) by (simp add: parse_query_string_def)
  moreover have "read_signed env lib A stk base endpoint (map_of (rev ps)) e s = Some (e, s)"
    using assms(4) by (auto simp: read_signed_def)
  ultimately show ?thesis using assms(2) by (simp add: parse_script_def)
qed

lemma read_body_bytes:
  assumes "he_headers e (cstr ''content-length'') = Some (decimal (int (length body)))" and "length body < 2 ^ 63" and "he_body e = []"
    and "if body = [] then s1 = s else read_n env f (length body) s = ((False, body), s1)"
  shows "read_body env f e s = (Some (e\<lparr>he_body := body\<rparr>), s1)"
proof -
  have len: "c_atoll (decimal (int (length body))) = int (length body)"
    using c_atoll_decimal [OF assms(2), of "[]"] by simp
  have hdr: "env_header (cstr ''content-length'') e = Some (decimal (int (length body)))"
    using assms(1) by (simp add: env_header_def cstr_def c_tolower_def)
  show ?thesis using hdr len assms(3,4) by (cases "body = []") (simp_all add: read_body_def)
qed

text \<open>The request of a client, as it is written for an address, and what it asks of its parts.\<close>

definition clean_request :: "byte list \<Rightarrow> byte list \<Rightarrow> http_address \<Rightarrow> (byte list \<times> byte list) list \<Rightarrow> bool" where
  "clean_request meth path a user \<longleftrightarrow>
     13 \<notin> set meth \<and> 32 \<notin> set meth \<and> 58 \<notin> set meth \<and>
     13 \<notin> set path \<and> 32 \<notin> set path \<and> 58 \<notin> set path \<and> 63 \<notin> set path \<and>
     13 \<notin> set (ad_host a) \<and> dict_ok user \<and> small_names user \<and> list_all clean_header user"

lemma query_letters: "c \<in> set (query_text ps) \<Longrightarrow> url_plain (unat c) \<or> c \<in> {c_percent, 61, c_amp}"
proof (induction ps rule: query_text.induct)
  case (2 p)
  then show ?case using url_text_letters [of c] by (auto simp: query_pair_def)
next
  case (3 p q ps)
  then show ?case using url_text_letters [of c] by (auto simp: query_pair_def)
qed simp

lemma query_clean: "13 \<notin> set (query_text ps)" "32 \<notin> set (query_text ps)" "58 \<notin> set (query_text ps)"
  using query_letters [of 13 ps] query_letters [of 32 ps] query_letters [of 58 ps]
  by (auto simp: url_plain_def c_isalnum_def)

lemma name_letters [simp]:
  "lower (cstr ''host'') = cstr ''host''" "lower (cstr ''content-length'') = cstr ''content-length''"
  "cstr ''host'' \<noteq> cstr ''content-length''" "cstr ''content-length'' \<noteq> cstr ''host''"
  "cstr ''content-length'' \<noteq> cstr ''transfer-encoding''" "cstr ''transfer-encoding'' \<noteq> cstr ''content-length''"
  by (simp_all add: cstr_def c_tolower_def)

lemma request_headers_facts:
  assumes "clean_request meth path a user"
  shows "dict_ok (request_headers a body user)" "small_names (request_headers a body user)"
    "list_all clean_header (request_headers a body user)" "request_headers a body user \<noteq> []"
    "map_of (request_headers a body user) =
      (map_of user)(cstr ''content-length'' \<mapsto> decimal (int (length body)), cstr ''host'' \<mapsto> ad_host a)"
proof -
  have "clean_header (cstr ''host'', ad_host a)" using assms by (auto simp: clean_request_def clean_header_def cstr_def)
  moreover have "clean_header (cstr ''content-length'', decimal (int (length body)))"
    by (auto simp: clean_header_def cstr_def c_isdigit_def dest: decimal_letters)
  ultimately show "list_all clean_header (request_headers a body user)"
    using assms by (auto simp: clean_request_def request_headers_def intro!: dict_put_all)
  show "dict_ok (request_headers a body user)"
    using assms by (simp add: clean_request_def request_headers_def dict_put_ok)
  show "small_names (request_headers a body user)"
    using assms unfolding small_names_def clean_request_def request_headers_def by (intro dict_put_all) auto
  have "dict_put k v d \<noteq> []" for k v and d :: "(byte list \<times> byte list) list" by (cases d) auto
  then show "request_headers a body user \<noteq> []" by (simp add: request_headers_def)
  show "map_of (request_headers a body user) =
      (map_of user)(cstr ''content-length'' \<mapsto> decimal (int (length body)), cstr ''host'' \<mapsto> ad_host a)"
    by (simp add: request_headers_def map_of_dict_put)
qed

lemma request_parsed:
  assumes "read_up_to env f [13, 10, 13, 10] s =
      ((False, head_text (first_line meth (path @ [63] @ query_text ps)) (request_headers a body user)), s1)"
    and "if body = [] then s2 = s1 else read_n env f (length body) s1 = ((False, body), s2)"
    and "clean_request meth path a user" and "util_url_decode path = Some endpoint"
    and "length (query_text ps) < 2 ^ 64" and "length body < 2 ^ 63"
    and "length (st_base site) < 16 \<or> map_of (rev ps) (cstr ''e'') = None"
  shows "\<exists>e. read_request env lib A stk site peer f environment s = Some (Some (find_page site meth endpoint, e), s2) \<and>
    he_method e = meth \<and> he_endpoint e = endpoint \<and> he_query e = map_of (rev ps) \<and> he_body e = body \<and>
    he_headers e = (map_of user)(cstr ''content-length'' \<mapsto> decimal (int (length body)), cstr ''host'' \<mapsto> ad_host a) \<and>
    he_peer e = peer \<and> he_fd e = Some f"
proof -
  let ?script = "path @ [63] @ query_text ps" and ?hs = "request_headers a body user"
  let ?head = "head_text (first_line meth ?script) ?hs"
  note h = request_headers_facts [OF assms(3), of body]
  note c = assms(3) [unfolded clean_request_def]
  have letters: "13 \<notin> set ?script" "32 \<notin> set ?script" "58 \<notin> set ?script" using c query_clean [of ps] by simp_all
  have line: "request_line ?head = Some (meth, ?script, length ?script)"
    using c letters h(4) by (intro request_line_text) auto
  have "parse_headers ?head (length ?script) (he_headers environment)
      = Some (fold (\<lambda>h. write_header (fst h) (snd h)) ?hs (he_headers environment))"
    using c letters h(3) by (intro parse_headers_text) (auto simp: first_line_letters, simp add: first_line_def cstr_def)
  then have hdrs: "parse_headers ?head (length ?script) (he_headers environment) = Some (map_of ?hs)"
    using headers_read [OF h(2) dict_ok_distinct [OF h(1)]] by (simp add: environment_def)
  let ?e = "environment\<lparr>he_method := meth, he_headers := map_of ?hs\<rparr>"
  have script: "parse_script env lib A stk (st_base site) ?script ?e s1 = Some (endpoint, ?e\<lparr>he_query := map_of (rev ps)\<rparr>, s1)"
    using c assms(4,5,7) by (intro parse_script_query) auto
  have body: "read_body env f (?e\<lparr>he_query := map_of (rev ps)\<rparr>) s1 = (Some (?e\<lparr>he_query := map_of (rev ps), he_body := body\<rparr>), s2)"
    using read_body_bytes [of "?e\<lparr>he_query := map_of (rev ps)\<rparr>" body s2 s1 env f] assms(2,6) h(5) by (auto simp: environment_def)
  have "read_request env lib A stk site peer f environment s = Some (Some (find_page site meth endpoint,
      prepare site peer f endpoint (?e\<lparr>he_query := map_of (rev ps), he_body := body\<rparr>)), s2)"
    using assms(1) line hdrs script body by (simp add: read_request_def)
  then show ?thesis using h(5) by (simp add: prepare_def put_header_moved_def)
qed

text \<open>The head ends at the first blank line.\<close>

lemma request_head_end:
  assumes "clean_request meth path a user"
  shows "view_search [13, 10, 13, 10] (head_text (first_line meth (path @ [63] @ query_text ps)) (request_headers a body user) @
      [13, 10, 13, 10] @ rest) =
    Some (length (head_text (first_line meth (path @ [63] @ query_text ps)) (request_headers a body user)))"
  using assms query_clean [of ps] request_headers_facts(3) [OF assms, of body]
  by (intro head_end_found) (simp_all add: first_line_letters clean_request_def)

lemma request_read:
  assumes "serves env f s (request_text meth (path @ [63] @ query_text ps) (request_headers a body user) body @ tail)"
    and "clean_request meth path a user" and "util_url_decode path = Some endpoint"
    and "length (query_text ps) < 2 ^ 64" and "length body < 2 ^ 63"
    and "length (st_base site) < 16 \<or> map_of (rev ps) (cstr ''e'') = None"
  shows "\<exists>e s1. read_request env lib A stk site peer f environment s = Some (Some (find_page site meth endpoint, e), s1) \<and>
    he_method e = meth"
proof -
  let ?head = "head_text (first_line meth (path @ [63] @ query_text ps)) (request_headers a body user)"
  have bytes: "request_text meth (path @ [63] @ query_text ps) (request_headers a body user) body @ tail =
      ?head @ [13, 10, 13, 10] @ (body @ tail)"
    unfolding request_text_head by simp
  obtain s1 where s1: "read_up_to env f [13, 10, 13, 10] s = ((False, ?head), s1)" "serves env f s1 (body @ tail)"
    using serves_until [OF assms(1) [unfolded bytes] request_head_end [OF assms(2)]] by blast
  obtain s2 where "if body = [] then s2 = s1 else read_n env f (length body) s1 = ((False, body), s2)"
    using serves_read [OF s1(2) refl] by (metis (no_types))
  then show ?thesis using request_parsed [OF s1(1) _ assms(2-6)] by blast
qed

text \<open>
  C17. The request the client writes reaches a page of the server as it was meant: method, endpoint,
  parameters, headers and body; and the server is at the beginning of the next request.  The reads of
  the server are answered by the modelled plain descriptor, from the chunks that arrive: the head of the
  request with its blank line lies in one piece (in what the descriptor holds already, or else in the
  next chunk), which is below 2 GiB; the body may come in any pieces.  A head whose blank line comes in
  three pieces can be missed (\<open>split_delimiter_missed\<close>).
\<close>

theorem request_arrives:
  assumes "connected sys env server_tables f C s" and "able_to_read C"
    and "to_come C = request_text meth (path @ [63] @ query_text ps) (request_headers a body user) body @ tail"
    and "prefix (request_text meth (path @ [63] @ query_text ps) (request_headers a body user) []) (next_piece C)"
    and "length (next_piece C) < 2 ^ 31"
    and "clean_request meth path a user" and "util_url_decode path = Some endpoint"
    and "length (query_text ps) < 2 ^ 64" and "length body < 2 ^ 63"
    and "length (st_base site) < 16 \<or> map_of (rev ps) (cstr ''e'') = None"
  shows "\<exists>e s1 C1. read_request env lib A stk site peer f environment s = Some (Some (find_page site meth endpoint, e), s1) \<and>
    he_method e = meth \<and> he_endpoint e = endpoint \<and> he_query e = map_of (rev ps) \<and> he_body e = body \<and>
    he_headers e = (map_of user)(cstr ''content-length'' \<mapsto> decimal (int (length body)), cstr ''host'' \<mapsto> ad_host a) \<and>
    he_peer e = peer \<and> he_fd e = Some f \<and> connected sys env server_tables f C1 s1 \<and> able_to_read C1 \<and> to_come C1 = tail"
proof -
  let ?head = "head_text (first_line meth (path @ [63] @ query_text ps)) (request_headers a body user)"
  obtain rest where piece: "next_piece C = ?head @ [13, 10, 13, 10] @ rest"
    using assms(4) unfolding request_text_head prefix_def by auto
  have found: "view_search [13, 10, 13, 10] (next_piece C) = Some (length ?head)"
    unfolding piece by (rule request_head_end [OF assms(6)])
  obtain s1 C1 where one: "read_up_to env f [13, 10, 13, 10] s = ((False, take (length ?head) (next_piece C)), s1)"
      "connected sys env server_tables f C1 s1" "able_to_read C1" "to_come C1 = drop (length ?head + length [13 :: byte, 10, 13, 10]) (to_come C)"
    using connected_delimiter [OF assms(1,2) tables_fit_server _ _ found assms(5)] by auto
  have head: "read_up_to env f [13, 10, 13, 10] s = ((False, ?head), s1)" using one(1) unfolding piece by simp
  have rest: "to_come C1 = body @ tail" using one(4) unfolding assms(3) request_text_head by simp
  obtain s2 C2 where two: "if body = [] then s2 = s1 else read_n env f (length body) s1 = ((False, body), s2)"
      "connected sys env server_tables f C2 s2" "able_to_read C2" "to_come C2 = tail"
  proof (cases "body = []")
    case True
    then show ?thesis using that [of s1 C1] one rest by simp
  next
    case False
    then show ?thesis using that connected_bytes [OF one(2,3) rest False] by auto
  qed
  then show ?thesis using request_parsed [OF head two(1) assms(6-10), of lib A stk peer] by blast
qed


definition example_request :: "byte list \<Rightarrow> byte list" where
  "example_request body = request_text (cstr ''POST'') (cstr ''/a'' @ [63] @ query_text [([107], [118])])
     (request_headers \<lparr>ad_ssl = False, ad_auth = None, ad_host = [104], ad_script = []\<rparr> [1, 2] []) body"

lemma example_request_facts:
  "example_request body = example_request [] @ body" "example_request [] \<noteq> []" "length (example_request []) < 100"
proof -
  show "example_request body = example_request [] @ body" by (simp add: example_request_def request_text_head)
  show "example_request [] \<noteq> []" by (simp add: example_request_def request_text_head)
  have "length (query_text [([107], [118])]) \<le> 7"
    using url_text_length [of "[107]"] url_text_length [of "[118]"] by (simp add: query_pair_def)
  then show "length (example_request []) < 100"
    by (simp add: example_request_def request_text_head head_text_def first_line_def request_headers_def line_of_def cstr_def
        crlf_def colon_def decimal_def digits.simps)
qed

theorem request_arrives_witness:
  "\<exists>e s1 C1. read_request (descriptor_env server_tables 7
        ([], (fresh_afd 5 7 S80_FD_SOCKET, idle_server), [example_request [1], [2, 9]]))
      plain_lib (\<lambda>n. None) (\<lambda>i. 0) \<lparr>st_pages = Map.empty, st_default = (\<lambda>e s. None), st_base = []\<rparr> [50] 7 environment idle_server =
      Some (Some (find_page \<lparr>st_pages = Map.empty, st_default = (\<lambda>e s. None), st_base = []\<rparr> (cstr ''POST'') (cstr ''/a''), e), s1) \<and>
    he_method e = cstr ''POST'' \<and> he_endpoint e = cstr ''/a'' \<and> he_query e = map_of (rev [([107], [118])]) \<and> he_body e = [1, 2] \<and>
    he_headers e = (map_of [])(cstr ''content-length'' \<mapsto> decimal (int (length [1 :: byte, 2])),
      cstr ''host'' \<mapsto> ad_host \<lparr>ad_ssl = False, ad_auth = None, ad_host = [104], ad_script = []\<rparr>) \<and>
    he_peer e = [50] \<and> he_fd e = Some 7 \<and>
    connected (const_env 1) (descriptor_env server_tables 7 ([], (fresh_afd 5 7 S80_FD_SOCKET, idle_server), [example_request [1], [2, 9]]))
      server_tables 7 C1 s1 \<and> able_to_read C1 \<and> to_come C1 = [9]"
proof (rule request_arrives)
  let ?C = "([], (fresh_afd 5 7 S80_FD_SOCKET, idle_server), [example_request [1], [2, 9]]) :: connection"
  have ex: "example_request [1] = example_request [] @ [1]" "example_request [1, 2] = example_request [] @ [1, 2]"
    by (rule example_request_facts)+
  show "connected (const_env 1) (descriptor_env server_tables 7 ?C) server_tables 7 ?C idle_server"
    by (rule descriptor_env_connected) (simp add: idle_server_def)
  show "able_to_read ?C" by (rule fresh_connection)
  have "to_come ?C = example_request [1, 2] @ [9]" unfolding fresh_connection(2) ex by simp
  then show "to_come ?C = request_text (cstr ''POST'') (cstr ''/a'' @ [63] @ query_text [([107], [118])])
      (request_headers \<lparr>ad_ssl = False, ad_auth = None, ad_host = [104], ad_script = []\<rparr> [1, 2] []) [1, 2] @ [9]"
    unfolding example_request_def .
  have piece: "next_piece ?C = example_request [] @ [1]" unfolding fresh_connection(3) ex(1) by simp
  show "prefix (request_text (cstr ''POST'') (cstr ''/a'' @ [63] @ query_text [([107], [118])])
      (request_headers \<lparr>ad_ssl = False, ad_auth = None, ad_host = [104], ad_script = []\<rparr> [1, 2] []) []) (next_piece ?C)"
    unfolding piece unfolding example_request_def [symmetric] by simp
  show "length (next_piece ?C) < 2 ^ 31" unfolding piece using example_request_facts(3) by simp
  have "length (query_text [([107], [118])]) \<le> 7"
    using url_text_length [of "[107]"] url_text_length [of "[118]"] by (simp add: query_pair_def)
  then show "length (query_text [([107], [118])]) < 2 ^ 64" by (rule le_less_trans) simp
  have "view_ok (cstr ''/a'')" by (simp add: view_ok_def cstr_def)
  from util_url_decode_ok [OF this] show "util_url_decode (cstr ''/a'') = Some (cstr ''/a'')"
    by (simp add: cstr_def unplus_def)
qed (auto simp: clean_request_def cstr_def dict_ok_def small_names_def)

section \<open>Responses\<close>

definition reply_line :: "nat \<Rightarrow> byte list \<Rightarrow> byte list" where
  "reply_line code reason = cstr ''HTTP/1.1 '' @ decimal (int code) @ 32 # reason"

lemma reply_line_letters: "c \<notin> set reason \<Longrightarrow> c = 13 \<or> c = 58 \<Longrightarrow> c \<notin> set (reply_line code reason)"
  by (auto simp: reply_line_def cstr_def c_isdigit_def dest: decimal_letters)

lemma reply_head_text:
  assumes "13 \<notin> set reason" "58 \<notin> set reason" and "list_all clean_header hs" "small_names hs" "dict_ok hs" "hs \<noteq> []"
    and "code < 2 ^ 31"
  shows "reply_head (head_text (reply_line code reason) hs) =
    Some (Inr \<lparr>hr_status = int code, hr_status_line = reply_line code reason, hr_headers = map_of hs, hr_body = []\<rparr>)"
proof -
  let ?line = "reply_line code reason"
  have crlf: "view_search crlf (head_text ?line hs) = Some (length ?line)"
    using assms(1,6) by (intro first_crlf) (simp_all add: reply_line_letters)
  have sp: "?line = cstr ''HTTP/1.1'' @ 32 # (decimal (int code) @ 32 # reason)" by (simp add: reply_line_def cstr_def)
  have len: "length (cstr ''HTTP/1.1'') = 8" by (simp add: cstr_def)
  have "32 \<notin> set (cstr ''HTTP/1.1'')" by (simp add: cstr_def)
  then have pivot: "view_find 32 ?line = Some 8" unfolding sp using len by (simp add: view_find_simps)
  have "parse_headers (head_text ?line hs) 8 Map.empty = Some (fold (\<lambda>h. write_header (fst h) (snd h)) hs Map.empty)"
  proof (rule parse_headers_text)
    show "8 + 2 \<le> length ?line" unfolding sp by (simp add: len)
    show "13 \<notin> set ?line" "58 \<notin> set ?line" using assms(1,2) by (simp_all add: reply_line_letters)
  qed (rule assms(3))
  then have hdrs: "parse_headers (head_text ?line hs) 8 Map.empty = Some (map_of hs)"
    using headers_read [OF assms(4) dict_ok_distinct [OF assms(5)]] by simp
  have "drop 9 (head_text ?line hs) = decimal (int code) @ (32 # reason @ drop (length ?line) (head_text ?line hs))"
    by (simp add: head_text_def reply_line_def cstr_def)
  moreover have "code < 2 ^ 63" using assms(7) by simp
  ultimately have "c_atoll (drop 9 (head_text ?line hs)) = int code"
    using c_atoll_decimal [of code "32 # reason @ drop (length ?line) (head_text ?line hs)"] by (simp add: c_isdigit_def)
  moreover have "sint (word_of_int (int code) :: 32 word) = int code"
    using assms(7) sint_word_of_int [of "int code"] by (simp add: c_int_def)
  ultimately show ?thesis
    unfolding reply_head_def crlf option.case take_start pivot hdrs by simp
qed

lemma read_sized_bytes:
  assumes "length body < 2 ^ 64" and "if body = [] then s1 = s else read_n env f (length body) s = ((False, body), s1)"
  shows "read_sized env f (decimal (int (length body))) s = (Inr body, s1)"
  using assms from_chars_decimal [OF assms(1)] by (cases "body = []") (simp_all add: read_sized_def)

text \<open>
  C18. The response the server writes for an environment is what the client returns: the status, the headers
  and all of the rendered text; and the client is at the beginning of the next response.  The reads of
  the client are answered by the modelled plain descriptor: the head of the response with its blank line
  lies in one piece (in what the descriptor holds already, or else in the next chunk), which is below
  2 GiB; the rendered text may come in any pieces.
\<close>

theorem response_arrives:
  assumes "http_response True e = Some (bytes, e1)"
    and "connected sys env Map.empty f C s" and "able_to_read C" and "to_come C = bytes @ tail"
    and "prefix (take (length bytes - length rendered) bytes) (next_piece C)" and "length (next_piece C) < 2 ^ 31"
    and "he_redirects e = False" and "finalize 0 (he_output e) = Some (rendered, out)" and "length rendered < 2 ^ 64"
    and "he_status e = decimal (int code) @ 32 # reason" and "13 \<notin> set reason" "58 \<notin> set reason" "code < 2 ^ 31"
    and "dict_ok (he_out_headers e)" "small_names (he_out_headers e)" "list_all clean_header (he_out_headers e)"
    and "map_of (he_out_headers e) (cstr ''transfer-encoding'') = None"
  shows "\<exists>head s1 s2 C2. read_up_to env f [13, 10, 13, 10] s = ((False, head), s1) \<and>
    read_reply env f head s1 =
      Some (Inr \<lparr>hr_status = int code, hr_status_line = cstr ''HTTP/1.1 '' @ he_status e,
        hr_headers = (map_of (he_out_headers e))(cstr ''content-length'' \<mapsto> decimal (int (length rendered))),
        hr_body = rendered\<rparr>, s2) \<and>
    connected sys env Map.empty f C2 s2 \<and> able_to_read C2 \<and> to_come C2 = tail"
proof -
  let ?hs = "dict_put (cstr ''content-length'') (decimal (int (length rendered))) (he_out_headers e)"
  let ?line = "reply_line code reason"
  let ?head = "head_text ?line ?hs"
  have line: "?line = cstr ''HTTP/1.1 '' @ he_status e" unfolding reply_line_def assms(10) ..
  have ne: "?hs \<noteq> []" by (cases "he_out_headers e") auto
  have "clean_header (cstr ''content-length'', decimal (int (length rendered)))"
    by (auto simp: clean_header_def cstr_def c_isdigit_def dest: decimal_letters)
  then have clean: "list_all clean_header ?hs" using assms(16) by (intro dict_put_all)
  have small: "small_names ?hs" using assms(15) unfolding small_names_def by (intro dict_put_all) simp_all
  have bytes: "bytes = ?head @ [13, 10, 13, 10] @ rendered"
    using assms(1,7,8) header_lines [of ?hs ?line] unfolding line by (simp add: http_response_def Let_def crlf_def)
  have "take (length bytes - length rendered) bytes = ?head @ [13, 10, 13, 10]" unfolding bytes by simp
  then obtain rest where piece: "next_piece C = ?head @ [13, 10, 13, 10] @ rest"
    using assms(5) by (auto simp: prefix_def)
  have found: "view_search [13, 10, 13, 10] (next_piece C) = Some (length ?head)"
    unfolding piece using assms(11) clean by (intro head_end_found) (simp_all add: reply_line_letters)
  obtain s1 C1 where one: "read_up_to env f [13, 10, 13, 10] s = ((False, take (length ?head) (next_piece C)), s1)"
      "connected sys env Map.empty f C1 s1" "able_to_read C1" "to_come C1 = drop (length ?head + length [13 :: byte, 10, 13, 10]) (to_come C)"
    using connected_delimiter [OF assms(2,3) tables_fit_empty _ _ found assms(6)] by auto
  have head: "read_up_to env f [13, 10, 13, 10] s = ((False, ?head), s1)" using one(1) unfolding piece by simp
  have rest: "to_come C1 = rendered @ tail" using one(4) unfolding assms(4) bytes by simp
  obtain s2 C2 where two: "if rendered = [] then s2 = s1 else read_n env f (length rendered) s1 = ((False, rendered), s2)"
      "connected sys env Map.empty f C2 s2" "able_to_read C2" "to_come C2 = tail"
  proof (cases "rendered = []")
    case True
    then show ?thesis using that [of s1 C1] one rest by simp
  next
    case False
    then show ?thesis using that connected_bytes [OF one(2,3) rest False] by auto
  qed
  let ?s3 = "snd (os_call env ''unlock'' [LInt f] s2)"
  have "connected sys env Map.empty f C2 ?s3"
    by (rule connected_after_other [OF two(2), where x = "AOther ''unlock'' [LInt f]"]) (simp_all add: read_call_def may_end_def)
  moreover have "read_reply env f ?head s1 =
      Some (Inr \<lparr>hr_status = int code, hr_status_line = ?line, hr_headers = map_of ?hs, hr_body = rendered\<rparr>, ?s3)"
    using reply_head_text [OF assms(11,12) clean small dict_put_ok [OF assms(14)] ne assms(13)]
      read_sized_bytes [OF assms(9) two(1)] assms(17)
    by (simp add: read_reply_def reply_body_def map_of_dict_put)
  ultimately show ?thesis using head two(3,4) unfolding line map_of_dict_put by blast
qed

definition example_reply :: "byte list" where
  "example_reply = cstr ''HTTP/1.1 200 OK'' @ crlf @ header_line (cstr ''content-length'', decimal 1) @ crlf"

theorem response_arrives_witness:
  "\<exists>head s1 s2 C2. read_up_to (descriptor_env Map.empty 7 ([], (fresh_afd 5 7 S80_FD_SOCKET, idle_server), [example_reply, [88, 9]])) 7
      [13, 10, 13, 10] idle_server = ((False, head), s1) \<and>
    read_reply (descriptor_env Map.empty 7 ([], (fresh_afd 5 7 S80_FD_SOCKET, idle_server), [example_reply, [88, 9]])) 7 head s1 =
      Some (Inr \<lparr>hr_status = int 200, hr_status_line = cstr ''HTTP/1.1 '' @ he_status (env_write [88] environment),
        hr_headers = (map_of (he_out_headers (env_write [88] environment)))(cstr ''content-length'' \<mapsto> decimal (int (length [88 :: byte]))),
        hr_body = [88]\<rparr>, s2) \<and>
    connected (const_env 1) (descriptor_env Map.empty 7 ([], (fresh_afd 5 7 S80_FD_SOCKET, idle_server), [example_reply, [88, 9]]))
      Map.empty 7 C2 s2 \<and> able_to_read C2 \<and> to_come C2 = [9]"
proof (rule response_arrives)
  let ?C = "([], (fresh_afd 5 7 S80_FD_SOCKET, idle_server), [example_reply, [88, 9]]) :: connection"
  have ne: "example_reply \<noteq> []" by (simp add: example_reply_def cstr_def)
  show "connected (const_env 1) (descriptor_env Map.empty 7 ?C) Map.empty 7 ?C idle_server"
    by (rule descriptor_env_connected) (simp add: idle_server_def)
  show "able_to_read ?C" by (rule fresh_connection)
  show "to_come ?C = (example_reply @ [88]) @ [9]" by (simp add: fresh_connection)
  show "prefix (take (length (example_reply @ [88]) - length [88 :: byte]) (example_reply @ [88])) (next_piece ?C)"
    using ne by (simp add: fresh_connection)
  show "length (next_piece ?C) < 2 ^ 31"
    by (simp add: fresh_connection example_reply_def cstr_def crlf_def header_line_def colon_def decimal_def digits.simps)
  have fin: "finalize 0 (he_output (env_write [88] environment)) = Some ([88], [render_context])"
    by (simp add: env_write_def environment_def render_write_def ctx_write_def render_context_def finalize_def emptied_def
        finalize_BText finalize_Nil)
  then show "finalize 0 (he_output (env_write [88] environment)) = Some ([88], [render_context])" .
  show "http_response True (env_write [88] environment) =
      Some (example_reply @ [88],
        (env_write [88] environment)\<lparr>he_output := [render_context],
          he_out_headers := [(cstr ''content-length'', decimal 1)], he_estimate := 0 + 9 + 6 + 4 + 1\<rparr>)"
    using fin by (simp add: http_response_def env_write_def environment_def cstr_def example_reply_def)
  show "he_status (env_write [88] environment) = decimal (int 200) @ 32 # cstr ''OK''"
    by (simp add: env_write_def environment_def cstr_def decimal_def digits.simps)
qed (auto simp: env_write_def environment_def cstr_def dict_ok_def small_names_def)

end
