(* ===== verification/Web_Faults.thy ===== *)
theory Web_Faults
  imports Web_Exchange
begin

text \<open>
  Ways of the server and the client that are easily overlooked: requests without headers, pages found
  by an endpoint that contains a method, and the lock of the client's connection.
\<close>

section \<open>Requests that are dropped and pages that are found\<close>

text \<open>
  A request without any header is dropped and its connection with it: the delimiter is not part of what
  was read, so the first line has no end.
\<close>

theorem headerless_dropped:
  assumes "serves env f s (first_line meth script @ [13, 10, 13, 10] @ tail)" and "13 \<notin> set meth" "13 \<notin> set script"
  shows "\<exists>s1. read_request env lib A stk site peer f environment s = Some (None, s1)"
proof -
  let ?line = "first_line meth script"
  have no: "13 \<notin> set ?line" using assms(2,3) by (simp add: first_line_letters)
  then have "view_search [13, 10, 13, 10] (?line @ [13, 10, 13, 10] @ tail) = Some (length ?line)"
    using view_search_fresh [of 13 ?line "[10, 13, 10]" tail] by simp
  then obtain s1 where "read_up_to env f [13, 10, 13, 10] s = ((False, ?line), s1)"
    using serves_until [OF assms(1)] by blast
  moreover have "view_search crlf ?line = None" using view_search_absent [OF no, of "[10]"] by (simp add: crlf_def)
  ultimately show ?thesis by (simp add: read_request_def request_line_def)
qed

theorem headerless_dropped_witness:
  "\<exists>s1. read_request (feed_env 7 (first_line (cstr ''GET'') (cstr ''/'') @ [13, 10, 13, 10] @ [])) plain_lib (\<lambda>n. None) (\<lambda>i. 0)
     \<lparr>st_pages = Map.empty, st_default = (\<lambda>e s. None), st_base = []\<rparr> [50] 7 environment idle_server = Some (None, s1)"
  by (rule headerless_dropped [where meth = "cstr ''GET''" and script = "cstr ''/''" and tail = "[]"])
    (simp_all add: feed_env_serves idle_server_def cstr_def)

text \<open>
  The page of one method is reached with every other method, by a script that contains the method and
  an encoded space: the table is searched for the decoded endpoint first.
\<close>

theorem method_bypassed:
  assumes "serves env f s (request_text meth (url_text (only @ [32] @ endpoint) @ [63] @ query_text []) (request_headers a body user) body @ tail)"
    and "clean_request meth [] a user" and "length (url_text (only @ [32] @ endpoint)) < 2 ^ 64" and "length body < 2 ^ 63"
    and "st_pages site (only @ [32] @ endpoint) = Some page"
  shows "\<exists>e s1. read_request env lib A stk site peer f environment s = Some (Some (page, e), s1) \<and> he_method e = meth"
proof -
  let ?path = "url_text (only @ [32] @ endpoint)"
  have "13 \<notin> set ?path" "32 \<notin> set ?path" "58 \<notin> set ?path" "63 \<notin> set ?path"
    using url_text_letters [of 13 "only @ [32] @ endpoint"] url_text_letters [of 32 "only @ [32] @ endpoint"]
      url_text_letters [of 58 "only @ [32] @ endpoint"] url_text_letters [of 63 "only @ [32] @ endpoint"]
    by (auto simp: url_plain_def c_isalnum_def)
  then have clean: "clean_request meth ?path a user" using assms(2) by (simp add: clean_request_def)
  have "find_page site meth (only @ [32] @ endpoint) = page" using assms(5) by (simp add: find_page_def)
  then show ?thesis
    using request_read [OF assms(1) clean util_url_decode_text [OF assms(3)] _ assms(4), of site lib A stk peer] by auto
qed

theorem method_bypassed_witness:
  "\<exists>e s1. read_request (feed_env 7 (request_text (cstr ''GET'') (url_text (cstr ''POST'' @ [32] @ cstr ''/x'') @ [63] @ query_text [])
      (request_headers \<lparr>ad_ssl = False, ad_auth = None, ad_host = [104], ad_script = []\<rparr> [] []) [] @ []))
      plain_lib (\<lambda>n. None) (\<lambda>i. 0)
      \<lparr>st_pages = [cstr ''POST'' @ [32] @ cstr ''/x'' \<mapsto> (\<lambda>e s. Some (PageDone, e, s))], st_default = (\<lambda>e s. None), st_base = []\<rparr>
      [50] 7 environment idle_server = Some (Some (\<lambda>e s. Some (PageDone, e, s), e), s1) \<and> he_method e = cstr ''GET''"
proof (rule method_bypassed [where user = "[]" and body = "[]" and tail = "[]" and endpoint = "cstr ''/x''" and only = "cstr ''POST''"
      and a = "\<lparr>ad_ssl = False, ad_auth = None, ad_host = [104], ad_script = []\<rparr>"])
  have "length (url_text (cstr ''POST'' @ [32] @ cstr ''/x'')) \<le> 3 * 7"
    using url_text_length [of "cstr ''POST'' @ [32] @ cstr ''/x''"] by (simp add: cstr_def)
  then show "length (url_text (cstr ''POST'' @ [32] @ cstr ''/x'')) < 2 ^ 64" by (rule le_less_trans) simp
qed (auto simp: feed_env_serves idle_server_def clean_request_def cstr_def dict_ok_def small_names_def)

text \<open>
  A page that throws before it waits for anything is not answered: whatever arrived and however it was
  chosen, nothing is written and the coroutine of the connection is never resumed.
\<close>

theorem throwing_page_unanswered:
  assumes "read_request env lib A stk site peer f environment s = Some (Some (page, e), s1)"
    and "page e s1 = Some (PageThrowsAtOnce what, e1, s2)"
  shows "accept_loop env lib A stk site peer f s = Some (AcceptWaits, s2)"
  using assms by (subst accept_loop.simps) (simp add: render_page_def)

theorem throwing_page_unanswered_witness:
  "\<exists>s2. accept_loop (feed_env 7 (request_text (cstr ''GET'') (cstr ''/'' @ [63] @ query_text [])
      (request_headers \<lparr>ad_ssl = False, ad_auth = None, ad_host = [104], ad_script = []\<rparr> [] []) [] @ []))
      plain_lib (\<lambda>n. None) (\<lambda>i. 0)
      \<lparr>st_pages = Map.empty, st_default = (\<lambda>e s. Some (PageThrowsAtOnce [], e, s)), st_base = []\<rparr> [50] 7 idle_server =
    Some (AcceptWaits, s2)"
proof -
  let ?site = "\<lparr>st_pages = Map.empty, st_default = (\<lambda>e s. Some (PageThrowsAtOnce [], e, s)), st_base = []\<rparr>"
  let ?env = "feed_env 7 (request_text (cstr ''GET'') (cstr ''/'' @ [63] @ query_text [])
      (request_headers \<lparr>ad_ssl = False, ad_auth = None, ad_host = [104], ad_script = []\<rparr> [] []) [] @ [])"
  have "view_ok (cstr ''/'')" by (simp add: view_ok_def cstr_def)
  from util_url_decode_ok [OF this] have "util_url_decode (cstr ''/'') = Some (cstr ''/'')"
    by (simp add: cstr_def unplus_def)
  then have "\<exists>e s1. read_request ?env plain_lib (\<lambda>n. None) (\<lambda>i. 0) ?site [50] 7 environment idle_server =
      Some (Some (find_page ?site (cstr ''GET'') (cstr ''/''), e), s1)"
    using request_read [of ?env 7 idle_server "cstr ''GET''" "cstr ''/''" "[]"
        "\<lparr>ad_ssl = False, ad_auth = None, ad_host = [104], ad_script = []\<rparr>" "[]" "[]" "[]" "cstr ''/''" ?site plain_lib "\<lambda>n. None" "\<lambda>i. 0" "[50]"]
    by (auto simp: feed_env_serves idle_server_def clean_request_def cstr_def dict_ok_def small_names_def)
  then obtain e s1 where read: "read_request ?env plain_lib (\<lambda>n. None) (\<lambda>i. 0) ?site [50] 7 environment idle_server =
      Some (Some (find_page ?site (cstr ''GET'') (cstr ''/''), e), s1)" by blast
  have "find_page ?site (cstr ''GET'') (cstr ''/'') e s1 = Some (PageThrowsAtOnce [], e, s1)" by (simp add: find_page_def)
  from throwing_page_unanswered [OF read this] show ?thesis by blast
qed

section \<open>The lock of the client's connection\<close>

text \<open>The state of a lock along a history: it may only be taken when free and given back when taken.\<close>

fun held_run :: "fd \<Rightarrow> bool \<Rightarrow> action list \<Rightarrow> bool option" where
  "held_run f b [] = Some b"
| "held_run f b (a # tr) =
     (if a = AOther ''lock'' [LInt f] then (if b then None else held_run f True tr)
      else if a = AOther ''unlock'' [LInt f] then (if b then held_run f False tr else None)
      else held_run f b tr)"

lemma held_run_append: "held_run f b (xs @ ys) = Option.bind (held_run f b xs) (\<lambda>c. held_run f c ys)"
  by (induction xs arbitrary: b) simp_all

definition quiet :: "server \<Rightarrow> server \<Rightarrow> bool" where
  "quiet s s' \<longleftrightarrow> (\<exists>tr. hist s' = hist s @ tr \<and> (\<forall>f b. held_run f b tr = Some b))"

lemma quiet_refl [intro]: "quiet s s"
  by (simp add: quiet_def)

lemma quiet_trans: "quiet s s1 \<Longrightarrow> quiet s1 s2 \<Longrightarrow> quiet s s2"
  unfolding quiet_def by (force simp: held_run_append)

lemma quiet_step: "name \<noteq> ''lock'' \<Longrightarrow> name \<noteq> ''unlock'' \<Longrightarrow> hist s' = hist s @ [AOther name args] \<Longrightarrow> quiet s s'"
  by (simp add: quiet_def)

lemma quiet_os_call [intro]: "name \<noteq> ''lock'' \<Longrightarrow> name \<noteq> ''unlock'' \<Longrightarrow> quiet s (snd (os_call env name args s))"
  by (rule quiet_step [where args = args]) simp_all

lemma silent_calls [intro]:
  "quiet s (snd (read_n env f n s))" "quiet s (snd (read_up_to env f d s))" "quiet s (snd (fd_write env f bs s))"
  by (simp_all add: read_n_def read_up_to_def fd_write_def Let_def quiet_os_call)

text \<open>What a stretch of history does to the locks, all of them free before.\<close>

definition holds :: "fd option \<Rightarrow> server \<Rightarrow> server \<Rightarrow> bool" where
  "holds h s s' \<longleftrightarrow> (\<exists>tr. hist s' = hist s @ tr \<and> (\<forall>g. held_run g False tr = Some (h = Some g)))"

lemma holds_start [intro]: "holds None s s"
  by (simp add: holds_def)

lemma holds_quiet: "holds h s s1 \<Longrightarrow> quiet s1 s2 \<Longrightarrow> holds h s s2"
  unfolding holds_def quiet_def by (force simp: held_run_append)

lemma holds_lock: "holds None s s1 \<Longrightarrow> holds (Some f) s (snd (os_call env ''lock'' [LInt f] s1))"
  unfolding holds_def by (force simp: held_run_append)

lemma holds_unlock: "holds (Some f) s s1 \<Longrightarrow> holds None s (snd (os_call env ''unlock'' [LInt f] s1))"
  unfolding holds_def by (force simp: held_run_append)

lemma holds_trans: "holds None s s1 \<Longrightarrow> holds h s1 s2 \<Longrightarrow> holds h s s2"
  unfolding holds_def by (force simp: held_run_append)

lemma attempt_holds:
  "holds (case fst (attempt env a record0 data s) of Inl _ \<Rightarrow> None | Inr _ \<Rightarrow> Some (fst (snd (attempt env a record0 data s))))
     s (snd (snd (attempt env a record0 data s)))"
proof -
  define c where "c = os_call env ''connect''
      [LStr (ad_host a @ [64] @ record0), LInt (port_of a), LBool (ad_ssl a),
       LStr (cstr ''http:'' @ ad_host a @ [58] @ decimal (port_of a))] s"
  define f where "f = val_at (fst c) 0"
  define s1 where "s1 = snd (os_call env ''lock'' [LInt f] (snd c))"
  define w where "w = fd_write env f data s1"
  define r where "r = read_up_to env f [13, 10, 13, 10] (snd w)"
  have at: "attempt env a record0 data s =
      (if a_ret (fst c) < 0 then
        (Inl (AtConnect (chars_of (a_bytes (fst c)))), f, snd (os_call env ''revoke_named_fd'' [LInt f] (snd c)))
       else if \<not> fst w then
        (Inl AtWrite, f, snd (os_call env ''unlock'' [LInt f] (snd (os_call env ''revoke_named_fd'' [LInt f] (snd w)))))
       else if fst (fst r) then
        (Inl AtHeader, f, snd (os_call env ''unlock'' [LInt f] (snd (os_call env ''revoke_named_fd'' [LInt f] (snd r)))))
       else (Inr (snd (fst r)), f, snd r))"
    unfolding attempt_def Let_def r_def w_def s1_def f_def c_def ..
  have c: "holds None s (snd c)" unfolding c_def by (intro holds_quiet [OF holds_start] quiet_os_call) simp_all
  have s1: "holds (Some f) s s1" unfolding s1_def by (rule holds_lock [OF c])
  have w: "holds (Some f) s (snd w)" unfolding w_def by (rule holds_quiet [OF s1 silent_calls(3)])
  have r: "holds (Some f) s (snd r)" unfolding r_def by (rule holds_quiet [OF w silent_calls(2)])
  have revoke: "quiet s2 (snd (os_call env ''revoke_named_fd'' [LInt f] s2))" for s2 by (intro quiet_os_call) simp_all
  show ?thesis
    unfolding at
    using holds_quiet [OF c revoke] holds_unlock [OF holds_quiet [OF w revoke]] holds_unlock [OF holds_quiet [OF r revoke]] r
    by simp
qed

lemma attempts_holds:
  "attempts env a record0 data s = (r, f, s') \<Longrightarrow> holds (case r of Inl _ \<Rightarrow> None | Inr _ \<Rightarrow> Some f) s s'"
proof -
  assume run: "attempts env a record0 data s = (r, f, s')"
  obtain r1 f1 s1 where one: "attempt env a record0 data s = (r1, f1, s1)" by (cases "attempt env a record0 data s") auto
  show ?thesis
  proof (cases r1)
    case (Inr head)
    then show ?thesis using run one attempt_holds [of env a record0 data s] by (auto simp: attempts_def)
  next
    case (Inl st)
    let ?s2 = "snd (os_call env ''sleep'' [LInt 5] s1)"
    have "holds None s s1" using one Inl attempt_holds [of env a record0 data s] by simp
    then have s2: "holds None s ?s2" by (rule holds_quiet) (intro quiet_os_call; simp)
    obtain r2 f2 s3 where two: "attempt env a record0 data ?s2 = (r2, f2, s3)" by (cases "attempt env a record0 data ?s2") auto
    have "holds (case r2 of Inl _ \<Rightarrow> None | Inr _ \<Rightarrow> Some f2) s s3"
      using holds_trans [OF s2 attempt_holds [of env a record0 data ?s2, unfolded two fst_conv snd_conv]] .
    then show ?thesis using run one two Inl by (cases r2) (auto simp: attempts_def)
  qed
qed

lemma read_chunks_quiet:
  assumes "read_chunks env f body s = Some r"
  shows "quiet s (snd r)"
proof (rule read_chunks.raw_induct [OF _ assms])
  fix rec :: "env \<Rightarrow> fd \<Rightarrow> byte list \<Rightarrow> server \<Rightarrow> ((string + byte list) \<times> server) option"
    and env f body s and r :: "(string + byte list) \<times> server"
  let ?u = "read_up_to env f crlf s"
  assume IH: "\<And>env f body s r. rec env f body s = Some r \<Longrightarrow> quiet s (snd r)"
    and run: "(let r = read_up_to env f crlf s in
      if fst (fst r) then Some (Inl (PROTOCOL_ERROR @ ''|chunk_read_length''), snd r)
      else
        (case (if snd (fst r) = [] then Some 0 else from_chars 16 (snd (fst r))) of
           None \<Rightarrow> Some (Inl (PROTOCOL_ERROR @ ''|invalid_chunk_length''), snd r)
         | Some n \<Rightarrow>
             if n = 0 then
               (let e = read_n env f 2 (snd r) in
                if fst (fst e) then Some (Inl (PROTOCOL_ERROR @ ''|chunked_eof''), snd e)
                else if snd (fst e) \<noteq> crlf then Some (Inl (PROTOCOL_ERROR @ ''|corrupted_eof''), snd e)
                else Some (Inr body, snd e))
             else
               (let c = read_n env f (sz (n + 2)) (snd r) in
                if fst (fst c) then Some (Inl (PROTOCOL_ERROR @ ''|chunk_read''), snd c)
                else rec env f (body @ take n (snd (fst c))) (snd c)))) = Some r"
  have up: "quiet s (snd ?u)" by blast
  have after: "quiet s (snd (read_n env f n (snd ?u)))" for n by (rule quiet_trans [OF up]) blast
  show "quiet s (snd r)"
    using run up after by (auto simp: Let_def split: if_splits option.splits intro: quiet_trans [OF after] dest!: IH)
qed

lemma reply_body_quiet: "reply_body env f resp s = Some r \<Longrightarrow> quiet s (snd r)"
  by (auto simp: reply_body_def read_sized_def Let_def split: if_splits option.splits dest: read_chunks_quiet)

lemma read_reply_unlocks:
  assumes "read_reply env f data s = Some (r, s')" and "holds (Some f) s0 s"
  shows "holds None s0 s'"
proof (cases "reply_head data")
  case None
  then show ?thesis using assms(1) by (simp add: read_reply_def)
next
  case (Some h)
  then show ?thesis
  proof (cases h)
    case (Inl msg)
    then show ?thesis using assms Some holds_unlock by (auto simp: read_reply_def)
  next
    case (Inr resp)
    then obtain b where b: "reply_body env f resp s = Some b" "s' = snd (os_call env ''unlock'' [LInt f] (snd b))"
      using assms(1) Some by (auto simp: read_reply_def bind_eq_Some_conv)
    show ?thesis unfolding b(2) by (rule holds_unlock [OF holds_quiet [OF assms(2) reply_body_quiet [OF b(1)]]])
  qed
qed

text \<open>
  C20. Whatever the resolver, the system and the other side do: when a request returns, every connection it
  locked is unlocked, none was locked twice and none was unlocked that was not locked.
\<close>

theorem request_unlocks:
  assumes "http_request env lib A stk meth url user body s = Some (r, s')"
  shows "\<exists>tr. hist s' = hist s @ tr \<and> (\<forall>g. held_run g False tr = Some False)"
proof -
  have "holds None s s'"
  proof (cases "parse_address url")
    case (Inl msg)
    then show ?thesis using assms by (auto simp: http_request_def)
  next
    case (Inr a)
    let ?d = "os_call env ''dns_query'' [LStr (ad_host a)] s"
    have d: "holds None s (snd ?d)" by (rule holds_quiet [OF holds_start]) (intro quiet_os_call; simp)
    obtain hs where hs: "auth_headers lib A stk a user = Some hs"
      using assms Inr by (auto simp: http_request_def bind_eq_Some_conv)
    obtain r1 f s1 where at: "attempts env a (a_bytes (fst ?d)) (request_text meth (ad_script a) (request_headers a body hs) body) (snd ?d) = (r1, f, s1)"
      by (cases "attempts env a (a_bytes (fst ?d)) (request_text meth (ad_script a) (request_headers a body hs) body) (snd ?d)") auto
    note h = holds_trans [OF d attempts_holds [OF at]]
    show ?thesis
      using assms Inr hs at d h by (auto simp: http_request_def Let_def split: if_splits sum.splits intro: read_reply_unlocks)
  qed
  then show ?thesis by (simp add: holds_def)
qed

theorem request_unlocks_witness:
  "\<exists>r s' tr. http_request (const_env 1) plain_lib (\<lambda>n. None) (\<lambda>i. 0) (cstr ''GET'') (cstr ''http://h/x'') [] [] idle_server = Some (r, s') \<and>
     hist s' = hist idle_server @ tr \<and> (\<forall>g. held_run g False tr = Some False)"
proof -
  obtain a where a: "parse_address (cstr ''http://h/x'') = Inr a" "ad_auth a = None"
    by (simp add: parse_address_def cstr_def view_find_def)
  have call: "a_ret (fst (os_call (const_env 1) name args s)) = 1" "a_bytes (fst (os_call (const_env 1) name args s)) = []" for name args s
    by (simp_all add: os_call_result)
  have "\<exists>f s1. attempts (const_env 1) a [] data s = (Inr [], f, s1)" for data s
    by (simp add: attempts_def attempt_def Let_def call fd_write_def read_up_to_def read_result_def)
  then obtain f s1 where "attempts (const_env 1) a [] (request_text (cstr ''GET'') (ad_script a) (request_headers a [] []) [])
      (snd (os_call (const_env 1) ''dns_query'' [LStr (ad_host a)] idle_server)) = (Inr [], f, s1)" by blast
  then obtain r s' where run: "http_request (const_env 1) plain_lib (\<lambda>n. None) (\<lambda>i. 0) (cstr ''GET'') (cstr ''http://h/x'') [] [] idle_server = Some (r, s')"
    using a by (simp add: http_request_def auth_headers_def Let_def call read_reply_def reply_head_def crlf_def)
  from request_unlocks [OF this] run show ?thesis by blast
qed

end
