(* ===== verification/Web_Cache.thy ===== *)
theory Web_Cache
  imports System "HOL-Library.Multiset" "HOL-Library.List_Lexorder"
begin

text \<open>
  The caches of \<^verbatim>\<open>src/90s/cache/cache.hpp\<close>.  A layer holds the values of one type by their keys, in the
  order of the keys; a value may expire.  The asynchronous cache also remembers the computations that
  run: \<open>races\<close> has, for a key, the list of the callers that wait for the one that computes.
\<close>

section \<open>A layer\<close>

record 'v expirable =
  ex_value :: 'v
  ex_never :: bool
  ex_expire :: int

type_synonym 'v cache_items = "(byte list \<times> 'v expirable) list"

definition cache_never :: nat where "cache_never = 2 ^ 64 - 1"

definition items_erase :: "byte list \<Rightarrow> 'v cache_items \<Rightarrow> 'v cache_items" where
  "items_erase key items = filter (\<lambda>p. fst p \<noteq> key) items"

text \<open>\<open>get\<close> and \<open>update\<close> look at the clock only for values that may expire.\<close>

definition layer_get :: "env \<Rightarrow> byte list \<Rightarrow> 'v cache_items \<Rightarrow> server \<Rightarrow> 'v option \<times> 'v cache_items \<times> server" where
  "layer_get env key items s =
     (case map_of items key of
        None \<Rightarrow> (None, items, s)
      | Some x \<Rightarrow>
          if ex_never x then (Some (ex_value x), items, s)
          else
            (let now = os_call env ''steady_clock'' [] s in
             if ex_expire x < a_ret (fst now) then (None, items_erase key items, snd now)
             else (Some (ex_value x), items, snd now)))"

fun layer_update :: "env \<Rightarrow> 'v cache_items \<Rightarrow> server \<Rightarrow> 'v cache_items \<times> server" where
  "layer_update env [] s = ([], s)"
| "layer_update env (p # items) s =
     (if ex_never (snd p) then (let r = layer_update env items s in (p # fst r, snd r))
      else
        (let now = os_call env ''steady_clock'' [] s; r = layer_update env items (snd now) in
         if ex_expire (snd p) < a_ret (fst now) then r else (p # fst r, snd r)))"

text \<open>\<open>emplace\<close> leaves a value that is already there.\<close>

fun layer_set :: "byte list \<Rightarrow> 'v expirable \<Rightarrow> 'v cache_items \<Rightarrow> 'v cache_items" where
  "layer_set key x [] = [(key, x)]"
| "layer_set key x (p # items) =
     (if key = fst p then p # items
      else if key < fst p then (key, x) # p # items
      else p # layer_set key x items)"

definition fresh_item :: "'v \<Rightarrow> nat \<Rightarrow> int \<Rightarrow> 'v expirable" where
  "fresh_item v expire now =
     \<lparr>ex_value = v, ex_never = (expire = cache_never),
      ex_expire = now + 1000000000 * (if expire = cache_never then - 1 else int expire)\<rparr>"

definition cache_call :: "env \<Rightarrow> byte list \<Rightarrow> nat \<Rightarrow> (server \<Rightarrow> ('v option \<times> server) option) \<Rightarrow> 'v cache_items \<Rightarrow> server \<Rightarrow>
    ('v option \<times> 'v cache_items \<times> server) option" where
  "cache_call env key expire factory items s =
     (case layer_get env key items s of
        (Some v, items1, s1) \<Rightarrow> Some (Some v, items1, s1)
      | (None, items1, s1) \<Rightarrow>
          Option.bind (factory s1) (\<lambda>(r, s2).
            case r of
              None \<Rightarrow> Some (None, items1, s2)
            | Some v \<Rightarrow>
                (let now = os_call env ''steady_clock'' [] s2 in
                 Some (Some v, layer_set key (fresh_item v expire (a_ret (fst now))) items1, snd now))))"

section \<open>The asynchronous cache\<close>

text \<open>
  Callers have numbers.  A computation that runs belongs to a caller, a key and a list of waiting
  callers; when it has ended, the waiting callers are resumed one after the other, and each of them may
  run and call again before the next one.
\<close>

record 'v async_cache =
  ac_items :: "'v cache_items"
  ac_races :: "byte list \<rightharpoonup> nat"
  ac_vecs :: "nat list list"
  ac_runs :: "(nat \<times> byte list \<times> nat \<times> nat) list"
  ac_ends :: "(nat \<times> byte list \<times> nat \<times> nat \<times> nat \<times> 'v option) list"
  ac_got :: "(nat \<times> 'v option) list"

datatype 'v cache_event =
    CCall nat "byte list" nat int
  | CDone nat "'v option" int
  | CResume nat
  | CThrow nat

definition async_cache :: "'v async_cache" where
  "async_cache = \<lparr>ac_items = [], ac_races = Map.empty, ac_vecs = [], ac_runs = [], ac_ends = [], ac_got = []\<rparr>"

text \<open>A call at a time by the clock.\<close>

definition item_at :: "byte list \<Rightarrow> int \<Rightarrow> 'v cache_items \<Rightarrow> 'v option" where
  "item_at key now items =
     (case map_of items key of
        None \<Rightarrow> None
      | Some x \<Rightarrow> if ex_never x \<or> now \<le> ex_expire x then Some (ex_value x) else None)"

definition async_call :: "nat \<Rightarrow> byte list \<Rightarrow> nat \<Rightarrow> int \<Rightarrow> 'v async_cache \<Rightarrow> 'v async_cache" where
  "async_call c key expire now st =
     (case item_at key now (ac_items st) of
        Some v \<Rightarrow> st\<lparr>ac_got := ac_got st @ [(c, Some v)]\<rparr>
      | None \<Rightarrow>
          (let st1 = st\<lparr>ac_items := items_erase key (ac_items st)\<rparr> in
           case ac_races st key of
             Some r \<Rightarrow> st1\<lparr>ac_vecs := (ac_vecs st)[r := ac_vecs st ! r @ [c]]\<rparr>
           | None \<Rightarrow>
               st1\<lparr>ac_races := (ac_races st)(key \<mapsto> length (ac_vecs st)), ac_vecs := ac_vecs st @ [[]],
                   ac_runs := ac_runs st @ [(c, key, length (ac_vecs st), expire)]\<rparr>))"

text \<open>The factory of a caller has returned.\<close>

definition async_done :: "nat \<Rightarrow> 'v option \<Rightarrow> int \<Rightarrow> 'v async_cache \<Rightarrow> 'v async_cache" where
  "async_done c result now st =
     (case find (\<lambda>p. fst p = c) (ac_runs st) of
        None \<Rightarrow> st
      | Some (c', key, r, expire) \<Rightarrow>
          st\<lparr>ac_runs := remove1 (c', key, r, expire) (ac_runs st), ac_races := (ac_races st)(key := None),
             ac_items :=
               (case result of
                  None \<Rightarrow> ac_items st
                | Some v \<Rightarrow> layer_set key (fresh_item v expire now) (ac_items st)),
             ac_ends := ac_ends st @ [(c', key, r, 0, expire, result)]\<rparr>)"

text \<open>The next waiting caller is resumed, or the caller itself returns.\<close>

definition async_resume :: "nat \<Rightarrow> 'v async_cache \<Rightarrow> 'v async_cache" where
  "async_resume c st =
     (case find (\<lambda>p. fst p = c) (ac_ends st) of
        None \<Rightarrow> st
      | Some (c', key, r, i, expire, result) \<Rightarrow>
          if i < length (ac_vecs st ! r) then
            st\<lparr>ac_got := ac_got st @ [(ac_vecs st ! r ! i, result)],
               ac_ends := map (\<lambda>p. if p = (c', key, r, i, expire, result) then (c', key, r, i + 1, expire, result) else p) (ac_ends st)\<rparr>
          else
            st\<lparr>ac_got := ac_got st @ [(c', result)], ac_ends := remove1 (c', key, r, i, expire, result) (ac_ends st),
               ac_items := (if expire = 0 then items_erase key (ac_items st) else ac_items st)\<rparr>)"

text \<open>
  The factory of a caller has thrown before it waited for anything: either the exception leaves the
  coroutine, or its promise stays without a result; nothing behind the call of it runs.  (After it has
  waited, an exception is the same as an empty result: \<open>CDone\<close> with \<open>None\<close>.)
\<close>

definition async_throw :: "nat \<Rightarrow> 'v async_cache \<Rightarrow> 'v async_cache" where
  "async_throw c st =
     (case find (\<lambda>p. fst p = c) (ac_runs st) of
        None \<Rightarrow> st
      | Some p \<Rightarrow> st\<lparr>ac_runs := remove1 p (ac_runs st)\<rparr>)"

definition async_step :: "'v cache_event \<Rightarrow> 'v async_cache \<Rightarrow> 'v async_cache" where
  "async_step ev st =
     (case ev of
        CCall c key expire now \<Rightarrow> async_call c key expire now st
      | CDone c result now \<Rightarrow> async_done c result now st
      | CResume c \<Rightarrow> async_resume c st
      | CThrow c \<Rightarrow> async_throw c st)"

definition async_run :: "'v cache_event list \<Rightarrow> 'v async_cache" where
  "async_run evs = fold async_step evs async_cache"

section \<open>One computation for a key, one answer for a caller\<close>

definition run_vec :: "nat \<times> byte list \<times> nat \<times> nat \<Rightarrow> nat" where "run_vec p = fst (snd (snd p))"

definition end_vec :: "nat \<times> byte list \<times> nat \<times> nat \<times> nat \<times> 'v option \<Rightarrow> nat" where "end_vec p = fst (snd (snd p))"

definition end_at :: "nat \<times> byte list \<times> nat \<times> nat \<times> nat \<times> 'v option \<Rightarrow> nat" where "end_at p = fst (snd (snd (snd p)))"

text \<open>The callers that still have to be answered.\<close>

definition owed :: "'v async_cache \<Rightarrow> nat multiset" where
  "owed st =
     sum_list (map (\<lambda>p. add_mset (fst p) (mset (ac_vecs st ! run_vec p))) (ac_runs st)) +
     sum_list (map (\<lambda>p. add_mset (fst p) (mset (drop (end_at p) (ac_vecs st ! end_vec p)))) (ac_ends st))"

definition vecs_in_use :: "'v async_cache \<Rightarrow> nat list" where
  "vecs_in_use st = map run_vec (ac_runs st) @ map end_vec (ac_ends st)"

definition cache_ok :: "'v async_cache \<Rightarrow> bool" where
  "cache_ok st \<longleftrightarrow>
     distinct (vecs_in_use st) \<and> list_all (\<lambda>r. r < length (ac_vecs st)) (vecs_in_use st) \<and>
     distinct (map (\<lambda>p. fst (snd p)) (ac_runs st)) \<and>
     ac_races st = map_of (map (\<lambda>p. (fst (snd p), run_vec p)) (ac_runs st))"

definition caller_of :: "'v cache_event \<Rightarrow> nat list" where
  "caller_of ev = (case ev of CCall c _ _ _ \<Rightarrow> [c] | _ \<Rightarrow> [])"

definition throws :: "'v cache_event \<Rightarrow> bool" where
  "throws ev = (case ev of CThrow _ \<Rightarrow> True | _ \<Rightarrow> False)"

lemma find_split: "find P xs = Some p \<Longrightarrow> \<exists>ys zs. xs = ys @ p # zs \<and> p \<notin> set ys"
  by (auto simp: find_Some_iff) (metis id_take_nth_drop in_set_conv_nth length_take min.absorb4 nth_take)

lemma owed_vecs_cong:
  assumes "\<And>r. r \<in> set (map run_vec (ac_runs st) @ map end_vec (ac_ends st)) \<Longrightarrow> v ! r = ac_vecs st ! r"
  shows "sum_list (map (\<lambda>p. add_mset (fst p) (mset (v ! run_vec p))) (ac_runs st)) =
      sum_list (map (\<lambda>p. add_mset (fst p) (mset (ac_vecs st ! run_vec p))) (ac_runs st))"
    and "sum_list (map (\<lambda>p. add_mset (fst p) (mset (drop (end_at p) (v ! end_vec p)))) (ac_ends st)) =
      sum_list (map (\<lambda>p. add_mset (fst p) (mset (drop (end_at p) (ac_vecs st ! end_vec p)))) (ac_ends st))"
  by (rule arg_cong [where f = sum_list], rule map_cong, rule refl, use assms in auto)+

lemma call_ok:
  assumes ok: "cache_ok st"
  shows "cache_ok (async_call c key expire now st) \<and>
    owed (async_call c key expire now st) + mset (map fst (ac_got (async_call c key expire now st))) =
      add_mset c (owed st + mset (map fst (ac_got st)))"
proof -
  note o = ok [unfolded cache_ok_def]
  consider v where "item_at key now (ac_items st) = Some v"
    | r where "item_at key now (ac_items st) = None" "ac_races st key = Some r"
    | "item_at key now (ac_items st) = None" "ac_races st key = None"
    by (cases "item_at key now (ac_items st)"; cases "ac_races st key") auto
  then show ?thesis
  proof cases
    case 1
    then show ?thesis using ok by (simp add: async_call_def cache_ok_def vecs_in_use_def owed_def)
  next
    case 2
    then obtain p where p: "p \<in> set (ac_runs st)" "fst (snd p) = key" "run_vec p = r"
      using o by (auto dest!: map_of_SomeD)
    then obtain ys zs where split: "ac_runs st = ys @ p # zs" by (auto dest: split_list)
    let ?v = "(ac_vecs st)[r := ac_vecs st ! r @ [c]]"
    have r: "r < length (ac_vecs st)" using o p by (auto simp: vecs_in_use_def list_all_iff)
    have dist: "r \<notin> set (map run_vec (ys @ zs) @ map end_vec (ac_ends st))" using o p(3) by (auto simp: vecs_in_use_def split)
    have others: "run_vec q \<noteq> r" if "q \<in> set (ys @ zs)" for q
      using dist imageI [OF that, of run_vec] by auto
    have ends: "end_vec q \<noteq> r" if "q \<in> set (ac_ends st)" for q
      using dist imageI [OF that, of end_vec] by auto
    have "owed (async_call c key expire now st) = add_mset c (owed st)"
    proof -
      have runs: "map (\<lambda>p. add_mset (fst p) (mset (?v ! run_vec p))) xs = map (\<lambda>p. add_mset (fst p) (mset (ac_vecs st ! run_vec p))) xs"
        if sub: "set xs \<subseteq> set (ys @ zs)" for xs
      proof (rule map_cong [OF refl])
        fix q assume "q \<in> set xs"
        then have "run_vec q \<noteq> r" using sub others by blast
        then show "add_mset (fst q) (mset (?v ! run_vec q)) = add_mset (fst q) (mset (ac_vecs st ! run_vec q))" by simp
      qed
      have ends: "map (\<lambda>p. add_mset (fst p) (mset (drop (end_at p) (?v ! end_vec p)))) (ac_ends st)
          = map (\<lambda>p. add_mset (fst p) (mset (drop (end_at p) (ac_vecs st ! end_vec p)))) (ac_ends st)"
      proof (rule map_cong [OF refl])
        fix q assume "q \<in> set (ac_ends st)"
        then have "end_vec q \<noteq> r" using ends by blast
        then show "add_mset (fst q) (mset (drop (end_at q) (?v ! end_vec q))) = add_mset (fst q) (mset (drop (end_at q) (ac_vecs st ! end_vec q)))"
          by simp
      qed
      have sums: "sum_list (map (\<lambda>p. add_mset (fst p) (mset (?v ! run_vec p))) ys) = sum_list (map (\<lambda>p. add_mset (fst p) (mset (ac_vecs st ! run_vec p))) ys)"
          "sum_list (map (\<lambda>p. add_mset (fst p) (mset (?v ! run_vec p))) zs) = sum_list (map (\<lambda>p. add_mset (fst p) (mset (ac_vecs st ! run_vec p))) zs)"
          "sum_list (map (\<lambda>p. add_mset (fst p) (mset (drop (end_at p) (?v ! end_vec p)))) (ac_ends st)) =
            sum_list (map (\<lambda>p. add_mset (fst p) (mset (drop (end_at p) (ac_vecs st ! end_vec p)))) (ac_ends st))"
        by (rule arg_cong [OF runs], simp, rule arg_cong [OF runs], simp, rule arg_cong [OF ends])
      show ?thesis using 2 p(3) r sums by (simp add: async_call_def Let_def owed_def split)
    qed
    then show ?thesis using 2 ok by (simp add: async_call_def Let_def cache_ok_def vecs_in_use_def)
  next
    case 3
    let ?v = "ac_vecs st @ [[]]"
    have low: "r < length (ac_vecs st)" if "r \<in> set (vecs_in_use st)" for r using o that by (auto simp: list_all_iff)
    have same: "?v ! r = ac_vecs st ! r" if "r \<in> set (map run_vec (ac_runs st) @ map end_vec (ac_ends st))" for r
      using low that by (simp add: vecs_in_use_def nth_append)
    have key: "key \<notin> (\<lambda>p. fst (snd p)) ` set (ac_runs st)"
      using 3(2) o by (auto simp: map_of_eq_None_iff image_image)
    have "owed (async_call c key expire now st) = add_mset c (owed st)"
      using 3 owed_vecs_cong [OF same] by (simp add: async_call_def Let_def owed_def run_vec_def)
    moreover have "cache_ok (async_call c key expire now st)"
    proof -
      let ?st = "async_call c key expire now st" and ?n = "length (ac_vecs st)"
      have st: "ac_runs ?st = ac_runs st @ [(c, key, ?n, expire)]" "ac_ends ?st = ac_ends st" "ac_vecs ?st = ?v"
          "ac_races ?st = (ac_races st)(key \<mapsto> ?n)"
        using 3 by (simp_all add: async_call_def Let_def)
      have vecs: "vecs_in_use ?st = map run_vec (ac_runs st) @ ?n # map end_vec (ac_ends st)"
        by (simp add: vecs_in_use_def st run_vec_def)
      have new: "?n \<notin> set (vecs_in_use st)" using low by blast
      have "distinct (vecs_in_use ?st)" using o new unfolding vecs by (auto simp: vecs_in_use_def)
      moreover have "list_all (\<lambda>r. r < length ?v) (vecs_in_use ?st)"
        using low unfolding vecs list_all_iff by (auto simp: vecs_in_use_def intro: less_SucI)
      moreover have "map_of (map (\<lambda>p. (fst (snd p), run_vec p)) (ac_runs st)) key = None" using 3(2) o by simp
      then have "(ac_races st)(key \<mapsto> ?n) = map_of (map (\<lambda>p. (fst (snd p), run_vec p)) (ac_runs st @ [(c, key, ?n, expire)]))"
        using o by (auto simp: fun_eq_iff map_add_def run_vec_def split: option.splits)
      ultimately show ?thesis using o key by (simp add: cache_ok_def st)
    qed
    ultimately show ?thesis using 3 by (simp add: async_call_def Let_def)
  qed
qed

lemma remove1_split: "p \<notin> set ys \<Longrightarrow> remove1 p (ys @ p # zs) = ys @ zs"
  by (simp add: remove1_append)

lemma done_ok:
  assumes ok: "cache_ok st"
  shows "cache_ok (async_done c result now st) \<and> owed (async_done c result now st) = owed st \<and>
    ac_got (async_done c result now st) = ac_got st"
proof (cases "find (\<lambda>p. fst p = c) (ac_runs st)")
  case None
  then show ?thesis using ok by (simp add: async_done_def)
next
  case (Some p)
  obtain c' key r x where p: "p = (c', key, r, x)" by (cases p)
  obtain ys zs where split: "ac_runs st = ys @ p # zs" "p \<notin> set ys" using find_split [OF Some] by blast
  note o = ok [unfolded cache_ok_def]
  let ?st = "async_done c result now st"
  have runs: "ac_runs ?st = ys @ zs" "ac_ends ?st = ac_ends st @ [(c', key, r, 0, x, result)]"
      "ac_vecs ?st = ac_vecs st" "ac_races ?st = (ac_races st)(key := None)" "ac_got ?st = ac_got st"
    using Some p remove1_split [OF split(2)] by (simp_all add: async_done_def split(1))
  have "key \<notin> (\<lambda>p. fst (snd p)) ` set (ys @ zs)" using o p by (auto simp: split(1))
  have "(ac_races st)(key := None) = map_of (map (\<lambda>p. (fst (snd p), run_vec p)) (ys @ zs))"
  proof (rule ext)
    fix a
    have none: "map_of (map (\<lambda>p. (fst (snd p), run_vec p)) ws) key = None" if "set ws \<subseteq> set (ys @ zs)" for ws
      using \<open>key \<notin> (\<lambda>p. fst (snd p)) ` set (ys @ zs)\<close> that by (auto simp: map_of_eq_None_iff image_image)
    show "((ac_races st)(key := None)) a = map_of (map (\<lambda>p. (fst (snd p), run_vec p)) (ys @ zs)) a"
      using o p none [of "ys @ zs"] by (cases "a = key") (auto simp: split(1) map_add_def split: option.splits)
  qed
  moreover have "distinct (vecs_in_use ?st)" "list_all (\<lambda>r. r < length (ac_vecs st)) (vecs_in_use ?st)"
    using o p by (auto simp: vecs_in_use_def runs split(1) run_vec_def end_vec_def)
  moreover have "distinct (map (\<lambda>p. fst (snd p)) (ys @ zs))" using o by (simp add: split(1))
  ultimately have "cache_ok ?st" by (simp add: cache_ok_def runs)
  moreover have "owed ?st = owed st" using p by (simp add: owed_def runs split(1) run_vec_def end_vec_def end_at_def)
  ultimately show ?thesis using runs by simp
qed

lemma cache_resume_ok:
  assumes ok: "cache_ok st"
  shows "cache_ok (async_resume c st) \<and>
    owed (async_resume c st) + mset (map fst (ac_got (async_resume c st))) = owed st + mset (map fst (ac_got st))"
proof (cases "find (\<lambda>p. fst p = c) (ac_ends st)")
  case None
  then show ?thesis using ok by (simp add: async_resume_def)
next
  case (Some p)
  obtain c' key r i x v where p: "p = (c', key, r, i, x, v)" by (cases p) auto
  obtain ys zs where split: "ac_ends st = ys @ p # zs" "p \<notin> set ys" using find_split [OF Some] by blast
  note o = ok [unfolded cache_ok_def]
  have "end_vec p \<notin> end_vec ` set zs" using o by (auto simp: vecs_in_use_def split(1))
  then have pz: "p \<notin> set zs" by auto
  show ?thesis
  proof (cases "i < length (ac_vecs st ! r)")
    case True
    let ?p = "(c', key, r, i + 1, x, v)"
    have "map (\<lambda>q. if q = p then ?p else q) (ac_ends st) = ys @ ?p # zs"
      using split(2) pz by (auto simp: split(1) intro!: map_idI)
    then have st: "async_resume c st = st\<lparr>ac_got := ac_got st @ [(ac_vecs st ! r ! i, v)], ac_ends := ys @ ?p # zs\<rparr>"
      using Some True p by (simp add: async_resume_def)
    have "drop i (ac_vecs st ! r) = ac_vecs st ! r ! i # drop (i + 1) (ac_vecs st ! r)" using True by (simp add: Cons_nth_drop_Suc)
    then show ?thesis using o p unfolding st by (simp add: cache_ok_def vecs_in_use_def owed_def split(1) end_vec_def end_at_def)
  next
    case False
    have "remove1 p (ac_ends st) = ys @ zs" using remove1_split [OF split(2)] by (simp add: split(1))
    then have st: "async_resume c st = st\<lparr>ac_got := ac_got st @ [(c', v)], ac_ends := ys @ zs,
        ac_items := (if x = 0 then items_erase key (ac_items st) else ac_items st)\<rparr>"
      using Some False p by (simp add: async_resume_def)
    show ?thesis using o p False unfolding st by (auto simp: cache_ok_def vecs_in_use_def owed_def split(1) end_vec_def end_at_def)
  qed
qed

lemma run_ok:
  "cache_ok st \<Longrightarrow> \<not> list_ex throws evs \<Longrightarrow>
   cache_ok (fold async_step evs st) \<and>
   owed (fold async_step evs st) + mset (map fst (ac_got (fold async_step evs st))) =
     mset (concat (map caller_of evs)) + owed st + mset (map fst (ac_got st))"
proof (induction evs arbitrary: st)
  case (Cons ev evs)
  have step: "cache_ok (async_step ev st) \<and>
      owed (async_step ev st) + mset (map fst (ac_got (async_step ev st))) = mset (caller_of ev) + owed st + mset (map fst (ac_got st))"
    using Cons.prems call_ok [OF Cons.prems(1)] done_ok [OF Cons.prems(1)] cache_resume_ok [OF Cons.prems(1)]
    by (cases ev) (simp_all add: async_step_def caller_of_def throws_def)
  have "cache_ok (fold async_step evs (async_step ev st)) \<and>
      owed (fold async_step evs (async_step ev st)) + mset (map fst (ac_got (fold async_step evs (async_step ev st)))) =
        mset (concat (map caller_of evs)) + (owed (async_step ev st) + mset (map fst (ac_got (async_step ev st))))"
    using Cons.IH [of "async_step ev st"] step Cons.prems(2) by (simp add: add.assoc)
  then show ?case using step by (simp add: add.assoc)
qed simp

text \<open>
  C21. As long as no factory throws: at most one computation runs for a key at any time, and every call is
  answered exactly once or is still owed an answer by a computation that runs or has ended.
\<close>

theorem one_computation:
  assumes "\<not> list_ex throws evs"
  shows "distinct (map (\<lambda>p. fst (snd p)) (ac_runs (async_run evs))) \<and>
    mset (concat (map caller_of evs)) = owed (async_run evs) + mset (map fst (ac_got (async_run evs)))"
proof -
  have "cache_ok async_cache" by (simp add: cache_ok_def vecs_in_use_def async_cache_def)
  from run_ok [OF this assms] show ?thesis by (simp add: async_run_def cache_ok_def) (simp add: async_cache_def owed_def)
qed

theorem one_computation_witness:
  "distinct (map (\<lambda>p. fst (snd p)) (ac_runs (async_run [CCall 1 [65] 9 0, CCall 2 [65] 9 0, CDone 1 (Some True) 3, CResume 1]))) \<and>
   mset (concat (map caller_of [CCall 1 [65] 9 0, CCall 2 [65] 9 0, CDone 1 (Some True) 3, CResume 1])) =
   owed (async_run [CCall 1 [65] 9 0, CCall 2 [65] 9 0, CDone 1 (Some True) 3, CResume 1]) +
   mset (map fst (ac_got (async_run [CCall 1 [65] 9 0, CCall 2 [65] 9 0, CDone 1 (Some True) 3, CResume 1])))"
  by (rule one_computation) (simp add: throws_def)

section \<open>A factory that throws\<close>

lemma map_of_items_erase: "map_of (items_erase key items) = (map_of items)(key := None)"
  by (induction items) (auto simp: items_erase_def)

lemma map_of_layer_set: "k \<noteq> key \<Longrightarrow> map_of (layer_set key x items) k = map_of items k"
  by (induction items) auto

lemma find_caller: "find (\<lambda>p. fst p = c) xs = Some p \<Longrightarrow> p \<in> set xs \<and> fst p = c"
  by (auto simp: find_Some_iff)

definition items_apart :: "'v async_cache \<Rightarrow> bool" where
  "items_apart st \<longleftrightarrow> list_all (\<lambda>p. map_of (ac_items st) (fst (snd p)) = None) (ac_runs st)"

lemma step_apart:
  assumes "cache_ok st" and "items_apart st"
  shows "items_apart (async_step ev st)"
proof (cases ev)
  case (CCall c key expire now)
  then show ?thesis using assms(2)
    by (auto simp: async_step_def async_call_def Let_def items_apart_def list_all_iff map_of_items_erase split: option.splits)
next
  case (CDone c result now)
  show ?thesis
  proof (cases "find (\<lambda>p. fst p = c) (ac_runs st)")
    case None
    then show ?thesis using assms(2) CDone by (simp add: async_step_def async_done_def)
  next
    case (Some p)
    obtain c' key r x where p: "p = (c', key, r, x)" by (cases p)
    have "distinct (map (\<lambda>p. fst (snd p)) (ac_runs st))" using assms(1) by (simp add: cache_ok_def)
    moreover obtain ys zs where split: "ac_runs st = ys @ p # zs" "p \<notin> set ys" using find_split [OF Some] by blast
    ultimately have "key \<notin> (\<lambda>p. fst (snd p)) ` set (ys @ zs)" using p by auto
    moreover have "remove1 p (ac_runs st) = ys @ zs" using remove1_split [OF split(2)] by (simp add: split(1))
    then have st: "ac_runs (async_step ev st) = ys @ zs"
        "ac_items (async_step ev st) =
          (case result of None \<Rightarrow> ac_items st | Some v \<Rightarrow> layer_set key (fresh_item v x now) (ac_items st))"
      using CDone Some p by (simp_all add: async_step_def async_done_def)
    have same: "map_of (ac_items (async_step ev st)) k = map_of (ac_items st) k" if "k \<noteq> key" for k
      using that by (cases result) (simp_all add: st map_of_layer_set)
    show ?thesis
      unfolding items_apart_def list_all_iff st(1)
    proof
      fix q assume q: "q \<in> set (ys @ zs)"
      then have "fst (snd q) \<noteq> key" using calculation by blast
      moreover have "map_of (ac_items st) (fst (snd q)) = None" using q assms(2) by (auto simp: items_apart_def list_all_iff split(1))
      ultimately show "map_of (ac_items (async_step ev st)) (fst (snd q)) = None" using same by simp
    qed
  qed
next
  case (CResume c)
  then show ?thesis using assms(2)
    by (auto simp: async_step_def async_resume_def items_apart_def list_all_iff map_of_items_erase split: option.splits if_splits)
next
  case (CThrow c)
  then show ?thesis using assms(2)
    by (auto simp: async_step_def async_throw_def items_apart_def list_all_iff dest: notin_set_remove1 split: option.splits)
qed

lemma run_apart: "cache_ok st \<Longrightarrow> items_apart st \<Longrightarrow> \<not> list_ex throws evs \<Longrightarrow> items_apart (fold async_step evs st)"
proof (induction evs arbitrary: st)
  case (Cons ev evs)
  have "cache_ok (async_step ev st)"
    using run_ok [OF Cons.prems(1), of "[ev]"] Cons.prems(3) by simp
  then show ?case using Cons step_apart [of st ev] by simp
qed simp

text \<open>Nobody computes for the key and nobody has the list of those who wait for it.\<close>

definition blocked :: "byte list \<Rightarrow> nat \<Rightarrow> 'v async_cache \<Rightarrow> bool" where
  "blocked key r st \<longleftrightarrow>
     ac_races st key = Some r \<and> r < length (ac_vecs st) \<and> r \<notin> set (vecs_in_use st) \<and>
     list_all (\<lambda>p. fst (snd p) \<noteq> key) (ac_runs st) \<and> map_of (ac_items st) key = None"

lemma blocked_call:
  assumes "blocked key r st"
  shows "blocked key r (async_call c key' expire now st)"
proof -
  have "item_at key now (ac_items st) = None" using assms by (simp add: blocked_def item_at_def)
  then show ?thesis using assms
    by (auto simp: blocked_def async_call_def Let_def vecs_in_use_def map_of_items_erase run_vec_def split: option.splits)
qed

lemma image_remove1: "r \<notin> f ` set xs \<Longrightarrow> r \<notin> f ` set (remove1 p xs)"
  using set_remove1_subset [of p xs] by blast

lemma blocked_step: "blocked key r st \<Longrightarrow> blocked key r (async_step ev st)"
proof (cases ev)
  case (CCall c key' expire now)
  then show "blocked key r st \<Longrightarrow> ?thesis" by (simp add: async_step_def blocked_call)
next
  case (CDone c result now)
  assume b: "blocked key r st"
  show ?thesis
  proof (cases "find (\<lambda>p. fst p = c) (ac_runs st)")
    case None
    then show ?thesis using b CDone by (simp add: async_step_def async_done_def)
  next
    case (Some p)
    obtain c' k r' x where p: "p = (c', k, r', x)" by (cases p)
    then have "p \<in> set (ac_runs st)" using find_caller [OF Some] by auto
    then have "k \<noteq> key" "r' \<noteq> r" using b p by (auto simp: blocked_def list_all_iff vecs_in_use_def run_vec_def image_iff)
    then show ?thesis using b CDone Some p
      by (simp add: async_step_def async_done_def blocked_def vecs_in_use_def list_all_iff map_of_layer_set end_vec_def image_remove1
          split: option.splits) (meson notin_set_remove1)
  qed
next
  case (CResume c)
  assume b: "blocked key r st"
  show ?thesis
  proof (cases "find (\<lambda>p. fst p = c) (ac_ends st)")
    case None
    then show ?thesis using b CResume by (simp add: async_step_def async_resume_def)
  next
    case (Some p)
    obtain c' k r' i x v where p: "p = (c', k, r', i, x, v)" by (cases p) auto
    have same: "map end_vec (map (\<lambda>q. if q = p then (c', k, r', i + 1, x, v) else q) (ac_ends st)) = map end_vec (ac_ends st)"
      using p by (auto simp: end_vec_def)
    have set: "end_vec ` set (map (\<lambda>q. if q = p then (c', k, r', i + 1, x, v) else q) (ac_ends st)) = end_vec ` set (ac_ends st)"
      using arg_cong [OF same, of set] by (simp only: set_map)
    show ?thesis
      using b CResume Some p set
      by (simp add: async_step_def async_resume_def blocked_def vecs_in_use_def map_of_items_erase image_remove1)
  qed
next
  case (CThrow c)
  then show "blocked key r st \<Longrightarrow> ?thesis"
    by (auto simp: async_step_def async_throw_def blocked_def vecs_in_use_def list_all_iff image_remove1 dest: notin_set_remove1
        simp del: image_eqI split: option.splits)
qed

lemma blocked_run: "blocked key r st \<Longrightarrow> blocked key r (fold async_step evs st)"
  by (induction evs arbitrary: st) (simp_all add: blocked_step)

lemma throw_blocks:
  assumes ok: "cache_ok st" and apart: "items_apart st" and caller: "find (\<lambda>p. fst p = c) (ac_runs st) = Some (c, key, r, x)"
  shows "blocked key r (async_step (CThrow c) st)"
proof -
  let ?p = "(c, key, r, x)"
  obtain ys zs where split: "ac_runs st = ys @ ?p # zs" "?p \<notin> set ys" using find_split [OF caller] by blast
  have thrown: "async_step (CThrow c) st = st\<lparr>ac_runs := ys @ zs\<rparr>"
    using caller remove1_split [OF split(2)] by (simp add: async_step_def async_throw_def split(1))
  have key: "key \<notin> (\<lambda>p. fst (snd p)) ` set (ys @ zs)" using ok by (auto simp: cache_ok_def split(1))
  have "r \<notin> set (map run_vec (ys @ zs) @ map end_vec (ac_ends st))" "r < length (ac_vecs st)"
    using ok by (auto simp: cache_ok_def vecs_in_use_def split(1) run_vec_def)
  moreover have "ac_races st key = Some r"
  proof -
    have "map_of (map (\<lambda>p. (fst (snd p), run_vec p)) ys) key = None"
      using key by (auto simp: map_of_eq_None_iff image_image)
    then show ?thesis using ok by (simp add: cache_ok_def split(1) map_add_def run_vec_def)
  qed
  moreover have "map_of (ac_items st) key = None" using apart by (simp add: items_apart_def split(1))
  moreover have "list_all (\<lambda>p. fst (snd p) \<noteq> key) (ys @ zs)" using key by (auto simp: list_all_iff)
  ultimately show ?thesis unfolding thrown by (simp add: blocked_def vecs_in_use_def)
qed

text \<open>
  C35. When the factory for a key throws at once, the key is lost: whatever happens afterwards, a caller that asks for
  it joins the list of those who wait, and neither it nor anyone else on the list is owed an answer by a
  computation.
\<close>

theorem thrown_factory_blocks:
  assumes "\<not> list_ex throws evs" and "find (\<lambda>p. fst p = c) (ac_runs (async_run evs)) = Some (c, key, r, x)"
  shows "ac_races (async_run (evs @ CThrow c # later)) key = Some r \<and> r \<notin> set (vecs_in_use (async_run (evs @ CThrow c # later))) \<and>
    ac_got (async_run (evs @ CThrow c # later @ [CCall d key expire now])) = ac_got (async_run (evs @ CThrow c # later)) \<and>
    owed (async_run (evs @ CThrow c # later @ [CCall d key expire now])) = owed (async_run (evs @ CThrow c # later))"
proof -
  let ?st = "async_run evs"
  let ?fin = "async_run (evs @ CThrow c # later)"
  have start: "cache_ok async_cache" "items_apart async_cache"
    by (simp_all add: cache_ok_def vecs_in_use_def async_cache_def items_apart_def)
  have ok: "cache_ok ?st" using run_ok [OF start(1) assms(1)] by (simp add: async_run_def)
  have apart: "items_apart ?st" using run_apart [OF start assms(1)] by (simp add: async_run_def)
  have fin: "blocked key r ?fin"
    using blocked_run [OF throw_blocks [OF ok apart assms(2)], of later] by (simp add: async_run_def)
  have "item_at key now (ac_items ?fin) = None" using fin by (simp add: blocked_def item_at_def)
  then have call: "async_step (CCall d key expire now) ?fin =
      ?fin\<lparr>ac_items := items_erase key (ac_items ?fin), ac_vecs := (ac_vecs ?fin)[r := ac_vecs ?fin ! r @ [d]]\<rparr>"
    using fin by (simp add: async_step_def async_call_def Let_def blocked_def)
  have same: "((ac_vecs ?fin)[r := ac_vecs ?fin ! r @ [d]]) ! q = ac_vecs ?fin ! q"
    if "q \<in> set (map run_vec (ac_runs ?fin) @ map end_vec (ac_ends ?fin))" for q
  proof -
    have "q \<noteq> r" using that fin by (auto simp: blocked_def vecs_in_use_def)
    then show ?thesis by simp
  qed
  have "async_run (evs @ CThrow c # later @ [CCall d key expire now]) = async_step (CCall d key expire now) ?fin"
    by (simp add: async_run_def)
  then show ?thesis using fin owed_vecs_cong [OF same] unfolding call by (simp add: blocked_def owed_def)
qed

theorem thrown_factory_blocks_witness:
  "ac_races (async_run ([CCall 1 [65] 9 0] @ CThrow 1 # ([] :: unit cache_event list))) [65] = Some 0 \<and>
   0 \<notin> set (vecs_in_use (async_run ([CCall 1 [65] 9 0] @ CThrow 1 # ([] :: unit cache_event list)))) \<and>
   ac_got (async_run ([CCall 1 [65] 9 0] @ CThrow 1 # ([] :: unit cache_event list) @ [CCall 2 [65] 9 5])) = ac_got (async_run ([CCall 1 [65] 9 0] @ CThrow 1 # ([] :: unit cache_event list))) \<and>
   owed (async_run ([CCall 1 [65] 9 0] @ CThrow 1 # ([] :: unit cache_event list) @ [CCall 2 [65] 9 5])) = owed (async_run ([CCall 1 [65] 9 0] @ CThrow 1 # ([] :: unit cache_event list)))"
  by (rule thrown_factory_blocks [where x = 9])
    (simp_all add: throws_def async_run_def async_cache_def async_step_def async_call_def item_at_def)

end
