(* ===== verification/Web_Url.thy ===== *)
theory Web_Url
  imports Web_Faults Web_Cache
begin

text \<open>
  Addresses with encrypted parameters: \<open>environment::url\<close> writes them, and the server that reads the
  address gets the parameters back as signed ones.
\<close>

section \<open>Writing an address\<close>

datatype encryption = EncNone | EncFull | EncLean

definition join_step :: "nat \<Rightarrow> byte list \<times> byte list \<Rightarrow> nat \<times> byte list \<Rightarrow> nat \<times> byte list" where
  "join_step n p iq =
     (fst iq + 1,
      snd iq @ util_url_encode (fst p) @ [61] @ util_url_encode (snd p) @ (if fst iq \<noteq> n - 1 then [c_amp] else []))"

definition query_join :: "(byte list \<times> byte list) list \<Rightarrow> byte list" where
  "query_join params = snd (fold (join_step (length params)) params (0, []))"

text \<open>
  The cache keeps the result of the lean encryption for ever, under the parameters and the endpoint; the
  master key is not part of its key.
\<close>

definition url_cipher :: "env \<Rightarrow> crypto_lib \<Rightarrow> allocator \<Rightarrow> (nat \<Rightarrow> byte) \<Rightarrow> byte list \<Rightarrow> byte list \<Rightarrow> encryption \<Rightarrow> byte list \<Rightarrow>
    (string + byte list) cache_items \<Rightarrow> server \<Rightarrow> ((string + byte list) \<times> (string + byte list) cache_items \<times> server) option" where
  "url_cipher env lib A stk endpoint query mode base cache s =
     (if mode = EncLean then
        Option.bind
          (cache_call env (query @ endpoint) cache_never
            (\<lambda>s. map_option (\<lambda>r. (Some (fst r), snd r)) (util_cipher env lib A stk query (base @ endpoint) True False s)) cache s)
          (\<lambda>(r, cache1, s1). case r of None \<Rightarrow> None | Some x \<Rightarrow> Some (x, cache1, s1))
      else
        map_option (\<lambda>r. (fst r, cache, snd r))
          (util_cipher env lib A stk query (base @ endpoint) True (mode = EncFull) s))"

definition env_url :: "env \<Rightarrow> crypto_lib \<Rightarrow> allocator \<Rightarrow> (nat \<Rightarrow> byte) \<Rightarrow> byte list \<Rightarrow> (byte list \<times> byte list) list \<Rightarrow> encryption \<Rightarrow>
    http_env \<Rightarrow> (string + byte list) cache_items \<Rightarrow> server \<Rightarrow> (byte list \<times> (string + byte list) cache_items \<times> server) option" where
  "env_url env lib A stk endpoint params mode e cache s =
     (if params = [] then Some (endpoint, cache, s)
      else if mode = EncNone then Some (endpoint @ [63] @ query_join params, cache, s)
      else
        Option.bind (url_cipher env lib A stk endpoint (query_join params) mode (he_base e) cache s) (\<lambda>(r, cache1, s1).
          case r of
            Inr c \<Rightarrow>
              map_option (\<lambda>b. (endpoint @ [63] @ cstr ''e='' @ util_url_encode b, cache1, s1)) (util_to_b64 lib A stk c)
          | Inl msg \<Rightarrow> Some (endpoint @ [63] @ cstr ''er='' @ util_url_encode (cstr msg), cache1, s1)))"

lemma query_join_from:
  "i + length ps = n \<Longrightarrow> snd (fold (join_step n) ps (i, q)) = q @ query_text ps"
proof (induction ps arbitrary: i q rule: query_text.induct)
  case (2 p)
  then show ?case by (simp add: join_step_def query_pair_def util_url_encode_text)
next
  case (3 p p' ps)
  have "snd (fold (join_step n) (p # p' # ps) (i, q)) = snd (fold (join_step n) (p' # ps) (join_step n p (i, q)))" by simp
  also have "join_step n p (i, q) = (i + 1, q @ query_pair p @ [c_amp])"
    using 3(2) by (simp add: join_step_def query_pair_def util_url_encode_text)
  also have "snd (fold (join_step n) (p' # ps) (i + 1, q @ query_pair p @ [c_amp])) = (q @ query_pair p @ [c_amp]) @ query_text (p' # ps)"
    using 3(2) by (intro 3(1)) simp
  finally show ?case by simp
qed simp

lemma query_join_text: "query_join params = query_text params"
  using query_join_from [of 0 params "length params" "[]"] by (simp add: query_join_def)

section \<open>Base 64 there and back\<close>

text \<open>What OpenSSL promises of base 64.\<close>

definition base64_laws :: "crypto_lib \<Rightarrow> bool" where
  "base64_laws lib \<longleftrightarrow>
     (\<forall>d. length (lib_base64 lib d) = 4 * ((length d + 2) div 3) \<and>
        (\<exists>out r rest. lib_decode lib (lib_base64 lib d) = Some out \<and> lib_decode_end lib (lib_base64 lib d) = (r, rest) \<and>
           r \<noteq> 0 \<and> out @ rest = d))"

definition base64_works :: "env \<Rightarrow> bool" where
  "base64_works env \<longleftrightarrow> (\<forall>h. a_ret (answers env (h @ [AOther ''EVP_ENCODE_CTX_new'' []])) \<noteq> 0)"

lemma stack_room:
  assumes "k < 2 ^ 41" and "reliable A"
  obtains str where "dynstr_check A (init_on_stack stk 200) k = Some (True, str)" and "k < length (ds_ptr str)"
proof -
  obtain str where "dynstr_check A (init_on_stack stk 200) k = Some (True, str)"
      "if k < 200 then length (ds_ptr str) = 200 else k + 65536 \<le> length (ds_ptr str)"
    using cipher_room [OF assms, of 200 stk] by auto
  then show thesis using that [of str] by (simp split: if_splits)
qed

lemma to_b64_text:
  assumes "base64_laws lib" and "reliable A" and "length d < 2 ^ 36"
  shows "util_to_b64 lib A stk d = Some (lib_base64 lib d)"
proof -
  let ?b = "lib_base64 lib d" and ?k = "4 + 4 * ((length d + 2) div 3)"
  have len: "length ?b = 4 * ((length d + 2) div 3)" using assms(1) unfolding base64_laws_def by blast
  have k: "?k < 2 ^ 41" "sz ?k = ?k" using assms(3) by simp_all
  from stack_room [OF k(1) assms(2)] obtain str
    where str: "dynstr_check A (init_on_stack stk 200) ?k = Some (True, str)" "?k < length (ds_ptr str)" by blast
  have "store_at 0 (?b @ [0]) str = Some (str\<lparr>ds_ptr := (?b @ [0]) @ drop (length ?b + 1) (ds_ptr str)\<rparr>)"
    using str(2) len by (subst store_at_fits) simp_all
  then show ?thesis using str k(2) by (simp add: util_to_b64_def crypto_to64_def string_of_def)
qed

lemma from_b64_text:
  assumes "base64_laws lib" and "base64_works env" and "reliable A" and "length d < 2 ^ 28"
  shows "\<exists>s1. util_from_b64 env lib A stk (lib_base64 lib d) s = Some (Inr d, s1)"
proof -
  let ?b = "lib_base64 lib d"
  obtain out r rest where dec: "lib_decode lib ?b = Some out" "lib_decode_end lib ?b = (r, rest)" "r \<noteq> 0" "out @ rest = d"
    using assms(1) unfolding base64_laws_def by blast
  have len: "length ?b = 4 * ((length d + 2) div 3)" using assms(1) unfolding base64_laws_def by blast
  then have b: "length ?b < 2 ^ 31" "length d \<le> length ?b" using assms(4) by simp_all
  have k: "nat (to_int (int (length ?b)) mod 2 ^ 64) = length ?b" using b(1) by (simp add: to_int_length)
  have "length ?b < 2 ^ 41" using b(1) by simp
  from stack_room [OF this assms(3)] obtain str
    where str: "dynstr_check A (init_on_stack stk 200) (length ?b) = Some (True, str)" "length ?b < length (ds_ptr str)" by blast
  let ?str1 = "str\<lparr>ds_ptr := out @ drop (length out) (ds_ptr str)\<rparr>"
  have d: "length out + length rest = length d" using dec(4) by (metis length_append)
  have put1: "store_at 0 out str = Some ?str1" using str(2) b(2) d by (subst store_at_fits) simp_all
  let ?str2 = "?str1\<lparr>ds_ptr := out @ rest @ drop (length out + length rest) (ds_ptr ?str1)\<rparr>"
  have put2: "store_at (length out) rest ?str1 = Some ?str2" using str(2) b(2) d by (subst store_at_fits) simp_all
  obtain a s1 where ctx: "os_call env ''EVP_ENCODE_CTX_new'' [] s = (a, s1)" by (metis prod.exhaust)
  have a: "a_ret a \<noteq> 0"
    using assms(2) os_call_result [of env "''EVP_ENCODE_CTX_new''" "[]" s] ctx by (simp add: base64_works_def)
  have "crypto_from64 env lib A ?b (init_on_stack stk 200) s =
      Some ((None, ?str2\<lparr>ds_length := length out + length rest\<rparr>), snd (os_call env ''EVP_ENCODE_CTX_free'' [] s1))"
    unfolding crypto_from64_def k ctx using a str(1) dec put1 put2 by (simp add: Let_def)
  moreover have "string_of (?str2\<lparr>ds_length := length out + length rest\<rparr>) = Some d"
    using dec(4) str(2) b(2) d by (simp add: string_of_def flip: append_assoc)
  ultimately show ?thesis by (simp add: util_from_b64_def expected_def)
qed

section \<open>The cipher there and back\<close>

lemma util_encrypts:
  assumes "cipher_laws lib" and "cipher_works env" and "reliable A" and "fold_key key = Some k"
    and "length data < 2 ^ 30" and "\<not> (use_iv \<and> length data = 144)"
  shows "\<exists>c s1. util_cipher env lib A stk data key True use_iv s = Some (Inr c, s1) \<and> cipher_text lib k use_iv data c \<and>
    length c < 2 ^ 31"
proof -
  have "\<not> (use_iv \<and> cipher_tight 200 (length data))" using assms(5,6) cipher_tight_sizes(2) by simp
  from encrypts [OF assms(1-5) this, of stk s] obtain str s' where
    "crypto_cipher env lib A data key use_iv True (init_on_stack stk 200) s = Some ((None, str), s')"
    "cipher_text lib k use_iv data (take (ds_length str) (ds_ptr str))" "ds_length str \<le> length (ds_ptr str)" "ds_length str < 2 ^ 31"
    by auto
  then show ?thesis by (auto simp: util_cipher_def expected_def string_of_def)
qed

lemma util_decrypts:
  assumes "cipher_laws lib" and "cipher_works env" and "reliable A" and "fold_key key = Some k"
    and "length data < 2 ^ 30" and "cipher_text lib k use_iv data c"
  shows "\<exists>s1. util_cipher env lib A stk c key False w s = Some (Inr data, s1)"
  using decrypts [OF assms, of 200 w stk s] by (auto simp: util_cipher_def expected_def string_of_def)

lemma cipher_text_length:
  assumes "cipher_laws lib" and "fold_key key = Some k" and "cipher_text lib k use_iv data c"
  shows "length c \<le> length data + 68"
proof -
  obtain iv iv' out rest where c: "c = layout lib k (length data) iv' (out @ rest)" "length iv = 16"
      "iv' = (if use_iv then iv else [])" "lib_update lib True k iv data = Some out" "lib_final lib True k iv data = Some rest"
    using assms(3) unfolding cipher_text_def by blast
  have "length out = 16 * (length data div 16)" "length rest = 16"
    using assms(1) fold_key_length [OF assms(2)] c(2,4,5) unfolding cipher_laws_def by (metis option.inject)+
  moreover have "length (lib_hmac lib k d) = 32" for d using assms(1) by (simp add: cipher_laws_def)
  moreover have "16 * (length data div 16) \<le> length data" by simp
  ultimately show ?thesis using c(1,2,3) by (auto simp: layout_def)
qed

section \<open>The server reads what was written\<close>

definition clean_endpoint :: "byte list \<Rightarrow> bool" where
  "clean_endpoint endpoint \<longleftrightarrow> util_url_decode endpoint = Some endpoint \<and> 63 \<notin> set endpoint"

lemma url_text_e: "cstr ''e='' @ url_text b = query_text [(cstr ''e'', b)]"
  by (simp add: query_pair_def url_text_def url_enc_def url_plain_def c_isalnum_def cstr_def)

lemma read_signed_text:
  assumes lib: "cipher_laws lib" "base64_laws lib" and env: "cipher_works env" "base64_works env" and A: "reliable A"
    and key: "fold_key (base @ endpoint) = Some k" and base: "16 \<le> length base" and ep: "clean_endpoint endpoint"
    and c: "cipher_text lib k use_iv (query_text params) c" and len: "length (query_text params) < 2 ^ 24"
  shows "\<exists>s2. parse_script env lib A stk base (endpoint @ [63] @ cstr ''e='' @ util_url_encode (lib_base64 lib c)) e s =
    Some (endpoint, e\<lparr>he_signed := map_of (rev params), he_query := [cstr ''e'' \<mapsto> lib_base64 lib c]\<rparr>, s2)"
proof -
  let ?b = "lib_base64 lib c"
  have clen: "length c < 2 ^ 25" using cipher_text_length [OF lib(1) key c] len by simp
  have "length ?b = 4 * ((length c + 2) div 3)" using lib(2) unfolding base64_laws_def by blast
  then have "length ?b < 2 ^ 27" using clen by simp
  then have "length (query_text [(cstr ''e'', ?b)]) < 2 ^ 64"
    using url_text_length [of ?b] url_text_length [of "cstr ''e''"] by (simp add: query_pair_def cstr_def)
  then have query: "parse_query_string (cstr ''e='' @ util_url_encode ?b) = Some [cstr ''e'' \<mapsto> ?b]"
    using query_loop_text [of 0 "query_text [(cstr ''e'', ?b)]" "[(cstr ''e'', ?b)]" Map.empty]
    by (simp add: parse_query_string_def util_url_encode_text url_text_e del: query_text.simps)
  have "length c < 2 ^ 28" using clen by simp
  from from_b64_text [OF lib(2) env(2) A this, of stk s] obtain s1 where b64: "util_from_b64 env lib A stk ?b s = Some (Inr c, s1)"
    by blast
  have qlen: "length (query_text params) < 2 ^ 30" using len by simp
  from util_decrypts [OF lib(1) env(1) A key qlen c, of stk False s1] obtain s2 where
    plain: "util_cipher env lib A stk c (base @ endpoint) False False s1 = Some (Inr (query_text params), s2)" by blast
  have "length (query_text params) < 2 ^ 64" using len by simp
  then have signed: "parse_query_string (query_text params) = Some (map_of (rev params))"
    using query_loop_text [of 0 "query_text params" params Map.empty] by (simp add: parse_query_string_def)
  have find: "view_find 63 (endpoint @ [63] @ cstr ''e='' @ util_url_encode ?b) = Some (length endpoint)"
    using ep by (simp add: clean_endpoint_def view_find_simps)
  have "read_signed env lib A stk base endpoint [cstr ''e'' \<mapsto> ?b] e s = Some (e\<lparr>he_signed := map_of (rev params)\<rparr>, s2)"
    using base b64 plain signed by (simp add: read_signed_def)
  then show ?thesis
    using ep query unfolding parse_script_def find by (simp add: clean_endpoint_def)
qed

text \<open>
  The entries of the cache that were made under a master key: each is the lean encryption of the query
  its key begins with, for the endpoint its key ends with.  Queries contain no slash and endpoints begin
  with one, so a key tells the two apart.
\<close>

definition own_entry :: "crypto_lib \<Rightarrow> byte list \<Rightarrow> byte list \<times> (string + byte list) expirable \<Rightarrow> bool" where
  "own_entry lib base p \<longleftrightarrow> (\<exists>q ep k c. fst p = q @ 47 # ep \<and> 47 \<notin> set q \<and> fold_key (base @ 47 # ep) = Some k \<and>
     ex_value (snd p) = Inr c \<and> cipher_text lib k False q c)"

definition own_entries :: "crypto_lib \<Rightarrow> byte list \<Rightarrow> (string + byte list) cache_items \<Rightarrow> bool" where
  "own_entries lib base cache \<longleftrightarrow> (\<forall>p\<in>set cache. own_entry lib base p)"

lemma split_key: "c \<notin> set q \<Longrightarrow> c \<notin> set q' \<Longrightarrow> q @ c # ep = q' @ c # ep' \<Longrightarrow> q = q' \<and> ep = ep'"
  by (induction q arbitrary: q') (auto simp: Cons_eq_append_conv append_eq_Cons_conv)

lemma layer_set_entries: "set (layer_set key x items) \<subseteq> insert (key, x) (set items)"
  by (induction items) auto

lemma layer_get_entries:
  assumes "layer_get env key items s = (r, items1, s1)"
  shows "set items1 \<subseteq> set items \<and> (\<forall>v. r = Some v \<longrightarrow> (\<exists>x. (key, x) \<in> set items \<and> ex_value x = v))"
  using assms by (auto simp: layer_get_def Let_def items_erase_def dest: map_of_SomeD split: option.splits if_splits)

lemma query_no_slash: "47 \<notin> set (query_text params)"
proof -
  have "47 \<notin> set (query_pair p)" for p
    using url_text_letters [of 47 "fst p"] url_text_letters [of 47 "snd p"]
    by (auto simp: query_pair_def url_plain_def c_isalnum_def)
  then show ?thesis by (induction params rule: query_text.induct) simp_all
qed

text \<open>On a hit and on a miss the cache hands out an encryption under the master key of the call.\<close>

lemma lean_cipher:
  assumes "cipher_laws lib" and "cipher_works env" and "reliable A" and "own_entries lib base cache"
    and key: "fold_key (base @ 47 # ep) = Some k" and len: "length (query_text params) < 2 ^ 30"
  shows "\<exists>c cache1 s1. url_cipher env lib A stk (47 # ep) (query_text params) EncLean base cache s = Some (Inr c, cache1, s1) \<and>
    cipher_text lib k False (query_text params) c \<and> own_entries lib base cache1"
proof -
  let ?q = "query_text params"
  obtain r items1 s1 where get: "layer_get env (?q @ 47 # ep) cache s = (r, items1, s1)" by (metis prod_cases3)
  note entries = layer_get_entries [OF get]
  have own1: "own_entries lib base items1" using assms(4) entries by (auto simp: own_entries_def)
  show ?thesis
  proof (cases r)
    case (Some v)
    then obtain x where x: "(?q @ 47 # ep, x) \<in> set cache" "ex_value x = v" using entries by blast
    then have "own_entry lib base (?q @ 47 # ep, x)" using assms(4) by (simp add: own_entries_def)
    then obtain q ep' k' c where own: "?q @ 47 # ep = q @ 47 # ep'" "47 \<notin> set q" "fold_key (base @ 47 # ep') = Some k'"
        "v = Inr c" "cipher_text lib k' False q c"
      using x(2) by (auto simp: own_entry_def)
    have "?q = q \<and> ep = ep'" by (rule split_key [OF query_no_slash own(2,1)])
    then have "cipher_text lib k False ?q c" "v = Inr c" using own key by simp_all
    then show ?thesis using get Some own1 by (simp add: url_cipher_def cache_call_def)
  next
    case None
    obtain c s2 where c: "util_cipher env lib A stk ?q (base @ 47 # ep) True False s1 = Some (Inr c, s2)" "cipher_text lib k False ?q c"
      using util_encrypts [OF assms(1-3) key len, of False stk s1] by auto
    let ?now = "os_call env ''steady_clock'' [] s2"
    let ?cache = "layer_set (?q @ 47 # ep) (fresh_item (Inr c) cache_never (a_ret (fst ?now))) items1"
    have "own_entry lib base (?q @ 47 # ep, fresh_item (Inr c) cache_never (a_ret (fst ?now)))"
      using c(2) key query_no_slash [of params] by (auto simp: own_entry_def fresh_item_def)
    then have "own_entries lib base ?cache" using own1 layer_set_entries unfolding own_entries_def by blast
    moreover have "url_cipher env lib A stk (47 # ep) ?q EncLean base cache s = Some (Inr c, ?cache, snd ?now)"
      using get None c(1) by (simp add: url_cipher_def cache_call_def Let_def)
    ultimately show ?thesis using c(2) by blast
  qed
qed

text \<open>
  C19. Parameters that the server puts encrypted into an address come back as the signed parameters of a
  request for it, in the lean mode on every hit and miss of the cache, and in the full mode unless their
  text has 144 bytes.  The entries of the cache were made by lean addresses under the same master key,
  which the empty cache and the cache after every address fulfil; the endpoint begins with a slash.  A
  hit on an entry of another master key hands out an address the server cannot read
  (\<open>lean_url_ignores_key\<close>).
\<close>

theorem signed_url_roundtrip:
  assumes "cipher_laws lib" "base64_laws lib" and "cipher_works env" "base64_works env" and "cipher_works env'" "base64_works env'"
    and "reliable A" and "16 \<le> length (he_base e)" and "clean_endpoint (47 # endpoint)" and "params \<noteq> []"
    and "length (query_text params) < 2 ^ 24" and "own_entries lib (he_base e) cache"
    and "mode = EncLean \<or> mode = EncFull \<and> length (query_text params) \<noteq> 144"
  shows "\<exists>url cache1 s1 e1 s2. env_url env lib A stk (47 # endpoint) params mode e cache s = Some (url, cache1, s1) \<and>
    own_entries lib (he_base e) cache1 \<and>
    parse_script env' lib A stk' (he_base e) url e0 s0 = Some (47 # endpoint, e1, s2) \<and> he_signed e1 = map_of (rev params)"
proof -
  let ?ep = "47 # endpoint"
  have "16 \<le> length (he_base e @ ?ep)" using assms(8) by simp
  then obtain k where key: "fold_key (he_base e @ ?ep) = Some k" using fold_key_some by blast
  have len: "length (query_text params) < 2 ^ 30" using assms(11) by simp
  obtain c cache1 s1 where
    c: "url_cipher env lib A stk ?ep (query_text params) mode (he_base e) cache s = Some (Inr c, cache1, s1)"
      "cipher_text lib k (mode = EncFull) (query_text params) c" and own: "own_entries lib (he_base e) cache1"
  proof (cases "mode = EncLean")
    case True
    then show ?thesis using that lean_cipher [OF assms(1,3,7,12) key len, of stk s] by auto
  next
    case False
    then have full: "mode = EncFull" "\<not> (True \<and> length (query_text params) = 144)" using assms(13) by auto
    from util_encrypts [OF assms(1,3,7) key len full(2), of stk s] obtain c s1 where
      "util_cipher env lib A stk (query_text params) (he_base e @ ?ep) True True s = Some (Inr c, s1)"
      "cipher_text lib k True (query_text params) c" by blast
    then show ?thesis using that [of c cache s1] full(1) assms(12) by (simp add: url_cipher_def)
  qed
  have "length c < 2 ^ 36" using cipher_text_length [OF assms(1) key c(2)] assms(11) by simp
  from to_b64_text [OF assms(2,7) this] have b: "util_to_b64 lib A stk c = Some (lib_base64 lib c)" .
  let ?url = "?ep @ [63] @ cstr ''e='' @ util_url_encode (lib_base64 lib c)"
  have "mode \<noteq> EncNone" using assms(13) by auto
  then have "env_url env lib A stk ?ep params mode e cache s = Some (?url, cache1, s1)"
    using assms(10) b c(1) by (simp add: env_url_def query_join_text)
  moreover have "\<exists>s2. parse_script env' lib A stk' (he_base e) ?url e0 s0 =
      Some (?ep, e0\<lparr>he_signed := map_of (rev params), he_query := [cstr ''e'' \<mapsto> lib_base64 lib c]\<rparr>, s2)"
    by (rule read_signed_text [OF assms(1,2,5,6,7) key assms(8,9) c(2) assms(11)])
  ultimately show ?thesis using own by fastforce
qed

text \<open>On a hit the address does not depend on the master key it is asked for.\<close>

theorem lean_url_ignores_key:
  assumes "map_of cache (query_join params @ endpoint) = Some x" and "ex_never x"
  shows "env_url env lib A stk endpoint params EncLean e cache s = env_url env lib A stk endpoint params EncLean e' cache s"
  using assms by (simp add: env_url_def url_cipher_def cache_call_def layer_get_def)

theorem lean_url_ignores_key_witness:
  "env_url env lib A stk [47] [([97], [98])] EncLean (environment\<lparr>he_base := replicate 16 7\<rparr>)
      [(query_join [([97], [98])] @ [47], \<lparr>ex_value = Inr [1], ex_never = True, ex_expire = 0\<rparr>)] s =
   env_url env lib A stk [47] [([97], [98])] EncLean (environment\<lparr>he_base := replicate 16 8\<rparr>)
      [(query_join [([97], [98])] @ [47], \<lparr>ex_value = Inr [1], ex_never = True, ex_expire = 0\<rparr>)] s"
  by (rule lean_url_ignores_key [where x = "\<lparr>ex_value = Inr [1], ex_never = True, ex_expire = 0\<rparr>"]) simp_all

text \<open>A library for witnesses: four bytes for every three, the last one of them the number of those that count.\<close>

fun fours :: "byte list \<Rightarrow> byte list" where
  "fours [] = []"
| "fours [a] = [a, 0, 0, 1]"
| "fours [a, b] = [a, b, 0, 2]"
| "fours (a # b # c # d) = a # b # c # 3 # fours d"

fun unfours :: "byte list \<Rightarrow> byte list" where
  "unfours (a # b # c # k # d) = take (unat k) [a, b, c] @ unfours d"
| "unfours d = []"

lemma fours_laws: "unfours (fours d) = d" "length (fours d) = 4 * ((length d + 2) div 3)"
proof -
  have step: "(5 + n) div 3 = Suc (Suc (Suc n) div 3)" for n :: nat by presburger
  show "unfours (fours d) = d" "length (fours d) = 4 * ((length d + 2) div 3)"
    by (induction d rule: fours.induct) (simp_all add: step)
qed

definition fours_lib :: crypto_lib where
  "fours_lib = plain_lib\<lparr>lib_base64 := fours, lib_decode := (\<lambda>d. Some (unfours d)), lib_decode_end := (\<lambda>d. (1, []))\<rparr>"

lemma fours_lib_laws: "cipher_laws fours_lib" "base64_laws fours_lib"
  using plain_lib_laws by (simp_all add: fours_lib_def cipher_laws_def base64_laws_def fours_laws)

text \<open>The same address twice: the second one is a hit.\<close>

lemma example_params: "length (query_text [([97], [98])]) < 2 ^ 24" "clean_endpoint (47 # [120])"
proof -
  have "length (query_text [([97], [98])]) \<le> 7"
    using url_text_length [of "[97]"] url_text_length [of "[98]"] by (simp add: query_pair_def)
  then show "length (query_text [([97], [98])]) < 2 ^ 24" by simp
  have "view_ok (47 # [120])" by (simp add: view_ok_def)
  from util_url_decode_ok [OF this] show "clean_endpoint (47 # [120])"
    by (simp add: clean_endpoint_def unplus_def)
qed

theorem signed_url_roundtrip_witness:
  "\<exists>url1 cache1 s1. env_url (const_env 1) fours_lib (\<lambda>n. Some (\<lambda>i. 0)) (\<lambda>i. 9) [47, 120] [([97], [98])] EncLean
      (environment\<lparr>he_base := replicate 16 7\<rparr>) [] idle_server = Some (url1, cache1, s1) \<and>
    (\<exists>url cache2 s2 e1 s3. env_url (const_env 1) fours_lib (\<lambda>n. Some (\<lambda>i. 0)) (\<lambda>i. 9) [47, 120] [([97], [98])] EncLean
      (environment\<lparr>he_base := replicate 16 7\<rparr>) cache1 s1 = Some (url, cache2, s2) \<and>
      own_entries fours_lib (he_base (environment\<lparr>he_base := replicate 16 7\<rparr>)) cache2 \<and>
      parse_script (const_env 1) fours_lib (\<lambda>n. Some (\<lambda>i. 0)) (\<lambda>i. 8) (he_base (environment\<lparr>he_base := replicate 16 7\<rparr>)) url environment s2 =
        Some ([47, 120], e1, s3) \<and> he_signed e1 = map_of (rev [([97], [98])]))"
proof -
  let ?e = "environment\<lparr>he_base := replicate 16 7\<rparr>" and ?A = "\<lambda>n. Some (\<lambda>i. 0)"
  have works: "cipher_works (const_env 1)" "base64_works (const_env 1)" "reliable ?A" "16 \<le> length (he_base ?e)" "[([97::byte], [98::byte])] \<noteq> []"
    by (simp_all add: cipher_works_def base64_works_def reliable_def)
  note trip = signed_url_roundtrip [OF fours_lib_laws works(1,2,1,2,3,4) example_params(2) works(5) example_params(1)]
  obtain url1 cache1 s1 where one: "env_url (const_env 1) fours_lib ?A (\<lambda>i. 9) [47, 120] [([97], [98])] EncLean ?e [] idle_server = Some (url1, cache1, s1)"
      "own_entries fours_lib (he_base ?e) cache1"
    using trip [of "[]" EncLean "\<lambda>i. 9" idle_server "\<lambda>i. 8" environment idle_server] by (auto simp: own_entries_def)
  obtain url cache2 s2 where two: "env_url (const_env 1) fours_lib ?A (\<lambda>i. 9) [47, 120] [([97], [98])] EncLean ?e cache1 s1 = Some (url, cache2, s2)"
    using trip [OF one(2), of EncLean "\<lambda>i. 9" s1 "\<lambda>i. 8" environment idle_server] by auto
  then show ?thesis
    using trip [OF one(2), of EncLean "\<lambda>i. 9" s1 "\<lambda>i. 8" environment s2] one(1) by fastforce
qed

text \<open>
  With a vector, parameters whose text has 144 bytes are written past the end of the array of 200 bytes on
  the stack.
\<close>

theorem full_url_overflows:
  assumes "cipher_laws lib" and "cipher_works env" and "16 \<le> length (he_base e)"
    and "length (query_text params) = 144"
  shows "env_url env lib A stk endpoint params EncFull e cache s = None"
proof -
  have "16 \<le> length (he_base e @ endpoint)" using assms(3) by simp
  then obtain k where key: "fold_key (he_base e @ endpoint) = Some k" using fold_key_some by blast
  have "crypto_cipher env lib A (query_text params) (he_base e @ endpoint) True True (init_on_stack stk 200) s = None"
    using assms(4) by (intro encrypt_overflows [OF assms(1,2) key]) simp
  moreover have "params \<noteq> []" using assms(4) by auto
  ultimately show ?thesis by (simp add: env_url_def url_cipher_def query_join_text util_cipher_def expected_def)
qed

theorem full_url_overflows_witness:
  "env_url (const_env 1) plain_lib (\<lambda>n. None) (\<lambda>i. 9) [47] [(replicate 43 97, replicate 100 98)] EncFull
     (environment\<lparr>he_base := replicate 16 7\<rparr>) [] idle_server = None"
proof (rule full_url_overflows)
  have "url_text (replicate n 97) = replicate n 97" "url_text (replicate n 98) = replicate n 98" for n
    by (induction n) (simp_all add: url_text_def url_enc_def url_plain_def c_isalnum_def)
  then show "length (query_text [(replicate 43 97, replicate 100 98)]) = 144" by (simp add: query_pair_def)
qed (simp_all add: plain_lib_laws cipher_works_def)

end
