(* ===== verification/Web_Lock.thy ===== *)
theory Web_Lock
  imports Main
begin

text \<open>
  The lock of coroutines, \<^verbatim>\<open>src/90s/util/aiolock.hpp\<close>.  A caller gets a promise, here a number, which is
  resolved when it holds the lock; the lock only keeps weak references to the promises that wait, so one
  that is gone is skipped over when its turn comes.
\<close>

section \<open>The code\<close>

record aiolock =
  al_waiters :: "nat list"
  al_sem :: int
  al_gone :: "nat list"
  al_granted :: "nat list"
  al_refused :: "nat list"

definition aiolock :: aiolock where
  "aiolock = \<lparr>al_waiters = [], al_sem = 1, al_gone = [], al_granted = [], al_refused = []\<rparr>"

definition is_locked :: "aiolock \<Rightarrow> bool" where
  "is_locked l \<longleftrightarrow> al_sem l = 0"

text \<open>\<open>if(auto p = first.lock()) aiopromise(p).resolve(true)\<close>.\<close>

definition resolve_first :: "nat \<Rightarrow> aiolock \<Rightarrow> aiolock" where
  "resolve_first p l = (if p \<in> set (al_gone l) then l else l\<lparr>al_granted := al_granted l @ [p]\<rparr>)"

definition lock :: "nat \<Rightarrow> aiolock \<Rightarrow> aiolock" where
  "lock p l =
     (if al_sem l = 1 \<and> al_waiters l = [] then l\<lparr>al_sem := 0, al_granted := al_granted l @ [p]\<rparr>
      else if al_sem l = 1 then
        resolve_first (hd (al_waiters l)) (l\<lparr>al_sem := 0, al_waiters := tl (al_waiters l) @ [p]\<rparr>)
      else l\<lparr>al_waiters := al_waiters l @ [p]\<rparr>)"

definition unlock :: "aiolock \<Rightarrow> aiolock" where
  "unlock l =
     (if al_waiters l \<noteq> [] then
        resolve_first (hd (al_waiters l)) (l\<lparr>al_sem := 0, al_waiters := tl (al_waiters l)\<rparr>)
      else l\<lparr>al_sem := 1\<rparr>)"

text \<open>The destructor resolves with false.\<close>

definition destroy_lock :: "aiolock \<Rightarrow> aiolock" where
  "destroy_lock l =
     l\<lparr>al_refused := al_refused l @ filter (\<lambda>p. p \<notin> set (al_gone l)) (al_waiters l), al_waiters := []\<rparr>"

section \<open>Runs\<close>

text \<open>
  What happens to a lock: a call of \<open>lock\<close> with a new promise, a call of \<open>unlock\<close> by a holder, the end of
  a promise.  Only who holds the lock unlocks it: the number of unlocks is below that of the grants.
\<close>

datatype lock_event = LLock nat | LUnlock | LGone nat

definition lock_step :: "lock_event \<Rightarrow> aiolock \<Rightarrow> aiolock" where
  "lock_step ev l =
     (case ev of LLock p \<Rightarrow> lock p l | LUnlock \<Rightarrow> unlock l | LGone p \<Rightarrow> l\<lparr>al_gone := p # al_gone l\<rparr>)"

definition unlocks :: "lock_event list \<Rightarrow> nat" where
  "unlocks evs = length (filter (\<lambda>ev. ev = LUnlock) evs)"

definition requests :: "lock_event list \<Rightarrow> nat list" where
  "requests evs = concat (map (\<lambda>ev. case ev of LLock p \<Rightarrow> [p] | _ \<Rightarrow> []) evs)"

inductive lock_run :: "lock_event list \<Rightarrow> aiolock \<Rightarrow> bool" where
  start: "lock_run [] aiolock"
| step: "lock_run evs l \<Longrightarrow> ev = LUnlock \<longrightarrow> unlocks evs < length (al_granted l) \<Longrightarrow>
    lock_run (evs @ [ev]) (lock_step ev l)"

code_pred lock_run .

inductive_cases lock_run_snoc: "lock_run (evs @ [ev]) l"

lemma unlocks_simps [simp]: "unlocks [] = 0" "unlocks (evs @ [ev]) = unlocks evs + (if ev = LUnlock then 1 else 0)"
  by (simp_all add: unlocks_def)

lemma requests_simps [simp]:
  "requests [] = []" "requests (evs @ [ev]) = requests evs @ (case ev of LLock p \<Rightarrow> [p] | _ \<Rightarrow> [])"
  by (simp_all add: requests_def)

text \<open>As long as no promise that waits is gone, the lock is free exactly when nobody holds it.\<close>

definition lock_ok :: "lock_event list \<Rightarrow> aiolock \<Rightarrow> bool" where
  "lock_ok evs l \<longleftrightarrow>
     requests evs = al_granted l @ al_waiters l \<and>
     (al_sem l = 1 \<and> al_waiters l = [] \<and> length (al_granted l) = unlocks evs \<or>
      al_sem l = 0 \<and> length (al_granted l) = unlocks evs + 1)"

lemma lock_run_ok:
  "lock_run evs l \<Longrightarrow> list_all (\<lambda>ev. case ev of LGone _ \<Rightarrow> False | _ \<Rightarrow> True) evs \<Longrightarrow> al_gone l = [] \<and> lock_ok evs l"
proof (induction rule: lock_run.induct)
  case start
  then show ?case by (simp add: lock_ok_def aiolock_def)
next
  case (step evs l ev)
  then have ok: "al_gone l = []" "lock_ok evs l" by auto
  show ?case
  proof (cases ev)
    case (LLock p)
    then show ?thesis using ok by (auto simp: lock_step_def lock_def lock_ok_def)
  next
    case LUnlock
    then show ?thesis
      using ok step.hyps(2) by (cases "al_waiters l") (auto simp: lock_step_def unlock_def resolve_first_def lock_ok_def)
  next
    case (LGone p)
    then show ?thesis using step.prems by simp
  qed
qed

text \<open>
  C25. The lock is granted in the order of the requests, to one caller at a time, and while someone waits
  someone holds it.
\<close>

theorem lock_fair:
  assumes "lock_run evs l" and "list_all (\<lambda>ev. case ev of LGone _ \<Rightarrow> False | _ \<Rightarrow> True) evs"
  shows "requests evs = al_granted l @ al_waiters l \<and> length (al_granted l) \<le> unlocks evs + 1 \<and>
    (is_locked l \<longleftrightarrow> length (al_granted l) = unlocks evs + 1) \<and> (al_waiters l = [] \<or> is_locked l)"
  using lock_run_ok [OF assms] by (auto simp: lock_ok_def is_locked_def)

theorem lock_fair_witness:
  "requests [LLock 1, LLock 2, LUnlock] = al_granted (fold lock_step [LLock 1, LLock 2, LUnlock] aiolock) @
      al_waiters (fold lock_step [LLock 1, LLock 2, LUnlock] aiolock) \<and>
   length (al_granted (fold lock_step [LLock 1, LLock 2, LUnlock] aiolock)) \<le> unlocks [LLock 1, LLock 2, LUnlock] + 1 \<and>
   (is_locked (fold lock_step [LLock 1, LLock 2, LUnlock] aiolock) \<longleftrightarrow>
     length (al_granted (fold lock_step [LLock 1, LLock 2, LUnlock] aiolock)) = unlocks [LLock 1, LLock 2, LUnlock] + 1) \<and>
   (al_waiters (fold lock_step [LLock 1, LLock 2, LUnlock] aiolock) = [] \<or>
     is_locked (fold lock_step [LLock 1, LLock 2, LUnlock] aiolock))"
proof (rule lock_fair)
  have "lock_run [LLock 1] (lock_step (LLock 1) aiolock)" using lock_run.step [OF lock_run.start, of "LLock 1"] by simp
  from lock_run.step [OF this, of "LLock 2"]
  have "lock_run [LLock 1, LLock 2] (lock_step (LLock 2) (lock_step (LLock 1) aiolock))" by simp
  from lock_run.step [OF this, of LUnlock]
  show "lock_run [LLock 1, LLock 2, LUnlock] (fold lock_step [LLock 1, LLock 2, LUnlock] aiolock)"
    by (simp add: unlocks_def lock_step_def lock_def aiolock_def)
qed simp

section \<open>A promise that is gone\<close>

text \<open>Nobody holds the lock, and it is not free.\<close>

definition lock_lost :: "lock_event list \<Rightarrow> aiolock \<Rightarrow> bool" where
  "lock_lost evs l \<longleftrightarrow> al_sem l = 0 \<and> length (al_granted l) = unlocks evs"

lemma lost_step:
  "lock_lost evs l \<Longrightarrow> ev \<noteq> LUnlock \<Longrightarrow> lock_lost (evs @ [ev]) (lock_step ev l) \<and> al_granted (lock_step ev l) = al_granted l"
  by (cases ev) (auto simp: lock_lost_def lock_step_def lock_def)

text \<open>
  C37. When the first promise that waits is gone, unlocking gives the lock to nobody: from then on no request
  is ever granted.
\<close>

theorem gone_waiter_loses_lock:
  assumes "lock_run evs l" and "al_waiters l = p # ps" and "p \<in> set (al_gone l)" and "length (al_granted l) = unlocks evs + 1"
    and "lock_run (evs @ LUnlock # later) l'"
  shows "al_granted l' = al_granted l \<and> is_locked l'"
proof -
  have same: "lock_run evs a \<Longrightarrow> lock_run evs b \<Longrightarrow> a = b" for evs a b
  proof (induction evs arbitrary: a b rule: rev_induct)
    case Nil
    then show ?case by (auto elim: lock_run.cases)
  next
    case (snoc ev evs)
    from snoc.prems(1) obtain a0 where a: "lock_run evs a0" "a = lock_step ev a0" by (auto elim: lock_run.cases)
    from snoc.prems(2) obtain b0 where b: "lock_run evs b0" "b = lock_step ev b0" by (auto elim: lock_run.cases)
    show ?case using snoc.IH [OF a(1) b(1)] a(2) b(2) by simp
  qed
  have "lock_lost (evs @ LUnlock # later) l' \<and> al_granted l' = al_granted l" using assms(5)
  proof (induction later arbitrary: l' rule: rev_induct)
    case Nil
    then obtain l0 where l0: "lock_run evs l0" "l' = lock_step LUnlock l0" by (auto elim: lock_run.cases)
    have "l0 = l" by (rule same [OF l0(1) assms(1)])
    then show ?case using l0(2) assms(2,3,4) by (simp add: lock_lost_def lock_step_def unlock_def resolve_first_def)
  next
    case (snoc ev later)
    have "lock_run ((evs @ LUnlock # later) @ [ev]) l'" using snoc.prems by simp
    then obtain l0 where l0: "lock_run (evs @ LUnlock # later) l0" "l' = lock_step ev l0"
        "ev = LUnlock \<longrightarrow> unlocks (evs @ LUnlock # later) < length (al_granted l0)"
      by (auto elim: lock_run.cases)
    note lost = snoc.IH [OF l0(1)]
    have "ev \<noteq> LUnlock" using l0(3) lost by (auto simp: lock_lost_def)
    then show ?case using lost_step [of "evs @ LUnlock # later" l0 ev] lost l0(2) by simp
  qed
  then show ?thesis by (simp add: lock_lost_def is_locked_def)
qed

lemma lock_run_fold: "lock_run evs (fold lock_step evs aiolock) \<Longrightarrow>
    ev = LUnlock \<longrightarrow> unlocks evs < length (al_granted (fold lock_step evs aiolock)) \<Longrightarrow>
    lock_run (evs @ [ev]) (fold lock_step (evs @ [ev]) aiolock)"
  using lock_run.step by simp

theorem gone_waiter_loses_lock_witness:
  "al_granted (fold lock_step [LLock 1, LLock 2, LGone 2, LUnlock, LLock 3] aiolock) = al_granted (fold lock_step [LLock 1, LLock 2, LGone 2] aiolock) \<and>
   is_locked (fold lock_step [LLock 1, LLock 2, LGone 2, LUnlock, LLock 3] aiolock)"
proof -
  have one: "lock_run [LLock 1] (fold lock_step [LLock 1] aiolock)"
    using lock_run.step [OF lock_run.start, of "LLock 1"] by simp
  have two: "lock_run [LLock 1, LLock 2, LGone 2] (fold lock_step [LLock 1, LLock 2, LGone 2] aiolock)"
    using lock_run_fold [OF lock_run_fold [of "[LLock 1]" "LLock 2"], of "LGone 2"] one by simp
  have three: "lock_run ([LLock 1, LLock 2, LGone 2] @ LUnlock # [LLock 3]) (fold lock_step [LLock 1, LLock 2, LGone 2, LUnlock, LLock 3] aiolock)"
    using lock_run_fold [OF lock_run_fold [of "[LLock 1, LLock 2, LGone 2]" LUnlock], of "LLock 3"] two
    by (simp add: unlocks_def lock_step_def lock_def aiolock_def)
  have state: "al_waiters (fold lock_step [LLock 1, LLock 2, LGone 2] aiolock) = [2]"
      "2 \<in> set (al_gone (fold lock_step [LLock 1, LLock 2, LGone 2] aiolock))"
      "length (al_granted (fold lock_step [LLock 1, LLock 2, LGone 2] aiolock)) = unlocks [LLock 1, LLock 2, LGone 2] + 1"
    by (simp_all add: unlocks_def lock_step_def lock_def aiolock_def)
  show ?thesis by (rule gone_waiter_loses_lock [OF two state three])
qed

end
