(* ===== verification/Sql_Wire.thy ===== *)
theory Sql_Wire
  imports Web_Stream
begin

text \<open>
  The wire format of MySQL, \<^verbatim>\<open>src/90s/sql/mysql_util.cpp\<close>.  The decoder reads a view by a pivot; a read
  behind the view, which the code does not always exclude, is \<open>None\<close>, and so is a C++ exception.
\<close>

section \<open>Encoding\<close>

definition encode_le32 :: "32 word \<Rightarrow> byte list" where
  "encode_le32 num = map (\<lambda>i. ucast (drop_bit (8 * i) num AND 255)) [0..<4]"

definition encode_le24 :: "32 word \<Rightarrow> byte list" where
  "encode_le24 num = map (\<lambda>i. ucast (drop_bit (8 * i) num AND 255)) [0..<3]"

definition encode_varstr :: "byte list \<Rightarrow> byte list" where
  "encode_varstr str = word_of_nat (length str) # str"

section \<open>The decoder\<close>

record mysql_decoder =
  md_view :: "byte list"
  md_pivot :: nat

definition mysql_decoder :: "byte list \<Rightarrow> mysql_decoder" where
  "mysql_decoder view = \<lparr>md_view = view, md_pivot = 0\<rparr>"

definition md_reset :: "byte list \<Rightarrow> mysql_decoder \<Rightarrow> mysql_decoder" where
  "md_reset view d = d\<lparr>md_view := view, md_pivot := 0\<rparr>"

text \<open>\<open>view.length() - pivot\<close> in \<open>size_t\<close>, and the bytes from the pivot on.\<close>

definition md_length :: "mysql_decoder \<Rightarrow> nat" where
  "md_length d = sz (length (md_view d) + (2 ^ 64 - md_pivot d))"

definition md_bytes :: "mysql_decoder \<Rightarrow> nat \<Rightarrow> nat \<Rightarrow> byte list option" where
  "md_bytes d k n =
     (if md_pivot d + k + n \<le> length (md_view d) then Some (take n (drop (md_pivot d + k) (md_view d))) else None)"

definition md_move :: "nat \<Rightarrow> mysql_decoder \<Rightarrow> mysql_decoder" where
  "md_move n d = d\<lparr>md_pivot := sz (md_pivot d + n)\<rparr>"

text \<open>
  Bytes are put together in \<open>int\<close>, so the fourth one brings a sign, which the conversion to 64 bits
  spreads over the upper half.
\<close>

definition le_int :: "byte list \<Rightarrow> 32 word" where
  "le_int bs = foldr (\<lambda>b n. ucast b OR push_bit 8 n) bs 0"

definition md_int :: "nat \<Rightarrow> mysql_decoder \<Rightarrow> (64 word \<times> mysql_decoder) option" where
  "md_int n d =
     (if md_length d < n then Some (- 1, d)
      else map_option (\<lambda>bs. (scast (le_int bs), md_move n d)) (md_bytes d 0 n))"

definition int8 :: "mysql_decoder \<Rightarrow> (64 word \<times> mysql_decoder) option" where
  "int8 d =
     (if md_length d < 8 then Some (- 1, d)
      else
        Option.bind (md_bytes d 0 4) (\<lambda>low.
        map_option (\<lambda>high. (scast (le_int low) OR push_bit 32 (scast (le_int high)), md_move 8 d)) (md_bytes d 4 4)))"

abbreviation (input) int1 where "int1 \<equiv> md_int 1"

abbreviation (input) int2 where "int2 \<equiv> md_int 2"

abbreviation (input) int3 where "int3 \<equiv> md_int 3"

abbreviation (input) int4 where "int4 \<equiv> md_int 4"

definition lenint :: "mysql_decoder \<Rightarrow> (64 word \<times> mysql_decoder) option" where
  "lenint d =
     (let len = md_length d in
      if len = 0 then Some (- 1, d)
      else
        Option.bind (md_bytes d 0 1) (\<lambda>b.
          let first = unat (hd b); d1 = md_move 1 d in
          if first = 251 then Some (- 1, d1)
          else if 252 \<le> first then
            (if first = 252 \<and> 3 \<le> len then
               map_option (\<lambda>bs. (scast (le_int bs), md_move 2 d1)) (md_bytes d1 0 2)
             else if first = 253 \<and> 4 \<le> len then
               map_option (\<lambda>bs. (scast (le_int bs), md_move 3 d1)) (md_bytes d1 0 3)
             else if first = 254 \<and> 9 \<le> len then
               Option.bind (md_bytes d1 0 4) (\<lambda>low.
               map_option (\<lambda>high. (scast (le_int low) OR push_bit 32 (scast (le_int high)), md_move 8 d1)) (md_bytes d1 4 4))
             else Some (0, d1))
          else Some (word_of_nat first, d1)))"

text \<open>\<open>substr\<close> throws when the pivot is behind the view.\<close>

definition var_string :: "mysql_decoder \<Rightarrow> (byte list \<times> mysql_decoder) option" where
  "var_string d =
     Option.bind (lenint d) (\<lambda>(len, d1).
       if len = - 1 then Some ([], d1)
       else if length (md_view d1) < md_pivot d1 then None
       else Some (take (unat len) (drop (md_pivot d1) (md_view d1)), md_move (unat len) d1))"

record mysql_field =
  mf_catalog :: "byte list"
  mf_schema :: "byte list"
  mf_table :: "byte list"
  mf_org_table :: "byte list"
  mf_name :: "byte list"
  mf_org_name :: "byte list"
  mf_character_set :: "64 word"
  mf_column_length :: "64 word"
  mf_type :: "64 word"
  mf_flags :: "64 word"
  mf_decimals :: "64 word"

definition decode_field :: "mysql_decoder \<Rightarrow> (mysql_field \<times> mysql_decoder) option" where
  "decode_field d0 =
     Option.bind (var_string d0) (\<lambda>(catalog, d1).
     Option.bind (var_string d1) (\<lambda>(schema, d2).
     Option.bind (var_string d2) (\<lambda>(table, d3).
     Option.bind (var_string d3) (\<lambda>(org_table, d4).
     Option.bind (var_string d4) (\<lambda>(name, d5).
     Option.bind (var_string d5) (\<lambda>(org_name, d6).
     Option.bind (int2 d6) (\<lambda>(character_set, d7).
     Option.bind (int4 d7) (\<lambda>(column_length, d8).
     Option.bind (int1 d8) (\<lambda>(ty, d9).
     Option.bind (int2 d9) (\<lambda>(flags, d10).
     Option.bind (int1 d10) (\<lambda>(decimals, d11).
       Some (\<lparr>mf_catalog = catalog, mf_schema = schema, mf_table = table, mf_org_table = org_table, mf_name = name,
         mf_org_name = org_name, mf_character_set = character_set, mf_column_length = column_length, mf_type = ty,
         mf_flags = flags, mf_decimals = decimals\<rparr>, d11))))))))))))"

section \<open>Results\<close>

type_synonym sql_row = "byte list \<rightharpoonup> byte list"

record sql_result =
  sr_error :: bool
  sr_has_rows :: bool
  sr_rows :: "sql_row list option"
  sr_last_insert_id :: int
  sr_eof :: bool
  sr_affected_rows :: int
  sr_front :: nat
  sr_back :: nat
  sr_flags :: nat
  sr_info :: "byte list"
  sr_message :: "byte list"

definition sql_result :: sql_result where
  "sql_result = \<lparr>sr_error = False, sr_has_rows = False, sr_rows = None, sr_last_insert_id = 0, sr_eof = False,
     sr_affected_rows = 0, sr_front = 0, sr_back = 0, sr_flags = 0, sr_info = [], sr_message = []\<rparr>"

definition with_error :: "byte list \<Rightarrow> sql_result" where
  "with_error err = sql_result\<lparr>sr_message := err, sr_error := True, sr_has_rows := False\<rparr>"

definition with_rows :: "sql_row list option \<Rightarrow> sql_result" where
  "with_rows rows = sql_result\<lparr>sr_has_rows := True, sr_rows := rows\<rparr>"

text \<open>\<open>explicit operator bool\<close>, \<open>size\<close> and \<open>slice\<close>; the sizes are \<open>size_t\<close>, the length has a sign.\<close>

definition sr_ok :: "sql_result \<Rightarrow> bool" where
  "sr_ok r \<longleftrightarrow> \<not> sr_error r \<and> (\<not> sr_has_rows r \<or> sr_rows r \<noteq> None)"

definition sr_size :: "sql_result \<Rightarrow> nat" where
  "sr_size r =
     (case sr_rows r of
        None \<Rightarrow> 0
      | Some rows \<Rightarrow> if sr_error r then 0 else sz (length rows + (2 ^ 64 - sr_front r) + (2 ^ 64 - sr_back r)))"

definition sr_view :: "sql_result \<Rightarrow> sql_row list" where
  "sr_view r = (case sr_rows r of None \<Rightarrow> [] | Some rows \<Rightarrow> take (length rows - sr_front r - sr_back r) (drop (sr_front r) rows))"

definition sr_slice :: "nat \<Rightarrow> int \<Rightarrow> sql_result \<Rightarrow> sql_result option" where
  "sr_slice from_incl len r =
     (if sr_error r then Some (with_error (sr_message r))
      else
        (case sr_rows r of
           None \<Rightarrow> None
         | Some rows \<Rightarrow>
             (let front = sz (sr_front r + from_incl);
                  len1 = (if len \<le> 0 then sint (word_of_int (int (sr_size r) + len) :: 64 word) else len);
                  sum = nat ((len1 + int from_incl) mod 2 ^ 64);
                  len2 = (if sr_size r < sum then sint (word_of_int (int (sr_size r) - int from_incl) :: 64 word) else len1) in
              Some (sql_result\<lparr>sr_front := front, sr_back := nat ((int (length rows) - (int front + len2)) mod 2 ^ 64),
                sr_has_rows := True, sr_rows := Some rows\<rparr>))))"

text \<open>
  Affected rows and the last id are \<open>int\<close>.  \<open>decode_status\<close> does not look for missing parts: what cannot
  be read is \<open>-1\<close>.
\<close>

definition int_of :: "64 word \<Rightarrow> int" where
  "int_of w = sint (ucast w :: 32 word)"

definition decode_status :: "mysql_decoder \<Rightarrow> sql_result option" where
  "decode_status d0 =
     Option.bind (int1 d0) (\<lambda>(ty, d1).
       if ty = 255 then
         Some (sql_result\<lparr>sr_error := True, sr_message :=
           (if 10 \<le> length (md_view d1) then drop 9 (md_view d1) else cstr ''unknown error'')\<rparr>)
       else if ty = 254 then Some (sql_result\<lparr>sr_eof := True\<rparr>)
       else
         Option.bind (lenint d1) (\<lambda>(affected, d2).
         Option.bind (lenint d2) (\<lambda>(last, d3).
         Option.bind (int4 d3) (\<lambda>(_, d4).
           if length (md_view d4) < md_pivot d4 then None
           else Some (sql_result\<lparr>sr_affected_rows := int_of affected, sr_last_insert_id := int_of last,
             sr_info := drop (md_pivot d4) (md_view d4)\<rparr>)))))"

section \<open>The login\<close>

definition native_password_hash :: "crypto_lib \<Rightarrow> (nat \<Rightarrow> byte) \<Rightarrow> byte list \<Rightarrow> byte list \<Rightarrow> byte list option" where
  "native_password_hash lib stk password scramble =
     Option.bind (util_sha1 lib stk password) (\<lambda>shPwd.
     Option.bind (util_sha1 lib stk shPwd) (\<lambda>dshPwd.
     Option.bind (util_sha1 lib stk (scramble @ dshPwd)) (\<lambda>shJoin.
       if length shPwd < 20 \<or> length shJoin < 20 then None
       else Some (map2 (XOR) (take 20 shPwd) (take 20 shJoin) @ drop 20 shPwd))))"

text \<open>\<open>rest.substr(pos, n)\<close>.\<close>

definition view_substr :: "byte list \<Rightarrow> nat \<Rightarrow> nat \<Rightarrow> byte list option" where
  "view_substr v pos n = (if pos \<le> length v then Some (take n (drop pos v)) else None)"

definition decode_handshake_packet :: "byte list \<Rightarrow> (byte list \<times> byte list) option" where
  "decode_handshake_packet packet =
     (let rest = (case view_find 0 packet of None \<Rightarrow> packet | Some pivot \<Rightarrow> drop (pivot + 1) packet) in
      Option.bind (view_substr rest 4 8) (\<lambda>scramble1.
      Option.bind (view_at rest 20) (\<lambda>len.
        let off = nat (31 + max 13 (sint len - 8)) in
        Option.bind (view_substr rest 31 (off - 32)) (\<lambda>scramble2.
        Option.bind (view_substr rest off (sz (length rest + (2 ^ 64 - off) + (2 ^ 64 - 1)))) (\<lambda>meth.
          Some (meth, scramble1 @ scramble2))))))"

section \<open>Numbers of variable length\<close>

text \<open>The bytes of a number, the least significant first, and the encoding of the protocol.\<close>

definition le_bytes :: "nat \<Rightarrow> 64 word \<Rightarrow> byte list" where
  "le_bytes k w = map (\<lambda>i. ucast (drop_bit (8 * i) w)) [0..<k]"

definition lenc :: "nat \<Rightarrow> byte list" where
  "lenc n =
     (if n < 251 then [word_of_nat n]
      else if n < 2 ^ 16 then 252 # le_bytes 2 (word_of_nat n)
      else if n < 2 ^ 24 then 253 # le_bytes 3 (word_of_nat n)
      else 254 # le_bytes 8 (word_of_nat n))"

definition spread :: "64 word \<Rightarrow> 64 word" where
  "spread w = (if bit w 31 then w OR push_bit 32 (- 1) else w)"

lemma le_bytes_length [simp]: "length (le_bytes k w) = k"
  by (simp add: le_bytes_def)

lemma le_bytes_simps:
  "le_bytes 2 w = [ucast w, ucast (drop_bit 8 w)]"
  "le_bytes 3 w = [ucast w, ucast (drop_bit 8 w), ucast (drop_bit 16 w)]"
  "le_bytes 4 w = [ucast w, ucast (drop_bit 8 w), ucast (drop_bit 16 w), ucast (drop_bit 24 w)]"
  by (simp_all add: le_bytes_def upt_rec)

lemma le_int_bytes:
  "le_int (le_bytes 2 w) = ucast (take_bit 16 w)" "le_int (le_bytes 3 w) = ucast (take_bit 24 w)" "le_int (le_bytes 4 w) = ucast w"
proof -
  show "le_int (le_bytes 2 w) = ucast (take_bit 16 w)"
  proof (rule bit_word_eqI)
    fix i assume "i < LENGTH(32)"
    consider "i < 8" | "8 \<le> i" "i < 16" | "16 \<le> i" by linarith
    then show "bit (le_int (le_bytes 2 w)) i = bit (ucast (take_bit 16 w) :: 32 word) i"
      using \<open>i < LENGTH(32)\<close> by cases (auto simp: le_int_def le_bytes_simps bit_simps)
  qed
  show "le_int (le_bytes 3 w) = ucast (take_bit 24 w)"
  proof (rule bit_word_eqI)
    fix i assume "i < LENGTH(32)"
    consider "i < 8" | "8 \<le> i" "i < 16" | "16 \<le> i" "i < 24" | "24 \<le> i" by linarith
    then show "bit (le_int (le_bytes 3 w)) i = bit (ucast (take_bit 24 w) :: 32 word) i"
      using \<open>i < LENGTH(32)\<close> by cases (auto simp: le_int_def le_bytes_simps bit_simps)
  qed
  show "le_int (le_bytes 4 w) = ucast w"
  proof (rule bit_word_eqI)
    fix i assume "i < LENGTH(32)"
    consider "i < 8" | "8 \<le> i" "i < 16" | "16 \<le> i" "i < 24" | "24 \<le> i" by linarith
    then show "bit (le_int (le_bytes 4 w)) i = bit (ucast w :: 32 word) i"
      using \<open>i < LENGTH(32)\<close> by cases (auto simp: le_int_def le_bytes_simps bit_simps)
  qed
qed

lemma scast_small: "n < 2 ^ 31 \<Longrightarrow> scast (word_of_nat n :: 32 word) = (word_of_nat n :: 64 word)"
proof -
  assume n: "n < 2 ^ 31"
  have "sint (word_of_nat n :: 32 word) = int n" using n sint_word_of_int [of "int n"] by (simp add: c_int_def)
  then show ?thesis by (simp add: scast_eq)
qed

lemma eight_bytes:
  "scast (le_int (le_bytes 4 w)) OR push_bit 32 (scast (le_int (drop 4 (le_bytes 8 w)))) = spread w"
proof -
  have high: "drop 4 (le_bytes 8 w) = le_bytes 4 (drop_bit 32 w)"
    by (simp add: le_bytes_def upt_rec)
  show ?thesis
  proof (rule bit_word_eqI)
    fix i assume "i < LENGTH(64)"
    consider "i < 31" | "i = 31" | "32 \<le> i" "i < 63" | "i = 63" using \<open>i < LENGTH(64)\<close> by fastforce
    then show "bit (scast (le_int (le_bytes 4 w)) OR push_bit 32 (scast (le_int (drop 4 (le_bytes 8 w)))) :: 64 word) i = bit (spread w) i"
      using \<open>i < LENGTH(64)\<close> unfolding high le_int_bytes
      by cases (auto simp: spread_def bit_simps min_def)
  qed
qed

text \<open>What the decoder makes of a number: from 32 bits on it is spoiled when bit 31 is set.\<close>

definition decoded_number :: "nat \<Rightarrow> 64 word" where
  "decoded_number n = (if n < 2 ^ 24 then word_of_nat n else spread (word_of_nat n))"

definition at_text :: "mysql_decoder \<Rightarrow> byte list \<Rightarrow> bool" where
  "at_text d bs \<longleftrightarrow> md_pivot d \<le> length (md_view d) \<and> length (md_view d) < 2 ^ 63 \<and> drop (md_pivot d) (md_view d) = bs"

lemma at_text_length: "at_text d bs \<Longrightarrow> md_length d = length bs"
proof -
  assume at: "at_text d bs"
  have "length (md_view d) + (2 ^ 64 - md_pivot d) = (length (md_view d) - md_pivot d) + 2 ^ 64" using at by (simp add: at_text_def)
  then have "md_length d = (length (md_view d) - md_pivot d) mod 2 ^ 64" unfolding md_length_def sz_def by (simp only: mod_add_self2)
  moreover have "length (md_view d) < 2 ^ 64" using at by (simp add: at_text_def)
  then have "length (md_view d) - md_pivot d < 2 ^ 64" by (rule less_imp_diff_less)
  ultimately have "md_length d = length (md_view d) - md_pivot d" by simp
  then show ?thesis using at by (auto simp: at_text_def)
qed

lemma at_text_bytes: "at_text d bs \<Longrightarrow> k + n \<le> length bs \<Longrightarrow> md_bytes d k n = Some (take n (drop k bs))"
  by (auto simp: at_text_def md_bytes_def add.commute)

lemma at_text_move: "at_text d bs \<Longrightarrow> n \<le> length bs \<Longrightarrow> at_text (md_move n d) (drop n bs)"
proof -
  assume at: "at_text d bs" and n: "n \<le> length bs"
  have "md_pivot d + n \<le> length (md_view d)" using at n by (auto simp: at_text_def)
  moreover from this have "sz (md_pivot d + n) = md_pivot d + n" using at by (simp add: at_text_def)
  ultimately show ?thesis using at by (auto simp: at_text_def md_move_def add.commute)
qed

lemma md_int_text:
  assumes "at_text d (bs @ rest)" and "length bs = n"
  shows "md_int n d = Some (scast (le_int bs), md_move n d) \<and> at_text (md_move n d) rest"
  using assms at_text_length [OF assms(1)] at_text_bytes [OF assms(1), of 0 n] at_text_move [OF assms(1), of n]
  by (simp add: md_int_def)

lemma lenint_text:
  assumes "at_text d (lenc n @ rest)" and "n < 2 ^ 64"
  shows "\<exists>d1. lenint d = Some (decoded_number n, d1) \<and> at_text d1 rest \<and> md_view d1 = md_view d"
proof -
  note len = at_text_length [OF assms(1)]
  have one: "md_bytes d 0 1 = Some [hd (lenc n)]"
    using at_text_bytes [OF assms(1), of 0 1] by (cases "lenc n") (auto simp: lenc_def split: if_splits)
  have d1: "at_text (md_move 1 d) (tl (lenc n) @ rest)"
    using at_text_move [OF assms(1), of 1] by (cases "lenc n") (auto simp: lenc_def split: if_splits)
  have small: "k < 2 ^ 8 \<Longrightarrow> unat (word_of_nat k :: byte) = k" for k :: nat by (simp add: unat_of_nat)
  consider "n < 251" | "251 \<le> n" "n < 2 ^ 16" | "2 ^ 16 \<le> n" "n < 2 ^ 24" | "2 ^ 24 \<le> n" by linarith
  then show ?thesis
  proof cases
    case 1
    then have "lenint d = Some (decoded_number n, md_move 1 d)"
      using len one small [of n] by (simp add: lenint_def lenc_def decoded_number_def Let_def)
    then show ?thesis using d1 1 by (simp add: lenc_def md_move_def)
  next
    case 2
    have "md_bytes (md_move 1 d) 0 2 = Some (le_bytes 2 (word_of_nat n))" "at_text (md_move 2 (md_move 1 d)) rest"
      using at_text_bytes [OF d1, of 0 2] at_text_move [OF d1, of 2] 2 by (simp_all add: lenc_def)
    moreover have "scast (le_int (le_bytes 2 (word_of_nat n))) = decoded_number n"
    proof -
      have "take_bit 16 n = n" using 2 by (simp add: take_bit_nat_eq_self)
      then have "take_bit 16 (word_of_nat n :: 64 word) = word_of_nat n" by (metis take_bit_of_nat)
      moreover have "take_bit 64 n = n" using 2 by (simp add: take_bit_nat_eq_self)
      ultimately show ?thesis using 2 scast_small [of n] by (simp add: le_int_bytes decoded_number_def unsigned_of_nat)
    qed
    ultimately show ?thesis using len one 2 by (simp add: lenint_def lenc_def Let_def md_move_def)
  next
    case 3
    have "md_bytes (md_move 1 d) 0 3 = Some (le_bytes 3 (word_of_nat n))" "at_text (md_move 3 (md_move 1 d)) rest"
      using at_text_bytes [OF d1, of 0 3] at_text_move [OF d1, of 3] 3 by (simp_all add: lenc_def)
    moreover have "scast (le_int (le_bytes 3 (word_of_nat n))) = decoded_number n"
    proof -
      have "take_bit 24 n = n" using 3 by (simp add: take_bit_nat_eq_self)
      then have "take_bit 24 (word_of_nat n :: 64 word) = word_of_nat n" by (metis take_bit_of_nat)
      moreover have "take_bit 64 n = n" using 3 by (simp add: take_bit_nat_eq_self)
      ultimately show ?thesis using 3 scast_small [of n] by (simp add: le_int_bytes decoded_number_def unsigned_of_nat)
    qed
    ultimately show ?thesis using len one 3 by (simp add: lenint_def lenc_def Let_def md_move_def)
  next
    case 4
    let ?w = "word_of_nat n :: 64 word"
    have eight: "le_bytes 8 ?w = le_bytes 4 ?w @ drop 4 (le_bytes 8 ?w)" by (simp add: le_bytes_def upt_rec)
    have "md_bytes (md_move 1 d) 0 4 = Some (le_bytes 4 ?w)" "md_bytes (md_move 1 d) 4 4 = Some (drop 4 (le_bytes 8 ?w))"
        "at_text (md_move 8 (md_move 1 d)) rest"
      using at_text_bytes [OF d1, of 0 4] at_text_bytes [OF d1, of 4 4] at_text_move [OF d1, of 8] 4 arg_cong [OF eight, of "take 4"]
      by (simp_all add: lenc_def)
    then show ?thesis using len one 4 eight_bytes [of ?w] by (simp add: lenint_def lenc_def decoded_number_def Let_def md_move_def)
  qed
qed

text \<open>
  C27. Every number of up to 64 bits that the server sends is read back, but for those of at least
  \<open>2 ^ 31\<close> with bit 31 set, whose upper half becomes all ones.
\<close>

theorem lenint_reads:
  assumes "n < 2 ^ 64" and "length (lenc n @ rest) < 2 ^ 63"
  shows "map_option (\<lambda>r. (fst r, drop (md_pivot (snd r)) (md_view (snd r)))) (lenint (mysql_decoder (lenc n @ rest))) =
    Some (if 2 ^ 31 \<le> n \<and> odd (n div 2 ^ 31) then word_of_nat n OR push_bit 32 (- 1) else word_of_nat n, rest)"
proof -
  have "at_text (mysql_decoder (lenc n @ rest)) (lenc n @ rest)" using assms(2) by (simp add: at_text_def mysql_decoder_def)
  from lenint_text [OF this assms(1)] obtain d1 where
    d1: "lenint (mysql_decoder (lenc n @ rest)) = Some (decoded_number n, d1)" "at_text d1 rest" by blast
  have "bit (word_of_nat n :: 64 word) 31 \<longleftrightarrow> bit n 31" by (simp add: bit_simps)
  then have bit: "bit (word_of_nat n :: 64 word) 31 \<longleftrightarrow> odd (n div 2 ^ 31)" by (simp only: bit_iff_odd)
  have "n < 2 ^ 31 \<Longrightarrow> even (n div 2 ^ 31)" by simp
  then have "decoded_number n = (if 2 ^ 31 \<le> n \<and> odd (n div 2 ^ 31) then word_of_nat n OR push_bit 32 (- 1) else word_of_nat n)"
    using bit by (auto simp: decoded_number_def spread_def)
  then show ?thesis using d1 by (simp add: at_text_def)
qed

theorem lenint_reads_witness:
  "map_option (\<lambda>r. (fst r, drop (md_pivot (snd r)) (md_view (snd r)))) (lenint (mysql_decoder (lenc 2147483648 @ [7]))) =
    Some (if (2 :: nat) ^ 31 \<le> 2147483648 \<and> odd ((2147483648 :: nat) div 2 ^ 31)
      then word_of_nat 2147483648 OR push_bit 32 (- 1) else word_of_nat 2147483648, [7])"
  by (rule lenint_reads) (simp_all add: lenc_def)

end
