(* ===== verification/Sql_Client.thy ===== *)
theory Sql_Client
  imports Sql_Wire Json_Roundtrip Codec_Escape
begin

text \<open>
  The MySQL client, \<^verbatim>\<open>src/90s/sql/mysql.cpp\<close>: packets, the connection with its login, statements, rows
  and transactions.  One coroutine at a time holds the command lock; what others do meanwhile is in the
  answers of the environment.
\<close>

section \<open>Escaping\<close>

definition sql_escape_step :: "byte \<Rightarrow> byte list \<Rightarrow> byte list" where
  "sql_escape_step c str =
     (if c = c_cr then str @ [c_backslash, 114]
      else if c = c_lf then str @ [c_backslash, 110]
      else if c = c_dquote then str @ [c_backslash, c_dquote]
      else if c = c_squote then str @ [c_backslash, c_squote]
      else if c = c_bs then str @ [c_backslash, 98]
      else if c = c_nul then str @ [c_backslash, 48]
      else if c = c_backslash then str @ [c_backslash, c_backslash]
      else if c = 1 then str @ [c_backslash, 49]
      else str @ [c])"

definition sql_escape_string :: "byte list \<Rightarrow> byte list" where
  "sql_escape_string view = fold sql_escape_step view []"

section \<open>Packets\<close>

definition read_packet :: "env \<Rightarrow> fd \<Rightarrow> server \<Rightarrow> ((int \<times> byte list) \<times> server) option" where
  "read_packet env f s =
     (let h = read_n env f 4 s in
      if fst (fst h) then Some ((- 1, []), snd h)
      else if length (snd (fst h)) < 4 then None
      else
        (let bytes = snd (fst h);
             b = read_n env f (unat (le_int (take 3 bytes))) (snd h) in
         if fst (fst b) then Some ((- 1, []), snd b)
         else Some ((uint (bytes ! 3), snd (fst b)), snd b)))"

text \<open>A command is the length of what follows, a sequence number, the kind and the text.\<close>

definition command_text :: "byte list \<Rightarrow> byte list" where
  "command_text query = encode_le24 (word_of_nat (length query + 1)) @ [0, 3] @ query"

section \<open>The connection\<close>

record mysql =
  my_user :: "byte list"
  my_password :: "byte list"
  my_host :: "byte list"
  my_port :: int
  my_db_name :: "byte list"
  my_authenticated :: bool
  my_is_connecting :: bool
  my_login_provided :: bool
  my_enqueued_sql :: "byte list"
  my_connection :: "fd option"

text \<open>\<open>connection && !connection->is_closed() && !connection->is_error()\<close>.\<close>

definition conn_alive :: "env \<Rightarrow> fd option \<Rightarrow> server \<Rightarrow> bool \<times> server" where
  "conn_alive env c s =
     (case c of
        None \<Rightarrow> (False, s)
      | Some f \<Rightarrow>
          (let closed = os_call env ''is_closed'' [LInt f] s in
           if a_ret (fst closed) \<noteq> 0 then (False, snd closed)
           else (let err = os_call env ''is_error'' [LInt f] (snd closed) in (a_ret (fst err) = 0, snd err))))"

text \<open>\<open>!connection || connection->is_error() || connection->is_closed()\<close>.\<close>

definition conn_dead :: "env \<Rightarrow> fd option \<Rightarrow> server \<Rightarrow> bool \<times> server" where
  "conn_dead env c s =
     (case c of
        None \<Rightarrow> (True, s)
      | Some f \<Rightarrow>
          (let err = os_call env ''is_error'' [LInt f] s in
           if a_ret (fst err) \<noteq> 0 then (True, snd err)
           else (let closed = os_call env ''is_closed'' [LInt f] (snd err) in (a_ret (fst closed) \<noteq> 0, snd closed))))"

text \<open>
  Who joined the queue \<open>connecting\<close> while this coroutine was connecting is what the environment answers; its
  promises that are alive are resolved in order.
\<close>

definition resolve_waiters :: "env \<Rightarrow> bool \<Rightarrow> server \<Rightarrow> server" where
  "resolve_waiters env err s =
     (let q = os_call env ''connecting'' [] s in
      fold (\<lambda>w s. snd (os_call env ''resolve'' [LInt w, LBool err] s)) (a_vals (fst q)) (snd q))"

text \<open>The login; the result is whether it failed and a message.\<close>

definition login_text :: "mysql \<Rightarrow> byte list \<Rightarrow> byte list \<Rightarrow> byte list" where
  "login_text m pwd_hash meth =
     (let login = encode_le32 0x0FA68D @ encode_le32 0xFFFFFF @ [45] @ replicate 23 0 @ my_user m @ [0] @
            encode_varstr pwd_hash @ my_db_name m @ [0] @ meth @ [0] in
      encode_le24 (word_of_nat (length login)) @ [1] @ login)"

definition handshake :: "env \<Rightarrow> crypto_lib \<Rightarrow> (nat \<Rightarrow> byte) \<Rightarrow> mysql \<Rightarrow> fd \<Rightarrow> server \<Rightarrow> ((bool \<times> byte list) \<times> server) option" where
  "handshake env lib stk m f s =
     Option.bind (read_packet env f s) (\<lambda>((seq, packet), s1).
       if seq < 0 then Some ((True, cstr ''failed to read scramble packet''), s1)
       else
         Option.bind (decode_handshake_packet packet) (\<lambda>(meth, scramble).
           if meth \<noteq> cstr ''mysql_native_password'' then
             Some ((True, cstr ''unsupported auth method: '' @ [c_dquote] @ meth @ [c_dquote]), s1)
           else
             Option.bind (native_password_hash lib stk (my_password m) scramble) (\<lambda>h.
               let w = fd_write env f (login_text m h meth) s1 in
               if \<not> fst w then Some ((True, cstr ''sending login failed''), snd w)
               else
                 Option.bind (read_packet env f (snd w)) (\<lambda>((seq2, response), s3).
                   if seq2 < 0 then Some ((True, cstr ''failed to read login response''), s3)
                   else
                     Option.bind (view_at response 0) (\<lambda>ty.
                       if ty = 0 then Some ((False, []), s3)
                       else if ty = 255 then
                         map_option (\<lambda>t. ((True, cstr ''login failed: '' @ t), s3)) (view_substr response 9 (length response))
                       else Some ((True, cstr ''invalid return code: '' @ decimal (int (unat ty))), s3))))))"


text \<open>
  The connection a command runs on.  Who comes while another coroutine connects waits for its result,
  which the environment answers: a negative result is an error, and the state is what that coroutine
  leaves.  \<open>connect\<close> answers with the number of the descriptor, which is negative when there is none.
\<close>

definition fd_of :: "answer \<Rightarrow> fd option" where
  "fd_of a = (if val_at a 0 < 0 then None else Some (val_at a 0))"

definition await_connection :: "env \<Rightarrow> mysql \<Rightarrow> server \<Rightarrow> ((bool \<times> byte list) \<times> fd option) \<times> mysql \<times> server" where
  "await_connection env m s =
     (let r = os_call env ''await_connection'' [] s; err = (a_ret (fst r) < 0) in
      (((err, a_bytes (fst r)), fd_of (fst r)),
       m\<lparr>my_is_connecting := False, my_authenticated := \<not> err, my_connection := fd_of (fst r)\<rparr>,
       snd r))"

text \<open>The connection itself, without the login: whether it failed and the message.\<close>

definition open_connection :: "env \<Rightarrow> mysql \<Rightarrow> server \<Rightarrow> (bool \<times> byte list) \<times> mysql \<times> server" where
  "open_connection env m s =
     (let d = conn_alive env (my_connection m) s in
      if fst d then ((False, cstr ''unknown error''), m, snd d)
      else
        (let c = os_call env ''connect'' [LStr (my_host m), LInt (my_port m)] (snd d) in
         ((a_ret (fst c) < 0, a_bytes (fst c)), m\<lparr>my_connection := fd_of (fst c)\<rparr>, snd c)))"

text \<open>The command given to \<open>exec_on_first_connect\<close>; its result is only logged.\<close>

definition first_command :: "env \<Rightarrow> fd \<Rightarrow> mysql \<Rightarrow> server \<Rightarrow> (mysql \<times> server) option" where
  "first_command env f m s =
     (if my_enqueued_sql m = [] then Some (m, s)
      else
        (let w = fd_write env f (command_text (my_enqueued_sql m)) s; m1 = m\<lparr>my_enqueued_sql := []\<rparr> in
         if \<not> fst w then Some (m1, snd w)
         else
           Option.bind (read_packet env f (snd w)) (\<lambda>((seq, response), s1).
             if seq < 0 \<or> response = [] then Some (m1, s1)
             else map_option (\<lambda>_. (m1, s1)) (decode_status (mysql_decoder response)))))"

definition obtain_connection :: "env \<Rightarrow> crypto_lib \<Rightarrow> (nat \<Rightarrow> byte) \<Rightarrow> mysql \<Rightarrow> server \<Rightarrow>
    (((bool \<times> byte list) \<times> fd option) \<times> mysql \<times> server) option" where
  "obtain_connection env lib stk m s =
     (let alive = conn_alive env (my_connection m) s in
      if fst alive \<and> my_authenticated m then Some (((False, []), my_connection m), m, snd alive)
      else if my_is_connecting m then Some (await_connection env m (snd alive))
      else
        (let m0 = m\<lparr>my_is_connecting := True, my_authenticated := False\<rparr>;
             opened = open_connection env m0 (snd alive);
             m1 = fst (snd opened);
             dead = (if fst (fst opened) then (True, snd (snd opened)) else conn_dead env (my_connection m1) (snd (snd opened))) in
         if fst dead then
           Some (((True, cstr ''failed to establish connection: '' @ snd (fst opened)), None),
             m1\<lparr>my_connection := None, my_is_connecting := False\<rparr>, resolve_waiters env True (snd dead))
         else
           (let f = the (my_connection m1);
                s1 = snd (os_call env ''set_name'' [LInt f, LStr (cstr ''mysql'')] (snd dead)) in
            Option.bind (handshake env lib stk m1 f s1) (\<lambda>(result, s2).
            map_option (\<lambda>(m2, s3).
              ((result, my_connection m1), m2\<lparr>my_is_connecting := False, my_authenticated := \<not> fst result\<rparr>,
                resolve_waiters env (fst result) s3))
              (if \<not> fst result then first_command env f m1 s2 else Some (m1, s2))))))"

definition reconnect :: "env \<Rightarrow> crypto_lib \<Rightarrow> (nat \<Rightarrow> byte) \<Rightarrow> mysql \<Rightarrow> server \<Rightarrow> ((bool \<times> byte list) \<times> mysql \<times> server) option" where
  "reconnect env lib stk m s = map_option (\<lambda>(r, m', s'). (fst r, m', s')) (obtain_connection env lib stk m s)"

definition mysql_connect :: "env \<Rightarrow> crypto_lib \<Rightarrow> (nat \<Rightarrow> byte) \<Rightarrow> byte list \<Rightarrow> int \<Rightarrow> byte list \<Rightarrow> byte list \<Rightarrow> byte list \<Rightarrow>
    mysql \<Rightarrow> server \<Rightarrow> ((bool \<times> byte list) \<times> mysql \<times> server) option" where
  "mysql_connect env lib stk host port user password db m s =
     reconnect env lib stk
       (m\<lparr>my_user := user, my_password := password, my_host := host, my_port := port, my_db_name := db, my_login_provided := True\<rparr>) s"

definition is_connected :: "mysql \<Rightarrow> bool" where
  "is_connected m = my_login_provided m"

definition exec_on_first_connect :: "byte list \<Rightarrow> mysql \<Rightarrow> mysql" where
  "exec_on_first_connect t m = m\<lparr>my_enqueued_sql := t\<rparr>"

definition destroy_mysql :: "env \<Rightarrow> mysql \<Rightarrow> server \<Rightarrow> server" where
  "destroy_mysql env m s =
     (let alive = conn_alive env (my_connection m) s;
          s1 = (if fst alive then snd (os_call env ''close'' [LInt (the (my_connection m))] (snd alive)) else snd alive) in
      resolve_waiters env True s1)"

section \<open>Statements\<close>

definition raw_exec :: "env \<Rightarrow> crypto_lib \<Rightarrow> (nat \<Rightarrow> byte) \<Rightarrow> byte list \<Rightarrow> mysql \<Rightarrow> server \<Rightarrow>
    ((sql_result \<times> fd option) \<times> mysql \<times> server) option" where
  "raw_exec env lib stk query m s =
     Option.bind (obtain_connection env lib stk m s) (\<lambda>((connected, c), m1, s1).
       if fst connected then Some ((with_error (snd connected), c), m1, s1)
       else
         (case c of
            None \<Rightarrow> None
          | Some f \<Rightarrow>
              (let w = fd_write env f (command_text query) s1 in
               Some ((if fst w then sql_result else with_error (cstr ''failed to write to the connection''), c), m1, snd w))))"

definition exec_subproc :: "env \<Rightarrow> crypto_lib \<Rightarrow> (nat \<Rightarrow> byte) \<Rightarrow> byte list \<Rightarrow> mysql \<Rightarrow> server \<Rightarrow> (sql_result \<times> mysql \<times> server) option" where
  "exec_subproc env lib stk query m s =
     Option.bind (raw_exec env lib stk query m s) (\<lambda>((sent, c), m1, s1).
       if sr_error sent then Some (sent, m1, s1)
       else
         Option.bind (read_packet env (the c) s1) (\<lambda>((seq, response), s2).
           if seq < 0 \<or> response = [] then Some (with_error (cstr ''failed to read response''), m1, s2)
           else map_option (\<lambda>r. (r, m1, s2)) (decode_status (mysql_decoder response))))"

text \<open>The fields of a selection: their names in order, or an error.\<close>

primrec read_fields :: "env \<Rightarrow> fd \<Rightarrow> nat \<Rightarrow> server \<Rightarrow> (byte list list option \<times> server) option" where
  "read_fields env f 0 s = Some (Some [], s)"
| "read_fields env f (Suc n) s =
     Option.bind (read_packet env f s) (\<lambda>((seq, spec), s1).
       if seq < 0 then Some (None, s1)
       else
         Option.bind (decode_field (mysql_decoder spec)) (\<lambda>(field, _).
         map_option (\<lambda>(names, s2). (map_option (Cons (mf_name field)) names, s2)) (read_fields env f n s1)))"

primrec read_row :: "byte list list \<Rightarrow> sql_row \<Rightarrow> mysql_decoder \<Rightarrow> sql_row option" where
  "read_row [] row d = Some row"
| "read_row (name # names) row d = Option.bind (var_string d) (\<lambda>(v, d1). read_row names (row(name \<mapsto> v)) d1)"

partial_function (option) read_rows :: "env \<Rightarrow> fd \<Rightarrow> byte list list \<Rightarrow> sql_row list \<Rightarrow> server \<Rightarrow> (sql_row list option \<times> server) option" where
  "read_rows env f names rows s =
     Option.bind (read_packet env f s) (\<lambda>((seq, packet), s1).
       if seq < 0 \<or> packet = [] then Some (None, s1)
       else if hd packet = 254 then Some (Some rows, s1)
       else Option.bind (read_row names Map.empty (mysql_decoder packet)) (\<lambda>row. read_rows env f names (rows @ [row]) s1))"

definition select_result :: "env \<Rightarrow> fd \<Rightarrow> server \<Rightarrow> (sql_result \<times> server) option" where
  "select_result env f s =
     Option.bind (read_packet env f s) (\<lambda>((seq, desc), s1).
       if seq < 0 \<or> desc = [] then Some (with_error (cstr ''failed to read initial response''), s1)
       else if hd desc = 255 then map_option (\<lambda>t. (with_error t, s1)) (view_substr desc 9 (length desc))
       else
         Option.bind (lenint (mysql_decoder desc)) (\<lambda>(n, _).
           if n = - 1 then Some (with_error (cstr ''n fields has invalid value''), s1)
           else
             Option.bind (read_fields env f (unat n) s1) (\<lambda>(fields, s2).
               (case fields of
                  None \<Rightarrow> Some (with_error (cstr ''failed to fetch field spec''), s2)
                | Some names \<Rightarrow>
                    Option.bind (read_packet env f s2) (\<lambda>((seq2, eof), s3).
                      if seq2 < 0 \<or> eof = [] \<or> hd eof \<noteq> 254 then Some (with_error (cstr ''expected eof''), s3)
                      else
                        map_option (\<lambda>(rows, s4).
                            (case rows of
                               None \<Rightarrow> (with_error (cstr ''fetching rows failed''), s4)
                             | Some rs \<Rightarrow> (sql_result\<lparr>sr_rows := Some rs\<rparr>, s4)))
                          (read_rows env f names [] s3))))))"

definition select_subproc :: "env \<Rightarrow> crypto_lib \<Rightarrow> (nat \<Rightarrow> byte) \<Rightarrow> byte list \<Rightarrow> mysql \<Rightarrow> server \<Rightarrow> (sql_result \<times> mysql \<times> server) option" where
  "select_subproc env lib stk query m s =
     Option.bind (raw_exec env lib stk query m s) (\<lambda>((sent, c), m1, s1).
       if sr_error sent then Some (sent, m1, s1)
       else map_option (\<lambda>(r, s2). (r, m1, s2)) (select_result env (the c) s1))"

text \<open>
  The commands of one client come one after the other.  The lock is \<open>Web_Lock\<close>'s; here its grant and its
  release are calls, and a grant may be refused when the client is destroyed.
\<close>

definition command_lock :: "env \<Rightarrow> server \<Rightarrow> bool \<times> server" where
  "command_lock env s = (let r = os_call env ''command_lock'' [] s in (a_ret (fst r) = 1, snd r))"

definition command_unlock :: "env \<Rightarrow> server \<Rightarrow> server" where
  "command_unlock env s = snd (os_call env ''command_unlock'' [] s)"

definition locked :: "env \<Rightarrow> (server \<Rightarrow> (sql_result \<times> mysql \<times> server) option) \<Rightarrow> mysql \<Rightarrow> server \<Rightarrow> (sql_result \<times> mysql \<times> server) option" where
  "locked env body m s =
     (let l = command_lock env s in
      if fst l then map_option (\<lambda>(r, m', s'). (r, m', command_unlock env s')) (body (snd l))
      else Some (with_error (cstr ''lock failed''), m, snd l))"

definition native_exec :: "env \<Rightarrow> crypto_lib \<Rightarrow> (nat \<Rightarrow> byte) \<Rightarrow> byte list \<Rightarrow> mysql \<Rightarrow> server \<Rightarrow> (sql_result \<times> mysql \<times> server) option" where
  "native_exec env lib stk query m s = locked env (exec_subproc env lib stk query m) m s"

definition native_select :: "env \<Rightarrow> crypto_lib \<Rightarrow> (nat \<Rightarrow> byte) \<Rightarrow> byte list \<Rightarrow> mysql \<Rightarrow> server \<Rightarrow> (sql_result \<times> mysql \<times> server) option" where
  "native_select env lib stk query m s = locked env (select_subproc env lib stk query m) m s"

section \<open>Transactions\<close>

text \<open>
  How the run over the statements ends: the last result to commit, to return at once, or a deadlock after
  which everything is tried again.
\<close>

datatype tx_end = TxCommit sql_result | TxReturn sql_result | TxRetry sql_result

definition zero_break :: "byte list \<Rightarrow> sql_result \<Rightarrow> bool" where
  "zero_break q prev \<longleftrightarrow> q = cstr ''@B0'' \<and> sr_affected_rows prev = 0 \<or> q = cstr ''@B1'' \<and> sr_size prev = 0"

definition zero_rollback :: "byte list \<Rightarrow> sql_result \<Rightarrow> bool" where
  "zero_rollback q prev \<longleftrightarrow> q = cstr ''@R0'' \<and> sr_affected_rows prev = 0 \<or> q = cstr ''@R1'' \<and> sr_size prev = 0"

primrec tx_queries :: "env \<Rightarrow> crypto_lib \<Rightarrow> (nat \<Rightarrow> byte) \<Rightarrow> bool \<Rightarrow> byte list list \<Rightarrow> sql_result \<Rightarrow> mysql \<Rightarrow> server \<Rightarrow>
    (tx_end \<times> mysql \<times> server) option" where
  "tx_queries env lib stk first [] prev m s = Some (TxCommit prev, m, s)"
| "tx_queries env lib stk first (q # qs) prev m s =
     (if q = cstr ''@B0'' \<or> q = cstr ''@B1'' then
        (if zero_break q prev then Some (TxCommit (prev\<lparr>sr_flags := 1\<rparr>), m, s)
         else tx_queries env lib stk first qs prev m s)
      else if q = cstr ''@R0'' \<or> q = cstr ''@R1'' then
        (if zero_rollback q prev then
           map_option (\<lambda>(_, m', s'). (TxReturn (prev\<lparr>sr_flags := 2\<rparr>), m', s')) (exec_subproc env lib stk (cstr ''ROLLBACK'') m s)
         else tx_queries env lib stk first qs prev m s)
      else
        Option.bind (if prefix (cstr ''SELECT '') q then select_subproc env lib stk q m s else exec_subproc env lib stk q m s)
          (\<lambda>(r, m1, s1).
             if sr_ok r then tx_queries env lib stk first qs r m1 s1
             else
               map_option (\<lambda>(rb, m2, s2).
                   (if sr_ok rb \<and> sublist (cstr ''Deadlock'') (sr_message r) \<and> first then TxRetry r else TxReturn r, m2, s2))
                 (exec_subproc env lib stk (cstr ''ROLLBACK'') m1 s1)))"

text \<open>One round: \<open>START TRANSACTION\<close> and the statements; then the end, with \<open>COMMIT\<close>, whose result is only logged.\<close>

definition tx_round :: "env \<Rightarrow> crypto_lib \<Rightarrow> (nat \<Rightarrow> byte) \<Rightarrow> bool \<Rightarrow> byte list list \<Rightarrow> sql_result \<Rightarrow> mysql \<Rightarrow> server \<Rightarrow>
    (tx_end \<times> mysql \<times> server) option" where
  "tx_round env lib stk first qs prev m s =
     Option.bind (exec_subproc env lib stk (cstr ''START TRANSACTION'') m s) (\<lambda>(start, m1, s1).
       if \<not> sr_ok start then Some (TxReturn start, m1, s1) else tx_queries env lib stk first qs prev m1 s1)"

definition tx_finish :: "env \<Rightarrow> crypto_lib \<Rightarrow> (nat \<Rightarrow> byte) \<Rightarrow> sql_result \<Rightarrow> mysql \<Rightarrow> server \<Rightarrow> (sql_result \<times> mysql \<times> server) option" where
  "tx_finish env lib stk prev m s =
     map_option (\<lambda>(_, m', s'). (prev, m', s')) (exec_subproc env lib stk (cstr ''COMMIT'') m s)"

definition tx_body :: "env \<Rightarrow> crypto_lib \<Rightarrow> (nat \<Rightarrow> byte) \<Rightarrow> byte list list \<Rightarrow> mysql \<Rightarrow> server \<Rightarrow> (sql_result \<times> mysql \<times> server) option" where
  "tx_body env lib stk qs m s =
     Option.bind (tx_round env lib stk True qs sql_result m s) (\<lambda>(e, m1, s1).
       (case e of
          TxReturn r \<Rightarrow> Some (r, m1, s1)
        | TxCommit r \<Rightarrow> tx_finish env lib stk r m1 s1
        | TxRetry r \<Rightarrow>
            Option.bind (tx_round env lib stk False qs r m1 s1) (\<lambda>(e2, m2, s2).
              (case e2 of
                 TxReturn r2 \<Rightarrow> Some (r2, m2, s2)
               | TxCommit r2 \<Rightarrow> tx_finish env lib stk r2 m2 s2
               | TxRetry r2 \<Rightarrow> tx_finish env lib stk r2 m2 s2))))"

definition atomically :: "env \<Rightarrow> crypto_lib \<Rightarrow> (nat \<Rightarrow> byte) \<Rightarrow> byte list list \<Rightarrow> mysql \<Rightarrow> server \<Rightarrow> (sql_result \<times> mysql \<times> server) option" where
  "atomically env lib stk qs m s = locked env (tx_body env lib stk qs m) m s"

section \<open>Escaped texts are literals\<close>

lemma sql_escape_chunks: "sql_escape_string view = concat (map mysql_chunk view)"
proof -
  have "fold sql_escape_step view str = str @ concat (map mysql_chunk view)" for str
    by (induction view arbitrary: str) (auto simp: sql_escape_step_def mysql_chunk_def)
  then show ?thesis by (simp add: sql_escape_string_def)
qed

text \<open>
  Whatever a text holds, between quotes its escaped form is one literal, whose value is the text but for the byte 1.
\<close>

theorem escaped_is_literal:
  assumes "q \<in> {c_squote, c_dquote}" and "rest = [] \<or> hd rest \<noteq> q"
  shows "sql_literal q (sql_escape_string data @ q # rest) = Some (map mysql_value data, rest)"
  unfolding sql_escape_chunks using assms by (rule sql_literal_text)

theorem escaped_is_literal_witness:
  "sql_literal c_squote (sql_escape_string [c_squote, 0, c_backslash, 1] @ c_squote # cstr '' OR 1'') =
    Some (map mysql_value [c_squote, 0, c_backslash, 1], cstr '' OR 1'')"
  by (rule escaped_is_literal) (simp_all add: cstr_def)

section \<open>What a server sends as a selection\<close>

definition packet_text :: "byte \<Rightarrow> byte list \<Rightarrow> byte list" where
  "packet_text q data = encode_le24 (word_of_nat (length data)) @ [q] @ data"

primrec numbered :: "nat \<Rightarrow> byte list list \<Rightarrow> byte list" where
  "numbered k [] = []"
| "numbered k (p # ps) = packet_text (word_of_nat k) p @ numbered (Suc k) ps"

definition lenstr :: "byte list \<Rightarrow> byte list" where
  "lenstr v = lenc (length v) @ v"

text \<open>Catalog, schema, tables and names of a column, and the part of fixed size.\<close>

datatype column = Column "byte list" "byte list" "byte list" "byte list" "byte list" "byte list" "byte list"

primrec column_text :: "column \<Rightarrow> byte list" where
  "column_text (Column cat sch tab org name oname fixed) =
     lenstr cat @ lenstr sch @ lenstr tab @ lenstr org @ lenstr name @ lenstr oname @ fixed"

primrec column_name :: "column \<Rightarrow> byte list" where
  "column_name (Column cat sch tab org name oname fixed) = name"

primrec column_ok :: "column \<Rightarrow> bool" where
  "column_ok (Column cat sch tab org name oname fixed) \<longleftrightarrow> 10 \<le> length fixed"

definition row_text :: "byte list list \<Rightarrow> byte list" where
  "row_text vs = concat (map lenstr vs)"

definition selection :: "byte list \<Rightarrow> column list \<Rightarrow> byte list list list \<Rightarrow> byte list list" where
  "selection eof cols rows = [lenc (length cols)] @ map column_text cols @ [254 # eof] @ map row_text rows @ [254 # eof]"

lemma encode_le24_length [simp]: "length (encode_le24 w) = 3"
  by (simp add: encode_le24_def)

lemma le_int_encode: "le_int (encode_le24 w) = take_bit 24 w"
proof (rule bit_word_eqI)
  have e: "encode_le24 w = [ucast (w AND 255), ucast (drop_bit 8 w AND 255), ucast (drop_bit 16 w AND 255)]"
    by (simp add: encode_le24_def upt_rec)
  have m: "(255 :: 32 word) = mask 8" by (simp add: mask_eq_exp_minus_1)
  fix i assume "i < LENGTH(32)"
  consider "i < 8" | "8 \<le> i" "i < 16" | "16 \<le> i" "i < 24" | "24 \<le> i" by linarith
  then show "bit (le_int (encode_le24 w)) i = bit (take_bit 24 w) i"
    using \<open>i < LENGTH(32)\<close> by cases (auto simp: e m le_int_def bit_simps)
qed

lemma serves_packet:
  assumes "serves env f s (packet_text q data @ bs)" and "length data < 2 ^ 24"
  obtains s1 where "read_packet env f s = Some ((uint q, data), s1)" "serves env f s1 bs"
proof -
  let ?h = "encode_le24 (word_of_nat (length data)) @ [q]"
  have "serves env f s (?h @ data @ bs)" using assms(1) by (simp add: packet_text_def)
  then obtain s1 where s1: "read_n env f 4 s = ((False, ?h), s1)" "serves env f s1 (data @ bs)"
    by (rule serves_read [of env f s ?h "data @ bs" 4]) simp
  have "take_bit 24 (length data) = length data" using assms(2) by (simp add: take_bit_nat_eq_self)
  then have "take_bit 24 (word_of_nat (length data) :: 32 word) = word_of_nat (length data)" by (metis take_bit_of_nat)
  moreover have "unat (word_of_nat (length data) :: 32 word) = length data" using assms(2) by (simp add: unat_of_nat)
  ultimately have n: "unat (le_int (take 3 ?h)) = length data" by (simp add: le_int_encode)
  obtain s2 where s2: "read_n env f (length data) s1 = ((False, data), s2)" "serves env f s2 bs"
    by (rule serves_read [OF s1(2) refl])
  have "?h ! 3 = q" by (simp add: nth_append)
  then have "read_packet env f s = Some ((uint q, data), s2)"
    using s1(1) s2(1) n by (simp add: read_packet_def Let_def)
  then show thesis using that s2(2) by blast
qed

lemma uint_not_neg: "\<not> uint (q :: byte) < 0"
  by simp

lemma lenint_small:
  assumes "at_text d (lenc n @ rest)" and "n < 2 ^ 24"
  obtains d1 where "lenint d = Some (word_of_nat n, d1)" "at_text d1 rest"
  using lenint_text [OF assms(1)] assms(2) by (auto simp: decoded_number_def)

lemma small_count: "n < 2 ^ 24 \<Longrightarrow> unat (word_of_nat n :: 64 word) = n \<and> (word_of_nat n :: 64 word) \<noteq> - 1"
proof -
  assume n: "n < 2 ^ 24"
  have u: "unat (word_of_nat n :: 64 word) = n" using n by (simp add: unat_of_nat)
  have "unat (- 1 :: 64 word) = 2 ^ 64 - 1" by (simp add: unsigned_minus_1_eq_mask mask_eq_exp_minus_1)
  then show ?thesis using u n by auto
qed

lemma var_string_text:
  assumes "at_text d (lenstr v @ rest)" and "length v < 2 ^ 24"
  obtains d1 where "var_string d = Some (v, d1)" "at_text d1 rest"
proof -
  obtain d1 where d1: "lenint d = Some (word_of_nat (length v), d1)" "at_text d1 (v @ rest)"
    using lenint_small [of d "length v" "v @ rest"] assms by (auto simp: lenstr_def)
  have "at_text (md_move (length v) d1) rest" using at_text_move [OF d1(2), of "length v"] by simp
  moreover have "var_string d = Some (v, md_move (length v) d1)"
    using d1 small_count [OF assms(2)] by (simp add: var_string_def at_text_def)
  ultimately show thesis using that by blast
qed

lemma md_int_any:
  assumes "at_text d bs" and "n \<le> length bs"
  obtains w where "md_int n d = Some (w, md_move n d)" "at_text (md_move n d) (drop n bs)"
  using md_int_text [of d "take n bs" "drop n bs" n] assms that by simp

text \<open>Fields and rows are read back.\<close>

lemma decode_column:
  assumes "column_ok c" and "length (column_text c) < 2 ^ 24"
  obtains fd dd where "decode_field (mysql_decoder (column_text c)) = Some (fd, dd)" "mf_name fd = column_name c"
proof (cases c)
  case (Column cat sch tab org name oname fixed)
  note sizes = assms(2) [unfolded Column column_text.simps lenstr_def length_append]
  have "at_text (mysql_decoder (column_text c)) (column_text c)" using assms(2) by (simp add: at_text_def mysql_decoder_def)
  then have at: "at_text (mysql_decoder (column_text c))
      (lenstr cat @ lenstr sch @ lenstr tab @ lenstr org @ lenstr name @ lenstr oname @ fixed)" by (simp add: Column)
  obtain d1 where d1: "var_string (mysql_decoder (column_text c)) = Some (cat, d1)"
    and a1: "at_text d1 (lenstr sch @ lenstr tab @ lenstr org @ lenstr name @ lenstr oname @ fixed)"
    using var_string_text [OF at] sizes by auto
  obtain d2 where d2: "var_string d1 = Some (sch, d2)" and a2: "at_text d2 (lenstr tab @ lenstr org @ lenstr name @ lenstr oname @ fixed)"
    using var_string_text [OF a1] sizes by auto
  obtain d3 where d3: "var_string d2 = Some (tab, d3)" and a3: "at_text d3 (lenstr org @ lenstr name @ lenstr oname @ fixed)"
    using var_string_text [OF a2] sizes by auto
  obtain d4 where d4: "var_string d3 = Some (org, d4)" and a4: "at_text d4 (lenstr name @ lenstr oname @ fixed)"
    using var_string_text [OF a3] sizes by auto
  obtain d5 where d5: "var_string d4 = Some (name, d5)" and a5: "at_text d5 (lenstr oname @ fixed)"
    using var_string_text [OF a4] sizes by auto
  obtain d6 where d6: "var_string d5 = Some (oname, d6)" and a6: "at_text d6 fixed"
    using var_string_text [OF a5] sizes by auto
  have l: "2 \<le> length fixed" "4 \<le> length (drop 2 fixed)" "1 \<le> length (drop 6 fixed)" "2 \<le> length (drop 7 fixed)"
      "1 \<le> length (drop 9 fixed)" using assms(1) by (simp_all add: Column)
  obtain w7 where d7: "int2 d6 = Some (w7, md_move 2 d6)" and a7: "at_text (md_move 2 d6) (drop 2 fixed)"
    using md_int_any [OF a6 l(1)] by auto
  obtain w8 where d8: "int4 (md_move 2 d6) = Some (w8, md_move 4 (md_move 2 d6))" and a8: "at_text (md_move 4 (md_move 2 d6)) (drop 6 fixed)"
    using md_int_any [OF a7 l(2)] by auto
  obtain w9 where d9: "int1 (md_move 4 (md_move 2 d6)) = Some (w9, md_move 1 (md_move 4 (md_move 2 d6)))"
    and a9: "at_text (md_move 1 (md_move 4 (md_move 2 d6))) (drop 7 fixed)"
    using md_int_any [OF a8 l(3)] by auto
  obtain w10 where d10: "int2 (md_move 1 (md_move 4 (md_move 2 d6))) = Some (w10, md_move 2 (md_move 1 (md_move 4 (md_move 2 d6))))"
    and a10: "at_text (md_move 2 (md_move 1 (md_move 4 (md_move 2 d6)))) (drop 9 fixed)"
    using md_int_any [OF a9 l(4)] by auto
  obtain w11 where d11: "int1 (md_move 2 (md_move 1 (md_move 4 (md_move 2 d6)))) =
      Some (w11, md_move 1 (md_move 2 (md_move 1 (md_move 4 (md_move 2 d6)))))"
    using md_int_any [OF a10 l(5)] by auto
  show thesis
    by (rule that [where fd = "\<lparr>mf_catalog = cat, mf_schema = sch, mf_table = tab, mf_org_table = org, mf_name = name,
         mf_org_name = oname, mf_character_set = w7, mf_column_length = w8, mf_type = w9, mf_flags = w10, mf_decimals = w11\<rparr>" and
         dd = "md_move 1 (md_move 2 (md_move 1 (md_move 4 (md_move 2 d6))))"])
      (simp_all add: decode_field_def d1 [unfolded Column column_text.simps] d2 d3 d4 d5 d6 d7 d8 d9 d10 d11 Column del: One_nat_def)
qed

lemma serves_columns:
  assumes "serves env f s (numbered k (map column_text cols @ ps))" and "list_all column_ok cols"
    and "list_all (\<lambda>c. length (column_text c) < 2 ^ 24) cols"
  shows "\<exists>s1. read_fields env f (length cols) s = Some (Some (map column_name cols), s1) \<and>
    serves env f s1 (numbered (k + length cols) ps)"
  using assms
proof (induction cols arbitrary: s k)
  case (Cons c cols)
  then have "serves env f s (packet_text (word_of_nat k) (column_text c) @ numbered (Suc k) (map column_text cols @ ps))" by simp
  then obtain s1 where s1: "read_packet env f s = Some ((uint (word_of_nat k :: byte), column_text c), s1)"
      "serves env f s1 (numbered (Suc k) (map column_text cols @ ps))"
    by (rule serves_packet) (use Cons.prems in simp)
  obtain s2 where s2: "read_fields env f (length cols) s1 = Some (Some (map column_name cols), s2)"
      "serves env f s2 (numbered (Suc k + length cols) ps)"
    using Cons.IH [OF s1(2)] Cons.prems by auto
  obtain fd d1 where "decode_field (mysql_decoder (column_text c)) = Some (fd, d1)" "mf_name fd = column_name c"
    using Cons.prems by (auto elim: decode_column)
  then show ?case using s1(1) s2 uint_not_neg by simp
qed simp

lemma read_row_text:
  assumes "at_text d (row_text vs)" and "length vs = length names" and "length (row_text vs) < 2 ^ 24"
  shows "read_row names row d = Some (row ++ map_of (rev (zip names vs)))"
  using assms
proof (induction names arbitrary: vs row d)
  case (Cons n names)
  then obtain v ws where vs: "vs = v # ws" "length ws = length names" by (cases vs) auto
  have len: "length v < 2 ^ 24" "length (row_text ws) < 2 ^ 24" using Cons.prems(3) by (simp_all add: vs row_text_def lenstr_def)
  have "at_text d (lenstr v @ row_text ws)" using Cons.prems(1) by (simp add: vs row_text_def)
  then obtain d1 where d1: "var_string d = Some (v, d1)" "at_text d1 (row_text ws)" using len(1) by (rule var_string_text)
  have "read_row names (row(n \<mapsto> v)) d1 = Some (row(n \<mapsto> v) ++ map_of (rev (zip names ws)))"
    using Cons.IH d1(2) vs(2) len(2) by blast
  then show ?case using d1(1) by (simp add: vs map_add_assoc [symmetric])
qed simp

lemma row_text_head:
  assumes "vs \<noteq> []" and "length (row_text vs) < 2 ^ 24"
  shows "row_text vs \<noteq> [] \<and> hd (row_text vs) \<noteq> 254"
proof -
  obtain v ws where vs: "vs = v # ws" using assms(1) by (cases vs) auto
  have "length v < 2 ^ 24" using assms(2) by (simp add: vs row_text_def lenstr_def)
  moreover have "n < 251 \<Longrightarrow> (word_of_nat n :: byte) \<noteq> 254" for n
  proof
    assume n: "n < 251" "(word_of_nat n :: byte) = 254"
    then have "unat (word_of_nat n :: byte) = 254" by simp
    then show False using n(1) by (simp add: unat_of_nat)
  qed
  ultimately show ?thesis by (auto simp: vs row_text_def lenstr_def lenc_def)
qed

lemma serves_rows:
  assumes "serves env f s (numbered k (map row_text rows @ (254 # eof) # ps))" and "names \<noteq> []"
    and "list_all (\<lambda>vs. length vs = length names \<and> length (row_text vs) < 2 ^ 24) rows" and "length eof < 2 ^ 16"
  shows "\<exists>s1. read_rows env f names got s = Some (Some (got @ map (\<lambda>vs. map_of (rev (zip names vs))) rows), s1)"
  using assms
proof (induction rows arbitrary: s k got)
  case Nil
  then have "serves env f s (packet_text (word_of_nat k) (254 # eof) @ numbered (Suc k) ps)" by simp
  then obtain s1 where "read_packet env f s = Some ((uint (word_of_nat k :: byte), 254 # eof), s1)"
    by (rule serves_packet) (use Nil.prems in simp)
  then show ?case using uint_not_neg by (simp add: read_rows.simps)
next
  case (Cons vs rows)
  then have "serves env f s (packet_text (word_of_nat k) (row_text vs) @ numbered (Suc k) (map row_text rows @ (254 # eof) # ps))" by simp
  then obtain s1 where s1: "read_packet env f s = Some ((uint (word_of_nat k :: byte), row_text vs), s1)"
      "serves env f s1 (numbered (Suc k) (map row_text rows @ (254 # eof) # ps))"
    by (rule serves_packet) (use Cons.prems in simp)
  have head: "row_text vs \<noteq> [] \<and> hd (row_text vs) \<noteq> 254" using Cons.prems by (intro row_text_head) auto
  have "at_text (mysql_decoder (row_text vs)) (row_text vs)" using Cons.prems by (simp add: at_text_def mysql_decoder_def)
  then have "read_row names Map.empty (mysql_decoder (row_text vs)) = Some (map_of (rev (zip names vs)))"
    using read_row_text [of _ vs names Map.empty] Cons.prems by simp
  then have "read_rows env f names got s = read_rows env f names (got @ [map_of (rev (zip names vs))]) s1"
    using s1(1) head uint_not_neg by (simp add: read_rows.simps [of env f names got s])
  then show ?case using Cons.IH [OF s1(2), of "got @ [map_of (rev (zip names vs))]"] Cons.prems by simp
qed

lemma selection_read:
  assumes "serves env f s (numbered k (selection eof cols rows))" and "cols \<noteq> []" and "length cols < 2 ^ 24" and "list_all column_ok cols"
    and "list_all (\<lambda>c. length (column_text c) < 2 ^ 24) cols" and "length eof < 2 ^ 16"
    and "list_all (\<lambda>vs. length vs = length cols \<and> length (row_text vs) < 2 ^ 24) rows"
  shows "map_option fst (select_result env f s) =
    Some (sql_result\<lparr>sr_rows := Some (map (\<lambda>vs. map_of (rev (zip (map column_name cols) vs))) rows)\<rparr>)"
proof -
  have "serves env f s (packet_text (word_of_nat k) (lenc (length cols)) @
      numbered (Suc k) (map column_text cols @ (254 # eof) # map row_text rows @ [254 # eof]))"
    using assms(1) by (simp add: selection_def)
  moreover have len: "length (lenc (length cols)) < 2 ^ 24" by (simp add: lenc_def)
  ultimately obtain s1 where s1: "read_packet env f s = Some ((uint (word_of_nat k :: byte), lenc (length cols)), s1)"
      "serves env f s1 (numbered (Suc k) (map column_text cols @ (254 # eof) # map row_text rows @ [254 # eof]))"
    by (rule serves_packet)
  have head: "lenc (length cols) \<noteq> [] \<and> hd (lenc (length cols)) \<noteq> 255"
  proof -
    have "n < 251 \<Longrightarrow> (word_of_nat n :: byte) \<noteq> 255" for n
    proof
      assume n: "n < 251" "(word_of_nat n :: byte) = 255"
      then have "unat (word_of_nat n :: byte) = 255" by simp
      then show False using n(1) by (simp add: unat_of_nat)
    qed
    then show ?thesis by (auto simp: lenc_def)
  qed
  have "at_text (mysql_decoder (lenc (length cols))) (lenc (length cols) @ [])" using len by (simp add: at_text_def mysql_decoder_def)
  then obtain d1 where d1: "lenint (mysql_decoder (lenc (length cols))) = Some (word_of_nat (length cols), d1)"
    using lenint_small [OF _ assms(3)] by blast
  obtain s2 where s2: "read_fields env f (length cols) s1 = Some (Some (map column_name cols), s2)"
      "serves env f s2 (numbered (Suc k + length cols) ((254 # eof) # map row_text rows @ [254 # eof]))"
    using serves_columns [OF s1(2) assms(4,5)] by blast
  then have "serves env f s2 (packet_text (word_of_nat (Suc k + length cols)) (254 # eof) @
      numbered (Suc (Suc k + length cols)) (map row_text rows @ [254 # eof]))" by simp
  then obtain s3 where s3: "read_packet env f s2 = Some ((uint (word_of_nat (Suc k + length cols) :: byte), 254 # eof), s3)"
      "serves env f s3 (numbered (Suc (Suc k + length cols)) (map row_text rows @ (254 # eof) # []))"
    by (rule serves_packet) (use assms(6) in simp)
  obtain s4 where "read_rows env f (map column_name cols) [] s3 =
      Some (Some (map (\<lambda>vs. map_of (rev (zip (map column_name cols) vs))) rows), s4)"
    using serves_rows [OF s3(2), of "map column_name cols" "[]"] assms(2,6,7) by auto
  then show ?thesis
    using s1(1) head d1 small_count [OF assms(3)] s2(1) s3(1) uint_not_neg by (simp add: select_result_def)
qed

section \<open>Commands on a connection that works\<close>

text \<open>
  What the commands rely on while nothing fails: the connection stays open, the lock is granted, writes
  go through.
\<close>

definition healthy :: "env \<Rightarrow> fd \<Rightarrow> bool" where
  "healthy env f \<longleftrightarrow>
     (\<forall>h. a_ret (answers env (h @ [AOther ''is_closed'' [LInt f]])) = 0 \<and>
          a_ret (answers env (h @ [AOther ''is_error'' [LInt f]])) = 0 \<and>
          a_ret (answers env (h @ [AOther ''command_lock'' []])) = 1 \<and>
          (\<forall>data. 0 \<le> a_ret (answers env (h @ [AOther ''write'' [LInt f, LStr data]]))))"

definition ready :: "mysql \<Rightarrow> fd \<Rightarrow> bool" where
  "ready m f \<longleftrightarrow> my_connection m = Some f \<and> my_authenticated m"

lemma healthy_answers:
  assumes "healthy env f"
  shows "a_ret (fst (os_call env ''is_closed'' [LInt f] s)) = 0" "a_ret (fst (os_call env ''is_error'' [LInt f] s)) = 0"
    "a_ret (fst (os_call env ''command_lock'' [] s)) = 1" "0 \<le> a_ret (fst (os_call env ''write'' [LInt f, LStr data] s))"
  using spec [OF assms [unfolded healthy_def], of "hist s"] by (simp_all add: os_call_result)

lemma raw_exec_ready:
  assumes "healthy env f" and "ready m f" and "serves env f s bs"
  obtains s1 where "raw_exec env lib stk query m s = Some ((sql_result, Some f), m, s1)" "serves env f s1 bs"
proof -
  define c where "c = os_call env ''is_closed'' [LInt f] s"
  define e where "e = os_call env ''is_error'' [LInt f] (snd c)"
  define w where "w = os_call env ''write'' [LInt f, LStr (command_text query)] (snd e)"
  have ret: "a_ret (fst c) = 0" "a_ret (fst e) = 0" "0 \<le> a_ret (fst w)"
    unfolding c_def e_def w_def by (rule healthy_answers [OF assms(1)])+
  have "serves env f (snd c) bs"
    using assms(3) by (rule serves_other [where name = "''is_closed''" and args = "[LInt f]"]) (simp_all add: c_def)
  then have "serves env f (snd e) bs"
    by (rule serves_other [where name = "''is_error''" and args = "[LInt f]"]) (simp_all add: e_def)
  then have "serves env f (snd w) bs"
    by (rule serves_other [where name = "''write''" and args = "[LInt f, LStr (command_text query)]"]) (simp_all add: w_def)
  moreover have "obtain_connection env lib stk m s = Some (((False, []), Some f), m, snd e)"
    using assms(2) ret(1,2) by (simp add: obtain_connection_def conn_alive_def ready_def c_def [symmetric] e_def [symmetric] Let_def)
  then have "raw_exec env lib stk query m s = Some ((sql_result, Some f), m, snd w)"
    using ret(3) by (simp add: raw_exec_def fd_write_def w_def [symmetric] Let_def)
  ultimately show thesis using that by blast
qed

lemma exec_ready:
  assumes "healthy env f" and "ready m f" and "serves env f s (packet_text q p @ bs)" and "p \<noteq> []" and "length p < 2 ^ 24"
    and "decode_status (mysql_decoder p) = Some r"
  obtains s1 where "exec_subproc env lib stk query m s = Some (r, m, s1)" "serves env f s1 bs"
proof -
  obtain s1 where s1: "raw_exec env lib stk query m s = Some ((sql_result, Some f), m, s1)" "serves env f s1 (packet_text q p @ bs)"
    by (rule raw_exec_ready [OF assms(1,2,3)])
  obtain s2 where s2: "read_packet env f s1 = Some ((uint q, p), s2)" "serves env f s2 bs"
    by (rule serves_packet [OF s1(2) assms(5)])
  have "\<not> sr_error sql_result" by (simp add: sql_result_def)
  then have "exec_subproc env lib stk query m s = Some (r, m, s2)"
    using s1(1) s2(1) assms(4,6) uint_not_neg by (simp add: exec_subproc_def)
  then show thesis using that s2(2) by blast
qed

lemma locked_ready:
  assumes "healthy env f" and "serves env f s bs"
  obtains s1 where "command_lock env s = (True, s1)" "serves env f s1 bs"
proof -
  let ?l = "os_call env ''command_lock'' [] s"
  have "serves env f (snd ?l) bs"
    using assms(2) by (rule serves_other [where name = "''command_lock''" and args = "[]"]) simp_all
  moreover have "command_lock env s = (True, snd ?l)"
    using healthy_answers(3) [OF assms(1)] by (simp add: command_lock_def Let_def)
  ultimately show thesis using that by blast
qed

lemma selection_answered:
  assumes "healthy env f" and "ready m f" and "serves env f s (numbered k (selection eof cols rows))" and "cols \<noteq> []"
    and "length cols < 2 ^ 24" and "list_all column_ok cols" and "list_all (\<lambda>c. length (column_text c) < 2 ^ 24) cols"
    and "length eof < 2 ^ 16" and "list_all (\<lambda>vs. length vs = length cols \<and> length (row_text vs) < 2 ^ 24) rows"
  shows "map_option fst (native_select env lib stk query m s) =
    Some (sql_result\<lparr>sr_rows := Some (map (\<lambda>vs. map_of (rev (zip (map column_name cols) vs))) rows)\<rparr>)"
proof -
  obtain s1 where s1: "command_lock env s = (True, s1)" "serves env f s1 (numbered k (selection eof cols rows))"
    by (rule locked_ready [OF assms(1,3)])
  obtain s2 where s2: "raw_exec env lib stk query m s1 = Some ((sql_result, Some f), m, s2)"
      "serves env f s2 (numbered k (selection eof cols rows))"
    by (rule raw_exec_ready [OF assms(1,2) s1(2)])
  have "\<not> sr_error sql_result" by (simp add: sql_result_def)
  then show ?thesis
    using s1(1) s2(1) selection_read [OF s2(2) assms(4-9)] by (auto simp: native_select_def locked_def select_subproc_def)
qed

text \<open>
  C24. What the server sends as a selection is what the caller gets: every row, with its values under the names of the columns.
\<close>

theorem selection_returns:
  assumes "healthy env f" and "ready m f" and "serves env f s (numbered k (selection eof cols rows))" and "cols \<noteq> []"
    and "length cols < 2 ^ 24" and "list_all column_ok cols" and "list_all (\<lambda>c. length (column_text c) < 2 ^ 24) cols"
    and "length eof < 2 ^ 16" and "list_all (\<lambda>vs. length vs = length cols \<and> length (row_text vs) < 2 ^ 24) rows"
  shows "map_option fst (native_select env lib stk query m s) =
    Some (sql_result\<lparr>sr_rows := Some (map (\<lambda>vs. map_of (rev (zip (map column_name cols) vs))) rows)\<rparr>)"
  using assms by (rule selection_answered)

section \<open>Transactions on a connection that works\<close>

text \<open>A statement that is neither a marker nor a selection, and a response that reports success.\<close>

definition plain_statement :: "byte list \<Rightarrow> bool" where
  "plain_statement q \<longleftrightarrow> q \<notin> {cstr ''@B0'', cstr ''@B1'', cstr ''@R0'', cstr ''@R1''} \<and> \<not> prefix (cstr ''SELECT '') q"

definition reports :: "byte list \<Rightarrow> sql_result \<Rightarrow> bool" where
  "reports p r \<longleftrightarrow> p \<noteq> [] \<and> length p < 2 ^ 24 \<and> decode_status (mysql_decoder p) = Some r"

lemma exec_reports:
  assumes "healthy env f" and "ready m f" and "serves env f s (packet_text q p @ bs)" and "reports p r"
  shows "\<exists>s1. exec_subproc env lib stk query m s = Some (r, m, s1) \<and> serves env f s1 bs"
  by (rule exec_ready [OF assms(1-3)]) (use assms(4) in \<open>auto simp: reports_def\<close>)

lemma tx_queries_ready:
  assumes "healthy env f" and "ready m f" and "list_all plain_statement qs" and "list_all2 reports ps rs" and "length ps = length qs"
    and "list_all sr_ok rs" and "serves env f s (concat (map (packet_text 1) ps) @ bs)"
  shows "\<exists>s1. tx_queries env lib stk first qs r m s = Some (TxCommit (last (r # rs)), m, s1) \<and> serves env f s1 bs"
  using assms(3-)
proof (induction qs arbitrary: ps rs r s)
  case Nil
  then show ?case by simp
next
  case (Cons q qs)
  then obtain p ps' where ps: "ps = p # ps'" by (cases ps) auto
  then obtain r1 rs' where rs: "rs = r1 # rs'" "reports p r1" "list_all2 reports ps' rs'"
    using Cons.prems(2) by (auto simp: list_all2_Cons1)
  have "serves env f s (packet_text 1 p @ concat (map (packet_text 1) ps') @ bs)" using Cons.prems(5) by (simp add: ps)
  then obtain s1 where s1: "exec_subproc env lib stk q m s = Some (r1, m, s1)" "serves env f s1 (concat (map (packet_text 1) ps') @ bs)"
    using exec_reports [OF assms(1,2) _ rs(2)] by blast
  obtain s2 where "tx_queries env lib stk first qs r1 m s1 = Some (TxCommit (last (r1 # rs')), m, s2)" "serves env f s2 bs"
    using Cons.IH [of ps' rs' s1 r1] Cons.prems rs s1(2) by (auto simp: ps)
  then show ?case using s1(1) Cons.prems(1,4) by (auto simp: plain_statement_def rs(1))
qed

text \<open>
  C36. A transaction whose statements succeed returns the result of the last one, whatever \<open>COMMIT\<close> reports:
  that the server refused to commit is not told.
\<close>

theorem commit_result_hidden:
  assumes "healthy env f" and "ready m f" and "qs \<noteq> []" and "list_all plain_statement qs" and "list_all2 reports ps rs"
    and "length ps = length qs" and "list_all sr_ok rs" and "reports started start" and "sr_ok start"
    and "reports committed commit" and "serves env f s (concat (map (packet_text 1) (started # ps @ [committed])) @ bs)"
  shows "map_option fst (atomically env lib stk qs m s) = Some (last rs) \<and> sr_ok (last rs)"
proof -
  obtain s1 where s1: "command_lock env s = (True, s1)" "serves env f s1 (packet_text 1 started @ concat (map (packet_text 1) ps) @ packet_text 1 committed @ bs)"
    using locked_ready [OF assms(1,11)] by auto
  obtain s2 where s2: "exec_subproc env lib stk (cstr ''START TRANSACTION'') m s1 = Some (start, m, s2)"
      "serves env f s2 (concat (map (packet_text 1) ps) @ packet_text 1 committed @ bs)"
    using exec_reports [OF assms(1,2) s1(2) assms(8)] by blast
  have "length rs = length qs" using assms(5,6) by (auto dest: list_all2_lengthD)
  then have rs: "rs \<noteq> []" using assms(3) by auto
  obtain s3 where s3: "tx_queries env lib stk True qs sql_result m s2 = Some (TxCommit (last rs), m, s3)"
      "serves env f s3 (packet_text 1 committed @ bs)"
    using tx_queries_ready [OF assms(1,2,4,5,6,7) s2(2), of lib stk True sql_result] rs by auto
  obtain s4 where s4: "exec_subproc env lib stk (cstr ''COMMIT'') m s3 = Some (commit, m, s4)"
    using exec_reports [OF assms(1,2) s3(2) assms(10)] by blast
  have "sr_ok (last rs)" using assms(7) rs by (simp add: list_all_iff)
  then show ?thesis
    using s1(1) s2(1) s3(1) s4 assms(9) by (simp add: atomically_def locked_def tx_body_def tx_round_def tx_finish_def)
qed

section \<open>A server that works\<close>

lemma serves_cong:
  assumes "\<And>h n. answers env' (h @ [AOther ''read_n'' n]) = answers env (h @ [AOther ''read_n'' n])"
    and "\<And>h n. answers env' (h @ [AOther ''read_until'' n]) = answers env (h @ [AOther ''read_until'' n])" and "serves env f s bs"
  shows "serves env' f s bs"
proof -
  have "taken_by env' f h a = taken_by env f h a" for h a
    using assms(1,2) by (auto simp: taken_by_def split: action.splits list.splits lua_value.splits)
  then have "taken env' f h tr = taken env f h tr" for h tr
    by (induction tr arbitrary: h) auto
  then show ?thesis using assms(3) assms(1,2) [of "hist s @ _"] by (simp add: serves_def)
qed

definition live_env :: "fd \<Rightarrow> byte list \<Rightarrow> env" where
  "live_env f bs = (feed_env f bs)\<lparr>answers := \<lambda>h.
     (if last h \<in> {AOther ''is_closed'' [LInt f], AOther ''is_error'' [LInt f]} then answers (const_env 0) h
      else if \<exists>data. last h = AOther ''write'' [LInt f, LStr data] then answers (const_env 0) h
      else if last h = AOther ''command_lock'' [] then answers (const_env 1) h
      else answers (feed_env f bs) h)\<rparr>"

lemma live_env_healthy: "healthy (live_env f bs) f"
  by (simp add: healthy_def live_env_def)

lemma live_env_serves: "hist s = [] \<Longrightarrow> serves (live_env f bs) f s bs"
  by (rule serves_cong [OF _ _ feed_env_serves]) (simp_all add: live_env_def)

section \<open>Examples\<close>

definition some_client :: mysql where
  "some_client = \<lparr>my_user = cstr ''u'', my_password = cstr ''p'', my_host = cstr ''h'', my_port = 3306, my_db_name = cstr ''d'',
     my_authenticated = True, my_is_connecting = False, my_login_provided = True, my_enqueued_sql = [], my_connection = Some 3\<rparr>"

lemma some_client_ready: "ready some_client 3"
  by (simp add: ready_def some_client_def)

definition some_column :: column where
  "some_column = Column (cstr ''def'') [] [] [] (cstr ''a'') [] (12 # replicate 12 0)"

theorem selection_returns_witness:
  "map_option fst (native_select (live_env 3 (numbered 1 (selection [0, 0] [some_column] [[cstr ''7''], [[]]]))) plain_lib
      (\<lambda>_. 0) (cstr ''SELECT a'') some_client idle_server) =
    Some (sql_result\<lparr>sr_rows := Some (map (\<lambda>vs. map_of (rev (zip (map column_name [some_column]) vs))) [[cstr ''7''], [[]]])\<rparr>)"
  by (rule selection_returns [OF live_env_healthy some_client_ready live_env_serves])
    (simp_all add: idle_server_def some_column_def lenstr_def lenc_def row_text_def cstr_def)

lemma some_reports:
  "reports [0, 1, 0, 2, 0, 0, 0] (sql_result\<lparr>sr_affected_rows := 1, sr_last_insert_id := 0, sr_info := []\<rparr>)"
  "reports [255, 0] (sql_result\<lparr>sr_error := True, sr_message := cstr ''unknown error''\<rparr>)"
  by (simp_all add: reports_def decode_status_def md_int_def lenint_def md_length_def sz_def md_bytes_def md_move_def le_int_def
      mysql_decoder_def int_of_def sql_result_def)

lemma some_ok: "sr_ok (sql_result\<lparr>sr_affected_rows := 1, sr_last_insert_id := 0, sr_info := []\<rparr>)"
  by (simp add: sr_ok_def sql_result_def)

theorem commit_result_hidden_witness:
  "map_option fst (atomically (live_env 3 (concat (map (packet_text 1) ([0, 1, 0, 2, 0, 0, 0] # [[0, 1, 0, 2, 0, 0, 0]] @ [[255, 0]])) @ []))
      plain_lib (\<lambda>_. 0) [cstr ''DELETE FROM t''] some_client idle_server) =
    Some (last [sql_result\<lparr>sr_affected_rows := 1, sr_last_insert_id := 0, sr_info := []\<rparr>]) \<and>
   sr_ok (last [sql_result\<lparr>sr_affected_rows := 1, sr_last_insert_id := 0, sr_info := []\<rparr>])"
  by (rule commit_result_hidden [OF live_env_healthy some_client_ready _ _ _ _ _ some_reports(1) _ some_reports(2) live_env_serves])
    (simp_all add: idle_server_def plain_statement_def cstr_def some_reports some_ok)

end
