(* ===== verification/Disk_Store.thy ===== *)
theory Disk_Store
  imports Web_Text "HOL-Library.List_Lexorder"
begin

text \<open>
  Files on disk behind a cache, \<^verbatim>\<open>src/90s/storage/disk_storage.cpp\<close>.  The cache is ordered by its keys, as
  \<open>std::map\<close> is; its lock makes each of its operations one step, so between them other threads may run.
  The file system is the environment.
\<close>

section \<open>The cache\<close>

abbreviation (input) MAX_CACHE_SIZE :: nat where "MAX_CACHE_SIZE \<equiv> 2 ^ 32"

record disk_cache =
  dk_items :: "(byte list \<times> byte list) list"
  dk_hits :: nat
  dk_misses :: nat
  dk_size :: nat
  dk_evictions :: nat

definition disk_cache :: disk_cache where
  "disk_cache = \<lparr>dk_items = [], dk_hits = 0, dk_misses = 0, dk_size = 0, dk_evictions = 0\<rparr>"

text \<open>\<open>cache_size -= n\<close> in 64 bits, and \<open>std::map::insert\<close>.\<close>

definition less_size :: "nat \<Rightarrow> nat \<Rightarrow> nat" where
  "less_size a b = sz (a + (2 ^ 64 - b mod 2 ^ 64))"

fun map_insert :: "byte list \<Rightarrow> byte list \<Rightarrow> (byte list \<times> byte list) list \<Rightarrow> (byte list \<times> byte list) list" where
  "map_insert k v [] = [(k, v)]"
| "map_insert k v ((l, w) # es) =
     (if k < l then (k, v) # (l, w) # es else if k = l then (l, w) # es else (l, w) # map_insert k v es)"

text \<open>\<open>it->second.size()\<close> off the size, one more eviction.\<close>

definition drop_item :: "byte list \<Rightarrow> byte list \<Rightarrow> disk_cache \<Rightarrow> disk_cache" where
  "drop_item k v c =
     c\<lparr>dk_size := less_size (dk_size c) (length v), dk_evictions := sz (dk_evictions c + 1),
       dk_items := filter (\<lambda>e. fst e \<noteq> k) (dk_items c)\<rparr>"

function make_room :: "nat \<Rightarrow> disk_cache \<Rightarrow> disk_cache" where
  "make_room n c =
     (case dk_items c of
        [] \<Rightarrow> c
      | (k, v) # _ \<Rightarrow> if MAX_CACHE_SIZE \<le> sz (dk_size c + n) then make_room n (drop_item k v c) else c)"
  by pat_completeness auto
termination
  by (relation "measure (\<lambda>(n, c). length (dk_items c))") (auto simp: drop_item_def less_Suc_eq_le)

declare make_room.simps [simp del]

definition cache_find :: "byte list \<Rightarrow> disk_cache \<Rightarrow> byte list option" where
  "cache_find path c = map_of (dk_items c) path"

definition cache_store :: "byte list \<Rightarrow> byte list \<Rightarrow> disk_cache \<Rightarrow> disk_cache" where
  "cache_store path data c =
     (if MAX_CACHE_SIZE < length data then c
      else
        (let c1 = (case cache_find path c of None \<Rightarrow> c | Some v \<Rightarrow> drop_item path v c);
             c2 = make_room (length data) c1 in
         c2\<lparr>dk_items := map_insert path data (dk_items c2), dk_size := sz (dk_size c2 + length data)\<rparr>))"

definition cache_evict :: "byte list \<Rightarrow> disk_cache \<Rightarrow> disk_cache" where
  "cache_evict path c =
     (if suffix (cstr ''/'') path then
        (let gone = filter (\<lambda>e. prefix path (fst e)) (dk_items c) in
         c\<lparr>dk_items := filter (\<lambda>e. \<not> prefix path (fst e)) (dk_items c), dk_evictions := sz (dk_evictions c + length gone)\<rparr>)
      else (case cache_find path c of None \<Rightarrow> c | Some v \<Rightarrow> drop_item path v c))"

section \<open>Files\<close>

definition DISK_WRITE :: string where "DISK_WRITE = ''disk_write''"
definition DISK_DELETE_ERROR :: string where "DISK_DELETE_ERROR = ''disk_delete''"
definition DISK_CREATE_DIRECTORIES :: string where "DISK_CREATE_DIRECTORIES = ''disk_directories''"
definition INVALID_ENTITY :: string where "INVALID_ENTITY = ''invalid_entity''"

definition disk_root :: "byte list \<Rightarrow> byte list" where
  "disk_root root = (if suffix (cstr ''/'') root then take (length root - 1) root else root)"

definition full_path :: "byte list \<Rightarrow> byte list \<Rightarrow> byte list" where
  "full_path root path = root @ cstr ''/'' @ path"

text \<open>The directory above the file: whether it is there, or could be made; an exception is a negative answer.\<close>

definition make_dirs :: "env \<Rightarrow> byte list \<Rightarrow> server \<Rightarrow> bool \<times> server" where
  "make_dirs env full s =
     (let e = os_call env ''parent_exists'' [LStr full] s in
      if a_ret (fst e) \<noteq> 0 then (True, snd e)
      else (let d = os_call env ''create_directories'' [LStr full] (snd e) in (0 < a_ret (fst d), snd d)))"

definition disk_store :: "env \<Rightarrow> byte list \<Rightarrow> byte list \<Rightarrow> byte list \<Rightarrow> nat \<Rightarrow> disk_cache \<Rightarrow> server \<Rightarrow>
    (string + byte list) \<times> disk_cache \<times> server" where
  "disk_store env root path data flags c s =
     (let full = full_path root path; d = make_dirs env full s in
      if \<not> fst d then (Inl DISK_CREATE_DIRECTORIES, c, snd d)
      else
        (let f = os_call env ''fopen'' [LStr full, LStr (cstr ''wb'')] (snd d) in
         if a_ret (fst f) = 0 then (Inl DISK_WRITE, c, snd f)
         else
           (let w = os_call env ''fwrite'' [LInt (a_ret (fst f)), LStr data] (snd f);
                written = (if data = [] then 0 else a_ret (fst w));
                s1 = snd (os_call env ''fclose'' [LInt (a_ret (fst f))] (snd w)) in
            if written \<noteq> 1 then (Inl DISK_WRITE, c, s1)
            else (Inr full, if bit flags 2 then cache_store path data c else c, s1))))"

text \<open>The two steps of \<open>load\<close>: the look into the cache, and in another thread the file.\<close>

definition load_cached :: "byte list \<Rightarrow> disk_cache \<Rightarrow> byte list option \<times> disk_cache" where
  "load_cached path c =
     (case cache_find path c of
        Some v \<Rightarrow> (Some v, c\<lparr>dk_hits := sz (dk_hits c + 1)\<rparr>)
      | None \<Rightarrow> (None, c\<lparr>dk_misses := sz (dk_misses c + 1)\<rparr>))"

definition load_file :: "env \<Rightarrow> byte list \<Rightarrow> byte list \<Rightarrow> disk_cache \<Rightarrow> server \<Rightarrow> (string + byte list) \<times> disk_cache \<times> server" where
  "load_file env root path c s =
     (let f = os_call env ''ifstream'' [LStr (full_path root path)] s in
      if a_ret (fst f) < 0 then (Inl INVALID_ENTITY, c, snd f)
      else
        (let r = os_call env ''read_all'' [LStr (full_path root path)] (snd f) in
         if a_ret (fst r) < 0 then (Inl INVALID_ENTITY, c, snd r)
         else (Inr (a_bytes (fst r)), cache_store path (a_bytes (fst r)) c, snd r)))"

definition disk_load :: "env \<Rightarrow> byte list \<Rightarrow> byte list \<Rightarrow> disk_cache \<Rightarrow> server \<Rightarrow> (string + byte list) \<times> disk_cache \<times> server" where
  "disk_load env root path c s =
     (case load_cached path c of
        (Some v, c1) \<Rightarrow> (Inr v, c1, s)
      | (None, c1) \<Rightarrow> load_file env root path c1 s)"

definition disk_remove :: "env \<Rightarrow> byte list \<Rightarrow> byte list \<Rightarrow> disk_cache \<Rightarrow> server \<Rightarrow> (string + int) \<times> disk_cache \<times> server" where
  "disk_remove env root path c s =
     (let full = full_path root path; c1 = cache_evict path c in
      if suffix (cstr ''/'') full then
        (let r = os_call env ''remove_all'' [LStr (take (length full - 1) full)] s in
         (if a_ret (fst r) < 0 then Inl DISK_DELETE_ERROR else Inr (a_ret (fst r)), c1, snd r))
      else
        (let r = os_call env ''remove'' [LStr full] s in
         (if a_ret (fst r) < 0 then Inl DISK_DELETE_ERROR else Inr (if a_ret (fst r) \<noteq> 0 then 1 else 0), c1, snd r)))"

definition get_reference :: "byte list \<Rightarrow> byte list \<Rightarrow> string + byte list" where
  "get_reference root path = Inr (full_path root path)"

definition purge_temp :: "byte list \<Rightarrow> string + bool" where
  "purge_temp path = Inr True"

definition get_cache_stats :: "disk_cache \<Rightarrow> nat \<times> nat \<times> nat \<times> nat" where
  "get_cache_stats c = (dk_hits c, dk_misses c, dk_size c, dk_evictions c)"

section \<open>The cache as a map\<close>

lemma find_simps [simp]:
  "cache_find p (c\<lparr>dk_size := n\<rparr>) = cache_find p c" "cache_find p (c\<lparr>dk_evictions := n\<rparr>) = cache_find p c"
  "cache_find p (c\<lparr>dk_hits := n\<rparr>) = cache_find p c" "cache_find p (c\<lparr>dk_misses := n\<rparr>) = cache_find p c"
  by (simp_all add: cache_find_def)

text \<open>Keys in order, each once; the sum of the sizes.\<close>

definition ordered :: "(byte list \<times> byte list) list \<Rightarrow> bool" where
  "ordered es \<longleftrightarrow> sorted_wrt (<) (map fst es)"

definition bytes_in :: "(byte list \<times> byte list) list \<Rightarrow> nat" where
  "bytes_in es = sum_list (map (length \<circ> snd) es)"

lemma insert_keys: "fst ` set (map_insert k v es) = insert k (fst ` set es)"
  by (induction k v es rule: map_insert.induct) auto

lemma insert_ordered: "ordered es \<Longrightarrow> ordered (map_insert k v es)"
proof (induction k v es rule: map_insert.induct)
  case (2 k v l w es)
  then have IH: "k \<noteq> l \<Longrightarrow> \<not> k < l \<Longrightarrow> ordered (map_insert k v es)" by (simp add: ordered_def)
  have "y \<in> insert k (fst ` set es) \<Longrightarrow> l < k \<Longrightarrow> l < y" for y using "2.prems" by (auto simp: ordered_def)
  then have "l < k \<Longrightarrow> y \<in> fst ` set (map_insert k v es) \<Longrightarrow> l < y" for y by (simp add: insert_keys)
  then show ?case using IH "2.prems" by (auto simp: ordered_def)
qed (simp add: ordered_def)

lemma insert_find: "k \<notin> fst ` set es \<Longrightarrow> map_of (map_insert k v es) = (map_of es)(k \<mapsto> v)"
  by (induction k v es rule: map_insert.induct) (auto simp: fun_eq_iff)

lemma insert_bytes: "k \<notin> fst ` set es \<Longrightarrow> bytes_in (map_insert k v es) = bytes_in es + length v"
  by (induction k v es rule: map_insert.induct) (auto simp: bytes_in_def)

lemma filter_ordered: "ordered es \<Longrightarrow> ordered (filter p es)"
  by (induction es) (auto simp: ordered_def)

lemma filter_bytes: "bytes_in es = bytes_in (filter p es) + bytes_in (filter (\<lambda>e. \<not> p e) es)"
  by (induction es) (auto simp: bytes_in_def)

lemma one_key_bytes:
  assumes "ordered es" and "(k, v) \<in> set es"
  shows "bytes_in es = bytes_in (filter (\<lambda>e. fst e \<noteq> k) es) + length v"
  using assms
proof (induction es)
  case (Cons e es)
  have rest: "ordered es" "\<And>x. x \<in> set es \<Longrightarrow> fst e < fst x" using Cons.prems(1) by (auto simp: ordered_def)
  show ?case
  proof (cases "e = (k, v)")
    case True
    then have "filter (\<lambda>e. fst e \<noteq> k) es = es" using rest(2) by (force simp: filter_id_conv)
    then show ?thesis using True by (simp add: bytes_in_def)
  next
    case False
    then have "(k, v) \<in> set es" using Cons.prems(2) by simp
    then have "fst e \<noteq> k" using rest(2) by fastforce
    then show ?thesis using Cons.IH [OF rest(1) \<open>(k, v) \<in> set es\<close>] by (simp add: bytes_in_def)
  qed
qed simp

text \<open>
  What the cache thinks it holds is what it holds and \<open>d\<close> more: the bytes that went with directories.
\<close>

definition accounts :: "nat \<Rightarrow> disk_cache \<Rightarrow> bool" where
  "accounts d c \<longleftrightarrow> ordered (dk_items c) \<and> dk_size c = bytes_in (dk_items c) + d \<and> bytes_in (dk_items c) \<le> MAX_CACHE_SIZE"

lemma less_size_exact: "b \<le> a \<Longrightarrow> a < 2 ^ 64 \<Longrightarrow> less_size a b = a - b"
proof -
  assume b: "b \<le> a" "a < 2 ^ 64"
  then have "a + (2 ^ 64 - b mod 2 ^ 64) = (a - b) + 2 ^ 64" by simp
  then have "less_size a b = (a - b) mod 2 ^ 64" unfolding less_size_def sz_def by (simp only: mod_add_self2)
  then show ?thesis using b by simp
qed

lemma drop_accounts:
  assumes "accounts d c" and "(k, v) \<in> set (dk_items c)" and "d < 2 ^ 63"
  shows "accounts d (drop_item k v c) \<and> bytes_in (dk_items c) = bytes_in (dk_items (drop_item k v c)) + length v"
proof -
  have sum: "bytes_in (dk_items c) = bytes_in (filter (\<lambda>e. fst e \<noteq> k) (dk_items c)) + length v"
    using assms(1,2) one_key_bytes by (simp add: accounts_def)
  then have "less_size (dk_size c) (length v) = dk_size c - length v"
    using assms(1,3) by (intro less_size_exact) (auto simp: accounts_def)
  then show ?thesis using assms(1) sum filter_ordered by (simp add: accounts_def drop_item_def)
qed

lemma make_room_result:
  assumes "accounts d c" and "d < 2 ^ 63" and "n \<le> MAX_CACHE_SIZE"
  shows "accounts d (make_room n c) \<and> set (dk_items (make_room n c)) \<subseteq> set (dk_items c) \<and>
    (dk_items (make_room n c) = [] \<or> bytes_in (dk_items (make_room n c)) + d + n < MAX_CACHE_SIZE)"
  using assms
proof (induction n c rule: make_room.induct)
  case (1 n c)
  show ?case
  proof (cases "dk_items c")
    case Nil
    then show ?thesis using "1.prems" by (auto simp: make_room.simps [of n c])
  next
    case (Cons e es)
    obtain k v where e: "e = (k, v)" by force
    have small: "sz (dk_size c + n) = bytes_in (dk_items c) + d + n"
      using "1.prems" by (simp add: accounts_def)
    have acc: "accounts d (drop_item k v c)" using drop_accounts "1.prems" Cons e by simp
    have IH: "MAX_CACHE_SIZE \<le> sz (dk_size c + n) \<Longrightarrow>
        accounts d (make_room n (drop_item k v c)) \<and> set (dk_items (make_room n (drop_item k v c))) \<subseteq> set (dk_items (drop_item k v c)) \<and>
        (dk_items (make_room n (drop_item k v c)) = [] \<or> bytes_in (dk_items (make_room n (drop_item k v c))) + d + n < MAX_CACHE_SIZE)"
      using "1.IH" [of e es k v] Cons e acc "1.prems" by blast
    show ?thesis
    proof (cases "MAX_CACHE_SIZE \<le> sz (dk_size c + n)")
      case True
      then have "make_room n c = make_room n (drop_item k v c)" using Cons e by (simp add: make_room.simps [of n c])
      moreover have "set (dk_items (drop_item k v c)) \<subseteq> set (dk_items c)" by (auto simp: drop_item_def)
      ultimately show ?thesis using IH [OF True] by fastforce
    next
      case False
      then have "make_room n c = c" using Cons e by (simp add: make_room.simps [of n c])
      then show ?thesis using False small "1.prems"(1) by simp
    qed
  qed
qed

lemma store_items:
  assumes "accounts d c" and "d < 2 ^ 63" and "length data \<le> MAX_CACHE_SIZE"
  obtains es where "dk_items (cache_store path data c) = map_insert path data es" "path \<notin> fst ` set es" "ordered es"
    "es = [] \<or> bytes_in es + d + length data < MAX_CACHE_SIZE" "dk_size (cache_store path data c) = bytes_in es + d + length data"
    "set es \<subseteq> set (dk_items c)"
proof -
  define c1 where "c1 = (case cache_find path c of None \<Rightarrow> c | Some v \<Rightarrow> drop_item path v c)"
  have c1: "accounts d c1" "path \<notin> fst ` set (dk_items c1)" "set (dk_items c1) \<subseteq> set (dk_items c)"
  proof -
    show "accounts d c1"
      using drop_accounts [OF assms(1) _ assms(2)] assms(1) by (auto simp: c1_def cache_find_def dest: map_of_SomeD split: option.splits)
    show "path \<notin> fst ` set (dk_items c1)"
      by (auto simp: c1_def cache_find_def drop_item_def map_of_eq_None_iff split: option.splits)
    show "set (dk_items c1) \<subseteq> set (dk_items c)"
      by (auto simp: c1_def drop_item_def split: option.splits)
  qed
  note room = make_room_result [OF c1(1) assms(2,3)]
  let ?c2 = "make_room (length data) c1"
  have fresh: "path \<notin> fst ` set (dk_items ?c2)" using room c1(2) by auto
  have "sz (dk_size ?c2 + length data) = bytes_in (dk_items ?c2) + d + length data"
    using room assms(2,3) by (simp add: accounts_def)
  moreover have "cache_store path data c =
      ?c2\<lparr>dk_items := map_insert path data (dk_items ?c2), dk_size := sz (dk_size ?c2 + length data)\<rparr>"
    using assms(3) by (simp add: cache_store_def c1_def Let_def)
  moreover have "set (dk_items ?c2) \<subseteq> set (dk_items c)" using room c1(3) by auto
  ultimately show thesis using that [of "dk_items ?c2"] fresh room by (auto simp: accounts_def)
qed

lemma store_accounts:
  assumes "accounts d c" and "d < 2 ^ 63"
  shows "accounts d (cache_store path data c)"
proof (cases "length data \<le> MAX_CACHE_SIZE")
  case True
  from assms True show ?thesis
  proof (rule store_items [where path = path])
    fix es
    assume es: "dk_items (cache_store path data c) = map_insert path data es" "path \<notin> fst ` set es" "ordered es"
      "es = [] \<or> bytes_in es + d + length data < MAX_CACHE_SIZE" "dk_size (cache_store path data c) = bytes_in es + d + length data"
    have "bytes_in ([] :: (byte list \<times> byte list) list) = 0" by (simp add: bytes_in_def)
    then show "accounts d (cache_store path data c)"
      using es True by (auto simp: accounts_def insert_ordered insert_bytes)
  qed
next
  case False
  then show ?thesis using assms(1) by (simp add: cache_store_def)
qed

lemma store_find:
  assumes "accounts d c" and "d < 2 ^ 63" and "length data \<le> MAX_CACHE_SIZE"
  shows "cache_find path (cache_store path data c) = Some data"
  using assms by (rule store_items [where path = path]) (simp add: cache_find_def insert_find)

lemma evict_accounts:
  assumes "accounts d c" and "d < 2 ^ 63"
  shows "accounts (if suffix (cstr ''/'') path then d + bytes_in (filter (\<lambda>e. prefix path (fst e)) (dk_items c)) else d) (cache_evict path c)"
proof (cases "suffix (cstr ''/'') path")
  case True
  then show ?thesis
    using assms(1) filter_bytes [of "dk_items c" "\<lambda>e. prefix path (fst e)"] by (simp add: accounts_def cache_evict_def filter_ordered Let_def)
next
  case False
  then show ?thesis
    using drop_accounts [OF assms(1) _ assms(2)] assms(1) by (auto simp: cache_evict_def cache_find_def dest: map_of_SomeD split: option.splits)
qed

section \<open>Runs of the cache\<close>

datatype disk_event = DStore "byte list" "byte list" | DEvict "byte list"

definition disk_step :: "disk_event \<Rightarrow> disk_cache \<Rightarrow> disk_cache" where
  "disk_step ev c = (case ev of DStore p v \<Rightarrow> cache_store p v c | DEvict p \<Rightarrow> cache_evict p c)"

text \<open>No directory is removed.\<close>

definition file_event :: "disk_event \<Rightarrow> bool" where
  "file_event ev = (case ev of DStore p v \<Rightarrow> True | DEvict p \<Rightarrow> \<not> suffix (cstr ''/'') p)"

lemma start_accounts: "accounts 0 disk_cache"
  by (simp add: accounts_def disk_cache_def ordered_def bytes_in_def)

lemma file_events_account:
  assumes "accounts d c" and "d < 2 ^ 63" and "list_all file_event evs"
  shows "accounts d (fold disk_step evs c)"
  using assms(1,3)
proof (induction evs arbitrary: c)
  case (Cons ev evs)
  have "accounts d (disk_step ev c)"
  proof (cases ev)
    case (DStore p v)
    then show ?thesis using Cons.prems store_accounts [OF _ assms(2)] by (simp add: disk_step_def)
  next
    case (DEvict p)
    then show ?thesis using Cons.prems(2) evict_accounts [OF Cons.prems(1) assms(2), of p] by (simp add: disk_step_def file_event_def)
  qed
  then show ?case using Cons by simp
qed simp

text \<open>
  As long as only files are stored and removed, the keys stay in order, each once, the counter is the
  number of bytes in the cache, and those are at most the four gigabytes it may have.
\<close>

theorem cache_accounting:
  assumes "list_all file_event evs"
  shows "ordered (dk_items (fold disk_step evs disk_cache)) \<and>
    dk_size (fold disk_step evs disk_cache) = bytes_in (dk_items (fold disk_step evs disk_cache)) \<and>
    bytes_in (dk_items (fold disk_step evs disk_cache)) \<le> 2 ^ 32"
  using file_events_account [OF start_accounts _ assms] by (simp add: accounts_def)

theorem cache_accounting_witness:
  "ordered (dk_items (fold disk_step [DStore [97] [1, 2], DStore [98] [3], DEvict [97]] disk_cache)) \<and>
   dk_size (fold disk_step [DStore [97] [1, 2], DStore [98] [3], DEvict [97]] disk_cache) =
     bytes_in (dk_items (fold disk_step [DStore [97] [1, 2], DStore [98] [3], DEvict [97]] disk_cache)) \<and>
   bytes_in (dk_items (fold disk_step [DStore [97] [1, 2], DStore [98] [3], DEvict [97]] disk_cache)) \<le> 2 ^ 32"
  by (rule cache_accounting) (simp add: file_event_def cstr_def suffix_def)

section \<open>What the cache hands out\<close>

text \<open>
  The values last stored and not removed.  A value larger than the cache is passed over, and what was
  stored under the path before stays, as the code has it.
\<close>

definition stored_step :: "disk_event \<Rightarrow> (byte list \<rightharpoonup> byte list) \<Rightarrow> (byte list \<rightharpoonup> byte list)" where
  "stored_step ev m =
     (case ev of
        DStore p v \<Rightarrow> if MAX_CACHE_SIZE < length v then m else m(p \<mapsto> v)
      | DEvict p \<Rightarrow> if suffix (cstr ''/'') p then (\<lambda>k. if prefix p k then None else m k) else m(p := None))"

lemma filter_key: "map_of (filter (\<lambda>e. fst e \<noteq> k) es) = (map_of es)(k := None)"
  by (induction es) (auto simp: fun_eq_iff)

lemma filter_prefix: "map_of (filter (\<lambda>e. \<not> prefix p (fst e)) es) = (\<lambda>k. if prefix p k then None else map_of es k)"
  by (induction es) (auto simp: fun_eq_iff)

lemma drop_find: "(\<lambda>p. cache_find p (drop_item k v c)) = (\<lambda>p. cache_find p c)(k := None)"
  by (simp add: cache_find_def drop_item_def filter_key fun_eq_iff)

lemma cleared_le: "m(k := None) \<subseteq>\<^sub>m m"
  by (simp add: map_le_def)

lemma make_room_find: "(\<lambda>p. cache_find p (make_room n c)) \<subseteq>\<^sub>m (\<lambda>p. cache_find p c)"
proof (induction n c rule: make_room.induct)
  case (1 n c)
  have "(\<lambda>p. cache_find p (drop_item k v c)) \<subseteq>\<^sub>m (\<lambda>p. cache_find p c)" for k v by (simp only: drop_find cleared_le)
  then have "\<lbrakk>dk_items c = (k, v) # es; MAX_CACHE_SIZE \<le> sz (dk_size c + n)\<rbrakk> \<Longrightarrow>
      (\<lambda>p. cache_find p (make_room n (drop_item k v c))) \<subseteq>\<^sub>m (\<lambda>p. cache_find p c)" for k v es
    using "1.IH" [of "(k, v)" es k v] map_le_trans by blast
  then show ?case by (auto simp: make_room.simps [of n c] split: list.splits)
qed

lemma evict_find: "(\<lambda>p. cache_find p (cache_evict path c)) = stored_step (DEvict path) (\<lambda>p. cache_find p c)"
proof (cases "suffix (cstr ''/'') path")
  case True
  then show ?thesis by (simp add: cache_evict_def stored_step_def cache_find_def Let_def filter_prefix)
next
  case False
  then show ?thesis
    by (cases "cache_find path c") (auto simp: cache_evict_def stored_step_def drop_find [unfolded fun_eq_iff] fun_eq_iff)
qed

lemma stored_step_mono: "m \<subseteq>\<^sub>m m' \<Longrightarrow> stored_step ev m \<subseteq>\<^sub>m stored_step ev m'"
  by (cases ev) (auto simp: stored_step_def map_le_def dom_def)

lemma disk_step_le:
  "(\<lambda>p. cache_find p (disk_step ev c)) \<subseteq>\<^sub>m stored_step ev (\<lambda>p. cache_find p c)"
proof (cases ev)
  case (DStore path v)
  show ?thesis
  proof (cases "MAX_CACHE_SIZE < length v")
    case True
    then show ?thesis using DStore by (simp add: disk_step_def cache_store_def stored_step_def)
  next
    case False
  define c1 where "c1 = (case cache_find path c of None \<Rightarrow> c | Some v \<Rightarrow> drop_item path v c)"
  have c1: "(\<lambda>p. cache_find p c1) = (\<lambda>p. cache_find p c)(path := None)"
    by (cases "cache_find path c") (auto simp: c1_def drop_find [unfolded fun_eq_iff] fun_eq_iff)
  have room: "(\<lambda>p. cache_find p (make_room (length v) c1)) \<subseteq>\<^sub>m (\<lambda>p. cache_find p c)(path := None)"
    using make_room_find [of "length v" c1] by (simp add: c1)
  then have "cache_find path (make_room (length v) c1) = None" by (force simp: map_le_def dom_def)
  then have "path \<notin> fst ` set (dk_items (make_room (length v) c1))" by (simp add: cache_find_def map_of_eq_None_iff)
  then have "(\<lambda>p. cache_find p (disk_step ev c)) = (\<lambda>p. cache_find p (make_room (length v) c1))(path \<mapsto> v)"
    using False DStore
    by (simp add: disk_step_def cache_store_def cache_find_def [of _ "dk_items_update _ _"] c1_def [symmetric] Let_def insert_find)
      (simp add: cache_find_def fun_eq_iff)
    then show ?thesis using room DStore False by (auto simp: stored_step_def map_le_def)
  qed
next
  case (DEvict path)
  then show ?thesis by (simp add: disk_step_def evict_find)
qed

text \<open>
  C26. Over every sequence of stores and removals, of directories too, whatever the cache finds is what was
  stored last under that path and not removed since, where values of more than 4 GiB do not count:
  for those the older value is still found, although the file on disk is new
  (\<open>large_store_keeps_old\<close>).
\<close>

theorem cache_consistent:
  assumes "cache_find p (fold disk_step evs disk_cache) = Some v"
  shows "fold stored_step evs Map.empty p = Some v"
proof -
  have "(\<lambda>p. cache_find p (fold disk_step evs c)) \<subseteq>\<^sub>m fold stored_step evs m"
    if "(\<lambda>p. cache_find p c) \<subseteq>\<^sub>m m" for c m
    using that
  proof (induction evs arbitrary: c m)
    case (Cons ev evs)
    then have "(\<lambda>p. cache_find p (disk_step ev c)) \<subseteq>\<^sub>m stored_step ev m"
      using map_le_trans [OF disk_step_le stored_step_mono] by simp
    then show ?case using Cons by simp
  qed simp
  from this [of disk_cache Map.empty] have "(\<lambda>p. cache_find p (fold disk_step evs disk_cache)) \<subseteq>\<^sub>m fold stored_step evs Map.empty"
    by (simp add: cache_find_def disk_cache_def)
  then show ?thesis using assms by (force simp: map_le_def dom_def)
qed

theorem cache_consistent_witness:
  "fold stored_step [DStore [97] [1], DStore [97] [2]] Map.empty [97] = Some [2]"
proof (rule cache_consistent)
  show "cache_find [97] (fold disk_step [DStore [97] [1], DStore [97] [2]] disk_cache) = Some [2]"
    by (simp add: disk_step_def cache_store_def cache_find_def disk_cache_def make_room.simps drop_item_def)
qed

text \<open>A file of more than four gigabytes leaves the old contents in the cache.\<close>

theorem large_store_keeps_old:
  assumes "2 ^ 32 < length data" and "cache_find path c = Some old"
  shows "cache_find path (cache_store path data c) = Some old"
  using assms by (simp add: cache_store_def)

theorem large_store_keeps_old_witness:
  "cache_find [97] (cache_store [97] (replicate (2 ^ 33) 0) (disk_cache\<lparr>dk_items := [([97], [1])]\<rparr>)) = Some [1]"
proof (rule large_store_keeps_old)
  show "2 ^ 32 < length (replicate (2 ^ 33) (0 :: byte))" unfolding length_replicate by simp
qed (simp add: cache_find_def)

section \<open>Directories\<close>

text \<open>
  C38. The bytes that leave the cache with a directory stay in the counter: once they add up to the limit,
  the cache never again holds more than the value stored last.
\<close>

theorem cache_starves:
  assumes "suffix (cstr ''/'') dir" and "prefix dir path" and "length data \<le> 2 ^ 32" and "2 ^ 32 \<le> k * length data"
    and "k * length data < 2 ^ 62" and "list_all (\<lambda>e. length (snd e) \<le> 2 ^ 32) (es @ [(q, v)])"
  shows "dk_items (fold disk_step (concat (replicate k [DStore path data, DEvict dir]) @ map (\<lambda>e. DStore (fst e) (snd e)) (es @ [(q, v)]))
    disk_cache) = [(q, v)]"
proof -
  have cycle: "\<exists>c'. fold disk_step (concat (replicate j [DStore path data, DEvict dir])) disk_cache = c' \<and>
      dk_items c' = [] \<and> accounts (j * length data) c'" if "j \<le> k" for j
    using that
  proof (induction j)
    case 0
    then show ?case using start_accounts by (simp add: disk_cache_def)
  next
    case (Suc j)
    then obtain c where c: "fold disk_step (concat (replicate j [DStore path data, DEvict dir])) disk_cache = c" "dk_items c = []"
      "accounts (j * length data) c" by auto
    have "j * length data \<le> k * length data" using Suc.prems by (intro mult_le_mono1) simp
    moreover have "(2 :: nat) ^ 62 < 2 ^ 63" by simp
    ultimately have small: "j * length data < 2 ^ 63" using assms(5) by (meson le_less_trans less_trans)
    let ?c1 = "cache_store path data c"
    have one: "dk_items ?c1 = [(path, data)]"
      using store_items [OF c(3) small assms(3), of path] c(2) by (metis map_insert.simps(1) set_empty subset_empty list.set(1))
    have "accounts (Suc j * length data) (cache_evict dir ?c1)"
      using evict_accounts [OF store_accounts [OF c(3) small] small, of dir path data] assms(1,2) one by (simp add: bytes_in_def add.commute)
    moreover have "dk_items (cache_evict dir ?c1) = []" using assms(1,2) one by (simp add: cache_evict_def Let_def)
    moreover have "fold disk_step (concat (replicate (Suc j) [DStore path data, DEvict dir])) disk_cache = cache_evict dir ?c1"
    proof -
      have rep: "replicate (Suc j) x = replicate j x @ [x]" for x :: "disk_event list" by (simp add: replicate_append_same)
      show ?thesis unfolding rep using c(1) by (simp add: disk_step_def)
    qed
    ultimately show ?case by blast
  qed
  obtain c where c: "fold disk_step (concat (replicate k [DStore path data, DEvict dir])) disk_cache = c" "accounts (k * length data) c"
    using cycle [of k] by auto
  have small: "k * length data < 2 ^ 63" using assms(5) by simp
  define c2 where "c2 = fold disk_step (map (\<lambda>e. DStore (fst e) (snd e)) es) c"
  have "accounts (k * length data) c2"
    unfolding c2_def by (rule file_events_account [OF c(2) small]) (simp add: list_all_iff file_event_def)
  moreover have "length v \<le> 2 ^ 32" using assms(6) by simp
  ultimately have "dk_items (cache_store q v c2) = [(q, v)]"
    by (rule store_items [OF _ small, of c2 v q]) (use assms(4) in simp)
  then show ?thesis using c(1) by (simp add: c2_def disk_step_def)
qed

theorem cache_starves_witness:
  "dk_items (fold disk_step (concat (replicate (2 ^ 32) [DStore [97, 47, 98] [0], DEvict [97, 47]]) @
    map (\<lambda>e. DStore (fst e) (snd e)) ([([99], [1])] @ [([100], [2])])) disk_cache) = [([100], [2])]"
  by (rule cache_starves) (simp_all add: suffix_def cstr_def)

section \<open>Old contents\<close>

text \<open>
  A file stored without the flag \<open>cached\<close> leaves the cache alone: later loads go on handing out the
  contents before.
\<close>

theorem store_leaves_old:
  assumes "disk_store env root path data flags c s = (Inr full, c1, s1)" and "\<not> bit flags 2" and "cache_find path c = Some old"
  shows "disk_load env root path c1 s2 = (Inr old, c1\<lparr>dk_hits := sz (dk_hits c1 + 1)\<rparr>, s2)"
proof -
  have "c1 = c" using assms(1,2) by (auto simp: disk_store_def Let_def split: if_splits)
  then show ?thesis using assms(3) by (simp add: disk_load_def load_cached_def)
qed

theorem store_leaves_old_witness:
  "disk_load (const_env 1) [] [97] (cache_store [97] [1] disk_cache) idle_server =
    (Inr [1], (cache_store [97] [1] disk_cache)\<lparr>dk_hits := sz (dk_hits (cache_store [97] [1] disk_cache) + 1)\<rparr>, idle_server)"
proof (rule store_leaves_old)
  show "disk_store (const_env 1) [] [97] [2] 0 (cache_store [97] [1] disk_cache) idle_server =
      (Inr (full_path [] [97]), cache_store [97] [1] disk_cache,
       snd (snd (disk_store (const_env 1) [] [97] [2] 0 (cache_store [97] [1] disk_cache) idle_server)))"
    by (simp add: disk_store_def make_dirs_def Let_def os_call_result)
  show "cache_find [97] (cache_store [97] [1] disk_cache) = Some [1]"
    by (rule store_find [OF start_accounts]) simp_all
qed simp

end
