(* ===== verification/Template.thy ===== *)
theory Template
  imports Web_Http Algo
begin

text \<open>
  The compiler of pages, \<^verbatim>\<open>src/90s/httpd/template_compiler.cpp\<close>, which turns a template into C++.  It
  searches with \<open>kmp\<close>; what its callbacks change besides the text is a state that is handed through.
  \<open>None\<close> is a run that does not end.
\<close>

section \<open>Trimming\<close>

definition ltrim :: "byte list \<Rightarrow> byte list" where
  "ltrim s = dropWhile c_isspace s"

definition rtrim :: "byte list \<Rightarrow> byte list" where
  "rtrim s = rev (dropWhile c_isspace (rev s))"

definition trim :: "byte list \<Rightarrow> byte list" where
  "trim s = ltrim (rtrim s)"

section \<open>Parts between marks\<close>

text \<open>One pass: \<open>match_cb\<close> for what stands between the marks, \<open>rest_cb\<close> for the rest, and the number of matches.\<close>

partial_function (option) replace_scan :: "(nat \<Rightarrow> int) \<Rightarrow> byte list \<Rightarrow> byte list \<Rightarrow>
    (byte list \<Rightarrow> 's \<Rightarrow> byte list \<times> 's) \<Rightarrow> (byte list \<Rightarrow> 's \<Rightarrow> byte list \<times> 's) \<Rightarrow>
    byte list \<Rightarrow> nat \<Rightarrow> byte list \<Rightarrow> nat \<Rightarrow> 's \<Rightarrow> (byte list \<times> nat \<times> 's) option" where
  "replace_scan junk start fin match_cb rest_cb data offset out matches st =
     Option.bind (kmp junk data start offset None) (\<lambda>(mo, ml).
       if ml \<noteq> length start then
         (let r = rest_cb (drop offset data) st in Some (out @ fst r, matches, snd r))
       else
         (let r = rest_cb (take (mo - offset) (drop offset data)) st; p = mo + length start in
          Option.bind (kmp junk data fin p None) (\<lambda>(eo, el).
            let m = match_cb (take (if el \<noteq> length fin then length data - p else eo - p) (drop p data)) (snd r);
                out' = out @ fst r @ fst m in
            if el \<noteq> length fin then Some (out', Suc matches, snd m)
            else replace_scan junk start fin match_cb rest_cb data (eo + length fin) out' (Suc matches) (snd m))))"

partial_function (option) replace_between :: "(nat \<Rightarrow> int) \<Rightarrow> byte list \<Rightarrow> byte list \<Rightarrow>
    (byte list \<Rightarrow> 's \<Rightarrow> byte list \<times> 's) \<Rightarrow> (byte list \<Rightarrow> 's \<Rightarrow> byte list \<times> 's) \<Rightarrow> bool \<Rightarrow> byte list \<Rightarrow> 's \<Rightarrow> (byte list \<times> 's) option" where
  "replace_between junk start fin match_cb rest_cb indefinite data st =
     Option.bind (replace_scan junk start fin match_cb rest_cb data 0 [] 0 st) (\<lambda>(out, matches, st1).
       if indefinite \<and> matches \<noteq> 0 then replace_between junk start fin match_cb rest_cb indefinite out st1
       else Some (out, st1))"

section \<open>Texts as C++\<close>

text \<open>\<open>simplify\<close>: white space goes, but for one character behind a tag and what stands inside of texts and tags.\<close>

fun clean_step :: "byte \<Rightarrow> nat \<times> byte list \<Rightarrow> nat \<times> byte list" where
  "clean_step c (cleaning, clean) =
     (if c = 62 then (2, clean @ [c])
      else if c = 60 then (0, clean @ [c])
      else if c \<in> {32, c_tab, c_cr, c_lf} then
        (if cleaning = 0 then (cleaning, clean @ [c]) else if cleaning = 2 then (1, clean @ [c]) else (cleaning, clean))
      else (0, clean @ [c]))"

definition simplified :: "byte list \<Rightarrow> byte list" where
  "simplified source = snd (fold clean_step source (1, []))"

definition cpp_char :: "bool \<Rightarrow> byte \<Rightarrow> byte list" where
  "cpp_char final c =
     (if c = c_dquote then [c_backslash, c_dquote]
      else if c = c_lf then (if final then [c_backslash, 110] else [c_backslash, 110, c_dquote, c_lf, c_tab, c_tab, c_dquote])
      else if c = c_cr then [c_backslash, 114]
      else if c = c_tab then [c_backslash, 116]
      else [c])"

fun cpp_chars :: "byte list \<Rightarrow> byte list" where
  "cpp_chars [] = []"
| "cpp_chars (c # cs) = cpp_char (cs = []) c @ cpp_chars cs"

definition take_var :: "byte list \<Rightarrow> byte list \<Rightarrow> byte list \<times> byte list" where
  "take_var m vars = (cstr ''{}'', vars @ cstr '', '' @ m)"

definition keep :: "byte list \<Rightarrow> 's \<Rightarrow> byte list \<times> 's" where
  "keep m st = (m, st)"

definition cppize :: "(nat \<Rightarrow> int) \<Rightarrow> byte list \<Rightarrow> byte list \<Rightarrow> bool \<Rightarrow> bool \<Rightarrow> byte list option" where
  "cppize junk ctx_name source_code has_vars simplify =
     Option.bind
       (if has_vars then replace_between junk (cstr ''#[['') (cstr '']]'') take_var keep False source_code []
        else Some (source_code, []))
       (\<lambda>(internal, vars).
         let result = cpp_chars (if simplify then simplified internal else internal) in
         if result = [] then Some []
         else Some ([c_tab, c_tab] @ ctx_name @ cstr ''->write'' @ (if vars = [] then [] else cstr ''_formatted'') @
           [40, c_dquote] @ result @ [c_dquote] @ vars @ cstr '');'' @ [c_lf]))"

datatype code_state = AnyText | NewLine | CodeHit

text \<open>The state of the loop over the code: \<open>out\<close>, \<open>outline\<close> and where it is.\<close>

fun code_step :: "(nat \<Rightarrow> int) \<Rightarrow> byte list \<Rightarrow> bool \<Rightarrow> byte \<Rightarrow> byte list \<times> byte list \<times> code_state \<Rightarrow>
    (byte list \<times> byte list \<times> code_state) option" where
  "code_step junk ctx_name simplify c (out, outline, state) =
     (if c = c_cr then Some (out, outline, state)
      else if c = c_lf then
        (if state = CodeHit then
           map_option (\<lambda>t. (out @ t, [], NewLine)) (cppize junk ctx_name outline True simplify)
         else Some (out @ [c], outline, NewLine))
      else if c = 32 \<or> c = c_tab then
        (if state \<noteq> CodeHit then Some (out @ [c], outline, state) else Some (out, outline @ [c], state))
      else if c = 124 then
        (let state1 = (if state = NewLine then CodeHit else state) in
         if state1 \<noteq> CodeHit then Some (out @ [c], outline, state1) else Some (out, [], state1))
      else
        (let state1 = (if state = NewLine then AnyText else state) in
         if state1 = AnyText then Some (out @ [c], outline, state1) else Some (out, outline @ [c], state1)))"

primrec code_loop :: "(nat \<Rightarrow> int) \<Rightarrow> byte list \<Rightarrow> bool \<Rightarrow> byte list \<Rightarrow> byte list \<times> byte list \<times> code_state \<Rightarrow>
    (byte list \<times> byte list \<times> code_state) option" where
  "code_loop junk ctx_name simplify [] st = Some st"
| "code_loop junk ctx_name simplify (c # cs) st = Option.bind (code_step junk ctx_name simplify c st) (code_loop junk ctx_name simplify cs)"

definition compile_cpp :: "(nat \<Rightarrow> int) \<Rightarrow> byte list \<Rightarrow> byte list \<Rightarrow> bool \<Rightarrow> byte list option" where
  "compile_cpp junk ctx_name code simplify =
     Option.bind (code_loop junk ctx_name simplify code ([], [], AnyText)) (\<lambda>(out, outline, state).
       if outline = [] then Some out
       else map_option (\<lambda>t. out @ t) (cppize junk ctx_name (trim outline) True simplify))"

section \<open>A page\<close>

definition mime_of :: "byte list \<Rightarrow> byte list \<times> bool" where
  "mime_of file_name =
     (if suffix (cstr ''.txt'') file_name then (cstr ''text/plain'', False)
      else if suffix (cstr ''.js'') file_name then (cstr ''application/javascript'', False)
      else if suffix (cstr ''.json'') file_name then (cstr ''applicaton/json'', False)
      else if suffix (cstr ''.xml'') file_name then (cstr ''text/xml'', True)
      else if suffix (cstr ''.md'') file_name then (cstr ''text/markdown'', False)
      else if suffix (cstr ''.html'') file_name then (cstr ''text/html'', True)
      else if suffix (cstr ''.xhtml'') file_name then (cstr ''application/xhtml+xml'', True)
      else (cstr ''text/plain'', False))"

text \<open>The method a file name stands for, with the name without it.\<close>

definition method_of :: "byte list \<Rightarrow> byte list \<times> byte list" where
  "method_of name =
     (let cut = (\<lambda>n k. take (n + 1) name @ drop (n + 1 + k) name) in
      (case view_search (cstr ''/post.'') name of
         Some n \<Rightarrow> (cstr ''POST '', cut n 5)
       | None \<Rightarrow>
           (case view_search (cstr ''/delete.'') name of
              Some n \<Rightarrow> (cstr ''DELETE '', cut n 7)
            | None \<Rightarrow>
                (case view_search (cstr ''/put.'') name of
                   Some n \<Rightarrow> (cstr ''PUT '', cut n 4)
                 | None \<Rightarrow> ([], name)))))"

definition guess_name :: "byte list \<Rightarrow> byte list" where
  "guess_name file_name =
     (let name0 = map (\<lambda>c. if c = c_backslash then 47 else c) file_name;
          name1 = (if prefix (cstr ''/'') name0 then name0 else 47 # name0);
          (script, name) = method_of name1 in
      if suffix (cstr ''.html'') name \<or> suffix (cstr ''.xhtml'') name then script @ take (length name - 5) name
      else script @ name)"

text \<open>The first line, when it gives the name.\<close>

definition name_line :: "byte list \<Rightarrow> byte list \<Rightarrow> byte list \<times> byte list" where
  "name_line script data =
     (if prefix (cstr ''#!'') data then
        (case view_find c_lf data of
           None \<Rightarrow> (trim (drop 2 data), data)
         | Some line_end \<Rightarrow> (trim (take (line_end - 2) (drop 2 data)), drop line_end data))
      else (script, data))"

text \<open>
  A file that is included: the path is resolved by the library, which also writes it out when the file is
  not there.
\<close>

definition include_file :: "env \<Rightarrow> byte list \<Rightarrow> byte list \<Rightarrow> server \<Rightarrow> byte list \<times> server" where
  "include_file env path name s =
     (let r = os_call env ''ifstream'' [LStr path, LStr (trim name)] s; file = a_bytes (fst r) in
      if a_ret (fst r) < 0 then (c_dquote # cstr ''Failed to include file '' @ file @ [c_dquote], snd r)
      else if prefix (cstr ''#!'') file then
        (case view_find c_lf file of None \<Rightarrow> (file, snd r) | Some n \<Rightarrow> (drop (n + 1) file, snd r))
      else (file, snd r))"

definition take_hpp :: "byte list \<Rightarrow> byte list \<Rightarrow> byte list \<times> byte list" where
  "take_hpp m includes = ([], includes @ [c_lf] @ m @ [c_lf])"

text \<open>
  The code parts and the text between them.  The state tells whether every callback has ended so far.
\<close>

definition or_stop :: "byte list option \<Rightarrow> bool \<Rightarrow> byte list \<times> bool" where
  "or_stop t st = (case (st, t) of (True, Some u) \<Rightarrow> (u, True) | _ \<Rightarrow> ([], False))"

definition code_part :: "(nat \<Rightarrow> int) \<Rightarrow> byte list \<Rightarrow> bool \<Rightarrow> byte list \<Rightarrow> byte list option" where
  "code_part junk ctx_name simplify m =
     Option.bind
       (replace_between junk (cstr ''```'') (cstr ''```'')
          (\<lambda>t. or_stop (cppize junk ctx_name t True simplify))
          keep False m True)
       (\<lambda>(t, fine). if fine then compile_cpp junk ctx_name t simplify else None)"

definition page_body :: "(nat \<Rightarrow> int) \<Rightarrow> byte list \<Rightarrow> bool \<Rightarrow> byte list \<Rightarrow> byte list option" where
  "page_body junk ctx_name simplify data =
     Option.bind
       (replace_between junk (cstr ''<?cpp'') (cstr ''?>'') (\<lambda>m. or_stop (code_part junk ctx_name simplify m))
          (\<lambda>m. or_stop (cppize junk ctx_name m False simplify)) False data True)
       (\<lambda>(t, fine). if fine then Some t else None)"

definition ln :: "string \<Rightarrow> byte list" where
  "ln t = cstr t @ [c_lf]"

definition page_text :: "byte list \<Rightarrow> byte list \<Rightarrow> byte list \<Rightarrow> byte list \<Rightarrow> byte list \<Rightarrow> byte list \<Rightarrow> byte list" where
  "page_text includes class_name base_name script_name mime_type body =
     ln ''// autogenerated by template_compiler'' @ ln ''#include <90s/httpd/page.hpp>'' @ [c_lf] @
     ln ''using s90::httpd::ienvironment;'' @ ln ''using s90::httpd::render_context;'' @ ln ''using s90::httpd::page;'' @
     ln ''using s90::httpd::status;'' @ ln ''using s90::httpd::encryption;'' @ ln ''using namespace s90;'' @ [c_lf] @
     includes @ [c_lf, c_lf] @
     cstr ''class '' @ class_name @ cstr '' : public '' @ base_name @ ln '' {'' @ ln ''public:'' @
     ln ''    const char *name() const override {'' @ cstr ''        return '' @ [c_dquote] @ script_name @ [c_dquote] @ ln '';'' @
     ln ''    }'' @ [c_lf] @
     ln ''    aiopromise<std::expected<nil, status>> render(std::shared_ptr<ienvironment> env) const override {'' @
     cstr ''        env->content_type('' @ [c_dquote] @ mime_type @ [c_dquote] @ ln '');'' @
     body @ [c_lf] @ ln ''        co_return nil {};'' @ ln ''    }'' @ ln ''};'' @ [c_lf] @
     ln ''#ifndef PAGE_INCLUDE'' @
     cstr ''extern '' @ [c_dquote] @ cstr ''C'' @ [c_dquote] @ cstr '' LIBRARY_EXPORT void* load_'' @ class_name @
       cstr ''() { return new '' @ class_name @ ln ''; }'' @
     cstr ''extern '' @ [c_dquote] @ cstr ''C'' @ [c_dquote] @ cstr '' LIBRARY_EXPORT void unload_'' @ class_name @ cstr ''('' @
       class_name @ ln '' *entity) { delete entity; }'' @
     ln ''#endif''"

definition compile :: "(nat \<Rightarrow> int) \<Rightarrow> env \<Rightarrow> byte list \<Rightarrow> byte list \<Rightarrow> byte list \<Rightarrow> byte list \<Rightarrow> byte list \<Rightarrow> byte list \<Rightarrow> server \<Rightarrow>
    (byte list \<times> server) option" where
  "compile junk env file_name path output_context input_data class_name base_name s =
     (let (mime_type, simplify) = mime_of file_name;
          (script_name, data0) = name_line (guess_name file_name) (trim input_data) in
      Option.bind (replace_between junk (cstr ''<?include '') (cstr ''?>'') (include_file env path) keep True (trim data0) s)
        (\<lambda>(data1, s1).
      Option.bind (replace_between junk (cstr ''<?hpp'') (cstr ''?>'') take_hpp keep False data1 []) (\<lambda>(data2, includes).
      map_option (\<lambda>body. (page_text includes class_name base_name script_name mime_type body, s1))
        (page_body junk output_context simplify data2))))"

text \<open>\<open>main\<close>: the result of the process, and what is written where.\<close>

definition template_main :: "(nat \<Rightarrow> int) \<Rightarrow> env \<Rightarrow> byte list list \<Rightarrow> server \<Rightarrow> (int \<times> server) option" where
  "template_main junk env argv s =
     (let argc = length argv in
      if argc < 4 then Some (1, snd (os_call env ''cerr'' [LStr (cstr ''usage'')] s))
      else
        (let class_name = (if 5 \<le> argc then argv ! 4 else cstr ''renderable'');
             base_name = (if 6 \<le> argc then argv ! 5 else cstr ''page'');
             f = os_call env ''ifstream'' [LStr (argv ! 2)] s in
         if a_ret (fst f) < 0 then Some (1, snd (os_call env ''cerr'' [LStr (cstr ''reading'')] (snd f)))
         else
           Option.bind (compile junk env (argv ! 1) (argv ! 2) (cstr ''env->output()'') (a_bytes (fst f)) class_name base_name (snd f))
             (\<lambda>(out, s1).
               if argv ! 3 = cstr ''stdout'' then Some (0, snd (os_call env ''cout'' [LStr out] s1))
               else
                 (let g = os_call env ''ofstream'' [LStr (argv ! 3)] s1 in
                  if a_ret (fst g) < 0 then Some (1, snd (os_call env ''cerr'' [LStr (cstr ''writing'')] (snd g)))
                  else Some (0, snd (os_call env ''write_file'' [LStr out] (snd g)))))))"

section \<open>The search\<close>

lemma prefix_agrees:
  assumes "s + length p \<le> length h"
  shows "prefix p (drop s h) \<longleftrightarrow> agrees p h s (length h)"
proof -
  have "take (length p) (drop s h) = p \<longleftrightarrow> (\<forall>x<length p. drop s h ! x = p ! x)"
    using assms by (auto simp: list_eq_iff_nth_eq)
  moreover have "prefix p (drop s h) \<longleftrightarrow> take (length p) (drop s h) = p"
    by (metis append_eq_conv_conj append_take_drop_id prefix_def)
  ultimately show ?thesis using assms by (auto simp: agrees_def)
qed

lemma search_position: "view_search p xs = Some n \<Longrightarrow> prefix p (drop n xs) \<and> (\<forall>i<n. \<not> prefix p (drop i xs))"
proof (induction xs arbitrary: n)
  case (Cons c cs)
  show ?case
  proof (cases "prefix p (c # cs)")
    case False
    then obtain m where m: "view_search p cs = Some m" "n = Suc m" using Cons.prems by auto
    have "\<not> prefix p (drop i (c # cs))" if "i < n" for i
      using Cons.IH [OF m(1)] False that m(2) by (cases i) auto
    then show ?thesis using Cons.IH [OF m(1)] m(2) by simp
  qed (use Cons.prems in auto)
qed (auto split: if_splits)

lemma search_none: "view_search p xs = None \<Longrightarrow> \<not> prefix p (drop i xs)"
proof
  assume none: "view_search p xs = None" and "prefix p (drop i xs)"
  then have "xs = take i xs @ p @ drop (length p) (drop i xs)"
    by (metis append_eq_conv_conj append_take_drop_id prefix_def)
  then show False using none view_search_None by metis
qed

lemma kmp_search:
  assumes "p \<noteq> []" and "length p \<le> 256" and "offset \<le> length h" and "length h < 2 ^ 63"
  obtains s l where "kmp junk h p offset None = Some (s, l)"
    "case view_search p (drop offset h) of Some n \<Rightarrow> s = offset + n \<and> l = length p | None \<Rightarrow> l \<noteq> length p"
proof (cases "h = []")
  case True
  then show thesis using assms(1) that [of 0 0] by (simp add: kmp_def)
next
  case False
  from kmp_result [OF assms(1) False assms(3,4,2)] obtain s where
    s: "kmp junk h p offset None = Some (s, min (length p) (length h - s))" "first_agreement p h offset s" by blast
  show thesis
  proof (cases "view_search p (drop offset h)")
    case None
    have "\<not> s + length p \<le> length h"
    proof
      assume "s + length p \<le> length h"
      moreover have "agrees p h s (length h)" "offset \<le> s" using s(2) by (simp_all add: first_agreement_def)
      ultimately have "prefix p (drop (s - offset) (drop offset h))" by (simp add: prefix_agrees)
      then show False using search_none [OF None] by blast
    qed
    then have "min (length p) (length h - s) \<noteq> length p" using assms(1) by (cases p) auto
    then show thesis using that [OF s(1)] None by simp
  next
    case (Some n)
    have fit: "offset + n + length p \<le> length h" using view_search_Some [OF Some] assms(3) by auto
    have "prefix p (drop (offset + n) h)" using search_position [OF Some] by (simp add: add.commute)
    then have at: "agrees p h (offset + n) (length h)" using fit by (simp add: prefix_agrees)
    have "s = offset + n"
    proof (rule ccontr)
      assume "s \<noteq> offset + n"
      moreover have "\<not> offset + n < s" using s(2) at by (auto simp: first_agreement_def)
      ultimately have less: "s < offset + n" by simp
      have "agrees p h s (length h)" "offset \<le> s" using s(2) by (simp_all add: first_agreement_def)
      moreover have "s + length p \<le> length h" using less fit by simp
      ultimately have "prefix p (drop (s - offset) (drop offset h))" by (simp add: prefix_agrees)
      moreover have "s - offset < n" using less \<open>offset \<le> s\<close> by simp
      ultimately show False using search_position [OF Some] by blast
    qed
    then show thesis using that [OF s(1)] Some fit by (simp add: min_def)
  qed
qed

section \<open>The reference for parts between marks\<close>

text \<open>From the first mark to the next one that ends it; the last part may lack its end.\<close>

lemma part_smaller:
  assumes "view_search start data = Some n" and "start \<noteq> []"
  shows "length data - (k + length fin + (n + length start)) < length data"
proof -
  have "n + length start \<le> length data" using view_search_Some [OF assms(1)] by blast
  moreover have "0 < length start" using assms(2) by simp
  ultimately show ?thesis by linarith
qed

function parts_of :: "byte list \<Rightarrow> byte list \<Rightarrow> (byte list \<Rightarrow> 's \<Rightarrow> byte list \<times> 's) \<Rightarrow> (byte list \<Rightarrow> 's \<Rightarrow> byte list \<times> 's) \<Rightarrow>
    byte list \<Rightarrow> 's \<Rightarrow> byte list \<times> nat \<times> 's" where
  "parts_of start fin match_cb rest_cb data st =
     (case view_search start data of
        None \<Rightarrow> (fst (rest_cb data st), 0, snd (rest_cb data st))
      | Some n \<Rightarrow>
          (let r = rest_cb (take n data) st; tail = drop (n + length start) data in
           case view_search fin tail of
             None \<Rightarrow> (fst r @ fst (match_cb tail (snd r)), 1, snd (match_cb tail (snd r)))
           | Some k \<Rightarrow>
               (let m = match_cb (take k tail) (snd r) in
                if start = [] then ([], 0, st)
                else (let (out, matches, st') = parts_of start fin match_cb rest_cb (drop (k + length fin) tail) (snd m) in
                  (fst r @ fst m @ out, Suc matches, st')))))"
  by pat_completeness auto
termination
  by (relation "measure (\<lambda>(start, _, _, _, data, _). length data)") (auto intro: part_smaller)

declare parts_of.simps [simp del]

lemma scan_splices:
  assumes "start \<noteq> []" and "length start \<le> 256" and "fin \<noteq> []" and "length fin \<le> 256" and "length data < 2 ^ 63" and "offset \<le> length data"
  shows "replace_scan junk start fin match_cb rest_cb data offset out matches st =
    Some (case parts_of start fin match_cb rest_cb (drop offset data) st of (out', n, st') \<Rightarrow> (out @ out', matches + n, st'))"
  using assms(6)
proof (induction "length data - offset" arbitrary: offset out matches st rule: less_induct)
  case less
  obtain mo ml where m: "kmp junk data start offset None = Some (mo, ml)"
    "case view_search start (drop offset data) of Some n \<Rightarrow> mo = offset + n \<and> ml = length start | None \<Rightarrow> ml \<noteq> length start"
    by (rule kmp_search [OF assms(1,2) less.prems assms(5)])
  show ?case
  proof (cases "view_search start (drop offset data)")
    case None
    then show ?thesis using m
      by (simp add: replace_scan.simps [of junk start fin match_cb rest_cb data offset] parts_of.simps [of start fin match_cb rest_cb] Let_def)
  next
    case (Some n)
    define p where "p = offset + n + length start"
    have "n + length start \<le> length data - offset" using view_search_Some [OF Some] by simp
    then have p: "p \<le> length data" using less.prems by (simp add: p_def)
    have tail: "drop (n + length start) (drop offset data) = drop p data" by (simp add: p_def add.commute add.left_commute)
    define r where "r = rest_cb (take n (drop offset data)) st"
    obtain eo el where e: "kmp junk data fin p None = Some (eo, el)"
      "case view_search fin (drop p data) of Some k \<Rightarrow> eo = p + k \<and> el = length fin | None \<Rightarrow> el \<noteq> length fin"
      by (rule kmp_search [OF assms(3,4) p assms(5)])
    show ?thesis
    proof (cases "view_search fin (drop p data)")
      case None
      then show ?thesis using m e Some tail
        by (simp add: replace_scan.simps [of junk start fin match_cb rest_cb data offset] parts_of.simps [of start fin match_cb rest_cb]
            Let_def p_def r_def)
    next
      case end_at: (Some k)
      have "k + length fin \<le> length (drop p data)" using view_search_Some [OF end_at] by blast
      then have fit: "p + k + length fin \<le> length data" using p by simp
      define mm where "mm = match_cb (take k (drop p data)) (snd r)"
      have smaller: "length data - (p + k + length fin) < length data - offset"
      proof -
        have "0 < length start" using assms(1) by simp
        then show ?thesis using fit unfolding p_def by linarith
      qed
      note IH = less.hyps [OF smaller fit, of "out @ fst r @ fst mm" "Suc matches" "snd mm"]
      have "replace_scan junk start fin match_cb rest_cb data offset out matches st =
          replace_scan junk start fin match_cb rest_cb data (p + k + length fin) (out @ fst r @ fst mm) (Suc matches) (snd mm)"
        using m e Some end_at
        by (simp add: replace_scan.simps [of junk start fin match_cb rest_cb data offset] Let_def p_def r_def mm_def)
      moreover have "parts_of start fin match_cb rest_cb (drop offset data) st =
          (case parts_of start fin match_cb rest_cb (drop (p + k + length fin) data) (snd mm) of
             (out', n', st') \<Rightarrow> (fst r @ fst mm @ out', Suc n', st'))"
        using Some end_at tail assms(1)
        by (simp add: parts_of.simps [of start fin match_cb rest_cb "drop offset data"] Let_def r_def mm_def add.commute add.left_commute)
      ultimately show ?thesis using IH by (simp split: prod.splits)
    qed
  qed
qed

lemma between_splices:
  assumes "start \<noteq> []" and "length start \<le> 256" and "fin \<noteq> []" and "length fin \<le> 256" and "length data < 2 ^ 63"
  shows "replace_between junk start fin match_cb rest_cb False data st =
    Some (case parts_of start fin match_cb rest_cb data st of (out, n, st') \<Rightarrow> (out, st'))"
  using scan_splices [OF assms, of 0 junk match_cb rest_cb "[]" 0 st]
  by (simp add: replace_between.simps [of junk start fin match_cb rest_cb False data] split: prod.splits)

text \<open>
  C29. A pass over the marks ends and does what the reference does, which looks for the first mark and the
  end of it with a plain search: every part between marks goes to one callback, the rest to the other,
  once each and in order.
\<close>

theorem replace_between_splices:
  assumes "start \<noteq> []" and "length start \<le> 256" and "fin \<noteq> []" and "length fin \<le> 256" and "length data < 2 ^ 63"
  shows "replace_between junk start fin match_cb rest_cb False data st =
    Some (case parts_of start fin match_cb rest_cb data st of (out, n, st') \<Rightarrow> (out, st'))"
  using assms by (rule between_splices)

theorem replace_between_splices_witness:
  "replace_between (\<lambda>_. 7) (cstr ''#[['') (cstr '']]'') take_var keep False (cstr ''a#[[x]]b#[[y'') [] =
    Some (case parts_of (cstr ''#[['') (cstr '']]'') take_var keep (cstr ''a#[[x]]b#[[y'') [] of (out, n, st') \<Rightarrow> (out, st'))"
  by (rule replace_between_splices) (simp_all add: cstr_def)

section \<open>Reading C++ literals\<close>

text \<open>
  What a C++ compiler makes of literals one behind the other, with the escapes the template compiler
  writes; \<open>None\<close> is text that is not a sequence of literals.
\<close>

definition cpp_escape :: "byte \<Rightarrow> byte option" where
  "cpp_escape d =
     (if d = 110 then Some c_lf else if d = 114 then Some c_cr else if d = 116 then Some c_tab
      else if d = c_dquote \<or> d = c_backslash then Some d else None)"

fun cpp_read :: "bool \<Rightarrow> byte list \<Rightarrow> byte list option" where
  "cpp_read False [] = Some []"
| "cpp_read True [] = None"
| "cpp_read False (c # cs) =
     (if c \<in> {32, c_tab, c_lf} then cpp_read False cs else if c = c_dquote then cpp_read True cs else None)"
| "cpp_read True (c # cs) =
     (if c = c_dquote then cpp_read False cs
      else if c = c_lf then None
      else if c = c_backslash then
        (case cs of
           [] \<Rightarrow> None
         | d # ds \<Rightarrow> (case cpp_escape d of None \<Rightarrow> None | Some e \<Rightarrow> map_option (Cons e) (cpp_read True ds)))
      else map_option (Cons c) (cpp_read True cs))"

lemma read_cpp_char:
  assumes "c \<noteq> c_backslash"
  shows "cpp_read True (cpp_char final c @ t) = map_option (Cons c) (cpp_read True t)"
  using assms by (simp add: cpp_char_def cpp_escape_def)

lemma read_cpp_chars:
  assumes "c_backslash \<notin> set source"
  shows "cpp_read True (cpp_chars source @ [c_dquote]) = Some source"
  using assms by (induction source) (auto simp: read_cpp_char)

lemma read_cpp_prefix:
  assumes "c_backslash \<notin> set xs" and "ys \<noteq> []"
  shows "cpp_read True (cpp_chars (xs @ ys) @ t) = map_option ((@) xs) (cpp_read True (cpp_chars ys @ t))"
proof (use assms(1) in \<open>induction xs\<close>)
  case Nil
  then show ?case by (simp add: option.map_ident)
next
  case (Cons x xs)
  then show ?case by (simp add: read_cpp_char option.map_comp comp_def)
qed

lemma simplified_set: "set (simplified source) \<subseteq> set source"
proof -
  have "set (snd (fold clean_step source (n, clean))) \<subseteq> set clean \<union> set source" for n clean
    by (induction source arbitrary: n clean) (force split: if_splits)+
  from this [of 1 "[]"] show ?thesis by (simp add: simplified_def)
qed

lemma cpp_chars_empty: "cpp_chars t = [] \<longleftrightarrow> t = []"
  by (cases t) (auto simp: cpp_char_def)

definition written :: "byte list \<Rightarrow> byte list \<Rightarrow> byte list" where
  "written ctx_name lit = [c_tab, c_tab] @ ctx_name @ cstr ''->write('' @ lit @ cstr '');'' @ [c_lf]"

lemma cppize_writes:
  assumes "t = (if simplify then simplified source else source)" and "t \<noteq> []"
  shows "cppize junk ctx_name source False simplify = Some (written ctx_name ([c_dquote] @ cpp_chars t @ [c_dquote]))"
  using assms cpp_chars_empty [of t] by (simp add: cppize_def written_def cstr_def Let_def)

section \<open>Pages\<close>

lemma absent_part: "view_search p xs = None \<Longrightarrow> view_search (p @ q) xs = None"
  unfolding view_search_None by (metis append.assoc)

lemma between_absent:
  assumes "view_search start data = None" and "start \<noteq> []" and "length start \<le> 256" and "fin \<noteq> []" and "length fin \<le> 256"
    and "length data < 2 ^ 63"
  shows "replace_between junk start fin match_cb rest_cb indefinite data st = Some (rest_cb data st)"
  using scan_splices [OF assms(2-6), of 0 junk match_cb rest_cb "[]" 0 st] assms(1)
  by (simp add: replace_between.simps [of junk start fin match_cb rest_cb indefinite data] parts_of.simps [of start fin match_cb rest_cb data])

text \<open>
  C28. A template without marks and backslashes becomes a page that writes exactly its text, or what
  simplification leaves of it: the literals of the only call of \<open>write\<close> read back to it.
\<close>

theorem plain_page_written:
  assumes "name_line (guess_name file_name) (trim input) = (script_name, data0)" and "data = trim data0" and "view_search (cstr ''<?'') data = None"
    and "c_backslash \<notin> set data" and "length data < 2 ^ 63" and "text = (if snd (mime_of file_name) then simplified data else data)"
    and "text \<noteq> []"
  shows "\<exists>lit. compile junk env file_name path ctx_name input class_name base_name s =
      Some (page_text [] class_name base_name script_name (fst (mime_of file_name)) (written ctx_name lit), s) \<and>
    cpp_read False lit = Some text"
proof -
  have none: "view_search (cstr ''<?include '') data = None" "view_search (cstr ''<?hpp'') data = None" "view_search (cstr ''<?cpp'') data = None"
    using absent_part [OF assms(3), of "cstr ''include ''"] absent_part [OF assms(3), of "cstr ''hpp''"]
      absent_part [OF assms(3), of "cstr ''cpp''"] by (simp_all add: cstr_def)
  have parts: "replace_between junk (cstr ''<?include '') (cstr ''?>'') (include_file env path) keep True data s = Some (data, s)"
      "replace_between junk (cstr ''<?hpp'') (cstr ''?>'') take_hpp keep False data [] = Some (data, [])"
    using between_absent [OF none(1) _ _ _ _ assms(5), of "cstr ''?>''" junk "include_file env path" keep True s]
      between_absent [OF none(2) _ _ _ _ assms(5), of "cstr ''?>''" junk take_hpp keep False "[]"]
    by (simp_all add: cstr_def keep_def)
  let ?lit = "[c_dquote] @ cpp_chars text @ [c_dquote]"
  have "page_body junk ctx_name (snd (mime_of file_name)) data = Some (written ctx_name ?lit)"
    unfolding page_body_def
    using between_absent [OF none(3) _ _ _ _ assms(5), of "cstr ''?>''" junk "\<lambda>m. or_stop (code_part junk ctx_name (snd (mime_of file_name)) m)"
        "\<lambda>m. or_stop (cppize junk ctx_name m False (snd (mime_of file_name)))" False True]
    by (simp add: cstr_def or_stop_def cppize_writes [OF assms(6,7)])
  moreover have "c_backslash \<notin> set text" using assms(4,6) simplified_set [of data] by (auto split: if_splits)
  then have "cpp_read False ?lit = Some text" by (simp add: read_cpp_chars)
  ultimately show ?thesis
    using parts assms(1,2) by (auto simp: compile_def split: prod.splits)
qed

lemma trimmed_example: "trim (cstr ''<b>  hi  </b>'') = cstr ''<b>  hi  </b>''"
  by code_simp

theorem plain_page_written_witness:
  "\<exists>lit. compile (\<lambda>_. 7) (const_env 1) (cstr ''a.html'') [] (cstr ''o'') (cstr ''<b>  hi  </b>'') (cstr ''c'') (cstr ''page'') idle_server =
      Some (page_text [] (cstr ''c'') (cstr ''page'') (cstr ''/a'') (fst (mime_of (cstr ''a.html''))) (written (cstr ''o'') lit), idle_server) \<and>
    cpp_read False lit = Some (cstr ''<b> hi  </b>'')"
proof (rule plain_page_written)
  show "name_line (guess_name (cstr ''a.html'')) (trim (cstr ''<b>  hi  </b>'')) = (cstr ''/a'', cstr ''<b>  hi  </b>'')"
    unfolding trimmed_example by code_simp
  show "cstr ''<b>  hi  </b>'' = trim (cstr ''<b>  hi  </b>'')" by (simp only: trimmed_example)
  show "cstr ''<b> hi  </b>'' = (if snd (mime_of (cstr ''a.html'')) then simplified (cstr ''<b>  hi  </b>'') else cstr ''<b>  hi  </b>'')"
    by code_simp
qed (simp_all add: cstr_def)

section \<open>Where it goes wrong\<close>

text \<open>
  C40. A backslash is copied as it is: a template that ends with one becomes a literal that is never closed.
\<close>

theorem final_backslash_breaks:
  assumes "c_backslash \<notin> set xs"
  shows "cppize junk ctx_name (xs @ [c_backslash]) False False =
      Some (written ctx_name ([c_dquote] @ cpp_chars (xs @ [c_backslash]) @ [c_dquote])) \<and>
    cpp_read False ([c_dquote] @ cpp_chars (xs @ [c_backslash]) @ [c_dquote]) = None"
  using assms read_cpp_prefix [OF assms, of "[c_backslash]" "[c_dquote]"]
  by (simp add: cppize_writes cpp_char_def cpp_escape_def)

theorem final_backslash_breaks_witness:
  "cppize (\<lambda>_. 7) [111] ([97] @ [c_backslash]) False False =
      Some (written [111] ([c_dquote] @ cpp_chars ([97] @ [c_backslash]) @ [c_dquote])) \<and>
    cpp_read False ([c_dquote] @ cpp_chars ([97] @ [c_backslash]) @ [c_dquote]) = None"
  by (rule final_backslash_breaks) simp

lemma code_line:
  assumes "set ys \<inter> {c_lf, c_cr, 124} = {}"
  shows "code_loop junk ctx_name simplify ys (out, outline, CodeHit) = Some (out, outline @ ys, CodeHit)"
  using assms by (induction ys arbitrary: outline) auto

lemma code_line_bars:
  assumes "c_lf \<notin> set xs"
  shows "\<exists>o2. code_loop junk ctx_name simplify xs (out, outline, CodeHit) = Some (out, o2, CodeHit)"
  using assms by (induction xs arbitrary: outline) auto

lemma code_loop_append:
  "code_loop junk ctx_name simplify (xs @ ys) st = Option.bind (code_loop junk ctx_name simplify xs st) (code_loop junk ctx_name simplify ys)"
  by (induction xs arbitrary: st) (auto split: bind_splits)

text \<open>
  In a line of text within code, a second bar throws away what stood before it: the page does not depend
  on that part.
\<close>

theorem second_bar_drops:
  assumes "c_lf \<notin> set xs" and "set ys \<inter> {c_lf, c_cr, 124} = {}"
  shows "compile_cpp junk ctx_name ([c_lf, 124] @ xs @ [124] @ ys @ [c_lf]) simplify =
    map_option (\<lambda>t. c_lf # t) (cppize junk ctx_name ys True simplify)"
proof -
  obtain o2 where "code_loop junk ctx_name simplify xs ([c_lf], [], CodeHit) = Some ([c_lf], o2, CodeHit)"
    using code_line_bars [OF assms(1)] by blast
  then have "code_loop junk ctx_name simplify ([c_lf, 124] @ xs @ [124] @ ys @ [c_lf]) ([], [], AnyText) =
      map_option (\<lambda>t. ([c_lf] @ t, [], NewLine)) (cppize junk ctx_name ys True simplify)"
    using code_line [OF assms(2)] by (cases "cppize junk ctx_name ys True simplify") (simp_all add: code_loop_append)
  then show ?thesis by (cases "cppize junk ctx_name ys True simplify") (simp_all add: compile_cpp_def)
qed

theorem second_bar_drops_witness:
  "compile_cpp (\<lambda>_. 7) [111] ([c_lf, 124] @ [97] @ [124] @ [98] @ [c_lf]) False =
    map_option (\<lambda>t. c_lf # t) (cppize (\<lambda>_. 7) [111] [98] True False)"
  by (rule second_bar_drops) simp_all

lemma between_diverges:
  assumes "replace_between junk start fin match_cb rest_cb indefinite data st = Some y"
  shows "indefinite \<longrightarrow> (\<forall>st. \<exists>n st1. replace_scan junk start fin match_cb rest_cb data 0 [] 0 st = Some (data, Suc n, st1)) \<longrightarrow> False"
proof (rule replace_between.raw_induct [OF _ assms], intro impI)
  fix loop junk start fin match_cb rest_cb indefinite data st y
  assume IH: "\<And>junk start fin match_cb rest_cb indefinite data st y. loop junk start fin match_cb rest_cb indefinite data st = Some y \<Longrightarrow>
      indefinite \<longrightarrow> (\<forall>st. \<exists>n st1. replace_scan junk start fin match_cb rest_cb data 0 [] 0 st = Some (data, Suc n, st1)) \<longrightarrow> False"
    and body: "Option.bind (replace_scan junk start fin match_cb rest_cb data 0 [] 0 st) (\<lambda>(out, matches, st1).
        if indefinite \<and> matches \<noteq> 0 then loop junk start fin match_cb rest_cb indefinite out st1 else Some (out, st1)) = Some y"
    and rounds: indefinite "\<forall>st. \<exists>n st1. replace_scan junk start fin match_cb rest_cb data 0 [] 0 st = Some (data, Suc n, st1)"
  obtain n st1 where "replace_scan junk start fin match_cb rest_cb data 0 [] 0 st = Some (data, Suc n, st1)" using rounds(2) by blast
  then have "loop junk start fin match_cb rest_cb indefinite data st1 = Some y" using body rounds(1) by simp
  from IH [OF this] show False using rounds by blast
qed

text \<open>A page that consists of the inclusion of a file with the same contents.\<close>

abbreviation (input) self_include :: "byte list" where "self_include \<equiv> cstr ''<?include x?>''"

definition includes_itself :: "env \<Rightarrow> byte list \<Rightarrow> bool" where
  "includes_itself env path \<longleftrightarrow>
     (\<forall>h. let a = answers env (h @ [AOther ''ifstream'' [LStr path, LStr (cstr ''x'')]]) in 0 \<le> a_ret a \<and> a_bytes a = self_include)"

lemma self_include_splice:
  "parts_of (cstr ''<?include '') (cstr ''?>'') cb keep self_include s = (fst (cb (cstr ''x'') s), Suc 0, snd (cb (cstr ''x'') s))"
  by (subst parts_of.simps) (simp add: cstr_def keep_def Let_def parts_of.simps [of _ _ _ _ "[]"])

lemma trim_self: "trim self_include = self_include" "trim (cstr ''x'') = cstr ''x''"
  by code_simp+

lemma name_line_self: "name_line n self_include = (n, self_include)"
  by (simp add: name_line_def cstr_def)

text \<open>
  C39. A file that includes itself is included for ever: the compiler does not end.
\<close>

theorem include_cycle_endless:
  assumes "includes_itself env path"
  shows "compile junk env file_name path ctx_name self_include class_name base_name s = None"
proof -
  have same: "\<exists>s1. include_file env path (cstr ''x'') s = (self_include, s1)" for s
    using spec [OF assms [unfolded includes_itself_def], of "hist s"]
    by (simp add: include_file_def trim_self os_call_result Let_def) (simp add: cstr_def)
  have rounds: "\<exists>n st1. replace_scan junk (cstr ''<?include '') (cstr ''?>'') (include_file env path) keep self_include 0 [] 0 st =
      Some (self_include, Suc n, st1)" for st
    using scan_splices [of "cstr ''<?include ''" "cstr ''?>''" self_include 0 junk "include_file env path" keep "[]" 0 st] same [of st]
    by (auto simp: self_include_splice) (simp add: cstr_def)+
  have "replace_between junk (cstr ''<?include '') (cstr ''?>'') (include_file env path) keep True self_include s = None"
  proof (cases "replace_between junk (cstr ''<?include '') (cstr ''?>'') (include_file env path) keep True self_include s")
    case (Some y)
    from between_diverges [OF this] rounds show ?thesis by blast
  qed
  then show ?thesis
    by (simp add: compile_def trim_self name_line_self split: prod.splits)
qed

theorem include_cycle_endless_witness:
  "compile (\<lambda>_. 7) ((const_env 1)\<lparr>answers := \<lambda>h. \<lparr>a_ret = 1, a_errno = 0, a_bytes = self_include, a_vals = [], a_plan = [], a_events = []\<rparr>\<rparr>)
    (cstr ''x'') [] (cstr ''o'') self_include (cstr ''c'') (cstr ''page'') idle_server = None"
  by (rule include_cycle_endless) (simp add: includes_itself_def)

end
