(* ===== verification/Spec2Isabelle.thy ===== *)
theory Spec2Isabelle
  imports Codec_Escape Json_Roundtrip Http_Headers Serve_Entry Lua_Crypto Afd_Cases Web_Url Web_Faults Web_Exchange Web_Lock Sql_Client Disk_Store Template
begin

text \<open>
  A verification development for the web server 80s: the C server with its Lua interface in
  \<^verbatim>\<open>src/src/80s\<close> and the C++ layer on top of it in \<^verbatim>\<open>src/src/90s\<close>.  This theory only collects the others.

  \<^bold>\<open>The program.\<close>  Each worker is a thread that runs \<open>serve\<close> (\<^verbatim>\<open>serve.epoll.c\<close>): it waits for events of its
  sockets and pipes and calls back \<open>on_receive\<close>, \<open>on_write\<close>, \<open>on_close\<close>, \<open>on_accept\<close> and \<open>on_message\<close>,
  which lead to Lua (\<^verbatim>\<open>lua.c\<close>) or to the C++ layer.  Workers send each other mail (\<^verbatim>\<open>80s_common.c\<close>) and
  meet at a barrier for a live reload (\<^verbatim>\<open>80s.c\<close>).  In the C++ layer a descriptor (\<^verbatim>\<open>afd.cpp\<close>) turns the
  callbacks into promises, on which the coroutines of the HTTP server and client, the web sockets, the
  MySQL client, the caches and the disk storage wait.

  \<^bold>\<open>How it is modelled.\<close>  A machine integer is a \<^verbatim>\<open>word\<close> where its bits matter, and otherwise a number
  with the reduction written out (\<open>sz\<close> for \<open>size_t\<close>; \<open>c_int\<close> is the range of \<open>int\<close>).  Bytes are \<open>8 word\<close>.  The state of
  the server is the record \<open>server\<close> of \<open>System\<close>: the history of the calls made so far, the mailboxes, the
  counters of the reload and \<open>errno\<close>.  The kernel, the C library, Lua code, OpenSSL and the vendored parts
  are the record \<open>env\<close>, a function from the history to an answer, so they may do anything, also something
  else every time; \<open>allocator\<close> says which allocations fail and \<open>crypto_lib\<close> what the digests and ciphers
  compute.  A coroutine of the C++ layer that waits is a call whose answer the environment gives.  The
  result \<open>None\<close> is a fault: an access outside of an array, an exception nobody catches, or a loop that
  does not end.  Loops are \<open>partial_function (option)\<close>, or recursive with a measure; that they end and
  fault nowhere is a theorem where it holds.  Two bounds occur.  The encoders \<open>json_encode\<close> and
  \<open>lua_encode\<close> descend over a step bound \<open>n\<close>, with \<open>None\<close> at 0, and every \<open>n\<close> from \<open>encode_steps\<close> of the
  table on is enough (\<open>json_encode_result\<close>).  The encoders and the JSON decoder take the number of \<open>slots\<close>
  of the Lua stack, for the code never calls \<open>lua_checkstack\<close>: a push beyond them is a fault.  A table
  needs two per level and two more, a text at most one per character and one more, and Lua promises 20.

  \<^bold>\<open>The C layer.\<close>
    \<^item> \<open>Prelude80s\<close>: bytes, memory, \<open>size_t\<close>, lists.  \<open>System\<close>: the environment, the server, the parameter
      structures of \<^verbatim>\<open>80s.h\<close>.
    \<^item> \<open>Algo\<close>: \<^verbatim>\<open>algo.c\<close>; the table has the strong borders and the search finds the first occurrence.
    \<^item> \<open>Dynstr\<close>: \<^verbatim>\<open>dynstr.c\<close>; the locale \<open>byte_sink\<close> is the contract the encoders rely on.
    \<^item> \<open>Codec_Text\<close>, \<open>Codec_Escape\<close>, \<open>Codec_Json\<close>, \<open>Json_Decode\<close>, \<open>Json_Roundtrip\<close>: \<^verbatim>\<open>lua_codec.c\<close>; escaped
      texts are literals; the JSON decoder ends on every text within the stack slots it needs, overflows
      the stack below them, and reads back what the encoder writes.
    \<^item> \<open>Mailbox\<close>: \<open>s80_mail\<close>, \<open>s80_acquire_mailbox\<close> and the interleavings of senders and receiver, with the
      locale \<open>mail_queue\<close>; a receiver leaves its loop at a stop or quit signal and comes back only after a
      stop, so that delivery is proved of those that no quit reaches.
    \<^item> \<open>Sockets\<close>, \<open>Net_Lua\<close>, \<open>Net_Files\<close>, \<open>Http_Headers\<close>: the rest of \<^verbatim>\<open>80s_common.c\<close>, and \<^verbatim>\<open>lua_net.c\<close>.
    \<^item> \<open>Event_Loop\<close>, \<open>Descriptor_Life\<close>, \<open>Serve\<close>, \<open>Serve_Entry\<close>: \<^verbatim>\<open>serve.epoll.c\<close>; what one descriptor
      experiences, with the bytes the kernel's reads handed out; that events end; the delivery of mail by
      callbacks that may send mail themselves; entry and end of the loop.  The loop of \<open>Serve_Entry\<close> passes
      the structures on the stack to the callbacks, and is the one of \<open>Event_Loop\<close> once they are filled
      (\<open>framed_event_same\<close>).
    \<^item> \<open>Startup\<close>, \<open>Reload_Barrier\<close>, \<open>Lua_State\<close>: \<^verbatim>\<open>80s.c\<close> and \<^verbatim>\<open>lua.c\<close>; the reload is a transition system
      over all workers, which the critical section of \<open>run\<close> refines.
    \<^item> \<open>Crypto_Cipher\<close>, \<open>Crypto_Ssl\<close>, \<open>Lua_Crypto\<close>: \<^verbatim>\<open>crypto.c\<close> and \<^verbatim>\<open>lua_crypto.c\<close>.  That decryption undoes
      encryption is the hypothesis \<open>cipher_laws\<close> on the library, \<open>base64_laws\<close> the same for base 64, and
      \<open>plain_lib\<close> and \<open>fours_lib\<close> satisfy them; round trips, forgeries and what is released rest on them.

  \<^bold>\<open>The C++ layer.\<close>
    \<^item> \<open>Afd\<close>, \<open>Afd_Control\<close>, \<open>Afd_Reads\<close>, \<open>Afd_Until\<close>, \<open>Afd_Writes\<close>, \<open>Afd_Cases\<close>: \<^verbatim>\<open>afd.cpp\<close> as a stack of
      tasks, since resuming a promise calls back into the descriptor; data keeps its order, promises are
      resolved once.
    \<^item> \<open>Web_Text\<close> (\<^verbatim>\<open>util.cpp\<close>), \<open>Web_Stream\<close> (awaited reads and writes), \<open>Web_Descriptor\<close> (the same reads
      answered by the descriptor of \<open>Afd\<close>), \<open>Web_Socket\<close>, \<open>Web_Env\<close> (\<^verbatim>\<open>environment.cpp\<close>), \<open>Web_Render\<close>
      (\<^verbatim>\<open>render_context.cpp\<close>), \<open>Web_Http\<close> (\<^verbatim>\<open>server.cpp\<close>), \<open>Web_Client\<close> (\<^verbatim>\<open>client.cpp\<close>), \<open>Web_Cache\<close>
      (\<^verbatim>\<open>cache.hpp\<close>), \<open>Web_Lock\<close> (\<^verbatim>\<open>aiolock.hpp\<close>).
    \<^item> Two contracts say what a connection hands out.  \<open>serves\<close> of \<open>Web_Stream\<close> is a stream that finds a
      delimiter wherever it is; web sockets and MySQL, which read by length, rest on it.  \<open>connected\<close> of
      \<open>Web_Descriptor\<close> says that every answer is the one the modelled descriptor computes from the chunks
      that arrive; the exchange of requests and responses rests on it, and \<open>descriptor_env\<close> satisfies it.
    \<^item> \<open>Web_Exchange\<close>, \<open>Web_Url\<close>, \<open>Web_Faults\<close>: properties across these parts, that requests and responses
      arrive, signed addresses are read back through the cache of addresses, locks are given back, and where
      the server goes wrong.
    \<^item> \<open>Sql_Wire\<close> (\<^verbatim>\<open>mysql_util.cpp\<close>) and \<open>Sql_Client\<close> (\<^verbatim>\<open>mysql.cpp\<close>): numbers and strings of the protocol,
      the login, statements, selections and transactions; a selection the server sends is what the caller
      gets.  The contract \<open>healthy\<close> of a connection that works is satisfied by \<open>live_env\<close>.
    \<^item> \<open>Disk_Store\<close> (\<^verbatim>\<open>disk_storage.cpp\<close>): files and their cache, which refines a map in which a store of
      more than 4 GiB changes nothing.
    \<^item> \<open>Template\<close> (\<^verbatim>\<open>template_compiler.cpp\<close>): the compiler of pages; it uses the search of \<open>Algo\<close>.

  Theorems about errors show behaviour of the code that is not what it means to do.

  \<^bold>\<open>Not modelled.\<close>  The event loops and system layers of Windows, FreeBSD and macOS, which are other
  versions of what is modelled; \<^verbatim>\<open>context.cpp\<close> and the actors, which keep tables over \<open>dlopen\<close>, threads and
  vendored queues and appear as calls of the environment; the TLS handshake coroutines of descriptors; the
  promises of \<^verbatim>\<open>aiopromise.hpp\<close> themselves; name resolution; compression; the object mapping with its JSON,
  templates that have no instance in the repository but the example pages; vendored and Lua code.
\<close>

end
